(* ===== verification/Prelude.thy ===== *)
theory Prelude
  imports Main "HOL-Library.Word"
begin

text \<open>
  Shared ground of the development: the machine types of the i686 configuration of the kernel
  (\<^verbatim>\<open>kernel/types.h\<close>, \<^verbatim>\<open>arch/types.h\<close>), the error numbers of \<^verbatim>\<open>lib/errno.h\<close>, the
  rounding macros of \<^verbatim>\<open>lib/math.h\<close>, and the slot tables (fixed arrays of pointers searched for
  the first \<^verbatim>\<open>NULL\<close>) that the descriptor table, the device tables and the i-node table share.
\<close>

unbundle bit_operations_syntax

named_theorems slot_simps \<open>rewriting of slot-table searches and updates\<close>
named_theorems wrap_simps \<open>arithmetic of machine words read as naturals\<close>

section \<open>Machine types\<close>

type_synonym u8 = "8 word"
type_synonym u16 = "16 word"
type_synonym u32 = "32 word"
type_synonym u64 = "64 word"

section \<open>Error numbers\<close>

text \<open>
  The error numbers the modelled code returns. A C function that returns a non-negative value or
  \<^verbatim>\<open>-Exxx\<close> is modelled with result type \<open>errno + 'a\<close>; \<open>errno_code\<close> gives the number.
\<close>

datatype errno =
    EPERM | ENOENT | ESRCH | EINTR | EIO | ENXIO | E2BIG | ENOEXEC | EBADF | ECHILD
  | EAGAIN | ENOMEM | EACCES | EFAULT | ENOTBLK | EBUSY | EEXIST | EXDEV | ENODEV | ENOTDIR
  | EISDIR | EINVAL | ENFILE | EMFILE | ENOTTY | ETXTBSY | EFBIG | ENOSPC | ESPIPE | EROFS
  | ENOSYS | ELOOP | ENOTSUP

fun errno_code :: "errno \<Rightarrow> int" where
  "errno_code EPERM = 1"
| "errno_code ENOENT = 2"
| "errno_code ESRCH = 3"
| "errno_code EINTR = 4"
| "errno_code EIO = 5"
| "errno_code ENXIO = 6"
| "errno_code E2BIG = 7"
| "errno_code ENOEXEC = 8"
| "errno_code EBADF = 9"
| "errno_code ECHILD = 10"
| "errno_code EAGAIN = 11"
| "errno_code ENOMEM = 12"
| "errno_code EACCES = 13"
| "errno_code EFAULT = 14"
| "errno_code ENOTBLK = 15"
| "errno_code EBUSY = 16"
| "errno_code EEXIST = 17"
| "errno_code EXDEV = 18"
| "errno_code ENODEV = 19"
| "errno_code ENOTDIR = 20"
| "errno_code EISDIR = 21"
| "errno_code EINVAL = 22"
| "errno_code ENFILE = 23"
| "errno_code EMFILE = 24"
| "errno_code ENOTTY = 25"
| "errno_code ETXTBSY = 26"
| "errno_code EFBIG = 27"
| "errno_code ENOSPC = 28"
| "errno_code ESPIPE = 29"
| "errno_code EROFS = 30"
| "errno_code ENOSYS = 88"
| "errno_code ELOOP = 92"
| "errno_code ENOTSUP = 134"

text \<open>The C value of a result: the value itself, or the negated error number.\<close>

definition c_int :: "errno + nat \<Rightarrow> int" where
  "c_int r = (case r of Inl e \<Rightarrow> - errno_code e | Inr n \<Rightarrow> int n)"

lemma errno_code_pos: "errno_code e > 0"
  by (cases e) simp_all

lemma c_int_neg_iff: "c_int r < 0 \<longleftrightarrow> (\<exists>e. r = Inl e)"
  by (auto simp: c_int_def errno_code_pos split: sum.splits)

section \<open>Rounding macros\<close>

text \<open>The macros are generic in C; here they are used on naturals and on machine words.\<close>

definition ROUND_UP :: "'a::{zero,plus,minus,modulo} \<Rightarrow> 'a \<Rightarrow> 'a" where
  "ROUND_UP v n = (if v mod n \<noteq> 0 then v + (n - v mod n) else v)"

definition ROUND_DOWN :: "'a::{minus,modulo} \<Rightarrow> 'a \<Rightarrow> 'a" where
  "ROUND_DOWN v n = v - v mod n"

lemma ROUND_DOWN_eq: "ROUND_DOWN v n = n * (v div n)" for v :: nat
  by (simp add: ROUND_DOWN_def minus_mod_eq_mult_div)

lemma ROUND_UP_dvd: "0 < n \<Longrightarrow> n dvd ROUND_UP v n" for v :: nat
proof (cases "v mod n = 0")
  case False
  assume "0 < n"
  then have "v mod n \<le> n" by simp
  then have "v + (n - v mod n) = n * (v div n) + n"
    using mult_div_mod_eq[of n v] by linarith
  with False show ?thesis by (simp add: ROUND_UP_def)
qed (auto simp: ROUND_UP_def)

lemma ROUND_UP_ge: "v \<le> ROUND_UP v n" for v :: nat
  by (simp add: ROUND_UP_def)

lemma ROUND_UP_less: "0 < n \<Longrightarrow> ROUND_UP v n < v + n" for v :: nat
  by (auto simp: ROUND_UP_def)

lemma ROUND_DOWN_dvd: "n dvd ROUND_DOWN v n" for v :: nat
  by (simp add: ROUND_DOWN_eq)

lemma ROUND_DOWN_le: "ROUND_DOWN v n \<le> v" for v :: nat
  by (simp add: ROUND_DOWN_def)

section \<open>Slot tables\<close>

text \<open>
  A C array of pointers searched for the first \<^verbatim>\<open>NULL\<close> entry from a start index:
  \<^verbatim>\<open>for(i = start; i < MAX; i++) if (!tab[i]) ...\<close>. The table is a list of options whose length
  is the array bound; the search is the loop.
\<close>

function find_slot :: "nat \<Rightarrow> 'a option list \<Rightarrow> nat option" where
  "find_slot i tab =
     (if i < length tab then (if tab ! i = None then Some i else find_slot (Suc i) tab) else None)"
  by pat_completeness auto
termination
  by (relation "measure (\<lambda>(i, tab). length tab - i)") auto

declare find_slot.simps [simp del]

lemma find_slot_Some:
  "find_slot i tab = Some k \<Longrightarrow>
     i \<le> k \<and> k < length tab \<and> tab ! k = None \<and> (\<forall>j. i \<le> j \<and> j < k \<longrightarrow> tab ! j \<noteq> None)"
proof (induction i tab rule: find_slot.induct)
  case (1 i tab)
  show ?case
  proof (cases "i < length tab \<and> tab ! i \<noteq> None")
    case True
    with "1.prems" have "find_slot (Suc i) tab = Some k"
      by (simp add: find_slot.simps[of i])
    with True "1.IH" have IH: "Suc i \<le> k" "k < length tab" "tab ! k = None"
      "\<And>j. Suc i \<le> j \<and> j < k \<Longrightarrow> tab ! j \<noteq> None" by auto
    have "tab ! j \<noteq> None" if "i \<le> j" "j < k" for j
      using that True IH(4)[of j] by (cases "j = i") auto
    with IH show ?thesis by auto
  next
    case False
    with "1.prems" show ?thesis by (auto simp: find_slot.simps[of i] split: if_splits)
  qed
qed

lemma find_slot_None:
  "find_slot i tab = None \<longleftrightarrow> (\<forall>j. i \<le> j \<and> j < length tab \<longrightarrow> tab ! j \<noteq> None)"
proof (induction i tab rule: find_slot.induct)
  case (1 i tab)
  show ?case
  proof (cases "i < length tab \<and> tab ! i \<noteq> None")
    case True
    with "1.IH" have IH: "find_slot (Suc i) tab = None \<longleftrightarrow>
        (\<forall>j. Suc i \<le> j \<and> j < length tab \<longrightarrow> tab ! j \<noteq> None)" by auto
    have "find_slot i tab = find_slot (Suc i) tab"
      using True by (auto simp: find_slot.simps[of i])
    moreover have "(\<forall>j. Suc i \<le> j \<and> j < length tab \<longrightarrow> tab ! j \<noteq> None) \<longleftrightarrow>
        (\<forall>j. i \<le> j \<and> j < length tab \<longrightarrow> tab ! j \<noteq> None)"
    proof (intro iffI allI impI)
      fix j assume "\<forall>j. Suc i \<le> j \<and> j < length tab \<longrightarrow> tab ! j \<noteq> None" "i \<le> j \<and> j < length tab"
      then show "tab ! j \<noteq> None" using True by (cases "j = i") auto
    qed auto
    ultimately show ?thesis using IH by simp
  next
    case False
    then show ?thesis by (auto simp: find_slot.simps[of i])
  qed
qed

lemma find_slot_bound: "find_slot i tab = Some k \<Longrightarrow> k < length tab"
  and find_slot_free: "find_slot i tab = Some k \<Longrightarrow> tab ! k = None"
  and find_slot_ge: "find_slot i tab = Some k \<Longrightarrow> i \<le> k"
  by (auto dest: find_slot_Some)

text \<open>Reading a slot with the bound check the system calls make on a descriptor.\<close>

definition slot_get :: "'a option list \<Rightarrow> int \<Rightarrow> 'a option" where
  "slot_get tab fd = (if fd < 0 \<or> fd \<ge> int (length tab) then None else tab ! nat fd)"

lemma slot_get_update [slot_simps]:
  "k < length tab \<Longrightarrow>
     slot_get (tab[k := v]) fd = (if fd = int k then v else slot_get tab fd)"
  by (auto simp: slot_get_def nth_list_update)

lemma slot_get_int [slot_simps]: "k < length tab \<Longrightarrow> slot_get tab (int k) = tab ! k"
  by (simp add: slot_get_def)

lemma slot_get_Some_bounds:
  "slot_get tab fd = Some x \<Longrightarrow> 0 \<le> fd \<and> nat fd < length tab \<and> tab ! nat fd = Some x"
  by (auto simp: slot_get_def split: if_splits)

section \<open>Blocks of memory\<close>

text \<open>\<^verbatim>\<open>krealloc\<close>, or a fill of fewer bytes than the block has: the bytes behind the known ones are whatever the
  heap held. \<^verbatim>\<open>memcpy\<close> into the middle of a block.\<close>

definition resize :: "u8 list \<Rightarrow> nat \<Rightarrow> (nat \<Rightarrow> u8) \<Rightarrow> u8 list" where
  "resize xs n junk = take n xs @ map junk [length xs..<n]"

definition overwrite :: "u8 list \<Rightarrow> nat \<Rightarrow> u8 list \<Rightarrow> u8 list" where
  "overwrite xs off ys = take off xs @ ys @ drop (off + length ys) xs"

lemma length_resize: "length (resize xs n junk) = n"
  by (simp add: resize_def)

lemma nth_resize: "k < n \<Longrightarrow> resize xs n junk ! k = (if k < length xs then xs ! k else junk k)"
  by (simp add: resize_def nth_append min_def)

lemma overwrite_simps:
  assumes "off + length ys \<le> length xs"
  shows "length (overwrite xs off ys) = length xs"
    "k < length xs \<Longrightarrow> overwrite xs off ys ! k = (if off \<le> k \<and> k < off + length ys then ys ! (k - off) else xs ! k)"
    "take (length ys) (drop off (overwrite xs off ys)) = ys"
  using assms by (auto simp: overwrite_def nth_append min_def)

section \<open>Words as naturals\<close>

lemma unat_add_no_wrap [wrap_simps]:
  "unat a + unat b < 2 ^ 32 \<Longrightarrow> unat (a + b :: u32) = unat a + unat b"
  by (simp add: unat_word_ariths)

lemma unat_sub_no_wrap [wrap_simps]:
  "b \<le> a \<Longrightarrow> unat (a - b :: u32) = unat a - unat b"
  by (simp add: unat_sub)

lemma unat_lt_2p32: "unat (w :: u32) < 4294967296"
  using unsigned_less[of w] by simp

section \<open>Transition systems\<close>

text \<open>An invariant that holds initially and is kept by every step holds in every state that is reached.\<close>

locale invariant_system =
  fixes init :: "'s \<Rightarrow> bool" and step :: "'s \<Rightarrow> 's \<Rightarrow> bool" and inv :: "'s \<Rightarrow> bool"
  assumes init_inv: "init s \<Longrightarrow> inv s"
    and step_inv: "inv s \<Longrightarrow> step s s' \<Longrightarrow> inv s'"
begin

lemma reachable_inv: "init s \<Longrightarrow> step\<^sup>*\<^sup>* s s' \<Longrightarrow> inv s'"
  by (rotate_tac, induction rule: rtranclp_induct) (auto intro: init_inv step_inv)

end

end
