(* ===== verification/KList.thy ===== *)
theory KList
  imports Prelude
begin

text \<open>
  The intrusive doubly linked lists of \<^verbatim>\<open>lib/list.h\<close>, at the level of pointers: a heap gives the
  \<open>next\<close> and \<open>prev\<close> field of every \<^verbatim>\<open>list_t\<close>, and each operation is the sequence of
  assignments of the source. \<open>ring\<close> relates a list head to the HOL list of its elements, and the
  locale \<open>intrusive_list\<close> is the interface on which the other components rely when they keep
  their queues as HOL lists.
\<close>

section \<open>The pointer model\<close>

record list_heap =
  nxt :: "nat \<Rightarrow> nat"
  prv :: "nat \<Rightarrow> nat"

definition set_nxt :: "nat \<Rightarrow> nat \<Rightarrow> list_heap \<Rightarrow> list_heap" where
  "set_nxt p q h = h\<lparr>nxt := (nxt h)(p := q)\<rparr>"

definition set_prv :: "nat \<Rightarrow> nat \<Rightarrow> list_heap \<Rightarrow> list_heap" where
  "set_prv p q h = h\<lparr>prv := (prv h)(p := q)\<rparr>"

definition LIST_IS_EMPTY :: "list_heap \<Rightarrow> nat \<Rightarrow> bool" where
  "LIST_IS_EMPTY h l \<longleftrightarrow> prv h l = l \<and> nxt h l = l"

definition list_init :: "list_heap \<Rightarrow> nat \<Rightarrow> list_heap" where
  "list_init h l = set_prv l l (set_nxt l l h)"

definition list_unlink :: "list_heap \<Rightarrow> nat \<Rightarrow> list_heap" where
  "list_unlink h i =
     (let h1 = set_nxt (prv h i) (nxt h i) h
      in set_prv (nxt h1 i) (prv h1 i) h1)"

definition list_add :: "list_heap \<Rightarrow> nat \<Rightarrow> nat \<Rightarrow> list_heap" where
  "list_add h l i =
     (let h2 = list_unlink h i;
          h3 = set_prv i l h2;
          h4 = set_nxt i (nxt h3 l) h3;
          h5 = set_prv (nxt h4 l) i h4
      in set_nxt l i h5)"

definition list_remove :: "list_heap \<Rightarrow> nat \<Rightarrow> list_heap" where
  "list_remove h i = (let h2 = list_unlink h i in set_nxt i i (set_prv i i h2))"

text \<open>
  \<^verbatim>\<open>LIST_FOREACH\<close>: the elements met from the head until the head is met again, with fuel for
  the heaps in which the walk never returns.
\<close>

fun list_walk :: "nat \<Rightarrow> list_heap \<Rightarrow> nat \<Rightarrow> nat \<Rightarrow> nat list option" where
  "list_walk 0 h l p = None"
| "list_walk (Suc fuel) h l p =
     (if p = l then Some [] else map_option ((#) p) (list_walk fuel h l (nxt h p)))"

definition LIST_FOREACH :: "nat \<Rightarrow> list_heap \<Rightarrow> nat \<Rightarrow> nat list option" where
  "LIST_FOREACH fuel h l = list_walk fuel h l (nxt h l)"

section \<open>Rings\<close>

fun chain :: "list_heap \<Rightarrow> nat \<Rightarrow> nat list \<Rightarrow> nat \<Rightarrow> bool" where
  "chain h x [] y \<longleftrightarrow> nxt h x = y \<and> prv h y = x"
| "chain h x (a # as) y \<longleftrightarrow> nxt h x = a \<and> prv h a = x \<and> chain h a as y"

definition ring :: "list_heap \<Rightarrow> nat \<Rightarrow> nat list \<Rightarrow> bool" where
  "ring h l xs \<longleftrightarrow> distinct (l # xs) \<and> chain h l xs l"

text \<open>The HOL list after \<open>i\<close> is put right behind \<open>p\<close>, which is the head or an element.\<close>

fun put_after :: "nat \<Rightarrow> nat \<Rightarrow> nat list \<Rightarrow> nat list" where
  "put_after p i [] = []"
| "put_after p i (x # xs) = (if x = p then x # i # xs else x # put_after p i xs)"

definition insert_behind :: "nat \<Rightarrow> nat \<Rightarrow> nat \<Rightarrow> nat list \<Rightarrow> nat list" where
  "insert_behind l p i xs = (if p = l then i # xs else put_after p i xs)"

lemmas heap_upd = set_nxt_def set_prv_def

lemma nxt_set_nxt [simp]: "nxt (set_nxt p q h) = (nxt h)(p := q)"
  and prv_set_nxt [simp]: "prv (set_nxt p q h) = prv h"
  and nxt_set_prv [simp]: "nxt (set_prv p q h) = nxt h"
  and prv_set_prv [simp]: "prv (set_prv p q h) = (prv h)(p := q)"
  by (simp_all add: heap_upd)

lemma chain_append [simp]:
  "chain h x (as @ b # bs) y \<longleftrightarrow> chain h x as b \<and> chain h b bs y"
  by (induction as arbitrary: x) auto

lemma chain_frame:
  "\<lbrakk>chain h x xs y;
    \<And>p. p \<in> set (x # xs) \<Longrightarrow> nxt h' p = nxt h p;
    \<And>p. p \<in> set (xs @ [y]) \<Longrightarrow> prv h' p = prv h p\<rbrakk> \<Longrightarrow> chain h' x xs y"
  by (induction xs arbitrary: x) auto

lemma chain_nxt: "chain h x xs y \<Longrightarrow> nxt h x = hd (xs @ [y])"
  by (cases xs) auto

lemma chain_prv: "chain h x xs y \<Longrightarrow> prv h y = last (x # xs)"
  by (induction xs arbitrary: x) auto

lemma last_in_cons: "last (x # xs) \<in> set (x # xs)"
  by (rule last_in_set) simp

lemma hd_in_snoc: "hd (xs @ [y]) \<in> set (xs @ [y])"
  by (rule hd_in_set) simp

lemma put_after_split:
  "p \<notin> set as \<Longrightarrow> put_after p i (as @ p # bs) = as @ p # i # bs"
  by (induction as) auto

lemma chain_upd_nxt_last:
  "\<lbrakk>chain h x xs y; distinct (x # xs); y \<notin> set xs; z \<notin> set xs\<rbrakk> \<Longrightarrow>
     chain (set_prv z (last (x # xs)) (set_nxt (last (x # xs)) z h)) x xs z"
proof (induction xs arbitrary: x)
  case (Cons a as)
  have lst: "last (x # a # as) = last (a # as)" by simp
  from Cons.prems have c: "chain h a as y" and x: "nxt h x = a" "prv h a = x"
    and ne: "x \<noteq> last (a # as)" "a \<noteq> z"
    by (auto simp: last_ConsR split: if_splits)
  from Cons have "chain (set_prv z (last (a # as)) (set_nxt (last (a # as)) z h)) a as z"
    by simp
  with x ne lst show ?case by auto
qed simp

section \<open>The operations on rings\<close>

lemma list_init_ring: "ring (list_init h l) l []"
  by (simp add: ring_def list_init_def)

lemma list_init_frame:
  "ring h m xs \<Longrightarrow> l \<notin> set (m # xs) \<Longrightarrow> ring (list_init h l) m xs"
  by (auto simp: ring_def list_init_def intro: chain_frame)

lemma ring_empty_iff: "ring h l xs \<Longrightarrow> LIST_IS_EMPTY h l \<longleftrightarrow> xs = []"
  by (cases xs) (auto simp: ring_def LIST_IS_EMPTY_def)

lemma ring_first: "ring h l xs \<Longrightarrow> nxt h l = hd (xs @ [l])"
  by (auto simp: ring_def dest: chain_nxt)

lemma ring_last: "ring h l xs \<Longrightarrow> prv h l = last (l # xs)"
  by (auto simp: ring_def dest: chain_prv)

lemma list_unlink_ring:
  assumes "ring h l (as @ i # bs)"
  shows "ring (list_unlink h i) l (as @ bs)"
proof -
  from assms have d: "distinct (l # as @ i # bs)"
    and c1: "chain h l as i" and c2: "chain h i bs l" by (auto simp: ring_def)
  define p where "p = last (l # as)"
  define q where "q = hd (bs @ [l])"
  have pi: "prv h i = p" "nxt h i = q"
    using chain_prv[OF c1] chain_nxt[OF c2] by (simp_all add: p_def q_def)
  have p_in: "p \<in> set (l # as)" and q_in: "q \<in> set (bs @ [l])"
    unfolding p_def q_def by (rule last_in_cons, rule hd_in_snoc)
  have ne: "p \<noteq> i" "q \<noteq> i" using p_in q_in d by auto
  have un: "list_unlink h i = set_prv q p (set_nxt p q h)"
    using pi ne by (simp add: list_unlink_def Let_def)
  have c1': "chain (list_unlink h i) l as q"
  proof -
    have "q \<notin> set as" using q_in d by auto
    moreover have "i \<notin> set as" "distinct (l # as)" using d by auto
    ultimately show ?thesis using chain_upd_nxt_last[OF c1, of q] un p_def by simp
  qed
  show ?thesis
  proof (cases bs)
    case Nil
    then show ?thesis using c1' d by (simp add: ring_def q_def)
  next
    case (Cons b bs')
    then have q: "q = b" by (simp add: q_def)
    have c: "chain h b bs' l" using c2 Cons by simp
    have "p \<notin> set (b # bs')" and "b \<notin> set (bs' @ [l])" using p_in d Cons by auto
    then have "chain (list_unlink h i) b bs' l"
      by (intro chain_frame[OF c]) (auto simp: un q)
    with c1' q Cons d show ?thesis by (simp add: ring_def)
  qed
qed

lemma list_unlink_single: "nxt h i = i \<Longrightarrow> prv h i = i \<Longrightarrow> list_unlink h i = h"
  by (simp add: list_unlink_def heap_upd Let_def fun_upd_idem)

lemma list_unlink_frame:
  assumes "ring h m (as @ i # bs)" and "ring h l xs" and "set (l # xs) \<inter> set (m # as @ i # bs) = {}"
  shows "ring (list_unlink h i) l xs"
proof -
  from assms(1) have c1: "chain h m as i" and c2: "chain h i bs m" by (auto simp: ring_def)
  have "prv h i \<in> set (m # as)" and "nxt h i \<in> set (bs @ [m])"
    unfolding chain_prv[OF c1] chain_nxt[OF c2] by (rule last_in_cons, rule hd_in_snoc)
  then have ni: "nxt h i \<notin> set (l # xs)" "prv h i \<notin> set (l # xs)"
    using assms(3) by auto
  from assms(2) have c: "chain h l xs l" by (simp add: ring_def)
  have "chain (list_unlink h i) l xs l"
    by (rule chain_frame[OF c]) (use ni in \<open>auto simp: list_unlink_def Let_def\<close>)
  then show ?thesis using assms(2) by (simp add: ring_def)
qed

text \<open>What \<open>list_add\<close> does once \<open>i\<close> has left its old list.\<close>

lemma list_link_ring:
  assumes "ring h l (as @ bs)" and "i \<notin> set (l # as @ bs)" and "p = last (l # as)"
  shows "ring (set_nxt p i (set_prv (nxt h p) i (set_nxt i (nxt h p) (set_prv i p h)))) l (as @ i # bs)"
    (is "ring ?h l _")
proof -
  from assms have d: "distinct (l # as @ bs)" by (simp add: ring_def)
  define q where "q = hd (bs @ [l])"
  have c: "chain h l as q \<and> nxt h p = q \<and> (bs \<noteq> [] \<longrightarrow> chain h q (tl bs) l)"
  proof (cases bs)
    case Nil
    with assms show ?thesis
      by (cases as rule: rev_cases) (auto simp: ring_def q_def dest: chain_nxt)
  next
    case (Cons b bs')
    with assms have "chain h l as b" by (auto simp: ring_def)
    moreover have "nxt h p = b"
      using assms(1,3) Cons by (cases as rule: rev_cases) (auto simp: ring_def)
    ultimately show ?thesis using assms(1) Cons by (auto simp: ring_def q_def)
  qed
  have q_in: "q \<in> set (bs @ [l])" unfolding q_def by (rule hd_in_snoc)
  have p_in: "p \<in> set (l # as)" unfolding assms(3) by (rule last_in_cons)
  have h: "?h = set_nxt p i (set_prv q i (set_nxt i q (set_prv i p h)))" using c by simp
  have c1: "chain ?h l as i"
  proof -
    have qn: "q \<notin> set as" using q_in d by auto
    have "chain (set_prv i p (set_nxt p i h)) l as i"
      using chain_upd_nxt_last[of h l as q i] c qn d assms(2) unfolding assms(3) by auto
    then show ?thesis unfolding h
      using qn d assms(2) q_in p_in
      by (elim chain_frame) auto
  qed
  show ?thesis
  proof (cases bs)
    case Nil
    then show ?thesis using c1 d assms(2) h p_in by (auto simp: ring_def q_def)
  next
    case (Cons b bs')
    then have q: "q = b" by (simp add: q_def)
    have "chain h b bs' l" using c Cons q by simp
    then have "chain ?h b bs' l"
      unfolding h by (elim chain_frame) (use assms(2) d Cons p_in q in auto)
    moreover have "nxt ?h i = b" "prv ?h b = i"
      using assms(2) p_in Cons q c by auto
    ultimately show ?thesis using c1 d Cons assms(2) by (simp add: ring_def)
  qed
qed

lemma ring_split_at:
  assumes "p \<in> set (l # xs)" "distinct (l # xs)"
  obtains as bs where "xs = as @ bs" "p = last (l # as)"
    "\<And>i. insert_behind l p i xs = as @ i # bs"
proof (cases "p = l")
  case True
  then show ?thesis using that[of "[]" xs] by (simp add: insert_behind_def)
next
  case False
  with assms have "p \<in> set xs" by simp
  then obtain as bs where "xs = as @ p # bs" "p \<notin> set as"
    using split_list_first by metis
  then show ?thesis using that[of "as @ [p]" bs] False
    by (simp add: insert_behind_def put_after_split)
qed

lemma list_add_eq:
  "list_add h l i =
     (let h2 = list_unlink h i
      in set_nxt l i (set_prv (nxt (set_prv i l h2) l) i (set_nxt i (nxt h2 l) (set_prv i l h2))))"
  if "i \<noteq> l"
  using that by (simp add: list_add_def Let_def)

lemma list_add_ring:
  assumes "ring h l xs" and "p \<in> set (l # xs)" and "i \<notin> set (l # xs)"
    and "nxt h i = i" and "prv h i = i"
  shows "ring (list_add h p i) l (insert_behind l p i xs)"
proof -
  from assms(1) have "distinct (l # xs)" by (simp add: ring_def)
  with assms(2) obtain as bs where s: "xs = as @ bs" "p = last (l # as)"
    "\<And>i. insert_behind l p i xs = as @ i # bs" by (rule ring_split_at) blast
  have "i \<noteq> p" using assms(2,3) by auto
  with list_unlink_single[OF assms(4,5)] list_link_ring[of h l as bs i p] assms(1,3) s
  show ?thesis by (simp add: list_add_eq Let_def)
qed

text \<open>\<open>list_add\<close> of an element that still is in another list moves it.\<close>

lemma list_add_move:
  assumes "ring h m (cs @ i # ds)" and "ring h l xs" and "p \<in> set (l # xs)"
    and "set (l # xs) \<inter> set (m # cs @ i # ds) = {}"
  shows "ring (list_add h p i) l (insert_behind l p i xs)"
    and "ring (list_add h p i) m (cs @ ds)"
proof -
  have i: "i \<notin> set (l # xs)" and ip: "i \<noteq> p" using assms(3,4) by auto
  let ?h2 = "list_unlink h i"
  have r2: "ring ?h2 l xs" by (rule list_unlink_frame[OF assms(1,2,4)])
  have m2: "ring ?h2 m (cs @ ds)" by (rule list_unlink_ring[OF assms(1)])
  from r2 have "distinct (l # xs)" by (simp add: ring_def)
  with assms(3) obtain as bs where s: "xs = as @ bs" "p = last (l # as)"
    "\<And>i. insert_behind l p i xs = as @ i # bs" by (rule ring_split_at) blast
  show "ring (list_add h p i) l (insert_behind l p i xs)"
    using list_link_ring[of ?h2 l as bs i p] r2 i s ip by (simp add: list_add_eq Let_def)
  have "nxt ?h2 p \<in> set (l # xs)"
  proof (cases bs)
    case Nil
    with r2 s(1,2) show ?thesis
      by (cases as rule: rev_cases) (auto simp: ring_def)
  next
    case (Cons b bs')
    with r2 s(1,2) show ?thesis
      by (cases as rule: rev_cases) (auto simp: ring_def)
  qed
  then have n: "nxt ?h2 p \<notin> set (m # cs @ ds)" using assms(4) by auto
  have pi: "p \<notin> set (m # cs @ ds)" "i \<notin> set (m # cs @ ds)"
    using assms(1,3,4) by (auto simp: ring_def)
  from m2 have c: "chain ?h2 m (cs @ ds) m" by (simp add: ring_def)
  have "chain (list_add h p i) m (cs @ ds) m"
    by (rule chain_frame[OF c]) (use n pi ip in \<open>auto simp: list_add_eq Let_def\<close>)
  with m2 show "ring (list_add h p i) m (cs @ ds)" by (simp add: ring_def)
qed

lemma list_remove_ring:
  assumes "ring h l (as @ i # bs)"
  shows "ring (list_remove h i) l (as @ bs)" and "ring (list_remove h i) i []"
proof -
  have r: "ring (list_unlink h i) l (as @ bs)" by (rule list_unlink_ring[OF assms])
  moreover have "i \<notin> set (l # as @ bs)" using assms by (auto simp: ring_def)
  ultimately show "ring (list_remove h i) l (as @ bs)"
    by (auto simp: ring_def list_remove_def Let_def intro: chain_frame)
  show "ring (list_remove h i) i []" by (simp add: ring_def list_remove_def Let_def)
qed

lemma list_walk_chain:
  "chain h x xs l \<Longrightarrow> l \<notin> set xs \<Longrightarrow> length xs < fuel \<Longrightarrow>
     list_walk fuel h l (nxt h x) = Some xs"
proof (induction xs arbitrary: x fuel)
  case Nil
  then show ?case by (cases fuel) auto
next
  case (Cons a xs)
  then show ?case by (cases fuel) auto
qed

section \<open>The interface\<close>

text \<open>
  What a client of \<^verbatim>\<open>lib/list.h\<close> relies on: a representation relation between a head and the HOL
  list of its elements, insertion behind any member, and removal.
\<close>

locale intrusive_list =
  fixes rep :: "'h \<Rightarrow> 'p \<Rightarrow> 'p list \<Rightarrow> bool"
    and add :: "'h \<Rightarrow> 'p \<Rightarrow> 'p \<Rightarrow> 'h"
    and remove :: "'h \<Rightarrow> 'p \<Rightarrow> 'h"
    and next_of :: "'h \<Rightarrow> 'p \<Rightarrow> 'p"
    and prev_of :: "'h \<Rightarrow> 'p \<Rightarrow> 'p"
  assumes rep_next: "rep h l xs \<Longrightarrow> next_of h l = hd (xs @ [l])"
    and rep_prev: "rep h l xs \<Longrightarrow> prev_of h l = last (l # xs)"
    and add_last: "rep h l xs \<Longrightarrow> rep h i [] \<Longrightarrow> i \<notin> set (l # xs) \<Longrightarrow>
           rep (add h (last (l # xs)) i) l (xs @ [i])"
    and add_head: "rep h l xs \<Longrightarrow> rep h i [] \<Longrightarrow> i \<notin> set (l # xs) \<Longrightarrow> rep (add h l i) l (i # xs)"
    and add_frame: "rep h l xs \<Longrightarrow> rep h i [] \<Longrightarrow> i \<notin> set (l # xs) \<Longrightarrow>
           rep h j [] \<Longrightarrow> j \<notin> set (i # l # xs) \<Longrightarrow> rep (add h (last (l # xs)) i) j []"
    and remove_first: "rep h l (x # xs) \<Longrightarrow> rep (remove h x) l xs"
begin

text \<open>
  The use the wait queues and the ready queue make of a list:
  \<^verbatim>\<open>list_add(q->prev, x)\<close> appends, \<^verbatim>\<open>q->next\<close> followed by \<^verbatim>\<open>list_remove\<close> takes the oldest.
\<close>

fun enqueue_all :: "'h \<Rightarrow> 'p \<Rightarrow> 'p list \<Rightarrow> 'h" where
  "enqueue_all h l [] = h"
| "enqueue_all h l (x # xs) = enqueue_all (add h (prev_of h l) x) l xs"

fun dequeue_n :: "nat \<Rightarrow> 'h \<Rightarrow> 'p \<Rightarrow> 'p list \<times> 'h" where
  "dequeue_n 0 h l = ([], h)"
| "dequeue_n (Suc n) h l =
     (let x = next_of h l; (xs, h') = dequeue_n n (remove h x) l in (x # xs, h'))"

lemma enqueue_all_rep:
  "\<lbrakk>rep h l qs; distinct xs; set xs \<inter> set (l # qs) = {}; \<forall>x\<in>set xs. rep h x []\<rbrakk> \<Longrightarrow>
     rep (enqueue_all h l xs) l (qs @ xs)"
proof (induction xs arbitrary: h qs)
  case (Cons x xs)
  from Cons.prems have x: "rep h x []" "x \<notin> set (l # qs)" by auto
  let ?h = "add h (prev_of h l) x"
  have p: "prev_of h l = last (l # qs)" by (rule rep_prev[OF Cons.prems(1)])
  have "rep ?h l (qs @ [x])" unfolding p by (rule add_last[OF Cons.prems(1) x])
  moreover have "\<forall>y\<in>set xs. rep ?h y []"
  proof
    fix y assume "y \<in> set xs"
    with Cons.prems have "rep h y []" "y \<notin> set (x # l # qs)" by auto
    then show "rep ?h y []" unfolding p by (rule add_frame[OF Cons.prems(1) x])
  qed
  moreover have "distinct xs" "set xs \<inter> set (l # qs @ [x]) = {}" using Cons.prems by auto
  ultimately have "rep (enqueue_all ?h l xs) l ((qs @ [x]) @ xs)" by (intro Cons.IH) auto
  then show ?case by simp
qed simp

lemma dequeue_n_rep:
  "rep h l (xs @ ys) \<Longrightarrow>
     fst (dequeue_n (length xs) h l) = xs \<and> rep (snd (dequeue_n (length xs) h l)) l ys"
proof (induction xs arbitrary: h)
  case (Cons x xs)
  have n: "next_of h l = x" using rep_next[OF Cons.prems] by simp
  have "rep (remove h x) l (xs @ ys)" using Cons.prems remove_first by simp
  from Cons.IH[OF this] n show ?case by (auto simp: Let_def split: prod.split)
qed simp

lemma fifo:
  "\<lbrakk>rep h l []; distinct xs; l \<notin> set xs; \<forall>x\<in>set xs. rep h x []\<rbrakk> \<Longrightarrow>
     fst (dequeue_n (length xs) (enqueue_all h l xs) l) = xs"
  using enqueue_all_rep[of h l "[]" xs] dequeue_n_rep[of "enqueue_all h l xs" l xs "[]"] by auto

end

lemma insert_behind_last: "distinct (l # xs) \<Longrightarrow> insert_behind l (last (l # xs)) i xs = xs @ [i]"
  by (cases xs rule: rev_cases) (auto simp: insert_behind_def put_after_split[where bs = "[]"])

interpretation klist: intrusive_list ring list_add list_remove nxt prv
proof unfold_locales
  fix h l xs i j
  assume r: "ring h l xs" and i: "ring h i []" "i \<notin> set (l # xs)"
  have s: "nxt h i = i" "prv h i = i" using i by (auto simp: ring_def)
  have lst: "last (l # xs) \<in> set (l # xs)" by (rule last_in_cons)
  show "ring (list_add h (last (l # xs)) i) l (xs @ [i])"
    using list_add_ring[OF r lst i(2) s] r insert_behind_last[of l xs i] by (simp add: ring_def)
  show "ring (list_add h l i) l (i # xs)"
    using list_add_ring[OF r _ i(2) s, of l] by (simp add: insert_behind_def)
  show "ring (list_add h (last (l # xs)) i) j []" if j: "ring h j []" "j \<notin> set (i # l # xs)"
  proof -
    have "nxt h (last (l # xs)) = l"
      using r by (cases xs rule: rev_cases) (auto simp: ring_def)
    with j lst show ?thesis
      using list_unlink_single[OF s] i(2)
      by (auto simp: ring_def list_add_def Let_def)
  qed
qed (auto simp: ring_first ring_last intro: list_remove_ring(1)[of _ _ "[]", simplified])

section \<open>Properties\<close>

text \<open>C11. \<open>list_add\<close> of an element \<open>i\<close> that is linked in some list \<open>m\<close> takes it out of \<open>m\<close>
  and puts it right behind \<open>p\<close> in the list \<open>l\<close>; both lists stay well-formed doubly linked rings
  with exactly the expected elements in the expected order.\<close>

theorem list_add_moves:
  assumes "ring h m (cs @ i # ds)" and "ring h l xs" and "p \<in> set (l # xs)"
    and "set (l # xs) \<inter> set (m # cs @ i # ds) = {}"
  shows "ring (list_add h p i) l (insert_behind l p i xs) \<and> ring (list_add h p i) m (cs @ ds)"
  using list_add_move[OF assms] by simp

definition two_rings :: list_heap where
  "two_rings = \<lparr>nxt = (\<lambda>p. [3, 4, 2, 0, 1] ! p), prv = (\<lambda>p. [3, 4, 2, 0, 1] ! p)\<rparr>"

theorem list_add_moves_witness:
  "ring (list_add two_rings 3 4) 0 [3, 4] \<and> ring (list_add two_rings 3 4) 1 []"
  using list_add_moves[of two_rings 1 "[]" 4 "[]" 0 "[3]" 3]
  by (simp add: ring_def two_rings_def insert_behind_def)

text \<open>Walking a list with \<open>LIST_FOREACH\<close> meets exactly its elements in order and stops, and
  after \<open>list_remove\<close> of an element the walk meets the others and the element is left as an
  empty list of its own.\<close>

theorem list_foreach_after_remove:
  assumes "ring h l (as @ i # bs)" and "length (as @ i # bs) < fuel"
  shows "LIST_FOREACH fuel h l = Some (as @ i # bs) \<and>
    LIST_FOREACH fuel (list_remove h i) l = Some (as @ bs) \<and>
    LIST_IS_EMPTY (list_remove h i) i"
proof -
  have "LIST_FOREACH fuel g l = Some xs" if "ring g l xs" "length xs < fuel" for g xs
    using that list_walk_chain[of g l xs l fuel] by (simp add: LIST_FOREACH_def ring_def)
  with assms list_remove_ring[OF assms(1)] show ?thesis
    by (simp add: ring_empty_iff)
qed

theorem list_foreach_after_remove_witness:
  "LIST_FOREACH 3 (list_remove two_rings 4) 1 = Some [] \<and>
   LIST_FOREACH 3 two_rings 1 = Some [4]"
  using list_foreach_after_remove[of two_rings 1 "[]" 4 "[]" 3]
  by (simp add: ring_def two_rings_def)

end
