(* ===== verification/Phys.thy ===== *)
theory Phys
  imports Prelude
begin

text \<open>
  The physical frame allocator of \<^verbatim>\<open>mm/phys.c\<close>: a bitmap with one bit per 4 KiB frame (set means
  in use), the search for zero bits, and \<^verbatim>\<open>phys_alloc\<close> with its fall-back through the memory
  zones. The bit operations are those of \<^verbatim>\<open>arch/bitops.h\<close>. The search loop of \<^verbatim>\<open>_alloc_frames\<close> need
  not end, so it is a partial function into \<open>option\<close>: \<open>None\<close> is not returning. A read past
  the end of the bitmap is the error value \<open>OutOfBitmap\<close>.
\<close>

section \<open>Bit operations\<close>

definition bts :: "u32 \<Rightarrow> nat \<Rightarrow> u32" where
  "bts w idx = w OR push_bit idx 1"

definition btr :: "u32 \<Rightarrow> nat \<Rightarrow> u32" where
  "btr w idx = w AND NOT (push_bit idx 1)"

text \<open>\<^verbatim>\<open>bt; sbb\<close> leaves the carry flag subtracted from zero: -1 for a set bit, 0 otherwise.\<close>

definition test_bit :: "u32 \<Rightarrow> nat \<Rightarrow> int" where
  "test_bit w idx = (if bit w idx then -1 else 0)"

text \<open>\<^verbatim>\<open>bsf\<close> of the complement: the lowest clear bit. The word is never all ones at the call.\<close>

fun bsf_not :: "nat \<Rightarrow> nat \<Rightarrow> u32 \<Rightarrow> nat" where
  "bsf_not 0 i w = i"
| "bsf_not (Suc k) i w = (if \<not> bit w i then i else bsf_not k (Suc i) w)"

definition ffz_bit :: "u32 \<Rightarrow> nat" where
  "ffz_bit w = bsf_not 32 0 w"

section \<open>The bitmap\<close>

record phys =
  bitmap :: "u32 list"
  bitmap_size :: nat
  bitmap_items :: nat

datatype phys_fault = OutOfBitmap

abbreviation PAGE_SIZE :: nat where "PAGE_SIZE \<equiv> 4096"

definition LOWMEM_SIZE :: nat where "LOWMEM_SIZE = 0x20000000"
definition DMA_AREA_SIZE :: nat where "DMA_AREA_SIZE = 0x01000000"

definition PHYS_ZONE_NORMAL :: u32 where "PHYS_ZONE_NORMAL = 0x01"
definition PHYS_ZONE_HIGH :: u32 where "PHYS_ZONE_HIGH = 0x04"
definition PHYS_ALLOW_WAIT :: u32 where "PHYS_ALLOW_WAIT = 0x08"
definition PHYS_ALLOW_IO :: u32 where "PHYS_ALLOW_IO = 0x10"
definition PHYS_KERNEL :: u32 where "PHYS_KERNEL = PHYS_ZONE_NORMAL OR PHYS_ALLOW_WAIT OR PHYS_ALLOW_IO"

definition SET_FRAME :: "nat \<Rightarrow> u32 list \<Rightarrow> u32 list" where
  "SET_FRAME x bm = bm[x div 32 := bts (bm ! (x div 32)) (x mod 32)]"

definition CLEAR_FRAME :: "nat \<Rightarrow> u32 list \<Rightarrow> u32 list" where
  "CLEAR_FRAME x bm = bm[x div 32 := btr (bm ! (x div 32)) (x mod 32)]"

definition TEST_FRAME :: "nat \<Rightarrow> u32 list \<Rightarrow> int" where
  "TEST_FRAME x bm = test_bit (bm ! (x div 32)) (x mod 32)"

definition phys_init :: "nat \<Rightarrow> phys" where
  "phys_init frames =
     (let items = ROUND_UP frames 32; size = items div 8 div 4
      in \<lparr>bitmap = replicate size (-1), bitmap_size = size, bitmap_items = items\<rparr>)"

definition phys_free :: "phys \<Rightarrow> u32 \<Rightarrow> u32 \<Rightarrow> phys" where
  "phys_free s start len =
     (let frame = unat start div PAGE_SIZE in
      if frame \<ge> bitmap_items s then s
      else
        let len = (if (frame + unat len) mod 2 ^ 32 \<ge> bitmap_items s
                   then bitmap_items s - frame else unat len)
        in s\<lparr>bitmap := fold CLEAR_FRAME [frame..<(frame + len) mod 2 ^ 32] (bitmap s)\<rparr>)"

definition phys_reserve :: "phys \<Rightarrow> u32 \<Rightarrow> u32 \<Rightarrow> phys" where
  "phys_reserve s start len =
     (let frame = unat start div PAGE_SIZE; pages = unat len div PAGE_SIZE in
      if frame \<ge> bitmap_items s then s
      else
        let pages = (if frame + pages \<ge> bitmap_items s then bitmap_items s - frame else pages)
        in s\<lparr>bitmap := fold SET_FRAME [frame..<frame + pages] (bitmap s)\<rparr>)"

definition phys_reserve_self :: "phys \<Rightarrow> nat \<Rightarrow> phys" where
  "phys_reserve_self s bitmap_addr =
     phys_reserve s (of_nat (ROUND_DOWN bitmap_addr PAGE_SIZE))
       (of_nat (ROUND_UP (bitmap_size s) PAGE_SIZE))"

function find_zero_word :: "phys \<Rightarrow> nat \<Rightarrow> nat" where
  "find_zero_word s i =
     (if i < bitmap_size s
      then (if bitmap s ! i \<noteq> - 1 then i * 4 * 8 + ffz_bit (bitmap s ! i)
            else find_zero_word s (Suc i))
      else 0)"
  by pat_completeness auto
termination
  by (relation "measure (\<lambda>(s, i). bitmap_size s - i)") auto

declare find_zero_word.simps [simp del]

definition find_first_zero :: "phys \<Rightarrow> nat \<Rightarrow> nat" where
  "find_first_zero s start = find_zero_word s (start div 32)"

text \<open>The inner loop \<^verbatim>\<open>while(c)\<close>: the count that is left and the frame where it stopped.\<close>

fun scan_free :: "phys \<Rightarrow> nat \<Rightarrow> nat \<Rightarrow> phys_fault + nat \<times> nat" where
  "scan_free s 0 i = Inr (0, i)"
| "scan_free s (Suc c) i =
     (if i div 32 \<ge> length (bitmap s) then Inl OutOfBitmap
      else if TEST_FRAME i (bitmap s) \<noteq> 0 then Inr (Suc c, i)
      else scan_free s c (Suc i))"

type_synonym alloc_result = "(phys_fault + nat \<times> phys) option"

partial_function (option) alloc_loop :: "phys \<Rightarrow> nat \<Rightarrow> nat \<Rightarrow> (phys_fault + nat \<times> phys) option" where
  "alloc_loop s len i =
     (let frame = find_first_zero s i in
      if frame = 0 then Some (Inr (0, s))
      else case scan_free s len frame of
          Inl e \<Rightarrow> Some (Inl e)
        | Inr (c, i') \<Rightarrow>
            if c = 0
            then Some (Inr (frame * PAGE_SIZE,
                   s\<lparr>bitmap := fold (\<lambda>k. SET_FRAME (k + frame)) [0..<len] (bitmap s)\<rparr>))
            else alloc_loop s len i')"

definition alloc_frames :: "phys \<Rightarrow> nat \<Rightarrow> nat \<Rightarrow> alloc_result" where
  "alloc_frames s start len = alloc_loop s len (start div PAGE_SIZE)"

text \<open>\<^verbatim>\<open>page = _alloc_frames(zone, len); if (page) return page;\<close> and on to the next attempt.\<close>

definition try_zone :: "nat \<Rightarrow> nat \<Rightarrow> (phys \<Rightarrow> alloc_result) \<Rightarrow> phys \<Rightarrow> alloc_result" where
  "try_zone start len next s =
     (case alloc_frames s start len of
        None \<Rightarrow> None
      | Some (Inl e) \<Rightarrow> Some (Inl e)
      | Some (Inr (page, s')) \<Rightarrow> if page \<noteq> 0 then Some (Inr (page, s')) else next s')"

definition phys_alloc :: "phys \<Rightarrow> nat \<Rightarrow> u32 \<Rightarrow> alloc_result" where
  "phys_alloc s len flags =
     (let out_of_memory = (\<lambda>s. Some (Inr (0, s)));
          wait = (\<lambda>s. if flags AND PHYS_ALLOW_WAIT \<noteq> 0 then try_zone 0 len out_of_memory s
                       else out_of_memory s);
          io = (\<lambda>s. if flags AND PHYS_ALLOW_IO \<noteq> 0 then try_zone 0 len wait s else wait s);
          dma = (\<lambda>s. try_zone 0 len io s);
          normal = (\<lambda>s. if flags AND PHYS_ZONE_NORMAL = PHYS_ZONE_NORMAL
                         then try_zone DMA_AREA_SIZE len dma s else dma s)
      in if flags AND PHYS_ZONE_HIGH = PHYS_ZONE_HIGH
         then try_zone LOWMEM_SIZE len normal s else normal s)"

section \<open>Frames in use\<close>

definition phys_wf :: "phys \<Rightarrow> bool" where
  "phys_wf s \<longleftrightarrow> length (bitmap s) = bitmap_size s \<and> bitmap_items s = 32 * bitmap_size s \<and>
     bitmap_items s \<le> 2 ^ 20"

definition frame_used :: "phys \<Rightarrow> nat \<Rightarrow> bool" where
  "frame_used s f \<longleftrightarrow> bit (bitmap s ! (f div 32)) (f mod 32)"

lemma bit_bts: "n < 32 \<Longrightarrow> bit (bts w n) k \<longleftrightarrow> bit w k \<or> k = n"
  by (auto simp: bts_def bit_or_iff bit_exp_iff)

lemma bit_btr: "n < 32 \<Longrightarrow> bit (btr w n) k \<longleftrightarrow> bit w k \<and> k \<noteq> n"
  by (auto simp: btr_def bit_and_iff bit_not_iff bit_exp_iff dest: bit_imp_le_length)

lemma bsf_not_bound: "i \<le> bsf_not k i w \<and> bsf_not k i w \<le> i + k"
proof (induction k arbitrary: i)
  case (Suc k)
  from Suc[of "Suc i"] show ?case by auto
qed simp

lemma bsf_not_clear: "bsf_not k i w < i + k \<Longrightarrow> \<not> bit w (bsf_not k i w)"
  by (induction k arbitrary: i) auto

lemma bsf_not_below: "i \<le> j \<Longrightarrow> j < bsf_not k i w \<Longrightarrow> bit w j"
proof (induction k arbitrary: i)
  case (Suc k)
  then show ?case using Suc.IH[of "Suc i"] by (cases "i = j") (auto split: if_splits)
qed simp

lemma ffz_bit_less: "w \<noteq> -1 \<Longrightarrow> ffz_bit w < 32"
proof (rule ccontr)
  assume w: "w \<noteq> -1" and "\<not> ffz_bit w < 32"
  then have "ffz_bit w = 32" using bsf_not_bound[of 0 32 w] by (simp add: ffz_bit_def)
  then have "bit w j" if "j < 32" for j
    using that bsf_not_below[of 0 j 32 w] by (simp add: ffz_bit_def)
  then have "w = -1" by (auto intro!: bit_eqI)
  with w show False by contradiction
qed

lemma ffz_bit_clear: "w \<noteq> -1 \<Longrightarrow> \<not> bit w (ffz_bit w)"
  using bsf_not_clear[of 32 0 w] ffz_bit_less[of w] by (simp add: ffz_bit_def)


lemma frame_eq_iff: "f div 32 = g div 32 \<and> f mod 32 = g mod 32 \<longleftrightarrow> f = (g :: nat)"
  by (metis div_mult_mod_eq)

lemma length_SET_FRAME [simp]: "length (SET_FRAME x bm) = length bm"
  and length_CLEAR_FRAME [simp]: "length (CLEAR_FRAME x bm) = length bm"
  by (simp_all add: SET_FRAME_def CLEAR_FRAME_def)

lemma bit_SET_FRAME:
  "x div 32 < length bm \<Longrightarrow>
     bit (SET_FRAME x bm ! (f div 32)) (f mod 32) \<longleftrightarrow> bit (bm ! (f div 32)) (f mod 32) \<or> f = x"
  using frame_eq_iff[of f x] by (auto simp: SET_FRAME_def nth_list_update bit_bts)

lemma bit_CLEAR_FRAME:
  "x div 32 < length bm \<Longrightarrow>
     bit (CLEAR_FRAME x bm ! (f div 32)) (f mod 32) \<longleftrightarrow> bit (bm ! (f div 32)) (f mod 32) \<and> f \<noteq> x"
  using frame_eq_iff[of f x] by (auto simp: CLEAR_FRAME_def nth_list_update bit_btr)

lemma fold_SET_FRAME:
  "\<forall>x\<in>set xs. x div 32 < length bm \<Longrightarrow>
     length (fold SET_FRAME xs bm) = length bm \<and>
     (bit (fold SET_FRAME xs bm ! (f div 32)) (f mod 32) \<longleftrightarrow>
        bit (bm ! (f div 32)) (f mod 32) \<or> f \<in> set xs)"
  by (induction xs arbitrary: bm) (auto simp: bit_SET_FRAME)

lemma fold_CLEAR_FRAME:
  "\<forall>x\<in>set xs. x div 32 < length bm \<Longrightarrow>
     length (fold CLEAR_FRAME xs bm) = length bm \<and>
     (bit (fold CLEAR_FRAME xs bm ! (f div 32)) (f mod 32) \<longleftrightarrow>
        bit (bm ! (f div 32)) (f mod 32) \<and> f \<notin> set xs)"
  by (induction xs arbitrary: bm) (auto simp: bit_CLEAR_FRAME)

lemma fold_shift: "fold (\<lambda>k. SET_FRAME (k + frame)) [0..<len] bm = fold SET_FRAME [frame..<frame + len] bm"
proof -
  have "[frame..<frame + len] = map (\<lambda>k. k + frame) [0..<len]"
    by (simp add: map_add_upt add.commute)
  then show ?thesis by (simp add: fold_map comp_def)
qed

section \<open>Initialisation, release and reservation\<close>

lemma phys_init_wf: "frames \<le> 2 ^ 20 \<Longrightarrow> phys_wf (phys_init frames)"
proof -
  assume f: "frames \<le> 2 ^ 20"
  have d: "32 dvd ROUND_UP frames 32" by (rule ROUND_UP_dvd) simp
  have "ROUND_UP frames 32 \<le> 2 ^ 20"
  proof (rule ccontr)
    assume "\<not> ROUND_UP frames 32 \<le> 2 ^ 20"
    with f ROUND_UP_less[of 32 frames] d show False by (auto elim!: dvdE)
  qed
  with d show ?thesis
    by (auto simp: phys_wf_def phys_init_def Let_def div_mult2_eq[symmetric] elim!: dvdE)
qed

lemma phys_free_bitmap:
  assumes "phys_wf s"
  shows "phys_wf (phys_free s start len) \<and>
    (frame_used (phys_free s start len) f \<longleftrightarrow>
       frame_used s f \<and>
       \<not> (unat start div PAGE_SIZE \<le> f \<and> f < unat start div PAGE_SIZE + unat len \<and>
           f < bitmap_items s \<and> unat start div PAGE_SIZE + unat len < 2 ^ 32))"
proof -
  define frame where "frame = unat start div PAGE_SIZE"
  have sl: "unat start < 4294967296" "unat len < 4294967296" by (rule unat_lt_2p32)+
  have items: "bitmap_items s \<le> 1048576" "bitmap_items s = 32 * length (bitmap s)"
    using assms by (simp_all add: phys_wf_def)
  show ?thesis
  proof (cases "frame \<ge> bitmap_items s")
    case True
    then show ?thesis using assms by (simp add: phys_free_def frame_def Let_def)
  next
    case False
    define n where "n = (if (frame + unat len) mod 2 ^ 32 \<ge> bitmap_items s
                         then bitmap_items s - frame else unat len)"
    define xs where "xs = [frame..<(frame + n) mod 2 ^ 32]"
    have s': "phys_free s start len = s\<lparr>bitmap := fold CLEAR_FRAME xs (bitmap s)\<rparr>"
      using False by (simp add: phys_free_def frame_def n_def xs_def Let_def)
    have le: "(frame + n) mod 2 ^ 32 \<le> bitmap_items s"
      using False items by (auto simp: n_def)
    have "\<forall>x\<in>set xs. x div 32 < length (bitmap s)"
      using le items by (auto simp: xs_def)
    note fc = fold_CLEAR_FRAME[OF this]
    have "f \<in> set xs \<longleftrightarrow> frame \<le> f \<and> f < frame + unat len \<and> f < bitmap_items s \<and>
            frame + unat len < 2 ^ 32"
      using False items sl by (auto simp: xs_def n_def mod_if split: if_splits)
    with fc assms show ?thesis
      unfolding s' by (auto simp: phys_wf_def frame_used_def frame_def)
  qed
qed

lemma phys_reserve_bitmap:
  assumes "phys_wf s"
  shows "phys_wf (phys_reserve s start len) \<and>
    (frame_used (phys_reserve s start len) f \<longleftrightarrow>
       frame_used s f \<or>
       (unat start div PAGE_SIZE \<le> f \<and> f < unat start div PAGE_SIZE + unat len div PAGE_SIZE \<and>
        f < bitmap_items s))"
proof -
  define frame where "frame = unat start div PAGE_SIZE"
  have items: "bitmap_items s = 32 * length (bitmap s)"
    using assms by (simp add: phys_wf_def)
  show ?thesis
  proof (cases "frame \<ge> bitmap_items s")
    case True
    then show ?thesis using assms by (auto simp: phys_reserve_def frame_def Let_def)
  next
    case False
    define n where "n = (if frame + unat len div PAGE_SIZE \<ge> bitmap_items s
                         then bitmap_items s - frame else unat len div PAGE_SIZE)"
    define xs where "xs = [frame..<frame + n]"
    have s': "phys_reserve s start len = s\<lparr>bitmap := fold SET_FRAME xs (bitmap s)\<rparr>"
      using False by (simp add: phys_reserve_def frame_def n_def xs_def Let_def)
    have "\<forall>x\<in>set xs. x div 32 < length (bitmap s)"
      using False items by (auto simp: xs_def n_def split: if_splits)
    note fs = fold_SET_FRAME[OF this]
    have "f \<in> set xs \<longleftrightarrow> frame \<le> f \<and> f < frame + unat len div PAGE_SIZE \<and> f < bitmap_items s"
      using False by (auto simp: xs_def n_def split: if_splits)
    with fs assms show ?thesis
      unfolding s' by (auto simp: phys_wf_def frame_used_def frame_def)
  qed
qed

section \<open>Allocation\<close>

lemma find_zero_word_hit:
  assumes wf: "phys_wf s" and i: "i < bitmap_size s" "bitmap s ! i \<noteq> -1"
  shows "\<not> frame_used s (find_zero_word s i) \<and> find_zero_word s i < bitmap_items s \<and>
     i \<le> find_zero_word s i div 32"
proof -
  have f: "find_zero_word s i = i * 32 + ffz_bit (bitmap s ! i)"
    using i by (simp add: find_zero_word.simps)
  have b: "ffz_bit (bitmap s ! i) < 32" "\<not> bit (bitmap s ! i) (ffz_bit (bitmap s ! i))"
    using i(2) by (rule ffz_bit_less, rule ffz_bit_clear)
  have "i * 32 + ffz_bit (bitmap s ! i) < 32 * bitmap_size s"
    using b(1) i(1) by linarith
  with b wf show ?thesis unfolding f by (simp add: frame_used_def phys_wf_def)
qed

lemma find_zero_word_result:
  "phys_wf s \<Longrightarrow> find_zero_word s i = 0 \<or>
     (\<not> frame_used s (find_zero_word s i) \<and> find_zero_word s i < bitmap_items s \<and>
      i \<le> find_zero_word s i div 32)"
proof (induction s i rule: find_zero_word.induct)
  case (1 s i)
  show ?case
  proof (cases "i < bitmap_size s \<and> bitmap s ! i = -1")
    case True
    with "1.IH" "1.prems" show ?thesis
      by (auto simp: find_zero_word.simps[of s i])
  next
    case False
    then show ?thesis using find_zero_word_hit[OF "1.prems", of i]
      by (cases "i < bitmap_size s") (auto simp: find_zero_word.simps[of s i])
  qed
qed

lemma find_zero_word_zero:
  "phys_wf s \<Longrightarrow> find_zero_word s i = 0 \<Longrightarrow>
     (i = 0 \<and> \<not> frame_used s 0) \<or> (\<forall>f. i \<le> f div 32 \<and> f < bitmap_items s \<longrightarrow> frame_used s f)"
proof (induction s i rule: find_zero_word.induct)
  case (1 s i)
  show ?case
  proof (cases "i < bitmap_size s \<and> bitmap s ! i = -1")
    case True
    then have "find_zero_word s (Suc i) = 0" using "1.prems" by (simp add: find_zero_word.simps[of s i])
    with True "1.IH" "1.prems"(1)
    have IH: "\<forall>f. Suc i \<le> f div 32 \<and> f < bitmap_items s \<longrightarrow> frame_used s f" by auto
    have "frame_used s f" if "f div 32 = i" for f
      using that True by (simp add: frame_used_def)
    with IH show ?thesis by (metis Suc_leI le_neq_implies_less)
  next
    case False
    show ?thesis
    proof (cases "i < bitmap_size s")
      case True
      with False have "bitmap s ! i \<noteq> -1" by simp
      from find_zero_word_hit[OF "1.prems"(1) True this] "1.prems"(2) show ?thesis by simp
    next
      case False
      with "1.prems"(1) show ?thesis by (auto simp: phys_wf_def)
    qed
  qed
qed

definition alloc_post :: "phys \<Rightarrow> nat \<Rightarrow> nat \<Rightarrow> phys \<Rightarrow> bool" where
  "alloc_post s len page s' \<longleftrightarrow>
     (if page = 0 then s' = s
      else \<exists>f. page = f * PAGE_SIZE \<and> 0 < f \<and> f + len \<le> bitmap_items s \<and>
             (\<forall>k. f \<le> k \<and> k < f + len \<longrightarrow> \<not> frame_used s k) \<and>
             phys_wf s' \<and> bitmap_items s' = bitmap_items s \<and>
             (\<forall>k. frame_used s' k \<longleftrightarrow> frame_used s k \<or> (f \<le> k \<and> k < f + len)))"

lemma scan_free_complete:
  "scan_free s c i = Inr (0, j) \<Longrightarrow>
     \<forall>k. i \<le> k \<and> k < i + c \<longrightarrow> \<not> frame_used s k \<and> k div 32 < length (bitmap s)"
proof (induction c arbitrary: i)
  case (Suc c)
  from Suc.prems have a: "\<not> frame_used s i" "i div 32 < length (bitmap s)"
    and r: "scan_free s c (Suc i) = Inr (0, j)"
    by (auto simp: TEST_FRAME_def test_bit_def frame_used_def split: if_splits)
  show ?case
  proof (intro allI impI)
    fix k assume "i \<le> k \<and> k < i + Suc c"
    with a Suc.IH[OF r] show "\<not> frame_used s k \<and> k div 32 < length (bitmap s)"
      by (cases "k = i") auto
  qed
qed auto

lemma alloc_found:
  assumes wf: "phys_wf s" and f: "0 < f" "f < bitmap_items s"
    and sc: "scan_free s len f = Inr (0, j)"
  shows "alloc_post s len (f * PAGE_SIZE)
     (s\<lparr>bitmap := fold (\<lambda>k. SET_FRAME (k + f)) [0..<len] (bitmap s)\<rparr>)"
proof -
  note free = scan_free_complete[OF sc]
  then have in_range: "\<forall>x\<in>set [f..<f + len]. x div 32 < length (bitmap s)" by auto
  have le: "f + len \<le> bitmap_items s"
  proof (cases len)
    case (Suc n)
    with free have "(f + n) div 32 < length (bitmap s)" by simp
    with Suc wf show ?thesis by (auto simp: phys_wf_def)
  qed (use f in simp)
  with wf f free fold_SET_FRAME[OF in_range]
  show ?thesis
    unfolding alloc_post_def fold_shift
    by (auto simp: phys_wf_def frame_used_def intro!: exI[of _ f])
qed

lemma alloc_loop_safe:
  assumes "alloc_loop s len i = Some (Inr (page, s'))" and "phys_wf s"
  shows "alloc_post s len page s'"
proof -
  have "\<forall>page s'. r = Inr (page, s') \<longrightarrow> phys_wf s \<longrightarrow> alloc_post s len page s'"
    if "alloc_loop s len i = Some r" for r
  proof (rule alloc_loop.raw_induct
      [where P = "\<lambda>s len i r. \<forall>page s'. r = Inr (page, s') \<longrightarrow> phys_wf s \<longrightarrow> alloc_post s len page s'",
       OF _ that])
    fix loop s len i r
    assume IH: "\<And>s len i r. loop s len i = Some r \<Longrightarrow>
        \<forall>page s'. r = Inr (page, s') \<longrightarrow> phys_wf s \<longrightarrow> alloc_post s len page s'"
      and eq: "(let frame = find_first_zero s i in
        if frame = 0 then Some (Inr (0, s))
        else case scan_free s len frame of Inl e \<Rightarrow> Some (Inl e)
             | Inr (c, i') \<Rightarrow>
                 if c = 0
                 then Some (Inr (frame * PAGE_SIZE,
                        s\<lparr>bitmap := fold (\<lambda>k. SET_FRAME (k + frame)) [0..<len] (bitmap s)\<rparr>))
                 else loop s len i') = Some r"
    show "\<forall>page s'. r = Inr (page, s') \<longrightarrow> phys_wf s \<longrightarrow> alloc_post s len page s'"
    proof (intro allI impI)
      fix page s' assume r: "r = Inr (page, s')" and wf: "phys_wf s"
      let ?f = "find_first_zero s i"
      consider "?f = 0" | j where "?f \<noteq> 0" "scan_free s len ?f = Inr (0, j)"
        | c i' where "?f \<noteq> 0" "scan_free s len ?f = Inr (c, i')" "c \<noteq> 0"
        using eq r by (auto simp: Let_def split: if_splits sum.splits)
      then show "alloc_post s len page s'"
      proof cases
        case 1
        with eq r show ?thesis by (simp add: alloc_post_def)
      next
        case 2
        then have "?f < bitmap_items s"
          using find_zero_word_result[OF wf, of "i div 32"] by (auto simp: find_first_zero_def)
        with 2 eq r alloc_found[OF wf _ _ 2(2)] show ?thesis by (auto simp: Let_def)
      next
        case 3
        with eq r have "loop s len i' = Some (Inr (page, s'))" by (simp add: Let_def)
        from IH[OF this] wf show ?thesis by simp
      qed
    qed
  qed
  with assms show ?thesis by blast
qed

text \<open>What a chain of attempts guarantees from a given state.\<close>

definition safe_from :: "phys \<Rightarrow> nat \<Rightarrow> (phys \<Rightarrow> alloc_result) \<Rightarrow> bool" where
  "safe_from s len next \<longleftrightarrow> (\<forall>page s'. next s = Some (Inr (page, s')) \<longrightarrow> alloc_post s len page s')"

definition total_from :: "phys \<Rightarrow> (phys \<Rightarrow> alloc_result) \<Rightarrow> bool" where
  "total_from s next \<longleftrightarrow> (\<exists>page s'. next s = Some (Inr (page, s')))"

definition exhausted_from :: "phys \<Rightarrow> (phys \<Rightarrow> alloc_result) \<Rightarrow> bool" where
  "exhausted_from s next \<longleftrightarrow> (\<forall>s'. next s = Some (Inr (0, s')) \<longrightarrow> find_zero_word s 0 = 0)"

lemma try_zone_cases:
  assumes "try_zone start len next s = Some (Inr (page, s'))" and "phys_wf s"
  obtains (hit) "page \<noteq> 0" "alloc_frames s start len = Some (Inr (page, s'))"
    | (miss) "alloc_frames s start len = Some (Inr (0, s))" "next s = Some (Inr (page, s'))"
proof -
  from assms(1) obtain p t where a: "alloc_frames s start len = Some (Inr (p, t))"
    and r: "(if p \<noteq> 0 then Some (Inr (p, t)) else next t) = Some (Inr (page, s'))"
    by (auto simp: try_zone_def split: option.splits sum.splits)
  from a assms(2) have "alloc_post s len p t"
    by (auto simp: alloc_frames_def intro: alloc_loop_safe)
  with a r that show thesis by (cases "p = 0") (auto simp: alloc_post_def)
qed

lemma try_zone_safe: "phys_wf s \<Longrightarrow> safe_from s len next \<Longrightarrow> safe_from s len (try_zone start len next)"
  unfolding safe_from_def
  by (auto elim!: try_zone_cases dest!: alloc_loop_safe simp: alloc_frames_def)

lemma safe_from_if:
  "safe_from s len f \<Longrightarrow> safe_from s len g \<Longrightarrow> safe_from s len (\<lambda>s. if c then f s else g s)"
  by (simp add: safe_from_def)

lemma safe_from_fail: "safe_from s len (\<lambda>s. Some (Inr (0, s)))"
  by (simp add: safe_from_def alloc_post_def)

lemma phys_alloc_safe:
  assumes "phys_wf s" and "phys_alloc s len flags = Some (Inr (page, s'))"
  shows "alloc_post s len page s'"
proof -
  have "safe_from s len (\<lambda>s. phys_alloc s len flags)"
    unfolding phys_alloc_def Let_def
    by (intro safe_from_if try_zone_safe safe_from_fail assms)
  with assms(2) show ?thesis by (simp add: safe_from_def)
qed

text \<open>A request for one frame is decided by the first zero bit that is found.\<close>

lemma alloc_frames_one:
  assumes "phys_wf s"
  shows "alloc_frames s start 1 =
    (let f = find_first_zero s (start div PAGE_SIZE) in
     if f = 0 then Some (Inr (0, s))
     else Some (Inr (f * PAGE_SIZE, s\<lparr>bitmap := SET_FRAME f (bitmap s)\<rparr>)))"
proof -
  let ?f = "find_first_zero s (start div PAGE_SIZE)"
  have "scan_free s 1 ?f = Inr (0, Suc ?f)" if "?f \<noteq> 0"
  proof -
    from that find_zero_word_result[OF assms, of "start div PAGE_SIZE div 32"]
    have f: "\<not> frame_used s ?f" "?f < bitmap_items s" by (auto simp: find_first_zero_def)
    then have "?f div 32 < length (bitmap s)" using assms by (auto simp: phys_wf_def)
    with f show ?thesis by (simp add: TEST_FRAME_def test_bit_def frame_used_def)
  qed
  then show ?thesis
    by (simp add: alloc_frames_def alloc_loop.simps[of s] Let_def)
qed

lemmas alloc_frames_single = alloc_frames_one[simplified One_nat_def]

lemma try_zone_total: "phys_wf s \<Longrightarrow> total_from s next \<Longrightarrow> total_from s (try_zone start 1 next)"
  by (auto simp: total_from_def try_zone_def alloc_frames_single Let_def)

lemma total_from_if:
  "total_from s f \<Longrightarrow> total_from s g \<Longrightarrow> total_from s (\<lambda>s. if c then f s else g s)"
  by (simp add: total_from_def)

lemma total_from_fail: "total_from s (\<lambda>s. Some (Inr (0, s)))"
  by (simp add: total_from_def)

lemma phys_alloc_total:
  assumes "phys_wf s"
  shows "\<exists>page s'. phys_alloc s 1 flags = Some (Inr (page, s'))"
proof -
  have "total_from s (\<lambda>s. phys_alloc s 1 flags)"
    unfolding phys_alloc_def Let_def
    by (intro total_from_if try_zone_total total_from_fail assms)
  then show ?thesis by (simp add: total_from_def)
qed

lemma exhausted_zone0: "phys_wf s \<Longrightarrow> exhausted_from s (try_zone 0 1 next)"
  by (auto simp: exhausted_from_def try_zone_def alloc_frames_single Let_def find_first_zero_def
      split: if_splits)

lemma exhausted_try:
  "phys_wf s \<Longrightarrow> exhausted_from s next \<Longrightarrow> exhausted_from s (try_zone start 1 next)"
  by (auto simp: exhausted_from_def try_zone_def alloc_frames_single Let_def split: if_splits)

lemma exhausted_if:
  "exhausted_from s f \<Longrightarrow> exhausted_from s g \<Longrightarrow> exhausted_from s (\<lambda>s. if c then f s else g s)"
  by (simp add: exhausted_from_def)

lemma phys_alloc_exhausted:
  assumes "phys_wf s" and "phys_alloc s 1 flags = Some (Inr (0, s'))"
  shows "\<not> frame_used s 0 \<or> (\<forall>f < bitmap_items s. frame_used s f)"
proof -
  have "exhausted_from s (\<lambda>s. phys_alloc s 1 flags)"
    unfolding phys_alloc_def Let_def
    by (intro exhausted_if exhausted_zone0 exhausted_try[where start = DMA_AREA_SIZE]
        exhausted_try[where start = LOWMEM_SIZE] assms)
  with assms have "find_zero_word s 0 = 0" by (simp add: exhausted_from_def)
  from find_zero_word_zero[OF assms(1) this] show ?thesis by auto
qed

section \<open>The interface to the clients of single frames\<close>

text \<open>
  Every client outside this theory (the heap, the page tables, the page cache of a region) takes
  and returns single frames. A source of frames keeps the set of frames that are in use; a frame it
  hands out was not in use and stays in use until it is returned.
\<close>

locale frame_source =
  fixes take_frame :: "'s \<Rightarrow> nat \<times> 's"
    and give_frame :: "'s \<Rightarrow> nat \<Rightarrow> 's"
    and in_use :: "'s \<Rightarrow> nat \<Rightarrow> bool"
    and frames_ok :: "'s \<Rightarrow> bool"
  assumes take_ok: "frames_ok s \<Longrightarrow> frames_ok (snd (take_frame s))"
    and take_none: "frames_ok s \<Longrightarrow> fst (take_frame s) = 0 \<Longrightarrow> snd (take_frame s) = s"
    and take_fresh: "frames_ok s \<Longrightarrow> fst (take_frame s) \<noteq> 0 \<Longrightarrow>
           \<not> in_use s (fst (take_frame s)) \<and>
           (\<forall>a. in_use (snd (take_frame s)) a \<longleftrightarrow> in_use s a \<or> a = fst (take_frame s))"
    and give_ok: "frames_ok s \<Longrightarrow> frames_ok (give_frame s p)"
    and give_frees: "frames_ok s \<Longrightarrow> in_use s p \<Longrightarrow>
           (\<forall>a. in_use (give_frame s p) a \<longleftrightarrow> in_use s a \<and> a \<noteq> p)"
begin

fun take_frames :: "nat \<Rightarrow> 's \<Rightarrow> nat list \<times> 's" where
  "take_frames 0 s = ([], s)"
| "take_frames (Suc n) s =
     (let (p, s1) = take_frame s; (ps, s2) = take_frames n s1 in (p # ps, s2))"

lemma take_frames_in_use:
  "frames_ok s \<Longrightarrow> take_frames n s = (ps, s') \<Longrightarrow> 0 \<notin> set ps \<Longrightarrow>
     frames_ok s' \<and> distinct ps \<and> (\<forall>p\<in>set ps. \<not> in_use s p) \<and>
     (\<forall>a. in_use s' a \<longleftrightarrow> in_use s a \<or> a \<in> set ps)"
proof (induction n arbitrary: s ps s')
  case (Suc n)
  obtain p s1 where t: "take_frame s = (p, s1)" by force
  obtain qs s2 where u: "take_frames n s1 = (qs, s2)" by force
  from Suc.prems t u have ps: "ps = p # qs" and s2: "s2 = s'" and p: "p \<noteq> 0" by auto
  from take_ok[OF Suc.prems(1)] take_fresh[OF Suc.prems(1)] t p
  have s1: "frames_ok s1" "\<not> in_use s p" "\<And>a. in_use s1 a \<longleftrightarrow> in_use s a \<or> a = p" by auto
  from Suc.IH[OF s1(1) u] Suc.prems(3) ps s2 have IH: "frames_ok s'" "distinct qs"
    "\<forall>q\<in>set qs. \<not> in_use s1 q" "\<forall>a. in_use s' a \<longleftrightarrow> in_use s1 a \<or> a \<in> set qs" by auto
  with s1 ps show ?case by auto
qed simp

lemma take_give:
  assumes "frames_ok s" and "take_frame s = (p, s')" and "p \<noteq> 0"
  shows "\<forall>a. in_use (give_frame s' p) a \<longleftrightarrow> in_use s a"
  using take_ok[OF assms(1)] take_fresh[OF assms(1)] give_frees[of s' p] assms(2,3) by auto

end

definition phys_alloc1 :: "u32 \<Rightarrow> phys \<Rightarrow> nat \<times> phys" where
  "phys_alloc1 flags s =
     (case phys_alloc s 1 flags of Some (Inr r) \<Rightarrow> r | _ \<Rightarrow> (0, s))"

lemma phys_alloc1_eq:
  "phys_wf s \<Longrightarrow> phys_alloc s 1 flags = Some (Inr (phys_alloc1 flags s))"
  using phys_alloc_total[of s flags] by (auto simp: phys_alloc1_def)

lemma phys_alloc1_post:
  "phys_wf s \<Longrightarrow> alloc_post s 1 (fst (phys_alloc1 flags s)) (snd (phys_alloc1 flags s))"
  using phys_alloc1_eq phys_alloc_safe by (metis prod.collapse)

lemma alloc_post_one:
  assumes "alloc_post s 1 page s'" and "page \<noteq> 0"
  obtains f where "page = f * PAGE_SIZE" "f < bitmap_items s" "\<not> frame_used s f"
    "bitmap_items s' = bitmap_items s" "\<forall>k. frame_used s' k \<longleftrightarrow> frame_used s k \<or> k = f"
proof -
  from assms obtain f where f: "page = f * PAGE_SIZE" "f + 1 \<le> bitmap_items s"
    "\<forall>k. f \<le> k \<and> k < f + 1 \<longrightarrow> \<not> frame_used s k" "bitmap_items s' = bitmap_items s"
    "\<forall>k. frame_used s' k \<longleftrightarrow> frame_used s k \<or> (f \<le> k \<and> k < f + 1)"
    unfolding alloc_post_def if_not_P[OF assms(2)] by blast
  moreover have "\<And>k. f \<le> k \<and> k < f + 1 \<longleftrightarrow> k = f" by auto
  ultimately show thesis using that by simp
qed

definition frame_addr_used :: "phys \<Rightarrow> nat \<Rightarrow> bool" where
  "frame_addr_used s a \<longleftrightarrow> PAGE_SIZE dvd a \<and> a div PAGE_SIZE < bitmap_items s \<and>
     frame_used s (a div PAGE_SIZE)"

definition phys_free1 :: "phys \<Rightarrow> nat \<Rightarrow> phys" where
  "phys_free1 s a = phys_free s (of_nat a) 1"

lemma frame_addr_used_alt:
  "frame_addr_used s a \<longleftrightarrow> (\<exists>k < bitmap_items s. a = k * PAGE_SIZE \<and> frame_used s k)"
  by (auto simp: frame_addr_used_def elim!: dvdE)

interpretation pf: frame_source "phys_alloc1 flags" phys_free1 frame_addr_used phys_wf
  for flags
proof unfold_locales
  fix s :: phys and p :: nat
  assume wf: "phys_wf s"
  note post = phys_alloc1_post[OF wf, of flags]
  show "phys_wf (snd (phys_alloc1 flags s))"
    using post wf by (auto simp: alloc_post_def split: if_splits)
  show "snd (phys_alloc1 flags s) = s" if "fst (phys_alloc1 flags s) = 0"
    using post that by (simp add: alloc_post_def)
  show "\<not> frame_addr_used s (fst (phys_alloc1 flags s)) \<and>
      (\<forall>a. frame_addr_used (snd (phys_alloc1 flags s)) a \<longleftrightarrow>
            frame_addr_used s a \<or> a = fst (phys_alloc1 flags s))"
    if nz: "fst (phys_alloc1 flags s) \<noteq> 0"
  proof -
    from post nz obtain f where "fst (phys_alloc1 flags s) = f * PAGE_SIZE" "f < bitmap_items s"
      "\<not> frame_used s f" "bitmap_items (snd (phys_alloc1 flags s)) = bitmap_items s"
      "\<forall>k. frame_used (snd (phys_alloc1 flags s)) k \<longleftrightarrow> frame_used s k \<or> k = f"
      by (rule alloc_post_one)
    then show ?thesis by (simp add: frame_addr_used_alt) blast
  qed
  show "phys_wf (phys_free1 s p)" using phys_free_bitmap[OF wf] by (simp add: phys_free1_def)
  show "\<forall>a. frame_addr_used (phys_free1 s p) a \<longleftrightarrow> frame_addr_used s a \<and> a \<noteq> p"
    if "frame_addr_used s p"
  proof -
    from that have p: "PAGE_SIZE dvd p" "p div PAGE_SIZE < bitmap_items s"
      by (simp_all add: frame_addr_used_def)
    have lim: "bitmap_items s \<le> 1048576" using wf by (simp add: phys_wf_def)
    with p have "p < 4294967296" by (auto elim!: dvdE)
    then have u: "unat (of_nat p :: u32) = p" by (simp add: unat_of_nat)
    have items: "bitmap_items (phys_free1 s p) = bitmap_items s"
      by (simp add: phys_free1_def phys_free_def Let_def)
    have "frame_used (phys_free1 s p) f \<longleftrightarrow> frame_used s f \<and> f \<noteq> p div PAGE_SIZE"
      if "f < bitmap_items s" for f
      using phys_free_bitmap[OF wf, of "of_nat p" 1 f] that lim p
      by (auto simp: phys_free1_def u)
    moreover have "\<And>f. f * PAGE_SIZE = p \<longleftrightarrow> f = p div PAGE_SIZE" using p(1) by auto
    ultimately show ?thesis using items by (simp add: frame_addr_used_alt) metis
  qed
qed

section \<open>A search that never ends\<close>

lemma find_zero_word_again:
  "phys_wf s \<Longrightarrow> find_zero_word s i = f \<Longrightarrow> f \<noteq> 0 \<Longrightarrow> find_zero_word s (f div 32) = f"
proof (induction s i rule: find_zero_word.induct)
  case (1 s i)
  show ?case
  proof (cases "i < bitmap_size s \<and> bitmap s ! i = -1")
    case True
    with 1 show ?thesis by (auto simp: find_zero_word.simps[of s i])
  next
    case False
    with "1.prems" have i: "i < bitmap_size s" "bitmap s ! i \<noteq> -1"
      by (auto simp: find_zero_word.simps[of s i] split: if_splits)
    then have "f = i * 32 + ffz_bit (bitmap s ! i)" using "1.prems" by (simp add: find_zero_word.simps)
    with ffz_bit_less[OF i(2)] have "f div 32 = i" by simp
    with "1.prems" show ?thesis by simp
  qed
qed

lemma alloc_loop_diverges:
  assumes wf: "phys_wf s" and len: "2 \<le> len"
    and f: "find_first_zero s i = f" "f \<noteq> 0" "f mod 32 < 31" "frame_used s (Suc f)"
  shows "alloc_loop s len i = None"
proof -
  have again: "find_first_zero s (Suc f) = f"
  proof -
    have "Suc f div 32 = f div 32" using f(3) by (simp add: div_Suc mod_Suc)
    then show ?thesis
      using find_zero_word_again[OF wf, of "i div 32" f] f(1,2) by (simp add: find_first_zero_def)
  qed
  have fr: "\<not> frame_used s f" "f < bitmap_items s"
    using find_zero_word_result[OF wf, of "i div 32"] f(1,2) by (auto simp: find_first_zero_def)
  have sc: "scan_free s len f = Inr (len - 1, Suc f)"
  proof -
    obtain n where n: "len = Suc (Suc n)" using len by (metis Suc_le_D Suc_le_mono numeral_2_eq_2)
    have "Suc f div 32 = f div 32" using f(3) by (simp add: div_Suc mod_Suc)
    moreover have "f div 32 < length (bitmap s)" using fr(2) wf by (auto simp: phys_wf_def)
    moreover note fr(1) f(4)
    ultimately show ?thesis by (simp add: n TEST_FRAME_def test_bit_def frame_used_def)
  qed
  have "False" if "alloc_loop s len j = Some r" "find_first_zero s j = f" for j r
  proof -
    have "s = t \<longrightarrow> len = n \<longrightarrow> find_first_zero s j = f \<longrightarrow> False"
      if "alloc_loop t n j = Some r" for t n j r
    proof (rule alloc_loop.raw_induct
        [where P = "\<lambda>t n j r. s = t \<longrightarrow> len = n \<longrightarrow> find_first_zero s j = f \<longrightarrow> False", OF _ that])
      fix loop t n j r
      assume IH: "\<And>t n j r. loop t n j = Some r \<Longrightarrow>
          s = t \<longrightarrow> len = n \<longrightarrow> find_first_zero s j = f \<longrightarrow> False"
        and eq: "(let frame = find_first_zero t j in
          if frame = 0 then Some (Inr (0, t))
          else case scan_free t n frame of Inl e \<Rightarrow> Some (Inl e)
               | Inr (c, i') \<Rightarrow>
                   if c = 0
                   then Some (Inr (frame * PAGE_SIZE,
                          t\<lparr>bitmap := fold (\<lambda>k. SET_FRAME (k + frame)) [0..<n] (bitmap t)\<rparr>))
                   else loop t n i') = Some r"
      show "s = t \<longrightarrow> len = n \<longrightarrow> find_first_zero s j = f \<longrightarrow> False"
        using eq IH[of s len "Suc f" r] sc again f(2) len by (auto simp: Let_def)
    qed
    with that show ?thesis by blast
  qed
  with f(1) show ?thesis by (cases "alloc_loop s len i") auto
qed

section \<open>Properties\<close>


definition phys_example :: phys where
  "phys_example = \<lparr>bitmap = [-1, 1], bitmap_size = 2, bitmap_items = 64\<rparr>"


text \<open>C19. Whatever number of frames is asked for, a block that \<open>phys_alloc\<close> returns lies inside the
  bitmap, was entirely free before and is entirely used after, and no other frame changed.\<close>

theorem phys_alloc_block:
  assumes "phys_wf s" and "phys_alloc s len flags = Some (Inr (page, s'))" and "page \<noteq> 0"
  shows "\<exists>f. page = f * PAGE_SIZE \<and> f + len \<le> bitmap_items s \<and> phys_wf s' \<and>
    (\<forall>k. f \<le> k \<and> k < f + len \<longrightarrow> \<not> frame_used s k) \<and>
    (\<forall>k. frame_used s' k \<longleftrightarrow> frame_used s k \<or> (f \<le> k \<and> k < f + len))"
  using phys_alloc_safe[OF assms(1,2)] unfolding alloc_post_def if_not_P[OF assms(3)] by blast

lemma phys_example_alloc2:
  "phys_alloc phys_example 2 PHYS_ZONE_NORMAL =
     Some (Inr (33 * PAGE_SIZE, phys_example\<lparr>bitmap := [-1, 7]\<rparr>))"
proof -
  have z: "find_first_zero phys_example 4096 = 0" "find_first_zero phys_example 0 = 33"
    by code_simp+
  have sc: "scan_free phys_example 2 33 = Inr (0, 35)"
    by code_simp
  have st: "[0..<2::nat] = [0, 1]" by (simp add: upt_rec)
  show ?thesis
    by (simp add: phys_alloc_def Let_def try_zone_def alloc_frames_def alloc_loop.simps z sc
        PHYS_ZONE_NORMAL_def PHYS_ZONE_HIGH_def DMA_AREA_SIZE_def st SET_FRAME_def bts_def)
      (simp add: phys_example_def)
qed

theorem phys_alloc_block_witness:
  "(\<exists>f. 33 * PAGE_SIZE = f * PAGE_SIZE \<and> f + 2 \<le> bitmap_items phys_example \<and>
    (\<forall>k. f \<le> k \<and> k < f + 2 \<longrightarrow> \<not> frame_used phys_example k))"
  using phys_alloc_block[OF _ phys_example_alloc2]
  by (simp add: phys_wf_def phys_example_def)

text \<open>C27. A request for two or more frames never returns when the first free frame the search meets
  is followed, in the same bitmap word, by a used frame: the search resumes in that word and finds the
  same frame again, however much memory is free elsewhere.\<close>

theorem alloc_frames_fragmented_diverges:
  assumes "phys_wf s" and "2 \<le> len" and "find_first_zero s (start div PAGE_SIZE) = f"
    and "f \<noteq> 0" and "f mod 32 < 31" and "frame_used s (Suc f)"
  shows "alloc_frames s start len = None"
  unfolding alloc_frames_def by (rule alloc_loop_diverges[OF assms])

definition phys_fragmented :: phys where
  "phys_fragmented = \<lparr>bitmap = [-1, 2, 0], bitmap_size = 3, bitmap_items = 96\<rparr>"

theorem alloc_frames_fragmented_diverges_witness:
  "alloc_frames phys_fragmented 0 2 = None \<and>
   \<not> frame_used phys_fragmented 64 \<and> \<not> frame_used phys_fragmented 65"
proof -
  have "find_first_zero phys_fragmented 0 = 32"
    by code_simp
  with alloc_frames_fragmented_diverges[of phys_fragmented 2 0 32] show ?thesis
    by (simp add: phys_wf_def phys_fragmented_def frame_used_def)
qed

text \<open>\<open>phys_free\<close> clears exactly the frames of the given range that the bitmap covers, and
  reserving the same bytes marks exactly them again.\<close>

theorem phys_free_exact:
  assumes "phys_wf s" and "unat start div PAGE_SIZE + unat len < 2 ^ 32"
  shows "phys_wf (phys_free s start len) \<and>
    (\<forall>f. frame_used (phys_free s start len) f \<longleftrightarrow>
       frame_used s f \<and> \<not> (unat start div PAGE_SIZE \<le> f \<and>
         f < unat start div PAGE_SIZE + unat len \<and> f < bitmap_items s)) \<and>
    (\<forall>bytes f. unat bytes = unat len * PAGE_SIZE \<longrightarrow>
       (frame_used (phys_reserve (phys_free s start len) start bytes) f \<longleftrightarrow>
        frame_used s f \<or> (unat start div PAGE_SIZE \<le> f \<and>
          f < unat start div PAGE_SIZE + unat len \<and> f < bitmap_items s)))"
proof -
  have items: "bitmap_items (phys_free s start len) = bitmap_items s"
    by (simp add: phys_free_def Let_def)
  note free = phys_free_bitmap[OF assms(1), of start len]
  then have wf: "phys_wf (phys_free s start len)" by blast
  show ?thesis
    using free assms(2) phys_reserve_bitmap[OF wf, of start] items by auto
qed

theorem phys_free_exact_witness:
  "frame_used phys_example 5 \<and> \<not> frame_used (phys_free phys_example 0x4000 2) 5 \<and>
   frame_used (phys_free phys_example 0x4000 2) 6 \<and>
   frame_used (phys_reserve (phys_free phys_example 0x4000 2) 0x4000 0x2000) 5"
proof -
  have wf: "phys_wf phys_example" by (simp add: phys_wf_def phys_example_def)
  have u: "frame_used phys_example f" "f < bitmap_items phys_example" if "f < 32" for f
    using that by (simp_all add: frame_used_def phys_example_def)
  show ?thesis
    using phys_free_exact[OF wf, of "0x4000" 2] u[of 5] u[of 6]
    by (auto dest!: spec[of _ "0x2000 :: u32"])
qed

text \<open>\<open>phys_reserve_self\<close>, called with the virtual address of the bitmap (at or above
  \<open>0xC0000000\<close>, since the boot code passes \<open>KERNEL_PHYS2VIRT(bitmap)\<close> to \<open>phys_init\<close>), reserves
  nothing on any machine with at most 3 GiB of memory.\<close>

theorem phys_reserve_self_noop:
  assumes "bitmap_items s \<le> 0xC0000" and "0xC0000000 \<le> addr" and "addr < 2 ^ 32"
  shows "phys_reserve_self s addr = s"
proof -
  have r: "ROUND_DOWN addr PAGE_SIZE = 4096 * (addr div 4096)" by (rule ROUND_DOWN_eq)
  with assms have "ROUND_DOWN addr PAGE_SIZE < 2 ^ 32" "0xC0000 \<le> ROUND_DOWN addr PAGE_SIZE div 4096"
    by auto
  with assms(1) show ?thesis
    by (simp add: phys_reserve_self_def phys_reserve_def Let_def unat_of_nat)
qed

theorem phys_reserve_self_noop_witness:
  "phys_reserve_self phys_example 0xC0123000 = phys_example"
  by (rule phys_reserve_self_noop) (simp_all add: phys_example_def)

end
