(* ===== verification/Sma.thy ===== *)
theory Sma
  imports Prelude
begin

text \<open>
  The address-range allocator of \<^verbatim>\<open>mm/sma.c\<close>. An area keeps two address-sorted lists of blocks, used
  and free. A block is a record with the pointer that identifies it (\<open>bid\<close>); updating a block
  through its pointer changes the element with that \<open>bid\<close> in place, and \<^verbatim>\<open>kalloc\<close> of a block takes a
  fresh pointer. Addresses and sizes are 32-bit words, so every sum wraps as in the source. The area
  mutex is held for the whole of each operation, which therefore is one step of the model. The
  callback \<^verbatim>\<open>do_free\<close> is an optional function on the state \<open>'w\<close> outside the area; \<^verbatim>\<open>do_alloc\<close> and
  \<^verbatim>\<open>do_resize\<close> are \<^verbatim>\<open>NULL\<close> in every call of \<^verbatim>\<open>sma_area_create\<close>.
\<close>

section \<open>Blocks and areas\<close>

record sma_block =
  bid :: nat
  bflags :: u32
  bstart :: u32
  bsize :: u32
  dataptr :: "nat option"

record sma_area =
  used_list :: "sma_block list"
  free_list :: "sma_block list"
  area_start :: u32
  area_size :: u32
  next_bid :: nat

definition SMA_FLAGS_USED :: u32 where "SMA_FLAGS_USED = 0x01"
definition SMA_ALLOC_FIXED :: u32 where "SMA_ALLOC_FIXED = 0x02"

fun sma_list_add :: "sma_block list \<Rightarrow> sma_block \<Rightarrow> sma_block list" where
  "sma_list_add [] block = [block]"
| "sma_list_add (iter # rest) block =
     (if bstart iter > bstart block then block # iter # rest else iter # sma_list_add rest block)"

definition list_del :: "sma_block \<Rightarrow> sma_block list \<Rightarrow> sma_block list" where
  "list_del block = filter (\<lambda>x. bid x \<noteq> bid block)"

definition list_set :: "sma_block \<Rightarrow> sma_block list \<Rightarrow> sma_block list" where
  "list_set block = map (\<lambda>x. if bid x = bid block then block else x)"

definition sma_area_create :: "u32 \<Rightarrow> u32 \<Rightarrow> sma_area" where
  "sma_area_create start sz =
     (let start = ROUND_DOWN start 0x1000; sz = ROUND_UP sz 0x1000
      in \<lparr>used_list = [],
          free_list = [\<lparr>bid = 0, bflags = 0, bstart = start, bsize = sz, dataptr = None\<rparr>],
          area_start = start, area_size = sz, next_bid = 1\<rparr>)"

text \<open>\<^verbatim>\<open>do_free\<close> of every used block in list order; both lists and the area are released.\<close>

definition sma_area_destroy :: "(sma_block \<Rightarrow> 'w \<Rightarrow> 'w) option \<Rightarrow> sma_area \<Rightarrow> 'w \<Rightarrow> 'w" where
  "sma_area_destroy do_free area w =
     (case do_free of None \<Rightarrow> w | Some f \<Rightarrow> fold f (used_list area) w)"

definition covers :: "u32 \<Rightarrow> sma_block \<Rightarrow> bool" where
  "covers addr block \<longleftrightarrow> bstart block \<le> addr \<and> bstart block + bsize block > addr"

text \<open>The block \<^verbatim>\<open>sma_alloc\<close> carves from: the search at a given address, then first fit.\<close>

definition sma_choose :: "sma_area \<Rightarrow> u32 \<Rightarrow> u32 \<Rightarrow> u32 \<Rightarrow> sma_block option" where
  "sma_choose area addr sz flags =
     (let at_addr = (if addr = 0 then None
                     else case find (covers addr) (free_list area) of
                         None \<Rightarrow> None
                       | Some block \<Rightarrow>
                           if bstart block + bsize block < addr + sz then None else Some block)
      in case at_addr of
           Some block \<Rightarrow> Some block
         | None \<Rightarrow>
             if flags AND SMA_ALLOC_FIXED \<noteq> 0 then None
             else find (\<lambda>block. bsize block \<ge> sz) (free_list area))"

definition sma_new :: "sma_area \<Rightarrow> u32 \<Rightarrow> u32 \<Rightarrow> u32 \<Rightarrow> sma_block \<times> sma_area" where
  "sma_new area flags start sz =
     (\<lparr>bid = next_bid area, bflags = flags, bstart = start, bsize = sz, dataptr = None\<rparr>,
      area\<lparr>next_bid := next_bid area + 1\<rparr>)"

definition sma_alloc :: "sma_area \<Rightarrow> u32 \<Rightarrow> u32 \<Rightarrow> u32 \<Rightarrow> sma_block option \<times> sma_area" where
  "sma_alloc area addr sz flags =
     (case sma_choose area addr sz flags of
        None \<Rightarrow> (None, area)
      | Some block \<Rightarrow>
          let addr = (if bstart block > addr \<or> bstart block + bsize block \<le> addr then 0 else addr)
          in if bstart block = addr \<or> addr = 0 then
               if bsize block = sz then
                 let b = block\<lparr>bflags := bflags block OR SMA_FLAGS_USED\<rparr>
                 in (Some b, area\<lparr>free_list := list_del block (free_list area),
                                  used_list := sma_list_add (used_list area) b\<rparr>)
               else
                 let (newblock, area) = sma_new area SMA_FLAGS_USED (bstart block) sz;
                     block' = block\<lparr>bsize := bsize block - sz, bstart := bstart block + sz\<rparr>
                 in (Some newblock,
                     area\<lparr>used_list := sma_list_add (used_list area) newblock,
                          free_list := list_set block' (free_list area)\<rparr>)
             else
               let (newblock, area) = sma_new area SMA_FLAGS_USED addr sz;
                   area = area\<lparr>used_list := sma_list_add (used_list area) newblock\<rparr>;
                   area = (if bstart block + bsize block \<noteq> addr + sz then
                             let (newblock2, area) =
                                   sma_new area 0 (addr + sz)
                                     ((bstart block + bsize block) - (addr + sz))
                             in area\<lparr>free_list := sma_list_add (free_list area) newblock2\<rparr>
                           else area);
                   block' = block\<lparr>bsize := addr - bstart block\<rparr>
               in (Some newblock, area\<lparr>free_list := list_set block' (free_list area)\<rparr>))"

text \<open>\<^verbatim>\<open>sma_free\<close>: \<open>None\<close> is the endless loop of the source when no used block covers the address.
  The partial cases print a notice and free nothing.\<close>

definition sma_free ::
  "(sma_block \<Rightarrow> 'w \<Rightarrow> 'w) option \<Rightarrow> sma_area \<Rightarrow> 'w \<Rightarrow> u32 \<Rightarrow> u32 \<Rightarrow> (sma_area \<times> 'w) option" where
  "sma_free do_free area w start sz =
     (case find (covers start) (used_list area) of
        None \<Rightarrow> None
      | Some block \<Rightarrow>
          if bstart block = start then
            if bsize block = sz then
              let b = block\<lparr>bflags := bflags block AND NOT SMA_FLAGS_USED\<rparr>;
                  w = (case do_free of None \<Rightarrow> w | Some f \<Rightarrow> f b w)
              in Some (area\<lparr>used_list := list_del block (used_list area),
                            free_list := sma_list_add (free_list area) b\<rparr>, w)
            else Some (area, w)
          else Some (area, w))"

definition sma_getblock :: "sma_area \<Rightarrow> u32 \<Rightarrow> sma_block option" where
  "sma_getblock area addr =
     (case find (covers addr) (used_list area) of
        Some block \<Rightarrow> Some block
      | None \<Rightarrow> find (covers addr) (free_list area))"

fun next_in :: "sma_block list \<Rightarrow> nat \<Rightarrow> sma_block option" where
  "next_in [] p = None"
| "next_in [x] p = None"
| "next_in (x # y # rest) p = (if bid x = p then Some y else next_in (y # rest) p)"

definition sma_get_next_used :: "sma_area \<Rightarrow> sma_block option \<Rightarrow> sma_block option" where
  "sma_get_next_used area current =
     (case current of
        None \<Rightarrow> (case used_list area of [] \<Rightarrow> None | x # _ \<Rightarrow> Some x)
      | Some block \<Rightarrow> next_in (used_list area) (bid block))"

section \<open>Tilings\<close>

text \<open>The addresses of a block, without wrap-around.\<close>

definition fin :: "sma_block \<Rightarrow> nat" where
  "fin b = unat (bstart b) + unat (bsize b)"

definition blk :: "sma_block \<Rightarrow> nat set" where
  "blk b = {unat (bstart b) ..< fin b}"

definition tiles :: "sma_block set \<Rightarrow> nat \<Rightarrow> nat \<Rightarrow> bool" where
  "tiles B lo hi \<longleftrightarrow>
     (\<forall>b\<in>B. bsize b \<noteq> 0) \<and> (\<Union>b\<in>B. blk b) = {lo ..< hi} \<and>
     (\<forall>b\<in>B. \<forall>c\<in>B. b \<noteq> c \<longrightarrow> blk b \<inter> blk c = {})"

lemma blk_nonempty: "bsize b \<noteq> 0 \<Longrightarrow> unat (bstart b) \<in> blk b"
  by (simp add: blk_def fin_def unat_gt_0)

lemma tiles_bounds:
  assumes "tiles B lo hi" and "b \<in> B"
  shows "lo \<le> unat (bstart b)" "fin b \<le> hi" "unat (bstart b) < fin b"
proof -
  from assms have nz: "bsize b \<noteq> 0" and sub: "blk b \<subseteq> {lo ..< hi}" by (auto simp: tiles_def)
  from nz show lt: "unat (bstart b) < fin b" by (simp add: fin_def unat_gt_0)
  with sub show "lo \<le> unat (bstart b)" "fin b \<le> hi" by (auto simp: blk_def atLeastLessThan_subset_iff)
qed

text \<open>Cutting one tile into pieces that cover it keeps a tiling.\<close>

lemma tiles_split:
  assumes "tiles B lo hi" and "b \<in> B" and "\<forall>p\<in>P. bsize p \<noteq> 0"
    and "(\<Union>p\<in>P. blk p) = blk b" and "\<forall>p\<in>P. \<forall>q\<in>P. p \<noteq> q \<longrightarrow> blk p \<inter> blk q = {}"
  shows "tiles ((B - {b}) \<union> P) lo hi"
proof -
  have "(\<Union>c\<in>B. blk c) = (\<Union>c\<in>B - {b}. blk c) \<union> blk b" using assms(2) by auto
  moreover have "blk c \<inter> blk p = {}" if "c \<in> B - {b}" "p \<in> P" for c p
  proof -
    have "blk p \<subseteq> blk b" using assms(4) that(2) by auto
    moreover have "blk c \<inter> blk b = {}" using assms(1,2) that(1) by (auto simp: tiles_def)
    ultimately show ?thesis by auto
  qed
  ultimately show ?thesis
    using assms unfolding tiles_def
    by (auto simp: Int_commute) (metis Diff_iff Int_commute disjoint_iff singletonD)+
qed

section \<open>Well-formed areas\<close>

abbreviation blocks :: "sma_area \<Rightarrow> sma_block list" where
  "blocks area \<equiv> used_list area @ free_list area"

definition sma_wf :: "sma_area \<Rightarrow> bool" where
  "sma_wf area \<longleftrightarrow>
     distinct (map bid (blocks area)) \<and> (\<forall>b\<in>set (blocks area). bid b < next_bid area) \<and>
     tiles (set (blocks area)) (unat (area_start area)) (unat (area_start area) + unat (area_size area)) \<and>
     unat (area_start area) + unat (area_size area) \<le> 2 ^ 32 \<and>
     (\<forall>b\<in>set (used_list area). bit (bflags b) 0) \<and> (\<forall>b\<in>set (free_list area). \<not> bit (bflags b) 0)"

definition owned :: "sma_area \<Rightarrow> nat set" where
  "owned area = (\<Union>b\<in>set (used_list area). blk b)"

definition avail :: "sma_area \<Rightarrow> nat set" where
  "avail area = (\<Union>b\<in>set (free_list area). blk b)"

lemma set_sma_list_add [simp]: "set (sma_list_add bs b) = insert b (set bs)"
  by (induction bs) auto

lemma mset_bid_sma_list_add: "distinct (map bid (sma_list_add bs b)) \<longleftrightarrow> distinct (map bid (b # bs))"
  by (induction bs) auto

lemma sma_list_add_sorted:
  "sorted (map bstart bs) \<Longrightarrow> sorted (map bstart (sma_list_add bs b))"
  by (induction bs) (auto simp: not_less)

lemma same_bid: "distinct (map bid bs) \<Longrightarrow> x \<in> set bs \<Longrightarrow> b \<in> set bs \<Longrightarrow> bid x = bid b \<Longrightarrow> x = b"
  by (auto simp: distinct_map inj_on_def)

lemma list_del_set: "distinct (map bid bs) \<Longrightarrow> b \<in> set bs \<Longrightarrow> set (list_del b bs) = set bs - {b}"
  by (auto simp: list_del_def dest: same_bid)

lemma list_set_set:
  "distinct (map bid bs) \<Longrightarrow> b \<in> set bs \<Longrightarrow> bid b' = bid b \<Longrightarrow>
     set (list_set b' bs) = insert b' (set bs - {b})"
  by (auto simp: list_set_def image_iff dest: same_bid split: if_splits)

lemma list_set_bid: "map bid (list_set b bs) = map bid bs"
  by (auto simp: list_set_def)

lemma fin_no_wrap: "fin b < 2 ^ 32 \<Longrightarrow> unat (bstart b + bsize b) = fin b"
  by (simp add: fin_def unat_word_ariths)

lemma covers_iff: "fin b < 2 ^ 32 \<Longrightarrow> covers addr b \<longleftrightarrow> unat addr \<in> blk b"
  by (auto simp: covers_def blk_def word_le_nat_alt word_less_nat_alt fin_no_wrap)

lemma sma_wf_block:
  assumes "sma_wf area" and "b \<in> set (blocks area)"
  shows "fin b \<le> 2 ^ 32" "unat (bstart b) < fin b" "bid b < next_bid area"
    "fin b \<le> unat (area_start area) + unat (area_size area)" "unat (area_start area) \<le> unat (bstart b)"
proof -
  note wf = assms(1)[unfolded sma_wf_def]
  note t = tiles_bounds[OF wf[THEN conjunct2, THEN conjunct2, THEN conjunct1] assms(2)]
  show "fin b \<le> unat (area_start area) + unat (area_size area)" "unat (bstart b) < fin b"
    "unat (area_start area) \<le> unat (bstart b)"
    using t by simp_all
  then show "fin b \<le> 2 ^ 32" "bid b < next_bid area" using wf assms(2) by auto
qed

lemma find_in: "find P xs = Some x \<Longrightarrow> x \<in> set xs \<and> P x"
  by (auto simp: find_Some_iff)

text \<open>
  The effect of an allocation: the free block \<open>f\<close> is replaced by the used block \<open>b\<close> and the free
  pieces \<open>R\<close>, which together cover exactly the addresses of \<open>f\<close>.
\<close>

definition carved :: "sma_area \<Rightarrow> sma_area \<Rightarrow> sma_block \<Rightarrow> sma_block \<Rightarrow> sma_block set \<Rightarrow> bool" where
  "carved area area' f b R \<longleftrightarrow>
     f \<in> set (free_list area) \<and> set (used_list area') = insert b (set (used_list area)) \<and>
     set (free_list area') = (set (free_list area) - {f}) \<union> R \<and>
     (\<forall>p\<in>insert b R. bsize p \<noteq> 0) \<and> (\<Union>p\<in>insert b R. blk p) = blk f \<and>
     (\<forall>p\<in>insert b R. \<forall>q\<in>insert b R. p \<noteq> q \<longrightarrow> blk p \<inter> blk q = {}) \<and> b \<notin> R \<and>
     bit (bflags b) 0 \<and> (\<forall>p\<in>R. \<not> bit (bflags p) 0) \<and>
     area_start area' = area_start area \<and> area_size area' = area_size area"

lemma sma_wf_disjoint:
  assumes "sma_wf area"
  shows "distinct (map bid (used_list area))" "distinct (map bid (free_list area))"
    "b \<in> set (used_list area) \<Longrightarrow> f \<in> set (free_list area) \<Longrightarrow> b \<noteq> f \<and> bid b \<noteq> bid f"
  using assms by (auto simp: sma_wf_def)

lemma carved_wf:
  assumes wf: "sma_wf area" and c: "carved area area' f b R"
    and d: "distinct (map bid (blocks area'))" "\<forall>b\<in>set (blocks area'). bid b < next_bid area'"
  shows "sma_wf area'"
proof -
  have eq: "set (blocks area') = (set (blocks area) - {f}) \<union> insert b R"
    using c sma_wf_disjoint(3)[OF wf] by (auto simp: carved_def)
  have "tiles (set (blocks area')) (unat (area_start area)) (unat (area_start area) + unat (area_size area))"
    unfolding eq by (rule tiles_split) (use wf c in \<open>auto simp: sma_wf_def carved_def\<close>)
  with wf c d show ?thesis by (auto simp: sma_wf_def carved_def)
qed

lemma cut_out: "A = X \<union> (B \<union> Y) \<Longrightarrow> X \<inter> B = {} \<Longrightarrow> Y \<inter> B = {} \<Longrightarrow> A' = X \<union> Y \<Longrightarrow> A' = A - B"
  by blast

lemma carved_sets:
  assumes wf: "sma_wf area" and c: "carved area area' f b R"
  shows "blk b \<subseteq> avail area" "owned area' = owned area \<union> blk b" "avail area' = avail area - blk b"
    "blk b \<inter> owned area = {}"
proof -
  have f: "f \<in> set (free_list area)" and sub: "blk b \<subseteq> blk f" using c by (auto simp: carved_def)
  then show "blk b \<subseteq> avail area" by (auto simp: avail_def)
  show "owned area' = owned area \<union> blk b" using c by (auto simp: owned_def carved_def)
  have dis: "blk x \<inter> blk f = {}" if "x \<in> set (blocks area)" "x \<noteq> f" for x
    using wf f that by (auto simp: sma_wf_def tiles_def)
  show "blk b \<inter> owned area = {}"
  proof -
    have "blk b \<inter> blk x = {}" if "x \<in> set (used_list area)" for x
      using dis[of x] sub that sma_wf_disjoint(3)[OF wf that f] by auto
    then show ?thesis by (auto simp: owned_def)
  qed
  have "avail area = (\<Union>x\<in>set (free_list area) - {f}. blk x) \<union> (blk b \<union> (\<Union>p\<in>R. blk p))"
    using c by (auto simp: avail_def carved_def)
  moreover have "(\<Union>x\<in>set (free_list area) - {f}. blk x) \<inter> blk b = {}"
  proof -
    have "blk x \<inter> blk b = {}" if "x \<in> set (free_list area) - {f}" for x
      using dis[of x] sub that by auto
    then show ?thesis by auto
  qed
  moreover have "(\<Union>p\<in>R. blk p) \<inter> blk b = {}"
  proof -
    have "blk p \<inter> blk b = {}" if "p \<in> R" for p
      using c that unfolding carved_def by (metis insertCI)
    then show ?thesis by auto
  qed
  moreover have "avail area' = (\<Union>x\<in>set (free_list area) - {f}. blk x) \<union> (\<Union>p\<in>R. blk p)"
    using c by (auto simp: avail_def carved_def)
  ultimately show "avail area' = avail area - blk b" by (rule cut_out)
qed

section \<open>Allocation\<close>

text \<open>
  A request is regular when its size is not zero and either it leaves the address to the allocator or
  the following holds: the area ends below the end of the address space, the requested range does not
  wrap, and a hint that is not \<^verbatim>\<open>SMA_ALLOC_FIXED\<close> does not point into a free block that is too short
  behind the hint.
\<close>

definition regular :: "sma_area \<Rightarrow> u32 \<Rightarrow> u32 \<Rightarrow> u32 \<Rightarrow> bool" where
  "regular area addr sz flags \<longleftrightarrow>
     sz \<noteq> 0 \<and>
     (addr = 0 \<or>
      unat (area_start area) + unat (area_size area) < 2 ^ 32 \<and> unat addr + unat sz < 2 ^ 32 \<and>
      (flags AND SMA_ALLOC_FIXED \<noteq> 0 \<or>
       (\<forall>f\<in>set (free_list area). covers addr f \<longrightarrow> unat addr + unat sz \<le> fin f)))"

abbreviation effective :: "sma_block \<Rightarrow> u32 \<Rightarrow> u32" where
  "effective f addr \<equiv> (if bstart f > addr \<or> bstart f + bsize f \<le> addr then 0 else addr)"

lemma sma_choose_in: "sma_choose area addr sz flags = Some f \<Longrightarrow> f \<in> set (free_list area)"
  by (auto simp: sma_choose_def Let_def dest!: find_in split: option.splits if_splits)

lemma sma_choose_fits:
  assumes wf: "sma_wf area" and reg: "regular area addr sz flags"
    and ch: "sma_choose area addr sz flags = Some f"
  shows "(effective f addr = 0 \<and> sz \<le> bsize f \<and> (addr = 0 \<or> flags AND SMA_ALLOC_FIXED = 0)) \<or>
         (effective f addr = addr \<and> addr \<noteq> 0 \<and> bstart f \<le> addr \<and> unat addr + unat sz \<le> fin f)"
proof -
  have f: "f \<in> set (free_list area)" using ch by (rule sma_choose_in)
  show ?thesis
  proof (cases "addr = 0")
    case True
    with ch show ?thesis by (auto simp: sma_choose_def dest!: find_in split: if_splits)
  next
    case False
    with reg have bound: "unat (area_start area) + unat (area_size area) < 2 ^ 32"
      and sum: "unat (addr + sz) = unat addr + unat sz"
      by (simp_all add: regular_def unat_add_no_wrap)
    have nw: "unat (bstart x + bsize x) = fin x" if "x \<in> set (free_list area)" for x
      using sma_wf_block(4)[OF wf, of x] that bound by (intro fin_no_wrap) simp
    have short: "covers addr x \<Longrightarrow> \<not> bstart x + bsize x < addr + sz"
      if "x \<in> set (free_list area)" "flags AND SMA_ALLOC_FIXED = 0" for x
      using reg that False by (auto simp: regular_def word_less_nat_alt sum nw)
    consider (hint) "covers addr f" "\<not> bstart f + bsize f < addr + sz"
      | (fit) "flags AND SMA_ALLOC_FIXED = 0" "bsize f \<ge> sz" "\<not> covers addr f"
      using ch f False short
      by (auto simp: sma_choose_def Let_def find_None_iff dest!: find_in split: option.splits if_splits)
    then show ?thesis
    proof cases
      case hint
      then show ?thesis
        using False by (auto simp: covers_def word_less_nat_alt word_le_nat_alt sum nw[OF f] not_less)
    next
      case fit
      then show ?thesis by (auto simp: covers_def not_less not_le)
    qed
  qed
qed

lemma bit_used [simp]: "bit SMA_FLAGS_USED 0" "bit (w OR SMA_FLAGS_USED) 0"
  "\<not> bit (w AND NOT SMA_FLAGS_USED) 0" for w :: u32
  by (simp_all add: SMA_FLAGS_USED_def bit_simps)

definition alloc_step :: "sma_area \<Rightarrow> sma_area \<Rightarrow> sma_block \<Rightarrow> sma_block \<Rightarrow> sma_block set \<Rightarrow> bool" where
  "alloc_step area area' f b R \<longleftrightarrow>
     carved area area' f b R \<and> distinct (map bid (blocks area')) \<and>
     (\<forall>x\<in>set (blocks area'). bid x < next_bid area')"

lemma carve_exact:
  assumes wf: "sma_wf area" and f: "f \<in> set (free_list area)"
  defines "b \<equiv> f\<lparr>bflags := bflags f OR SMA_FLAGS_USED\<rparr>"
  shows "alloc_step area (area\<lparr>free_list := list_del f (free_list area),
                               used_list := sma_list_add (used_list area) b\<rparr>) f b {}"
proof -
  note d = sma_wf_disjoint[OF wf]
  have nz: "bsize f \<noteq> 0" using wf f by (auto simp: sma_wf_def tiles_def)
  have "bid f < next_bid area" using sma_wf_block(3)[OF wf] f by auto
  moreover have "distinct (map bid (list_del f (free_list area)))"
    using d(2) by (simp add: list_del_def distinct_map_filter)
  ultimately show ?thesis
    using wf f nz d by (auto simp: alloc_step_def carved_def b_def list_del_set mset_bid_sma_list_add
        blk_def fin_def sma_wf_def) (auto simp: list_del_def dest: same_bid[OF d(2)])
qed

lemma bids_new:
  assumes wf: "sma_wf area" and b: "bid b = next_bid area" and fr: "map bid fr = map bid (free_list area)"
  shows "distinct (map bid (sma_list_add (used_list area) b @ fr))"
    "\<forall>x\<in>set (sma_list_add (used_list area) b @ fr). bid x < next_bid area + 1"
proof -
  have s: "bid ` set fr = bid ` set (free_list area)" using fr by (metis list.set_map)
  have n: "\<forall>k\<in>bid ` set (used_list area) \<union> bid ` set (free_list area). k < next_bid area"
    using sma_wf_block(3)[OF wf] by auto
  show "distinct (map bid (sma_list_add (used_list area) b @ fr))"
    using wf b n by (auto simp: sma_wf_def mset_bid_sma_list_add fr s)
  show "\<forall>x\<in>set (sma_list_add (used_list area) b @ fr). bid x < next_bid area + 1"
    using n b unfolding s[symmetric] by (auto intro: less_SucI)
qed

lemma bids_new2:
  assumes wf: "sma_wf area" and b: "bid b = next_bid area" and g: "bid g = next_bid area + 1"
    and fr: "map bid fr = map bid (sma_list_add (free_list area) g)"
  shows "distinct (map bid (sma_list_add (used_list area) b @ fr))"
    "\<forall>x\<in>set (sma_list_add (used_list area) b @ fr). bid x < next_bid area + 2"
proof -
  have "bid ` set fr = bid ` set (sma_list_add (free_list area) g)" using fr by (metis list.set_map)
  then have s: "bid ` set fr = insert (next_bid area + 1) (bid ` set (free_list area))" using g by simp
  have n: "\<forall>k\<in>bid ` set (used_list area) \<union> bid ` set (free_list area). k < next_bid area"
    using sma_wf_block(3)[OF wf] by auto
  show "distinct (map bid (sma_list_add (used_list area) b @ fr))"
    using wf b g by (auto simp: sma_wf_def mset_bid_sma_list_add fr s dest!: n[rule_format, OF UnI1, OF imageI]
        n[rule_format, OF UnI2, OF imageI])
  have "\<forall>k\<in>bid ` set fr. k < next_bid area + 2" using n unfolding s by (auto intro: less_SucI)
  then show "\<forall>x\<in>set (sma_list_add (used_list area) b @ fr). bid x < next_bid area + 2"
    using sma_wf_block(3)[OF wf] b by (auto intro: less_SucI)
qed

lemma carve_front:
  assumes wf: "sma_wf area" and f: "f \<in> set (free_list area)" and sz: "sz \<noteq> 0" "sz < bsize f"
  defines "b \<equiv> \<lparr>bid = next_bid area, bflags = SMA_FLAGS_USED, bstart = bstart f, bsize = sz, dataptr = None\<rparr>"
    and "f' \<equiv> f\<lparr>bsize := bsize f - sz, bstart := bstart f + sz\<rparr>"
  shows "alloc_step area (area\<lparr>next_bid := next_bid area + 1,
                               used_list := sma_list_add (used_list area) b,
                               free_list := list_set f' (free_list area)\<rparr>) f b {f'}"
proof -
  note d = sma_wf_disjoint[OF wf]
  have fin: "fin f \<le> 2 ^ 32" and fb: "bid f < next_bid area" and nb: "\<not> bit (bflags f) 0"
    using sma_wf_block[OF wf] f wf by (auto simp: sma_wf_def)
  have lt: "unat sz < unat (bsize f)" and sz0: "0 < unat sz" using sz by (simp_all add: word_less_nat_alt unat_gt_0)
  have s1: "unat (bstart f + sz) = unat (bstart f) + unat sz"
    using fin lt by (intro unat_add_no_wrap) (simp add: fin_def)
  have s2: "unat (bsize f - sz) = unat (bsize f) - unat sz"
    using sz by (intro unat_sub_no_wrap) simp
  have pieces: "blk b = {unat (bstart f) ..< unat (bstart f) + unat sz}"
    "blk f' = {unat (bstart f) + unat sz ..< fin f}"
    using lt by (auto simp: b_def f'_def blk_def fin_def s1 s2)
  have nz: "bsize f' \<noteq> 0" "bsize b \<noteq> 0" using sz by (auto simp: f'_def b_def)
  have "b \<noteq> f'" using fb by (auto simp: b_def f'_def dest: arg_cong[of _ _ bid])
  moreover have fl: "set (list_set f' (free_list area)) = insert f' (set (free_list area) - {f})"
    using list_set_set[OF d(2) f, of f'] by (simp add: f'_def)
  moreover have "blk b \<union> blk f' = blk f" "blk b \<inter> blk f' = {}"
    unfolding pieces using lt by (auto simp: blk_def fin_def)
  ultimately have "carved area (area\<lparr>next_bid := next_bid area + 1,
      used_list := sma_list_add (used_list area) b, free_list := list_set f' (free_list area)\<rparr>) f b {f'}"
    using f nz nb by (auto simp: carved_def b_def f'_def)
  then show ?thesis
    using bids_new[OF wf, of b, OF _ list_set_bid] by (simp add: alloc_step_def b_def)
qed

lemma carve_middle:
  assumes wf: "sma_wf area" and f: "f \<in> set (free_list area)" and sz: "sz \<noteq> 0"
    and addr: "bstart f < addr" "unat addr + unat sz \<le> fin f" and below: "fin f < 2 ^ 32"
  defines "b \<equiv> \<lparr>bid = next_bid area, bflags = SMA_FLAGS_USED, bstart = addr, bsize = sz, dataptr = None\<rparr>"
    and "f' \<equiv> f\<lparr>bsize := addr - bstart f\<rparr>"
    and "g \<equiv> \<lparr>bid = next_bid area + 1, bflags = 0, bstart = addr + sz,
              bsize = bstart f + bsize f - (addr + sz), dataptr = None\<rparr>"
  shows "bstart f + bsize f = addr + sz \<Longrightarrow>
      alloc_step area (area\<lparr>next_bid := next_bid area + 1,
                            used_list := sma_list_add (used_list area) b,
                            free_list := list_set f' (free_list area)\<rparr>) f b {f'}" (is "?e \<Longrightarrow> ?A")
    and "bstart f + bsize f \<noteq> addr + sz \<Longrightarrow>
      alloc_step area (area\<lparr>used_list := sma_list_add (used_list area) b,
                            next_bid := next_bid area + 2,
                            free_list := list_set f' (sma_list_add (free_list area) g)\<rparr>) f b {f', g}"
      (is "_ \<Longrightarrow> ?B")
proof -
  note d = sma_wf_disjoint[OF wf]
  have fin: "fin f \<le> 2 ^ 32" and fb: "bid f < next_bid area" and nb: "\<not> bit (bflags f) 0"
    using sma_wf_block[OF wf] f wf by (auto simp: sma_wf_def)
  have lt: "unat (bstart f) < unat addr" and sz0: "0 < unat sz"
    using addr(1) sz by (simp_all add: word_less_nat_alt unat_gt_0)
  have s1: "unat (addr + sz) = unat addr + unat sz"
    using below addr(2) by (intro unat_add_no_wrap) simp
  have s2: "unat (addr - bstart f) = unat addr - unat (bstart f)"
    using addr(1) by (intro unat_sub_no_wrap) simp
  have s3: "unat (bstart f + bsize f) = fin f" using below by (rule fin_no_wrap)
  have s4: "unat (bstart f + bsize f - (addr + sz)) = fin f - (unat addr + unat sz)"
    using addr(2) by (subst unat_sub_no_wrap) (simp_all add: word_le_nat_alt s1 s3)
  have e: "?e \<longleftrightarrow> unat addr + unat sz = fin f"
    by (metis s1 s3 unsigned_word_eqI)
  have pieces: "blk b = {unat addr ..< unat addr + unat sz}"
    "blk f' = {unat (bstart f) ..< unat addr}" "blk g = {unat addr + unat sz ..< fin f}"
    using lt addr(2) by (auto simp: b_def f'_def g_def blk_def fin_def s1 s2 s4)
  have nz: "bsize f' \<noteq> 0" "bsize b \<noteq> 0" using sz addr(1) by (auto simp: f'_def b_def)
  have nzg: "bsize g \<noteq> 0" if "\<not> ?e" using that by (simp add: g_def)
  have ne: "b \<noteq> f'" "b \<noteq> g" "f' \<noteq> g" using fb by (auto simp: b_def f'_def g_def dest: arg_cong[of _ _ bid])
  have fl: "set (list_set f' (free_list area)) = insert f' (set (free_list area) - {f})"
    using list_set_set[OF d(2) f, of f'] by (simp add: f'_def)
  have new: "bid x < next_bid area" if "x \<in> set (blocks area)" for x using sma_wf_block(3)[OF wf that] .
  have dg: "distinct (map bid (sma_list_add (free_list area) g))"
    using d(2) new by (fastforce simp: mset_bid_sma_list_add g_def)
  have gl: "set (list_set f' (sma_list_add (free_list area) g)) = insert f' (insert g (set (free_list area)) - {f})"
    using list_set_set[OF dg, of f f'] f by (simp add: f'_def)
  have gf: "g \<notin> set (free_list area)" "g \<noteq> f" using new[of g] new[of f] f by (auto simp: g_def)
  show ?A if ?e
  proof -
    have "blk b \<union> blk f' = blk f" "blk b \<inter> blk f' = {}"
      unfolding pieces using lt addr(2) that e by (auto simp: blk_def fin_def)
    then have "carved area (area\<lparr>next_bid := next_bid area + 1,
        used_list := sma_list_add (used_list area) b, free_list := list_set f' (free_list area)\<rparr>) f b {f'}"
      using f nz nb ne fl by (auto simp: carved_def b_def f'_def)
    then show ?thesis
      using bids_new[OF wf, of b, OF _ list_set_bid] by (simp add: alloc_step_def b_def)
  qed
  show ?B if "\<not> ?e"
  proof -
    have "blk b \<union> (blk f' \<union> blk g) = blk f" "blk b \<inter> blk f' = {}" "blk b \<inter> blk g = {}" "blk f' \<inter> blk g = {}"
      unfolding pieces using lt addr(2) that e by (auto simp: blk_def fin_def)
    then have "carved area (area\<lparr>used_list := sma_list_add (used_list area) b, next_bid := next_bid area + 2,
        free_list := list_set f' (sma_list_add (free_list area) g)\<rparr>) f b {f', g}"
      using f nz nzg[OF that] nb ne gl gf unfolding carved_def
      by (auto simp: b_def f'_def g_def)
    then show ?thesis
      using bids_new2[OF wf, of b g, OF _ _ list_set_bid] by (simp add: alloc_step_def b_def g_def)
  qed
qed

lemma sma_alloc_step:
  assumes wf: "sma_wf area" and reg: "regular area addr sz flags"
    and al: "sma_alloc area addr sz flags = (Some b, area')"
  obtains f R where "alloc_step area area' f b R" "bsize b = sz"
    "addr = 0 \<or> flags AND SMA_ALLOC_FIXED = 0 \<or> bstart b = addr"
proof -
  obtain f where ch: "sma_choose area addr sz flags = Some f"
    using al by (auto simp: sma_alloc_def split: option.splits)
  have f: "f \<in> set (free_list area)" using ch by (rule sma_choose_in)
  have sz: "sz \<noteq> 0" using reg by (simp add: regular_def)
  let ?a = "effective f addr"
  note al' = al[unfolded sma_alloc_def ch option.case Let_def sma_new_def, simplified]
  consider (front) "bstart f = ?a \<or> ?a = 0" "sz \<le> bsize f"
      "addr = 0 \<or> flags AND SMA_ALLOC_FIXED = 0 \<or> bstart f = addr"
    | (middle) "?a = addr" "addr \<noteq> 0" "bstart f < addr" "unat addr + unat sz \<le> fin f"
  proof -
    have "sz \<le> bsize f" if "unat addr + unat sz \<le> fin f" "bstart f = addr"
      using that by (simp add: fin_def word_le_nat_alt)
    then show ?thesis using sma_choose_fits[OF wf reg ch] that
      by (cases "bstart f = addr") (auto simp: less_le simp del: if_split)
  qed
  then show ?thesis
  proof cases
    case front
    show ?thesis
    proof (cases "bsize f = sz")
      case True
      then show ?thesis using al' front carve_exact[OF wf f] that[of f "{}"] by (auto split: if_splits)
    next
      case False
      with front(2) have "sz < bsize f" by simp
      from carve_front[OF wf f sz this] False show ?thesis using al' front by (auto intro!: that split: if_splits)
    qed
  next
    case middle
    have "fin f < 2 ^ 32"
      using reg middle(2) sma_wf_block(4)[OF wf, of f] f by (simp add: regular_def)
    note cm = carve_middle[OF wf f sz middle(3,4) this]
    show ?thesis
    proof (cases "bstart f + bsize f = addr + sz")
      case True
      from cm(1)[OF True] True middle show ?thesis using al' by (auto intro!: that split: if_splits)
    next
      case False
      from cm(2)[OF False] False middle show ?thesis using al' by (auto intro!: that split: if_splits)
    qed
  qed
qed

lemma sma_alloc_Some:
  assumes "sma_wf area" "regular area addr sz flags" "sma_alloc area addr sz flags = (Some b, area')"
  shows "sma_wf area'" "blk b \<subseteq> avail area" "owned area' = owned area \<union> blk b"
    "avail area' = avail area - blk b" "blk b \<inter> owned area = {}" "bsize b = sz" "b \<in> set (used_list area')"
    "addr = 0 \<or> flags AND SMA_ALLOC_FIXED = 0 \<or> bstart b = addr"
proof -
  obtain f R where st: "alloc_step area area' f b R" and b: "bsize b = sz"
    "addr = 0 \<or> flags AND SMA_ALLOC_FIXED = 0 \<or> bstart b = addr"
    using sma_alloc_step[OF assms] by blast
  then have c: "carved area area' f b R" by (simp add: alloc_step_def)
  show "sma_wf area'" by (rule carved_wf[OF assms(1) c]) (use st in \<open>simp_all add: alloc_step_def\<close>)
  show "b \<in> set (used_list area')" using c by (simp add: carved_def)
  show "blk b \<subseteq> avail area" "owned area' = owned area \<union> blk b" "avail area' = avail area - blk b"
    "blk b \<inter> owned area = {}" by (rule carved_sets[OF assms(1) c])+
qed (use sma_alloc_step[OF assms] in blast)+

lemma sma_alloc_None: "sma_alloc area addr sz flags = (None, area') \<longleftrightarrow>
    area' = area \<and> sma_choose area addr sz flags = None"
  by (auto simp: sma_alloc_def sma_new_def Let_def split: option.splits if_splits)

lemma sma_choose_None_any:
  "flags AND SMA_ALLOC_FIXED = 0 \<Longrightarrow>
     sma_choose area 0 sz flags = None \<longleftrightarrow> (\<forall>f\<in>set (free_list area). bsize f < sz)"
  by (auto simp: sma_choose_def find_None_iff not_le)

lemma sorted_list_set:
  assumes "sorted (map bstart bs)" and "distinct (map bid bs)" and "b \<in> set bs" and "bid b' = bid b"
    and "bstart b \<le> bstart b'" and "\<forall>x\<in>set bs. x \<noteq> b \<and> bstart b \<le> bstart x \<longrightarrow> bstart b' \<le> bstart x"
  shows "sorted (map bstart (list_set b' bs))"
  using assms
proof (induction bs)
  case (Cons x xs)
  show ?case
  proof (cases "x = b")
    case True
    then have "bid y \<noteq> bid b'" if "y \<in> set xs" for y using Cons.prems(2,4) that by (metis distinct.simps(2) image_eqI list.set_map list.simps(9))
    then have "list_set b' xs = xs" by (auto simp: list_set_def intro: map_idI)
    then have "list_set b' (x # xs) = b' # xs" using True Cons.prems(4) by (simp add: list_set_def)
    moreover have "bstart b' \<le> bstart y" if "y \<in> set xs" for y
      using Cons.prems(1,2,6) True that by force
    ultimately show ?thesis using Cons.prems(1) by auto
  next
    case False
    then have b: "b \<in> set xs" using Cons.prems(3) by simp
    then have "bid x \<noteq> bid b'" using Cons.prems(2,4) by (metis distinct.simps(2) image_eqI list.set_map list.simps(9))
    then have eq: "list_set b' (x # xs) = x # list_set b' xs" by (simp add: list_set_def)
    have "set (list_set b' xs) = insert b' (set xs - {b})"
      using list_set_set[OF _ b] Cons.prems(2,4) by simp
    moreover have "bstart x \<le> bstart b" using b Cons.prems(1) by simp
    ultimately have "bstart x \<le> bstart y" if "y \<in> set (list_set b' xs)" for y
      using Cons.prems(1,5) that by (auto intro: order.trans)
    then show ?thesis using Cons b unfolding eq by auto
  qed
qed simp

definition sma_sorted :: "sma_area \<Rightarrow> bool" where
  "sma_sorted area \<longleftrightarrow> sorted (map bstart (used_list area)) \<and> sorted (map bstart (free_list area))"

lemma list_del_sorted: "sorted (map bstart bs) \<Longrightarrow> sorted (map bstart (list_del b bs))"
  by (simp add: list_del_def sorted_filter)

lemma sma_alloc_sorted:
  assumes wf: "sma_wf area" and reg: "regular area addr sz flags" and so: "sma_sorted area"
    and al: "sma_alloc area addr sz flags = (Some b, area')"
  shows "sma_sorted area'"
proof -
  obtain f where ch: "sma_choose area addr sz flags = Some f"
    using al by (auto simp: sma_alloc_def split: option.splits)
  have f: "f \<in> set (free_list area)" using ch by (rule sma_choose_in)
  note al' = al[unfolded sma_alloc_def ch option.case Let_def sma_new_def, simplified]
  have grow: "sorted (map bstart (list_set (f\<lparr>bsize := n, bstart := bstart f + sz\<rparr>) (free_list area)))"
    if "sz \<le> bsize f" "bsize f \<noteq> sz" for n
  proof (rule sorted_list_set[OF _ _ f])
    have lt: "unat sz < unat (bsize f)" using that by (metis order.not_eq_order_implies_strict word_less_nat_alt)
    then have s: "unat (bstart f + sz) = unat (bstart f) + unat sz"
      using sma_wf_block(1)[OF wf, of f] f by (intro unat_add_no_wrap) (simp add: fin_def)
    then show "bstart f \<le> bstart (f\<lparr>bsize := n, bstart := bstart f + sz\<rparr>)" by (simp add: word_le_nat_alt)
    have "bstart f + sz \<le> bstart x" if "x \<in> set (free_list area)" "x \<noteq> f" "bstart f \<le> bstart x" for x
    proof -
      have "blk x \<inter> blk f = {}" and "bsize x \<noteq> 0" using wf f that(1,2) by (auto simp: sma_wf_def tiles_def)
      then have "unat (bstart x) \<notin> blk f" using blk_nonempty by blast
      then show ?thesis using that(3) lt by (auto simp: blk_def fin_def word_le_nat_alt s)
    qed
    then show "\<forall>x\<in>set (free_list area). x \<noteq> f \<and> bstart f \<le> bstart x \<longrightarrow>
        bstart (f\<lparr>bsize := n, bstart := bstart f + sz\<rparr>) \<le> bstart x" by simp
  qed (use so sma_wf_disjoint(2)[OF wf] in \<open>auto simp: sma_sorted_def\<close>)
  have same: "map bstart (list_set (f\<lparr>bsize := n\<rparr>) bs) = map bstart bs"
    if "distinct (map bid bs)" "f \<in> set bs" for n bs
    using that same_bid[OF that(1) _ that(2)] by (auto simp: list_set_def)
  have dg: "distinct (map bid (sma_list_add (free_list area)
      \<lparr>bid = Suc (next_bid area), bflags = 0, bstart = p, bsize = q, dataptr = None\<rparr>))" for p q
    using sma_wf_disjoint(2)[OF wf] sma_wf_block(3)[OF wf] by (fastforce simp: mset_bid_sma_list_add)
  have "sz \<le> bsize f" if "bstart f = effective f addr \<or> effective f addr = 0"
    using sma_choose_fits[OF wf reg ch] that by (auto simp: fin_def word_le_nat_alt split: if_splits)
  then show ?thesis
    using al' so grow same[OF sma_wf_disjoint(2)[OF wf] f] same[OF dg] f
    by (auto simp: sma_sorted_def list_del_sorted sma_list_add_sorted split: if_splits)
qed

section \<open>Freeing and looking up\<close>

lemma covers_blk: "fin b \<le> 2 ^ 32 \<Longrightarrow> covers addr b \<Longrightarrow> unat addr \<in> blk b"
proof (cases "fin b = 2 ^ 32")
  case True
  assume "covers addr b"
  moreover have "unat (bstart b + bsize b) = 0" using True by (simp add: fin_def unat_word_ariths)
  ultimately show ?thesis by (simp add: covers_def word_less_nat_alt)
qed (simp add: covers_iff)

lemma find_unique: "x \<in> set xs \<Longrightarrow> P x \<Longrightarrow> (\<And>y. y \<in> set xs \<Longrightarrow> P y \<Longrightarrow> y = x) \<Longrightarrow> find P xs = Some x"
  by (metis find_None_iff find_in not_Some_eq)

lemma find_covers:
  assumes wf: "sma_wf area" and bs: "set bs \<subseteq> set (blocks area)"
    and b: "b \<in> set bs" "fin b < 2 ^ 32" "unat addr \<in> blk b"
  shows "find (covers addr) bs = Some b"
proof (rule find_unique[OF b(1)])
  show "covers addr b" using b(2,3) by (simp add: covers_iff)
  fix y assume y: "y \<in> set bs" "covers addr y"
  then have "unat addr \<in> blk y" using sma_wf_block(1)[OF wf, of y] bs by (intro covers_blk) auto
  moreover have "blk y \<inter> blk b = {}" if "y \<noteq> b"
  proof -
    have "y \<in> set (blocks area)" "b \<in> set (blocks area)" using bs y(1) b(1) by auto
    then show ?thesis using wf that unfolding sma_wf_def tiles_def by metis
  qed
  ultimately show "y = b" using b(3) by blast
qed

lemma find_covers_None:
  assumes wf: "sma_wf area" and bs: "set bs \<subseteq> set (blocks area)" and "unat addr \<notin> (\<Union>b\<in>set bs. blk b)"
  shows "find (covers addr) bs = None"
proof -
  have "\<not> covers addr b" if "b \<in> set bs" for b
    using covers_blk[of b addr] sma_wf_block(1)[OF wf, of b] bs assms(3) that by auto
  then show ?thesis by (simp add: find_None_iff)
qed

definition released :: "sma_block \<Rightarrow> sma_block" where
  "released b = b\<lparr>bflags := bflags b AND NOT SMA_FLAGS_USED\<rparr>"

lemma released_blk [simp]: "blk (released b) = blk b" "bid (released b) = bid b" "bsize (released b) = bsize b"
  "bstart (released b) = bstart b"
  by (simp_all add: released_def blk_def fin_def)

lemma sma_free_block:
  assumes wf: "sma_wf area" and b: "b \<in> set (used_list area)" and e: "fin b < 2 ^ 32"
  shows "sma_free do_free area w (bstart b) (bsize b) =
      Some (area\<lparr>used_list := list_del b (used_list area),
                 free_list := sma_list_add (free_list area) (released b)\<rparr>,
            case do_free of None \<Rightarrow> w | Some f \<Rightarrow> f (released b) w)"
proof -
  have "bsize b \<noteq> 0" using wf b by (auto simp: sma_wf_def tiles_def)
  then have "find (covers (bstart b)) (used_list area) = Some b"
    by (intro find_covers[OF wf _ b e] blk_nonempty) simp_all
  then show ?thesis by (simp add: sma_free_def Let_def released_def split: option.split)
qed

lemma release_wf:
  assumes wf: "sma_wf area" and b: "b \<in> set (used_list area)"
  defines "area' \<equiv> area\<lparr>used_list := list_del b (used_list area),
                         free_list := sma_list_add (free_list area) (released b)\<rparr>"
  shows "sma_wf area'" "owned area' = owned area - blk b" "avail area' = avail area \<union> blk b"
proof -
  note d = sma_wf_disjoint[OF wf]
  have u: "set (used_list area') = set (used_list area) - {b}"
    and f: "set (free_list area') = insert (released b) (set (free_list area))"
    using list_del_set[OF d(1) b] by (simp_all add: area'_def)
  have eq: "set (blocks area') = (set (blocks area) - {b}) \<union> {released b}"
    using u f b d(3)[OF b] by auto
  have t: "tiles (set (blocks area)) (unat (area_start area)) (unat (area_start area) + unat (area_size area))"
    and nz: "bsize b \<noteq> 0" using wf b by (auto simp: sma_wf_def tiles_def)
  have "tiles (set (blocks area')) (unat (area_start area)) (unat (area_start area) + unat (area_size area))"
    unfolding eq by (rule tiles_split[OF t]) (use b nz in auto)
  moreover have "distinct (map bid (blocks area'))"
  proof -
    have "distinct (map bid (list_del b (used_list area)))"
      using d(1) by (simp add: list_del_def distinct_map_filter)
    moreover have "bid b \<notin> bid ` set (list_del b (used_list area))" by (auto simp: list_del_def)
    ultimately show ?thesis
      using d b wf by (auto simp: area'_def mset_bid_sma_list_add list_del_def sma_wf_def)
  qed
  moreover have "\<forall>x\<in>set (blocks area'). bid x < next_bid area'"
    unfolding eq using sma_wf_block(3)[OF wf] b by (auto simp: area'_def)
  ultimately show "sma_wf area'"
    using wf unfolding sma_wf_def u f by (auto simp: area'_def released_def)
  have "blk x \<inter> blk b = {}" if "x \<in> set (used_list area)" "x \<noteq> b" for x
    using t b that by (auto simp: tiles_def)
  then show "owned area' = owned area - blk b" using b by (auto simp: owned_def u)
  show "avail area' = avail area \<union> blk b" by (auto simp: avail_def f)
qed

lemma owned_avail:
  assumes "sma_wf area"
  shows "owned area \<inter> avail area = {}"
    "owned area \<union> avail area = {unat (area_start area) ..< unat (area_start area) + unat (area_size area)}"
proof -
  have "blk b \<inter> blk f = {}" if "b \<in> set (used_list area)" "f \<in> set (free_list area)" for b f
    using assms that sma_wf_disjoint(3)[OF assms that] by (auto simp: sma_wf_def tiles_def)
  then show "owned area \<inter> avail area = {}" by (auto simp: owned_def avail_def)
  show "owned area \<union> avail area = {unat (area_start area) ..< unat (area_start area) + unat (area_size area)}"
    using assms by (auto simp: owned_def avail_def sma_wf_def tiles_def image_Un)
qed

section \<open>The allocator interface\<close>

text \<open>
  What the clients of the allocator (\<^verbatim>\<open>mm/kmem.c\<close>, \<^verbatim>\<open>mm/vm_mmap.c\<close>) rely on: a granted range was
  available, becomes owned and nothing else changes; a refused request changes nothing; releasing a
  granted range gives exactly its addresses back.
\<close>

locale range_allocator =
  fixes inv :: "'s \<Rightarrow> bool" and own :: "'s \<Rightarrow> nat set" and free_addrs :: "'s \<Rightarrow> nat set"
    and ok :: "'s \<Rightarrow> 'r \<Rightarrow> bool" and alloc :: "'s \<Rightarrow> 'r \<Rightarrow> 'b option \<times> 's" and region :: "'b \<Rightarrow> nat set"
  assumes granted: "\<lbrakk>inv s; ok s r; alloc s r = (Some b, s')\<rbrakk> \<Longrightarrow>
      inv s' \<and> region b \<subseteq> free_addrs s \<and> own s' = own s \<union> region b \<and>
      free_addrs s' = free_addrs s - region b"
    and refused: "alloc s r = (None, s') \<Longrightarrow> s' = s"
    and separate: "inv s \<Longrightarrow> own s \<inter> free_addrs s = {}"
begin

text \<open>A sequence of requests, each of them in order and allowed in the state it meets.\<close>

fun alloc_all :: "'s \<Rightarrow> 'r list \<Rightarrow> 'b list \<times> 's" where
  "alloc_all s [] = ([], s)"
| "alloc_all s (r # rs) =
     (case alloc s r of
        (None, s') \<Rightarrow> alloc_all s' rs
      | (Some b, s') \<Rightarrow> (case alloc_all s' rs of (bs, s'') \<Rightarrow> (b # bs, s'')))"

fun all_ok :: "'s \<Rightarrow> 'r list \<Rightarrow> bool" where
  "all_ok s [] = True"
| "all_ok s (r # rs) = (ok s r \<and> all_ok (snd (alloc s r)) rs)"

lemma alloc_all_disjoint:
  assumes "inv s" and "all_ok s rs" and "alloc_all s rs = (bs, s')"
  shows "inv s' \<and> own s' = own s \<union> (\<Union>b\<in>set bs. region b) \<and> (\<Union>b\<in>set bs. region b) \<subseteq> free_addrs s \<and>
         (\<forall>i j. i < j \<and> j < length bs \<longrightarrow> region (bs ! i) \<inter> region (bs ! j) = {})"
  using assms
proof (induction rs arbitrary: s bs s')
  case (Cons r rs)
  show ?case
  proof (cases "alloc s r")
    case (Pair ob s1)
    show ?thesis
    proof (cases ob)
      case None
      then show ?thesis using Cons Pair refused[of s r s1] by auto
    next
      case (Some b)
      then have g: "inv s1" "region b \<subseteq> free_addrs s" "own s1 = own s \<union> region b"
        "free_addrs s1 = free_addrs s - region b"
        using granted[of s r b s1] Cons.prems(1,2) Pair by auto
      obtain cs where cs: "alloc_all s1 rs = (cs, s')" "bs = b # cs"
        using Cons.prems(3) Pair Some by (auto split: prod.splits)
      have IH: "inv s'" "own s' = own s1 \<union> (\<Union>b\<in>set cs. region b)" "(\<Union>b\<in>set cs. region b) \<subseteq> free_addrs s1"
        "\<forall>i j. i < j \<and> j < length cs \<longrightarrow> region (cs ! i) \<inter> region (cs ! j) = {}"
        using Cons.IH[OF g(1) _ cs(1)] Cons.prems(2) Pair by simp_all
      have "region b \<inter> region (cs ! j) = {}" if "j < length cs" for j
        using IH(3) g(4) nth_mem[OF that] by auto
      then have "region (bs ! i) \<inter> region (bs ! j) = {}" if "i < j" "j < length bs" for i j
        using IH(4) that cs(2) by (cases i; cases j) auto
      then show ?thesis using IH(1-3) g cs(2) by auto
    qed
  qed
qed auto

end

interpretation sma: range_allocator sma_wf owned avail
  "\<lambda>area (addr, sz, flags). regular area addr sz flags"
  "\<lambda>area (addr, sz, flags). sma_alloc area addr sz flags" blk
proof (unfold_locales, goal_cases)
  case (1 s r b s')
  then show ?case by (cases r) (auto dest: sma_alloc_Some)
next
  case (2 s r s')
  then show ?case by (cases r) (simp add: sma_alloc_None)
qed (rule owned_avail(1))

section \<open>Kernel virtual memory\<close>

text \<open>\<^verbatim>\<open>mm/kmem.c\<close>: ranges of kernel addresses. A range is returned by its start address; \<open>None\<close> is \<^verbatim>\<open>NULL\<close>,
  and \<open>None\<close> from \<open>kmem_free\<close> is the endless loop of \<^verbatim>\<open>sma_free\<close>.\<close>

definition KMEM_START :: u32 where "KMEM_START = 0xF0000000"
definition KMEM_SIZE :: u32 where "KMEM_SIZE = 0x10000000"

definition kmem_init :: sma_area where
  "kmem_init = sma_area_create KMEM_START KMEM_SIZE"

definition kmem_alloc :: "sma_area \<Rightarrow> u32 \<Rightarrow> u32 option \<times> sma_area" where
  "kmem_alloc kmem_area len =
     (case sma_alloc kmem_area 0 len 0 of
        (None, area) \<Rightarrow> (None, area)
      | (Some block, area) \<Rightarrow> (Some (bstart block), area))"

definition kmem_free :: "sma_area \<Rightarrow> u32 \<Rightarrow> u32 \<Rightarrow> sma_area option" where
  "kmem_free kmem_area ptr len = map_option fst (sma_free None kmem_area () ptr len)"

lemma sma_area_create_wf:
  assumes "start AND 0xFFF = 0" "sz AND 0xFFF = 0" "sz \<noteq> 0" "unat start + unat sz \<le> 2 ^ 32"
  shows "sma_wf (sma_area_create start sz)" "sma_sorted (sma_area_create start sz)"
    "owned (sma_area_create start sz) = {}" "avail (sma_area_create start sz) = {unat start ..< unat start + unat sz}"
proof -
  have "start mod 0x1000 = 0" "sz mod 0x1000 = 0"
    using assms(1,2) take_bit_eq_mask[of 12 start] take_bit_eq_mask[of 12 sz]
    by (simp_all add: take_bit_eq_mod mask_eq_exp_minus_1)
  then have "ROUND_DOWN start 0x1000 = start" "ROUND_UP sz 0x1000 = sz"
    by (simp_all add: ROUND_DOWN_def ROUND_UP_def)
  with assms(3,4) show "sma_wf (sma_area_create start sz)" "sma_sorted (sma_area_create start sz)"
    "owned (sma_area_create start sz) = {}" "avail (sma_area_create start sz) = {unat start ..< unat start + unat sz}"
    by (auto simp: sma_area_create_def sma_wf_def sma_sorted_def owned_def avail_def tiles_def blk_def fin_def Let_def)
qed

lemma kmem_init_wf: "sma_wf kmem_init" "owned kmem_init = {}"
  unfolding kmem_init_def by (rule sma_area_create_wf; simp add: KMEM_START_def KMEM_SIZE_def)+

text \<open>A sequence of requests: the ranges returned, in order, as start and length.\<close>

fun kmem_allocs :: "sma_area \<Rightarrow> u32 list \<Rightarrow> (u32 \<times> u32) list \<times> sma_area" where
  "kmem_allocs area [] = ([], area)"
| "kmem_allocs area (len # lens) =
     (case kmem_alloc area len of
        (None, area) \<Rightarrow> kmem_allocs area lens
      | (Some p, area) \<Rightarrow> (case kmem_allocs area lens of (ps, area) \<Rightarrow> ((p, len) # ps, area)))"

definition span :: "u32 \<times> u32 \<Rightarrow> nat set" where
  "span p = {unat (fst p) ..< unat (fst p) + unat (snd p)}"

lemma blk_span: "blk b = span (bstart b, bsize b)"
  by (simp add: blk_def fin_def span_def)

lemma regular_any [simp]: "regular area 0 sz flags \<longleftrightarrow> sz \<noteq> 0"
  by (simp add: regular_def)

lemma kmem_all_ok: "\<forall>sz\<in>set szs. sz \<noteq> 0 \<Longrightarrow> sma.all_ok area (map (\<lambda>sz. (0, sz, 0)) szs)"
  by (induction szs arbitrary: area) simp_all

lemma kmem_allocs_sma:
  assumes "sma_wf area" and "\<forall>sz\<in>set szs. sz \<noteq> 0" and "kmem_allocs area szs = (ps, area')"
  shows "\<exists>bs. sma.alloc_all area (map (\<lambda>sz. (0, sz, 0)) szs) = (bs, area') \<and>
     ps = map (\<lambda>b. (bstart b, bsize b)) bs \<and> set (map bsize bs) \<subseteq> set szs"
  using assms
proof (induction szs arbitrary: area ps)
  case (Cons sz szs)
  obtain ob a1 where al: "sma_alloc area 0 sz 0 = (ob, a1)" by (metis surj_pair)
  show ?case
  proof (cases ob)
    case None
    then have "a1 = area" using al by (simp add: sma_alloc_None)
    then show ?thesis
      using Cons.IH[OF Cons.prems(1)] Cons.prems(2,3) al None by (fastforce simp: kmem_alloc_def)
  next
    case (Some b)
    have b: "sma_wf a1" "bsize b = sz"
      using sma_alloc_Some(1,6)[OF Cons.prems(1), of 0 sz 0 b a1] Cons.prems(2) al Some by auto
    obtain qs where "kmem_allocs a1 szs = (qs, area')" "ps = (bstart b, sz) # qs"
      using Cons.prems(3) al Some by (auto simp: kmem_alloc_def split: prod.splits)
    then show ?thesis using Cons.IH[OF b(1)] Cons.prems(2) al Some b(2) by fastforce
  qed
qed auto

section \<open>Properties\<close>

text \<open>C4. \<^verbatim>\<open>sma_alloc\<close> on a well-formed area and a regular request: a granted block has the requested size
  (and, with \<^verbatim>\<open>SMA_ALLOC_FIXED\<close>, the requested address), lies inside addresses that were free, and is the
  only change: owned and free addresses move by exactly that block, the blocks still tile the area and
  both lists stay sorted by address. A refused request leaves the area as it was, and a request without
  an address is refused only when every free block is too small.\<close>

theorem sma_alloc_correct:
  assumes "sma_wf area" and "sma_sorted area" and "regular area addr sz flags"
  shows "case sma_alloc area addr sz flags of
      (Some b, area') \<Rightarrow>
        sma_wf area' \<and> sma_sorted area' \<and> b \<in> set (used_list area') \<and> bsize b = sz \<and>
        (addr = 0 \<or> flags AND SMA_ALLOC_FIXED = 0 \<or> bstart b = addr) \<and>
        blk b \<subseteq> avail area \<and> owned area' = owned area \<union> blk b \<and> avail area' = avail area - blk b
    | (None, area') \<Rightarrow>
        area' = area \<and>
        (addr = 0 \<and> flags AND SMA_ALLOC_FIXED = 0 \<longrightarrow> (\<forall>f\<in>set (free_list area). bsize f < sz))"
proof (cases "sma_alloc area addr sz flags")
  case (Pair r area')
  show ?thesis
  proof (cases r)
    case None
    then have al: "sma_alloc area addr sz flags = (None, area')" using Pair by simp
    then have "sma_choose area addr sz flags = None" "area' = area" by (simp_all add: sma_alloc_None)
    then show ?thesis using al sma_choose_None_any[of flags area sz] by auto
  next
    case (Some b)
    then have al: "sma_alloc area addr sz flags = (Some b, area')" using Pair by simp
    show ?thesis
      using sma_alloc_Some[OF assms(1,3) al] sma_alloc_sorted[OF assms(1,3,2) al] Pair Some by simp
  qed
qed

theorem sma_alloc_correct_witness:
  "case sma_alloc (sma_area_create 0x400000 0x100000) 0x410000 0x2000 SMA_ALLOC_FIXED of
      (Some b, area') \<Rightarrow> sma_wf area' \<and> bstart b = 0x410000 \<and> length (free_list area') = 2
    | (None, area') \<Rightarrow> False"
proof -
  let ?a = "sma_area_create 0x400000 0x100000"
  have wf: "sma_wf ?a" "sma_sorted ?a" by (rule sma_area_create_wf; simp)+
  have reg: "regular ?a 0x410000 0x2000 SMA_ALLOC_FIXED"
    by (simp add: regular_def SMA_ALLOC_FIXED_def sma_area_create_def ROUND_DOWN_def ROUND_UP_def)
  have "case sma_alloc ?a 0x410000 0x2000 SMA_ALLOC_FIXED of
      (Some b, area') \<Rightarrow> bstart b = 0x410000 \<and> length (free_list area') = 2 | (None, area') \<Rightarrow> False"
    by code_simp
  then show ?thesis using sma_alloc_correct[OF wf reg] by (auto split: prod.splits option.splits)
qed

text \<open>C18. \<^verbatim>\<open>sma_free\<close> on a well-formed area that ends below the end of the address space, in every case: a
  range that is exactly a used block is given back and the destructor callback runs once, on that block;
  an address that no used block contains makes the call hang; any other range changes nothing.\<close>

theorem sma_free_correct:
  assumes "sma_wf area" and "unat (area_start area) + unat (area_size area) < 2 ^ 32"
  shows "(\<forall>b\<in>set (used_list area). \<exists>area'.
            sma_free do_free area w (bstart b) (bsize b) =
              Some (area', case do_free of None \<Rightarrow> w | Some f \<Rightarrow> f (released b) w) \<and>
            sma_wf area' \<and> owned area' = owned area - blk b \<and> avail area' = avail area \<union> blk b) \<and>
         (sma_free do_free area w start sz = None \<longleftrightarrow> unat start \<notin> owned area) \<and>
         (unat start \<in> owned area \<and> (\<forall>b\<in>set (used_list area). (bstart b, bsize b) \<noteq> (start, sz)) \<longrightarrow>
            sma_free do_free area w start sz = Some (area, w))"
proof -
  have e: "fin b < 2 ^ 32" if "b \<in> set (used_list area)" for b
    using sma_wf_block(4)[OF assms(1), of b] that assms(2) by simp
  have hit: "find (covers start) (used_list area) = Some b" if "b \<in> set (used_list area)" "unat start \<in> blk b" for b
    using find_covers[OF assms(1) _ that(1) e[OF that(1)] that(2)] by simp
  have miss: "find (covers start) (used_list area) = None" if "unat start \<notin> owned area"
    using find_covers_None[OF assms(1), of "used_list area" start] that by (simp add: owned_def)
  show ?thesis
  proof (intro conjI ballI impI)
    fix b assume b: "b \<in> set (used_list area)"
    show "\<exists>area'. sma_free do_free area w (bstart b) (bsize b) =
              Some (area', case do_free of None \<Rightarrow> w | Some f \<Rightarrow> f (released b) w) \<and>
            sma_wf area' \<and> owned area' = owned area - blk b \<and> avail area' = avail area \<union> blk b"
      using sma_free_block[OF assms(1) b e[OF b], of do_free w] release_wf[OF assms(1) b] by blast
  next
    show "sma_free do_free area w start sz = None \<longleftrightarrow> unat start \<notin> owned area"
    proof (cases "unat start \<in> owned area")
      case True
      then obtain b where "b \<in> set (used_list area)" "unat start \<in> blk b" by (auto simp: owned_def)
      from hit[OF this] True show ?thesis by (simp add: sma_free_def Let_def)
    qed (use miss in \<open>simp add: sma_free_def\<close>)
  next
    assume "unat start \<in> owned area \<and> (\<forall>b\<in>set (used_list area). (bstart b, bsize b) \<noteq> (start, sz))"
    then obtain b where b: "b \<in> set (used_list area)" "unat start \<in> blk b" "(bstart b, bsize b) \<noteq> (start, sz)"
      by (auto simp: owned_def)
    then show "sma_free do_free area w start sz = Some (area, w)"
      using hit[OF b(1,2)] by (auto simp: sma_free_def)
  qed
qed

theorem sma_free_correct_witness:
  "sma_free (Some (\<lambda>b n. n + unat (bsize b))) (sma_area_create 0x400000 0x100000) 0 0x400000 0x1000 = None"
proof -
  let ?a = "sma_area_create 0x400000 0x100000"
  have "sma_wf ?a" "owned ?a = {}" by (rule sma_area_create_wf; simp)+
  moreover have "unat (area_start ?a) + unat (area_size ?a) < 2 ^ 32"
    by (simp add: sma_area_create_def ROUND_DOWN_def ROUND_UP_def)
  ultimately show ?thesis
    using sma_free_correct[of ?a "Some (\<lambda>b n. n + unat (bsize b))" 0 "0x400000" "0x1000"] by simp
qed

text \<open>Round trip: freeing a block that was just allocated succeeds, restores the sets of owned and
  free addresses and keeps the area well-formed, for every block that ends below the end of the address
  space.\<close>

theorem sma_alloc_free_roundtrip:
  assumes "sma_wf area" and "regular area addr sz flags"
    and "sma_alloc area addr sz flags = (Some b, area')" and "fin b < 2 ^ 32"
  shows "\<exists>area''. sma_free do_free area' w (bstart b) sz =
            Some (area'', case do_free of None \<Rightarrow> w | Some f \<Rightarrow> f (released b) w) \<and>
          sma_wf area'' \<and> owned area'' = owned area \<and> avail area'' = avail area"
proof -
  note a = sma_alloc_Some[OF assms(1-3)]
  note f = sma_free_block[OF a(1,7) assms(4), of do_free w] and r = release_wf[OF a(1,7)]
  show ?thesis using f r a(2-6) by auto
qed

theorem sma_alloc_free_roundtrip_witness:
  "\<exists>area' area'' b. sma_alloc (sma_area_create 0x400000 0x100000) 0 0x3000 0 = (Some b, area') \<and>
     sma_free None area' () (bstart b) 0x3000 = Some (area'', ()) \<and> owned area'' = {}"
proof -
  let ?a = "sma_area_create 0x400000 0x100000"
  have wf: "sma_wf ?a" "owned ?a = {}" by (rule sma_area_create_wf; simp)+
  have reg: "regular ?a 0 0x3000 0" by (simp add: regular_def)
  have "case sma_alloc ?a 0 0x3000 0 of
      (Some b, area') \<Rightarrow> bstart b = 0x400000 \<and> bsize b = 0x3000 | (None, area') \<Rightarrow> False" by code_simp
  then obtain b area' where al: "sma_alloc ?a 0 0x3000 0 = (Some b, area')" and e: "fin b < 2 ^ 32"
    by (auto simp: fin_def split: prod.splits option.splits)
  show ?thesis using sma_alloc_free_roundtrip[OF wf(1) reg al e, of None "()"] al wf(2) by auto
qed

text \<open>\<^verbatim>\<open>sma_getblock\<close> on a well-formed area that ends below the end of the address space finds, for
  every address of the area, the one block that contains it, and this block is marked used exactly when
  the address is owned; outside the area it finds nothing.\<close>

theorem sma_getblock_correct:
  assumes "sma_wf area" and "unat (area_start area) + unat (area_size area) < 2 ^ 32"
  shows "case sma_getblock area addr of
      Some b \<Rightarrow> b \<in> set (blocks area) \<and> unat addr \<in> blk b \<and> (bit (bflags b) 0 \<longleftrightarrow> unat addr \<in> owned area)
    | None \<Rightarrow> unat addr \<notin> {unat (area_start area) ..< unat (area_start area) + unat (area_size area)}"
proof -
  have e: "fin b < 2 ^ 32" if "b \<in> set (blocks area)" for b
    using sma_wf_block(4)[OF assms(1) that] assms(2) by simp
  consider (used) b where "b \<in> set (used_list area)" "unat addr \<in> blk b"
    | (free) b where "b \<in> set (free_list area)" "unat addr \<in> blk b" "unat addr \<notin> owned area"
    | (out) "unat addr \<notin> owned area" "unat addr \<notin> avail area"
    by (auto simp: owned_def avail_def)
  then show ?thesis
  proof cases
    case used
    then have "find (covers addr) (used_list area) = Some b" by (intro find_covers[OF assms(1)] e) auto
    then show ?thesis using used assms(1) by (auto simp: sma_getblock_def owned_def sma_wf_def)
  next
    case free
    then have "find (covers addr) (used_list area) = None" "find (covers addr) (free_list area) = Some b"
      by (intro find_covers_None[OF assms(1)] find_covers[OF assms(1)] e; auto simp: owned_def)+
    then show ?thesis using free assms(1) by (auto simp: sma_getblock_def sma_wf_def)
  next
    case out
    then have "find (covers addr) (used_list area) = None" "find (covers addr) (free_list area) = None"
      by (intro find_covers_None[OF assms(1)]; auto simp: owned_def avail_def)+
    then show ?thesis using out owned_avail(2)[OF assms(1)] by (auto simp: sma_getblock_def)
  qed
qed

theorem sma_getblock_correct_witness:
  "case sma_getblock (sma_area_create 0x400000 0x100000) 0x400010 of
     Some b \<Rightarrow> unat (0x400010 :: u32) \<in> blk b | None \<Rightarrow> False"
proof -
  let ?a = "sma_area_create 0x400000 0x100000"
  have wf: "sma_wf ?a" by (rule sma_area_create_wf; simp)
  have "unat (area_start ?a) + unat (area_size ?a) < 2 ^ 32"
    by (simp add: sma_area_create_def ROUND_DOWN_def ROUND_UP_def)
  note g = sma_getblock_correct[OF wf this, of "0x400010"]
  have "sma_getblock ?a 0x400010 \<noteq> None" by code_simp
  then show ?thesis using g by (auto split: option.splits)
qed

text \<open>A hint that is not \<^verbatim>\<open>SMA_ALLOC_FIXED\<close> can be granted on memory in use: when the free block at
  the hint is too short behind the hint but large enough in total, first fit picks the same block again
  and the new block runs past its end into the next used block.\<close>

theorem sma_alloc_hint_overlap:
  "\<exists>area b area' c. sma_wf area \<and> sma_alloc area 0x403000 0x2000 0 = (Some b, area') \<and>
     c \<in> set (used_list area) \<and> blk b \<inter> blk c \<noteq> {}"
proof -
  let ?s = "sma_area_create 0x400000 0x10000"
  have wf0: "sma_wf ?s" by (rule sma_area_create_wf; simp)
  have reg: "regular ?s 0x404000 0x1000 SMA_ALLOC_FIXED"
    by (simp add: regular_def SMA_ALLOC_FIXED_def sma_area_create_def ROUND_DOWN_def ROUND_UP_def)
  have "case sma_alloc ?s 0x404000 0x1000 SMA_ALLOC_FIXED of
      (Some c, area) \<Rightarrow> bstart c = 0x404000 \<and> bsize c = 0x1000 \<and>
        (case sma_alloc area 0x403000 0x2000 0 of
           (Some b, area') \<Rightarrow> bstart b = 0x403000 \<and> bsize b = 0x2000 | (None, area') \<Rightarrow> False)
    | (None, area) \<Rightarrow> False" by code_simp
  then obtain c area b area' where
    al: "sma_alloc ?s 0x404000 0x1000 SMA_ALLOC_FIXED = (Some c, area)"
      "sma_alloc area 0x403000 0x2000 0 = (Some b, area')"
    and b: "bstart c = 0x404000" "bsize c = 0x1000" "bstart b = 0x403000" "bsize b = 0x2000"
    by (auto split: prod.splits option.splits)
  have "unat (0x404000 :: u32) \<in> blk b \<inter> blk c" by (simp add: blk_def fin_def b)
  with sma_alloc_Some(1,7)[OF wf0 reg al(1)] al(2) show ?thesis by blast
qed

text \<open>Any sequence of \<^verbatim>\<open>kmem_alloc\<close> calls with sizes not zero returns pairwise disjoint ranges of
  the requested lengths. The last page of the kernel area is the exception to freeing: its end address
  wraps to zero, so a range that reaches it is never found again and \<^verbatim>\<open>kmem_free\<close> of it hangs.\<close>

theorem kmem_ranges:
  "(\<forall>szs ps area. (\<forall>sz\<in>set szs. sz \<noteq> 0) \<and> kmem_allocs kmem_init szs = (ps, area) \<longrightarrow>
      sma_wf area \<and> owned area = (\<Union>p\<in>set ps. span p) \<and> set (map snd ps) \<subseteq> set szs \<and>
      (\<forall>i j. i < j \<and> j < length ps \<longrightarrow> span (ps ! i) \<inter> span (ps ! j) = {})) \<and>
   (case kmem_alloc kmem_init KMEM_SIZE of
      (Some p, area) \<Rightarrow> p = KMEM_START \<and> kmem_free area p KMEM_SIZE = None | (None, area) \<Rightarrow> False)"
proof (rule conjI)
  show "\<forall>szs ps area. (\<forall>sz\<in>set szs. sz \<noteq> 0) \<and> kmem_allocs kmem_init szs = (ps, area) \<longrightarrow>
      sma_wf area \<and> owned area = (\<Union>p\<in>set ps. span p) \<and> set (map snd ps) \<subseteq> set szs \<and>
      (\<forall>i j. i < j \<and> j < length ps \<longrightarrow> span (ps ! i) \<inter> span (ps ! j) = {})"
  proof (intro allI impI, elim conjE)
    fix szs ps area
    assume nz: "\<forall>sz\<in>set szs. sz \<noteq> 0" and k: "kmem_allocs kmem_init szs = (ps, area)"
    obtain bs where al: "sma.alloc_all kmem_init (map (\<lambda>sz. (0, sz, 0)) szs) = (bs, area)"
      and ps: "ps = map (\<lambda>b. (bstart b, bsize b)) bs" and sub: "set (map bsize bs) \<subseteq> set szs"
      using kmem_allocs_sma[OF kmem_init_wf(1) nz k] by blast
    have "sma.all_ok kmem_init (map (\<lambda>sz. (0, sz, 0)) szs)" using nz by (rule kmem_all_ok)
    from sma.alloc_all_disjoint[OF kmem_init_wf(1) this al] kmem_init_wf(2) sub
    show "sma_wf area \<and> owned area = (\<Union>p\<in>set ps. span p) \<and> set (map snd ps) \<subseteq> set szs \<and>
      (\<forall>i j. i < j \<and> j < length ps \<longrightarrow> span (ps ! i) \<inter> span (ps ! j) = {})"
      by (auto simp: ps blk_span)
  qed
  show "case kmem_alloc kmem_init KMEM_SIZE of
      (Some p, area) \<Rightarrow> p = KMEM_START \<and> kmem_free area p KMEM_SIZE = None | (None, area) \<Rightarrow> False"
    by code_simp
qed

theorem kmem_ranges_witness:
  "\<exists>ps area. kmem_allocs kmem_init [0x1000, 0x3000] = (ps, area) \<and> length ps = 2 \<and>
     span (ps ! 0) \<inter> span (ps ! 1) = {}"
proof -
  obtain ps area where al: "kmem_allocs kmem_init [0x1000, 0x3000] = (ps, area)" by (metis surj_pair)
  have "length (fst (kmem_allocs kmem_init [0x1000, 0x3000])) = 2" by code_simp
  then show ?thesis
    using kmem_ranges[THEN conjunct1, rule_format, of "[0x1000, 0x3000]" ps area] al by simp
qed

end
