(* ===== verification/Strings.thy ===== *)
theory Strings
  imports Prelude "HOL-Library.Monad_Syntax"
begin

text \<open>
  \<^verbatim>\<open>lib/string.c\<close> on a flat byte memory: an address is a 32-bit word, the memory a function from
  addresses to bytes. The word-at-a-time copies read and write four bytes, lowest address first, as on
  i686. Loops over a count recurse on it; loops that run to a terminating zero byte are
  \<open>partial_function\<close>s whose value \<open>None\<close> is a loop that never meets one.
\<close>

type_synonym mem = "u32 \<Rightarrow> u8"

section \<open>Copying and filling\<close>

definition UNALIGNED :: "u32 \<Rightarrow> bool" where
  "UNALIGNED x \<longleftrightarrow> x AND 3 \<noteq> 0"

definition load_word :: "mem \<Rightarrow> u32 \<Rightarrow> u8 \<times> u8 \<times> u8 \<times> u8" where
  "load_word m a = (m a, m (a + 1), m (a + 2), m (a + 3))"

definition store_word :: "mem \<Rightarrow> u32 \<Rightarrow> u8 \<times> u8 \<times> u8 \<times> u8 \<Rightarrow> mem" where
  "store_word m a w = (case w of (b0, b1, b2, b3) \<Rightarrow> m(a := b0, a + 1 := b1, a + 2 := b2, a + 3 := b3))"

text \<open>The loop that brings the source to a word boundary; the flag tells that the count ran out in it.\<close>

fun copy_head :: "mem \<Rightarrow> u32 \<Rightarrow> u32 \<Rightarrow> nat \<Rightarrow> mem \<times> u32 \<times> u32 \<times> nat \<times> bool" where
  "copy_head m dbuf sbuf len =
     (if UNALIGNED sbuf then
        (case len of
           0 \<Rightarrow> (m, dbuf, sbuf, 0, True)
         | Suc n \<Rightarrow> copy_head (m(dbuf := m sbuf)) (dbuf + 1) (sbuf + 1) n)
      else (m, dbuf, sbuf, len, False))"

fun copy_words :: "mem \<Rightarrow> u32 \<Rightarrow> u32 \<Rightarrow> nat \<Rightarrow> mem \<times> u32 \<times> u32 \<times> nat" where
  "copy_words m dbuf sbuf len =
     (if len \<ge> 4 then copy_words (store_word m dbuf (load_word m sbuf)) (dbuf + 4) (sbuf + 4) (len - 4)
      else (m, dbuf, sbuf, len))"

fun copy_bytes :: "mem \<Rightarrow> u32 \<Rightarrow> u32 \<Rightarrow> nat \<Rightarrow> mem" where
  "copy_bytes m dbuf sbuf 0 = m"
| "copy_bytes m dbuf sbuf (Suc n) = copy_bytes (m(dbuf := m sbuf)) (dbuf + 1) (sbuf + 1) n"

definition memcpy :: "mem \<Rightarrow> u32 \<Rightarrow> u32 \<Rightarrow> nat \<Rightarrow> mem" where
  "memcpy m dst src len =
     (case copy_head m dst src len of
        (m, dbuf, sbuf, len, ended) \<Rightarrow>
          if ended then m
          else if len \<ge> 4 \<and> \<not> UNALIGNED dbuf then
            (case copy_words m dbuf sbuf len of (m, dbuf, sbuf, len) \<Rightarrow> copy_bytes m dbuf sbuf len)
          else copy_bytes m dbuf sbuf len)"

fun fill_head :: "mem \<Rightarrow> u32 \<Rightarrow> u8 \<Rightarrow> nat \<Rightarrow> mem \<times> u32 \<times> nat \<times> bool" where
  "fill_head m buf c len =
     (if UNALIGNED buf then
        (case len of 0 \<Rightarrow> (m, buf, 0, True) | Suc n \<Rightarrow> fill_head (m(buf := c)) (buf + 1) c n)
      else (m, buf, len, False))"

text \<open>The word pattern: \<^verbatim>\<open>tmp = (tmp << 8) | c\<close>, three times.\<close>

definition fill_pattern :: "u8 \<Rightarrow> u32" where
  "fill_pattern c = ((\<lambda>tmp. push_bit 8 tmp OR ucast c) ^^ 3) (ucast c)"

definition word_bytes :: "u32 \<Rightarrow> u8 \<times> u8 \<times> u8 \<times> u8" where
  "word_bytes w = (ucast w, ucast (drop_bit 8 w), ucast (drop_bit 16 w), ucast (drop_bit 24 w))"

fun fill_words :: "mem \<Rightarrow> u32 \<Rightarrow> u32 \<Rightarrow> nat \<Rightarrow> mem \<times> u32 \<times> nat" where
  "fill_words m buf tmp len =
     (if len \<ge> 4 then fill_words (store_word m buf (word_bytes tmp)) (buf + 4) tmp (len - 4)
      else (m, buf, len))"

fun fill_bytes :: "mem \<Rightarrow> u32 \<Rightarrow> u8 \<Rightarrow> nat \<Rightarrow> mem" where
  "fill_bytes m buf c 0 = m"
| "fill_bytes m buf c (Suc n) = fill_bytes (m(buf := c)) (buf + 1) c n"

definition memset :: "mem \<Rightarrow> u32 \<Rightarrow> u32 \<Rightarrow> nat \<Rightarrow> mem" where
  "memset m dst c len =
     (case fill_head m dst (ucast c) len of
        (m, buf, len, ended) \<Rightarrow>
          if ended then m
          else if len \<ge> 16 then
            (case fill_words m buf (fill_pattern (ucast c)) len of
               (m, buf, len) \<Rightarrow> fill_bytes m buf (ucast c) len)
          else fill_bytes m buf (ucast c) len)"

text \<open>\<^verbatim>\<open>memsetw\<close>: sixteen-bit cells, low byte first. A negative count would run on; callers pass none.\<close>

fun memsetw :: "mem \<Rightarrow> u32 \<Rightarrow> u16 \<Rightarrow> nat \<Rightarrow> mem" where
  "memsetw m buf c 0 = m"
| "memsetw m buf c (Suc n) = memsetw (m(buf := ucast c, buf + 1 := ucast (drop_bit 8 c))) (buf + 2) c n"

section \<open>Comparing\<close>

text \<open>\<^verbatim>\<open>char\<close> is signed on this target.\<close>

definition char_diff :: "u8 \<Rightarrow> u8 \<Rightarrow> int" where
  "char_diff a b = sint a - sint b"

fun memcmp :: "mem \<Rightarrow> u32 \<Rightarrow> u32 \<Rightarrow> nat \<Rightarrow> int" where
  "memcmp m c1 c2 0 = 0"
| "memcmp m c1 c2 (Suc n) = (if m c1 = m c2 then memcmp m (c1 + 1) (c2 + 1) n else char_diff (m c1) (m c2))"

partial_function (option) strcmp :: "mem \<Rightarrow> u32 \<Rightarrow> u32 \<Rightarrow> int option" where
  "strcmp m s1 s2 =
     (if m s1 \<noteq> 0 \<and> m s1 = m s2 then strcmp m (s1 + 1) (s2 + 1) else Some (char_diff (m s1) (m s2)))"

text \<open>The count of \<^verbatim>\<open>strncmp\<close> is decremented as a machine word, so a count of zero wraps. The test for
  the end of the string comes after the pointers have moved.\<close>

partial_function (option) strncmp :: "mem \<Rightarrow> u32 \<Rightarrow> u32 \<Rightarrow> u32 \<Rightarrow> int option" where
  "strncmp m s1 s2 n =
     (if m s1 = m s2 then
        (if n - 1 \<noteq> 0 \<and> m (s1 + 1) \<noteq> 0 then strncmp m (s1 + 1) (s2 + 1) (n - 1) else Some 0)
      else Some (char_diff (m s1) (m s2)))"

section \<open>Strings\<close>

partial_function (option) strlen_loop :: "mem \<Rightarrow> u32 \<Rightarrow> nat \<Rightarrow> nat option" where
  "strlen_loop m buf len = (if m buf \<noteq> 0 then strlen_loop m (buf + 1) (len + 1) else Some len)"

definition strlen :: "mem \<Rightarrow> u32 \<Rightarrow> nat option" where
  "strlen m s = strlen_loop m s 0"

partial_function (option) strcpy :: "mem \<Rightarrow> u32 \<Rightarrow> u32 \<Rightarrow> mem option" where
  "strcpy m tmp src =
     (if m src \<noteq> 0 then strcpy (m(tmp := m src)) (tmp + 1) (src + 1) else Some (m(tmp := 0)))"

fun strncpy :: "mem \<Rightarrow> u32 \<Rightarrow> u32 \<Rightarrow> nat \<Rightarrow> mem" where
  "strncpy m dst src 0 = m(dst := 0)"
| "strncpy m dst src (Suc n) =
     (if m src \<noteq> 0 then strncpy (m(dst := m src)) (dst + 1) (src + 1) n else m(dst := 0))"

text \<open>\<^verbatim>\<open>kalloc\<close> is the heap allocator: a parameter that returns an address for a size.\<close>

definition strdup :: "(nat \<Rightarrow> u32) \<Rightarrow> mem \<Rightarrow> u32 \<Rightarrow> (mem \<times> u32) option" where
  "strdup kalloc m s =
     do { n \<leftarrow> strlen m s; let buf = kalloc (n + 1); m' \<leftarrow> strcpy m buf s; Some (m', buf) }"

section \<open>Splitting\<close>

text \<open>
  \<^verbatim>\<open>str_explode\<close> on the characters of a string that ends at the first \<^verbatim>\<open>NUL\<close>: \<open>at0 str i\<close> is \<^verbatim>\<open>str[i]\<close>
  for \<open>i \<le> strlen str\<close>. The loop variable is advanced over separators inside the body and once more by
  the \<^verbatim>\<open>for\<close>. Each piece is the characters from \<^verbatim>\<open>old\<close> to \<^verbatim>\<open>i\<close>, copied into a fresh block.
\<close>

definition NUL :: char where "NUL = CHR 0x00"

definition at0 :: "string \<Rightarrow> nat \<Rightarrow> char" where
  "at0 str i = (if i < length str then str ! i else NUL)"

function skip_sep :: "string \<Rightarrow> char \<Rightarrow> nat \<Rightarrow> nat" where
  "skip_sep str c i = (if i < length str \<and> at0 str i = c then skip_sep str c (Suc i) else i)"
  by pat_completeness auto
termination
  by (relation "measure (\<lambda>(str, c, i). length str - i)") auto

lemma skip_sep_ge: "i \<le> skip_sep str c i"
proof (induction str c i rule: skip_sep.induct)
  case (1 str c i)
  then show ?case by (subst skip_sep.simps) (auto simp del: skip_sep.simps)
qed

function explode_loop :: "string \<Rightarrow> char \<Rightarrow> nat \<Rightarrow> nat \<Rightarrow> string list" where
  "explode_loop str c i old =
     (if i < length str + 1 then
        if at0 str i = c \<or> at0 str i = NUL then
          take (i - old) (drop old str) #
            explode_loop str c (skip_sep str c i + 1) (skip_sep str c i)
        else explode_loop str c (i + 1) old
      else [])"
  by pat_completeness auto
termination
  by (relation "measure (\<lambda>(str, c, i, old). length str + 1 - i)")
    (auto simp: le_imp_less_Suc diff_le_mono2[OF skip_sep_ge] Suc_diff_le simp del: skip_sep.simps)

definition str_explode :: "string \<Rightarrow> char \<Rightarrow> string list" where
  "str_explode str c =
     (let i = skip_sep str c 0 in if at0 str i = NUL then [] else explode_loop str c i i)"

declare copy_head.simps [simp del] and copy_words.simps [simp del] and fill_head.simps [simp del]
  and fill_words.simps [simp del] and skip_sep.simps [simp del] and explode_loop.simps [simp del]

section \<open>The copies against their specification\<close>

text \<open>Address \<open>a\<close> lies in the \<open>n\<close> bytes from \<open>d\<close> when its distance from \<open>d\<close>, as a word, is below \<open>n\<close>.\<close>

definition within :: "u32 \<Rightarrow> u32 \<Rightarrow> nat \<Rightarrow> bool" where
  "within a d n \<longleftrightarrow> unat (a - d) < n"

definition copied :: "mem \<Rightarrow> u32 \<Rightarrow> u32 \<Rightarrow> nat \<Rightarrow> mem" where
  "copied m d s n = (\<lambda>a. if within a d n then m (s + (a - d)) else m a)"

definition filled :: "mem \<Rightarrow> u32 \<Rightarrow> u8 \<Rightarrow> nat \<Rightarrow> mem" where
  "filled m d c n = (\<lambda>a. if within a d n then c else m a)"

definition apart :: "u32 \<Rightarrow> u32 \<Rightarrow> nat \<Rightarrow> bool" where
  "apart d s n \<longleftrightarrow> (\<forall>a. \<not> (within a d n \<and> within a s n))"

lemma unat_pred: "a \<noteq> d \<Longrightarrow> unat (a - (d + 1)) = unat (a - d) - 1" for a d :: u32
proof -
  assume "a \<noteq> d"
  then have "1 \<le> a - d" by (simp add: word_le_nat_alt unat_gt_0 Suc_leI)
  then have "unat (a - d - 1) = unat (a - d) - unat (1 :: u32)" by (rule unat_sub)
  then show ?thesis by (simp add: algebra_simps)
qed

lemma within_first: "n < 2 ^ 32 \<Longrightarrow> \<not> within d (d + 1) n"
  by (simp add: within_def unsigned_minus_1_eq_mask mask_eq_exp_minus_1)

lemma within_Suc: "within a d (Suc n) \<longleftrightarrow> a = d \<or> (a \<noteq> d \<and> within a (d + 1) n)"
proof (cases "a = d")
  case False
  then have "unat (a - d) > 0" by (simp add: unat_gt_0)
  with False show ?thesis by (auto simp: within_def unat_pred)
qed (simp add: within_def)

lemma within_0 [simp]: "\<not> within a d 0"
  by (simp add: within_def)

lemma apart_Suc: "apart d s (Suc n) \<Longrightarrow> n < 2 ^ 32 \<Longrightarrow> apart (d + 1) (s + 1) n"
  unfolding apart_def within_Suc using within_first by metis

lemma copied_0 [simp]: "copied m d s 0 = m"
  by (simp add: copied_def)

lemma copied_Suc:
  assumes "apart d s (Suc n)" and "n < 2 ^ 32"
  shows "copied (m(d := m s)) (d + 1) (s + 1) n = copied m d s (Suc n)"
proof
  fix a
  have "s + (a - d) \<noteq> d" if "within a (d + 1) n" "a \<noteq> d"
  proof
    assume "s + (a - d) = d"
    then have "d - s = a - d" by (metis add_diff_cancel_left')
    moreover have "unat (a - d) < Suc n" using that unat_pred[of a d] by (simp add: within_def)
    ultimately have "within d s (Suc n)" by (simp only: within_def)
    then show False using assms(1) by (auto simp: apart_def within_Suc)
  qed
  then show "copied (m(d := m s)) (d + 1) (s + 1) n a = copied m d s (Suc n) a"
    using within_first[OF assms(2), of d] by (auto simp: copied_def within_Suc)
qed

lemma filled_Suc: "n < 2 ^ 32 \<Longrightarrow> filled (m(d := c)) (d + 1) c n = filled m d c (Suc n)"
  using within_first by (fastforce simp: filled_def within_Suc)

lemma copy_bytes_correct: "apart d s n \<Longrightarrow> n \<le> 2 ^ 32 \<Longrightarrow> copy_bytes m d s n = copied m d s n"
  by (induction m d s n rule: copy_bytes.induct) (simp_all add: copied_Suc apart_Suc del: power_numeral)

lemma fill_bytes_correct: "n \<le> 2 ^ 32 \<Longrightarrow> fill_bytes m d c n = filled m d c n"
proof (induction m d c n rule: fill_bytes.induct)
  case (2 m buf c n)
  then show ?case using filled_Suc[of n m buf c] by (metis Suc_le_lessD fill_bytes.simps(2) less_imp_le)
qed (simp add: filled_def)

lemma apart_mono: "apart d s n \<Longrightarrow> k \<le> n \<Longrightarrow> apart d s k"
  unfolding apart_def within_def by (meson less_le_trans)

text \<open>A word copy is four byte copies.\<close>

lemma copied_add:
  assumes "apart d s (n + k)" and "n + k \<le> 2 ^ 32"
  shows "copied (copied m d s n) (d + of_nat n) (s + of_nat n) k = copied m d s (n + k)"
  using assms
proof (induction n arbitrary: m d s)
  case (Suc n)
  have "copied (copied m d s (Suc n)) (d + of_nat (Suc n)) (s + of_nat (Suc n)) k =
      copied (copied (m(d := m s)) (d + 1) (s + 1) n) (d + 1 + of_nat n) (s + 1 + of_nat n) k"
    using copied_Suc[OF apart_mono[OF Suc.prems(1)], of n m] Suc.prems(2) by (simp add: add.assoc)
  also have "\<dots> = copied (m(d := m s)) (d + 1) (s + 1) (n + k)"
    using Suc.prems by (intro Suc.IH apart_Suc) simp_all
  also have "\<dots> = copied m d s (Suc n + k)" using Suc.prems copied_Suc[of d s "n + k" m] by simp
  finally show ?case .
qed simp

lemma apart_drop: "apart d s (n + k) \<Longrightarrow> n + k \<le> 2 ^ 32 \<Longrightarrow> apart (d + of_nat n) (s + of_nat n) k"
proof (induction n arbitrary: d s)
  case (Suc n)
  have "apart (d + 1) (s + 1) (n + k)" using Suc.prems by (intro apart_Suc) simp_all
  then have "apart (d + 1 + of_nat n) (s + 1 + of_nat n) k" using Suc.prems by (intro Suc.IH) simp_all
  then show ?case by (simp add: ac_simps)
qed simp

lemma within_4: "within a d 4 \<longleftrightarrow> a = d \<or> a = d + 1 \<or> a = d + 2 \<or> a = d + 3"
proof -
  have "within a d 4 \<longleftrightarrow> within a d (Suc (Suc (Suc (Suc 0))))" by (simp add: numeral_eq_Suc)
  also have "\<dots> \<longleftrightarrow> a = d \<or> a = d + 1 \<or> a = d + 1 + 1 \<or> a = d + 1 + 1 + 1" by (auto simp: within_Suc)
  finally show ?thesis by (simp add: add.assoc)
qed

lemma store_load_word: "store_word m d (load_word m s) = copied m d s 4"
  by (rule ext) (auto simp: store_word_def load_word_def copied_def within_4)

lemma copy_words_correct:
  assumes "apart d s n" and "n \<le> 2 ^ 32" and "copy_words m d s n = (m', d', s', k)"
  shows "copy_bytes m' d' s' k = copied m d s n"
  using assms
proof (induction m d s n rule: copy_words.induct)
  case (1 m d s n)
  show ?case
  proof (cases "n \<ge> 4")
    case True
    then obtain j where n: "n = 4 + j" using le_Suc_ex by blast
    have "copy_bytes m' d' s' k = copied (copied m d s 4) (d + 4) (s + 4) j"
      using 1 True apart_drop[of d s 4 j] unfolding n
      by (simp add: copy_words.simps[of m d s] store_load_word)
    also have "\<dots> = copied m d s n" using copied_add[of d s 4 j m] "1.prems" n by simp
    finally show ?thesis .
  next
    case False
    then have "m' = m" "d' = d" "s' = s" "k = n" using "1.prems"(3) by (simp_all add: copy_words.simps[of m d s n])
    then show ?thesis using "1.prems"(1,2) copy_bytes_correct by blast
  qed
qed

text \<open>Whatever the head loop copies, finishing byte by byte gives the whole copy.\<close>

lemma copy_head_correct:
  assumes "apart d s n" and "n \<le> 2 ^ 32" and "copy_head m d s n = (m', d', s', k, e)"
  shows "copied m' d' s' k = copied m d s n \<and> apart d' s' k \<and> k \<le> n \<and> (e \<longrightarrow> k = 0)"
  using assms
proof (induction m d s n rule: copy_head.induct)
  case (1 m d s n)
  show ?case
  proof (cases "UNALIGNED s \<and> n \<noteq> 0")
    case True
    then obtain j where n: "n = Suc j" by (cases n) auto
    have "copied m' d' s' k = copied (m(d := m s)) (d + 1) (s + 1) j \<and> apart d' s' k \<and> k \<le> j \<and> (e \<longrightarrow> k = 0)"
    proof (rule "1.IH"[OF _ n])
      show "copy_head (m(d := m s)) (d + 1) (s + 1) j = (m', d', s', k, e)"
        using True "1.prems"(3) n by (simp add: copy_head.simps[of m d s])
    qed (use True "1.prems" apart_Suc[of d s j] n in simp_all)
    then show ?thesis using copied_Suc[of d s j m] "1.prems"(1,2) n by simp
  next
    case False
    then show ?thesis using "1.prems" by (auto simp: copy_head.simps[of m d s n] split: if_splits)
  qed
qed

lemma memcpy_copied:
  assumes "apart d s n" and "n \<le> 2 ^ 32"
  shows "memcpy m d s n = copied m d s n"
proof -
  obtain m1 d1 s1 k e where h: "copy_head m d s n = (m1, d1, s1, k, e)" by (metis prod_cases5)
  obtain m2 d2 s2 j where w: "copy_words m1 d1 s1 k = (m2, d2, s2, j)" by (metis prod_cases4)
  note c = copy_head_correct[OF assms h]
  have k: "apart d1 s1 k" "k \<le> 2 ^ 32" using c assms(2) by auto
  have "copy_bytes m1 d1 s1 k = copied m d s n" "copy_bytes m2 d2 s2 j = copied m d s n"
    using c copy_bytes_correct[OF k, of m1] copy_words_correct[OF k w] by simp_all
  moreover have "e \<Longrightarrow> m1 = copied m d s n" using c by auto
  ultimately show ?thesis by (simp add: memcpy_def h w)
qed

text \<open>Filling: the same three loops.\<close>

lemma filled_0 [simp]: "filled m d c 0 = m"
  by (simp add: filled_def)

lemma filled_add: "n + k \<le> 2 ^ 32 \<Longrightarrow> filled (filled m d c n) (d + of_nat n) c k = filled m d c (n + k)"
proof (induction n arbitrary: m d)
  case (Suc n)
  have "filled (filled m d c (Suc n)) (d + of_nat (Suc n)) c k =
      filled (filled (m(d := c)) (d + 1) c n) (d + 1 + of_nat n) c k"
    using filled_Suc[of n m d c] Suc.prems by (simp add: add.assoc)
  also have "\<dots> = filled (m(d := c)) (d + 1) c (n + k)" using Suc.prems by (intro Suc.IH) simp
  also have "\<dots> = filled m d c (Suc n + k)" using Suc.prems filled_Suc[of "n + k" m d c] by simp
  finally show ?case .
qed simp

lemma word_bytes_pattern: "word_bytes (fill_pattern c) = (c, c, c, c)"
proof -
  have "fill_pattern c = push_bit 8 (push_bit 8 (push_bit 8 (ucast c) OR ucast c) OR ucast c) OR ucast c"
    unfolding fill_pattern_def numeral_3_eq_3 funpow.simps comp_def id_def ..
  then show ?thesis unfolding word_bytes_def prod.inject
    by (intro conjI bit_word_eqI) (auto simp: bit_simps dest: bit_imp_le_length)
qed

lemma store_pattern: "store_word m d (c, c, c, c) = filled m d c 4"
  by (rule ext) (auto simp: store_word_def filled_def within_4)

lemma fill_words_correct:
  assumes "n \<le> 2 ^ 32" and "fill_words m d (fill_pattern c) n = (m', d', k)"
  shows "fill_bytes m' d' c k = filled m d c n"
  using assms
proof (induction m d "fill_pattern c" n rule: fill_words.induct)
  case (1 m d n)
  show ?case
  proof (cases "n \<ge> 4")
    case True
    then obtain j where n: "n = 4 + j" using le_Suc_ex by blast
    have "fill_bytes m' d' c k = filled (filled m d c 4) (d + 4) c j"
      using 1 True unfolding n
      by (simp add: fill_words.simps[of m d] word_bytes_pattern store_pattern)
    also have "\<dots> = filled m d c n" using filled_add[of 4 j m d c] "1.prems" n by simp
    finally show ?thesis .
  next
    case False
    then have "m' = m" "d' = d" "k = n" using "1.prems"(2) by (simp_all add: fill_words.simps[of m d])
    then show ?thesis using "1.prems"(1) fill_bytes_correct by blast
  qed
qed

lemma fill_head_correct:
  assumes "n \<le> 2 ^ 32" and "fill_head m d c n = (m', d', k, e)"
  shows "filled m' d' c k = filled m d c n \<and> k \<le> n \<and> (e \<longrightarrow> k = 0)"
  using assms
proof (induction m d c n rule: fill_head.induct)
  case (1 m d c n)
  show ?case
  proof (cases "UNALIGNED d \<and> n \<noteq> 0")
    case True
    then obtain j where n: "n = Suc j" by (cases n) auto
    have "filled m' d' c k = filled (m(d := c)) (d + 1) c j \<and> k \<le> j \<and> (e \<longrightarrow> k = 0)"
    proof (rule "1.IH"[OF _ n])
      show "fill_head (m(d := c)) (d + 1) c j = (m', d', k, e)"
        using True "1.prems"(2) n by (simp add: fill_head.simps[of m d])
    qed (use True "1.prems" n in simp_all)
    then show ?thesis using filled_Suc[of j m d c] "1.prems"(1) n by simp
  next
    case False
    then show ?thesis using "1.prems" by (auto simp: fill_head.simps[of m d c n] split: if_splits)
  qed
qed

lemma memset_filled:
  assumes "n \<le> 2 ^ 32"
  shows "memset m d c n = filled m d (ucast c) n"
proof -
  obtain m1 d1 k e where h: "fill_head m d (ucast c) n = (m1, d1, k, e)" by (metis prod_cases4)
  obtain m2 d2 j where w: "fill_words m1 d1 (fill_pattern (ucast c)) k = (m2, d2, j)" by (metis prod_cases3)
  note f = fill_head_correct[OF assms h]
  have k: "k \<le> 2 ^ 32" using f assms by auto
  have "fill_bytes m1 d1 (ucast c) k = filled m d (ucast c) n" "fill_bytes m2 d2 (ucast c) j = filled m d (ucast c) n"
    using f fill_bytes_correct[OF k, of m1] fill_words_correct[OF k w] by simp_all
  moreover have "e \<Longrightarrow> m1 = filled m d (ucast c) n" using f by auto
  ultimately show ?thesis by (simp add: memset_def h w)
qed

section \<open>Zero-terminated strings\<close>

text \<open>The bytes \<open>s\<close>, none of them zero, followed by a zero byte lie at address \<open>p\<close>.\<close>

fun cstring :: "mem \<Rightarrow> u32 \<Rightarrow> u8 list \<Rightarrow> bool" where
  "cstring m p [] = (m p = 0)"
| "cstring m p (x # xs) = (m p = x \<and> x \<noteq> 0 \<and> cstring m (p + 1) xs)"

lemma char_diff_0 [simp]: "char_diff a b = 0 \<longleftrightarrow> a = b"
  by (auto simp: char_diff_def intro: signed_word_eqI)

lemma strlen_loop_correct: "cstring m p s \<Longrightarrow> strlen_loop m p n = Some (n + length s)"
  by (induction s arbitrary: p n) (simp_all add: strlen_loop.simps[of m])

lemma strcmp_correct:
  "cstring m p s \<Longrightarrow> cstring m q t \<Longrightarrow> \<exists>r. strcmp m p q = Some r \<and> (r = 0 \<longleftrightarrow> s = t)"
proof (induction s arbitrary: p q t)
  case Nil
  then show ?case by (cases t) (auto simp: strcmp.simps[of m p])
next
  case (Cons x s)
  show ?case
  proof (cases t)
    case Nil
    then show ?thesis using Cons.prems by (auto simp: strcmp.simps[of m p])
  next
    case (Cons y t')
    then have st: "cstring m (p + 1) s" "cstring m (q + 1) t'" using Cons.prems by simp_all
    show ?thesis
    proof (cases "x = y")
      case True
      then show ?thesis using Cons.IH[OF st] Cons Cons.prems by (simp add: strcmp.simps[of m p])
    next
      case False
      then show ?thesis using Cons Cons.prems by (simp add: strcmp.simps[of m p])
    qed
  qed
qed

lemma within_tail: "within a (p + 1) n \<Longrightarrow> n < 2 ^ 32 \<Longrightarrow> within a p (Suc n)"
  using within_first within_Suc by blast

lemma cstring_cong: "cstring m p s \<Longrightarrow> (\<And>a. within a p (Suc (length s)) \<Longrightarrow> m' a = m a) \<Longrightarrow>
    length s < 2 ^ 32 - 1 \<Longrightarrow> cstring m' p s"
proof (induction s arbitrary: p)
  case (Cons x s)
  have "cstring m' (p + 1) s"
  proof (rule Cons.IH)
    fix a assume "within a (p + 1) (Suc (length s))"
    then have "within a p (Suc (length (x # s)))" using Cons.prems(3) within_tail[of a p "Suc (length s)"] by simp
    then show "m' a = m a" by (rule Cons.prems(2))
  qed (use Cons.prems(1,3) in simp_all)
  then show ?case using Cons.prems(1) Cons.prems(2)[of p] by (simp add: within_def)
qed (simp add: within_def)

text \<open>A string copy between places that do not overlap is the byte copy of the string and its zero.\<close>

lemma strcpy_correct:
  "cstring m s xs \<Longrightarrow> apart d s (Suc (length xs)) \<Longrightarrow> length xs < 2 ^ 32 - 1 \<Longrightarrow>
     strcpy m d s = Some (copied m d s (Suc (length xs)))"
proof (induction xs arbitrary: m d s)
  case Nil
  then show ?case by (auto simp: strcpy.simps[of m] copied_def within_Suc)
next
  case (Cons x xs)
  have ap: "apart (d + 1) (s + 1) (Suc (length xs))" using Cons.prems by (intro apart_Suc) simp_all
  have "(m(d := m s)) a = m a" if "within a (s + 1) (Suc (length xs))" for a
  proof -
    have "within a s (Suc (length (x # xs)))"
      using that Cons.prems(3) within_tail[of a s "Suc (length xs)"] by simp
    then have "\<not> within a d (Suc (length (x # xs)))" using Cons.prems(2) by (auto simp: apart_def)
    then show ?thesis by (auto simp: within_def)
  qed
  then have "cstring (m(d := m s)) (s + 1) xs"
    by (rule cstring_cong[of m "s + 1" xs, rotated]) (use Cons.prems(1,3) in simp_all)
  then have "strcpy (m(d := m s)) (d + 1) (s + 1) =
      Some (copied (m(d := m s)) (d + 1) (s + 1) (Suc (length xs)))"
    by (rule Cons.IH[OF _ ap]) (use Cons.prems(3) in simp)
  also have "\<dots> = Some (copied m d s (Suc (length (x # xs))))"
    using copied_Suc[of d s "Suc (length xs)" m] Cons.prems(2,3) by simp
  finally show ?case using Cons.prems(1) strcpy.simps[of m d s] by simp
qed

lemma cstring_shift:
  "cstring m p xs \<Longrightarrow> (\<And>k. k \<le> length xs \<Longrightarrow> m' (q + of_nat k) = m (p + of_nat k)) \<Longrightarrow> cstring m' q xs"
proof (induction xs arbitrary: p q)
  case (Cons x xs)
  have "cstring m' (q + 1) xs"
  proof (rule Cons.IH)
    fix k assume "k \<le> length xs"
    then show "m' (q + 1 + of_nat k) = m (p + 1 + of_nat k)" using Cons.prems(2)[of "Suc k"] by (simp add: add.assoc)
  qed (use Cons.prems(1) in simp)
  then show ?case using Cons.prems(1) Cons.prems(2)[of 0] by simp
next
  case Nil
  then show ?case using Nil.prems(2)[of 0] by simp
qed

lemma cstring_copied:
  assumes "cstring m p s" and "length s < 2 ^ 32 - 1"
  shows "cstring (copied m d p (Suc (length s))) d s"
proof (rule cstring_shift[OF assms(1)])
  fix k assume "k \<le> length s"
  then have "unat (of_nat k :: u32) = k" using assms(2) by (simp add: unsigned_of_nat take_bit_nat_eq_self)
  with \<open>k \<le> length s\<close> show "copied m d p (Suc (length s)) (d + of_nat k) = m (p + of_nat k)"
    by (simp add: copied_def within_def)
qed

section \<open>Splitting against the usual tokeniser\<close>

function tokens :: "char \<Rightarrow> string \<Rightarrow> string list" where
  "tokens c s = (let t = dropWhile (\<lambda>x. x = c) s in
     if t = [] then [] else takeWhile (\<lambda>x. x \<noteq> c) t # tokens c (dropWhile (\<lambda>x. x \<noteq> c) t))"
  by pat_completeness auto
termination
proof (relation "measure (\<lambda>(c, s). length s)", goal_cases)
  case (2 c s t)
  from 2(2) obtain x xs where t: "t = x # xs" by (meson neq_Nil_conv)
  then have "x \<noteq> c" using 2 hd_dropWhile[of "\<lambda>x. x = c" s] by simp
  then have "length (dropWhile (\<lambda>x. x \<noteq> c) t) < length t" using t length_dropWhile_le[of "\<lambda>x. x \<noteq> c" xs] by simp
  moreover have "length t \<le> length s" using 2 length_dropWhile_le by simp
  ultimately show ?case by simp
qed simp

declare tokens.simps [simp del]

lemma skip_sep_drop: "drop (skip_sep str c i) str = dropWhile (\<lambda>x. x = c) (drop i str)"
proof (induction str c i rule: skip_sep.induct)
  case (1 str c i)
  show ?case
  proof (cases "i < length str")
    case True
    then have "drop i str = str ! i # drop (Suc i) str" by (simp add: Cons_nth_drop_Suc)
    then show ?thesis using 1 True by (subst skip_sep.simps) (auto simp: at0_def)
  qed (simp add: skip_sep.simps[of str c i])
qed

lemma skip_sep_le: "i \<le> length str \<Longrightarrow> skip_sep str c i \<le> length str"
  by (induction str c i rule: skip_sep.induct) (subst skip_sep.simps, auto)

lemma piece:
  assumes "old \<le> i" "i \<le> length str" "\<forall>k. old \<le> k \<and> k < i \<longrightarrow> str ! k \<noteq> c" "i = length str \<or> str ! i = c"
  shows "takeWhile (\<lambda>x. x \<noteq> c) (drop old str) = take (i - old) (drop old str)"
    "dropWhile (\<lambda>x. x \<noteq> c) (drop old str) = drop i str"
proof -
  have split: "drop old str = take (i - old) (drop old str) @ drop i str"
    using assms(1) by (metis append_take_drop_id drop_drop le_add_diff_inverse2)
  have "\<forall>x\<in>set (take (i - old) (drop old str)). x \<noteq> c"
  proof
    fix x assume "x \<in> set (take (i - old) (drop old str))"
    then obtain k where "k < i - old" "x = str ! (old + k)" using assms(1,2) by (auto simp: in_set_conv_nth)
    then show "x \<noteq> c" using assms(3)[rule_format, of "old + k"] by simp
  qed
  moreover have "drop i str = [] \<or> (\<exists>ys. drop i str = c # ys)"
    using assms(2,4) by (auto simp: Cons_nth_drop_Suc[symmetric])
  ultimately show "takeWhile (\<lambda>x. x \<noteq> c) (drop old str) = take (i - old) (drop old str)"
    "dropWhile (\<lambda>x. x \<noteq> c) (drop old str) = drop i str"
    by (subst split, auto simp: takeWhile_append dropWhile_append)+
qed

lemma explode_loop_tokens:
  assumes "NUL \<notin> set str" "c \<noteq> NUL" "old \<le> i" "i \<le> length str" "old < length str"
    "\<forall>k. old \<le> k \<and> k < i \<longrightarrow> str ! k \<noteq> c"
  shows "explode_loop str c i old =
     takeWhile (\<lambda>x. x \<noteq> c) (drop old str) # tokens c (dropWhile (\<lambda>x. x \<noteq> c) (drop old str))"
  using assms
proof (induction str c i old rule: explode_loop.induct)
  case (1 str c i old)
  show ?case
  proof (cases "i = length str \<or> str ! i = c")
    case True
    let ?j = "skip_sep str c i"
    note p = piece[OF "1.prems"(3,4,6) True]
    have cond: "at0 str i = c \<or> at0 str i = NUL" using True by (auto simp: at0_def)
    have e: "explode_loop str c i old = take (i - old) (drop old str) # explode_loop str c (?j + 1) ?j"
      using "1.prems"(4) cond explode_loop.simps[of str c i old] by simp
    have t: "drop ?j str = dropWhile (\<lambda>x. x = c) (drop i str)" by (rule skip_sep_drop)
    have jle: "?j \<le> length str" using "1.prems"(4) by (rule skip_sep_le)
    have "explode_loop str c (?j + 1) ?j = tokens c (drop i str)"
    proof (cases "?j < length str")
      case False
      then have "dropWhile (\<lambda>x. x = c) (drop i str) = []" using t by simp
      then show ?thesis using False by (simp add: tokens.simps[of c "drop i str"] explode_loop.simps)
    next
      case j: True
      then have hd: "drop ?j str = str ! ?j # drop (Suc ?j) str" by (simp add: Cons_nth_drop_Suc)
      then have ne: "str ! ?j \<noteq> c" using t hd_dropWhile[of "\<lambda>x. x = c" "drop i str"] by auto
      have "explode_loop str c (?j + 1) ?j =
          takeWhile (\<lambda>x. x \<noteq> c) (drop ?j str) # tokens c (dropWhile (\<lambda>x. x \<noteq> c) (drop ?j str))"
        by (rule "1.IH"(1)) (use "1.prems" cond j ne in \<open>auto simp: less_Suc_eq\<close>)
      then show ?thesis unfolding t using hd t by (simp add: tokens.simps[of c "drop i str"])
    qed
    then show ?thesis using e p by simp
  next
    case False
    then have "i < length str" using "1.prems"(4) by auto
    then have i: "i < length str" "at0 str i \<noteq> c" "at0 str i \<noteq> NUL"
      using "1.prems"(1) False by (auto simp: at0_def) (metis nth_mem)
    then have "explode_loop str c i old = explode_loop str c (i + 1) old"
      by (simp add: explode_loop.simps[of str c i])
    also have "\<dots> = takeWhile (\<lambda>x. x \<noteq> c) (drop old str) # tokens c (dropWhile (\<lambda>x. x \<noteq> c) (drop old str))"
      by (rule "1.IH"(2)) (use "1.prems" i False in \<open>auto simp: less_Suc_eq\<close>)
    finally show ?thesis .
  qed
qed

lemma str_explode_tokens:
  assumes "NUL \<notin> set str" "c \<noteq> NUL"
  shows "str_explode str c = tokens c str"
proof -
  let ?i = "skip_sep str c 0"
  have t: "drop ?i str = dropWhile (\<lambda>x. x = c) str" using skip_sep_drop[of str c 0] by simp
  show ?thesis
  proof (cases "?i < length str")
    case True
    then have "at0 str ?i \<noteq> NUL" using assms(1) by (metis at0_def nth_mem)
    moreover have "explode_loop str c ?i ?i =
        takeWhile (\<lambda>x. x \<noteq> c) (drop ?i str) # tokens c (dropWhile (\<lambda>x. x \<noteq> c) (drop ?i str))"
      using assms True by (intro explode_loop_tokens) auto
    moreover have "drop ?i str \<noteq> []" using True by simp
    ultimately show ?thesis by (auto simp: str_explode_def tokens.simps[of c str] t Let_def)
  next
    case False
    then have "dropWhile (\<lambda>x. x = c) str = []" using t by simp
    then show ?thesis using False by (simp add: str_explode_def at0_def tokens.simps[of c str])
  qed
qed

lemma tokens_no_sep: "t \<in> set (tokens c s) \<Longrightarrow> t \<noteq> [] \<and> c \<notin> set t \<and> set t \<subseteq> set s"
proof (induction c s rule: tokens.induct)
  case (1 c s)
  let ?d = "dropWhile (\<lambda>x. x = c) s"
  have ne: "?d \<noteq> []" using "1.prems" by (auto simp: tokens.simps[of c s] Let_def split: if_splits)
  then obtain x xs where d: "?d = x # xs" "x \<noteq> c" using hd_dropWhile[of "\<lambda>x. x = c" s] by (cases ?d) auto
  have "set ?d \<subseteq> set s" by (auto dest: set_dropWhileD)
  moreover have "t = takeWhile (\<lambda>x. x \<noteq> c) ?d \<or> t \<in> set (tokens c (dropWhile (\<lambda>x. x \<noteq> c) ?d))"
    using "1.prems" ne by (simp add: tokens.simps[of c s] Let_def split: if_splits)
  ultimately show ?case using d "1.IH"[OF refl ne] by (auto dest!: set_takeWhileD set_dropWhileD)
qed

section \<open>Properties\<close>

text \<open>C10. The word-at-a-time \<^verbatim>\<open>memcpy\<close> and \<^verbatim>\<open>memset\<close> are the plain byte-wise operations, for every
  alignment of their arguments: \<^verbatim>\<open>memset\<close> sets exactly the given bytes, and \<^verbatim>\<open>memcpy\<close> between ranges that
  do not overlap makes the destination equal to the source and changes no other byte.\<close>

theorem memcpy_memset_bytewise:
  assumes "apart dst src len" and "len \<le> 2 ^ 32"
  shows "memcpy m dst src len = (\<lambda>a. if unat (a - dst) < len then m (src + (a - dst)) else m a) \<and>
    memset m dst c len = (\<lambda>a. if unat (a - dst) < len then ucast c else m a)"
  using memcpy_copied[OF assms] memset_filled[OF assms(2)] by (simp_all add: copied_def filled_def within_def)

theorem memcpy_memset_bytewise_witness:
  "memcpy ucast 0x1001 0x2002 11 0x1003 = 0x04 \<and> memcpy ucast 0x1001 0x2002 11 0x100C = 0x0C \<and>
   memset ucast 0x1001 0x1FF 11 0x100B = 0xFF"
proof -
  have "apart 0x1001 0x2002 11"
  proof (unfold apart_def within_def, intro allI notI)
    fix a :: u32 assume "unat (a - 0x1001) < 11 \<and> unat (a - 0x2002) < 11"
    then have "a - 0x1001 < 11" "a - 0x2002 < 11" by (simp_all add: word_less_nat_alt)
    then have "a - 0x1001 < 11" "(a - 0x1001) - 0x1001 < 11" by simp_all
    moreover have "(11 :: u32) \<le> w - 0x1001" if "w < 11" for w :: u32
    proof -
      have "w = 0 \<or> w = 1 \<or> w = 2 \<or> w = 3 \<or> w = 4 \<or> w = 5 \<or> w = 6 \<or> w = 7 \<or> w = 8 \<or> w = 9 \<or> w = 10"
        using that by unat_arith
      then show ?thesis by auto
    qed
    ultimately show False by (meson not_less)
  qed
  from memcpy_memset_bytewise[OF this] show ?thesis by simp
qed

text \<open>C23. \<^verbatim>\<open>str_explode\<close> (used on paths and on the command line) returns exactly the maximal pieces
  without separator, in order: leading, repeated and trailing separators give no piece, no piece is
  empty, and no piece contains the separator.\<close>

theorem str_explode_correct:
  assumes "NUL \<notin> set str" and "c \<noteq> NUL"
  shows "str_explode str c = tokens c str \<and> (\<forall>t\<in>set (str_explode str c). t \<noteq> [] \<and> c \<notin> set t)"
  using str_explode_tokens[OF assms] tokens_no_sep[of _ c str] by simp

theorem str_explode_correct_witness:
  "str_explode ''//usr/bin///ls/'' (CHR 0x2F) = [''usr'', ''bin'', ''ls'']"
proof -
  have "str_explode ''//usr/bin///ls/'' (CHR 0x2F) = tokens (CHR 0x2F) ''//usr/bin///ls/''"
    using str_explode_correct[of "''//usr/bin///ls/''" "CHR 0x2F"] by (simp add: NUL_def)
  also have "\<dots> = [''usr'', ''bin'', ''ls'']" by code_simp
  finally show ?thesis .
qed

text \<open>On zero-terminated strings the string functions terminate and are what they are named after:
  \<^verbatim>\<open>strlen\<close> is the length, \<^verbatim>\<open>strcmp\<close> is zero exactly on equal strings, and \<^verbatim>\<open>strdup\<close> into a block apart
  from the source leaves an equal string there and the source unchanged.\<close>

theorem cstring_functions:
  assumes "cstring m p s" and "cstring m q t" and "length s < 2 ^ 32 - 1"
    and "apart (kalloc (length s + 1)) p (length s + 1)"
  shows "strlen m p = Some (length s) \<and> (\<exists>r. strcmp m p q = Some r \<and> (r = 0 \<longleftrightarrow> s = t)) \<and>
    (\<exists>m'. strdup kalloc m p = Some (m', kalloc (length s + 1)) \<and>
       cstring m' (kalloc (length s + 1)) s \<and> cstring m' p s)"
proof -
  let ?d = "kalloc (length s + 1)"
  let ?m = "copied m ?d p (Suc (length s))"
  have len: "strlen m p = Some (length s)" using assms(1) by (simp add: strlen_def strlen_loop_correct)
  have "strcpy m ?d p = Some ?m" using assms(1,3,4) by (intro strcpy_correct) simp_all
  then have "strdup kalloc m p = Some (?m, ?d)" by (simp add: strdup_def len Let_def)
  moreover have "cstring ?m p s"
    using assms(4) by (intro cstring_cong[OF assms(1) _ assms(3)]) (auto simp: copied_def apart_def)
  moreover have "cstring ?m ?d s" using assms(1,3) by (intro cstring_copied) simp_all
  ultimately show ?thesis using len strcmp_correct[OF assms(1,2)] by blast
qed

theorem cstring_functions_witness:
  "\<exists>m'. strdup (\<lambda>_. 0x2000) ((\<lambda>_. 0)(0x1000 := 0x61)) 0x1000 = Some (m', 0x2000) \<and> cstring m' 0x2000 [0x61]"
proof -
  let ?m = "(\<lambda>_. 0)(0x1000 := 0x61) :: mem"
  have s: "cstring ?m 0x1000 [0x61]" by simp
  have "apart 0x2000 0x1000 2"
  proof (unfold apart_def, intro allI notI)
    fix a assume "within a 0x2000 2 \<and> within a 0x1000 2"
    then have "a = 0x2000 \<or> a = 0x2001" "a = 0x1000 \<or> a = 0x1001"
      using within_Suc[of a _ 1] within_Suc[of a _ 0] by (auto simp: numeral_2_eq_2)
    then show False by auto
  qed
  then have ap: "apart ((\<lambda>_. 0x2000) (length [0x61 :: u8] + 1)) 0x1000 (length [0x61 :: u8] + 1)"
    by (simp add: numeral_2_eq_2)
  have l: "length [0x61 :: u8] < 2 ^ 32 - 1" by simp
  show ?thesis using cstring_functions[OF s s l, where kalloc = "\<lambda>_. 0x2000", OF ap] by blast
qed

text \<open>\<^verbatim>\<open>strncmp\<close> does not stop at the terminator of equal strings when they are empty: the end test
  comes after both pointers moved, so two empty strings compare unequal when the bytes behind their
  terminators differ; and a count of zero does not mean zero characters.\<close>

theorem strncmp_reads_past_end:
  "\<exists>m. cstring m 0x1000 [] \<and> cstring m 0x2000 [] \<and> strncmp m 0x1000 0x2000 5 = Some (- 1) \<and>
     strncmp m 0x1001 0x2001 0 = Some (- 1)"
proof -
  let ?m = "(\<lambda>_. 0)(0x1001 := 1, 0x2001 := 2) :: mem"
  have "strncmp ?m 0x1001 0x2001 n = Some (- 1)" for n
    by (simp add: strncmp.simps[of _ "0x1001"] char_diff_def)
  moreover from this have "strncmp ?m 0x1000 0x2000 5 = Some (- 1)"
    by (simp add: strncmp.simps[of _ "0x1000"])
  ultimately show ?thesis by (intro exI[of _ ?m]) simp
qed

end
