(* ===== verification/Sched.thy ===== *)
theory Sched
  imports Prelude
begin

text \<open>
  The scheduler of \<^verbatim>\<open>kernel/sched.c\<close>, thread creation (\<^verbatim>\<open>kernel/thread.c\<close>), wait queues
  (\<^verbatim>\<open>kernel/wait.c\<close>) and pending signals (\<^verbatim>\<open>kernel/signal.c\<close>), for one processor. Threads and processes
  are kept in tables indexed by their pointers. A thread's \<^verbatim>\<open>list\<close> node is on at most one queue: the
  ready queue or one wait queue; \<^verbatim>\<open>list_add\<close> unlinks it from where it was, which is what \<open>unlink\<close> does.
  A wait queue is named by the address of its \<^verbatim>\<open>wait_t\<close>. The critical sections under \<^verbatim>\<open>_ready_queue_lock\<close>
  and the lock of a wait queue are single steps.
\<close>

section \<open>State\<close>

datatype thread_state = RUNNING | READY | WAITING | NEW | BLOCKED | ZOMBIE

record thread =
  tid :: int
  proc_of :: nat
  state :: thread_state
  timeout :: int
  prio :: int
  waitpid :: int
  exit_code :: int

record proc =
  pid :: int
  uid :: u32
  gid :: u32
  euid :: u32
  egid :: u32
  pgrp :: int
  thread_list :: "nat list"
  nthreads :: int
  main_thread :: nat
  sigqueue :: u32
  sigaction :: "u32 list"
  sigmask :: u32
  childs_list :: "nat list"
  parent :: nat
  vmspace :: "nat option"

record kernel =
  threads :: "nat \<Rightarrow> thread"
  procs :: "nat \<Rightarrow> proc"
  ready_queue :: "nat list"
  wait_queues :: "nat \<Rightarrow> nat list"
  current :: nat
  idle :: nat
  preempt_disabled :: int
  ctxsw :: u64
  active_space :: "nat option"
  next_tid :: int

abbreviation upd_thread :: "nat \<Rightarrow> (thread \<Rightarrow> thread) \<Rightarrow> kernel \<Rightarrow> kernel" where
  "upd_thread t f s \<equiv> s\<lparr>threads := (threads s)(t := f (threads s t))\<rparr>"

abbreviation upd_proc :: "nat \<Rightarrow> (proc \<Rightarrow> proc) \<Rightarrow> kernel \<Rightarrow> kernel" where
  "upd_proc p f s \<equiv> s\<lparr>procs := (procs s)(p := f (procs s p))\<rparr>"

section \<open>Queues\<close>

definition unlink :: "nat \<Rightarrow> kernel \<Rightarrow> kernel" where
  "unlink t s = s\<lparr>ready_queue := filter (\<lambda>x. x \<noteq> t) (ready_queue s),
                   wait_queues := (\<lambda>w. filter (\<lambda>x. x \<noteq> t) (wait_queues s w))\<rparr>"

definition ready_front :: "nat \<Rightarrow> kernel \<Rightarrow> kernel" where
  "ready_front t s = (let s = unlink t s in s\<lparr>ready_queue := t # ready_queue s\<rparr>)"

definition ready_back :: "nat \<Rightarrow> kernel \<Rightarrow> kernel" where
  "ready_back t s = (let s = unlink t s in s\<lparr>ready_queue := ready_queue s @ [t]\<rparr>)"

definition wait_back :: "nat \<Rightarrow> nat \<Rightarrow> kernel \<Rightarrow> kernel" where
  "wait_back w t s =
     (let s = unlink t s in s\<lparr>wait_queues := (wait_queues s)(w := wait_queues s w @ [t])\<rparr>)"

definition sched_wakeup :: "nat \<Rightarrow> kernel \<Rightarrow> kernel" where
  "sched_wakeup t s =
     (let s = unlink t s; s = upd_thread t (\<lambda>th. th\<lparr>state := READY\<rparr>) s in ready_front t s)"

section \<open>Signals\<close>

text \<open>
  \<^verbatim>\<open>do_signals\<close> takes the lowest pending signal that is not masked off the queue; every action behind it
  is a \<^verbatim>\<open>TODO\<close> that prints at most. \<open>lowest\<close> is the shifting loop, which ends because \<^verbatim>\<open>tmp\<close> is not zero.
\<close>

function lowest :: "u32 \<Rightarrow> nat \<Rightarrow> nat" where
  "lowest tmp signo = (if signo < 32 \<and> \<not> bit tmp signo then lowest tmp (Suc signo) else signo)"
  by pat_completeness auto
termination
  by (relation "measure (\<lambda>(tmp, signo). 32 - signo)") auto

declare lowest.simps [simp del]

definition do_signals :: "proc \<Rightarrow> proc" where
  "do_signals p =
     (let tmp = sigqueue p AND NOT (sigmask p)
      in if tmp = 0 then p
         else p\<lparr>sigqueue := sigqueue p AND NOT (push_bit (lowest tmp 0) 1)\<rparr>)"

definition NSIG :: int where "NSIG = 32"

definition sys_kill :: "int \<Rightarrow> int \<Rightarrow> errno" where
  "sys_kill p signo = (if signo < 1 \<or> signo > NSIG then EINVAL else ENOSYS)"

section \<open>The scheduler\<close>

definition pick_next :: "kernel \<Rightarrow> kernel" where
  "pick_next s =
     (case ready_queue s of
        [] \<Rightarrow> upd_thread (idle s) (\<lambda>th. th\<lparr>timeout := 0\<rparr>) (s\<lparr>current := idle s\<rparr>)
      | t # _ \<Rightarrow> upd_thread t (\<lambda>th. th\<lparr>timeout := prio th\<rparr>) (unlink t (s\<lparr>current := t\<rparr>)))"

text \<open>The three stages of \<^verbatim>\<open>schedule\<close> around the choice: the old thread's time slice and place in the
  queue, and the switch to the chosen one.\<close>

definition retire :: "nat \<Rightarrow> kernel \<Rightarrow> kernel" where
  "retire old s =
     (if state (threads s old) = RUNNING
      then upd_thread old (\<lambda>th. th\<lparr>timeout := timeout th - 1, state := READY\<rparr>) s else s)"

definition requeue :: "nat \<Rightarrow> kernel \<Rightarrow> kernel" where
  "requeue old s =
     (if tid (threads s old) > 0 \<and> state (threads s old) = READY then ready_back old s else s)"

definition switch_to :: "nat \<Rightarrow> kernel \<Rightarrow> kernel" where
  "switch_to old s =
     (let s = upd_thread (current s) (\<lambda>th. th\<lparr>state := RUNNING\<rparr>) s;
          space = vmspace (procs s (proc_of (threads s (current s))));
          s = (if old \<noteq> current s then s\<lparr>ctxsw := ctxsw s + 1\<rparr> else s);
          s = (if old \<noteq> current s \<and> vmspace (procs s (proc_of (threads s old))) \<noteq> space
               then s\<lparr>active_space := space\<rparr> else s)
      in upd_proc (proc_of (threads s (current s))) do_signals s)"

definition schedule :: "kernel \<Rightarrow> kernel" where
  "schedule s =
     (if preempt_disabled s > 0 then s
      else let old = current s
        in if state (threads s old) = RUNNING \<and> timeout (threads s old) > 0
           then upd_thread old (\<lambda>th. th\<lparr>timeout := timeout th - 1\<rparr>) s
           else switch_to old (pick_next (requeue old (retire old s))))"

section \<open>Threads\<close>

definition thread_init :: "nat \<Rightarrow> thread" where
  "thread_init prnt = \<lparr>tid = 0, proc_of = prnt, state = NEW, timeout = 0, prio = 0, waitpid = 0, exit_code = 0\<rparr>"

definition thread_spawn :: "nat \<Rightarrow> kernel \<Rightarrow> int \<times> kernel" where
  "thread_spawn t s =
     (let new = next_tid s;
          s = upd_thread t (\<lambda>th. th\<lparr>tid := new, state := NEW, timeout := prio th\<rparr>) (s\<lparr>next_tid := new + 1\<rparr>);
          s = upd_proc (proc_of (threads s t))
                (\<lambda>p. p\<lparr>thread_list := t # thread_list p, nthreads := nthreads p + 1\<rparr>) s
      in (new, sched_wakeup t s))"

text \<open>\<^verbatim>\<open>kthread_create\<close>: the thread pointer is the fresh block from the heap; the register context is
  not part of the model. A negative thread number would take the error path of the source.\<close>

definition kthread_create :: "nat \<Rightarrow> nat \<Rightarrow> kernel \<Rightarrow> int \<times> kernel" where
  "kthread_create kernel_proc t s =
     thread_spawn t (upd_thread t (\<lambda>_. (thread_init kernel_proc)\<lparr>prio := 5\<rparr>) s)"

text \<open>Static data before \<^verbatim>\<open>sched_init\<close>, and the idle thread it makes. Preemption starts disabled.\<close>

definition proc_zero :: proc where
  "proc_zero = \<lparr>pid = 0, uid = 0, gid = 0, euid = 0, egid = 0, pgrp = 0, thread_list = [], nthreads = 0,
     main_thread = 0, sigqueue = 0, sigaction = replicate 32 0, sigmask = 0, childs_list = [], parent = 0,
     vmspace = None\<rparr>"

definition boot :: kernel where
  "boot = \<lparr>threads = (\<lambda>_. thread_init 0), procs = (\<lambda>_. proc_zero), ready_queue = [], wait_queues = (\<lambda>_. []),
     current = 0, idle = 0, preempt_disabled = 0, ctxsw = 0, active_space = None, next_tid = 1\<rparr>"

definition sched_init :: "nat \<Rightarrow> nat \<Rightarrow> kernel \<Rightarrow> kernel" where
  "sched_init kernel_proc t s =
     (let s = upd_thread t (\<lambda>_. (thread_init kernel_proc)\<lparr>state := RUNNING, timeout := 1\<rparr>) s;
          s = upd_proc kernel_proc (\<lambda>p. p\<lparr>thread_list := t # thread_list p, nthreads := nthreads p + 1\<rparr>) s
      in s\<lparr>idle := t, current := t, ctxsw := 0, preempt_disabled := 1\<rparr>)"

section \<open>Wait queues\<close>

text \<open>\<^verbatim>\<open>wait_sleep\<close> up to the switch; preemption is off in between, so this is one step. The caller's
  spinlock is released before the switch and taken again when the thread runs again.\<close>

definition wait_sleep :: "nat \<Rightarrow> kernel \<Rightarrow> kernel" where
  "wait_sleep w s =
     schedule (wait_back w (current s) (upd_thread (current s) (\<lambda>th. th\<lparr>state := WAITING\<rparr>) s))"

definition wait_wakeup :: "nat \<Rightarrow> kernel \<Rightarrow> kernel" where
  "wait_wakeup w s = (case wait_queues s w of [] \<Rightarrow> s | t # _ \<Rightarrow> sched_wakeup t s)"

lemma unlink_wait [simp]: "wait_queues (unlink t s) w = filter (\<lambda>x. x \<noteq> t) (wait_queues s w)"
  and unlink_ready [simp]: "ready_queue (unlink t s) = filter (\<lambda>x. x \<noteq> t) (ready_queue s)"
  and unlink_other [simp]: "threads (unlink t s) = threads s" "current (unlink t s) = current s"
    "idle (unlink t s) = idle s" "procs (unlink t s) = procs s"
    "preempt_disabled (unlink t s) = preempt_disabled s" "next_tid (unlink t s) = next_tid s"
    "active_space (unlink t s) = active_space s"
  by (simp_all add: unlink_def)

lemma sched_wakeup_simps [simp]:
  "wait_queues (sched_wakeup t s) w = filter (\<lambda>x. x \<noteq> t) (wait_queues s w)"
  "ready_queue (sched_wakeup t s) = t # filter (\<lambda>x. x \<noteq> t) (ready_queue s)"
  "threads (sched_wakeup t s) = (threads s)(t := (threads s t)\<lparr>state := READY\<rparr>)"
  "current (sched_wakeup t s) = current s" "idle (sched_wakeup t s) = idle s"
  "procs (sched_wakeup t s) = procs s" "preempt_disabled (sched_wakeup t s) = preempt_disabled s"
  "next_tid (sched_wakeup t s) = next_tid s"
  by (simp_all add: sched_wakeup_def ready_front_def Let_def)

function wait_wakeup_all :: "nat \<Rightarrow> kernel \<Rightarrow> kernel" where
  "wait_wakeup_all w s =
     (case wait_queues s w of [] \<Rightarrow> s | t # _ \<Rightarrow> wait_wakeup_all w (sched_wakeup t s))"
  by pat_completeness auto
termination
  by (relation "measure (\<lambda>(w, s). length (wait_queues s w))")
    (auto simp: less_Suc_eq_le)

declare wait_wakeup_all.simps [simp del]

section \<open>The scheduling invariant\<close>

text \<open>
  \<open>sched_pre\<close> holds when \<open>schedule\<close> is entered: the running thread may have just changed its own state
  to a sleeping one. \<open>sched_inv\<close> holds whenever a thread runs.
\<close>

definition queues_ok :: "kernel \<Rightarrow> bool" where
  "queues_ok s \<longleftrightarrow>
     distinct (ready_queue s) \<and> (\<forall>w. distinct (wait_queues s w)) \<and>
     (\<forall>w v. w \<noteq> v \<longrightarrow> set (wait_queues s w) \<inter> set (wait_queues s v) = {}) \<and>
     (\<forall>t\<in>set (ready_queue s). state (threads s t) = READY) \<and>
     (\<forall>w. \<forall>t\<in>set (wait_queues s w). state (threads s t) = WAITING) \<and>
     (\<forall>t. state (threads s t) = READY \<longrightarrow> t = idle s \<or> t \<in> set (ready_queue s)) \<and>
     idle s \<notin> set (ready_queue s) \<and> (\<forall>w. idle s \<notin> set (wait_queues s w)) \<and> tid (threads s (idle s)) = 0 \<and>
     (\<forall>t. t \<in> set (ready_queue s) \<or> (\<exists>w. t \<in> set (wait_queues s w)) \<longrightarrow> tid (threads s t) > 0)"

definition sched_pre :: "kernel \<Rightarrow> bool" where
  "sched_pre s \<longleftrightarrow>
     queues_ok s \<and> state (threads s (current s)) \<notin> {READY, NEW} \<and>
     (\<forall>t. state (threads s t) = RUNNING \<longrightarrow> t = current s) \<and>
     (current s = idle s \<and> state (threads s (idle s)) = RUNNING \<or>
      current s \<noteq> idle s \<and> tid (threads s (current s)) > 0 \<and>
      state (threads s (idle s)) = READY)"

definition sched_inv :: "kernel \<Rightarrow> bool" where
  "sched_inv s \<longleftrightarrow> sched_pre s \<and> state (threads s (current s)) = RUNNING"

lemma queues_okD:
  assumes "queues_ok s"
  shows "distinct (ready_queue s)" "distinct (wait_queues s w)"
    "w \<noteq> v \<Longrightarrow> set (wait_queues s w) \<inter> set (wait_queues s v) = {}"
    "t \<in> set (ready_queue s) \<Longrightarrow> state (threads s t) = READY"
    "t \<in> set (wait_queues s w) \<Longrightarrow> state (threads s t) = WAITING"
    "state (threads s t) = READY \<Longrightarrow> t = idle s \<or> t \<in> set (ready_queue s)"
    "idle s \<notin> set (ready_queue s)" "idle s \<notin> set (wait_queues s w)" "tid (threads s (idle s)) = 0"
    "t \<in> set (ready_queue s) \<Longrightarrow> tid (threads s t) > 0"
    "t \<in> set (wait_queues s w) \<Longrightarrow> tid (threads s t) > 0"
  using assms unfolding queues_ok_def by blast+

lemma sched_preD:
  assumes "sched_pre s"
  shows "queues_ok s" "state (threads s (current s)) \<noteq> READY" "state (threads s (current s)) \<noteq> NEW"
    "state (threads s t) = RUNNING \<Longrightarrow> t = current s"
    "current s = idle s \<Longrightarrow> state (threads s (idle s)) = RUNNING"
    "current s \<noteq> idle s \<Longrightarrow> tid (threads s (current s)) > 0"
    "current s \<noteq> idle s \<Longrightarrow> state (threads s (idle s)) = READY"
  using assms unfolding sched_pre_def by auto

lemma sched_invI:
  assumes "queues_ok s" "state (threads s (current s)) = RUNNING"
    "\<And>t. state (threads s t) = RUNNING \<Longrightarrow> t = current s"
    "current s \<noteq> idle s \<Longrightarrow> tid (threads s (current s)) > 0"
    "current s \<noteq> idle s \<Longrightarrow> state (threads s (idle s)) = READY"
  shows "sched_inv s"
proof -
  have "current s = idle s \<and> state (threads s (idle s)) = RUNNING \<or>
      current s \<noteq> idle s \<and> tid (threads s (current s)) > 0 \<and> state (threads s (idle s)) = READY"
    using assms(2,4,5) by metis
  moreover have "\<forall>t. state (threads s t) = RUNNING \<longrightarrow> t = current s" using assms(3) by blast
  moreover have "state (threads s (current s)) \<notin> {READY, NEW}" using assms(2) by simp
  ultimately show ?thesis using assms(1,2) unfolding sched_inv_def sched_pre_def by blast
qed

lemma sched_inv_cong:
  assumes "sched_inv s" "\<And>t. state (threads s' t) = state (threads s t)" "\<And>t. tid (threads s' t) = tid (threads s t)"
    "ready_queue s' = ready_queue s" "wait_queues s' = wait_queues s" "current s' = current s" "idle s' = idle s"
  shows "sched_inv s'"
  using assms(1) unfolding sched_inv_def sched_pre_def queues_ok_def assms(2-) .

lemma current_not_ready: "sched_pre s \<Longrightarrow> current s \<notin> set (ready_queue s)"
  by (metis queues_okD(4) sched_preD(1,2))

text \<open>What \<open>schedule\<close> does when it gives up the processor, as a function of the queue it finds.\<close>

definition runnable :: "kernel \<Rightarrow> nat list" where
  "runnable s = ready_queue s @
     (if state (threads s (current s)) = RUNNING \<and> current s \<noteq> idle s then [current s] else [])"

definition next_thread :: "kernel \<Rightarrow> nat" where
  "next_thread s = (case runnable s of [] \<Rightarrow> idle s | t # _ \<Rightarrow> t)"

definition gives_up :: "kernel \<Rightarrow> bool" where
  "gives_up s \<longleftrightarrow> preempt_disabled s \<le> 0 \<and>
     \<not> (state (threads s (current s)) = RUNNING \<and> timeout (threads s (current s)) > 0)"

lemma filter_id: "t \<notin> set xs \<Longrightarrow> filter (\<lambda>x. x \<noteq> t) xs = xs"
  by (induction xs) auto

lemma schedule_switch:
  assumes pre: "sched_pre s" and g: "gives_up s"
  shows "current (schedule s) = next_thread s" "ready_queue (schedule s) = tl (runnable s)"
    "idle (schedule s) = idle s" "preempt_disabled (schedule s) = preempt_disabled s"
    "wait_queues (schedule s) = wait_queues s"
    "tid (threads (schedule s) t) = tid (threads s t)"
    "state (threads (schedule s) t) =
       (if t = next_thread s then RUNNING
        else if t = current s \<and> state (threads s t) = RUNNING then READY else state (threads s t))"
    "prio (threads (schedule s) t) = prio (threads s t)"
    "runnable s \<noteq> [] \<Longrightarrow> timeout (threads (schedule s) (next_thread s)) = prio (threads s (next_thread s))"
proof -
  let ?run = "state (threads s (current s)) = RUNNING"
  let ?s1 = "retire (current s) s"
  let ?s2 = "requeue (current s) ?s1"
  have nr: "current s \<notin> set (ready_queue s)" using pre by (rule current_not_ready)
  note q = sched_preD(1)[OF pre]
  have nw: "?run \<Longrightarrow> current s \<notin> set (wait_queues s w)" for w
    using queues_okD(5)[OF q] by fastforce
  have s1: "ready_queue ?s1 = ready_queue s" "wait_queues ?s1 = wait_queues s" "idle ?s1 = idle s"
    "preempt_disabled ?s1 = preempt_disabled s"
    "tid (threads ?s1 t) = tid (threads s t)" "prio (threads ?s1 t) = prio (threads s t)"
    "state (threads ?s1 t) = (if t = current s \<and> state (threads s t) = RUNNING then READY else state (threads s t))" for t
    by (auto simp: retire_def)
  have en: "tid (threads ?s1 (current s)) > 0 \<and> state (threads ?s1 (current s)) = READY \<longleftrightarrow>
      ?run \<and> current s \<noteq> idle s"
    using sched_preD(2,5,6)[OF pre] queues_okD(9)[OF q] by (auto simp: s1)
  have s2: "ready_queue ?s2 = runnable s" "wait_queues ?s2 = wait_queues s" "idle ?s2 = idle s"
    "threads ?s2 = threads ?s1" "preempt_disabled ?s2 = preempt_disabled s"
    unfolding requeue_def en using nr nw by (auto simp: s1 runnable_def ready_back_def Let_def filter_id)
  have d: "distinct (runnable s)" using queues_okD(1)[OF q] nr by (auto simp: runnable_def)
  note iw = queues_okD(8)[OF q]
  have sch: "schedule s = switch_to (current s) (pick_next ?s2)"
    using g unfolding schedule_def gives_up_def Let_def by auto
  let ?p = "pick_next ?s2"
  have cur: "current ?p = next_thread s"
    by (simp add: pick_next_def s2 next_thread_def split: list.split)
  have rq: "ready_queue ?p = tl (runnable s)"
    using d by (auto simp: pick_next_def s2 filter_id split: list.split)
  have "t \<notin> set (wait_queues s w)" if "t \<in> set (runnable s)" for t w
    using that nw queues_okD(4,5)[OF q, of t] by (auto simp: runnable_def split: if_splits)
  then have wq: "wait_queues ?p = wait_queues s"
    by (auto simp: pick_next_def s2 filter_id split: list.split)
  have th: "tid (threads ?p t) = tid (threads s t)" "state (threads ?p t) = state (threads ?s1 t)"
    "prio (threads ?p t) = prio (threads s t)" for t
    by (auto simp: pick_next_def s2 s1(5,6) split: list.split)
  have to: "timeout (threads ?p (next_thread s)) = prio (threads s (next_thread s))" if "runnable s \<noteq> []"
    using that by (auto simp: pick_next_def s2 s1(6) next_thread_def split: list.split)
  have oth: "idle ?p = idle s" "preempt_disabled ?p = preempt_disabled s"
    by (auto simp: pick_next_def s2 split: list.split)
  have sw: "current (switch_to old x) = current x" "ready_queue (switch_to old x) = ready_queue x"
    "wait_queues (switch_to old x) = wait_queues x" "idle (switch_to old x) = idle x"
    "preempt_disabled (switch_to old x) = preempt_disabled x"
    "threads (switch_to old x) = (threads x)(current x := (threads x (current x))\<lparr>state := RUNNING\<rparr>)" for old x
    by (simp_all add: switch_to_def Let_def)
  show "current (schedule s) = next_thread s" "ready_queue (schedule s) = tl (runnable s)"
    "idle (schedule s) = idle s" "preempt_disabled (schedule s) = preempt_disabled s"
    "wait_queues (schedule s) = wait_queues s"
    "tid (threads (schedule s) t) = tid (threads s t)" "prio (threads (schedule s) t) = prio (threads s t)"
    unfolding sch by (simp_all add: sw cur rq wq oth th)
  show "timeout (threads (schedule s) (next_thread s)) = prio (threads s (next_thread s))" if "runnable s \<noteq> []"
    unfolding sch using to[OF that] by (simp add: sw cur)
  show "state (threads (schedule s) t) =
       (if t = next_thread s then RUNNING
        else if t = current s \<and> state (threads s t) = RUNNING then READY else state (threads s t))"
    unfolding sch by (simp add: sw cur th s1)
qed

lemma runnable_thread:
  assumes "sched_pre s" and "t \<in> set (runnable s)"
  shows "tid (threads s t) > 0" "t \<noteq> idle s"
proof -
  note q = sched_preD(1)[OF assms(1)]
  from assms(2) consider "t \<in> set (ready_queue s)" | "t = current s" "current s \<noteq> idle s"
    by (auto simp: runnable_def split: if_splits)
  then show "tid (threads s t) > 0" using queues_okD(10)[OF q] sched_preD(6)[OF assms(1)] by cases auto
  then show "t \<noteq> idle s" using queues_okD(9)[OF q] by auto
qed

lemma schedule_queues_ok:
  assumes pre: "sched_pre s" and g: "gives_up s"
  shows "queues_ok (schedule s)"
proof -
  note q = sched_preD(1)[OF pre] and sw = schedule_switch[OF pre g]
  have d: "distinct (runnable s)"
    using queues_okD(1)[OF q] current_not_ready[OF pre] by (auto simp: runnable_def)
  have n: "runnable s = [] \<and> next_thread s = idle s \<or> runnable s = next_thread s # tl (runnable s)"
    by (cases "runnable s") (auto simp: next_thread_def)
  have tl: "t \<in> set (tl (runnable s)) \<longleftrightarrow> t \<in> set (runnable s) \<and> t \<noteq> next_thread s" for t
    using n d by (cases "runnable s") auto
  have mem: "t \<in> set (runnable s) \<longleftrightarrow> t \<in> set (ready_queue s) \<or>
      t = current s \<and> state (threads s t) = RUNNING \<and> t \<noteq> idle s" for t by (auto simp: runnable_def)
  have st: "state (threads (schedule s) t) = READY" if "t \<in> set (tl (runnable s))" for t
    using that[unfolded tl mem] queues_okD(4)[OF q, of t] by (auto simp: sw(7))
  have wt: "t \<noteq> next_thread s" "state (threads (schedule s) t) = WAITING" if "t \<in> set (wait_queues s w)" for t w
  proof -
    have "state (threads s t) = WAITING" using queues_okD(5)[OF q that] .
    moreover from this have "t \<notin> set (runnable s)"
      using queues_okD(4)[OF q, of t] by (auto simp: mem)
    ultimately show "t \<noteq> next_thread s" "state (threads (schedule s) t) = WAITING"
      using n queues_okD(8)[OF q, of w] that by (auto simp: sw(7)) (metis list.set_intros(1))+
  qed
  have rd: "t = idle s \<or> t \<in> set (tl (runnable s))" if "state (threads (schedule s) t) = READY" for t
    using that queues_okD(6)[OF q, of t] unfolding tl mem by (auto simp: sw(7) split: if_splits)
  show ?thesis
    unfolding queues_ok_def sw
  proof (intro conjI allI impI ballI)
    show "distinct (tl (runnable s))" using d by (simp add: distinct_tl)
    show "idle s \<notin> set (tl (runnable s))" using runnable_thread(2)[OF pre] tl by blast
    fix t assume "t \<in> set (tl (runnable s)) \<or> (\<exists>w. t \<in> set (wait_queues s w))"
    then show "0 < tid (threads s t)" using runnable_thread(1)[OF pre] tl queues_okD(11)[OF q] by blast
  qed (use queues_okD(2,3,8,9)[OF q] st wt rd in \<open>simp_all add: sw(7)\<close>)
qed

lemma schedule_inv:
  assumes pre: "sched_pre s" and pd: "preempt_disabled s \<le> 0"
  shows "sched_inv (schedule s)"
proof (cases "gives_up s")
  case True
  note q = schedule_queues_ok[OF pre True] and sw = schedule_switch[OF pre True]
  have n: "next_thread s = idle s \<or> tid (threads s (next_thread s)) > 0 \<and> next_thread s \<noteq> idle s"
    using runnable_thread[OF pre, of "next_thread s"] by (cases "runnable s") (auto simp: next_thread_def)
  have "state (threads (schedule s) t) = RUNNING \<longleftrightarrow> t = next_thread s" for t
    unfolding sw(7) using sched_preD(4)[OF pre, of t] by (cases "t = current s") auto
  moreover have "state (threads (schedule s) (next_thread s)) \<notin> {READY, NEW}" by (simp add: sw(7))
  moreover have "state (threads (schedule s) (idle s)) = READY" if "next_thread s \<noteq> idle s"
    unfolding sw(7) using that sched_preD(5,7)[OF pre] by (cases "current s = idle s") simp_all
  ultimately show ?thesis
    using q n unfolding sched_inv_def sched_pre_def sw(1,3,6) by (cases "next_thread s = idle s") simp_all
next
  case False
  then have s: "state (threads s (current s)) = RUNNING"
    "schedule s = upd_thread (current s) (\<lambda>th. th\<lparr>timeout := timeout th - 1\<rparr>) s"
    using pd by (auto simp: gives_up_def schedule_def Let_def)
  have "state (threads (schedule s) t) = state (threads s t)" "tid (threads (schedule s) t) = tid (threads s t)" for t
    by (simp_all add: s(2))
  moreover have "sched_inv s" using pre s(1) by (simp add: sched_inv_def)
  ultimately show ?thesis by (elim sched_inv_cong) (simp_all add: s(2))
qed

lemma sched_wakeup_inv:
  assumes inv: "sched_inv s" and t: "t \<noteq> current s" "t \<noteq> idle s" "tid (threads s t) > 0"
  shows "sched_inv (sched_wakeup t s)"
proof -
  have pre: "sched_pre s" and run: "state (threads s (current s)) = RUNNING" using inv by (simp_all add: sched_inv_def)
  note q = sched_preD(1)[OF pre]
  have "queues_ok (sched_wakeup t s)"
    unfolding queues_ok_def sched_wakeup_simps
  proof (intro conjI allI impI ballI)
    fix u assume "state (((threads s)(t := threads s t\<lparr>state := READY\<rparr>)) u) = READY"
    then show "u = idle s \<or> u \<in> set (t # filter (\<lambda>x. x \<noteq> t) (ready_queue s))"
      using queues_okD(6)[OF q, of u] by (auto split: if_splits)
  next
    fix u assume "u \<in> set (t # filter (\<lambda>x. x \<noteq> t) (ready_queue s)) \<or>
        (\<exists>w. u \<in> set (filter (\<lambda>x. x \<noteq> t) (wait_queues s w)))"
    then show "0 < tid (((threads s)(t := threads s t\<lparr>state := READY\<rparr>)) u)"
      using queues_okD(10,11)[OF q, of u] t(3) by auto
  next
    fix w v :: nat assume "w \<noteq> v"
    then show "set (filter (\<lambda>x. x \<noteq> t) (wait_queues s w)) \<inter> set (filter (\<lambda>x. x \<noteq> t) (wait_queues s v)) = {}"
      using queues_okD(3)[OF q, of w v] by auto
  qed (use queues_okD[OF q] t in auto)
  moreover have "state (threads (sched_wakeup t s) u) = RUNNING \<Longrightarrow> u = current s" for u
    using sched_preD(4)[OF pre, of u] by (cases "u = t") simp_all
  ultimately show ?thesis
    using run t sched_preD(5-7)[OF pre] unfolding sched_inv_def sched_pre_def
    by (cases "current s = idle s") simp_all
qed

lemma queued_not_current:
  assumes "sched_inv s" "t \<in> set (wait_queues s w)"
  shows "t \<noteq> current s" "t \<noteq> idle s" "tid (threads s t) > 0"
proof -
  have q: "queues_ok s" "state (threads s (current s)) = RUNNING"
    using assms(1) sched_preD(1) by (auto simp: sched_inv_def)
  show "t \<noteq> current s" using queues_okD(5)[OF q(1) assms(2)] q(2) by auto
  show "t \<noteq> idle s" using queues_okD(8)[OF q(1), of w] assms(2) by auto
  show "tid (threads s t) > 0" using queues_okD(11)[OF q(1) assms(2)] .
qed

lemma wait_wakeup_inv: "sched_inv s \<Longrightarrow> sched_inv (wait_wakeup w s)"
proof (cases "wait_queues s w")
  case (Cons t ts)
  assume inv: "sched_inv s"
  show ?thesis using sched_wakeup_inv[OF inv queued_not_current[OF inv, of t w]] Cons by (simp add: wait_wakeup_def)
qed (simp add: wait_wakeup_def)

lemma wait_wakeup_all_inv: "sched_inv s \<Longrightarrow> sched_inv (wait_wakeup_all w s)"
proof (induction w s rule: wait_wakeup_all.induct)
  case (1 w s)
  show ?case
  proof (cases "wait_queues s w")
    case (Cons t ts)
    then have "sched_inv (sched_wakeup t s)"
      using queued_not_current[OF "1.prems", of t w] by (intro sched_wakeup_inv[OF "1.prems"]) auto
    then show ?thesis using "1.IH"[OF Cons] Cons by (subst wait_wakeup_all.simps) simp
  qed (use 1 in \<open>simp add: wait_wakeup_all.simps[of w s]\<close>)
qed

text \<open>\<^verbatim>\<open>wait_wakeup_all\<close> empties the queue; the last thread of it ends up first in the ready queue.\<close>

lemma wait_wakeup_all_queues:
  "sched_inv s \<Longrightarrow> wait_queues (wait_wakeup_all w s) w = [] \<and>
     ready_queue (wait_wakeup_all w s) = rev (wait_queues s w) @ ready_queue s"
proof (induction w s rule: wait_wakeup_all.induct)
  case (1 w s)
  show ?case
  proof (cases "wait_queues s w")
    case (Cons t ts)
    have q: "queues_ok s" using "1.prems" by (simp add: sched_inv_def sched_preD(1))
    have inv: "sched_inv (sched_wakeup t s)"
      using queued_not_current[OF "1.prems", of t w] Cons by (intro sched_wakeup_inv[OF "1.prems"]) auto
    have "t \<notin> set ts" using queues_okD(2)[OF q, of w] Cons by simp
    moreover have "t \<notin> set (ready_queue s)" using queues_okD(4)[OF q, of t] queues_okD(5)[OF q, of t w] Cons by auto
    ultimately show ?thesis using "1.IH"[OF Cons inv] Cons
      by (subst (1 2) wait_wakeup_all.simps) (simp add: filter_id)
  qed (simp add: wait_wakeup_all.simps[of w s])
qed

lemma wait_sleep_pre:
  assumes inv: "sched_inv s" and ni: "current s \<noteq> idle s"
  shows "sched_pre (wait_back w (current s) (upd_thread (current s) (\<lambda>th. th\<lparr>state := WAITING\<rparr>) s))" (is "sched_pre ?s")
proof -
  have pre: "sched_pre s" and run: "state (threads s (current s)) = RUNNING" using inv by (simp_all add: sched_inv_def)
  note q = sched_preD(1)[OF pre]
  have nq: "current s \<notin> set (ready_queue s)" "\<And>v. current s \<notin> set (wait_queues s v)"
    using current_not_ready[OF pre] queues_okD(5)[OF q] run by fastforce+
  have f: "ready_queue ?s = ready_queue s" "current ?s = current s" "idle ?s = idle s"
    "wait_queues ?s v = (if v = w then wait_queues s w @ [current s] else wait_queues s v)"
    "threads ?s = (threads s)(current s := (threads s (current s))\<lparr>state := WAITING\<rparr>)" for v
    using nq by (auto simp: wait_back_def Let_def filter_id)
  have "queues_ok ?s"
    unfolding queues_ok_def f
  proof (intro conjI allI impI ballI)
    fix u v :: nat assume "u \<noteq> v"
    then show "set (if u = w then wait_queues s w @ [current s] else wait_queues s u) \<inter>
        set (if v = w then wait_queues s w @ [current s] else wait_queues s v) = {}"
      using queues_okD(3)[OF q, of u v] nq(2)[of u] nq(2)[of v] by auto
  next
    fix u assume "u \<in> set (ready_queue s) \<or>
      (\<exists>v. u \<in> set (if v = w then wait_queues s w @ [current s] else wait_queues s v))"
    then have "u \<in> set (ready_queue s) \<or> u = current s \<or> (\<exists>v. u \<in> set (wait_queues s v))"
      by (auto split: if_splits)
    then show "0 < tid (((threads s)(current s := threads s (current s)\<lparr>state := WAITING\<rparr>)) u)"
      using queues_okD(10,11)[OF q, of u] sched_preD(6)[OF pre ni] by auto
  qed (use queues_okD[OF q] nq ni in \<open>auto split: if_splits\<close>)
  then show ?thesis
    using ni sched_preD(6,7)[OF pre ni] sched_preD(4)[OF pre] unfolding sched_pre_def f by auto
qed

section \<open>Runs of the scheduler\<close>

text \<open>A thread pointer is fresh when nothing refers to it yet.\<close>

definition fresh_thread :: "nat \<Rightarrow> kernel \<Rightarrow> bool" where
  "fresh_thread t s \<longleftrightarrow>
     t \<noteq> current s \<and> t \<noteq> idle s \<and> t \<notin> set (ready_queue s) \<and> (\<forall>w. t \<notin> set (wait_queues s w))"

inductive kstep :: "kernel \<Rightarrow> kernel \<Rightarrow> bool" where
  tick: "kstep s (schedule s)"
| sleep: "current s \<noteq> idle s \<Longrightarrow> kstep s (wait_sleep w s)"
| wake: "kstep s (wait_wakeup w s)"
| wake_all: "kstep s (wait_wakeup_all w s)"
| spawn: "fresh_thread t s \<Longrightarrow> kstep s (snd (kthread_create kp t s))"

definition running_ok :: "kernel \<Rightarrow> bool" where
  "running_ok s \<longleftrightarrow> sched_inv s \<and> preempt_disabled s \<le> 0 \<and> next_tid s > 0"

lemma upd_fresh_inv:
  assumes "sched_inv s" and "fresh_thread t s" and "state th = NEW"
  shows "sched_inv (s\<lparr>threads := (threads s)(t := th)\<rparr>)"
proof -
  have pre: "sched_pre s" using assms(1) by (simp add: sched_inv_def)
  note q = sched_preD(1)[OF pre]
  have f: "t \<noteq> current s" "t \<noteq> idle s" "t \<notin> set (ready_queue s)" "\<And>w. t \<notin> set (wait_queues s w)"
    using assms(2) by (auto simp: fresh_thread_def)
  have "queues_ok (s\<lparr>threads := (threads s)(t := th)\<rparr>)"
    unfolding queues_ok_def
  proof (intro conjI allI impI ballI)
    fix u assume "u \<in> set (ready_queue (s\<lparr>threads := (threads s)(t := th)\<rparr>)) \<or>
        (\<exists>w. u \<in> set (wait_queues (s\<lparr>threads := (threads s)(t := th)\<rparr>) w))"
    then show "0 < tid (threads (s\<lparr>threads := (threads s)(t := th)\<rparr>) u)"
      using queues_okD(10,11)[OF q, of u] f by auto
  next
    fix u assume "state (threads (s\<lparr>threads := (threads s)(t := th)\<rparr>) u) = READY"
    then show "u = idle (s\<lparr>threads := (threads s)(t := th)\<rparr>) \<or>
        u \<in> set (ready_queue (s\<lparr>threads := (threads s)(t := th)\<rparr>))"
      using queues_okD(6)[OF q, of u] assms(3) by (auto split: if_splits)
  qed (use queues_okD(1-5,7-9)[OF q] f in auto)
  moreover have "state (threads (s\<lparr>threads := (threads s)(t := th)\<rparr>) u) = RUNNING \<Longrightarrow> u = current s" for u
    using sched_preD(4)[OF pre, of u] assms(3) by (cases "u = t") simp_all
  moreover have "state (threads s (current s)) = RUNNING" using assms(1) by (simp add: sched_inv_def)
  ultimately show ?thesis using f sched_preD(6,7)[OF pre] by (intro sched_invI) simp_all
qed

lemma kthread_create_inv:
  assumes inv: "sched_inv s" and fr: "fresh_thread t s" and n: "next_tid s > 0"
  shows "sched_inv (snd (kthread_create kp t s))"
proof -
  define th where "th = (thread_init kp)\<lparr>prio := 5, tid := next_tid s, state := NEW, timeout := 5\<rparr>"
  let ?u = "upd_proc kp (\<lambda>p. p\<lparr>thread_list := t # thread_list p, nthreads := nthreads p + 1\<rparr>)
      (s\<lparr>next_tid := next_tid s + 1, threads := (threads s)(t := th)\<rparr>)"
  have "sched_inv (s\<lparr>threads := (threads s)(t := th)\<rparr>)" by (rule upd_fresh_inv[OF inv fr]) (simp add: th_def)
  then have "sched_inv ?u" by (rule sched_inv_cong) simp_all
  then have "sched_inv (sched_wakeup t ?u)"
    using fr n by (intro sched_wakeup_inv) (simp_all add: fresh_thread_def th_def)
  then show ?thesis
    by (simp add: kthread_create_def thread_spawn_def Let_def th_def thread_init_def)
qed

lemma schedule_other:
  "preempt_disabled (schedule s) = preempt_disabled s" "next_tid (schedule s) = next_tid s"
proof -
  have "preempt_disabled (switch_to old x) = preempt_disabled x" "next_tid (switch_to old x) = next_tid x" for old x
    by (simp_all add: switch_to_def Let_def)
  moreover have "preempt_disabled (pick_next x) = preempt_disabled x" "next_tid (pick_next x) = next_tid x" for x
    by (simp_all add: pick_next_def split: list.split)
  moreover have "preempt_disabled (requeue old x) = preempt_disabled x" "next_tid (requeue old x) = next_tid x"
    "preempt_disabled (retire old x) = preempt_disabled x" "next_tid (retire old x) = next_tid x" for old x
    by (simp_all add: requeue_def retire_def ready_back_def Let_def)
  ultimately show "preempt_disabled (schedule s) = preempt_disabled s" "next_tid (schedule s) = next_tid s"
    by (simp_all add: schedule_def Let_def)
qed

lemma wait_wakeup_all_other:
  "preempt_disabled (wait_wakeup_all w s) = preempt_disabled s \<and> next_tid (wait_wakeup_all w s) = next_tid s"
  by (induction w s rule: wait_wakeup_all.induct) (subst (1 2) wait_wakeup_all.simps, simp split: list.split)

lemma kstep_inv: "kstep s s' \<Longrightarrow> running_ok s \<Longrightarrow> running_ok s'"
proof (induction rule: kstep.induct)
  case (tick s)
  then show ?case using schedule_inv[of s] by (simp add: running_ok_def sched_inv_def schedule_other)
next
  case (sleep s w)
  then show ?case
    using schedule_inv[OF wait_sleep_pre, of s w]
    by (simp add: running_ok_def wait_sleep_def schedule_other wait_back_def Let_def)
next
  case (wake s w)
  then show ?case using wait_wakeup_inv[of s w]
    by (simp add: running_ok_def) (simp add: wait_wakeup_def split: list.split)
next
  case (wake_all s w)
  then show ?case using wait_wakeup_all_inv[of s w] by (simp add: running_ok_def wait_wakeup_all_other)
next
  case (spawn t s kp)
  then show ?case using kthread_create_inv[of s t kp]
    by (simp add: running_ok_def) (simp add: kthread_create_def thread_spawn_def Let_def)
qed

interpretation scheduler: invariant_system running_ok kstep running_ok
  by unfold_locales (auto intro: kstep_inv)

section \<open>Time slices\<close>

text \<open>While the running thread has time left, a tick only takes one unit from it.\<close>

lemma schedule_keep:
  assumes "sched_inv s" "preempt_disabled s \<le> 0" "timeout (threads s (current s)) > 0"
  shows "schedule s = upd_thread (current s) (\<lambda>th. th\<lparr>timeout := timeout th - 1\<rparr>) s"
  using assms by (simp add: schedule_def sched_inv_def Let_def)

lemma slice_end:
  assumes "sched_inv s" "preempt_disabled s \<le> 0" "timeout (threads s (current s)) \<le> int P"
  shows "\<exists>n\<le>P. let s' = (schedule ^^ n) s in sched_inv s' \<and> gives_up s' \<and> current s' = current s \<and>
      ready_queue s' = ready_queue s \<and> idle s' = idle s \<and> preempt_disabled s' = preempt_disabled s \<and>
      (\<forall>t. prio (threads s' t) = prio (threads s t))"
  using assms
proof (induction P arbitrary: s)
  case 0
  then show ?case by (intro exI[of _ 0]) (simp add: gives_up_def)
next
  case (Suc P)
  show ?case
  proof (cases "timeout (threads s (current s)) > 0")
    case False
    then show ?thesis using Suc.prems by (intro exI[of _ 0]) (simp add: gives_up_def)
  next
    case True
    note k = schedule_keep[OF Suc.prems(1,2) True]
    have inv: "sched_inv (schedule s)"
      using Suc.prems(1,2) by (intro schedule_inv) (simp_all add: sched_inv_def)
    have "timeout (threads (schedule s) (current (schedule s))) \<le> int P" "preempt_disabled (schedule s) \<le> 0"
      using Suc.prems(2,3) by (simp_all add: k)
    from Suc.IH[OF inv this(2,1)] obtain n where n: "n \<le> P"
      "let s' = (schedule ^^ n) (schedule s) in sched_inv s' \<and> gives_up s' \<and> current s' = current (schedule s) \<and>
        ready_queue s' = ready_queue (schedule s) \<and> idle s' = idle (schedule s) \<and>
        preempt_disabled s' = preempt_disabled (schedule s) \<and>
        (\<forall>t. prio (threads s' t) = prio (threads (schedule s) t))" by blast
    then show ?thesis by (intro exI[of _ "Suc n"]) (simp add: funpow_swap1 k Let_def)
  qed
qed

lemma schedule_liveness_aux:
  assumes "sched_inv s" "preempt_disabled s \<le> 0" "timeout (threads s (current s)) \<le> int P"
    "\<forall>t. prio (threads s t) \<le> int P" "k < length (ready_queue s)"
  shows "\<exists>n\<le>(k + 1) * (P + 1). current ((schedule ^^ n) s) = ready_queue s ! k"
  using assms
proof (induction k arbitrary: s)
  case (0 s)
  obtain n where n: "n \<le> P" "let s' = (schedule ^^ n) s in sched_inv s' \<and> gives_up s' \<and> current s' = current s \<and>
      ready_queue s' = ready_queue s \<and> idle s' = idle s \<and> preempt_disabled s' = preempt_disabled s \<and>
      (\<forall>t. prio (threads s' t) = prio (threads s t))" using slice_end[OF 0(1-3)] by blast
  let ?s = "(schedule ^^ n) s"
  have "current (schedule ?s) = next_thread ?s"
    using n(2) by (intro schedule_switch) (simp_all add: Let_def sched_inv_def)
  also have "\<dots> = ready_queue s ! 0"
    using n(2) 0(5) by (cases "ready_queue s") (simp_all add: Let_def next_thread_def runnable_def)
  finally show ?case using n(1) by (intro exI[of _ "Suc n"]) simp
next
  case (Suc k s)
  obtain n where n: "n \<le> P" "let s' = (schedule ^^ n) s in sched_inv s' \<and> gives_up s' \<and> current s' = current s \<and>
      ready_queue s' = ready_queue s \<and> idle s' = idle s \<and> preempt_disabled s' = preempt_disabled s \<and>
      (\<forall>t. prio (threads s' t) = prio (threads s t))" using slice_end[OF Suc.prems(1-3)] by blast
  let ?s = "(schedule ^^ n) s"
  have s: "sched_pre ?s" "gives_up ?s" "ready_queue ?s = ready_queue s" "preempt_disabled ?s \<le> 0"
    "\<And>t. prio (threads ?s t) \<le> int P"
    using n(2) Suc.prems(2,4) by (simp_all add: Let_def sched_inv_def)
  note sw = schedule_switch[OF s(1,2)]
  have ne: "runnable ?s \<noteq> []" using Suc.prems(5) s(3) by (auto simp: runnable_def)
  have q: "k < length (ready_queue (schedule ?s))" "ready_queue (schedule ?s) ! k = ready_queue s ! Suc k"
    using Suc.prems(5) s(3) by (cases "ready_queue s"; simp add: sw runnable_def nth_append)+
  have "\<exists>m\<le>(k + 1) * (P + 1). current ((schedule ^^ m) (schedule ?s)) = ready_queue (schedule ?s) ! k"
  proof (rule Suc.IH)
    show "sched_inv (schedule ?s)" using s by (intro schedule_inv)
    show "timeout (threads (schedule ?s) (current (schedule ?s))) \<le> int P" using ne s(5) by (simp add: sw)
  qed (use s q in \<open>simp_all add: sw\<close>)
  then obtain m where m: "m \<le> (k + 1) * (P + 1)" "current ((schedule ^^ m) (schedule ?s)) = ready_queue s ! Suc k"
    using q(2) by auto
  have "(schedule ^^ (m + Suc n)) s = (schedule ^^ m) (schedule ?s)" by (simp add: funpow_add funpow_swap1)
  then show ?case using m n(1) by (intro exI[of _ "m + Suc n"]) (simp add: algebra_simps)
qed

section \<open>Properties\<close>

text \<open>C5. In every state reached from the initialised scheduler by timer ticks, sleeps on wait queues,
  wake-ups of one or all sleepers and creation of kernel threads: the current thread is the one and only
  running thread, the ready queue holds exactly the threads that are ready (the idle thread apart), every
  thread on a wait queue is waiting, and no thread is on two queues or twice on one.\<close>

theorem scheduler_invariant:
  assumes "kstep\<^sup>*\<^sup>* ((sched_init kp t boot)\<lparr>preempt_disabled := 0\<rparr>) s"
  shows "(\<forall>u. state (threads s u) = RUNNING \<longleftrightarrow> u = current s) \<and>
     (\<forall>u. u \<noteq> idle s \<longrightarrow> (state (threads s u) = READY \<longleftrightarrow> u \<in> set (ready_queue s))) \<and>
     distinct (ready_queue s) \<and> idle s \<notin> set (ready_queue s) \<and>
     (\<forall>w. distinct (wait_queues s w) \<and> (\<forall>u\<in>set (wait_queues s w). state (threads s u) = WAITING)) \<and>
     (\<forall>w v. w \<noteq> v \<longrightarrow> set (wait_queues s w) \<inter> set (wait_queues s v) = {})"
proof -
  let ?z = "(sched_init kp t boot)\<lparr>preempt_disabled := 0\<rparr>"
  have "queues_ok ?z" by (auto simp: queues_ok_def sched_init_def boot_def thread_init_def Let_def)
  then have "sched_inv ?z"
    by (rule sched_invI) (auto simp: sched_init_def boot_def thread_init_def Let_def split: if_splits)
  then have "running_ok ?z" by (simp add: running_ok_def sched_init_def boot_def Let_def)
  with assms have "running_ok s" by (rule scheduler.reachable_inv[rotated])
  then have inv: "sched_inv s" by (simp add: running_ok_def)
  then have pre: "sched_pre s" by (simp add: sched_inv_def)
  note q = sched_preD(1)[OF pre]
  show ?thesis
  proof (intro conjI allI impI ballI iffI)
    show "state (threads s u) = RUNNING" if "u = current s" for u using inv that by (simp add: sched_inv_def)
    show "u = current s" if "state (threads s u) = RUNNING" for u using sched_preD(4)[OF pre that] .
    show "u \<in> set (ready_queue s)" if "u \<noteq> idle s" "state (threads s u) = READY" for u
      using queues_okD(6)[OF q that(2)] that(1) by blast
  qed (use queues_okD[OF q] in auto)
qed

theorem scheduler_invariant_witness:
  "let s = snd (kthread_create 7 1 ((sched_init 7 0 boot)\<lparr>preempt_disabled := 0\<rparr>))
   in distinct (ready_queue s) \<and> ready_queue s = [1] \<and> state (threads s 0) = RUNNING"
proof -
  let ?z = "(sched_init 7 0 boot)\<lparr>preempt_disabled := 0\<rparr>"
  let ?s = "snd (kthread_create 7 1 ?z)"
  have "kstep ?z ?s" by (rule kstep.spawn) (simp add: fresh_thread_def sched_init_def boot_def Let_def)
  then have "kstep\<^sup>*\<^sup>* ?z ?s" by blast
  from scheduler_invariant[OF this] have d: "distinct (ready_queue ?s)" by blast
  have "ready_queue ?s = [1]" "state (threads ?s 0) = RUNNING"
    by (simp_all add: kthread_create_def thread_spawn_def sched_init_def boot_def thread_init_def Let_def)
  with d show ?thesis by (simp add: Let_def)
qed

text \<open>C17. Bounded waiting under timer ticks: when the time slices of all threads are at most P, the thread
  at position k of the ready queue runs after at most (k + 1)(P + 1) ticks, provided nothing is woken
  up in the meantime (a woken thread goes to the front of the queue).\<close>

theorem schedule_liveness:
  assumes "sched_inv s" and "preempt_disabled s \<le> 0" and "timeout (threads s (current s)) \<le> int P"
    and "\<forall>t. prio (threads s t) \<le> int P" and "k < length (ready_queue s)"
  shows "\<exists>n\<le>(k + 1) * (P + 1). current ((schedule ^^ n) s) = ready_queue s ! k"
  using schedule_liveness_aux[OF assms] .

theorem schedule_liveness_witness:
  "\<exists>n\<le>12. current ((schedule ^^ n)
     (snd (kthread_create 7 2 (snd (kthread_create 7 1 ((sched_init 7 0 boot)\<lparr>preempt_disabled := 0\<rparr>)))))) = 1"
proof -
  let ?z = "(sched_init 7 0 boot)\<lparr>preempt_disabled := 0\<rparr>"
  let ?y = "snd (kthread_create 7 1 ?z)"
  let ?s = "snd (kthread_create 7 2 ?y)"
  have "queues_ok ?z" by (auto simp: queues_ok_def sched_init_def boot_def thread_init_def Let_def)
  then have i0: "sched_inv ?z"
    by (rule sched_invI) (auto simp: sched_init_def boot_def thread_init_def Let_def split: if_splits)
  have i1: "sched_inv ?y"
    by (rule kthread_create_inv[OF i0]) (simp_all add: fresh_thread_def sched_init_def boot_def Let_def)
  note ev = kthread_create_def thread_spawn_def sched_init_def boot_def thread_init_def Let_def
  have i2: "sched_inv ?s"
    by (rule kthread_create_inv[OF i1]) (simp_all add: fresh_thread_def ev)
  have "\<exists>n\<le>(1 + 1) * (5 + 1). current ((schedule ^^ n) ?s) = ready_queue ?s ! 1"
    by (rule schedule_liveness[OF i2]) (simp_all add: ev)
  then show ?thesis by (simp add: ev)
qed

end
