(* ===== verification/Locks.thy ===== *)
theory Locks
  imports Prelude
begin

text \<open>
  The sleeping locks: \<^verbatim>\<open>kernel/mutex.c\<close>, \<^verbatim>\<open>kernel/sem.c\<close>, \<^verbatim>\<open>kernel/rwlock.c\<close>. Between two sleeps a call
  runs under the spinlock of the lock, so each such stretch is one step. A wait queue is the list of
  sleeping threads: \<^verbatim>\<open>wait_sleep\<close> appends the caller, \<^verbatim>\<open>wait_wakeup\<close> takes the first one off. A thread's
  phase says where it is in its call. The kernel can also wake a sleeper for another reason
  (\<^verbatim>\<open>sys_exit\<close> wakes a parent by its \<^verbatim>\<open>waitpid\<close> field whatever queue it is on), so every protocol has a
  step that wakes any sleeper.
\<close>

section \<open>Phases\<close>

datatype phase = Out | Holds | Excl | Asleep | Woken | AsleepW | WokenW

definition count :: "phase set \<Rightarrow> (nat \<Rightarrow> phase) \<Rightarrow> int" where
  "count S ph = int (card {t. ph t \<in> S})"

definition finite_phases :: "(nat \<Rightarrow> phase) \<Rightarrow> bool" where
  "finite_phases ph \<longleftrightarrow> finite {t. ph t \<noteq> Out}"

lemma finite_phases_upd [simp]: "finite_phases ph \<Longrightarrow> finite_phases (ph(t := x))"
  unfolding finite_phases_def by (rule finite_subset[of _ "insert t {t. ph t \<noteq> Out}"]) auto

lemma count_upd:
  assumes "finite_phases ph" "Out \<notin> S"
  shows "count S (ph(t := x)) = count S ph - (if ph t \<in> S then 1 else 0) + (if x \<in> S then 1 else 0)"
proof -
  let ?A = "{u. ph u \<in> S}"
  have fin: "finite ?A" using assms unfolding finite_phases_def by (rule_tac finite_subset) auto
  have "{u. (ph(t := x)) u \<in> S} = (if x \<in> S then insert t (?A - {t}) else ?A - {t})" by auto
  moreover have "int (card (?A - {t})) = int (card ?A) - (if ph t \<in> S then 1 else 0)"
  proof (cases "ph t \<in> S")
    case True
    then have "t \<in> ?A" by simp
    then have "card ?A > 0" using fin card_gt_0_iff by blast
    then show ?thesis using True fin by (simp add: card_Diff_singleton of_nat_diff)
  qed simp
  moreover have "card (insert t (?A - {t})) = Suc (card (?A - {t}))" using fin by (intro card_insert_disjoint) auto
  ultimately show ?thesis unfolding count_def by (simp del: insert_Diff_single)
qed

lemma count_nonneg: "count S ph \<ge> 0"
  by (simp add: count_def)

lemma count_pos:
  assumes "finite_phases ph" "Out \<notin> S"
  shows "count S ph > 0 \<longleftrightarrow> (\<exists>t. ph t \<in> S)"
proof -
  have "finite {t. ph t \<in> S}" using assms unfolding finite_phases_def by (rule_tac finite_subset) auto
  then show ?thesis by (auto simp: count_def card_gt_0_iff)
qed

text \<open>Waking a set of threads.\<close>

definition wake :: "nat list \<Rightarrow> (nat \<Rightarrow> phase) \<Rightarrow> nat \<Rightarrow> phase" where
  "wake ws ph t =
     (if t \<in> set ws then (case ph t of Asleep \<Rightarrow> Woken | AsleepW \<Rightarrow> WokenW | p \<Rightarrow> p) else ph t)"

lemma wake_Nil [simp]: "wake [] ph = ph"
  by (simp add: wake_def fun_eq_iff)

lemma wake_Out [simp]: "wake ws ph t = Out \<longleftrightarrow> ph t = Out" "wake ws ph t = Holds \<longleftrightarrow> ph t = Holds"
  "wake ws ph t = Excl \<longleftrightarrow> ph t = Excl"
  by (auto simp: wake_def split: phase.splits)

lemma finite_phases_wake [simp]: "finite_phases (wake ws ph) \<longleftrightarrow> finite_phases ph"
  by (simp add: finite_phases_def)

lemma count_wake:
  "(Asleep \<in> S \<longleftrightarrow> Woken \<in> S) \<Longrightarrow> (AsleepW \<in> S \<longleftrightarrow> WokenW \<in> S) \<Longrightarrow> count S (wake ws ph) = count S ph"
proof -
  assume "Asleep \<in> S \<longleftrightarrow> Woken \<in> S" "AsleepW \<in> S \<longleftrightarrow> WokenW \<in> S"
  then have "wake ws ph t \<in> S \<longleftrightarrow> ph t \<in> S" for t by (cases "ph t") (simp_all add: wake_def)
  then show ?thesis by (simp add: count_def)
qed

lemma queue_head:
  assumes "set q = {t. ph t = p}" "distinct q" "q = w # rest"
  shows "ph w = p" "set rest = {u. ph u = p \<and> u \<noteq> w}"
  using assms by (auto simp: set_eq_iff)

section \<open>Mutex\<close>

record mutex =
  locked :: int
  waiters :: "nat list"

definition mutex_init :: mutex where
  "mutex_init = \<lparr>locked = 0, waiters = []\<rparr>"

text \<open>One round of the loop in \<^verbatim>\<open>mutex_lock\<close>: the lock is taken, or the thread goes to sleep.\<close>

definition mutex_lock :: "nat \<Rightarrow> mutex \<Rightarrow> bool \<times> mutex" where
  "mutex_lock t m = (if locked m \<noteq> 0 then (False, m\<lparr>waiters := waiters m @ [t]\<rparr>) else (True, m\<lparr>locked := 1\<rparr>))"

definition mutex_unlock :: "mutex \<Rightarrow> nat list \<times> mutex" where
  "mutex_unlock m = (take 1 (waiters m), m\<lparr>locked := 0, waiters := drop 1 (waiters m)\<rparr>)"

inductive mutex_step :: "mutex \<times> (nat \<Rightarrow> phase) \<Rightarrow> mutex \<times> (nat \<Rightarrow> phase) \<Rightarrow> bool" where
  lock: "ph t \<in> {Out, Woken} \<Longrightarrow> mutex_lock t m = (got, m') \<Longrightarrow>
    mutex_step (m, ph) (m', ph(t := if got then Holds else Asleep))"
| unlock: "ph t = Holds \<Longrightarrow> mutex_unlock m = (ws, m') \<Longrightarrow>
    mutex_step (m, ph) (m', wake ws (ph(t := Out)))"
| other: "ph t = Asleep \<Longrightarrow>
    mutex_step (m, ph) (m\<lparr>waiters := filter (\<lambda>u. u \<noteq> t) (waiters m)\<rparr>, ph(t := Woken))"

definition mutex_inv :: "mutex \<times> (nat \<Rightarrow> phase) \<Rightarrow> bool" where
  "mutex_inv s = (case s of (m, ph) \<Rightarrow>
     finite_phases ph \<and> count {Holds} ph = (if locked m \<noteq> 0 then 1 else 0) \<and>
     distinct (waiters m) \<and> set (waiters m) = {t. ph t = Asleep} \<and> (\<forall>t. ph t \<notin> {Excl, AsleepW, WokenW}) \<and>
     (locked m = 0 \<and> waiters m \<noteq> [] \<longrightarrow> count {Woken} ph > 0))"

lemma wake_one [simp]: "ph w = Asleep \<Longrightarrow> wake [w] ph = ph(w := Woken)" "ph w = AsleepW \<Longrightarrow> wake [w] ph = ph(w := WokenW)"
  by (auto simp: wake_def fun_eq_iff)

lemma mutex_step_inv: "mutex_step s s' \<Longrightarrow> mutex_inv s \<Longrightarrow> mutex_inv s'"
proof (induction rule: mutex_step.induct)
  case (lock ph t m got m')
  then show ?case by (auto simp: mutex_inv_def mutex_lock_def count_upd split: if_splits)
next
  case (unlock ph t m ws m')
  have pos: "count {Holds} ph > 0"
    using unlock.prems unlock.hyps(1) count_pos[of ph "{Holds}"] by (auto simp: mutex_inv_def)
  show ?case
  proof (cases "waiters m")
    case Nil
    then show ?thesis using unlock pos by (auto simp: mutex_inv_def mutex_unlock_def count_upd split: if_splits)
  next
    case (Cons w rest)
    have ws: "ws = [w]" "m' = m\<lparr>locked := 0, waiters := rest\<rparr>"
      using unlock.hyps(2) Cons by (auto simp: mutex_unlock_def)
    have q: "set (waiters m) = {t. ph t = Asleep}" "distinct (waiters m)"
      using unlock.prems by (simp_all add: mutex_inv_def)
    note aw' = queue_head[OF q Cons]
    have "w \<noteq> t" using aw'(1) unlock.hyps(1) by force
    note aw = aw'(1) this aw'(2)
    have nn: "count {Woken} ph \<ge> 0" by (rule count_nonneg)
    have wk: "wake ws (ph(t := Out)) = ph(t := Out, w := Woken)" using aw by (simp add: ws)
    have "distinct rest" "finite_phases ph" "count {Holds} ph = 1" "\<forall>t. ph t \<notin> {Excl, AsleepW, WokenW}"
      using unlock.prems Cons pos by (auto simp: mutex_inv_def split: if_splits)
    then show ?thesis using unlock.hyps(1) aw nn unfolding wk ws(2) mutex_inv_def prod.case
      by (simp add: count_upd) auto
  qed
next
  case (other ph t m)
  have "count {Woken} ph \<ge> 0" by (rule count_nonneg)
  then show ?case using other by (auto simp: mutex_inv_def count_upd split: if_splits)
qed

lemma count_Out [simp]: "Out \<notin> S \<Longrightarrow> count S (\<lambda>_. Out) = 0"
  by (simp add: count_def)

lemma finite_phases_Out [simp]: "finite_phases (\<lambda>_. Out)"
  by (simp add: finite_phases_def)

interpretation mutex: invariant_system "\<lambda>s. s = (mutex_init, \<lambda>_. Out)" mutex_step mutex_inv
  by unfold_locales (simp add: mutex_inv_def mutex_init_def, blast intro: mutex_step_inv)

lemma count_one:
  assumes "finite_phases ph" "Out \<notin> S" "count S ph \<le> 1" "ph t \<in> S" "ph u \<in> S"
  shows "t = u"
proof -
  have "finite {t. ph t \<in> S}" using assms(1,2) unfolding finite_phases_def by (rule_tac finite_subset) auto
  then show ?thesis using assms(3-5) card_le_Suc0_iff_eq[of "{t. ph t \<in> S}"] by (auto simp: count_def)
qed

section \<open>Semaphore\<close>

record sem =
  sem_value :: int
  sem_wait :: "nat list"

definition sem_init :: "int \<Rightarrow> sem" where
  "sem_init val = \<lparr>sem_value = val, sem_wait = []\<rparr>"

definition sem_acquire :: "nat \<Rightarrow> sem \<Rightarrow> bool \<times> sem" where
  "sem_acquire t s = (if sem_value s \<le> 0 then (False, s\<lparr>sem_wait := sem_wait s @ [t]\<rparr>) else (True, s\<lparr>sem_value := sem_value s - 1\<rparr>))"

definition sem_release :: "sem \<Rightarrow> nat list \<times> sem" where
  "sem_release s =
     (let s = s\<lparr>sem_value := sem_value s + 1\<rparr>
      in if sem_value s > 0 then (take 1 (sem_wait s), s\<lparr>sem_wait := drop 1 (sem_wait s)\<rparr>) else ([], s))"

text \<open>A thread that has acquired is \<open>Out\<close> again: anyone may release. The last component counts
  releases minus acquisitions.\<close>

inductive sem_step :: "sem \<times> (nat \<Rightarrow> phase) \<times> int \<Rightarrow> sem \<times> (nat \<Rightarrow> phase) \<times> int \<Rightarrow> bool" where
  acquire: "ph t \<in> {Out, Woken} \<Longrightarrow> sem_acquire t s = (got, s') \<Longrightarrow>
    sem_step (s, ph, n) (s', ph(t := if got then Out else Asleep), if got then n - 1 else n)"
| release: "sem_release s = (ws, s') \<Longrightarrow> sem_step (s, ph, n) (s', wake ws ph, n + 1)"
| other: "ph t = Asleep \<Longrightarrow>
    sem_step (s, ph, n) (s\<lparr>sem_wait := filter (\<lambda>u. u \<noteq> t) (sem_wait s)\<rparr>, ph(t := Woken), n)"

definition sem_inv :: "int \<Rightarrow> sem \<times> (nat \<Rightarrow> phase) \<times> int \<Rightarrow> bool" where
  "sem_inv val s = (case s of (s, ph, n) \<Rightarrow>
     finite_phases ph \<and> sem_value s \<ge> 0 \<and> sem_value s = val + n \<and>
     distinct (sem_wait s) \<and> set (sem_wait s) = {t. ph t = Asleep} \<and> (\<forall>t. ph t \<in> {Out, Asleep, Woken}) \<and>
     (sem_wait s \<noteq> [] \<longrightarrow> count {Woken} ph \<ge> sem_value s))"

lemma sem_step_inv: "sem_step s s' \<Longrightarrow> sem_inv val s \<Longrightarrow> sem_inv val s'"
proof (induction rule: sem_step.induct)
  case (acquire ph t s got s' n)
  have "count {Woken} ph > 0" if "ph t = Woken"
    using that acquire.prems count_pos[of ph "{Woken}"] by (auto simp: sem_inv_def)
  moreover have "count {Woken} ph \<ge> 0" by (rule count_nonneg)
  ultimately show ?case
    using acquire by (cases got) (auto simp: sem_inv_def sem_acquire_def count_upd split: if_splits)
next
  case (release s ws s' ph n)
  show ?case
  proof (cases "sem_wait s")
    case Nil
    then show ?thesis using release by (auto simp: sem_inv_def sem_release_def Let_def)
  next
    case (Cons w rest)
    have ws: "ws = [w]" "s' = s\<lparr>sem_value := sem_value s + 1, sem_wait := rest\<rparr>"
      using release Cons by (auto simp: sem_release_def sem_inv_def)
    have q: "set (sem_wait s) = {t. ph t = Asleep}" "distinct (sem_wait s)"
      using release.prems by (simp_all add: sem_inv_def)
    note aw = queue_head[OF q Cons]
    show ?thesis using release.prems Cons aw unfolding ws by (auto simp: sem_inv_def count_upd)
  qed
next
  case (other ph t s n)
  then show ?case by (auto simp: sem_inv_def count_upd)
qed

interpretation sem: invariant_system "\<lambda>s. val \<ge> 0 \<and> s = (sem_init val, \<lambda>_. Out, 0)" sem_step "sem_inv val" for val
  by unfold_locales (simp add: sem_inv_def sem_init_def, blast intro: sem_step_inv)

section \<open>Reader-writer lock\<close>

record rwlock =
  active :: int
  wr_count :: int
  rd_count :: int
  wr_wait :: "nat list"
  rd_wait :: "nat list"

definition rwlock_init :: rwlock where
  "rwlock_init = \<lparr>active = 0, wr_count = 0, rd_count = 0, wr_wait = [], rd_wait = []\<rparr>"

text \<open>The loop of \<^verbatim>\<open>rwlock_lock_shared\<close>, entered directly or after a sleep.\<close>

definition shared_loop :: "nat \<Rightarrow> rwlock \<Rightarrow> bool \<times> rwlock" where
  "shared_loop t rw =
     (if active rw < 0 then (False, rw\<lparr>rd_wait := rd_wait rw @ [t]\<rparr>)
      else (True, rw\<lparr>active := active rw + 1, rd_count := rd_count rw - 1\<rparr>))"

definition rwlock_lock_shared :: "nat \<Rightarrow> rwlock \<Rightarrow> bool \<times> rwlock" where
  "rwlock_lock_shared t rw =
     (let rw = rw\<lparr>rd_count := rd_count rw + 1\<rparr>
      in if wr_count rw > 0 then (False, rw\<lparr>rd_wait := rd_wait rw @ [t]\<rparr>) else shared_loop t rw)"

definition wake_writer :: "rwlock \<Rightarrow> nat list \<times> rwlock" where
  "wake_writer rw = (take 1 (wr_wait rw), rw\<lparr>wr_wait := drop 1 (wr_wait rw)\<rparr>)"

definition rwlock_unlock_shared :: "rwlock \<Rightarrow> nat list \<times> rwlock" where
  "rwlock_unlock_shared rw =
     (let rw = rw\<lparr>active := active rw - 1\<rparr> in if active rw = 0 then wake_writer rw else ([], rw))"

definition exclusive_loop :: "nat \<Rightarrow> rwlock \<Rightarrow> bool \<times> rwlock" where
  "exclusive_loop t rw =
     (if active rw \<noteq> 0 then (False, rw\<lparr>wr_wait := wr_wait rw @ [t]\<rparr>)
      else (True, rw\<lparr>wr_count := wr_count rw - 1, active := - 1\<rparr>))"

definition rwlock_lock_exclusive :: "nat \<Rightarrow> rwlock \<Rightarrow> bool \<times> rwlock" where
  "rwlock_lock_exclusive t rw = exclusive_loop t (rw\<lparr>wr_count := wr_count rw + 1\<rparr>)"

definition rwlock_unlock_exclusive :: "rwlock \<Rightarrow> nat list \<times> rwlock" where
  "rwlock_unlock_exclusive rw =
     (let rw = rw\<lparr>active := 0\<rparr>
      in if rd_count rw > 0 then (rd_wait rw, rw\<lparr>rd_wait := []\<rparr>) else wake_writer rw)"

definition rwlock_upgrade :: "nat \<Rightarrow> rwlock \<Rightarrow> bool \<times> rwlock" where
  "rwlock_upgrade t rw =
     (if active rw = 1 then (True, rw\<lparr>active := - 1\<rparr>)
      else exclusive_loop t (rw\<lparr>wr_count := wr_count rw + 1, active := active rw - 1\<rparr>))"

definition rwlock_downgrade :: "rwlock \<Rightarrow> nat list \<times> rwlock" where
  "rwlock_downgrade rw = (rd_wait rw, rw\<lparr>active := 1, rd_wait := []\<rparr>)"

inductive rw_step :: "rwlock \<times> (nat \<Rightarrow> phase) \<Rightarrow> rwlock \<times> (nat \<Rightarrow> phase) \<Rightarrow> bool" where
  lock_shared: "ph t = Out \<Longrightarrow> rwlock_lock_shared t rw = (got, rw') \<Longrightarrow>
    rw_step (rw, ph) (rw', ph(t := if got then Holds else Asleep))"
| resume_shared: "ph t = Woken \<Longrightarrow> shared_loop t rw = (got, rw') \<Longrightarrow>
    rw_step (rw, ph) (rw', ph(t := if got then Holds else Asleep))"
| unlock_shared: "ph t = Holds \<Longrightarrow> rwlock_unlock_shared rw = (ws, rw') \<Longrightarrow>
    rw_step (rw, ph) (rw', wake ws (ph(t := Out)))"
| lock_exclusive: "ph t = Out \<Longrightarrow> rwlock_lock_exclusive t rw = (got, rw') \<Longrightarrow>
    rw_step (rw, ph) (rw', ph(t := if got then Excl else AsleepW))"
| resume_exclusive: "ph t = WokenW \<Longrightarrow> exclusive_loop t rw = (got, rw') \<Longrightarrow>
    rw_step (rw, ph) (rw', ph(t := if got then Excl else AsleepW))"
| unlock_exclusive: "ph t = Excl \<Longrightarrow> rwlock_unlock_exclusive rw = (ws, rw') \<Longrightarrow>
    rw_step (rw, ph) (rw', wake ws (ph(t := Out)))"
| upgrade: "ph t = Holds \<Longrightarrow> rwlock_upgrade t rw = (got, rw') \<Longrightarrow>
    rw_step (rw, ph) (rw', ph(t := if got then Excl else AsleepW))"
| downgrade: "ph t = Excl \<Longrightarrow> rwlock_downgrade rw = (ws, rw') \<Longrightarrow>
    rw_step (rw, ph) (rw', wake ws (ph(t := Holds)))"
| other_shared: "ph t = Asleep \<Longrightarrow>
    rw_step (rw, ph) (rw\<lparr>rd_wait := filter (\<lambda>u. u \<noteq> t) (rd_wait rw)\<rparr>, ph(t := Woken))"
| other_exclusive: "ph t = AsleepW \<Longrightarrow>
    rw_step (rw, ph) (rw\<lparr>wr_wait := filter (\<lambda>u. u \<noteq> t) (wr_wait rw)\<rparr>, ph(t := WokenW))"

definition rw_inv :: "rwlock \<times> (nat \<Rightarrow> phase) \<Rightarrow> bool" where
  "rw_inv s = (case s of (rw, ph) \<Rightarrow>
     finite_phases ph \<and>
     (count {Excl} ph = 0 \<and> active rw = count {Holds} ph \<or>
      count {Excl} ph = 1 \<and> count {Holds} ph = 0 \<and> active rw = - 1) \<and>
     rd_count rw = count {Asleep, Woken} ph \<and> wr_count rw = count {AsleepW, WokenW} ph \<and>
     distinct (rd_wait rw) \<and> set (rd_wait rw) = {t. ph t = Asleep} \<and>
     distinct (wr_wait rw) \<and> set (wr_wait rw) = {t. ph t = AsleepW} \<and>
     (active rw \<ge> 0 \<and> rd_wait rw \<noteq> [] \<longrightarrow> wr_count rw > 0) \<and>
     (active rw = 0 \<and> wr_count rw > 0 \<longrightarrow> count {Woken, WokenW} ph > 0))"

lemma rw_invD:
  assumes "rw_inv (rw, ph)"
  shows "finite_phases ph"
    "count {Excl} ph = 0 \<and> active rw = count {Holds} ph \<or>
     count {Excl} ph = 1 \<and> count {Holds} ph = 0 \<and> active rw = - 1"
    "rd_count rw = count {Asleep, Woken} ph" "wr_count rw = count {AsleepW, WokenW} ph"
    "distinct (rd_wait rw)" "set (rd_wait rw) = {t. ph t = Asleep}"
    "distinct (wr_wait rw)" "set (wr_wait rw) = {t. ph t = AsleepW}"
    "active rw \<ge> 0 \<Longrightarrow> rd_wait rw \<noteq> [] \<Longrightarrow> wr_count rw > 0"
    "active rw = 0 \<Longrightarrow> wr_count rw > 0 \<Longrightarrow> count {Woken, WokenW} ph > 0"
  using assms unfolding rw_inv_def by auto

lemma rw_invI:
  assumes "finite_phases ph"
    "count {Excl} ph = 0 \<and> active rw = count {Holds} ph \<or>
     count {Excl} ph = 1 \<and> count {Holds} ph = 0 \<and> active rw = - 1"
    "rd_count rw = count {Asleep, Woken} ph" "wr_count rw = count {AsleepW, WokenW} ph"
    "distinct (rd_wait rw)" "set (rd_wait rw) = {t. ph t = Asleep}"
    "distinct (wr_wait rw)" "set (wr_wait rw) = {t. ph t = AsleepW}"
    "active rw \<ge> 0 \<Longrightarrow> rd_wait rw \<noteq> [] \<Longrightarrow> wr_count rw > 0"
    "active rw = 0 \<Longrightarrow> wr_count rw > 0 \<Longrightarrow> count {Woken, WokenW} ph > 0"
  shows "rw_inv (rw, ph)"
  using assms unfolding rw_inv_def by simp

lemma count_mono: "finite_phases ph \<Longrightarrow> Out \<notin> T \<Longrightarrow> S \<subseteq> T \<Longrightarrow> count S ph \<le> count T ph"
  unfolding count_def finite_phases_def of_nat_le_iff
  by (rule card_mono, rule finite_subset[of _ "{t. ph t \<noteq> Out}"]) auto

lemma wake_all:
  assumes "set ws = {t. ph t = Asleep}"
  shows "wake ws ph = (\<lambda>t. if ph t = Asleep then Woken else ph t)"
  using assms by (auto simp: wake_def fun_eq_iff)

lemma count_wake_all:
  assumes "set ws = {t. ph t = Asleep}"
  shows "count {Woken, WokenW} (wake ws ph) = count {Asleep, Woken, WokenW} ph"
    "{t. wake ws ph t = Asleep} = {}" "{t. wake ws ph t = AsleepW} = {t. ph t = AsleepW}"
  unfolding wake_all[OF assms] count_def
  by (auto intro!: arg_cong[of _ _ card])

text \<open>Going to sleep or taking the lock, for a reader and for a writer that are already counted.\<close>

lemma shared_loop_inv:
  assumes inv: "rw_inv (rw, ph)" and t: "ph t = Woken" and l: "shared_loop t rw = (got, rw')"
  shows "rw_inv (rw', ph(t := if got then Holds else Asleep))"
proof -
  note d = rw_invD[OF inv]
  have nn: "count {Holds} ph \<ge> 0" by (rule count_nonneg)
  show ?thesis
  proof (cases "active rw < 0")
    case True
    then show ?thesis using l t d(1-8) nn by (intro rw_invI) (auto simp: shared_loop_def count_upd)
  next
    case False
    then show ?thesis
      using l t d nn by (intro rw_invI) (auto simp: shared_loop_def count_upd split: if_splits)
  qed
qed

lemma exclusive_loop_inv:
  assumes inv: "rw_inv (rw, ph)" and t: "ph t = WokenW" and l: "exclusive_loop t rw = (got, rw')"
  shows "rw_inv (rw', ph(t := if got then Excl else AsleepW))"
proof -
  note d = rw_invD[OF inv]
  have nn: "count {Holds} ph \<ge> 0" by (rule count_nonneg)
  show ?thesis
  proof (cases "active rw = 0")
    case False
    then show ?thesis using l t d(1-9) by (intro rw_invI) (auto simp: exclusive_loop_def count_upd)
  next
    case True
    then show ?thesis using l t d nn by (intro rw_invI) (auto simp: exclusive_loop_def count_upd)
  qed
qed

lemma wake_writer_inv:
  assumes d: "finite_phases ph" "count {Excl} ph = 0" "active rw = 0" "count {Holds} ph = 0"
    "rd_count rw = count {Asleep, Woken} ph" "wr_count rw = count {AsleepW, WokenW} ph"
    "distinct (rd_wait rw)" "set (rd_wait rw) = {t. ph t = Asleep}"
    "distinct (wr_wait rw)" "set (wr_wait rw) = {t. ph t = AsleepW}"
    "rd_wait rw \<noteq> [] \<Longrightarrow> wr_count rw > 0"
    and w: "wake_writer rw = (ws, rw')"
  shows "rw_inv (rw', wake ws ph)"
proof (cases "wr_wait rw")
  case Nil
  then have e: "ws = []" "rw' = rw\<lparr>wr_wait := []\<rparr>" using w by (simp_all add: wake_writer_def)
  have "count {AsleepW, WokenW} ph \<le> count {Woken, WokenW} ph"
  proof -
    have "{t. ph t \<in> {AsleepW, WokenW}} = {t. ph t \<in> {WokenW}}" using d(10) Nil by auto
    then have "count {AsleepW, WokenW} ph = count {WokenW} ph" unfolding count_def by presburger
    then show ?thesis using count_mono[OF d(1), of "{Woken, WokenW}" "{WokenW}"] by simp
  qed
  then show ?thesis using d Nil unfolding e wake_Nil by (intro rw_invI) simp_all
next
  case (Cons x rest)
  then have e: "ws = [x]" "rw' = rw\<lparr>wr_wait := rest\<rparr>" using w by (simp_all add: wake_writer_def)
  note q = queue_head[OF d(10,9) Cons]
  have "count {Woken, WokenW} ph \<ge> 0" by (rule count_nonneg)
  then show ?thesis using d Cons q unfolding e by (intro rw_invI) (auto simp: count_upd)
qed

lemma rw_step_inv: "rw_step s s' \<Longrightarrow> rw_inv s \<Longrightarrow> rw_inv s'"
proof (induction rule: rw_step.induct)
  case (lock_shared ph t rw got rw')
  note d = rw_invD[OF lock_shared.prems]
  have nn: "count {Holds} ph \<ge> 0" by (rule count_nonneg)
  show ?case
  proof (cases "wr_count rw > 0 \<or> active rw < 0")
    case True
    then show ?thesis using lock_shared.hyps d nn
      by (intro rw_invI) (auto simp: rwlock_lock_shared_def shared_loop_def count_upd Let_def split: if_splits)
  next
    case False
    then show ?thesis using lock_shared.hyps d nn
      by (intro rw_invI) (auto simp: rwlock_lock_shared_def shared_loop_def count_upd Let_def)
  qed
next
  case (resume_shared ph t rw got rw')
  then show ?case by (intro shared_loop_inv)
next
  case (unlock_shared ph t rw ws rw')
  note d = rw_invD[OF unlock_shared.prems]
  have pos: "count {Holds} ph > 0" using count_pos[OF d(1), of "{Holds}"] unlock_shared.hyps(1) by auto
  let ?rw = "rw\<lparr>active := active rw - 1\<rparr>"
  have ph: "{u. (ph(t := Out)) u = Asleep} = {u. ph u = Asleep}" "{u. (ph(t := Out)) u = AsleepW} = {u. ph u = AsleepW}"
    using unlock_shared.hyps(1) by auto
  show ?case
  proof (cases "active rw = 1")
    case True
    then have "wake_writer ?rw = (ws, rw')" using unlock_shared.hyps(2) by (simp add: rwlock_unlock_shared_def)
    then show ?thesis
      by (rule wake_writer_inv[rotated -1]) (use d pos True unlock_shared.hyps(1) ph in \<open>auto simp: count_upd\<close>)
  next
    case False
    then have e: "ws = []" "rw' = ?rw" using unlock_shared.hyps(2) by (auto simp: rwlock_unlock_shared_def Let_def)
    show ?thesis unfolding e wake_Nil
      by (rule rw_invI) (use d pos False unlock_shared.hyps(1) ph in \<open>auto simp: count_upd\<close>)
  qed
next
  case (lock_exclusive ph t rw got rw')
  note d = rw_invD[OF lock_exclusive.prems]
  have nn: "count {AsleepW, WokenW} ph \<ge> 0" "count {Holds} ph \<ge> 0" by (rule count_nonneg)+
  show ?case using lock_exclusive.hyps d nn
    by (intro rw_invI) (auto simp: rwlock_lock_exclusive_def exclusive_loop_def count_upd split: if_splits)
next
  case (resume_exclusive ph t rw got rw')
  then show ?case by (intro exclusive_loop_inv)
next
  case (unlock_exclusive ph t rw ws rw')
  note d = rw_invD[OF unlock_exclusive.prems]
  have pos: "count {Excl} ph > 0" using count_pos[OF d(1), of "{Excl}"] unlock_exclusive.hyps(1) by auto
  let ?rw = "rw\<lparr>active := 0\<rparr>" and ?ph = "ph(t := Out)"
  have ph: "{u. ?ph u = Asleep} = {u. ph u = Asleep}" "{u. ?ph u = AsleepW} = {u. ph u = AsleepW}"
    using unlock_exclusive.hyps(1) by auto
  show ?case
  proof (cases "rd_count rw > 0")
    case True
    then have e: "ws = rd_wait rw" "rw' = ?rw\<lparr>rd_wait := []\<rparr>"
      using unlock_exclusive.hyps(2) by (auto simp: rwlock_unlock_exclusive_def Let_def)
    have ws: "set ws = {u. ?ph u = Asleep}" using d(6) e(1) ph(1) by simp
    have "count {Asleep, Woken, WokenW} ph \<ge> count {Asleep, Woken} ph" by (rule count_mono[OF d(1)]) auto
    then have "count {Woken, WokenW} (wake ws ?ph) > 0"
      using True d(1,3) unlock_exclusive.hyps(1) by (simp add: count_wake_all[of ws ?ph, OF ws] count_upd)
    then show ?thesis unfolding e(2)
      by (intro rw_invI) (use d pos unlock_exclusive.hyps(1) ph in
          \<open>auto simp: count_upd count_wake count_wake_all[of ws ?ph, OF ws]\<close>)
  next
    case False
    then have "wake_writer ?rw = (ws, rw')" using unlock_exclusive.hyps(2) by (simp add: rwlock_unlock_exclusive_def Let_def)
    moreover have "rd_wait rw = []"
    proof -
      have "count {Asleep, Woken} ph = 0" using False d(3) count_nonneg[of "{Asleep, Woken}" ph] by linarith
      then have "\<not> (\<exists>u. ph u \<in> {Asleep, Woken})" using count_pos[OF d(1), of "{Asleep, Woken}"] by auto
      then have "set (rd_wait rw) = {}" unfolding d(6) by blast
      then show ?thesis by simp
    qed
    ultimately show ?thesis
      by (intro wake_writer_inv[of _ ?rw]) (use d pos unlock_exclusive.hyps(1) ph in \<open>auto simp: count_upd\<close>)
  qed
next
  case (upgrade ph t rw got rw')
  note d = rw_invD[OF upgrade.prems]
  have pos: "count {Holds} ph > 0" using count_pos[OF d(1), of "{Holds}"] upgrade.hyps(1) by auto
  have nn: "count {AsleepW, WokenW} ph \<ge> 0" by (rule count_nonneg)
  show ?case
    by (intro rw_invI) (use d pos nn upgrade.hyps in
        \<open>auto simp: rwlock_upgrade_def exclusive_loop_def count_upd split: if_splits\<close>)
next
  case (downgrade ph t rw ws rw')
  note d = rw_invD[OF downgrade.prems]
  have pos: "count {Excl} ph > 0" using count_pos[OF d(1), of "{Excl}"] downgrade.hyps(1) by auto
  have e: "ws = rd_wait rw" "rw' = rw\<lparr>active := 1, rd_wait := []\<rparr>"
    using downgrade.hyps(2) by (auto simp: rwlock_downgrade_def)
  let ?ph = "ph(t := Holds)"
  have ph: "{u. ?ph u = Asleep} = {u. ph u = Asleep}" "{u. ?ph u = AsleepW} = {u. ph u = AsleepW}"
    using downgrade.hyps(1) by auto
  have ws: "set ws = {u. ?ph u = Asleep}" using d(6) e(1) ph(1) by simp
  show ?case unfolding e(2)
    by (intro rw_invI) (use d pos downgrade.hyps(1) ph in \<open>auto simp: count_upd count_wake count_wake_all[of ws ?ph, OF ws]\<close>)
next
  case (other_shared ph t rw)
  note d = rw_invD[OF other_shared.prems]
  have nn: "count {Woken, WokenW} ph \<ge> 0" by (rule count_nonneg)
  have "rd_wait rw \<noteq> []" using d(6) other_shared.hyps by auto
  then show ?case
    by (intro rw_invI) (use d nn other_shared.hyps in \<open>auto simp: count_upd\<close>)
next
  case (other_exclusive ph t rw)
  note d = rw_invD[OF other_exclusive.prems]
  have nn: "count {Woken, WokenW} ph \<ge> 0" by (rule count_nonneg)
  show ?case by (intro rw_invI) (use d nn other_exclusive.hyps in \<open>auto simp: count_upd\<close>)
qed

interpretation rw: invariant_system "\<lambda>s. s = (rwlock_init, \<lambda>_. Out)" rw_step rw_inv
  by unfold_locales (simp add: rw_inv_def rwlock_init_def, blast intro: rw_step_inv)

section \<open>Properties\<close>

text \<open>C8. Mutex, in every interleaving of lock, unlock and stray wake-ups: at most one thread holds it, the
  flag is set exactly while it is held, the queue is exactly the sleeping threads, and no wake-up is
  lost: when the mutex is free and someone sleeps on it, some thread is on its way to take it, and its
  next attempt succeeds.\<close>

theorem mutex_correct:
  assumes "mutex_step\<^sup>*\<^sup>* (mutex_init, \<lambda>_. Out) (m, ph)"
  shows "(\<forall>t u. ph t = Holds \<and> ph u = Holds \<longrightarrow> t = u) \<and> (locked m \<noteq> 0 \<longleftrightarrow> (\<exists>t. ph t = Holds)) \<and>
     distinct (waiters m) \<and> set (waiters m) = {t. ph t = Asleep} \<and>
     (locked m = 0 \<and> waiters m \<noteq> [] \<longrightarrow> (\<exists>t. ph t = Woken \<and> fst (mutex_lock t m)))"
proof -
  have inv: "mutex_inv (m, ph)" using mutex.reachable_inv[OF refl assms] .
  then have f: "finite_phases ph" and c: "count {Holds} ph = (if locked m \<noteq> 0 then 1 else 0)"
    and w: "locked m = 0 \<and> waiters m \<noteq> [] \<longrightarrow> count {Woken} ph > 0" by (simp_all add: mutex_inv_def)
  have "t = u" if "ph t = Holds" "ph u = Holds" for t u
    using count_one[OF f, of "{Holds}" t u] c that by (simp split: if_splits)
  moreover have "locked m \<noteq> 0 \<longleftrightarrow> (\<exists>t. ph t = Holds)"
    using count_pos[OF f, of "{Holds}"] c by (auto split: if_splits)
  moreover have "locked m = 0 \<and> waiters m \<noteq> [] \<longrightarrow> (\<exists>t. ph t = Woken \<and> fst (mutex_lock t m))"
    using w count_pos[OF f, of "{Woken}"] by (auto simp: mutex_lock_def)
  ultimately show ?thesis using inv by (simp add: mutex_inv_def)
qed

theorem mutex_correct_witness:
  "\<exists>m ph. mutex_step\<^sup>*\<^sup>* (mutex_init, \<lambda>_. Out) (m, ph) \<and> locked m \<noteq> 0 \<and> (\<exists>t. ph t = Holds)"
proof -
  have "mutex_step (mutex_init, \<lambda>_. Out) (mutex_init\<lparr>locked := 1\<rparr>, (\<lambda>_. Out)(4 := if True then Holds else Asleep))"
    by (rule mutex_step.lock) (simp_all add: mutex_lock_def mutex_init_def)
  then have r: "mutex_step\<^sup>*\<^sup>* (mutex_init, \<lambda>_. Out) (mutex_init\<lparr>locked := 1\<rparr>, (\<lambda>_. Out)(4 := Holds))"
    by (simp add: r_into_rtranclp)
  have "\<exists>t. ((\<lambda>_. Out)(4 := Holds)) t = Holds" using mutex_correct[OF r] by simp
  with r show ?thesis by (metis mutex.select_convs(1) mutex.surjective mutex.update_convs(1) zero_neq_one)
qed

text \<open>C20. Semaphore: the value is the initial value plus releases minus acquisitions and never negative;
  while threads sleep on it, at least as many woken threads are on their way as there are units left, so
  no release is lost.\<close>

theorem sem_correct:
  assumes "val \<ge> 0" and "sem_step\<^sup>*\<^sup>* (sem_init val, \<lambda>_. Out, 0) (s, ph, n)"
  shows "sem_value s = val + n \<and> sem_value s \<ge> 0 \<and> set (sem_wait s) = {t. ph t = Asleep} \<and>
     (sem_wait s \<noteq> [] \<longrightarrow> int (card {t. ph t = Woken}) \<ge> sem_value s)"
proof -
  have "sem_inv val (s, ph, n)" using sem.reachable_inv[OF conjI[OF assms(1) refl] assms(2)] .
  then show ?thesis unfolding sem_inv_def count_def by auto
qed

theorem sem_correct_witness:
  "\<exists>s ph n. sem_step\<^sup>*\<^sup>* (sem_init 0, \<lambda>_. Out, 0) (s, ph, n) \<and> sem_wait s = [4] \<and> sem_value s = 0 + n"
proof -
  have "sem_step (sem_init 0, \<lambda>_. Out, 0) ((sem_init 0)\<lparr>sem_wait := [4]\<rparr>,
      (\<lambda>_. Out)(4 := if False then Out else Asleep), if False then 0 - 1 else 0)"
    by (rule sem_step.acquire) (simp_all add: sem_acquire_def sem_init_def)
  then have r: "sem_step\<^sup>*\<^sup>* (sem_init 0, \<lambda>_. Out, 0) ((sem_init 0)\<lparr>sem_wait := [4]\<rparr>, (\<lambda>_. Out)(4 := Asleep), 0)"
    by (simp add: r_into_rtranclp)
  have "sem_value ((sem_init 0)\<lparr>sem_wait := [4]\<rparr>) = 0 + 0" using sem_correct[OF _ r] by simp
  with r show ?thesis
    by (intro exI[of _ "(sem_init 0)\<lparr>sem_wait := [4]\<rparr>"] exI[of _ "(\<lambda>_. Out)(4 := Asleep)"] exI[of _ 0]) simp
qed

text \<open>C6. Reader-writer lock, in every interleaving of shared and exclusive locking, upgrades, downgrades,
  unlocks and stray wake-ups: a writer excludes every other writer and every reader; \<^verbatim>\<open>active\<close> is the
  number of readers or -1; the waiting counts are exact; and no wake-up is lost: when nobody holds the
  lock and somebody sleeps on it, some woken thread is on its way.\<close>

theorem rwlock_correct:
  assumes "rw_step\<^sup>*\<^sup>* (rwlock_init, \<lambda>_. Out) (rw, ph)"
  shows "(\<forall>t u. ph t = Excl \<and> ph u \<in> {Excl, Holds} \<longrightarrow> t = u) \<and>
     active rw = (if \<exists>t. ph t = Excl then - 1 else int (card {t. ph t = Holds})) \<and>
     rd_count rw = int (card {t. ph t \<in> {Asleep, Woken}}) \<and> wr_count rw = int (card {t. ph t \<in> {AsleepW, WokenW}}) \<and>
     ((\<forall>t. ph t \<notin> {Excl, Holds}) \<and> (\<exists>t. ph t \<in> {Asleep, AsleepW}) \<longrightarrow> (\<exists>t. ph t \<in> {Woken, WokenW}))"
proof -
  have inv: "rw_inv (rw, ph)" using rw.reachable_inv[OF refl assms] .
  note d = rw_invD[OF inv]
  note pos = count_pos[OF d(1)]
  have ex: "(\<exists>t. ph t = Excl) \<longleftrightarrow> count {Excl} ph = 1" using pos[of "{Excl}"] d(2) by auto
  have "t = u" if "ph t = Excl" "ph u \<in> {Excl, Holds}" for t u
  proof -
    have one: "count {Excl} ph = 1" "count {Holds} ph = 0" using ex that(1) d(2) by auto
    then have "ph u \<noteq> Holds" using pos[of "{Holds}"] by auto
    then show ?thesis using count_one[OF d(1), of "{Excl}" t u] one(1) that by auto
  qed
  moreover have "active rw = (if \<exists>t. ph t = Excl then - 1 else int (card {t. ph t = Holds}))"
    using ex d(2) by (auto simp: count_def)
  moreover have "\<exists>t. ph t \<in> {Woken, WokenW}"
    if "\<forall>t. ph t \<notin> {Excl, Holds}" "\<exists>t. ph t \<in> {Asleep, AsleepW}"
  proof -
    have z: "count {Excl} ph = 0" "count {Holds} ph = 0" using that(1) by (auto simp: count_def)
    then have a: "active rw = 0" using d(2) by auto
    have "wr_count rw > 0"
    proof (cases "\<exists>t. ph t = AsleepW")
      case True
      then show ?thesis using pos[of "{AsleepW, WokenW}"] d(4) by auto
    next
      case False
      then have "rd_wait rw \<noteq> []" using that(2) d(6) by auto
      then show ?thesis using d(9) a by simp
    qed
    then show ?thesis using d(10)[OF a] pos[of "{Woken, WokenW}"] by blast
  qed
  ultimately show ?thesis using d(3,4) by (auto simp: count_def)
qed

theorem rwlock_correct_witness:
  "\<exists>rw ph. rw_step\<^sup>*\<^sup>* (rwlock_init, \<lambda>_. Out) (rw, ph) \<and> ph 4 = Excl \<and> active rw = - 1"
proof -
  have "rw_step (rwlock_init, \<lambda>_. Out) (rwlock_init\<lparr>active := - 1\<rparr>, (\<lambda>_. Out)(4 := if True then Excl else AsleepW))"
    by (rule rw_step.lock_exclusive) (simp_all add: rwlock_lock_exclusive_def exclusive_loop_def rwlock_init_def)
  then have r: "rw_step\<^sup>*\<^sup>* (rwlock_init, \<lambda>_. Out) (rwlock_init\<lparr>active := - 1\<rparr>, (\<lambda>_. Out)(4 := Excl))"
    by (simp add: r_into_rtranclp)
  have "active (rwlock_init\<lparr>active := - 1\<rparr>) = - 1" using rwlock_correct[OF r] by auto
  with r show ?thesis
    by (intro exI[of _ "rwlock_init\<lparr>active := - 1\<rparr>"] exI[of _ "(\<lambda>_. Out)(4 := Excl)"]) simp
qed

end
