(* ===== verification/Pipe.thy ===== *)
theory Pipe
  imports Prelude
begin

text \<open>
  The data path of \<^verbatim>\<open>kernel/pipe.c\<close>: a ring buffer of \<^verbatim>\<open>PIPE_SIZE\<close> bytes with two wait queues. A call runs
  under the spinlock of the pipe until it returns or sleeps; after a sleep it continues at the head of
  its loop. Reading sleeps only before the first byte, so a resumed read starts anew; a resumed write goes
  on with the bytes that are left. Every operation also reports the threads it wakes.
\<close>

definition PIPE_SIZE :: nat where "PIPE_SIZE = 4096"

record pipe =
  in_ptr :: nat
  out_ptr :: nat
  buf :: "u8 list"
  refs :: int
  rd_wait :: "nat list"
  wr_wait :: "nat list"

datatype outcome = Returned | Sleeps

text \<open>The pipe made by \<^verbatim>\<open>sys_pipe\<close>.\<close>

definition pipe_new :: pipe where
  "pipe_new = \<lparr>in_ptr = 0, out_ptr = 0, buf = replicate PIPE_SIZE 0, refs = 2, rd_wait = [], wr_wait = []\<rparr>"

definition wakeup_rd :: "pipe \<Rightarrow> nat list \<times> pipe" where
  "wakeup_rd p = (take 1 (rd_wait p), p\<lparr>rd_wait := drop 1 (rd_wait p)\<rparr>)"

definition wakeup_wr :: "pipe \<Rightarrow> nat list \<times> pipe" where
  "wakeup_wr p = (take 1 (wr_wait p), p\<lparr>wr_wait := drop 1 (wr_wait p)\<rparr>)"

function pipe_read :: "nat \<Rightarrow> pipe \<Rightarrow> u8 list \<Rightarrow> nat \<Rightarrow> outcome \<times> u8 list \<times> nat list \<times> pipe" where
  "pipe_read t p done bufsz =
     (if length done < bufsz then
        if in_ptr p = out_ptr p then
          if refs p < 2 \<or> length done > 0 then (Returned, done, [], p)
          else (case wakeup_wr p of (ws, p) \<Rightarrow> (Sleeps, done, ws, p\<lparr>rd_wait := rd_wait p @ [t]\<rparr>))
        else pipe_read t (p\<lparr>out_ptr := (out_ptr p + 1) mod PIPE_SIZE\<rparr>) (done @ [buf p ! out_ptr p]) bufsz
      else (Returned, done, [], p))"
  by pat_completeness auto
termination
  by (relation "measure (\<lambda>(t, p, done, bufsz). bufsz - length done)") auto

text \<open>\<open>rest\<close> is what is left of the caller's buffer; the result carries what is left at the end.\<close>

fun pipe_write :: "nat \<Rightarrow> pipe \<Rightarrow> u8 list \<Rightarrow> outcome \<times> u8 list \<times> nat list \<times> pipe" where
  "pipe_write t p [] = (case wakeup_rd p of (ws, p) \<Rightarrow> (Returned, [], ws, p))"
| "pipe_write t p (b # rest) =
     (let tmp = (in_ptr p + 1) mod PIPE_SIZE
      in if tmp = out_ptr p then
           if refs p < 2 then (case wakeup_rd p of (ws, p) \<Rightarrow> (Returned, b # rest, ws, p))
           else (case wakeup_rd p of (ws, p) \<Rightarrow> (Sleeps, b # rest, ws, p\<lparr>wr_wait := wr_wait p @ [t]\<rparr>))
         else pipe_write t (p\<lparr>buf := (buf p)[in_ptr p := b], in_ptr := tmp\<rparr>) rest)"

definition pipe_free :: "pipe \<Rightarrow> pipe" where
  "pipe_free p = p\<lparr>refs := refs p - 1\<rparr>"

declare pipe_read.simps [simp del]

section \<open>The ring as a queue\<close>

definition used :: "pipe \<Rightarrow> nat" where
  "used p = (in_ptr p + PIPE_SIZE - out_ptr p) mod PIPE_SIZE"

definition contents :: "pipe \<Rightarrow> u8 list" where
  "contents p = map (\<lambda>i. buf p ! ((out_ptr p + i) mod PIPE_SIZE)) [0..<used p]"

definition pipe_wf :: "pipe \<Rightarrow> bool" where
  "pipe_wf p \<longleftrightarrow> in_ptr p < PIPE_SIZE \<and> out_ptr p < PIPE_SIZE \<and> length (buf p) = PIPE_SIZE"

lemma PIPE_SIZE_pos [simp]: "0 < PIPE_SIZE" "Suc 0 < PIPE_SIZE"
  by (simp_all add: PIPE_SIZE_def)

text \<open>Distances on the ring, by cases on whether the pointer wraps.\<close>

lemma mod_Suc_ring: "i < PIPE_SIZE \<Longrightarrow> Suc i mod PIPE_SIZE = (if Suc i = PIPE_SIZE then 0 else Suc i)"
  by auto

lemma used_cases:
  assumes "pipe_wf p"
  shows "used p = (if in_ptr p \<ge> out_ptr p then in_ptr p - out_ptr p else in_ptr p + PIPE_SIZE - out_ptr p)"
proof (cases "in_ptr p \<ge> out_ptr p")
  case True
  then have e: "in_ptr p + PIPE_SIZE - out_ptr p = (in_ptr p - out_ptr p) + PIPE_SIZE" by simp
  have "in_ptr p - out_ptr p < PIPE_SIZE" using assms by (simp add: pipe_wf_def less_imp_diff_less)
  then have "used p = in_ptr p - out_ptr p" unfolding used_def e by (metis mod_add_self2 mod_less)
  then show ?thesis using True by simp
next
  case False
  then have "in_ptr p + PIPE_SIZE - out_ptr p < PIPE_SIZE" using assms unfolding pipe_wf_def by linarith
  then show ?thesis using False by (simp add: used_def)
qed

lemma used_0: "pipe_wf p \<Longrightarrow> used p = 0 \<longleftrightarrow> in_ptr p = out_ptr p"
  by (auto simp: used_cases pipe_wf_def)

lemma take_front:
  assumes wf: "pipe_wf p" and ne: "in_ptr p \<noteq> out_ptr p"
    and p'_def: "p' = p\<lparr>out_ptr := (out_ptr p + 1) mod PIPE_SIZE\<rparr>"
  shows "pipe_wf p'" "contents p = buf p ! out_ptr p # contents p'"
proof -
  show wf': "pipe_wf p'" using wf by (simp add: p'_def pipe_wf_def)
  have o: "out_ptr p < PIPE_SIZE" and i: "in_ptr p < PIPE_SIZE" using wf by (simp_all add: pipe_wf_def)
  have u: "used p = Suc (used p')"
    unfolding used_cases[OF wf] used_cases[OF wf'] using o i ne by (auto simp: p'_def mod_Suc_ring)
  have "(out_ptr p + Suc k) mod PIPE_SIZE = (out_ptr p' + k) mod PIPE_SIZE" for k
    by (simp add: p'_def mod_simps)
  then show "contents p = buf p ! out_ptr p # contents p'"
    unfolding contents_def u upt_conv_Cons[OF zero_less_Suc] map_Suc_upt[symmetric]
    using o by (simp add: p'_def comp_def)
qed

lemma put_back:
  assumes wf: "pipe_wf p" and nf: "(in_ptr p + 1) mod PIPE_SIZE \<noteq> out_ptr p"
    and p'_def: "p' = p\<lparr>buf := (buf p)[in_ptr p := b], in_ptr := (in_ptr p + 1) mod PIPE_SIZE\<rparr>"
  shows "pipe_wf p'" "contents p' = contents p @ [b]"
proof -
  show wf': "pipe_wf p'" using wf by (simp add: p'_def pipe_wf_def)
  have o: "out_ptr p < PIPE_SIZE" and i: "in_ptr p < PIPE_SIZE" and l: "length (buf p) = PIPE_SIZE"
    using wf by (simp_all add: pipe_wf_def)
  have u: "used p' = Suc (used p)"
    unfolding used_cases[OF wf] used_cases[OF wf'] using o i nf by (auto simp: p'_def mod_Suc_ring split: if_splits)
  have last: "(out_ptr p + used p) mod PIPE_SIZE = in_ptr p"
    unfolding used_cases[OF wf] using o i by auto
  have other: "(out_ptr p + k) mod PIPE_SIZE \<noteq> in_ptr p" if "k < used p" for k
  proof -
    have k: "k < PIPE_SIZE" using that by (auto simp: used_def intro: less_trans)
    have m: "(out_ptr p + k) mod PIPE_SIZE = (if out_ptr p + k < PIPE_SIZE then out_ptr p + k else out_ptr p + k - PIPE_SIZE)"
      using o k by (simp add: le_mod_geq not_less)
    show ?thesis unfolding m using that o i k unfolding used_cases[OF wf] by (auto split: if_splits)
  qed
  show "contents p' = contents p @ [b]"
    unfolding contents_def u using last l i by (simp add: p'_def nth_list_update) (metis other atLeastLessThan_iff)
qed

lemma contents_cong:
  "in_ptr q = in_ptr p \<Longrightarrow> out_ptr q = out_ptr p \<Longrightarrow> buf q = buf p \<Longrightarrow> contents q = contents p \<and> (pipe_wf q \<longleftrightarrow> pipe_wf p)"
  by (simp add: contents_def used_def pipe_wf_def)

lemma contents_Nil: "pipe_wf p \<Longrightarrow> contents p = [] \<longleftrightarrow> in_ptr p = out_ptr p"
  using used_0[of p] by (simp add: contents_def)

lemma contents_full: "pipe_wf p \<Longrightarrow> (in_ptr p + 1) mod PIPE_SIZE = out_ptr p \<Longrightarrow> length (contents p) = PIPE_SIZE - 1"
  by (auto simp: contents_def used_cases pipe_wf_def mod_Suc_ring split: if_splits)

lemma contents_bound: "pipe_wf p \<Longrightarrow> length (contents p) < PIPE_SIZE"
  by (auto simp: contents_def used_def)

section \<open>The loops\<close>

lemma pipe_read_spec:
  assumes "pipe_wf p" and "pipe_read t p done bufsz = (oc, data, ws, p')"
  shows "pipe_wf p' \<and> refs p' = refs p \<and> (\<exists>d. data = done @ d \<and> contents p = d @ contents p' \<and>
      (oc = Sleeps \<longrightarrow> data = [] \<and> contents p = [] \<and> refs p \<ge> 2 \<and> t \<in> set (rd_wait p')) \<and>
      (oc = Returned \<longrightarrow> contents p' = [] \<or> length data \<ge> bufsz) \<and>
      (length done \<le> bufsz \<longrightarrow> length data \<le> bufsz))"
  using assms
proof (induction t p "done" bufsz rule: pipe_read.induct)
  case (1 t p "done" bufsz)
  show ?case
  proof (cases "length done < bufsz \<and> in_ptr p \<noteq> out_ptr p")
    case True
    define q where "q = p\<lparr>out_ptr := (out_ptr p + 1) mod PIPE_SIZE\<rparr>"
    note tf = take_front[OF "1.prems"(1) _ q_def]
    have r: "pipe_read t q (done @ [buf p ! out_ptr p]) bufsz = (oc, data, ws, p')"
      using "1.prems"(2) True pipe_read.simps[of t p "done" bufsz] by (simp add: q_def)
    from "1.IH"[folded q_def, OF _ _ tf(1) r] True obtain d where
      IH: "pipe_wf p'" "refs p' = refs p" "data = (done @ [buf p ! out_ptr p]) @ d" "contents q = d @ contents p'"
      "oc = Sleeps \<longrightarrow> data = [] \<and> contents q = [] \<and> refs q \<ge> 2 \<and> t \<in> set (rd_wait p')"
      "oc = Returned \<longrightarrow> contents p' = [] \<or> length data \<ge> bufsz"
      "length (done @ [buf p ! out_ptr p]) \<le> bufsz \<longrightarrow> length data \<le> bufsz" by (auto simp: q_def)
    have "contents p = (buf p ! out_ptr p # d) @ contents p'" using tf(2) True IH(4) by simp
    moreover have "data = done @ (buf p ! out_ptr p # d)" using IH(3) by simp
    ultimately show ?thesis using IH True by (intro conjI exI[of _ "buf p ! out_ptr p # d"]) auto
  next
    case False
    consider (full) "\<not> length done < bufsz" | (empty) "length done < bufsz" "in_ptr p = out_ptr p" using False by blast
    then show ?thesis
    proof cases
      case full
      then show ?thesis using "1.prems" pipe_read.simps[of t p "done" bufsz] by auto
    next
      case empty
      have c: "contents p = []" using empty(2) "1.prems"(1) by (simp add: contents_Nil)
      show ?thesis
      proof (cases "refs p < 2 \<or> length done > 0")
        case True
        then show ?thesis using "1.prems" empty c pipe_read.simps[of t p "done" bufsz] by auto
      next
        case sl: False
        then have e: "oc = Sleeps" "data = done" "done = []"
          "p' = p\<lparr>wr_wait := drop 1 (wr_wait p), rd_wait := rd_wait p @ [t]\<rparr>"
          using "1.prems"(2) empty pipe_read.simps[of t p "done" bufsz] by (auto simp: wakeup_wr_def)
        have "contents p' = contents p" "pipe_wf p'" using contents_cong[of p' p] "1.prems"(1) by (simp_all add: e(4))
        then show ?thesis using e c sl empty by auto
      qed
    qed
  qed
qed

lemma pipe_write_spec:
  assumes "pipe_wf p" and "pipe_write t p bytes = (oc, rest, ws, p')"
  shows "pipe_wf p' \<and> refs p' = refs p \<and> (\<exists>w. bytes = w @ rest \<and> contents p' = contents p @ w \<and>
      (oc = Sleeps \<longrightarrow> rest \<noteq> [] \<and> length (contents p') = PIPE_SIZE - 1 \<and> refs p \<ge> 2 \<and> t \<in> set (wr_wait p')) \<and>
      (oc = Returned \<longrightarrow> rest = [] \<or> refs p < 2 \<and> length (contents p') = PIPE_SIZE - 1))"
  using assms
proof (induction t p bytes rule: pipe_write.induct)
  case (1 t p)
  have "contents p' = contents p" "pipe_wf p'" using contents_cong[of p' p] 1 by (auto simp: wakeup_rd_def)
  then show ?case using 1 by (auto simp: wakeup_rd_def)
next
  case (2 t p b bytes)
  show ?case
  proof (cases "(in_ptr p + 1) mod PIPE_SIZE = out_ptr p")
    case True
    have f: "length (contents p) = PIPE_SIZE - 1" using contents_full[OF "2.prems"(1) True] .
    have "contents p' = contents p" "pipe_wf p'"
      using contents_cong[of p' p] "2.prems" True by (auto simp: wakeup_rd_def Let_def split: if_splits)
    then show ?thesis using "2.prems"(2) True f by (auto simp: wakeup_rd_def Let_def split: if_splits)
  next
    case False
    define q where "q = p\<lparr>buf := (buf p)[in_ptr p := b], in_ptr := (in_ptr p + 1) mod PIPE_SIZE\<rparr>"
    note pb = put_back[OF "2.prems"(1) False q_def]
    have r: "pipe_write t q bytes = (oc, rest, ws, p')" using "2.prems"(2) False by (simp add: q_def Let_def)
    from "2.IH"[OF refl False, folded q_def, OF pb(1) r] obtain w where
      IH: "pipe_wf p'" "refs p' = refs q" "bytes = w @ rest" "contents p' = contents q @ w"
        "oc = Sleeps \<longrightarrow> rest \<noteq> [] \<and> length (contents p') = PIPE_SIZE - 1 \<and> refs q \<ge> 2 \<and> t \<in> set (wr_wait p')"
        "oc = Returned \<longrightarrow> rest = [] \<or> refs q < 2 \<and> length (contents p') = PIPE_SIZE - 1" by blast
    then show ?thesis using pb(2) by (intro conjI exI[of _ "b # w"]) (auto simp: q_def)
  qed
qed

section \<open>Runs\<close>

text \<open>
  Any thread may call or resume any operation at any time. The history keeps every byte that was put
  into the pipe and every byte that was handed to a reader, in the order of these events.
\<close>

inductive pipe_step :: "pipe \<times> u8 list \<times> u8 list \<Rightarrow> pipe \<times> u8 list \<times> u8 list \<Rightarrow> bool" where
  do_read: "pipe_read t p [] bufsz = (oc, data, ws, p') \<Longrightarrow> pipe_step (p, put, got) (p', put, got @ data)"
| do_write: "pipe_write t p bytes = (oc, rest, ws, p') \<Longrightarrow>
    pipe_step (p, put, got) (p', put @ take (length bytes - length rest) bytes, got)"
| do_free: "pipe_step (p, put, got) (pipe_free p, put, got)"
| dequeued: "pipe_step (p, put, got) (p\<lparr>rd_wait := filter (\<lambda>u. u \<noteq> t) (rd_wait p),
    wr_wait := filter (\<lambda>u. u \<noteq> t) (wr_wait p)\<rparr>, put, got)"

definition pipe_inv :: "pipe \<times> u8 list \<times> u8 list \<Rightarrow> bool" where
  "pipe_inv s = (case s of (p, put, got) \<Rightarrow> pipe_wf p \<and> put = got @ contents p)"

lemma pipe_step_inv: "pipe_step s s' \<Longrightarrow> pipe_inv s \<Longrightarrow> pipe_inv s'"
proof (induction rule: pipe_step.induct)
  case (do_read t p bufsz oc data ws p' put got)
  then show ?case using pipe_read_spec[of p t "[]" bufsz oc data ws p'] by (auto simp: pipe_inv_def)
next
  case (do_write t p bytes oc rest ws p' put got)
  then show ?case using pipe_write_spec[of p t bytes oc rest ws p'] by (auto simp: pipe_inv_def)
next
  case (do_free p put got)
  then show ?case using contents_cong[of "pipe_free p" p] by (simp add: pipe_inv_def pipe_free_def)
next
  case (dequeued p put got t)
  then show ?case using contents_cong[of "p\<lparr>rd_wait := filter (\<lambda>u. u \<noteq> t) (rd_wait p),
    wr_wait := filter (\<lambda>u. u \<noteq> t) (wr_wait p)\<rparr>" p] by (simp add: pipe_inv_def)
qed

lemma pipe_new_wf: "pipe_wf pipe_new" "contents pipe_new = []"
  by (simp_all add: pipe_wf_def pipe_new_def contents_def used_def)

interpretation pipe: invariant_system "\<lambda>s. s = (pipe_new, [], [])" pipe_step pipe_inv
  by unfold_locales (simp add: pipe_inv_def pipe_new_wf, blast intro: pipe_step_inv)

section \<open>Properties\<close>

text \<open>C7. Pipes are first in, first out, without loss, duplication or reordering: in every interleaving of
  reads, writes and closes, the bytes handed to readers followed by the bytes in the ring are exactly
  the bytes written; the ring never holds more than \<^verbatim>\<open>PIPE_SIZE\<close> - 1 bytes and its pointers stay in range.\<close>

theorem pipe_fifo:
  assumes "pipe_step\<^sup>*\<^sup>* (pipe_new, [], []) (p, put, got)"
  shows "put = got @ contents p \<and> length (contents p) < PIPE_SIZE \<and>
     in_ptr p < PIPE_SIZE \<and> out_ptr p < PIPE_SIZE \<and> length (buf p) = PIPE_SIZE"
proof -
  have "pipe_inv (p, put, got)" using pipe.reachable_inv[OF refl assms] .
  then show ?thesis using contents_bound[of p] by (simp add: pipe_inv_def pipe_wf_def)
qed

theorem pipe_fifo_witness:
  "\<exists>p put got. pipe_step\<^sup>*\<^sup>* (pipe_new, [], []) (p, put, got) \<and> put = [1, 2, 3] \<and> put = got @ contents p"
proof -
  obtain oc rest ws p where w: "pipe_write 7 pipe_new [1, 2, 3] = (oc, rest, ws, p)" by (metis prod_cases4)
  have "rest = []" using w by (simp add: pipe_new_def wakeup_rd_def PIPE_SIZE_def)
  then have "pipe_step (pipe_new, [], []) (p, [1, 2, 3], [])" using pipe_step.do_write[OF w, of "[]" "[]"] by simp
  then have r: "pipe_step\<^sup>*\<^sup>* (pipe_new, [], []) (p, [1, 2, 3], [])" by (rule r_into_rtranclp)
  show ?thesis using r pipe_fifo[OF r] by blast
qed

text \<open>What one call does: a read of a non-empty pipe returns at once with as many of the oldest bytes as
  fit; it sleeps only on an empty pipe with a second end open; a write stores a prefix of its bytes behind
  the old contents, sleeps only when the ring is full, and returns short only when no other end is open.\<close>

theorem pipe_calls:
  assumes "pipe_wf p"
  shows "(case pipe_read t p [] bufsz of (oc, data, ws, p') \<Rightarrow>
            if oc = Sleeps then contents p = [] \<and> refs p \<ge> 2 \<and> t \<in> set (rd_wait p') \<and> contents p' = []
            else data = take bufsz (contents p) \<and> contents p' = drop bufsz (contents p)) \<and>
         (case pipe_write t p bytes of (oc, rest, ws, p') \<Rightarrow>
            \<exists>w. bytes = w @ rest \<and> contents p' = contents p @ w \<and>
              (if oc = Sleeps then rest \<noteq> [] \<and> length (contents p') = PIPE_SIZE - 1 \<and> refs p \<ge> 2 \<and> t \<in> set (wr_wait p')
               else rest = [] \<or> refs p < 2))"
proof (rule conjI)
  obtain oc data ws p' where r: "pipe_read t p [] bufsz = (oc, data, ws, p')" by (metis prod_cases4)
  have d: "contents p = data @ contents p'" "oc = Sleeps \<longrightarrow> data = [] \<and> contents p = [] \<and> refs p \<ge> 2 \<and> t \<in> set (rd_wait p')"
    "oc = Returned \<longrightarrow> contents p' = [] \<or> length data \<ge> bufsz" "length data \<le> bufsz"
    using pipe_read_spec[OF assms r] by auto
  show "case pipe_read t p [] bufsz of (oc, data, ws, p') \<Rightarrow>
      if oc = Sleeps then contents p = [] \<and> refs p \<ge> 2 \<and> t \<in> set (rd_wait p') \<and> contents p' = []
      else data = take bufsz (contents p) \<and> contents p' = drop bufsz (contents p)"
    using d by (cases oc) (auto simp: r)
next
  obtain oc rest ws p' where w: "pipe_write t p bytes = (oc, rest, ws, p')" by (metis prod_cases4)
  show "case pipe_write t p bytes of (oc, rest, ws, p') \<Rightarrow>
      \<exists>w. bytes = w @ rest \<and> contents p' = contents p @ w \<and>
        (if oc = Sleeps then rest \<noteq> [] \<and> length (contents p') = PIPE_SIZE - 1 \<and> refs p \<ge> 2 \<and> t \<in> set (wr_wait p')
         else rest = [] \<or> refs p < 2)"
    using pipe_write_spec[OF assms w] by (cases oc) (auto simp: w)
qed

theorem pipe_calls_witness:
  "case pipe_read 3 pipe_new [] 10 of (oc, data, ws, p') \<Rightarrow> oc = Sleeps \<and> contents p' = []"
proof -
  obtain oc data ws p' where r: "pipe_read 3 pipe_new [] 10 = (oc, data, ws, p')" by (metis prod_cases4)
  have "oc = Sleeps" using r by (subst (asm) pipe_read.simps) (simp add: pipe_new_def wakeup_wr_def)
  then show ?thesis using pipe_calls[OF pipe_new_wf(1), of 3 10 "[]"] by (simp add: r)
qed

text \<open>Closing an end wakes nobody: a reader that sleeps on an empty pipe when the last writer closes
  stays on the queue although a new read would return at once (the end of file it waits for has come).\<close>

theorem pipe_close_strands_reader:
  "\<exists>p. pipe_step\<^sup>*\<^sup>* (pipe_new, [], []) (p, [], []) \<and> rd_wait p = [3] \<and> refs p = 1 \<and>
     (\<forall>t bufsz. fst (pipe_read t p [] bufsz) = Returned)"
proof -
  let ?p = "pipe_new\<lparr>rd_wait := [3]\<rparr>"
  have "pipe_read 3 pipe_new [] 1 = (Sleeps, [], [], ?p)"
    by (subst pipe_read.simps) (simp add: pipe_new_def wakeup_wr_def)
  then have a: "pipe_step (pipe_new, [], []) (?p, [], [])" using pipe_step.do_read[of 3 pipe_new 1] by fastforce
  have b: "pipe_step (?p, [], []) (pipe_free ?p, [], [])" by (rule pipe_step.do_free)
  have "fst (pipe_read t (pipe_free ?p) [] bufsz) = Returned" for t bufsz
    by (subst pipe_read.simps) (simp add: pipe_new_def pipe_free_def)
  moreover have "pipe_step\<^sup>*\<^sup>* (pipe_new, [], []) (pipe_free ?p, [], [])"
    using a b by (meson converse_rtranclp_into_rtranclp r_into_rtranclp)
  ultimately show ?thesis by (intro exI[of _ "pipe_free ?p"]) (simp add: pipe_free_def pipe_new_def)
qed

end
