(* ===== verification/Devices.thy ===== *)
theory Devices
  imports Prelude
begin

text \<open>
  The device layer: the switch tables of \<^verbatim>\<open>kernel/cdev.c\<close> and \<^verbatim>\<open>kernel/bdev.c\<close>, and the names and
  hot-plug events of \<^verbatim>\<open>kernel/device.c\<close>. Drivers are parameters: a record of operations on a driver state
  \<open>'w\<close>, an absent operation being \<^verbatim>\<open>NULL\<close>. A device number is 16 bits, major number in the high byte. The
  outer \<open>None\<close> of a call is the access \<^verbatim>\<open>table[-1]\<close> that major number 0 leads to.
\<close>

section \<open>Device numbers\<close>

type_synonym dev_t = u16

definition DEV_MAJOR :: "dev_t \<Rightarrow> nat" where "DEV_MAJOR x = unat (ucast (drop_bit 8 x) :: u8)"
definition DEV_MINOR :: "dev_t \<Rightarrow> nat" where "DEV_MINOR x = unat (ucast x :: u8)"

definition MK_DEV :: "nat \<Rightarrow> nat \<Rightarrow> dev_t" where
  "MK_DEV x y = push_bit 8 (of_nat x AND 0xFF) OR (of_nat y AND 0xFF)"

definition DEV_BLOCK_MAX :: nat where "DEV_BLOCK_MAX = 255"
definition DEV_CHAR_MAX :: nat where "DEV_CHAR_MAX = 255"

lemma DEV_MAJOR_MK: "x < 256 \<Longrightarrow> DEV_MAJOR (MK_DEV x y) = x"
proof -
  assume x: "x < 256"
  have "ucast (drop_bit 8 (MK_DEV x y)) = (of_nat x :: u8)"
  proof (rule bit_word_eqI)
    have "(0xFF :: u16) = mask 8" by (simp add: mask_eq_exp_minus_1)
    then have "bit (0xFF :: u16) n" if "n < 8" for n using that by (simp only: bit_mask_iff) simp
    then show "bit (ucast (drop_bit 8 (MK_DEV x y)) :: u8) n = bit (of_nat x :: u8) n" if "n < LENGTH(8)" for n
      using that by (auto simp: MK_DEV_def bit_simps)
  qed
  then show ?thesis using x by (simp add: DEV_MAJOR_def unsigned_of_nat take_bit_nat_eq_self)
qed

section \<open>Character devices\<close>

record 'w cdev_ops =
  c_open :: "dev_t \<Rightarrow> 'w \<Rightarrow> int \<times> 'w"
  c_read :: "(dev_t \<Rightarrow> nat \<Rightarrow> 'w \<Rightarrow> (int \<times> u8 list) \<times> 'w) option"
  c_write :: "(dev_t \<Rightarrow> u8 list \<Rightarrow> 'w \<Rightarrow> int \<times> 'w) option"
  c_ioctl :: "(dev_t \<Rightarrow> int \<Rightarrow> u32 \<Rightarrow> 'w \<Rightarrow> int \<times> 'w) option"

record 'w cdev =
  cops :: "'w cdev_ops"
  crefs :: int

type_synonym 'w cdev_table = "'w cdev option list"

definition cdev_register :: "'w cdev_ops \<Rightarrow> 'w cdev_table \<Rightarrow> dev_t \<times> 'w cdev_table" where
  "cdev_register ops table =
     (case find_slot 0 table of
        None \<Rightarrow> (0, table)
      | Some i \<Rightarrow> (MK_DEV (i + 1) 0, table[i := Some \<lparr>cops = ops, crefs = 0\<rparr>]))"

definition dev_index :: "dev_t \<Rightarrow> nat option" where
  "dev_index dev = (if DEV_MAJOR dev = 0 then None else Some (DEV_MAJOR dev - 1))"

definition cdev_open :: "dev_t \<Rightarrow> 'w cdev_table \<Rightarrow> 'w \<Rightarrow> (int \<times> 'w cdev_table \<times> 'w) option" where
  "cdev_open dev table w =
     (case dev_index dev of
        None \<Rightarrow> None
      | Some i \<Rightarrow>
          (case table ! i of
             None \<Rightarrow> Some (- errno_code ENODEV, table, w)
           | Some cdev \<Rightarrow>
               let table = table[i := Some (cdev\<lparr>crefs := crefs cdev + 1\<rparr>)];
                   (err, w) = c_open (cops cdev) dev w;
                   table = (if err \<noteq> 0 then table[i := Some cdev] else table)
               in Some (err, table, w)))"

definition cdev_close :: "dev_t \<Rightarrow> int" where
  "cdev_close dev = - errno_code ENOSYS"

definition cdev_read :: "dev_t \<Rightarrow> nat \<Rightarrow> 'w cdev_table \<Rightarrow> 'w \<Rightarrow> ((int \<times> u8 list) \<times> 'w) option" where
  "cdev_read dev len table w =
     (case dev_index dev of
        None \<Rightarrow> None
      | Some i \<Rightarrow>
          (case table ! i of
             None \<Rightarrow> Some ((- errno_code ENODEV, []), w)
           | Some cdev \<Rightarrow>
               (case c_read (cops cdev) of
                  None \<Rightarrow> Some ((- errno_code ENOTSUP, []), w)
                | Some f \<Rightarrow> Some (f dev len w))))"

definition cdev_write :: "dev_t \<Rightarrow> u8 list \<Rightarrow> 'w cdev_table \<Rightarrow> 'w \<Rightarrow> (int \<times> 'w) option" where
  "cdev_write dev buf table w =
     (case dev_index dev of
        None \<Rightarrow> None
      | Some i \<Rightarrow>
          (case table ! i of
             None \<Rightarrow> Some (- errno_code ENODEV, w)
           | Some cdev \<Rightarrow>
               (case c_write (cops cdev) of
                  None \<Rightarrow> Some (- errno_code ENOTSUP, w)
                | Some f \<Rightarrow> Some (f dev buf w))))"

definition cdev_ioctl :: "dev_t \<Rightarrow> int \<Rightarrow> u32 \<Rightarrow> 'w cdev_table \<Rightarrow> 'w \<Rightarrow> (int \<times> 'w) option" where
  "cdev_ioctl dev cmd arg table w =
     (case dev_index dev of
        None \<Rightarrow> None
      | Some i \<Rightarrow>
          (case table ! i of
             None \<Rightarrow> Some (- errno_code ENODEV, w)
           | Some cdev \<Rightarrow>
               (case c_ioctl (cops cdev) of
                  None \<Rightarrow> Some (- errno_code ENOTSUP, w)
                | Some f \<Rightarrow> Some (f dev cmd arg w))))"

section \<open>Block devices\<close>

text \<open>Block drivers also get the data pointer of their table entry.\<close>

record 'w bdev_ops =
  b_open :: "nat \<Rightarrow> dev_t \<Rightarrow> 'w \<Rightarrow> int \<times> 'w"
  b_read :: "(nat \<Rightarrow> dev_t \<Rightarrow> nat \<Rightarrow> int \<Rightarrow> 'w \<Rightarrow> (int \<times> u8 list) \<times> 'w) option"
  b_write :: "(nat \<Rightarrow> dev_t \<Rightarrow> u8 list \<Rightarrow> int \<Rightarrow> 'w \<Rightarrow> int \<times> 'w) option"
  b_ioctl :: "(nat \<Rightarrow> dev_t \<Rightarrow> int \<Rightarrow> u32 \<Rightarrow> 'w \<Rightarrow> int \<times> 'w) option"

record 'w bdev =
  bops :: "'w bdev_ops"
  brefs :: int
  bdata :: nat

type_synonym 'w bdev_table = "'w bdev option list"

definition bdev_register :: "'w bdev_ops \<Rightarrow> nat \<Rightarrow> 'w bdev_table \<Rightarrow> dev_t \<times> 'w bdev_table" where
  "bdev_register ops dataptr table =
     (case find_slot 0 table of
        None \<Rightarrow> (0, table)
      | Some i \<Rightarrow> (MK_DEV (i + 1) 0, table[i := Some \<lparr>bops = ops, brefs = 0, bdata = dataptr\<rparr>]))"

definition bdev_open :: "dev_t \<Rightarrow> 'w bdev_table \<Rightarrow> 'w \<Rightarrow> (int \<times> 'w bdev_table \<times> 'w) option" where
  "bdev_open dev table w =
     (case dev_index dev of
        None \<Rightarrow> None
      | Some i \<Rightarrow>
          (case table ! i of
             None \<Rightarrow> Some (- errno_code ENODEV, table, w)
           | Some bdev \<Rightarrow>
               let table = table[i := Some (bdev\<lparr>brefs := brefs bdev + 1\<rparr>)];
                   (err, w) = b_open (bops bdev) (bdata bdev) dev w;
                   table = (if err \<noteq> 0 then table[i := Some bdev] else table)
               in Some (err, table, w)))"

definition bdev_close :: "dev_t \<Rightarrow> int" where
  "bdev_close dev = - errno_code ENOSYS"

definition bdev_read :: "dev_t \<Rightarrow> nat \<Rightarrow> int \<Rightarrow> 'w bdev_table \<Rightarrow> 'w \<Rightarrow> ((int \<times> u8 list) \<times> 'w) option" where
  "bdev_read dev len offset table w =
     (case dev_index dev of
        None \<Rightarrow> None
      | Some i \<Rightarrow>
          (case table ! i of
             None \<Rightarrow> Some ((- errno_code ENODEV, []), w)
           | Some bdev \<Rightarrow>
               (case b_read (bops bdev) of
                  None \<Rightarrow> Some ((- errno_code ENOTSUP, []), w)
                | Some f \<Rightarrow> Some (f (bdata bdev) dev len offset w))))"

definition bdev_write :: "dev_t \<Rightarrow> u8 list \<Rightarrow> int \<Rightarrow> 'w bdev_table \<Rightarrow> 'w \<Rightarrow> (int \<times> 'w) option" where
  "bdev_write dev buf offset table w =
     (case dev_index dev of
        None \<Rightarrow> None
      | Some i \<Rightarrow>
          (case table ! i of
             None \<Rightarrow> Some (- errno_code ENODEV, w)
           | Some bdev \<Rightarrow>
               (case b_write (bops bdev) of
                  None \<Rightarrow> Some (- errno_code ENOTSUP, w)
                | Some f \<Rightarrow> Some (f (bdata bdev) dev buf offset w))))"

definition bdev_ioctl :: "dev_t \<Rightarrow> int \<Rightarrow> u32 \<Rightarrow> 'w bdev_table \<Rightarrow> 'w \<Rightarrow> (int \<times> 'w) option" where
  "bdev_ioctl dev cmd arg table w =
     (case dev_index dev of
        None \<Rightarrow> None
      | Some i \<Rightarrow>
          (case table ! i of
             None \<Rightarrow> Some (- errno_code ENODEV, w)
           | Some bdev \<Rightarrow>
               (case b_ioctl (bops bdev) of
                  None \<Rightarrow> Some (- errno_code ENOTSUP, w)
                | Some f \<Rightarrow> Some (f (bdata bdev) dev cmd arg w))))"

section \<open>Names and events\<close>

record devtable =
  dev_id :: dev_t
  dev_name :: string

record dev_event =
  event_type :: nat
  ev_dev_type :: nat
  ev_name :: string
  ev_dev_id :: dev_t

record registry =
  bdev_list :: "devtable list"
  cdev_list :: "devtable list"
  event_list :: "dev_event list"
  event_wait :: "nat list"

definition DEV_BLOCK :: nat where "DEV_BLOCK = 1"
definition DEV_CHAR :: nat where "DEV_CHAR = 2"
definition DEV_EVENT_REGISTER :: nat where "DEV_EVENT_REGISTER = 1"

text \<open>\<^verbatim>\<open>list_add\<close> of the list head puts the event first; the reader takes the last one. The first sleeper
  is woken, and reported.\<close>

definition add_event :: "nat \<Rightarrow> nat \<Rightarrow> devtable \<Rightarrow> registry \<Rightarrow> nat list \<times> registry" where
  "add_event type dev_type dev r =
     (let ev = \<lparr>event_type = type, ev_dev_type = dev_type, ev_name = dev_name dev, ev_dev_id = dev_id dev\<rparr>
      in (take 1 (event_wait r), r\<lparr>event_list := ev # event_list r, event_wait := drop 1 (event_wait r)\<rparr>))"

definition device_register :: "nat \<Rightarrow> string \<Rightarrow> dev_t \<Rightarrow> registry \<Rightarrow> nat list \<times> registry" where
  "device_register type name devid r =
     (let dev = \<lparr>dev_id = devid, dev_name = name\<rparr>;
          r = (if type = DEV_BLOCK then r\<lparr>bdev_list := dev # bdev_list r\<rparr>
               else if type = DEV_CHAR then r\<lparr>cdev_list := dev # cdev_list r\<rparr> else r)
      in add_event DEV_EVENT_REGISTER type dev r)"

text \<open>\<open>None\<close>: an unknown type makes the code walk a \<^verbatim>\<open>NULL\<close> list.\<close>

definition device_lookup :: "nat \<Rightarrow> string \<Rightarrow> registry \<Rightarrow> dev_t option" where
  "device_lookup type name r =
     (if type = DEV_BLOCK \<or> type = DEV_CHAR then
        let devs = (if type = DEV_BLOCK then bdev_list r else cdev_list r)
        in Some (case find (\<lambda>dev. dev_name dev = name) devs of None \<Rightarrow> 0 | Some dev \<Rightarrow> dev_id dev)
      else None)"

text \<open>\<^verbatim>\<open>device_get_event\<close>: an event, or the caller goes to sleep.\<close>

definition device_get_event :: "nat \<Rightarrow> registry \<Rightarrow> dev_event option \<times> registry" where
  "device_get_event t r =
     (if event_list r \<noteq> [] then (Some (last (event_list r)), r\<lparr>event_list := butlast (event_list r)\<rparr>)
      else (None, r\<lparr>event_wait := event_wait r @ [t]\<rparr>))"

section \<open>The switch as an interface\<close>

text \<open>What a device switch promises: registering hands out a number that was free, and opening that
  number afterwards reaches the registered driver.\<close>

locale device_switch =
  fixes ok :: "'t \<Rightarrow> bool" and register :: "'o \<Rightarrow> 't \<Rightarrow> dev_t \<times> 't"
    and driver_of :: "'t \<Rightarrow> dev_t \<Rightarrow> 'o option" and free_numbers :: "'t \<Rightarrow> bool"
  assumes full: "\<not> free_numbers t \<Longrightarrow> register ops t = (0, t)"
    and fresh: "\<lbrakk>ok t; free_numbers t; register ops t = (dev, t')\<rbrakk> \<Longrightarrow>
      ok t' \<and> driver_of t dev = None \<and> DEV_MAJOR dev \<noteq> 0 \<and> driver_of t' dev = Some ops \<and>
      (\<forall>d. DEV_MAJOR d \<noteq> DEV_MAJOR dev \<longrightarrow> driver_of t' d = driver_of t d)"
    and by_major: "DEV_MAJOR d = DEV_MAJOR d' \<Longrightarrow> driver_of t d = driver_of t d'"
begin

lemma second_register_keeps_first:
  assumes "ok t" "free_numbers t" "register ops t = (d1, t1)" "free_numbers t1" "register ops' t1 = (d2, t2)"
  shows "driver_of t2 d1 = Some ops \<and> driver_of t2 d2 = Some ops' \<and> DEV_MAJOR d1 \<noteq> DEV_MAJOR d2"
proof -
  note f1 = fresh[OF assms(1-3)] and f2 = fresh[OF conjunct1[OF fresh[OF assms(1-3)]] assms(4,5)]
  have "DEV_MAJOR d1 \<noteq> DEV_MAJOR d2"
  proof
    assume "DEV_MAJOR d1 = DEV_MAJOR d2"
    then have "driver_of t1 d1 = driver_of t1 d2" by (rule by_major)
    then show False using f1 f2 by simp
  qed
  then show ?thesis using f1 f2 by auto
qed

end

definition table_driver :: "('d \<Rightarrow> 'o) \<Rightarrow> 'd option list \<Rightarrow> dev_t \<Rightarrow> 'o option" where
  "table_driver ops_of table dev =
     (case dev_index dev of None \<Rightarrow> None | Some i \<Rightarrow> if i < length table then map_option ops_of (table ! i) else None)"

definition has_free :: "'d option list \<Rightarrow> bool" where
  "has_free table \<longleftrightarrow> find_slot 0 table \<noteq> None"

definition table_ok :: "'d option list \<Rightarrow> bool" where
  "table_ok table \<longleftrightarrow> length table = 255"

lemma register_slot:
  assumes i: "find_slot 0 table = Some i" and len: "table_ok table"
  shows "table_driver ops_of table (MK_DEV (i + 1) 0) = None" "DEV_MAJOR (MK_DEV (i + 1) 0) = i + 1"
    "table_driver ops_of (table[i := Some e]) (MK_DEV (i + 1) 0) = Some (ops_of e)"
    "DEV_MAJOR d \<noteq> i + 1 \<Longrightarrow> table_driver ops_of (table[i := Some e]) d = table_driver ops_of table d"
proof -
  have b: "i < length table" "table ! i = None" using i find_slot_bound find_slot_free by auto
  show m: "DEV_MAJOR (MK_DEV (i + 1) 0) = i + 1" using b len by (intro DEV_MAJOR_MK) (simp add: table_ok_def)
  then have x: "dev_index (MK_DEV (i + 1) 0) = Some i" by (simp add: dev_index_def)
  show "table_driver ops_of table (MK_DEV (i + 1) 0) = None"
    "table_driver ops_of (table[i := Some e]) (MK_DEV (i + 1) 0) = Some (ops_of e)"
    using b x by (simp_all add: table_driver_def)
  show "table_driver ops_of (table[i := Some e]) d = table_driver ops_of table d" if "DEV_MAJOR d \<noteq> i + 1"
  proof (cases "DEV_MAJOR d")
    case (Suc k)
    then have "k \<noteq> i" using that by simp
    then show ?thesis using Suc by (simp add: table_driver_def dev_index_def)
  qed (simp add: table_driver_def dev_index_def)
qed

interpretation cdevs: device_switch table_ok cdev_register "table_driver cops" has_free
proof (unfold_locales, goal_cases)
  case (1 t ops)
  then show ?case by (simp add: has_free_def cdev_register_def)
next
  case (2 t ops dev t')
  then obtain i where i: "find_slot 0 t = Some i" by (auto simp: has_free_def)
  have "dev = MK_DEV (i + 1) 0" "t' = t[i := Some \<lparr>cops = ops, crefs = 0\<rparr>]"
    using 2(3) i by (simp_all add: cdev_register_def)
  then show ?case using register_slot(1,3,4)[OF i 2(1), where ops_of = cops] register_slot(2)[OF i 2(1)] 2(1) by (simp add: table_ok_def)
next
  case (3 d d' t)
  then show ?case by (simp add: table_driver_def dev_index_def)
qed

interpretation bdevs: device_switch table_ok "\<lambda>(ops, dataptr). bdev_register ops dataptr"
  "table_driver (\<lambda>b. (bops b, bdata b))" has_free
proof (unfold_locales, goal_cases)
  case (1 t ops)
  then show ?case by (cases ops) (simp add: has_free_def bdev_register_def)
next
  case (2 t ops dev t')
  then obtain i where i: "find_slot 0 t = Some i" by (auto simp: has_free_def)
  obtain o1 o2 where ops: "ops = (o1, o2)" by (cases ops)
  have "dev = MK_DEV (i + 1) 0" "t' = t[i := Some \<lparr>bops = o1, brefs = 0, bdata = o2\<rparr>]"
    using 2(3) i ops by (simp_all add: bdev_register_def)
  then show ?case using register_slot(1,3,4)[OF i 2(1), where ops_of = "\<lambda>b. (bops b, bdata b)"] register_slot(2)[OF i 2(1)] 2(1) ops by (simp add: table_ok_def)
next
  case (3 d d' t)
  then show ?case by (simp add: table_driver_def dev_index_def)
qed

section \<open>Properties\<close>

text \<open>C28. The character device switch: a registration into a table with room returns a number whose major
  part is not 0 and was unused, keeps every other driver, and opening the number runs the registered
  driver's open on it and counts one reference exactly when that open succeeds; with a full table the
  number is 0 and nothing changes. A number with major 0 makes any call index the table with -1.\<close>

theorem cdev_switch:
  assumes "table_ok table"
  shows "case cdev_register ops table of (dev, table') \<Rightarrow>
      (if has_free table then
         DEV_MAJOR dev \<noteq> 0 \<and> table_driver cops table dev = None \<and>
         (\<forall>d. DEV_MAJOR d \<noteq> DEV_MAJOR dev \<longrightarrow> table_driver cops table' d = table_driver cops table d) \<and>
         (\<forall>w. \<exists>table''. cdev_open dev table' w = Some (fst (c_open ops dev w), table'', snd (c_open ops dev w)) \<and>
            map_option crefs (table'' ! (DEV_MAJOR dev - 1)) = Some (if fst (c_open ops dev w) = 0 then 1 else 0))
       else dev = 0 \<and> table' = table) \<and> cdev_open (MK_DEV 0 n) table' w = None"
proof -
  obtain dev table' where r: "cdev_register ops table = (dev, table')" by (metis surj_pair)
  have z: "cdev_open (MK_DEV 0 n) table' w = None"
    using DEV_MAJOR_MK[of 0 n] by (simp add: cdev_open_def dev_index_def)
  show ?thesis
  proof (cases "has_free table")
    case True
    then obtain i where i: "find_slot 0 table = Some i" by (auto simp: has_free_def)
    have e: "dev = MK_DEV (i + 1) 0" "table' = table[i := Some \<lparr>cops = ops, crefs = 0\<rparr>]"
      using r i by (simp_all add: cdev_register_def)
    note s = register_slot[OF i assms]
    have b: "i < length table" using i by (rule find_slot_bound)
    have x: "dev_index dev = Some i" using s(2) by (simp add: e dev_index_def)
    have "\<exists>table''. cdev_open dev table' w = Some (fst (c_open ops dev w), table'', snd (c_open ops dev w)) \<and>
        map_option crefs (table'' ! (DEV_MAJOR dev - 1)) = Some (if fst (c_open ops dev w) = 0 then 1 else 0)" for w
    proof (cases "c_open ops dev w")
      case (Pair err w')
      have "table' ! i = Some \<lparr>cops = ops, crefs = 0\<rparr>" using b by (simp add: e(2))
      moreover have "DEV_MAJOR dev - 1 = i" using s(2) by (simp add: e(1))
      ultimately show ?thesis using b Pair by (simp add: cdev_open_def x Let_def e(2))
    qed
    then show ?thesis using True r z cdevs.fresh[OF assms True r] by simp
  next
    case False
    then show ?thesis using r z cdevs.full[OF False, of ops] by simp
  qed
qed

theorem cdev_switch_witness:
  "case cdev_register \<lparr>c_open = (\<lambda>d w. (0, w + 1)), c_read = None, c_write = None, c_ioctl = None\<rparr>
       (replicate 255 None) of (dev, table') \<Rightarrow>
     DEV_MAJOR dev \<noteq> 0 \<and> (\<exists>table''. cdev_open dev table' (5 :: nat) = Some (0, table'', 6))"
proof -
  let ?ops = "\<lparr>c_open = (\<lambda>d w. (0, w + 1)), c_read = None, c_write = None, c_ioctl = None\<rparr> :: nat cdev_ops"
  have t: "table_ok (replicate 255 None :: nat cdev_table)" "has_free (replicate 255 None :: nat cdev_table)"
    by (simp_all add: table_ok_def has_free_def find_slot.simps[of 0])
  obtain dev table' where r: "cdev_register ?ops (replicate 255 None) = (dev, table')" by (metis surj_pair)
  note sw = cdev_switch[OF t(1), of ?ops 0 5, unfolded r prod.case if_P[OF t(2)]]
  then have "DEV_MAJOR dev \<noteq> 0" "\<exists>table''. cdev_open dev table' 5 =
      Some (fst (c_open ?ops dev 5), table'', snd (c_open ?ops dev 5))" by blast+
  then show ?thesis unfolding r by simp
qed

fun register_all :: "(nat \<times> string \<times> dev_t) list \<Rightarrow> registry \<Rightarrow> registry" where
  "register_all [] r = r"
| "register_all ((type, name, devid) # ds) r = register_all ds (snd (device_register type name devid r))"

fun get_events :: "nat \<Rightarrow> registry \<Rightarrow> dev_event list" where
  "get_events 0 r = []"
| "get_events (Suc n) r =
     (case device_get_event 0 r of (None, r) \<Rightarrow> get_events n r | (Some ev, r) \<Rightarrow> ev # get_events n r)"

definition reg_event :: "nat \<times> string \<times> dev_t \<Rightarrow> dev_event" where
  "reg_event d = (case d of (type, name, devid) \<Rightarrow>
     \<lparr>event_type = DEV_EVENT_REGISTER, ev_dev_type = type, ev_name = name, ev_dev_id = devid\<rparr>)"

lemma register_all_events: "event_list (register_all ds r) = rev (map reg_event ds) @ event_list r"
  by (induction ds r rule: register_all.induct)
    (auto simp: device_register_def add_event_def reg_event_def Let_def)

lemma get_events_rev: "get_events n r = take n (rev (event_list r))"
proof (induction n arbitrary: r)
  case (Suc n)
  show ?case
  proof (cases "event_list r" rule: rev_cases)
    case Nil
    then show ?thesis using Suc by (simp add: device_get_event_def)
  next
    case (snoc evs ev)
    then show ?thesis using Suc by (simp add: device_get_event_def)
  qed
qed simp

text \<open>Names and events: a lookup finds the most recent device registered under the name in its class
  and 0 if there is none, and events are delivered once each, in the order of registration.\<close>

theorem device_names_events:
  assumes "type = DEV_BLOCK \<or> type = DEV_CHAR"
  shows "device_lookup type n (snd (device_register type name devid r)) =
      (if n = name then Some devid else device_lookup type n r) \<and>
    (event_list r = [] \<longrightarrow> get_events (length ds) (register_all ds r) = map reg_event ds)"
proof (rule conjI)
  show "device_lookup type n (snd (device_register type name devid r)) =
      (if n = name then Some devid else device_lookup type n r)"
    using assms by (auto simp: device_lookup_def device_register_def add_event_def DEV_BLOCK_def DEV_CHAR_def Let_def)
  show "event_list r = [] \<longrightarrow> get_events (length ds) (register_all ds r) = map reg_event ds"
    by (simp add: get_events_rev register_all_events)
qed

theorem device_names_events_witness:
  "device_lookup DEV_CHAR ''tty1'' (snd (device_register DEV_CHAR ''tty1'' 0x401
     \<lparr>bdev_list = [], cdev_list = [], event_list = [], event_wait = []\<rparr>)) = Some 0x401"
  using device_names_events[of DEV_CHAR "''tty1''" "''tty1''" "0x401"] by simp

end
