(* ===== verification/Printf.thy ===== *)
theory Printf
  imports Prelude
begin

text \<open>
  Formatted output: \<^verbatim>\<open>doprintf\<close> and \<^verbatim>\<open>sprintf\<close> of \<^verbatim>\<open>lib/printf.c\<close>. The format is read by a machine with five
  states; the conversions put their digits into a buffer from its end and hand the characters one by one to an
  output function. Arguments are the 32-bit stack slots of the i686 calling convention, a string being the
  slot that points to it. \<open>None\<close> is a read past the end of the format or of the arguments, or of a slot that is
  not of the kind the format announces.
\<close>

section \<open>The interpreter of the format\<close>

definition PF_LJ :: u32 where "PF_LJ = 0x01"
definition PF_CA :: u32 where "PF_CA = 0x02"
definition PF_SG :: u32 where "PF_SG = 0x04"
definition PF_32 :: u32 where "PF_32 = 0x08"
definition PF_64 :: u32 where "PF_64 = 0x10"
definition PF_WS :: u32 where "PF_WS = 0x20"
definition PF_PZ :: u32 where "PF_PZ = 0x40"

lemmas PF_defs = PF_LJ_def PF_CA_def PF_SG_def PF_32_def PF_64_def PF_WS_def PF_PZ_def

datatype va_slot = Word u32 | Ptr string

record 'p pf =
  pstate :: nat
  pflags :: u32
  wd :: u32
  ret :: int
  va :: "va_slot list"
  ptr :: 'p

definition emit :: "(char \<Rightarrow> 'p \<Rightarrow> int \<times> 'p) \<Rightarrow> char \<Rightarrow> 'p pf \<Rightarrow> 'p pf" where
  "emit func c s = (case func c (ptr s) of (r, p) \<Rightarrow> s\<lparr>ret := ret s + r, ptr := p\<rparr>)"

definition emits :: "(char \<Rightarrow> 'p \<Rightarrow> int \<times> 'p) \<Rightarrow> string \<Rightarrow> 'p pf \<Rightarrow> 'p pf" where
  "emits func cs s = fold (emit func) cs s"

text \<open>\<^verbatim>\<open>do ... while(num != 0)\<close>, which fills the buffer from its end. The radix is 8, 10 or 16.\<close>

definition digit_char :: "bool \<Rightarrow> nat \<Rightarrow> char" where
  "digit_char caps tmp = char_of (if tmp < 10 then tmp + 48 else if caps then tmp - 10 + 65 else tmp - 10 + 97)"

function digits :: "bool \<Rightarrow> nat \<Rightarrow> nat \<Rightarrow> string \<Rightarrow> string" where
  "digits caps radix num tail =
     (let tail = digit_char caps (num mod radix) # tail; num = num div radix
      in if num = 0 \<or> radix < 2 then tail else digits caps radix num tail)"
  by pat_completeness auto
termination by (relation "measure (\<lambda>(_, radix, num, _). num)") (auto simp: div_greater_zero_iff)

declare digits.simps [simp del]

text \<open>The argument of a number conversion and its sign.\<close>

definition va_num :: "u32 \<Rightarrow> va_slot list \<Rightarrow> (u64 \<times> va_slot list) option" where
  "va_num flags args =
     (case args of
        Word lo # rest \<Rightarrow>
          if flags AND PF_64 \<noteq> 0 then
            (case rest of Word hi # rest \<Rightarrow> Some (push_bit 32 (ucast hi) OR ucast lo, rest) | _ \<Rightarrow> None)
          else if flags AND PF_32 \<noteq> 0 then Some (ucast lo, rest)
          else if flags AND PF_SG \<noteq> 0 then Some (scast lo, rest)
          else Some (ucast lo, rest)
      | _ \<Rightarrow> None)"

text \<open>From \<^verbatim>\<open>EMIT2\<close> on: padding on the left, the sign, the text, padding on the right.\<close>

definition emit2 :: "(char \<Rightarrow> 'p \<Rightarrow> int \<times> 'p) \<Rightarrow> string \<Rightarrow> u32 \<Rightarrow> 'p pf \<Rightarrow> 'p pf" where
  "emit2 func txt cur_wd s =
     (let pad = (if pflags s AND PF_PZ \<noteq> 0 then CHR ''0'' else CHR '' '');
          s = (if pflags s AND PF_LJ = 0 \<and> wd s > cur_wd
               then (emits func (replicate (unat (wd s - cur_wd)) pad) s)\<lparr>wd := cur_wd\<rparr> else s);
          s = (if pflags s AND (PF_WS OR PF_PZ) = PF_WS then emit func (CHR ''-'') s else s);
          s = emits func txt s;
          s = s\<lparr>wd := (if wd s < cur_wd then 0 else wd s - cur_wd)\<rparr>
      in (emits func (replicate (unat (wd s)) (CHR '' '')) s)\<lparr>wd := 0\<rparr>)"

definition emit1 :: "(char \<Rightarrow> 'p \<Rightarrow> int \<times> 'p) \<Rightarrow> string \<Rightarrow> 'p pf \<Rightarrow> 'p pf" where
  "emit1 func txt s =
     (let cur_wd = of_nat (length txt) + (if pflags s AND PF_WS \<noteq> 0 then 1 else 0);
          s = (if pflags s AND (PF_WS OR PF_PZ) = PF_WS OR PF_PZ then emit func (CHR ''-'') s else s)
      in emit2 func txt cur_wd s)"

definition do_num :: "(char \<Rightarrow> 'p \<Rightarrow> int \<times> 'p) \<Rightarrow> nat \<Rightarrow> 'p pf \<Rightarrow> 'p pf option" where
  "do_num func radix s =
     (case va_num (pflags s) (va s) of
        None \<Rightarrow> None
      | Some (num, args) \<Rightarrow>
          let neg = (pflags s AND PF_SG \<noteq> 0 \<and> sint num < 0);
              s = s\<lparr>va := args, pflags := (if neg then pflags s OR PF_WS else pflags s)\<rparr>;
              num = (if neg then - num else num)
          in Some (emit1 func (digits (pflags s AND PF_CA \<noteq> 0) radix (unat num) []) s))"

text \<open>State 4, the conversion character; every branch falls into the \<^verbatim>\<open>default\<close> that resets the machine. A string
  ends at its first zero character, as does the buffer of one character.\<close>

definition cut :: "string \<Rightarrow> string" where "cut = takeWhile (\<lambda>c. c \<noteq> CHR 0x00)"

definition conv :: "(char \<Rightarrow> 'p \<Rightarrow> int \<times> 'p) \<Rightarrow> char \<Rightarrow> 'p pf \<Rightarrow> 'p pf option" where
  "conv func c s =
     (if c = CHR ''p'' then
        do_num func 16 (s\<lparr>wd := (if wd s = 0 then 8 else wd s), pflags := pflags s OR PF_32 OR PF_PZ OR PF_CA\<rparr>)
      else if c = CHR ''X'' then do_num func 16 (s\<lparr>pflags := pflags s OR PF_CA\<rparr>)
      else if c = CHR ''x'' then do_num func 16 s
      else if c = CHR ''d'' \<or> c = CHR ''i'' then do_num func 10 (s\<lparr>pflags := pflags s OR PF_SG\<rparr>)
      else if c = CHR ''u'' then do_num func 10 s
      else if c = CHR ''o'' then do_num func 8 s
      else if c = CHR ''c'' then
        (case va s of
           Word w # rest \<Rightarrow>
             Some (emit2 func (cut [char_of (unat w)]) 1 (s\<lparr>pflags := pflags s AND NOT PF_PZ, va := rest\<rparr>))
         | _ \<Rightarrow> None)
      else if c = CHR ''s'' then
        (case va s of
           Ptr str # rest \<Rightarrow> Some (emit1 func (cut str) (s\<lparr>pflags := pflags s AND NOT PF_PZ, va := rest\<rparr>))
         | _ \<Rightarrow> None)
      else Some s)"

definition state4 :: "(char \<Rightarrow> 'p \<Rightarrow> int \<times> 'p) \<Rightarrow> char \<Rightarrow> 'p pf \<Rightarrow> 'p pf option" where
  "state4 func c s = map_option (\<lambda>s. s\<lparr>pstate := 0, pflags := 0, wd := 0\<rparr>) (conv func c s)"

definition state3 :: "(char \<Rightarrow> 'p \<Rightarrow> int \<times> 'p) \<Rightarrow> char \<Rightarrow> 'p pf \<Rightarrow> 'p pf option" where
  "state3 func c s =
     (if c = CHR ''l'' then
        Some (s\<lparr>pflags := (if pflags s AND PF_32 \<noteq> 0 then (pflags s OR PF_64) AND NOT PF_32 else pflags s OR PF_32)\<rparr>)
      else state4 func c (s\<lparr>pstate := 4\<rparr>))"

definition state2 :: "(char \<Rightarrow> 'p \<Rightarrow> int \<times> 'p) \<Rightarrow> char \<Rightarrow> 'p pf \<Rightarrow> 'p pf option" where
  "state2 func c s =
     (if of_char c \<ge> (48::nat) \<and> of_char c \<le> (57::nat)
      then Some (s\<lparr>wd := 10 * wd s + (of_nat (of_char c) - 48)\<rparr>)
      else state3 func c (s\<lparr>pstate := 3\<rparr>))"

text \<open>The loop over the format. In state 1 a zero moves on to the next character within the same turn: at the end
  of the format the loop would step over the terminator.\<close>

fun doprintf_loop :: "(char \<Rightarrow> 'p \<Rightarrow> int \<times> 'p) \<Rightarrow> string \<Rightarrow> 'p pf \<Rightarrow> 'p pf option" where
  "doprintf_loop func [] s = Some s"
| "doprintf_loop func (c # fmt) s =
     (if pstate s = 0 then
        doprintf_loop func fmt (if c \<noteq> CHR ''%'' then emit func c s else s\<lparr>pstate := 1\<rparr>)
      else if pstate s = 1 then
        (if c = CHR ''%'' then
           doprintf_loop func fmt ((emit func c s)\<lparr>pstate := 0, pflags := 0, wd := 0\<rparr>)
         else if c = CHR ''-'' then doprintf_loop func fmt (s\<lparr>pflags := pflags s OR PF_LJ\<rparr>)
         else if c = CHR ''0'' then
           (case fmt of
              [] \<Rightarrow> None
            | c # fmt \<Rightarrow>
                (case state2 func c (s\<lparr>pflags := pflags s OR PF_PZ, pstate := 2\<rparr>) of
                   None \<Rightarrow> None | Some s \<Rightarrow> doprintf_loop func fmt s))
         else (case state2 func c (s\<lparr>pstate := 2\<rparr>) of None \<Rightarrow> None | Some s \<Rightarrow> doprintf_loop func fmt s))
      else
        (case (if pstate s = 2 then state2 func c s else if pstate s = 3 then state3 func c s
               else state4 func c s) of
           None \<Rightarrow> None | Some s \<Rightarrow> doprintf_loop func fmt s))"

definition doprintf :: "string \<Rightarrow> va_slot list \<Rightarrow> (char \<Rightarrow> 'p \<Rightarrow> int \<times> 'p) \<Rightarrow> 'p \<Rightarrow> (int \<times> 'p) option" where
  "doprintf fmt args func p =
     map_option (\<lambda>s. (ret s, ptr s))
       (doprintf_loop func (cut fmt) \<lparr>pstate = 0, pflags = 0, wd = 0, ret = 0, va = args, ptr = p\<rparr>)"

text \<open>\<^verbatim>\<open>sprintf\<close> collects the characters and puts the terminator behind them; the string is what stands before it.\<close>

definition do_sprintf :: "char \<Rightarrow> string \<Rightarrow> int \<times> string" where
  "do_sprintf c buf = (1, buf @ [c])"

definition sprintf :: "string \<Rightarrow> va_slot list \<Rightarrow> string option" where
  "sprintf fmt args =
     map_option (\<lambda>(len, buf). cut (take (nat len) buf)) (doprintf fmt args do_sprintf [])"

section \<open>Numbers\<close>

fun to_base :: "bool \<Rightarrow> nat \<Rightarrow> nat \<Rightarrow> string" where
  "to_base caps b n =
     (if n < b \<or> b < 2 then [digit_char caps (n mod b)] else to_base caps b (n div b) @ [digit_char caps (n mod b)])"

declare to_base.simps [simp del]

definition char_digit :: "char \<Rightarrow> nat" where
  "char_digit c = (let k = of_char c :: nat in if k < 58 then k - 48 else if k < 91 then k - 55 else k - 87)"

definition of_base :: "nat \<Rightarrow> string \<Rightarrow> nat" where
  "of_base b cs = foldl (\<lambda>n c. b * n + char_digit c) 0 cs"

lemma digits_to_base: "digits caps b n tail = to_base caps b n @ tail"
proof (induction caps b n arbitrary: tail rule: to_base.induct)
  case (1 caps b n)
  have "n div b = 0 \<longleftrightarrow> n < b" if "b \<ge> 2" using that by (simp add: div_eq_0_iff)
  then show ?case
    using 1 by (subst digits.simps, subst to_base.simps) (auto simp: Let_def)
qed

lemma digit_char_simps:
  "k < 16 \<Longrightarrow> char_digit (digit_char caps k) = k" "k < 16 \<Longrightarrow> digit_char caps k \<noteq> CHR 0x00"
  "k < 10 \<Longrightarrow> of_char (digit_char caps k) = k + (48::nat)"
proof -
  have c: "of_char (char_of n :: char) = n" if "n < 256" for n :: nat using that by simp
  show "k < 16 \<Longrightarrow> char_digit (digit_char caps k) = k"
    unfolding char_digit_def digit_char_def Let_def by (subst c, simp)+ auto
  show "k < 10 \<Longrightarrow> of_char (digit_char caps k) = k + (48::nat)"
    unfolding digit_char_def by (subst c) auto
  assume k: "k < 16"
  have "of_char (digit_char caps k) \<noteq> (0::nat)" using k unfolding digit_char_def by (subst c) auto
  then show "digit_char caps k \<noteq> CHR 0x00" by auto
qed

lemma of_base_to_base: "2 \<le> b \<Longrightarrow> b \<le> 16 \<Longrightarrow> of_base b (to_base caps b n) = n"
proof (induction caps b n rule: to_base.induct)
  case (1 caps b n)
  have "n mod b < 16" using mod_less_divisor[of b n] 1(2,3) by linarith
  then show ?case
    using 1 by (subst to_base.simps) (auto simp: of_base_def digit_char_simps split: if_splits)
qed

lemma to_base_chars:
  assumes "b \<le> 16" and "0 < b" and "c \<in> set (to_base caps b n)"
  shows "\<exists>k < b. c = digit_char caps k"
  using assms
proof (induction caps b n rule: to_base.induct)
  case (1 caps b n)
  show ?case using 1(4) 1(1)[OF _ 1(2,3)] 1(3) by (subst (asm) to_base.simps) (auto split: if_splits intro: exI[of _ "n mod b"])
qed

lemma to_base_hd: "0 < n \<Longrightarrow> 2 \<le> b \<Longrightarrow> \<exists>k cs. to_base caps b n = digit_char caps k # cs \<and> 0 < k \<and> k < b"
proof (induction caps b n rule: to_base.induct)
  case (1 caps b n)
  show ?case
  proof (cases "n < b")
    case True
    then show ?thesis using 1 by (subst to_base.simps) auto
  next
    case False
    then have "0 < n div b" using 1(3) by (simp add: div_greater_zero_iff)
    then show ?thesis using 1(1) 1(3) False by (subst to_base.simps) fastforce
  qed
qed

lemma length_to_base: "2 \<le> b \<Longrightarrow> n < 2 ^ k \<Longrightarrow> 0 < k \<Longrightarrow> length (to_base caps b n) \<le> k"
proof (induction caps b n arbitrary: k rule: to_base.induct)
  case (1 caps b n)
  show ?case
  proof (cases "n < b")
    case True
    then show ?thesis using 1 by (subst to_base.simps) auto
  next
    case False
    have "n div b \<le> n div 2" using 1(2) by (simp add: div_le_mono2)
    moreover have "n div 2 < 2 ^ (k - 1)" using 1(3,4) by (cases k) auto
    moreover have "k \<noteq> 1" using False 1(2,3) by auto
    ultimately show ?thesis using 1(1)[of "k - 1"] 1(2,4) False by (subst to_base.simps) auto
  qed
qed

section \<open>What a format means\<close>

text \<open>
  A format as a list of pieces: text, a percent sign, and conversions with the flags and the width in front.
  A number conversion has a letter and up to two \<^verbatim>\<open>l\<close>.
\<close>

datatype item =
    Lit string
  | Pct
  | Num bool bool nat nat char u64
  | Str bool bool nat string
  | Chr bool bool nat char

definition radix_of :: "char \<Rightarrow> nat" where
  "radix_of c = (if c = CHR ''x'' \<or> c = CHR ''X'' then 16 else if c = CHR ''o'' then 8 else 10)"

definition dir_spec :: "bool \<Rightarrow> bool \<Rightarrow> nat \<Rightarrow> string" where
  "dir_spec left zero w =
     CHR ''%'' # (if left then ''-'' else []) @ (if zero then ''0'' else []) @ (if w = 0 then [] else to_base False 10 w)"

primrec fmt_of :: "item \<Rightarrow> string" where
  "fmt_of (Lit s) = s"
| "fmt_of Pct = ''%%''"
| "fmt_of (Num left zero w l c v) = dir_spec left zero w @ replicate l (CHR ''l'') @ [c]"
| "fmt_of (Str left zero w s) = dir_spec left zero w @ ''s''"
| "fmt_of (Chr left zero w s) = dir_spec left zero w @ ''c''"

primrec args_of :: "item \<Rightarrow> va_slot list" where
  "args_of (Lit s) = []"
| "args_of Pct = []"
| "args_of (Num left zero w l c v) = Word (ucast v) # (if l = 2 then [Word (ucast (drop_bit 32 v))] else [])"
| "args_of (Str left zero w s) = [Ptr s]"
| "args_of (Chr left zero w c) = [Word (of_nat (of_char c))]"

text \<open>The number a conversion shows: signed for \<^verbatim>\<open>d\<close> and \<^verbatim>\<open>i\<close>, but not with a single \<^verbatim>\<open>l\<close>.\<close>

definition shown :: "nat \<Rightarrow> bool \<Rightarrow> u64 \<Rightarrow> int" where
  "shown l sg v =
     (if sg then (if l = 0 then sint (ucast v :: u32) else if l = 1 then uint (ucast v :: u32) else sint v)
      else (if l = 2 then uint v else uint (ucast v :: u32)))"

definition field :: "bool \<Rightarrow> bool \<Rightarrow> nat \<Rightarrow> string \<Rightarrow> string \<Rightarrow> string" where
  "field left zero w sg body =
     (let fill = w - (length sg + length body)
      in if left then sg @ body @ replicate fill (CHR '' '')
         else if zero then sg @ replicate fill (CHR ''0'') @ body
         else replicate fill (CHR '' '') @ sg @ body)"

primrec text_of :: "item \<Rightarrow> string" where
  "text_of (Lit s) = s"
| "text_of Pct = ''%''"
| "text_of (Num left zero w l c v) =
     (let n = shown l (c = CHR ''d'' \<or> c = CHR ''i'') v
      in field left zero w (if n < 0 then ''-'' else []) (to_base (c = CHR ''X'') (radix_of c) (nat \<bar>n\<bar>)))"
| "text_of (Str left zero w s) = field left False w [] s"
| "text_of (Chr left zero w c) = field left False w [] [c]"

primrec item_ok :: "item \<Rightarrow> bool" where
  "item_ok (Lit s) \<longleftrightarrow> CHR ''%'' \<notin> set s \<and> CHR 0x00 \<notin> set s"
| "item_ok Pct \<longleftrightarrow> True"
| "item_ok (Num left zero w l c v) \<longleftrightarrow> w < 2 ^ 32 \<and> l \<le> 2 \<and> c \<in> set ''diuxXo''"
| "item_ok (Str left zero w s) \<longleftrightarrow> w < 2 ^ 32 \<and> length s + 1 < 2 ^ 32 \<and> CHR 0x00 \<notin> set s"
| "item_ok (Chr left zero w c) \<longleftrightarrow> w < 2 ^ 32 \<and> c \<noteq> CHR 0x00"

lemma emits_append [simp]: "emits func [] s = s" "emits func (c # cs) s = emits func cs (emit func c s)"
  "emits func (xs @ ys) s = emits func ys (emits func xs s)"
  by (simp_all add: emits_def)

lemma emit_fields [simp]:
  "pstate (emit func c s) = pstate s" "pflags (emit func c s) = pflags s" "wd (emit func c s) = wd s"
  "va (emit func c s) = va s"
  by (simp_all add: emit_def split: prod.split)

lemma emits_fields [simp]:
  "pstate (emits func cs s) = pstate s" "pflags (emits func cs s) = pflags s" "wd (emits func cs s) = wd s"
  "va (emits func cs s) = va s"
  by (induction cs arbitrary: s) simp_all

lemma emit_upd:
  "emit func c (s\<lparr>pstate := a\<rparr>) = (emit func c s)\<lparr>pstate := a\<rparr>"
  "emit func c (s\<lparr>pflags := f\<rparr>) = (emit func c s)\<lparr>pflags := f\<rparr>"
  "emit func c (s\<lparr>wd := w\<rparr>) = (emit func c s)\<lparr>wd := w\<rparr>"
  "emit func c (s\<lparr>va := x\<rparr>) = (emit func c s)\<lparr>va := x\<rparr>"
  by (simp_all add: emit_def split: prod.split)

lemma emits_upd [simp]:
  "emits func cs (s\<lparr>pstate := a\<rparr>) = (emits func cs s)\<lparr>pstate := a\<rparr>"
  "emits func cs (s\<lparr>pflags := f\<rparr>) = (emits func cs s)\<lparr>pflags := f\<rparr>"
  "emits func cs (s\<lparr>wd := w\<rparr>) = (emits func cs s)\<lparr>wd := w\<rparr>"
  "emits func cs (s\<lparr>va := x\<rparr>) = (emits func cs s)\<lparr>va := x\<rparr>"
  by (induction cs arbitrary: s) (simp_all add: emit_upd)

lemma PF_bits:
  "(f AND PF_WS = 0) = (\<not> bit f 5)" "(f AND PF_PZ = 0) = (\<not> bit f 6)" "(f AND PF_LJ = 0) = (\<not> bit f 0)"
  "(f AND PF_CA = 0) = (\<not> bit f 1)" "(f AND PF_SG = 0) = (\<not> bit f 2)" "(f AND PF_32 = 0) = (\<not> bit f 3)"
  "(f AND PF_64 = 0) = (\<not> bit f 4)"
  "(f AND (PF_WS OR PF_PZ) = PF_WS) = (bit f 5 \<and> \<not> bit f 6)"
  "(f AND (PF_WS OR PF_PZ) = PF_WS OR PF_PZ) = (bit f 5 \<and> bit f 6)"
proof -
  have e: "PF_WS = 2 ^ 5" "PF_PZ = 2 ^ 6" "PF_LJ = 2 ^ 0" "PF_CA = 2 ^ 1" "PF_SG = 2 ^ 2" "PF_32 = 2 ^ 3" "PF_64 = 2 ^ 4"
    by (simp_all add: PF_defs)
  show "(f AND PF_WS = 0) = (\<not> bit f 5)" "(f AND PF_PZ = 0) = (\<not> bit f 6)" "(f AND PF_LJ = 0) = (\<not> bit f 0)"
    "(f AND PF_CA = 0) = (\<not> bit f 1)" "(f AND PF_SG = 0) = (\<not> bit f 2)" "(f AND PF_32 = 0) = (\<not> bit f 3)"
    "(f AND PF_64 = 0) = (\<not> bit f 4)"
    unfolding e and_exp_eq_0_iff_not_bit by simp_all
  have b: "bit PF_WS n = (n = 5)" "bit PF_PZ n = (n = 6)" for n unfolding e bit_exp_iff by auto
  have i: "(f AND (PF_WS OR PF_PZ) = g) = (\<forall>n. (bit f n \<and> (n = 5 \<or> n = 6)) = bit g n)" for g
    by (simp only: bit_eq_iff[of "f AND (PF_WS OR PF_PZ)"] bit_and_iff bit_or_iff b possible_bit_word) (metis bit_imp_le_length not_less)
  have d: "(5::nat) \<noteq> 6" by simp
  show "(f AND (PF_WS OR PF_PZ) = PF_WS) = (bit f 5 \<and> \<not> bit f 6)" unfolding i b using d by metis
  show "(f AND (PF_WS OR PF_PZ) = PF_WS OR PF_PZ) = (bit f 5 \<and> bit f 6)" unfolding i bit_or_iff b by blast
qed

lemma emit2_field:
  assumes "unat cur = length sg + length txt" and "sg = (if bit (pflags s) 5 then ''-'' else [])"
  shows "emit2 func txt cur (if bit (pflags s) 6 then emits func sg s else s) =
     (emits func (field (bit (pflags s) 0) (bit (pflags s) 6) (unat (wd s)) sg txt) s)\<lparr>wd := 0\<rparr>"
proof -
  have u: "unat (wd s - cur) = unat (wd s) - unat cur" if "cur < wd s" using that by (intro unat_sub) simp
  show ?thesis
  proof (cases "cur < wd s")
    case True
    then have "\<not> wd s < cur" "cur \<le> wd s" "unat (wd s - cur) = unat (wd s) - unat cur" using u by auto
    then show ?thesis using assms True
      by (cases "bit (pflags s) 6"; cases "bit (pflags s) 0"; cases "bit (pflags s) 5")
        (simp_all add: emit2_def Let_def PF_bits field_def emit_upd)
  next
    case False
    then have w: "unat (wd s) \<le> unat cur" by (simp add: word_less_nat_alt)
    then have z: "(if wd s < cur then 0 else wd s - cur) = 0"
      using False by (metis diff_self linorder_not_less word_le_nat_alt order_antisym_conv word_le_nat_alt)
    show ?thesis using assms False w z
      by (cases "bit (pflags s) 6"; cases "bit (pflags s) 0"; cases "bit (pflags s) 5")
        (simp_all add: emit2_def Let_def PF_bits field_def emit_upd)
  qed
qed

lemma emit1_field:
  assumes "length txt + 1 < 2 ^ 32"
  shows "emit1 func txt s =
     (emits func (field (bit (pflags s) 0) (bit (pflags s) 6) (unat (wd s)) (if bit (pflags s) 5 then ''-'' else []) txt) s)
        \<lparr>wd := 0\<rparr>"
proof -
  let ?sg = "if bit (pflags s) 5 then ''-'' else []"
  have "unat (of_nat (length txt) + (if bit (pflags s) 5 then 1 else 0) :: u32) = length ?sg + length txt"
    using assms by (auto simp: unat_word_ariths unsigned_of_nat take_bit_nat_eq_self)
  note e = emit2_field[OF this refl, of func]
  show ?thesis unfolding e[symmetric] emit1_def Let_def PF_bits by (auto simp: PF_bits)
qed

text \<open>Going through the states: widths, modifiers, then the conversion.\<close>

lemma loop_states:
  "pstate s = 1 \<Longrightarrow> c \<notin> set ''%-0'' \<Longrightarrow> doprintf_loop func (c # fmt) s = doprintf_loop func (c # fmt) (s\<lparr>pstate := 2\<rparr>)"
  "pstate s = 1 \<Longrightarrow> doprintf_loop func (CHR ''0'' # c # fmt) s =
     doprintf_loop func (c # fmt) (s\<lparr>pflags := pflags s OR PF_PZ, pstate := 2\<rparr>)"
  "pstate s = 1 \<Longrightarrow> doprintf_loop func (CHR ''-'' # fmt) s = doprintf_loop func fmt (s\<lparr>pflags := pflags s OR PF_LJ\<rparr>)"
  "pstate s = 2 \<Longrightarrow> \<not> ((48::nat) \<le> of_char c \<and> of_char c \<le> (57::nat)) \<Longrightarrow>
     doprintf_loop func (c # fmt) s = doprintf_loop func (c # fmt) (s\<lparr>pstate := 3\<rparr>)"
  "pstate s = 3 \<Longrightarrow> c \<noteq> CHR ''l'' \<Longrightarrow>
     doprintf_loop func (c # fmt) s = (case state4 func c (s\<lparr>pstate := 4\<rparr>) of None \<Rightarrow> None | Some s \<Rightarrow> doprintf_loop func fmt s)"
  by (simp_all add: state2_def state3_def) (auto simp: state2_def state3_def)

lemma loop_width:
  assumes "pstate s = 2" and "\<forall>c \<in> set ds. \<exists>k < 10. c = digit_char False k" and "wd s = of_nat n"
  shows "doprintf_loop func (ds @ fmt) s = doprintf_loop func fmt (s\<lparr>wd := of_nat (foldl (\<lambda>n c. 10 * n + char_digit c) n ds)\<rparr>)"
  using assms
proof (induction ds arbitrary: s n)
  case Nil
  then have "s\<lparr>wd := of_nat n\<rparr> = s" by (cases s) simp
  then show ?case by simp
next
  case (Cons c ds)
  then obtain k where k: "k < 10" "c = digit_char False k" by auto
  let ?s = "s\<lparr>wd := of_nat (10 * n + k)\<rparr>"
  have "of_char c = k + (48::nat)" "char_digit c = k" using k digit_char_simps by simp_all
  moreover from this have "state2 func c s = Some ?s" using Cons.prems(3) k by (simp add: state2_def)
  ultimately show ?case using Cons.IH[of ?s "10 * n + k"] Cons.prems by simp
qed

lemma loop_mods:
  assumes "pstate s = 3" and "l \<le> 2" and "\<not> bit (pflags s) 3" and "\<not> bit (pflags s) 4"
  obtains f where "doprintf_loop func (replicate l (CHR ''l'') @ fmt) s = doprintf_loop func fmt (s\<lparr>pflags := f\<rparr>)"
    "bit f 3 = (l = 1)" "bit f 4 = (l = 2)" "\<And>n. n \<noteq> 3 \<Longrightarrow> n \<noteq> 4 \<Longrightarrow> bit f n = bit (pflags s) n"
proof -
  have e: "PF_32 = 2 ^ 3" "PF_64 = 2 ^ 4" by (simp_all add: PF_defs)
  have b: "bit PF_32 n = (n = 3)" "bit PF_64 n = (n = 4)" for n unfolding e bit_exp_iff by auto
  have n: "bit (NOT PF_32) n = (n < 32 \<and> n \<noteq> 3)" for n by (simp add: bit_not_iff b)
  have one: "doprintf_loop func (CHR ''l'' # fmt) s = doprintf_loop func fmt (s\<lparr>pflags :=
      (if bit (pflags s) 3 then (pflags s OR PF_64) AND NOT PF_32 else pflags s OR PF_32)\<rparr>)" if "pstate s = 3" for s fmt
    using that by (simp add: state3_def PF_bits)
  consider "l = 0" | "l = 1" | "l = 2" using assms(2) by linarith
  then show ?thesis
  proof cases
    case 1
    then show ?thesis using that[of "pflags s"] assms by simp
  next
    case 2
    then show ?thesis using that[of "pflags s OR PF_32"] assms one[of s fmt] by (simp add: bit_or_iff b)
  next
    case 3
    let ?f = "((pflags s OR PF_32) OR PF_64) AND NOT PF_32"
    have "doprintf_loop func (replicate l (CHR ''l'') @ fmt) s = doprintf_loop func fmt (s\<lparr>pflags := ?f\<rparr>)"
      using 3 assms one[of s "CHR ''l'' # fmt"] one[of "s\<lparr>pflags := pflags s OR PF_32\<rparr>" fmt]
      by (simp add: numeral_2_eq_2 bit_or_iff b)
    moreover have "bit ?f n = (n \<noteq> 3 \<and> (bit (pflags s) n \<or> n = 4))" for n
      using bit_imp_le_length[of "pflags s" n] by (auto simp: bit_and_iff bit_or_iff b n)
    ultimately show ?thesis using that[of ?f] 3 by simp
  qed
qed

text \<open>The machine when it starts a piece.\<close>

abbreviation pf_start :: "'p pf \<Rightarrow> bool" where
  "pf_start s \<equiv> pstate s = 0 \<and> pflags s = 0 \<and> wd s = 0"

lemma loop_spec:
  assumes "pf_start s" and "w < 2 ^ 32" and "\<not> ((48::nat) \<le> of_char c \<and> of_char c \<le> (57::nat))" and "c \<notin> set ''%-''"
  shows "\<exists>f. doprintf_loop func (dir_spec left zero w @ c # fmt) s = doprintf_loop func (c # fmt) (s\<lparr>pflags := f, wd := of_nat w, pstate := 3\<rparr>)
    \<and> bit f 0 = left \<and> bit f 6 = zero \<and> (\<forall>n. n \<noteq> 0 \<and> n \<noteq> 6 \<longrightarrow> \<not> bit f n)"
proof -
  have e: "PF_LJ = 2 ^ 0" "PF_PZ = 2 ^ 6" by (simp_all add: PF_defs)
  have b: "bit PF_LJ n = (n = 0)" "bit PF_PZ n = (n = 6)" for n unfolding e bit_exp_iff by auto
  let ?ds = "if w = 0 then [] else to_base False 10 w"
  have c0: "c \<noteq> CHR ''0''" using assms(3) by auto
  have ds: "\<forall>c \<in> set ?ds. \<exists>k < 10. c = digit_char False k" using to_base_chars[of 10 _ False w] by auto
  have val: "foldl (\<lambda>n c. 10 * n + char_digit c) 0 ?ds = w" using of_base_to_base[of 10 False w] by (simp add: of_base_def)
  obtain x xs where x: "?ds @ c # fmt = x # xs" by (cases ?ds) auto
  have xn: "x \<notin> set ''%-0''"
  proof (cases "w = 0")
    case False
    obtain k cs where k: "to_base False 10 w = digit_char False k # cs" "0 < k" "k < 10" using to_base_hd[of w 10 False] False by auto
    then have "x = digit_char False k" using x False by simp
    then have "of_char x = k + (48::nat)" using digit_char_simps(3) k by simp
    then show ?thesis using k by auto
  qed (use x assms(4) c0 in auto)
  define s1 where "s1 = s\<lparr>pstate := 1, pflags := (if left then PF_LJ else 0)\<rparr>"
  define f where "f = (if left then PF_LJ else 0) OR (if zero then PF_PZ else 0)"
  define s2 where "s2 = s\<lparr>pflags := f, pstate := 2\<rparr>"
  have 1: "doprintf_loop func (dir_spec left zero w @ c # fmt) s = doprintf_loop func ((if zero then ''0'' else []) @ x # xs) s1"
  proof -
    have "s\<lparr>pstate := 1\<rparr> = s1" if "\<not> left" using that assms(1) by (cases s) (simp add: s1_def)
    moreover have "doprintf_loop func (CHR ''%'' # r) s = doprintf_loop func r (s\<lparr>pstate := 1\<rparr>)" for r using assms(1) by simp
    moreover have "doprintf_loop func (CHR ''-'' # r) (s\<lparr>pstate := 1\<rparr>) = doprintf_loop func r s1" if left for r
      using loop_states(3)[of "s\<lparr>pstate := 1\<rparr>" func r] that assms(1) by (simp add: s1_def)
    ultimately show ?thesis by (cases left) (simp_all add: dir_spec_def x del: doprintf_loop.simps)
  qed
  have 2: "doprintf_loop func ((if zero then ''0'' else []) @ x # xs) s1 = doprintf_loop func (?ds @ c # fmt) s2"
    using loop_states(1)[of s1 x func xs] loop_states(2)[of s1 func x xs] xn x by (auto simp: s1_def s2_def f_def)
  have 3: "doprintf_loop func (?ds @ c # fmt) s2 = doprintf_loop func (c # fmt) (s2\<lparr>wd := of_nat w\<rparr>)"
    using loop_width[OF _ ds, of s2 0 func "c # fmt"] assms(1) val by (simp add: s2_def)
  have 4: "doprintf_loop func (c # fmt) (s2\<lparr>wd := of_nat w\<rparr>) = doprintf_loop func (c # fmt) (s\<lparr>pflags := f, wd := of_nat w, pstate := 3\<rparr>)"
    using loop_states(4)[of "s2\<lparr>wd := of_nat w\<rparr>" c func fmt] assms(3) by (simp add: s2_def)
  have "bit f n = (n = 0 \<and> left \<or> n = 6 \<and> zero)" for n by (auto simp: f_def bit_or_iff b)
  then show ?thesis using 1 2 3 4 by (intro exI[of _ f]) auto
qed

lemma sint_unat:
  fixes num :: u64
  shows "sint num < 0 \<Longrightarrow> unat (- num) = nat (- sint num)" "0 \<le> sint num \<Longrightarrow> unat num = nat (sint num)"
proof -
  have r: "- (2 ^ 63) \<le> sint num" "sint num < 2 ^ 63" using sint_greater_eq[of num] sint_lt[of num] by simp_all
  show "unat (- num) = nat (- sint num)" if "sint num < 0"
  proof -
    have "uint (- num) = uint (word_of_int (- sint num) :: u64)" by simp
    also have "\<dots> = - sint num" using r that by (subst uint_word_of_int) simp
    finally show ?thesis by (simp add: unat_eq_nat_uint)
  qed
  show "unat num = nat (sint num)" if "0 \<le> sint num"
  proof -
    have "uint num = uint (word_of_int (sint num) :: u64)" by simp
    also have "\<dots> = sint num" using r that by (subst uint_word_of_int) simp
    finally show ?thesis by (simp add: unat_eq_nat_uint)
  qed
qed

lemma word_halves: "push_bit 32 (ucast (ucast (drop_bit 32 v) :: u32)) OR ucast (ucast v :: u32) = (v :: u64)"
  by (rule bit_word_eqI) (auto simp: bit_simps)

lemma magnitude:
  fixes c d n :: int and a b :: nat
  assumes "c < 0 \<Longrightarrow> a = nat (- c)" and "0 \<le> c \<Longrightarrow> b = nat c" and "b = nat d" and "0 \<le> d"
    and "n = (if S then c else d)" and "neg = (S \<and> c < 0)"
  shows "(if neg then a else b) = nat \<bar>n\<bar> \<and> neg = (n < 0)"
  using assms by auto

lemma do_num_text:
  assumes va: "va s = Word (ucast v) # (if l = 2 then [Word (ucast (drop_bit 32 v))] else []) @ rest"
    and l: "l \<le> 2" and f: "bit (pflags s) 3 = (l = 1)" "bit (pflags s) 4 = (l = 2)" "\<not> bit (pflags s) 5"
    and radix: "2 \<le> radix" and n: "n = shown l (bit (pflags s) 2) v"
  shows "\<exists>g. do_num func radix s = Some ((emits func (field (bit (pflags s) 0) (bit (pflags s) 6) (unat (wd s))
      (if n < 0 then ''-'' else []) (to_base (bit (pflags s) 1) radix (nat \<bar>n\<bar>))) s)\<lparr>va := rest, pflags := g, wd := 0\<rparr>)"
proof -
  define num :: u64 where "num = (if l = 2 then v else if l = 1 then ucast (ucast v :: u32)
     else if bit (pflags s) 2 then scast (ucast v :: u32) else ucast (ucast v :: u32))"
  define neg where "neg = (bit (pflags s) 2 \<and> sint num < 0)"
  have a: "va_num (pflags s) (va s) = Some (num, rest)"
    using l va f(1,2) word_halves[of v] by (simp add: va_num_def PF_bits num_def)
  have lo: "sint (ucast (ucast v :: u32) :: u64) = uint (ucast v :: u32)"
  proof -
    have "0 \<le> uint (ucast v :: u32)" "uint (ucast v :: u32) < 4294967296" using uint_lt2p[of "ucast v :: u32"] by simp_all
    moreover have "- (2 ^ (LENGTH(64) - Suc 0)) \<le> (0::int)" by simp
    ultimately have "- (2 ^ (LENGTH(64) - Suc 0)) \<le> uint (ucast v :: u32)" "uint (ucast v :: u32) < 2 ^ (LENGTH(64) - Suc 0)"
      using order_trans by (blast, simp)
    then show ?thesis unfolding signed_ucast_eq by (rule signed_take_bit_int_eq_self)
  qed
  have up: "sint (scast (ucast v :: u32) :: u64) = sint (ucast v :: u32)" by (rule sint_up_scast) (simp add: is_up)
  have nn: "n = (if bit (pflags s) 2 then sint num else uint num)"
    using l lo up by (auto simp: n shown_def num_def unsigned_ucast_eq unsigned_take_bit_eq)
  have v: "unat num = nat (uint num)" "0 \<le> uint num" by (rule unat_eq_nat_uint) simp
  have m: "(if neg then unat (- num) else unat num) = nat \<bar>n\<bar> \<and> neg = (n < 0)"
    by (rule magnitude[OF sint_unat v nn neg_def])
  have u: "unat (if neg then - num else num) = nat \<bar>n\<bar>" unfolding if_distrib[of unat] using m by blast
  have sgn: "neg = (n < 0)" using m by blast
  let ?f = "if neg then pflags s OR PF_WS else pflags s"
  let ?s = "s\<lparr>va := rest, pflags := ?f\<rparr>"
  have e: "PF_WS = 2 ^ 5" by (simp add: PF_defs)
  have "bit PF_WS k = (k = 5)" for k unfolding e bit_exp_iff by auto
  then have b: "bit ?f k = (bit (pflags s) k \<or> k = 5 \<and> neg)" for k by (auto simp: bit_or_iff)
  have len: "length (to_base (bit (pflags s) 1) radix (nat \<bar>n\<bar>)) + 1 < 2 ^ 32"
  proof -
    have "unat (if neg then - num else num) < 2 ^ 64" using unsigned_less[of "if neg then - num else num", where ?'a = nat] by simp
    then have "length (to_base (bit (pflags s) 1) radix (nat \<bar>n\<bar>)) \<le> 64"
      unfolding u by (intro length_to_base[OF radix]) simp_all
    then show ?thesis by simp
  qed
  have "do_num func radix s = Some (emit1 func (to_base (bit (pflags s) 1) radix (nat \<bar>n\<bar>)) ?s)"
    using a b[of 1] u by (simp add: do_num_def Let_def PF_bits digits_to_base neg_def)
  also have "emit1 func (to_base (bit (pflags s) 1) radix (nat \<bar>n\<bar>)) ?s =
      (emits func (field (bit (pflags s) 0) (bit (pflags s) 6) (unat (wd s)) (if n < 0 then ''-'' else [])
        (to_base (bit (pflags s) 1) radix (nat \<bar>n\<bar>))) s)\<lparr>va := rest, pflags := ?f, wd := 0\<rparr>"
    unfolding emit1_field[OF len] using b[of 0] b[of 5] b[of 6] f(3) sgn by simp
  finally show ?thesis by blast
qed

lemma pf_swap:
  "s\<lparr>wd := w, pflags := f\<rparr> = s\<lparr>pflags := f, wd := w\<rparr>" "s\<lparr>pstate := a, pflags := f\<rparr> = s\<lparr>pflags := f, pstate := a\<rparr>"
  "s\<lparr>pstate := a, wd := w\<rparr> = s\<lparr>wd := w, pstate := a\<rparr>" "s\<lparr>wd := w, va := x\<rparr> = s\<lparr>va := x, wd := w\<rparr>"
  "s\<lparr>pflags := f, va := x\<rparr> = s\<lparr>va := x, pflags := f\<rparr>" "s\<lparr>pstate := a, va := x\<rparr> = s\<lparr>va := x, pstate := a\<rparr>"
  by (cases s; simp)+

lemma reset:
  assumes "pf_start r"
  shows "r\<lparr>va := x, pflags := 0, wd := 0, pstate := 0\<rparr> = r\<lparr>va := x\<rparr>"
  using assms by (cases r) simp

lemma loop_Lit: "pf_start s \<Longrightarrow> CHR ''%'' \<notin> set cs \<Longrightarrow> doprintf_loop func (cs @ fmt) s = doprintf_loop func fmt (emits func cs s)"
  by (induction cs arbitrary: s) auto

lemma loop_Num:
  assumes s: "pf_start s" and ok: "w < 2 ^ 32" "l \<le> 2" "c \<in> set ''diuxXo''"
    and va: "va s = args_of (Num left zero w l c v) @ rest"
  shows "doprintf_loop func (fmt_of (Num left zero w l c v) @ fmt) s =
     doprintf_loop func fmt ((emits func (text_of (Num left zero w l c v)) s)\<lparr>va := rest\<rparr>)"
proof -
  let ?ls = "replicate l (CHR ''l'')"
  obtain d ds where d: "?ls @ c # fmt = d # ds" by (cases ?ls) auto
  have dn: "\<not> ((48::nat) \<le> of_char d \<and> of_char d \<le> (57::nat))" "d \<notin> set ''%-''"
    using d ok(3) by (cases l; auto)+
  obtain f where f: "doprintf_loop func (dir_spec left zero w @ d # ds) s =
      doprintf_loop func (d # ds) (s\<lparr>pflags := f, wd := of_nat w, pstate := 3\<rparr>)"
    "bit f 0 = left" "bit f 6 = zero" "\<And>n. n \<noteq> 0 \<Longrightarrow> n \<noteq> 6 \<Longrightarrow> \<not> bit f n"
    using loop_spec[OF s ok(1) dn, of func left zero ds] by blast
  let ?s3 = "s\<lparr>pflags := f, wd := of_nat w, pstate := 3\<rparr>"
  obtain g where g: "doprintf_loop func (?ls @ c # fmt) ?s3 = doprintf_loop func (c # fmt) (?s3\<lparr>pflags := g\<rparr>)"
    "bit g 3 = (l = 1)" "bit g 4 = (l = 2)" "\<And>n. n \<noteq> 3 \<Longrightarrow> n \<noteq> 4 \<Longrightarrow> bit g n = bit f n"
    using loop_mods[of ?s3 l func "c # fmt"] ok(2) f(4) by auto
  have e: "PF_SG = 2 ^ 2" "PF_CA = 2 ^ 1" by (simp_all add: PF_defs)
  have b: "bit PF_SG n = (n = 2)" "bit PF_CA n = (n = 1)" for n unfolding e bit_exp_iff by auto
  let ?sg = "c = CHR ''d'' \<or> c = CHR ''i''" and ?ca = "c = CHR ''X''"
  define h where "h = g OR (if ?sg then PF_SG else 0) OR (if ?ca then PF_CA else 0)"
  define s4 where "s4 = s\<lparr>pflags := h, wd := of_nat w, pstate := 4\<rparr>"
  have h: "bit h n = (bit g n \<or> n = 2 \<and> ?sg \<or> n = 1 \<and> ?ca)" for n by (auto simp: h_def bit_or_iff b)
  let ?s4 = "s\<lparr>pflags := g, wd := of_nat w, pstate := 4\<rparr>"
  have q: "?s3\<lparr>pflags := g, pstate := 4\<rparr> = ?s4" by (simp add: pf_swap)
  have conv: "conv func c ?s4 = do_num func (radix_of c) s4"
  proof -
    have "c = CHR ''d'' \<or> c = CHR ''i'' \<or> c = CHR ''u'' \<or> c = CHR ''x'' \<or> c = CHR ''X'' \<or> c = CHR ''o''" using ok(3) by simp
    then show ?thesis by (elim disjE) (simp_all add: conv_def radix_of_def s4_def h_def pf_swap)
  qed
  have hb: "bit h 3 = (l = 1)" "bit h 4 = (l = 2)" "\<not> bit h 5" "bit h 2 = ?sg" "bit h 1 = ?ca" "bit h 0 = left" "bit h 6 = zero"
    using g(2,3) g(4)[of 5] g(4)[of 2] g(4)[of 1] g(4)[of 0] g(4)[of 6] f(2,3) f(4)[of 5] f(4)[of 2] f(4)[of 1] by (simp_all add: h)
  have w: "unat (of_nat w :: u32) = w" using ok(1) by (simp add: unsigned_of_nat take_bit_nat_eq_self)
  have r: "2 \<le> radix_of c" by (simp add: radix_of_def)
  define n where "n = shown l ?sg v"
  obtain k where k: "do_num func (radix_of c) s4 = Some ((emits func (text_of (Num left zero w l c v)) s4)\<lparr>va := rest, pflags := k, wd := 0\<rparr>)"
    using do_num_text[of s4 v l rest "radix_of c" n func] va ok(2) r hb by (auto simp: s4_def Let_def n_def w)
  have "state4 func c ?s4 = Some ((emits func (text_of (Num left zero w l c v)) s)\<lparr>va := rest\<rparr>)"
    unfolding state4_def conv k using s by (simp add: s4_def pf_swap reset del: text_of.simps)
  then show ?thesis
    using f(1) g(1) d loop_states(5)[of "?s3\<lparr>pflags := g\<rparr>" c func fmt] ok(3)
    unfolding q by (auto simp del: doprintf_loop.simps text_of.simps)
qed

lemma loop_conv:
  assumes s: "pf_start s" and ok: "w < 2 ^ 32" and c: "c = CHR ''s'' \<or> c = CHR ''c''"
    and conv: "\<And>f. bit f 0 = left \<Longrightarrow> \<not> bit f 5 \<Longrightarrow>
      \<exists>g. conv func c (s\<lparr>pflags := f, wd := of_nat w, pstate := 4\<rparr>) = Some ((emits func txt s)\<lparr>va := rest, pflags := g, wd := 0, pstate := 4\<rparr>)"
  shows "doprintf_loop func (dir_spec left zero w @ c # fmt) s = doprintf_loop func fmt ((emits func txt s)\<lparr>va := rest\<rparr>)"
proof -
  have dn: "\<not> ((48::nat) \<le> of_char c \<and> of_char c \<le> (57::nat))" "c \<notin> set ''%-''" "c \<noteq> CHR ''l''" using c by auto
  obtain f where f: "doprintf_loop func (dir_spec left zero w @ c # fmt) s =
      doprintf_loop func (c # fmt) (s\<lparr>pflags := f, wd := of_nat w, pstate := 3\<rparr>)" "bit f 0 = left" "\<not> bit f 5"
    using loop_spec[OF s ok dn(1,2), of func left zero fmt] by auto
  obtain g where g: "conv func c (s\<lparr>pflags := f, wd := of_nat w, pstate := 4\<rparr>) = Some ((emits func txt s)\<lparr>va := rest, pflags := g, wd := 0, pstate := 4\<rparr>)"
    using conv[OF f(2,3)] by blast
  have "state4 func c (s\<lparr>pflags := f, wd := of_nat w, pstate := 4\<rparr>) = Some ((emits func txt s)\<lparr>va := rest\<rparr>)"
    unfolding state4_def g using s by (simp add: pf_swap reset)
  then show ?thesis
    unfolding f(1) using loop_states(5)[of "s\<lparr>pflags := f, wd := of_nat w, pstate := 3\<rparr>" c func fmt] dn(3) by simp
qed

lemma PF_clear: "bit (f AND NOT PF_PZ) n = (n \<noteq> 6 \<and> bit f n)"
proof -
  have e: "PF_PZ = 2 ^ 6" by (simp add: PF_defs)
  show ?thesis using bit_imp_le_length[of f n] unfolding e bit_and_iff bit_not_iff bit_exp_iff by auto
qed

lemma cut_id: "CHR 0x00 \<notin> set cs \<Longrightarrow> cut cs = cs"
  by (simp add: cut_def takeWhile_eq_all_conv) metis

lemma loop_item:
  assumes s: "pf_start s" and ok: "item_ok p" and va: "va s = args_of p @ rest"
  shows "doprintf_loop func (fmt_of p @ fmt) s = doprintf_loop func fmt ((emits func (text_of p) s)\<lparr>va := rest\<rparr>)"
proof (cases p)
  case (Lit cs)
  have "(emits func cs s)\<lparr>va := rest\<rparr> = emits func cs s" using va Lit by (cases "emits func cs s") (use emits_fields(4)[of func cs s] in simp)
  then show ?thesis using loop_Lit[OF s, of cs func fmt] ok Lit by simp
next
  case Pct
  have "(emit func (CHR ''%'') s)\<lparr>va := rest\<rparr> = (emit func (CHR ''%'') s)\<lparr>pstate := 0, pflags := 0, wd := 0\<rparr>"
    using va Pct s emit_fields[of func "CHR ''%''" s] by (cases "emit func (CHR ''%'') s") simp
  then show ?thesis using s Pct by (simp add: emit_upd)
next
  case (Num left zero w l c v)
  then show ?thesis using loop_Num[OF s, of w l c left zero v rest func fmt] ok va by simp
next
  case (Str left zero w cs)
  have w: "unat (of_nat w :: u32) = w" using ok Str by (simp add: unsigned_of_nat take_bit_nat_eq_self)
  note ok' = ok[unfolded Str item_ok.simps]
  have "\<exists>g. conv func (CHR ''s'') (s\<lparr>pflags := f, wd := of_nat w, pstate := 4\<rparr>) =
      Some ((emits func (field left False w [] cs) s)\<lparr>va := rest, pflags := g, wd := 0, pstate := 4\<rparr>)"
    if "bit f 0 = left" "\<not> bit f 5" for f
    using va Str ok' that w emit1_field[of cs func "s\<lparr>pflags := f AND NOT PF_PZ, wd := of_nat w, pstate := 4, va := rest\<rparr>"]
    by (simp add: conv_def cut_id PF_clear pf_swap) blast
  from loop_conv[OF s _ _ this] show ?thesis using ok' by (simp add: Str)
next
  case (Chr left zero w c)
  have w: "unat (of_nat w :: u32) = w" using ok Chr by (simp add: unsigned_of_nat take_bit_nat_eq_self)
  note ok' = ok[unfolded Chr item_ok.simps]
  have "of_char c < (2 ^ 32 :: nat)" by (rule less_le_trans[OF nat_of_char_less_256]) simp
  then have u: "char_of (unat (of_nat (of_char c) :: u32)) = c" by (simp add: unsigned_of_nat take_bit_nat_eq_self)
  have "\<exists>g. conv func (CHR ''c'') (s\<lparr>pflags := f, wd := of_nat w, pstate := 4\<rparr>) =
      Some ((emits func (field left False w [] [c]) s)\<lparr>va := rest, pflags := g, wd := 0, pstate := 4\<rparr>)"
    if "bit f 0 = left" "\<not> bit f 5" for f
    using va Chr ok' that w u emit2_field[of 1 "[]" "[c]" "s\<lparr>pflags := f AND NOT PF_PZ, wd := of_nat w, pstate := 4, va := rest\<rparr>" func]
    by (simp add: conv_def cut_def PF_clear pf_swap) blast
  from loop_conv[OF s _ _ this] show ?thesis using ok' by (simp add: Chr)
qed

lemma loop_items:
  assumes "pf_start s" and "\<forall>p \<in> set ps. item_ok p" and "va s = concat (map args_of ps)"
  shows "\<exists>x. doprintf_loop func (concat (map fmt_of ps)) s = Some ((emits func (concat (map text_of ps)) s)\<lparr>va := x\<rparr>)"
  using assms
proof (induction ps arbitrary: s)
  case Nil
  then show ?case by (intro exI[of _ "va s"]) simp
next
  case (Cons p ps)
  let ?s = "(emits func (text_of p) s)\<lparr>va := concat (map args_of ps)\<rparr>"
  have "doprintf_loop func (concat (map fmt_of (p # ps))) s = doprintf_loop func (concat (map fmt_of ps)) ?s"
    using loop_item[of s p "concat (map args_of ps)" func "concat (map fmt_of ps)"] Cons.prems by simp
  then show ?case using Cons.IH[of ?s] Cons.prems by auto
qed

definition pf_out :: "(char \<Rightarrow> 'p \<Rightarrow> int \<times> 'p) \<Rightarrow> string \<Rightarrow> int \<times> 'p \<Rightarrow> int \<times> 'p" where
  "pf_out func cs rp = fold (\<lambda>c (r, p). case func c p of (k, p) \<Rightarrow> (r + k, p)) cs rp"

lemma emits_out: "(ret (emits func cs s), ptr (emits func cs s)) = pf_out func cs (ret s, ptr s)"
  by (induction cs arbitrary: s) (simp_all add: pf_out_def emit_def split: prod.split)

lemma out_sprintf: "pf_out do_sprintf cs (n, buf) = (n + int (length cs), buf @ cs)"
  by (induction cs arbitrary: n buf) (simp_all add: pf_out_def do_sprintf_def)

lemma to_base_no_nul: "2 \<le> b \<Longrightarrow> b \<le> 16 \<Longrightarrow> CHR 0x00 \<notin> set (to_base caps b n)"
  using to_base_chars[of b "CHR 0x00" caps n] digit_char_simps(2) by (metis less_le_trans not_numeral_le_zero not_gr_zero)

lemma field_no_nul: "CHR 0x00 \<notin> set sg \<Longrightarrow> CHR 0x00 \<notin> set body \<Longrightarrow> CHR 0x00 \<notin> set (field left zero w sg body)"
  by (simp add: field_def Let_def)

lemma item_no_nul: "item_ok p \<Longrightarrow> CHR 0x00 \<notin> set (fmt_of p) \<and> CHR 0x00 \<notin> set (text_of p)"
proof (cases p)
  case (Num left zero w l c v)
  assume "item_ok p"
  moreover have "2 \<le> radix_of c" "radix_of c \<le> 16" by (simp_all add: radix_of_def)
  moreover from this have "CHR 0x00 \<notin> set (text_of p)"
    unfolding Num text_of.simps Let_def by (intro field_no_nul to_base_no_nul) auto
  ultimately show ?thesis using Num by (auto simp: dir_spec_def to_base_no_nul simp del: text_of.simps)
qed (auto simp: dir_spec_def to_base_no_nul field_def Let_def)

lemma items_cut:
  assumes "\<forall>p \<in> set ps. item_ok p"
  shows "cut (concat (map fmt_of ps)) = concat (map fmt_of ps)" "cut (concat (map text_of ps)) = concat (map text_of ps)"
  using assms item_no_nul by (auto intro!: cut_id)

lemma doprintf_items:
  assumes "\<forall>p \<in> set ps. item_ok p"
  shows "doprintf (concat (map fmt_of ps)) (concat (map args_of ps)) func p = Some (pf_out func (concat (map text_of ps)) (0, p))"
proof -
  let ?s = "\<lparr>pstate = 0, pflags = 0, wd = 0, ret = 0, va = concat (map args_of ps), ptr = p\<rparr>"
  obtain x where "doprintf_loop func (concat (map fmt_of ps)) ?s = Some ((emits func (concat (map text_of ps)) ?s)\<lparr>va := x\<rparr>)"
    using loop_items[of ?s ps func] assms by auto
  then show ?thesis using emits_out[of func "concat (map text_of ps)" ?s] by (simp add: doprintf_def items_cut[OF assms])
qed

lemma sprintf_items:
  assumes "\<forall>p \<in> set ps. item_ok p"
  shows "sprintf (concat (map fmt_of ps)) (concat (map args_of ps)) = Some (concat (map text_of ps))"
  using doprintf_items[OF assms, of do_sprintf "[]"] by (simp add: sprintf_def out_sprintf items_cut[OF assms])

section \<open>Properties\<close>

text \<open>C30. \<^verbatim>\<open>doprintf\<close> does what its format says: on every format made of text, percent signs and conversions (numbers
  with any flags, width and up to two \<^verbatim>\<open>l\<close>, strings, characters) and matching arguments it returns, hands the
  output function exactly the text of the pieces, in order, and adds up its results; \<^verbatim>\<open>sprintf\<close> returns that text.
  The text of a number is its digits with the sign in front, filled with zeros behind the sign or with blanks
  on the left, or with blanks on the right, up to the width. A single \<^verbatim>\<open>l\<close> makes even \<^verbatim>\<open>%ld\<close> unsigned.\<close>

theorem doprintf_correct:
  assumes "\<forall>p \<in> set ps. item_ok p"
  shows "doprintf (concat (map fmt_of ps)) (concat (map args_of ps)) func p = Some (pf_out func (concat (map text_of ps)) (0, p)) \<and>
    sprintf (concat (map fmt_of ps)) (concat (map args_of ps)) = Some (concat (map text_of ps))"
  by (rule conjI[OF doprintf_items[OF assms] sprintf_items[OF assms]])

definition fmt_items :: "item list" where
  "fmt_items = [Lit ''disk'', Num False False 0 0 (CHR ''d'') 7, Lit ''p'', Num False True 4 0 (CHR ''x'') 0xBE,
     Num True False 4 0 (CHR ''d'') (- 3), Lit ''|'']"

theorem doprintf_correct_witness:
  "sprintf ''disk%dp%04x%-4d|'' [Word 7, Word 0xBE, Word (- 3)] = Some ''disk7p00be-3  |''"
proof -
  have "\<forall>p \<in> set fmt_items. item_ok p" by (simp add: fmt_items_def)
  from conjunct2[OF doprintf_correct[OF this]]
  have "sprintf (concat (map fmt_of fmt_items)) (concat (map args_of fmt_items)) = Some (concat (map text_of fmt_items))" .
  moreover have "concat (map fmt_of fmt_items) = ''disk%dp%04x%-4d|''" by code_simp
  moreover have "concat (map args_of fmt_items) = [Word 7, Word 0xBE, Word (- 3)]" by code_simp
  moreover have "concat (map text_of fmt_items) = ''disk7p00be-3  |''" by code_simp
  ultimately show ?thesis by simp
qed

text \<open>C31. The digits that the unsigned conversions print read back as the number, in the radix of the conversion and
  for every 32-bit argument, without leading zeros (only zero itself starts with a zero).\<close>

theorem sprintf_number_roundtrip:
  assumes "c \<in> set ''uxXo''"
  shows "\<exists>s. sprintf [CHR ''%'', c] [Word v] = Some s \<and> of_base (radix_of c) s = unat v \<and> s \<noteq> [] \<and> (hd s = CHR ''0'' \<longrightarrow> v = 0)"
proof -
  let ?s = "to_base (c = CHR ''X'') (radix_of c) (unat v)"
  have b: "2 \<le> radix_of c" "radix_of c \<le> 16" by (simp_all add: radix_of_def)
  have q: "(ucast (ucast v :: u64) :: u32) = v" by (rule bit_word_eqI) (simp add: bit_simps)
  have "\<not> (c = CHR ''d'' \<or> c = CHR ''i'')" using assms by auto
  then have sh: "shown 0 (c = CHR ''d'' \<or> c = CHR ''i'') (ucast v) = uint v" by (simp only: shown_def q if_False) simp
  have "text_of (Num False False 0 0 c (ucast v)) = ?s"
    unfolding text_of.simps Let_def sh by (simp add: field_def)
  moreover have "fmt_of (Num False False 0 0 c (ucast v)) = [CHR ''%'', c]" "args_of (Num False False 0 0 c (ucast v)) = [Word v]"
    by (simp add: dir_spec_def) (simp only: args_of.simps q, simp)
  moreover have "item_ok (Num False False 0 0 c (ucast v))" using assms by auto
  ultimately have "sprintf [CHR ''%'', c] [Word v] = Some ?s"
    using sprintf_items[of "[Num False False 0 0 c (ucast v)]"] by (simp del: text_of.simps fmt_of.simps args_of.simps item_ok.simps)
  moreover have "hd ?s \<noteq> CHR ''0'' \<and> ?s \<noteq> []" if "v \<noteq> 0"
  proof -
    have "0 < unat v" using that by (simp add: unat_gt_0)
    then obtain k cs where "?s = digit_char (c = CHR ''X'') k # cs" "0 < k" "k < radix_of c" using to_base_hd b(1) by blast
    moreover from this have "digit_char (c = CHR ''X'') k \<noteq> digit_char (c = CHR ''X'') 0"
      using digit_char_simps(1)[of k] digit_char_simps(1)[of 0] b(2) by (metis less_le_trans less_irrefl zero_less_numeral)
    moreover have "digit_char (c = CHR ''X'') 0 = CHR ''0''" unfolding digit_char_def by code_simp
    ultimately show ?thesis by simp
  qed
  moreover have "?s \<noteq> []" by (subst to_base.simps) simp
  ultimately show ?thesis using of_base_to_base[OF b, of "c = CHR ''X''" "unat v"] by blast
qed

theorem sprintf_number_roundtrip_witness:
  "\<exists>s. sprintf ''%x'' [Word 0xC0FFEE] = Some s \<and> of_base 16 s = 0xC0FFEE \<and> s \<noteq> []"
  using sprintf_number_roundtrip[of "CHR ''x''" "0xC0FFEE"] by (auto simp: radix_of_def)

end
