(* ===== verification/Storage.thy ===== *)
theory Storage
  imports Devices Printf
begin

text \<open>
  The storage layer under \<^verbatim>\<open>modules/drivers/storage/\<close>: the buffers of a device (\<^verbatim>\<open>buffer.c\<close>), partitions
  (\<^verbatim>\<open>msdos-part.c\<close>) and the block driver that puts both in front of a disk driver (\<^verbatim>\<open>storage.c\<close>). The disk driver is
  a parameter: operations on its state \<open>'d\<close> that move whole sectors of 512 bytes. A request runs under the
  mutex of its device and is one step. \<open>None\<close> is an access outside an array.
\<close>

section \<open>Buffers\<close>

definition SECTOR :: nat where "SECTOR = 512"
definition STORAGE_BUFER_SIZE :: nat where "STORAGE_BUFER_SIZE = 0x10000"
definition STORAGE_MAX_PARTS :: nat where "STORAGE_MAX_PARTS = 0x10"
definition STORAGE_TYPE_DISK :: nat where "STORAGE_TYPE_DISK = 1"

text \<open>Sectors per buffer, \<^verbatim>\<open>STORAGE_BUFER_SIZE / 512\<close>.\<close>

abbreviation SPB :: nat where "SPB \<equiv> STORAGE_BUFER_SIZE div 512"

datatype rw = RW_READ | RW_WRITE

record storage_buffer =
  sb_start :: int
  sb_data :: "u8 list"
  last_used :: nat
  sb_used :: nat
  is_dirty :: bool

record storage_partition =
  pt_start :: nat
  pt_size :: nat
  pt_type :: u8

text \<open>Reading gives the C result and the bytes that arrived in the buffer; the count is in sectors.\<close>

record 'd storage_ops =
  so_read :: "nat \<Rightarrow> int \<Rightarrow> 'd \<Rightarrow> (int \<times> u8 list) \<times> 'd"
  so_write :: "u8 list \<Rightarrow> nat \<Rightarrow> int \<Rightarrow> 'd \<Rightarrow> int \<times> 'd"

record 'd storage =
  sid :: int
  stype :: nat
  sdevid :: dev_t
  buffer_list :: "storage_buffer list"
  sops :: "'d storage_ops"
  parts :: "storage_partition list"
  dataptr :: 'd

text \<open>The driver state together with the global count of buffers, and what a buffer function reads besides: the
  clock and the contents of fresh heap memory.\<close>

record 'd dio =
  drv :: 'd
  total_buffers :: int

record benv =
  ticks :: nat
  heap :: "nat \<Rightarrow> u8"

definition buffer_read :: "benv \<Rightarrow> 'd storage_ops \<Rightarrow> int \<Rightarrow> 'd dio \<Rightarrow> storage_buffer option \<times> 'd dio" where
  "buffer_read e ops start x =
     (case so_read ops SPB start (drv x) of
        ((err, bs), d) \<Rightarrow>
          if err < 0 then (None, x\<lparr>drv := d\<rparr>)
          else (Some \<lparr>sb_start = start, sb_data = resize bs STORAGE_BUFER_SIZE (heap e), last_used = ticks e, sb_used = 1,
                       is_dirty = False\<rparr>, x\<lparr>drv := d, total_buffers := total_buffers x + 1\<rparr>))"

definition buffer_write :: "'d storage_ops \<Rightarrow> storage_buffer \<Rightarrow> 'd \<Rightarrow> int \<times> storage_buffer \<times> 'd" where
  "buffer_write ops b d =
     (case so_write ops (sb_data b) SPB (sb_start b) d of
        (err, d) \<Rightarrow> if err < 0 then (err, b, d) else (0, b\<lparr>is_dirty := False\<rparr>, d))"

text \<open>The buffer at a position of the list is freed. Neither this function nor \<^verbatim>\<open>buffer_write\<close> has a caller.\<close>

definition buffer_free :: "'d storage_ops \<Rightarrow> nat \<Rightarrow> storage_buffer list \<Rightarrow> 'd \<Rightarrow> int \<times> storage_buffer list \<times> 'd" where
  "buffer_free ops k bufs d =
     (let (err, b, d) = (if is_dirty (bufs ! k) then buffer_write ops (bufs ! k) d else (0, bufs ! k, d))
      in if err < 0 then (err, bufs, d) else (0, take k bufs @ drop (Suc k) bufs, d))"

text \<open>A request under way: sectors left, the next sector, and the caller's memory (the bytes read so far, or the
  bytes still to be written).\<close>

record xfer =
  left :: nat
  off :: int
  mem :: "u8 list"

definition touch :: "benv \<Rightarrow> storage_buffer \<Rightarrow> storage_buffer" where
  "touch e b = b\<lparr>last_used := ticks e, sb_used := sb_used b + 1\<rparr>"

definition move :: "rw \<Rightarrow> storage_buffer \<Rightarrow> xfer \<Rightarrow> storage_buffer \<times> xfer" where
  "move rw b x =
     (let sects = min (left x) (nat (int SPB - (off x - sb_start b)));
          pos = nat (off x - sb_start b) * SECTOR;
          x' = x\<lparr>left := left x - sects, off := off x + int sects\<rparr>
      in case rw of
           RW_READ \<Rightarrow> (b, x'\<lparr>mem := mem x @ take (sects * SECTOR) (drop pos (sb_data b))\<rparr>)
         | RW_WRITE \<Rightarrow> (b\<lparr>sb_data := overwrite (sb_data b) pos (take (sects * SECTOR) (mem x)), is_dirty := True\<rparr>,
                         x'\<lparr>mem := drop (sects * SECTOR) (mem x)\<rparr>))"

text \<open>The walk over the list. A buffer that the request lies behind is passed; when the next one lies behind the
  request, a buffer is read and put between them. The flag is false after a failed read.\<close>

definition before :: "'a list \<Rightarrow> bool \<times> 'a list \<times> 'b \<Rightarrow> bool \<times> 'a list \<times> 'b" where
  "before as r = (case r of (ok, bs, y) \<Rightarrow> (ok, as @ bs, y))"

fun scan :: "benv \<Rightarrow> 'd storage_ops \<Rightarrow> rw \<Rightarrow> storage_buffer list \<Rightarrow> xfer \<Rightarrow> 'd dio \<Rightarrow>
    bool \<times> storage_buffer list \<times> xfer \<times> 'd dio" where
  "scan e ops rw [] x d = (True, [], x, d)"
| "scan e ops rw (b # bs) x d =
     (if sb_start b \<le> off x then
        if sb_start b + int SPB < off x then
          (case bs of
             [] \<Rightarrow> (True, [b], x, d)
           | b2 # _ \<Rightarrow>
               if sb_start b2 \<le> off x then
                 (before [b] (scan e ops rw bs x d))
               else
                 (case buffer_read e ops (ROUND_DOWN (off x) (int SPB)) d of
                    (None, d) \<Rightarrow> (False, b # bs, x, d)
                  | (Some n, d) \<Rightarrow>
                      (case move rw (touch e n) x of (n, x) \<Rightarrow>
                         (before [b, n] (scan e ops rw bs x d)))))
        else
          (case move rw (touch e b) x of (b, x) \<Rightarrow>
             (before [b] (scan e ops rw bs x d)))
      else (before [b] (scan e ops rw bs x d)))"

declare scan.simps(2) [simp del]

lemma scan_Cons:
  "scan e ops rw (b # bs) x d =
     (if sb_start b \<le> off x \<and> sb_start b + int SPB < off x then
        if bs = [] then (True, [b], x, d)
        else if sb_start (hd bs) \<le> off x then (before [b] (scan e ops rw bs x d))
        else
          (case buffer_read e ops (ROUND_DOWN (off x) (int SPB)) d of
             (None, d) \<Rightarrow> (False, b # bs, x, d)
           | (Some n, d) \<Rightarrow>
               (case move rw (touch e n) x of (n, x) \<Rightarrow>
                  (before [b, n] (scan e ops rw bs x d))))
      else if sb_start b \<le> off x then
        (case move rw (touch e b) x of (b, x) \<Rightarrow>
           (before [b] (scan e ops rw bs x d)))
      else (before [b] (scan e ops rw bs x d)))"
  by (subst scan.simps(2)) (cases bs; simp)

text \<open>\<^verbatim>\<open>while (left > 0)\<close>: the rest comes from new buffers at the end of the list.\<close>

lemma move_progress:
  "snd (move rw b x) = x' \<Longrightarrow> sb_start b \<le> off x \<Longrightarrow> off x < sb_start b + int SPB \<Longrightarrow> 0 < left x \<Longrightarrow> left x' < left x"
  by (auto simp: move_def Let_def split: rw.splits)

lemma buffer_read_start: "buffer_read e ops start d = (Some n, d') \<Longrightarrow> sb_start n = start"
  by (auto simp: buffer_read_def split: prod.splits if_splits)

lemma ROUND_DOWN_int: "0 < n \<Longrightarrow> ROUND_DOWN v n \<le> v \<and> v < ROUND_DOWN v n + n" for v n :: int
  using pos_mod_bound[of n v] pos_mod_sign[of n v] by (simp add: ROUND_DOWN_def)

lemma SPB_pos: "0 < int SPB" "0 < SPB"
  by (simp_all add: STORAGE_BUFER_SIZE_def)

lemma buffer_read_progress:
  assumes "buffer_read e ops (ROUND_DOWN (off x) (int SPB)) d = (Some m, d')" "move rw m x = (n, x')" "0 < left x"
  shows "left x' < left x"
proof -
  have "sb_start m = ROUND_DOWN (off x) (int SPB)" using assms(1) by (rule buffer_read_start)
  then show ?thesis using move_progress[of rw m x x'] assms(2,3) ROUND_DOWN_int[OF SPB_pos(1), of "off x"] by simp
qed

function fill :: "benv \<Rightarrow> 'd storage_ops \<Rightarrow> rw \<Rightarrow> storage_buffer list \<Rightarrow> xfer \<Rightarrow> 'd dio \<Rightarrow>
    bool \<times> storage_buffer list \<times> xfer \<times> 'd dio" where
  "fill e ops rw bufs x d =
     (if left x = 0 then (True, bufs, x, d)
      else case buffer_read e ops (ROUND_DOWN (off x) (int SPB)) d of
        (None, d) \<Rightarrow> (False, bufs, x, d)
      | (Some n, d) \<Rightarrow> (case move rw n x of (n, x) \<Rightarrow> fill e ops rw (bufs @ [n]) x d))"
  by pat_completeness auto
termination
  by (relation "measure (\<lambda>(_, _, _, _, x, _). left x)") (auto dest!: sym[of "(_, _)"] simp: buffer_read_progress)

declare fill.simps [simp del]

definition storage_buffer_rw :: "benv \<Rightarrow> 'd storage \<Rightarrow> int \<Rightarrow> u8 list \<Rightarrow> nat \<Rightarrow> int \<Rightarrow> rw \<Rightarrow>
    (int \<times> u8 list) \<times> 'd storage \<times> int" where
  "storage_buffer_rw e st count buf len start rw =
     (let x = \<lparr>left = len, off = start, mem = buf\<rparr>;
          (ok, bufs, x, d) = scan e (sops st) rw (buffer_list st) x \<lparr>drv = dataptr st, total_buffers = count\<rparr>;
          (ok, bufs, x, d) = (if ok then fill e (sops st) rw bufs x d else (ok, bufs, x, d))
      in ((if ok then int (len - left x) else - errno_code EIO, mem x),
          st\<lparr>buffer_list := bufs, dataptr := drv d\<rparr>, total_buffers d))"

section \<open>Partitions\<close>

text \<open>The fields of a boot sector: four entries of sixteen bytes from \<^verbatim>\<open>0x1BE\<close> on, little endian, and the signature in
  the last two bytes.\<close>

definition le32 :: "u8 list \<Rightarrow> nat \<Rightarrow> nat" where
  "le32 bs k = unat (bs ! k) + 256 * unat (bs ! (k + 1)) + 65536 * unat (bs ! (k + 2)) + 16777216 * unat (bs ! (k + 3))"

definition entry :: "nat \<Rightarrow> nat" where "entry i = 0x1BE + 16 * i"
definition fsid :: "u8 list \<Rightarrow> nat \<Rightarrow> u8" where "fsid bs i = bs ! (entry i + 4)"
definition lba_start :: "u8 list \<Rightarrow> nat \<Rightarrow> nat" where "lba_start bs i = le32 bs (entry i + 8)"
definition lba_size :: "u8 list \<Rightarrow> nat \<Rightarrow> nat" where "lba_size bs i = le32 bs (entry i + 12)"

text \<open>The signature test of the source refuses a sector only when both bytes are wrong.\<close>

definition bad_magic :: "u8 list \<Rightarrow> bool" where
  "bad_magic bs \<longleftrightarrow> bs ! 510 \<noteq> 0x55 \<and> bs ! 511 \<noteq> 0xAA"

text \<open>One sector read into a structure on the stack, whose bytes are unspecified before.\<close>

definition read_sector :: "(nat \<Rightarrow> u8) \<Rightarrow> 'd storage_ops \<Rightarrow> int \<Rightarrow> 'd \<Rightarrow> u8 list option \<times> 'd" where
  "read_sector junk ops k d =
     (case so_read ops 1 k d of ((err, bs), d) \<Rightarrow> (if err \<noteq> 1 then None else Some (resize bs SECTOR junk), d))"

text \<open>The chain of an extended partition whose entry starts at \<open>base\<close>; the counter is the next free table entry.\<close>

function ebr_loop :: "(nat \<Rightarrow> u8) \<Rightarrow> 'd storage_ops \<Rightarrow> nat \<Rightarrow> nat \<Rightarrow> nat \<Rightarrow> storage_partition list \<Rightarrow> 'd \<Rightarrow>
    (nat \<times> storage_partition list \<times> 'd) option" where
  "ebr_loop junk ops base start tmp pts d =
     (case read_sector junk ops (int start) d of
        (None, d) \<Rightarrow> Some (tmp, pts, d)
      | (Some ebr, d) \<Rightarrow>
          if bad_magic ebr then Some (tmp, pts, d)
          else if length pts \<le> tmp then None
          else
            let pts = pts[tmp := \<lparr>pt_start = base + start + lba_start ebr 0, pt_size = lba_size ebr 0, pt_type = fsid ebr 0\<rparr>];
                tmp = tmp + 1
            in if lba_start ebr 1 \<noteq> 0 \<and> lba_size ebr 1 \<noteq> 0 \<and> tmp < 14
               then ebr_loop junk ops base (lba_start ebr 1) tmp pts d
               else Some (tmp, pts, d))"
  by pat_completeness auto
termination by (relation "measure (\<lambda>(_, _, _, _, tmp, _, _). 14 - tmp)") auto

declare ebr_loop.simps [simp del]

fun mbr_loop :: "(nat \<Rightarrow> u8) \<Rightarrow> 'd storage_ops \<Rightarrow> u8 list \<Rightarrow> nat list \<Rightarrow> nat \<Rightarrow> storage_partition list \<Rightarrow> 'd \<Rightarrow>
    (storage_partition list \<times> 'd) option" where
  "mbr_loop junk ops mbr [] tmp pts d = Some (pts, d)"
| "mbr_loop junk ops mbr (i # is) tmp pts d =
     (if fsid mbr i = 0 then mbr_loop junk ops mbr is tmp pts d
      else let pts = pts[i := \<lparr>pt_start = lba_start mbr i, pt_size = lba_size mbr i, pt_type = fsid mbr i\<rparr>]
        in if fsid mbr i = 0x05 \<or> fsid mbr i = 0x0F then
             (case ebr_loop junk ops (lba_start mbr i) 0 tmp pts d of
                None \<Rightarrow> None | Some (tmp, pts, d) \<Rightarrow> mbr_loop junk ops mbr is tmp pts d)
           else mbr_loop junk ops mbr is tmp pts d)"

definition partirion_msdos_detect :: "(nat \<Rightarrow> u8) \<Rightarrow> 'd storage \<Rightarrow> 'd storage option" where
  "partirion_msdos_detect junk st =
     (case read_sector junk (sops st) 0 (dataptr st) of
        (None, d) \<Rightarrow> Some (st\<lparr>dataptr := d\<rparr>)
      | (Some mbr, d) \<Rightarrow>
          if bad_magic mbr then Some (st\<lparr>dataptr := d\<rparr>)
          else
            map_option (\<lambda>(pts, d). st\<lparr>parts := pts, dataptr := d\<rparr>)
              (mbr_loop junk (sops st) mbr [0, 1, 2, 3] 4
                 (replicate STORAGE_MAX_PARTS \<lparr>pt_start = 0, pt_size = 0, pt_type = 0\<rparr>) d))"

section \<open>The block driver\<close>

text \<open>All devices, the counters of the names by type, the clock and the heap.\<close>

record 'd sworld =
  stores :: "nat \<Rightarrow> 'd storage"
  storage_list :: "nat list"
  next_store :: nat
  next_id :: "int list"
  buffers :: int
  env :: benv

text \<open>The part of a request that lies in the partition: \<open>Inl\<close> is a result without I/O. The comparisons are those of
  unsigned 64-bit numbers.\<close>

definition clip :: "'d storage \<Rightarrow> nat \<Rightarrow> nat \<Rightarrow> int \<Rightarrow> (int + nat \<times> int) option" where
  "clip st p len start =
     (if stype st = STORAGE_TYPE_DISK \<and> p > 0 then
        if length (parts st) < p then None
        else let pt = parts st ! (p - 1)
          in if pt_type pt = 0 then Some (Inl (- errno_code ENODEV))
             else if start mod 2 ^ 64 \<ge> int (pt_size pt) then Some (Inl 0)
             else Some (Inr (if (start + int len) mod 2 ^ 64 > int (pt_size pt) then nat (int (pt_size pt) - start) else len,
                             start + int (pt_start pt)))
      else Some (Inr (len, start)))"

definition storage_open :: "nat \<Rightarrow> dev_t \<Rightarrow> 'w \<Rightarrow> int \<times> 'w" where
  "storage_open s dev w = (0, w)"

definition storage_read :: "nat \<Rightarrow> dev_t \<Rightarrow> nat \<Rightarrow> int \<Rightarrow> 'd sworld \<Rightarrow> ((int \<times> u8 list) \<times> 'd sworld) option" where
  "storage_read s dev len start w =
     (case clip (stores w s) (DEV_MINOR dev) len start of
        None \<Rightarrow> None
      | Some (Inl r) \<Rightarrow> Some ((r, []), w)
      | Some (Inr (len, start)) \<Rightarrow>
          (case storage_buffer_rw (env w) (stores w s) (buffers w) [] len start RW_READ of
             (r, st, n) \<Rightarrow> Some (r, w\<lparr>stores := (stores w)(s := st), buffers := n\<rparr>)))"

definition storage_write :: "nat \<Rightarrow> dev_t \<Rightarrow> u8 list \<Rightarrow> int \<Rightarrow> 'd sworld \<Rightarrow> (int \<times> 'd sworld) option" where
  "storage_write s dev buf start w =
     (case clip (stores w s) (DEV_MINOR dev) (length buf div SECTOR) start of
        None \<Rightarrow> None
      | Some (Inl r) \<Rightarrow> Some (r, w)
      | Some (Inr (len, start)) \<Rightarrow>
          (case storage_buffer_rw (env w) (stores w s) (buffers w) buf len start RW_WRITE of
             ((r, _), st, n) \<Rightarrow> Some (r, w\<lparr>stores := (stores w)(s := st), buffers := n\<rparr>)))"

definition storage_ioctl :: "nat \<Rightarrow> dev_t \<Rightarrow> int \<Rightarrow> u32 \<Rightarrow> 'w \<Rightarrow> int \<times> 'w" where
  "storage_ioctl s dev cmd arg w = (- errno_code ENOSYS, w)"

text \<open>The driver as the block switch sees it. The state \<open>None\<close> is a machine stopped by a fault.\<close>

definition storage_bdev_ops :: "'d sworld option bdev_ops" where
  "storage_bdev_ops =
     \<lparr>b_open = storage_open,
      b_read = Some (\<lambda>s dev len start w.
        case Option.bind w (storage_read s dev len start) of None \<Rightarrow> ((0, []), None) | Some (r, w) \<Rightarrow> (r, Some w)),
      b_write = Some (\<lambda>s dev buf start w.
        case Option.bind w (storage_write s dev buf start) of None \<Rightarrow> (0, None) | Some (r, w) \<Rightarrow> (r, Some w)),
      b_ioctl = Some storage_ioctl\<rparr>"

definition storage_names :: "string list" where
  "storage_names = [''unknown'', ''disk'', ''optical'', ''floppy'']"

text \<open>Registering the partitions that have a type, in the order of the table; the threads woken are collected.\<close>

fun register_parts :: "nat \<Rightarrow> int \<Rightarrow> dev_t \<Rightarrow> storage_partition list \<Rightarrow> nat \<Rightarrow> registry \<Rightarrow> (nat list \<times> registry) option" where
  "register_parts type k dev [] i r = Some ([], r)"
| "register_parts type k dev (pt # pts) i r =
     (if pt_type pt = 0 then register_parts type k dev pts (i + 1) r
      else case sprintf ''%s%dp%d'' [Ptr (storage_names ! type), Word (of_int k), Word (of_nat (i + 1))] of
        None \<Rightarrow> None
      | Some name \<Rightarrow>
          (case device_register DEV_BLOCK name (MK_DEV (DEV_MAJOR dev) (i + 1)) r of
             (ws, r) \<Rightarrow> map_option (\<lambda>(ws', r). (ws @ ws', r)) (register_parts type k dev pts (i + 1) r)))"

definition storage_register :: "nat \<Rightarrow> 'd storage_ops \<Rightarrow> 'd \<Rightarrow> 'd sworld \<Rightarrow> 'd sworld option bdev_table \<Rightarrow> registry \<Rightarrow>
    (dev_t \<times> nat list \<times> 'd sworld \<times> 'd sworld option bdev_table \<times> registry) option" where
  "storage_register type ops dptr w table r =
     (if 4 \<le> type then None
      else
        let s = next_store w;
            (dev, table) = bdev_register storage_bdev_ops s table;
            k = next_id w ! type;
            st = \<lparr>sid = k, stype = type, sdevid = dev, buffer_list = [], sops = ops,
                  parts = replicate STORAGE_MAX_PARTS \<lparr>pt_start = 0, pt_size = 0, pt_type = 0\<rparr>, dataptr = dptr\<rparr>;
            w = w\<lparr>stores := (stores w)(s := st), storage_list := s # storage_list w, next_store := s + 1,
                  next_id := (next_id w)[type := k + 1]\<rparr>
        in case sprintf ''%s%d'' [Ptr (storage_names ! type), Word (of_int k)] of
             None \<Rightarrow> None
           | Some name \<Rightarrow>
               (case device_register DEV_BLOCK name dev r of (ws, r) \<Rightarrow>
                  if type = STORAGE_TYPE_DISK then
                    (case partirion_msdos_detect (heap (env w)) st of
                       None \<Rightarrow> None
                     | Some st \<Rightarrow>
                         map_option (\<lambda>(ws', r). (dev, ws @ ws', w\<lparr>stores := (stores w)(s := st)\<rparr>, table, r))
                           (register_parts type k dev (parts st) 0 r))
                  else Some (dev, ws, w, table, r)))"

section \<open>Reading through clean buffers\<close>

text \<open>The contents of a disk by sector, and a driver that returns them and is not changed by reading.\<close>

definition sectors :: "(int \<Rightarrow> u8 list) \<Rightarrow> int \<Rightarrow> nat \<Rightarrow> u8 list" where
  "sectors sec s n = concat (map (\<lambda>i. sec (s + int i)) [0..<n])"

definition disk_reads :: "'d storage_ops \<Rightarrow> (int \<Rightarrow> u8 list) \<Rightarrow> 'd \<Rightarrow> bool" where
  "disk_reads ops sec d \<longleftrightarrow> (\<forall>s. length (sec s) = SECTOR) \<and> (\<forall>n s. so_read ops n s d = ((int n, sectors sec s n), d))"

definition coherent :: "(int \<Rightarrow> u8 list) \<Rightarrow> storage_buffer list \<Rightarrow> bool" where
  "coherent sec bufs \<longleftrightarrow> (\<forall>b \<in> set bufs. sb_data b = sectors sec (sb_start b) SPB)"

lemma sectors_simps [simp]: "sectors sec s 0 = []" "sectors sec s (Suc n) = sectors sec s n @ sec (s + int n)"
  by (simp_all add: sectors_def)

lemma sectors_add: "sectors sec s (m + n) = sectors sec s m @ sectors sec (s + int m) n"
  by (induction n) (simp_all add: add.assoc)

lemma length_sectors: "\<forall>s. length (sec s) = SECTOR \<Longrightarrow> length (sectors sec s n) = n * SECTOR"
  by (induction n) simp_all

lemma sectors_slice:
  assumes "\<forall>s. length (sec s) = SECTOR" and "k + n \<le> m"
  shows "take (n * SECTOR) (drop (k * SECTOR) (sectors sec s m)) = sectors sec (s + int k) n"
proof -
  have m: "m = k + (n + (m - k - n))" using assms(2) by simp
  have "sectors sec s m = sectors sec s k @ sectors sec (s + int k) n @ sectors sec (s + int k + int n) (m - k - n)"
    by (subst m) (simp add: sectors_add)
  then show ?thesis by (simp add: length_sectors[OF assms(1)])
qed

lemma BUF_sectors: "SPB * SECTOR = STORAGE_BUFER_SIZE"
  by (simp add: STORAGE_BUFER_SIZE_def SECTOR_def)

lemma buffer_read_disk:
  assumes "disk_reads ops sec (drv d)"
  shows "\<exists>n. buffer_read e ops s d = (Some n, d\<lparr>total_buffers := total_buffers d + 1\<rparr>) \<and> sb_start n = s \<and>
    sb_data n = sectors sec s SPB"
proof -
  have "length (sectors sec s SPB) = STORAGE_BUFER_SIZE"
    using assms length_sectors[of sec s SPB] BUF_sectors by (simp add: disk_reads_def)
  then have "resize (sectors sec s SPB) STORAGE_BUFER_SIZE j = sectors sec s SPB" for j by (simp add: resize_def)
  then show ?thesis using assms by (simp add: buffer_read_def disk_reads_def)
qed

lemma move_read_clean:
  assumes "\<forall>s. length (sec s) = SECTOR" and "sb_data b = sectors sec (sb_start b) SPB"
    and "sb_start b \<le> off x" and "off x \<le> sb_start b + int SPB"
  shows "\<exists>k \<le> left x. move RW_READ b x = (b, \<lparr>left = left x - k, off = off x + int k, mem = mem x @ sectors sec (off x) k\<rparr>)"
proof -
  define k where "k = min (left x) (nat (int SPB - (off x - sb_start b)))"
  define j where "j = nat (off x - sb_start b)"
  have "j + k \<le> SPB" using assms(3,4) by (simp add: k_def j_def)
  moreover have "sb_start b + int j = off x" using assms(3) by (simp add: j_def)
  ultimately have "take (k * SECTOR) (drop (j * SECTOR) (sb_data b)) = sectors sec (off x) k"
    using sectors_slice[OF assms(1), of j k SPB "sb_start b"] assms(2) by simp
  then have "move RW_READ b x = (b, \<lparr>left = left x - k, off = off x + int k, mem = mem x @ sectors sec (off x) k\<rparr>)"
    unfolding move_def Let_def rw.case k_def[symmetric] j_def[symmetric] by (cases x) simp
  moreover have "k \<le> left x" by (simp add: k_def)
  ultimately show ?thesis by blast
qed

lemma touch_simps [simp]: "sb_start (touch e b) = sb_start b" "sb_data (touch e b) = sb_data b"
  by (simp_all add: touch_def)

lemma coherent_simps [simp]: "coherent sec []" "coherent sec (b # bs) \<longleftrightarrow> sb_data b = sectors sec (sb_start b) SPB \<and> coherent sec bs"
  "coherent sec (as @ bs) \<longleftrightarrow> coherent sec as \<and> coherent sec bs"
  by (auto simp: coherent_def)

text \<open>What a part of a read does: \<open>k\<close> more sectors are in the memory, the buffers stay clean.\<close>

definition read_done :: "(int \<Rightarrow> u8 list) \<Rightarrow> xfer \<Rightarrow> 'd dio \<Rightarrow> bool \<times> storage_buffer list \<times> xfer \<times> 'd dio \<Rightarrow> bool" where
  "read_done sec x d r \<longleftrightarrow> (\<exists>bufs k n. k \<le> left x \<and> coherent sec bufs \<and>
     r = (True, bufs, \<lparr>left = left x - k, off = off x + int k, mem = mem x @ sectors sec (off x) k\<rparr>, d\<lparr>total_buffers := n\<rparr>))"

lemma read_done_refl: "coherent sec bufs \<Longrightarrow> read_done sec x d (True, bufs, x, d)"
  unfolding read_done_def by (intro exI[of _ bufs] exI[of _ 0] exI[of _ "total_buffers d"]) simp

lemma read_done_step:
  assumes "k \<le> left x" and "coherent sec as" and x': "x' = \<lparr>left = left x - k, off = off x + int k, mem = mem x @ sectors sec (off x) k\<rparr>"
    and "d' = d\<lparr>total_buffers := m\<rparr>" and "read_done sec x' d' r"
  shows "read_done sec x d (before as r)"
proof -
  obtain bufs j n where "j \<le> left x'" "coherent sec bufs"
    "r = (True, bufs, \<lparr>left = left x' - j, off = off x' + int j, mem = mem x' @ sectors sec (off x') j\<rparr>, d'\<lparr>total_buffers := n\<rparr>)"
    using assms(5) unfolding read_done_def by blast
  then show ?thesis using assms(1-4) unfolding read_done_def
    by (intro exI[of _ "as @ bufs"] exI[of _ "k + j"] exI[of _ n]) (simp add: sectors_add add.assoc before_def)
qed

lemma read_done_skip:
  assumes "coherent sec as" and "read_done sec x d r"
  shows "read_done sec x d (before as r)"
  by (rule read_done_step[where k = 0 and x' = x and d' = d and m = "total_buffers d"]) (use assms in simp_all)

lemma scan_read_clean:
  assumes "disk_reads ops sec (drv d)" and "coherent sec bufs"
  shows "read_done sec x d (scan e ops RW_READ bufs x d)"
  using assms
proof (induction bufs arbitrary: x d)
  case Nil
  then show ?case using read_done_refl[of sec "[]"] by simp
next
  case (Cons b bs)
  have len: "\<forall>s. length (sec s) = SECTOR" and b: "sb_data b = sectors sec (sb_start b) SPB" and bs: "coherent sec bs"
    using Cons.prems by (simp_all add: disk_reads_def)
  have skip: "read_done sec x d (before [b] (scan e ops RW_READ bs x d))"
    using read_done_skip[of sec "[b]", OF _ Cons.IH[OF Cons.prems(1) bs]] b by simp
  have hit: "read_done sec x d (case move RW_READ (touch e c) x of (c, x) \<Rightarrow>
      (before (as @ [c]) (scan e ops RW_READ bs x (d\<lparr>total_buffers := m\<rparr>))))"
    if c: "sb_data c = sectors sec (sb_start c) SPB" "sb_start c \<le> off x" "off x \<le> sb_start c + int SPB" "coherent sec as" for c as m
  proof -
    obtain k where k: "k \<le> left x" "move RW_READ (touch e c) x =
        (touch e c, \<lparr>left = left x - k, off = off x + int k, mem = mem x @ sectors sec (off x) k\<rparr>)"
      using move_read_clean[OF len, of "touch e c" x] c by auto
    have "disk_reads ops sec (drv (d\<lparr>total_buffers := m\<rparr>))" using Cons.prems(1) by simp
    from read_done_step[OF k(1) _ refl refl Cons.IH[OF this bs], of "as @ [touch e c]"] c k show ?thesis by simp
  qed
  obtain n where n: "buffer_read e ops (ROUND_DOWN (off x) (int SPB)) d = (Some n, d\<lparr>total_buffers := total_buffers d + 1\<rparr>)"
    "sb_start n = ROUND_DOWN (off x) (int SPB)" "sb_data n = sectors sec (sb_start n) SPB"
    using buffer_read_disk[OF Cons.prems(1)] by metis
  have "sb_start n \<le> off x" "off x \<le> sb_start n + int SPB" using ROUND_DOWN_int[OF SPB_pos(1), of "off x"] n(2) by simp_all
  note ins = hit[OF n(3) this, of "[b]"]
  show ?case
    unfolding scan_Cons using skip hit[of b "[]" "total_buffers d"] ins read_done_refl[of sec "[b]" x d] b n(1) by simp
qed

lemma fill_read_clean:
  assumes "disk_reads ops sec (drv d)" and "coherent sec bufs"
  shows "\<exists>bufs' n. coherent sec bufs' \<and> fill e ops RW_READ bufs x d =
    (True, bufs', \<lparr>left = 0, off = off x + int (left x), mem = mem x @ sectors sec (off x) (left x)\<rparr>, d\<lparr>total_buffers := n\<rparr>)"
  using assms
proof (induction "left x" arbitrary: x d bufs rule: less_induct)
  case less
  show ?case
  proof (cases "left x = 0")
    case True
    have "fill e ops RW_READ bufs x d = (True, bufs, x, d)" using True by (subst fill.simps) simp
    moreover have "x = \<lparr>left = 0, off = off x + int (left x), mem = mem x @ sectors sec (off x) (left x)\<rparr>"
      using True by (cases x) simp
    moreover have "d = d\<lparr>total_buffers := total_buffers d\<rparr>" by simp
    ultimately show ?thesis using less.prems(2) by metis
  next
    case False
    obtain n where n: "buffer_read e ops (ROUND_DOWN (off x) (int SPB)) d = (Some n, d\<lparr>total_buffers := total_buffers d + 1\<rparr>)"
      "sb_start n = ROUND_DOWN (off x) (int SPB)" "sb_data n = sectors sec (sb_start n) SPB"
      using buffer_read_disk[OF less.prems(1)] by metis
    have "sb_start n \<le> off x" "off x \<le> sb_start n + int SPB" using ROUND_DOWN_int[OF SPB_pos(1), of "off x"] n(2) by simp_all
    then obtain k where k: "k \<le> left x" "move RW_READ n x =
        (n, \<lparr>left = left x - k, off = off x + int k, mem = mem x @ sectors sec (off x) k\<rparr>)"
      using move_read_clean[of sec n x] n(3) less.prems(1) by (auto simp: disk_reads_def)
    let ?x = "\<lparr>left = left x - k, off = off x + int k, mem = mem x @ sectors sec (off x) k\<rparr>"
    have lt: "left ?x < left x" using buffer_read_progress[OF n(1) k(2)] False by simp
    have "disk_reads ops sec (drv (d\<lparr>total_buffers := total_buffers d + 1\<rparr>))" "coherent sec (bufs @ [n])"
      using less.prems n(3) by simp_all
    then obtain bufs' m where b: "coherent sec bufs'" "fill e ops RW_READ (bufs @ [n]) ?x (d\<lparr>total_buffers := total_buffers d + 1\<rparr>) =
        (True, bufs', \<lparr>left = 0, off = off ?x + int (left ?x), mem = mem ?x @ sectors sec (off ?x) (left ?x)\<rparr>, d\<lparr>total_buffers := m\<rparr>)"
      using less.hyps[OF lt] by fastforce
    have "sectors sec (off x) k @ sectors sec (off x + int k) (left x - k) = sectors sec (off x) (left x)"
      using sectors_add[of sec "off x" k "left x - k"] k(1) by simp
    then have "fill e ops RW_READ bufs x d =
        (True, bufs', \<lparr>left = 0, off = off x + int (left x), mem = mem x @ sectors sec (off x) (left x)\<rparr>, d\<lparr>total_buffers := m\<rparr>)"
      using b(2) k False n(1) by (subst fill.simps) simp
    then show ?thesis using b(1) by blast
  qed
qed

lemma rw_read_clean:
  assumes "disk_reads (sops st) sec (dataptr st)" and "coherent sec (buffer_list st)"
  shows "\<exists>st' n. storage_buffer_rw e st count [] len start RW_READ = ((int len, sectors sec start len), st', n) \<and>
    coherent sec (buffer_list st') \<and> dataptr st' = dataptr st \<and> sops st' = sops st \<and> parts st' = parts st \<and> stype st' = stype st"
proof -
  let ?x = "\<lparr>left = len, off = start, mem = []\<rparr>" and ?d = "\<lparr>drv = dataptr st, total_buffers = count\<rparr>"
  have disk: "disk_reads (sops st) sec (drv (?d\<lparr>total_buffers := n\<rparr>))" for n using assms(1) by simp
  obtain bufs k n where s: "k \<le> len" "coherent sec bufs" "scan e (sops st) RW_READ (buffer_list st) ?x ?d =
      (True, bufs, \<lparr>left = len - k, off = start + int k, mem = sectors sec start k\<rparr>, ?d\<lparr>total_buffers := n\<rparr>)"
    using scan_read_clean[of "sops st" sec ?d "buffer_list st" ?x e] assms unfolding read_done_def by auto
  let ?y = "\<lparr>left = len - k, off = start + int k, mem = sectors sec start k\<rparr>"
  obtain bufs' m where f: "coherent sec bufs'" "fill e (sops st) RW_READ bufs ?y (?d\<lparr>total_buffers := n\<rparr>) =
      (True, bufs', \<lparr>left = 0, off = off ?y + int (left ?y), mem = mem ?y @ sectors sec (off ?y) (left ?y)\<rparr>, ?d\<lparr>total_buffers := m\<rparr>)"
    using fill_read_clean[OF disk s(2), of e ?y n] by auto
  have "sectors sec start k @ sectors sec (start + int k) (len - k) = sectors sec start len"
    using sectors_add[of sec start k "len - k"] s(1) by simp
  then show ?thesis using s(3) f by (simp add: storage_buffer_rw_def)
qed

section \<open>Writing and reading back\<close>

abbreviation full :: "storage_buffer \<Rightarrow> bool" where
  "full b \<equiv> length (sb_data b) = STORAGE_BUFER_SIZE"

lemma buffer_read_full: "buffer_read e ops s d = (Some n, d') \<Longrightarrow> full n"
  by (auto simp: buffer_read_def length_resize split: prod.splits if_splits)

lemma move_write_read:
  assumes w: "move RW_WRITE b x = (b', x')" and "sb_start b \<le> off x" and "off x \<le> sb_start b + int SPB"
    and "full b" and "length (mem x) = left x * SECTOR"
  shows "sb_start b' = sb_start b" "full b'" "length (mem x') = left x' * SECTOR"
    "\<exists>c. mem x = c @ mem x' \<and> (\<forall>b'' acc. sb_start b'' = sb_start b' \<and> sb_data b'' = sb_data b' \<longrightarrow>
       move RW_READ b'' (x\<lparr>mem := acc\<rparr>) = (b'', x'\<lparr>mem := acc @ c\<rparr>))"
proof -
  define k where "k = min (left x) (nat (int SPB - (off x - sb_start b)))"
  define j where "j = nat (off x - sb_start b)"
  have kj: "j + k \<le> SPB" "k \<le> left x" using assms(2,3) by (simp_all add: k_def j_def)
  have le: "j * SECTOR + length (take (k * SECTOR) (mem x)) \<le> length (sb_data b)"
  proof -
    have "j * SECTOR + k * SECTOR \<le> SPB * SECTOR" using kj(1) by (metis add_mult_distrib mult_le_mono1)
    then show ?thesis using assms(4) BUF_sectors by simp
  qed
  have l: "length (take (k * SECTOR) (mem x)) = k * SECTOR" using assms(5) mult_le_mono1[OF kj(2), of SECTOR] by simp
  note o = overwrite_simps[OF le]
  have b': "b' = b\<lparr>sb_data := overwrite (sb_data b) (j * SECTOR) (take (k * SECTOR) (mem x)), is_dirty := True\<rparr>"
    and x': "x' = x\<lparr>left := left x - k, off := off x + int k, mem := drop (k * SECTOR) (mem x)\<rparr>"
    using w unfolding move_def Let_def rw.case k_def[symmetric] j_def[symmetric] by simp_all
  show "sb_start b' = sb_start b" "full b'" using o(1) assms(4) by (simp_all add: b')
  show "length (mem x') = left x' * SECTOR" using assms(5) kj(2) by (simp add: x' diff_mult_distrib)
  have "move RW_READ b'' (x\<lparr>mem := acc\<rparr>) = (b'', x'\<lparr>mem := acc @ take (k * SECTOR) (mem x)\<rparr>)"
    if "sb_start b'' = sb_start b'" "sb_data b'' = sb_data b'" for b'' acc
  proof -
    have s: "sb_start b'' = sb_start b" using that(1) by (simp add: b')
    have "take (k * SECTOR) (drop (j * SECTOR) (sb_data b'')) = take (k * SECTOR) (mem x)"
      using o(3) that(2) l by (simp add: b')
    then show ?thesis unfolding move_def Let_def rw.case
      by (simp add: s k_def[symmetric] j_def[symmetric] x')
  qed
  then show "\<exists>c. mem x = c @ mem x' \<and> (\<forall>b'' acc. sb_start b'' = sb_start b' \<and> sb_data b'' = sb_data b' \<longrightarrow>
       move RW_READ b'' (x\<lparr>mem := acc\<rparr>) = (b'', x'\<lparr>mem := acc @ c\<rparr>))"
    by (intro exI[of _ "take (k * SECTOR) (mem x)"]) (simp add: x')
qed

text \<open>Buffers at the end of the list that hold the rest of a request.\<close>

fun covering :: "storage_buffer list \<Rightarrow> xfer \<Rightarrow> bool" where
  "covering [] x \<longleftrightarrow> left x = 0"
| "covering (n # as) x \<longleftrightarrow> sb_start n \<le> off x \<and> off x \<le> sb_start n + int SPB \<and>
     (\<exists>x' c. length (mem x') = left x' * SECTOR \<and> mem x = c @ mem x' \<and> covering as x' \<and>
        (\<forall>b acc. sb_start b = sb_start n \<and> sb_data b = sb_data n \<longrightarrow> move RW_READ b (x\<lparr>mem := acc\<rparr>) = (b, x'\<lparr>mem := acc @ c\<rparr>)))"

text \<open>A read over the list transfers all of \<open>bytes\<close>.\<close>

definition yields :: "benv \<Rightarrow> 'd storage_ops \<Rightarrow> storage_buffer list \<Rightarrow> xfer \<Rightarrow> u8 list \<Rightarrow> 'd dio \<Rightarrow> bool" where
  "yields e ops bufs x bytes d \<longleftrightarrow> (\<exists>bufs' x'. scan e ops RW_READ bufs x d = (True, bufs', x', d) \<and> left x' = 0 \<and> mem x' = mem x @ bytes)"

lemma yields_skip:
  assumes "yields e ops bs x bytes d" and "\<not> sb_start b \<le> off x \<or> sb_start b + int SPB < off x \<and> bs \<noteq> [] \<and> sb_start (hd bs) \<le> off x"
  shows "yields e ops (b # bs) x bytes d"
  using assms unfolding yields_def scan_Cons before_def by auto

lemma yields_hit:
  assumes "yields e ops bs (x'\<lparr>mem := acc @ c\<rparr>) bytes d" and "sb_start b \<le> off x" and "off x \<le> sb_start b + int SPB"
    and "\<And>b'. sb_start b' = sb_start b \<Longrightarrow> sb_data b' = sb_data b \<Longrightarrow> move RW_READ b' (x\<lparr>mem := acc\<rparr>) = (b', x'\<lparr>mem := acc @ c\<rparr>)"
  shows "yields e ops (b # bs) (x\<lparr>mem := acc\<rparr>) (c @ bytes) d"
proof -
  have m: "move RW_READ (touch e b) (x\<lparr>mem := acc\<rparr>) = (touch e b, x'\<lparr>mem := acc @ c\<rparr>)" by (rule assms(4)) simp_all
  show ?thesis using assms(1-3) unfolding yields_def scan_Cons before_def by (auto simp: m)
qed

lemma yields_covering: "covering as x \<Longrightarrow> length (mem x) = left x * SECTOR \<Longrightarrow> yields e ops as (x\<lparr>mem := acc\<rparr>) (mem x) d"
proof (induction as arbitrary: x acc)
  case Nil
  then show ?case by (simp add: yields_def)
next
  case (Cons n as)
  obtain x' c where c: "length (mem x') = left x' * SECTOR" "mem x = c @ mem x'" "covering as x'"
    "\<And>b acc. sb_start b = sb_start n \<Longrightarrow> sb_data b = sb_data n \<Longrightarrow> move RW_READ b (x\<lparr>mem := acc\<rparr>) = (b, x'\<lparr>mem := acc @ c\<rparr>)"
    using Cons.prems(1) by auto
  have "yields e ops as (x'\<lparr>mem := acc @ c\<rparr>) (mem x') d" by (rule Cons.IH[OF c(3,1)])
  from yields_hit[OF this, where b = n and x = x] show ?case using c(2,4) Cons.prems(1) by simp
qed

lemma fill_covering:
  assumes "fill e ops RW_WRITE bufs x d = (True, bufs', y, d')" and "length (mem x) = left x * SECTOR"
  shows "left y = 0 \<and> (\<exists>as. bufs' = bufs @ as \<and> covering as x \<and> (\<forall>b \<in> set as. full b))"
  using assms
proof (induction "left x" arbitrary: x d bufs rule: less_induct)
  case less
  show ?case
  proof (cases "left x = 0")
    case True
    then show ?thesis using less.prems(1) by (subst (asm) fill.simps) simp
  next
    case False
    obtain n d1 where n: "buffer_read e ops (ROUND_DOWN (off x) (int SPB)) d = (Some n, d1)"
      using less.prems(1) False by (subst (asm) fill.simps) (auto split: prod.splits option.splits)
    obtain b x1 where m: "move RW_WRITE n x = (b, x1)" by (metis prod.exhaust)
    have r: "sb_start n \<le> off x" "off x \<le> sb_start n + int SPB"
      using ROUND_DOWN_int[OF SPB_pos(1), of "off x"] buffer_read_start[OF n] by simp_all
    note w = move_write_read[OF m r buffer_read_full[OF n] less.prems(2)]
    have lt: "left x1 < left x" using buffer_read_progress[OF n m] False by simp
    have "fill e ops RW_WRITE (bufs @ [b]) x1 d1 = (True, bufs', y, d')"
      using less.prems(1) False n m by (subst (asm) fill.simps) simp
    from less.hyps[OF lt this w(3)] obtain as where as: "left y = 0" "bufs' = (bufs @ [b]) @ as" "covering as x1" "\<forall>b \<in> set as. full b"
      by blast
    have "covering (b # as) x" using w(1,3,4) r as(3) by auto
    then show ?thesis using as w(2) by (intro conjI exI[of _ "b # as"]) simp_all
  qed
qed

lemma before_True: "before as r = (True, bs', y) \<Longrightarrow> \<exists>bs. r = (True, bs, y) \<and> bs' = as @ bs"
  by (auto simp: before_def split: prod.splits)

lemma scan_hd:
  assumes "scan e ops RW_WRITE (b # bs) x d = (True, bufs', y, d')"
  shows "bufs' \<noteq> [] \<and> sb_start (hd bufs') = sb_start b"
  using assms unfolding scan_Cons
  by (auto dest!: before_True simp: move_def Let_def split: if_splits prod.splits option.splits)

lemma scan_again:
  assumes "scan e ops RW_WRITE bufs x d = (True, bufs', y, d')" and "\<forall>b \<in> set bufs. full b" and "length (mem x) = left x * SECTOR"
  shows "length (mem y) = left y * SECTOR \<and> (\<forall>b \<in> set bufs'. full b) \<and>
    (\<forall>as acc. covering as y \<longrightarrow> yields e' ops' (bufs' @ as) (x\<lparr>mem := acc\<rparr>) (mem x) d0)"
  using assms
proof (induction bufs arbitrary: x d bufs')
  case Nil
  then show ?case using yields_covering by auto
next
  case (Cons b bs)
  have fb: "full b" and fbs: "\<forall>b \<in> set bs. full b" using Cons.prems(2) by simp_all
  consider (stop) "sb_start b \<le> off x" "sb_start b + int SPB < off x" "bs = []"
    | (pass) "sb_start b \<le> off x" "sb_start b + int SPB < off x" "bs \<noteq> []" "sb_start (hd bs) \<le> off x"
    | (ins) "sb_start b \<le> off x" "sb_start b + int SPB < off x" "bs \<noteq> []" "\<not> sb_start (hd bs) \<le> off x"
    | (hit) "sb_start b \<le> off x" "off x \<le> sb_start b + int SPB" | (skip) "\<not> sb_start b \<le> off x" by linarith
  then show ?case
  proof cases
    case stop
    then have y: "bufs' = [b]" "y = x" using Cons.prems(1) unfolding scan_Cons by auto
    have "yields e' ops' (b # as) (x\<lparr>mem := acc\<rparr>) (mem x) d0" if "covering as x" for as acc
    proof (cases as)
      case Nil
      then show ?thesis using that Cons.prems(3) stop by (simp add: yields_def scan_Cons)
    next
      case (Cons n as')
      have "yields e' ops' as (x\<lparr>mem := acc\<rparr>) (mem x) d0" using yields_covering[OF that Cons.prems(3)] .
      then show ?thesis using yields_skip[of e' ops' as "x\<lparr>mem := acc\<rparr>" "mem x" d0 b] stop that Cons by simp
    qed
    then show ?thesis using y Cons.prems(3) fb by simp
  next
    case pass
    then have "before [b] (scan e ops RW_WRITE bs x d) = (True, bufs', y, d')" using Cons.prems(1) unfolding scan_Cons by simp
    then obtain bs1 where b: "scan e ops RW_WRITE bs x d = (True, bs1, y, d')" "bufs' = b # bs1" using before_True by fastforce
    obtain b2 bs2 where bs: "bs = b2 # bs2" using pass(3) by (cases bs) auto
    have "bs1 \<noteq> []" "sb_start (hd bs1) = sb_start b2" using scan_hd[OF b(1)[unfolded bs]] by simp_all
    then have "yields e' ops' (b # bs1 @ as) (x\<lparr>mem := acc\<rparr>) (mem x) d0" if "covering as y" for as acc
      using Cons.IH[OF b(1) fbs Cons.prems(3)] that pass bs by (intro yields_skip) (auto simp: hd_append)
    then show ?thesis using Cons.IH[OF b(1) fbs Cons.prems(3)] fb b(2) by simp
  next
    case ins
    obtain n d1 where n: "buffer_read e ops (ROUND_DOWN (off x) (int SPB)) d = (Some n, d1)"
      using Cons.prems(1) ins unfolding scan_Cons by (auto split: prod.splits option.splits)
    obtain c x1 where m: "move RW_WRITE (touch e n) x = (c, x1)" by (metis prod.exhaust)
    have r: "sb_start (touch e n) \<le> off x" "off x \<le> sb_start (touch e n) + int SPB"
      using ROUND_DOWN_int[OF SPB_pos(1), of "off x"] buffer_read_start[OF n] by simp_all
    have "full (touch e n)" using buffer_read_full[OF n] by simp
    note w = move_write_read[OF m r this Cons.prems(3)]
    have "before [b, c] (scan e ops RW_WRITE bs x1 d1) = (True, bufs', y, d')" using Cons.prems(1) n m ins unfolding scan_Cons by simp
    then obtain bs1 where b: "scan e ops RW_WRITE bs x1 d1 = (True, bs1, y, d')" "bufs' = b # c # bs1" using before_True by fastforce
    note IH = Cons.IH[OF b(1) fbs w(3)]
    obtain t where t: "mem x = t @ mem x1" "\<And>b acc. sb_start b = sb_start c \<Longrightarrow> sb_data b = sb_data c \<Longrightarrow>
        move RW_READ b (x\<lparr>mem := acc\<rparr>) = (b, x1\<lparr>mem := acc @ t\<rparr>)" using w(4) by auto
    have h: "yields e' ops' (c # bs1 @ as) (x\<lparr>mem := acc\<rparr>) (mem x) d0" if "covering as y" for as acc
      using yields_hit[where e = e' and ops = ops' and bs = "bs1 @ as" and x' = x1 and acc = acc and c = t and bytes = "mem x1" and d = d0 and b = c and x = x]
        IH that t r w(1) by (simp add: t(1))
    have "yields e' ops' (b # c # bs1 @ as) (x\<lparr>mem := acc\<rparr>) (mem x) d0" if "covering as y" for as acc
      by (rule yields_skip[OF h[OF that]]) (use ins r w(1) in simp)
    then show ?thesis using IH b(2) fb w(2) by simp
  next
    case hit
    obtain c x1 where m: "move RW_WRITE (touch e b) x = (c, x1)" by (metis prod.exhaust)
    have f: "full (touch e b)" and r: "sb_start (touch e b) \<le> off x" "off x \<le> sb_start (touch e b) + int SPB" using fb hit by simp_all
    note w = move_write_read[OF m r f Cons.prems(3)]
    have "before [c] (scan e ops RW_WRITE bs x1 d) = (True, bufs', y, d')" using Cons.prems(1) m hit unfolding scan_Cons by simp
    then obtain bs1 where b: "scan e ops RW_WRITE bs x1 d = (True, bs1, y, d')" "bufs' = c # bs1" using before_True by fastforce
    note IH = Cons.IH[OF b(1) fbs w(3)]
    obtain t where t: "mem x = t @ mem x1" "\<And>b acc. sb_start b = sb_start c \<Longrightarrow> sb_data b = sb_data c \<Longrightarrow>
        move RW_READ b (x\<lparr>mem := acc\<rparr>) = (b, x1\<lparr>mem := acc @ t\<rparr>)" using w(4) by auto
    have "yields e' ops' (c # bs1 @ as) (x\<lparr>mem := acc\<rparr>) (mem x) d0" if "covering as y" for as acc
      using yields_hit[where e = e' and ops = ops' and bs = "bs1 @ as" and x' = x1 and acc = acc and c = t and bytes = "mem x1" and d = d0 and b = c and x = x] IH that t r w(1) by (simp add: t(1))
    then show ?thesis using IH b(2) w(2) by simp
  next
    case skip
    then have "before [b] (scan e ops RW_WRITE bs x d) = (True, bufs', y, d')" using Cons.prems(1) unfolding scan_Cons by simp
    then obtain bs1 where b: "scan e ops RW_WRITE bs x d = (True, bs1, y, d')" "bufs' = b # bs1" using before_True by fastforce
    have "yields e' ops' (b # bs1 @ as) (x\<lparr>mem := acc\<rparr>) (mem x) d0" if "covering as y" for as acc
      using Cons.IH[OF b(1) fbs Cons.prems(3)] that skip by (intro yields_skip) auto
    then show ?thesis using Cons.IH[OF b(1) fbs Cons.prems(3)] fb b(2) by simp
  qed
qed

lemma rw_write_read:
  assumes "storage_buffer_rw e st count bytes len start RW_WRITE = ((int len, m), st', count')"
    and "\<forall>b \<in> set (buffer_list st). full b" and "length bytes = len * SECTOR"
  shows "\<exists>st2 c2. storage_buffer_rw e' st' count' [] len start RW_READ = ((int len, bytes), st2, c2) \<and> c2 = count' \<and>
    dataptr st2 = dataptr st' \<and> (\<forall>b \<in> set (buffer_list st'). full b)"
proof -
  let ?x = "\<lparr>left = len, off = start, mem = bytes\<rparr>" and ?d = "\<lparr>drv = dataptr st, total_buffers = count\<rparr>"
  obtain ok bufs y d where s: "scan e (sops st) RW_WRITE (buffer_list st) ?x ?d = (ok, bufs, y, d)" by (metis prod_cases4)
  have ok: ok using assms(1) s errno_code_pos[of EIO] by (cases ok) (auto simp: storage_buffer_rw_def)
  obtain ok2 bufs2 y2 d2 where f: "fill e (sops st) RW_WRITE bufs y d = (ok2, bufs2, y2, d2)" by (metis prod_cases4)
  have ok2: ok2 using assms(1) s f ok errno_code_pos[of EIO] by (cases ok2) (auto simp: storage_buffer_rw_def)
  have st': "st' = st\<lparr>buffer_list := bufs2, dataptr := drv d2\<rparr>" "count' = total_buffers d2"
    using assms(1) s f ok ok2 by (simp_all add: storage_buffer_rw_def)
  have l: "length (mem ?x) = left ?x * SECTOR" using assms(3) by simp
  note sa = scan_again[OF s[unfolded eqTrueI[OF ok]] assms(2) l]
  obtain as where as: "bufs2 = bufs @ as" "covering as y" "\<forall>b \<in> set as. full b"
    using fill_covering[OF f[unfolded eqTrueI[OF ok2]]] sa by blast
  have "yields e' (sops st) bufs2 (?x\<lparr>mem := []\<rparr>) bytes \<lparr>drv = drv d2, total_buffers = total_buffers d2\<rparr>"
    using scan_again[OF s[unfolded eqTrueI[OF ok]] assms(2) l, of e' "sops st" "\<lparr>drv = drv d2, total_buffers = total_buffers d2\<rparr>"] as
    by auto
  then obtain bufs3 x3 where r: "scan e' (sops st) RW_READ bufs2 \<lparr>left = len, off = start, mem = []\<rparr> \<lparr>drv = drv d2, total_buffers = total_buffers d2\<rparr> =
      (True, bufs3, x3, \<lparr>drv = drv d2, total_buffers = total_buffers d2\<rparr>)" "left x3 = 0" "mem x3 = bytes" unfolding yields_def by auto
  have "fill e' (sops st) RW_READ bufs3 x3 \<lparr>drv = drv d2, total_buffers = total_buffers d2\<rparr> =
      (True, bufs3, x3, \<lparr>drv = drv d2, total_buffers = total_buffers d2\<rparr>)" using r(2) by (subst fill.simps) simp
  then show ?thesis using r sa as by (auto simp: storage_buffer_rw_def st')
qed

section \<open>Properties\<close>

text \<open>C32. Reading through the buffers of a disk on which nothing has been written: whatever the list of buffers
  looks like, a read of a partition returns the sectors of the disk at the start of the partition plus the
  offset, as many as were asked for and lie in the partition, and leaves every buffer equal to the disk, so the
  same holds for the next read.\<close>

theorem storage_read_correct:
  fixes w :: "'d sworld" and s :: nat and dev :: dev_t
  defines "st \<equiv> stores w s" and "pt \<equiv> parts (stores w s) ! (DEV_MINOR dev - 1)"
  assumes "disk_reads (sops st) sec (dataptr st)" and "coherent sec (buffer_list st)" and "stype st = STORAGE_TYPE_DISK"
    and "0 < DEV_MINOR dev" and "DEV_MINOR dev \<le> length (parts st)" and "pt_type pt \<noteq> 0"
    and "0 \<le> start" and "start + int len < 2 ^ 63"
  shows "let n = min len (nat (int (pt_size pt) - start))
    in \<exists>w'. storage_read s dev len start w = Some ((int n, sectors sec (int (pt_start pt) + start) n), w') \<and>
      coherent sec (buffer_list (stores w' s)) \<and> disk_reads (sops (stores w' s)) sec (dataptr (stores w' s))"
proof -
  define n where "n = min len (nat (int (pt_size pt) - start))"
  have pt': "parts st ! (DEV_MINOR dev - 1) = pt" by (simp add: pt_def st_def)
  have m: "start mod 2 ^ 64 = start" "(start + int len) mod 2 ^ 64 = start + int len" using assms(9,10) by simp_all
  show ?thesis
  proof (cases "start < int (pt_size pt)")
    case True
    have "clip st (DEV_MINOR dev) len start = Some (Inr (n, start + int (pt_start pt)))"
      using assms(5-10) True unfolding clip_def Let_def m pt' by (auto simp: n_def)
    then show ?thesis
      using rw_read_clean[OF assms(3,4), of "env w" "buffers w" n "start + int (pt_start pt)"]
      unfolding n_def[symmetric] Let_def storage_read_def st_def[symmetric] by (auto simp: add.commute assms(3))
  next
    case False
    have n0: "n = 0" using False by (simp add: n_def)
    have "clip st (DEV_MINOR dev) len start = Some (Inl 0)"
      using assms(5-10) False unfolding clip_def Let_def m pt' by auto
    then show ?thesis using assms(3,4) unfolding n_def[symmetric] Let_def n0 storage_read_def st_def[symmetric] by (simp add: st_def)
  qed
qed

definition ram_disk_ops :: "unit storage_ops" where
  "ram_disk_ops = \<lparr>so_read = (\<lambda>n s d. ((int n, sectors (\<lambda>k. replicate SECTOR (of_int k)) s n), d)), so_write = (\<lambda>bs n s d. (int n, d))\<rparr>"

definition ram_world :: "unit sworld" where
  "ram_world = \<lparr>stores = (\<lambda>_. \<lparr>sid = 0, stype = STORAGE_TYPE_DISK, sdevid = 0x100, buffer_list = [], sops = ram_disk_ops,
      parts = [\<lparr>pt_start = 63, pt_size = 1000, pt_type = 0x83\<rparr>], dataptr = ()\<rparr>), storage_list = [0], next_store = 1,
    next_id = [0, 1, 0, 0], buffers = 0, env = \<lparr>ticks = 0, heap = (\<lambda>_. 0)\<rparr>\<rparr>"

lemma ram_disk_reads: "disk_reads ram_disk_ops (\<lambda>k. replicate SECTOR (of_int k)) ()"
  by (simp add: disk_reads_def ram_disk_ops_def)

theorem storage_read_correct_witness:
  "\<exists>w'. storage_read 0 0x101 2 10 ram_world = Some ((2, replicate SECTOR 73 @ replicate SECTOR 74), w')"
proof -
  have m: "DEV_MINOR 0x101 = 1" by (simp add: DEV_MINOR_def)
  have a: "disk_reads (sops (stores ram_world 0)) (\<lambda>k. replicate SECTOR (of_int k)) (dataptr (stores ram_world 0))"
    "coherent (\<lambda>k. replicate SECTOR (of_int k)) (buffer_list (stores ram_world 0))" "stype (stores ram_world 0) = STORAGE_TYPE_DISK"
    "0 < DEV_MINOR 0x101" "DEV_MINOR 0x101 \<le> length (parts (stores ram_world 0))"
    "pt_type (parts (stores ram_world 0) ! (DEV_MINOR 0x101 - 1)) \<noteq> 0" "(0::int) \<le> 10" "10 + int 2 < 2 ^ 63"
    using ram_disk_reads by (simp_all add: ram_world_def m)
  from storage_read_correct[OF a] show ?thesis
    by (auto simp: ram_world_def m numeral_2_eq_2)
qed

text \<open>C33. Writing and reading back through the buffers: after a write that returned its full length, a read of the same
  sectors returns the bytes written, without asking the device, for every list of buffers before the write.\<close>

theorem storage_write_read:
  assumes "storage_buffer_rw e st count bytes len start RW_WRITE = ((int len, m), st', count')"
    and "\<forall>b \<in> set (buffer_list st). full b" and "length bytes = len * SECTOR"
  shows "\<exists>st2. storage_buffer_rw e' st' count' [] len start RW_READ = ((int len, bytes), st2, count') \<and> dataptr st2 = dataptr st'"
  using rw_write_read[OF assms, of e'] by blast

theorem storage_write_read_witness:
  "\<exists>st' count'. storage_buffer_rw (env ram_world) (stores ram_world 0) 0 (replicate SECTOR 7) 1 5 RW_WRITE = ((1, []), st', count') \<and>
     (\<exists>st2. storage_buffer_rw (env ram_world) st' count' [] 1 5 RW_READ = ((1, replicate SECTOR 7), st2, count'))"
proof -
  let ?x = "\<lparr>left = 1, off = 5, mem = replicate SECTOR 7\<rparr>" and ?d = "\<lparr>drv = (), total_buffers = 0\<rparr>"
  have disk: "disk_reads ram_disk_ops (\<lambda>k. replicate SECTOR (of_int k)) (drv ?d)" using ram_disk_reads by simp
  obtain n where n: "buffer_read (env ram_world) ram_disk_ops 0 ?d = (Some n, ?d\<lparr>total_buffers := 1\<rparr>)" "sb_start n = 0"
    using buffer_read_disk[OF disk] by fastforce
  obtain b y where m: "move RW_WRITE n ?x = (b, y)" by (metis prod.exhaust)
  have l: "left y = 0" "mem y = []" using m n(2) by (auto simp: move_def Let_def STORAGE_BUFER_SIZE_def)
  have "fill (env ram_world) ram_disk_ops RW_WRITE [b] y (?d\<lparr>total_buffers := 1\<rparr>) = (True, [b], y, ?d\<lparr>total_buffers := 1\<rparr>)"
    using l(1) by (subst fill.simps) simp
  then have "fill (env ram_world) ram_disk_ops RW_WRITE [] ?x ?d = (True, [b], y, ?d\<lparr>total_buffers := 1\<rparr>)"
    using n(1) m by (subst fill.simps) (simp add: ROUND_DOWN_def STORAGE_BUFER_SIZE_def)
  then obtain st' count' where w: "storage_buffer_rw (env ram_world) (stores ram_world 0) 0 (replicate SECTOR 7) 1 5 RW_WRITE = ((int 1, []), st', count')"
    using l by (simp add: storage_buffer_rw_def ram_world_def)
  have "\<forall>b \<in> set (buffer_list (stores ram_world 0)). full b" by (simp add: ram_world_def)
  from storage_write_read[OF w this, of "env ram_world"] w show ?thesis by auto
qed

text \<open>C34. A write can be lost: on a fresh device, read sector 0 and sector 256, write sectors 128 and 129, and read
  sector 129. The read returns what the disk held, not what was written, and the device has not been
  written to. The write found the buffer of sector 0 ending exactly at its start, took that for a hit of no
  sectors and put its own buffer at the end of the list, behind that of sector 256; the read expects the
  list in ascending order and brings in a second buffer for sector 128.\<close>

theorem storage_lost_write:
  assumes "disk_reads (sops st) sec (dataptr st)" and "buffer_list st = []" and "length bytes = 2 * SECTOR"
  shows "case storage_buffer_rw e st c [] 1 0 RW_READ of (_, st1, c1) \<Rightarrow>
     (case storage_buffer_rw e st1 c1 [] 1 256 RW_READ of (_, st2, c2) \<Rightarrow>
       (case storage_buffer_rw e st2 c2 bytes 2 128 RW_WRITE of ((r, _), st3, c3) \<Rightarrow>
         r = 2 \<and> dataptr st3 = dataptr st \<and>
         (\<exists>st4 c4. storage_buffer_rw e st3 c3 [] 1 129 RW_READ = ((1, sec 129), st4, c4))))"
proof -
  let ?d = "\<lambda>k. \<lparr>drv = dataptr st, total_buffers = k\<rparr>"
  have spb: "SPB = 128" by (simp add: STORAGE_BUFER_SIZE_def)
  have disk: "disk_reads (sops st) sec (drv (?d k))" for k using assms(1) by simp
  have len: "\<forall>s. length (sec s) = SECTOR" using assms(1) by (simp add: disk_reads_def)
  obtain B where B: "buffer_read e (sops st) s (?d k) = (Some (B s), ?d (k + 1))" "sb_start (B s) = s" "sb_data (B s) = sectors sec s SPB" for s k
  proof -
    define B where "B s = \<lparr>sb_start = s, sb_data = sectors sec s SPB, last_used = ticks e, sb_used = 1, is_dirty = False\<rparr>" for s
    have "length (sectors sec s SPB) = STORAGE_BUFER_SIZE" for s using length_sectors[OF len, of s SPB] BUF_sectors by simp
    then have "buffer_read e (sops st) s (?d k) = (Some (B s), ?d (k + 1))" for s k
      using assms(1) by (simp add: buffer_read_def disk_reads_def resize_def B_def)
    then show ?thesis using that[of B] by (simp add: B_def)
  qed
  have rd: "fill e (sops st) RW_READ bufs \<lparr>left = Suc 0, off = s, mem = m\<rparr> (?d k) =
      (True, bufs @ [B s], \<lparr>left = 0, off = s + 1, mem = m @ sec s\<rparr>, ?d (k + 1))" if "s mod 128 = 0" for s bufs m k
  proof -
    have "move RW_READ (B s) \<lparr>left = Suc 0, off = s, mem = m\<rparr> = (B s, \<lparr>left = 0, off = s + 1, mem = m @ sec s\<rparr>)"
      using sectors_slice[OF len, of 0 1 SPB s] by (simp add: move_def Let_def B spb)
    then show ?thesis using that B(1)[of s k] by (subst fill.simps) (simp add: ROUND_DOWN_def spb fill.simps)
  qed
  define st1 where "st1 = st\<lparr>buffer_list := [B 0], dataptr := dataptr st\<rparr>"
  define st2 where "st2 = st\<lparr>buffer_list := [B 0, B 256], dataptr := dataptr st\<rparr>"
  have 1: "storage_buffer_rw e st c [] 1 0 RW_READ = ((1, sec 0), st1, c + 1)"
    by (simp add: storage_buffer_rw_def assms(2) rd st1_def)
  have 2: "storage_buffer_rw e st1 (c + 1) [] 1 256 RW_READ = ((1, sec 256), st2, c + 2)"
    by (simp add: storage_buffer_rw_def st1_def st2_def scan_Cons spb B(2) rd)
  let ?x = "\<lparr>left = 2, off = 128, mem = bytes\<rparr>"
  define b0 where "b0 = fst (move RW_WRITE (touch e (B 0)) ?x)"
  define b1 where "b1 = fst (move RW_WRITE (B 128) ?x)"
  define st3 where "st3 = st\<lparr>buffer_list := [b0, B 256, b1], dataptr := dataptr st\<rparr>"
  have m0: "move RW_WRITE (touch e (B 0)) ?x = (b0, ?x)" "sb_start b0 = 0"
    by (simp_all add: b0_def move_def Let_def B spb)
  have m1: "move RW_WRITE (B 128) ?x = (b1, \<lparr>left = 0, off = 130, mem = []\<rparr>)" "sb_start b1 = 128"
    using assms(3) by (simp_all add: b1_def move_def Let_def B spb)
  have f: "fill e (sops st) RW_WRITE bufs ?x (?d k) = (True, bufs @ [b1], \<lparr>left = 0, off = 130, mem = []\<rparr>, ?d (k + 1))" for bufs k
    using B(1)[of 128 k] m1(1) by (subst fill.simps) (simp add: ROUND_DOWN_def spb fill.simps)
  have 3: "storage_buffer_rw e st2 (c + 2) bytes 2 128 RW_WRITE = ((2, []), st3, c + 3)"
    using m0 by (simp add: storage_buffer_rw_def st2_def st3_def scan_Cons spb B(2) f before_def)
  have m2: "move RW_READ (touch e (B 128)) \<lparr>left = 1, off = 129, mem = []\<rparr> = (touch e (B 128), \<lparr>left = 0, off = 130, mem = sec 129\<rparr>)"
    using sectors_slice[OF len, of 1 1 SPB 128] by (simp add: move_def Let_def B spb)
  have "\<exists>bufs. scan e (sops st) RW_READ [b0, B 256, b1] \<lparr>left = 1, off = 129, mem = []\<rparr> (?d (c + 3)) =
      (True, bufs, \<lparr>left = 0, off = 130, mem = sec 129\<rparr>, ?d (c + 4))"
  proof -
    have z: "\<exists>b'. move RW_READ (touch e b1) \<lparr>left = 0, off = 130, mem = sec 129\<rparr> = (b', \<lparr>left = 0, off = 130, mem = sec 129\<rparr>)"
      using m1(2) by (simp add: move_def Let_def)
    then obtain b' where z: "move RW_READ (touch e b1) \<lparr>left = 0, off = 130, mem = sec 129\<rparr> = (b', \<lparr>left = 0, off = 130, mem = sec 129\<rparr>)" ..
    show ?thesis using m0(2) m1(2) B(1)[of 128 "c + 3"] m2 z by (simp add: scan_Cons spb B(2) ROUND_DOWN_def before_def)
  qed
  then have "\<exists>st4 c4. storage_buffer_rw e st3 (c + 3) [] 1 129 RW_READ = ((1, sec 129), st4, c4)"
    by (auto simp: storage_buffer_rw_def st3_def fill.simps)
  then show ?thesis unfolding 1 prod.case 2 3 by (simp add: st3_def)
qed

theorem storage_lost_write_witness:
  "case storage_buffer_rw (env ram_world) (stores ram_world 0) 0 [] 1 0 RW_READ of (_, st1, c1) \<Rightarrow>
     (case storage_buffer_rw (env ram_world) st1 c1 [] 1 256 RW_READ of (_, st2, c2) \<Rightarrow>
       (case storage_buffer_rw (env ram_world) st2 c2 (replicate (2 * SECTOR) 0xFF) 2 128 RW_WRITE of (r, st3, c3) \<Rightarrow>
         fst r = 2 \<and> (\<exists>st4 c4. storage_buffer_rw (env ram_world) st3 c3 [] 1 129 RW_READ = ((1, replicate SECTOR 129), st4, c4))))"
proof -
  have a: "disk_reads (sops (stores ram_world 0)) (\<lambda>k. replicate SECTOR (of_int k)) (dataptr (stores ram_world 0))"
    "buffer_list (stores ram_world 0) = []" "length (replicate (2 * SECTOR) (0xFF :: u8)) = 2 * SECTOR"
    using ram_disk_reads by (simp_all add: ram_world_def)
  from storage_lost_write[OF a, of "env ram_world" 0] show ?thesis by (auto split: prod.splits)
qed

definition no_part :: storage_partition where "no_part = \<lparr>pt_start = 0, pt_size = 0, pt_type = 0\<rparr>"

definition primary :: "u8 list \<Rightarrow> nat \<Rightarrow> storage_partition" where
  "primary mbr i = (if fsid mbr i = 0 then no_part else \<lparr>pt_start = lba_start mbr i, pt_size = lba_size mbr i, pt_type = fsid mbr i\<rparr>)"

lemma read_sector_disk: "disk_reads ops sec d \<Longrightarrow> read_sector junk ops k d = (Some (sec k), d)"
  by (simp add: read_sector_def disk_reads_def resize_def)

text \<open>Partition tables. On a disk with a signed master boot record and no extended partition the table is
  exactly the four entries of the record, entries without a type being empty. When the only entry is an
  extended partition, its chain is not read from the partition but from sector 0: the master boot record is
  taken for the first link of the chain, so the first logical partition has the type and size of the extended
  partition itself and twice its start.\<close>

theorem msdos_detect:
  assumes "disk_reads (sops st) sec (dataptr st)" and "mbr = sec 0" and "\<not> bad_magic mbr"
  shows "((\<forall>i < 4. fsid mbr i \<noteq> 0x05 \<and> fsid mbr i \<noteq> 0x0F) \<longrightarrow>
      map_option parts (partirion_msdos_detect junk st) = Some (map (primary mbr) [0..<4] @ replicate 12 no_part)) \<and>
    (fsid mbr 0 = 0x05 \<and> (\<forall>i. 0 < i \<and> i < 4 \<longrightarrow> fsid mbr i = 0) \<and> lba_start mbr 1 = 0 \<longrightarrow>
      map_option (\<lambda>st'. parts st' ! 4) (partirion_msdos_detect junk st) =
        Some \<lparr>pt_start = 2 * lba_start mbr 0, pt_size = lba_size mbr 0, pt_type = 0x05\<rparr>)"
proof -
  let ?z = "replicate STORAGE_MAX_PARTS no_part"
  have d: "partirion_msdos_detect junk st = map_option (\<lambda>(pts, d). st\<lparr>parts := pts, dataptr := d\<rparr>)
      (mbr_loop junk (sops st) mbr [0, 1, 2, 3] 4 ?z (dataptr st))"
    using assms by (simp add: partirion_msdos_detect_def read_sector_disk no_part_def)
  have z: "?z = [no_part, no_part, no_part, no_part] @ replicate 12 no_part"
    by (simp add: STORAGE_MAX_PARTS_def numeral_eq_Suc)
  have "map_option parts (partirion_msdos_detect junk st) = Some (map (primary mbr) [0..<4] @ replicate 12 no_part)"
    if a: "\<forall>i < 4. fsid mbr i \<noteq> 0x05 \<and> fsid mbr i \<noteq> 0x0F"
  proof -
    have f: "fsid mbr 0 \<noteq> 0x05 \<and> fsid mbr 0 \<noteq> 0x0F" "fsid mbr 1 \<noteq> 0x05 \<and> fsid mbr 1 \<noteq> 0x0F" "fsid mbr 2 \<noteq> 0x05 \<and> fsid mbr 2 \<noteq> 0x0F"
      "fsid mbr 3 \<noteq> 0x05 \<and> fsid mbr 3 \<noteq> 0x0F" using a[rule_format, of 0] a[rule_format, of 1] a[rule_format, of 2] a[rule_format, of 3] by simp_all
    have u: "[0..<4] = [0, 1, 2, 3 :: nat]" by (simp add: upt_rec)
    have step: "mbr_loop junk (sops st) mbr (i # is) tmp pts dd = mbr_loop junk (sops st) mbr is tmp (pts[i := primary mbr i]) dd"
      if "fsid mbr i \<noteq> 0x05 \<and> fsid mbr i \<noteq> 0x0F" "i < length pts" "pts ! i = no_part" for i "is" tmp pts dd
      using that list_update_id[of pts i] by (simp add: primary_def Let_def)
    show ?thesis unfolding d z u
      by (subst step, use f in simp, simp, simp)+ (simp add: numeral_eq_Suc)
  qed
  moreover have "map_option (\<lambda>st'. parts st' ! 4) (partirion_msdos_detect junk st) =
        Some \<lparr>pt_start = 2 * lba_start mbr 0, pt_size = lba_size mbr 0, pt_type = 0x05\<rparr>"
    if a: "fsid mbr 0 = 0x05" "\<forall>i. 0 < i \<and> i < 4 \<longrightarrow> fsid mbr i = 0" "lba_start mbr 1 = 0"
  proof -
    have f: "fsid mbr 1 = 0" "fsid mbr 2 = 0" "fsid mbr 3 = 0" using a(2) by simp_all
    have e: "ebr_loop junk (sops st) base 0 4 pts (dataptr st) = Some (5, pts[4 := \<lparr>pt_start = base + lba_start mbr 0, pt_size = lba_size mbr 0, pt_type = 0x05\<rparr>], dataptr st)"
      if "4 < length pts" for base pts
      using that assms a by (subst ebr_loop.simps) (simp add: read_sector_disk Let_def)
    show ?thesis unfolding d using f a(1) by (simp add: e STORAGE_MAX_PARTS_def)
  qed
  ultimately show ?thesis by blast
qed

definition mbr_sector :: "u8 list" where
  "mbr_sector = (replicate 512 0)[450 := 0x83, 454 := 63, 459 := 4, 510 := 0x55, 511 := 0xAA]"

theorem msdos_detect_witness:
  "map_option (\<lambda>st. parts st ! 0) (partirion_msdos_detect (\<lambda>_. 0)
      ((stores ram_world 0)\<lparr>sops := \<lparr>so_read = (\<lambda>n s d. ((int n, sectors (\<lambda>k. mbr_sector) s n), d)), so_write = (\<lambda>bs n s d. (int n, d))\<rparr>\<rparr>)) =
   Some \<lparr>pt_start = 63, pt_size = 1024, pt_type = 0x83\<rparr>"
proof -
  let ?st = "(stores ram_world 0)\<lparr>sops := \<lparr>so_read = (\<lambda>n s d. ((int n, sectors (\<lambda>k. mbr_sector) s n), d)), so_write = (\<lambda>bs n s d. (int n, d))\<rparr>\<rparr>"
  have f: "fsid mbr_sector 0 = 0x83" "fsid mbr_sector 1 = 0" "fsid mbr_sector 2 = 0" "fsid mbr_sector 3 = 0"
    "lba_start mbr_sector 0 = 63" "lba_size mbr_sector 0 = 1024" "\<not> bad_magic mbr_sector"
    by (simp_all add: fsid_def lba_start_def lba_size_def le32_def entry_def bad_magic_def mbr_sector_def nth_list_update)
  have disk: "disk_reads (sops ?st) (\<lambda>k. mbr_sector) (dataptr ?st)" by (simp add: disk_reads_def mbr_sector_def SECTOR_def)
  have "\<forall>i < 4. fsid mbr_sector i \<noteq> 0x05 \<and> fsid mbr_sector i \<noteq> 0x0F"
  proof (intro allI impI)
    fix i :: nat assume "i < 4"
    then have "i = 0 \<or> i = 1 \<or> i = 2 \<or> i = 3" by linarith
    then show "fsid mbr_sector i \<noteq> 0x05 \<and> fsid mbr_sector i \<noteq> 0x0F" using f(1-4) by (elim disjE) simp_all
  qed
  with msdos_detect[OF disk refl, of "\<lambda>_. 0"] f(7)
  have "map_option parts (partirion_msdos_detect (\<lambda>_. 0) ?st) = Some (map (primary mbr_sector) [0..<4] @ replicate 12 no_part)" by blast
  then show ?thesis using f by (cases "partirion_msdos_detect (\<lambda>_. 0) ?st") (auto simp: primary_def nth_append)
qed

end
