(* ===== verification/Vnode.thy ===== *)
theory Vnode
  imports Prelude
begin

text \<open>
  The data the virtual file system and the file systems share (\<^verbatim>\<open>include/kernel/vfs.h\<close>): modes, v-nodes,
  and the operation table of a file system. A v-node carries the file-system private pointer \<^verbatim>\<open>data\<close> as a
  number. Sizes and positions are integers; \<^verbatim>\<open>loff_t\<close> has 64 bits and the sizes that occur stay far below
  its bound.
\<close>

type_synonym mode_t = u16

definition S_IFMT :: mode_t where "S_IFMT = 0xF000"
definition S_IFSOCK :: mode_t where "S_IFSOCK = 0xC000"
definition S_IFLNK :: mode_t where "S_IFLNK = 0xA000"
definition S_IFREG :: mode_t where "S_IFREG = 0x8000"
definition S_IFBLK :: mode_t where "S_IFBLK = 0x6000"
definition S_IFDIR :: mode_t where "S_IFDIR = 0x4000"
definition S_IFCHR :: mode_t where "S_IFCHR = 0x2000"
definition S_IFIFO :: mode_t where "S_IFIFO = 0x1000"

definition S_ISREG :: "mode_t \<Rightarrow> bool" where "S_ISREG m \<longleftrightarrow> m AND S_IFMT = S_IFREG"
definition S_ISDIR :: "mode_t \<Rightarrow> bool" where "S_ISDIR m \<longleftrightarrow> m AND S_IFMT = S_IFDIR"
definition S_ISCHR :: "mode_t \<Rightarrow> bool" where "S_ISCHR m \<longleftrightarrow> m AND S_IFMT = S_IFCHR"
definition S_ISBLK :: "mode_t \<Rightarrow> bool" where "S_ISBLK m \<longleftrightarrow> m AND S_IFMT = S_IFBLK"
definition S_ISLNK :: "mode_t \<Rightarrow> bool" where "S_ISLNK m \<longleftrightarrow> m AND S_IFMT = S_IFLNK"
definition S_ISFIFO :: "mode_t \<Rightarrow> bool" where "S_ISFIFO m \<longleftrightarrow> m AND S_IFMT = S_IFIFO"
definition S_ISSOCK :: "mode_t \<Rightarrow> bool" where "S_ISSOCK m \<longleftrightarrow> m AND S_IFMT = S_IFSOCK"

record vnode =
  ino :: nat
  vmode :: mode_t
  vnlink :: u16
  vsize :: int
  vuid :: int
  vgid :: int
  vdev :: u16
  vblocks :: int
  vblock_size :: int
  vrdev :: u16
  vmp :: nat
  vfsmountedhere :: "nat option"
  vdata :: nat
  refcount :: int

text \<open>
  The operations of a file system on its own state \<open>'f\<close>; the ones the code tests for \<^verbatim>\<open>NULL\<close> are
  optional. An integer result is the C value, negative for an error. \<open>open\<close> fills in the v-node; \<open>write\<close>
  may change its size.
\<close>

record 'f vnode_ops =
  op_open :: "vnode \<Rightarrow> 'f \<Rightarrow> int \<times> vnode"
  op_close :: "vnode \<Rightarrow> 'f \<Rightarrow> int \<times> 'f"
  op_lookup :: "vnode \<Rightarrow> string \<Rightarrow> 'f \<Rightarrow> nat"
  op_read :: "(vnode \<Rightarrow> nat \<Rightarrow> int \<Rightarrow> 'f \<Rightarrow> int \<times> u8 list) option"
  op_write :: "(vnode \<Rightarrow> u8 list \<Rightarrow> int \<Rightarrow> 'f \<Rightarrow> int \<times> vnode \<times> 'f) option"
  op_mkdir :: "(vnode \<Rightarrow> string \<Rightarrow> mode_t \<Rightarrow> int \<Rightarrow> int \<Rightarrow> 'f \<Rightarrow> int \<times> 'f) option"
  op_creat :: "(vnode \<Rightarrow> string \<Rightarrow> mode_t \<Rightarrow> int \<Rightarrow> int \<Rightarrow> 'f \<Rightarrow> int \<times> 'f) option"
  op_readlink :: "(vnode \<Rightarrow> 'f \<Rightarrow> int \<times> string) option"
  op_getdents :: "(vnode \<Rightarrow> nat \<Rightarrow> int \<Rightarrow> 'f \<Rightarrow> int \<times> int) option"
  op_flush :: "(vnode \<Rightarrow> 'f \<Rightarrow> int \<times> 'f) option"
  op_mknod :: "(vnode \<Rightarrow> string \<Rightarrow> mode_t \<Rightarrow> u16 \<Rightarrow> int \<Rightarrow> int \<Rightarrow> 'f \<Rightarrow> int \<times> 'f) option"
  op_unlink :: "(vnode \<Rightarrow> string \<Rightarrow> 'f \<Rightarrow> int \<times> 'f) option"

record 'f filesystem =
  fs_name :: string
  fs_nodev :: bool
  fs_mount :: "nat \<Rightarrow> int \<times> 'f"
  fs_root :: "'f \<Rightarrow> nat"
  fs_ops :: "'f vnode_ops"

lemma S_IS_type:
  "S_ISREG (S_IFREG OR (m AND 0x1FF))" "S_ISDIR (S_IFDIR OR (m AND 0x1FF))" "\<not> S_ISDIR (S_IFREG OR (m AND 0x1FF))"
proof -
  have "(S_IFREG OR (m AND 0x1FF)) AND S_IFMT = S_IFREG" "(S_IFDIR OR (m AND 0x1FF)) AND S_IFMT = S_IFDIR"
    by (simp_all add: S_IFREG_def S_IFDIR_def S_IFMT_def bit.conj_disj_distrib2 and.assoc)
  then show "S_ISREG (S_IFREG OR (m AND 0x1FF))" "S_ISDIR (S_IFDIR OR (m AND 0x1FF))"
    "\<not> S_ISDIR (S_IFREG OR (m AND 0x1FF))"
    by (simp_all add: S_ISREG_def S_ISDIR_def) (simp add: S_IFREG_def S_IFDIR_def)
qed

text \<open>What the virtual file system relies on: a driver fills in the attributes of a v-node and leaves alone the
  fields the virtual file system keeps in it.\<close>

definition same_place :: "vnode \<Rightarrow> vnode \<Rightarrow> bool" where
  "same_place v v' \<longleftrightarrow> ino v' = ino v \<and> vmp v' = vmp v \<and> vfsmountedhere v' = vfsmountedhere v \<and> refcount v' = refcount v"

lemma same_place_refl [simp]: "same_place v v"
  by (simp add: same_place_def)

locale vnode_driver =
  fixes ops :: "'f vnode_ops"
  assumes open_place: "same_place v (snd (op_open ops v f))"
    and write_place: "op_write ops = Some g \<Longrightarrow> same_place v (fst (snd (g v data off f)))"
begin

lemma open_fields:
  "op_open ops v f = (err, v') \<Longrightarrow>
     ino v' = ino v \<and> vmp v' = vmp v \<and> vfsmountedhere v' = vfsmountedhere v \<and> refcount v' = refcount v"
  using open_place[of v f] by (simp add: same_place_def)

end

end
