(* ===== verification/Ext2.thy ===== *)
theory Ext2
  imports Phys Storage Vnode "HOL-Library.Monad_Syntax"
begin

text \<open>
  The ext2 file system (\<^verbatim>\<open>modules/fs/ext2/\<close>), first part: the structures on disk (\<^verbatim>\<open>include/modules/fs/ext2.h\<close>), the
  super block (\<^verbatim>\<open>super.c\<close>) and the allocation of blocks and i-nodes (\<^verbatim>\<open>balloc.c\<close>, \<^verbatim>\<open>ialloc.c\<close>). Structures are kept as
  the bytes the code reads and writes, with little-endian access to their fields. A function takes and returns the
  state of the mounted file system; \<open>None\<close> is an access outside the memory the code owns, a division by zero, a panic
  or a loop that never ends. The device is reached through the block switch of \<open>Devices\<close>. A mutex is taken and
  released around each operation on a group; what is left of it here is the index into the array of mutexes.
\<close>

section \<open>Fields of packed structures\<close>

definition get16 :: "u8 list \<Rightarrow> nat \<Rightarrow> u16" where
  "get16 bs k = ucast (bs ! k) OR push_bit 8 (ucast (bs ! (k + 1)))"

definition get32 :: "u8 list \<Rightarrow> nat \<Rightarrow> u32" where
  "get32 bs k = ucast (get16 bs k) OR push_bit 16 (ucast (get16 bs (k + 2)))"

definition put16 :: "u8 list \<Rightarrow> nat \<Rightarrow> u16 \<Rightarrow> u8 list" where
  "put16 bs k w = bs[k := ucast w, k + 1 := ucast (drop_bit 8 w)]"

definition put32 :: "u8 list \<Rightarrow> nat \<Rightarrow> u32 \<Rightarrow> u8 list" where
  "put32 bs k w = put16 (put16 bs k (ucast w)) (k + 2) (ucast (drop_bit 16 w))"

named_theorems bytes_simps \<open>fields read after fields are written\<close>

lemma length_put [bytes_simps]: "length (put16 bs k w) = length bs" "length (put32 bs k v) = length bs"
  by (simp_all add: put16_def put32_def)

lemma get16_put16 [bytes_simps]: "k + 1 < length bs \<Longrightarrow> get16 (put16 bs k w) k = w"
  by (rule bit_word_eqI) (auto simp: get16_def put16_def bit_simps)

lemma get16_put16_other [bytes_simps]: "j + 2 \<le> k \<or> k + 2 \<le> j \<Longrightarrow> get16 (put16 bs k w) j = get16 bs j"
  by (auto simp: get16_def put16_def)

lemma get32_put32 [bytes_simps]: "k + 3 < length bs \<Longrightarrow> get32 (put32 bs k w) k = w"
  unfolding get32_def put32_def
  by (subst get16_put16_other, simp) (rule bit_word_eqI, auto simp: bytes_simps bit_simps)

lemma get32_put32_other [bytes_simps]: "j + 4 \<le> k \<or> k + 4 \<le> j \<Longrightarrow> get32 (put32 bs k w) j = get32 bs j"
  unfolding get32_def put32_def by (auto simp: get16_put16_other)

lemma get32_put16_other [bytes_simps]: "j + 4 \<le> k \<or> k + 2 \<le> j \<Longrightarrow> get32 (put16 bs k w) j = get32 bs j"
  unfolding get32_def by (auto simp: get16_put16_other)

section \<open>Data on disk and in memory\<close>

definition EXT2_MAGIC :: u16 where "EXT2_MAGIC = 0xEF53"
definition EXT2_ROOT_INO :: nat where "EXT2_ROOT_INO = 2"
definition EXT2_VALID_FS :: u16 where "EXT2_VALID_FS = 1"
definition EXT2_ERROR_FS :: u16 where "EXT2_ERROR_FS = 2"
definition EXT2_ERRORS_RO :: u16 where "EXT2_ERRORS_RO = 2"
definition EXT2_ERRORS_PANIC :: u16 where "EXT2_ERRORS_PANIC = 3"
definition EXT2_SUPERBLOCK_SECTOR :: int where "EXT2_SUPERBLOCK_SECTOR = 2"

text \<open>Super block: 1024 bytes.\<close>

definition SB_SIZE :: nat where "SB_SIZE = 1024"

definition s_inodes_count :: "u8 list \<Rightarrow> u32" where "s_inodes_count b = get32 b 0"
definition s_blocks_count :: "u8 list \<Rightarrow> u32" where "s_blocks_count b = get32 b 4"
definition s_free_blocks_count :: "u8 list \<Rightarrow> u32" where "s_free_blocks_count b = get32 b 12"
definition s_free_inodes_count :: "u8 list \<Rightarrow> u32" where "s_free_inodes_count b = get32 b 16"
definition s_log_block_size :: "u8 list \<Rightarrow> u32" where "s_log_block_size b = get32 b 24"
definition s_blocks_per_group :: "u8 list \<Rightarrow> u32" where "s_blocks_per_group b = get32 b 32"
definition s_inodes_per_group :: "u8 list \<Rightarrow> u32" where "s_inodes_per_group b = get32 b 40"
definition s_mnt_count :: "u8 list \<Rightarrow> u16" where "s_mnt_count b = get16 b 52"
definition s_magic :: "u8 list \<Rightarrow> u16" where "s_magic b = get16 b 56"
definition s_state :: "u8 list \<Rightarrow> u16" where "s_state b = get16 b 58"
definition s_errors :: "u8 list \<Rightarrow> u16" where "s_errors b = get16 b 60"
definition s_inode_size :: "u8 list \<Rightarrow> u16" where "s_inode_size b = get16 b 88"

text \<open>Group descriptors: 32 bytes each; the constants are the offsets of the fields.\<close>

definition GD_SIZE :: nat where "GD_SIZE = 32"
definition bg_block_bitmap :: nat where "bg_block_bitmap = 0"
definition bg_inode_bitmap :: nat where "bg_inode_bitmap = 4"
definition bg_inode_table :: nat where "bg_inode_table = 8"
definition bg_free_blocks_count :: nat where "bg_free_blocks_count = 12"
definition bg_free_inodes_count :: nat where "bg_free_inodes_count = 14"

text \<open>
  \<^verbatim>\<open>struct ext2_data\<close>, and what the code reaches through it: the device number and flags of the mount point, the block
  switch and the state of the drivers behind it, the contents of fresh heap memory, the page of zeros
  \<^verbatim>\<open>inode_do_alloc_block\<close> keeps, and the copies of i-nodes that v-nodes point to.
\<close>

record 'w ext2 =
  sb :: "u8 list"
  spb :: nat
  bps :: nat
  blk_size :: nat
  groups_count :: int
  groups_blocks :: int
  groups :: "u8 list"
  mp_device :: dev_t
  mp_flags :: u32
  bdev_tab :: "'w bdev_table"
  disk :: 'w
  kheap :: "nat \<Rightarrow> u8"
  zero_page :: "u8 list option"
  incore :: "nat \<Rightarrow> u8 list"
  next_incore :: nat

definition EXT2_GET_SECTOR_NUM :: "'w ext2 \<Rightarrow> u32 \<Rightarrow> int" where
  "EXT2_GET_SECTOR_NUM s b = uint (b * of_nat (spb s))"

definition EXT2_GET_INODE_GROUP :: "'w ext2 \<Rightarrow> u32 \<Rightarrow> int option" where
  "EXT2_GET_INODE_GROUP s i =
     (if s_inodes_per_group (sb s) = 0 then None else Some (sint ((i - 1) div s_inodes_per_group (sb s))))"

definition EXT2_GET_BLOCK_GROUP :: "'w ext2 \<Rightarrow> u32 \<Rightarrow> int option" where
  "EXT2_GET_BLOCK_GROUP s b =
     (if s_blocks_per_group (sb s) = 0 then None else Some (sint ((b - 1) div s_blocks_per_group (sb s))))"

text \<open>A field of \<^verbatim>\<open>groups[g]\<close>; \<^verbatim>\<open>groups_mutex[g]\<close>.\<close>

definition in_groups :: "'w ext2 \<Rightarrow> int \<Rightarrow> bool" where
  "in_groups s g \<longleftrightarrow> 0 \<le> g \<and> (nat g + 1) * GD_SIZE \<le> length (groups s)"

definition bg16 :: "'w ext2 \<Rightarrow> nat \<Rightarrow> int \<Rightarrow> u16 option" where
  "bg16 s fld g = (if in_groups s g then Some (get16 (groups s) (nat g * GD_SIZE + fld)) else None)"

definition bg32 :: "'w ext2 \<Rightarrow> nat \<Rightarrow> int \<Rightarrow> u32 option" where
  "bg32 s fld g = (if in_groups s g then Some (get32 (groups s) (nat g * GD_SIZE + fld)) else None)"

definition bg_add16 :: "nat \<Rightarrow> int \<Rightarrow> u16 \<Rightarrow> 'w ext2 \<Rightarrow> 'w ext2" where
  "bg_add16 fld g d s =
     s\<lparr>groups := put16 (groups s) (nat g * GD_SIZE + fld) (get16 (groups s) (nat g * GD_SIZE + fld) + d)\<rparr>"

definition sb_add32 :: "nat \<Rightarrow> u32 \<Rightarrow> 'w ext2 \<Rightarrow> 'w ext2" where
  "sb_add32 fld d s = s\<lparr>sb := put32 (sb s) fld (get32 (sb s) fld + d)\<rparr>"

definition group_mutex :: "'w ext2 \<Rightarrow> int \<Rightarrow> unit option" where
  "group_mutex s g = (if 0 \<le> g \<and> g < groups_count s then Some () else None)"

text \<open>\<^verbatim>\<open>kalloc\<close>, and the calls of the block switch. Sectors arrive at the start of the buffer, which must have room for them.\<close>

definition kalloc :: "'w ext2 \<Rightarrow> nat \<Rightarrow> u8 list" where
  "kalloc s n = map (kheap s) [0..<n]"

definition bread :: "'w ext2 \<Rightarrow> u8 list \<Rightarrow> nat \<Rightarrow> int \<Rightarrow> (int \<times> u8 list \<times> 'w ext2) option" where
  "bread s buf n sector =
     (if length buf < n * SECTOR then None
      else do { ((err, bs), w) \<leftarrow> bdev_read (mp_device s) n sector (bdev_tab s) (disk s);
                Some (err, bs @ drop (length bs) buf, s\<lparr>disk := w\<rparr>) })"

definition bwrite :: "'w ext2 \<Rightarrow> u8 list \<Rightarrow> nat \<Rightarrow> int \<Rightarrow> (int \<times> 'w ext2) option" where
  "bwrite s buf n sector =
     (if length buf < n * SECTOR then None
      else do { (err, w) \<leftarrow> bdev_write (mp_device s) (take (n * SECTOR) buf) sector (bdev_tab s) (disk s);
                Some (err, s\<lparr>disk := w\<rparr>) })"

section \<open>Super block and group descriptors\<close>

definition super_read :: "'w ext2 \<Rightarrow> (int \<times> 'w ext2) option" where
  "super_read s =
     (if bps s = 0 then None
      else do {
        (err, buf, s) \<leftarrow> bread s (replicate SB_SIZE 0) (SB_SIZE div bps s) EXT2_SUPERBLOCK_SECTOR;
        let s = s\<lparr>sb := buf\<rparr>;
        Some (if err \<noteq> int (SB_SIZE div bps s) then - errno_code EIO
              else if s_magic (sb s) \<noteq> EXT2_MAGIC then - errno_code EINVAL
              else 0, s) })"

definition super_write :: "'w ext2 \<Rightarrow> (int \<times> 'w ext2) option" where
  "super_write s =
     (if bps s = 0 then None
      else do {
        (err, s) \<leftarrow> bwrite s (sb s) (SB_SIZE div bps s) EXT2_SUPERBLOCK_SECTOR;
        Some (if err \<noteq> int (SB_SIZE div bps s) then - errno_code EIO else 0, s) })"

definition groups_start :: "'w ext2 \<Rightarrow> u32" where
  "groups_start s = (if blk_size s = 1024 then 2 else 1)"

definition super_read_groups :: "'w ext2 \<Rightarrow> (int \<times> 'w ext2) option" where
  "super_read_groups s = do {
     (err, buf, s) \<leftarrow> bread s (groups s) (nat (groups_blocks s) * spb s) (EXT2_GET_SECTOR_NUM s (groups_start s));
     let s = s\<lparr>groups := buf\<rparr>;
     Some (if err \<noteq> int (spb s) * groups_blocks s then - errno_code EIO else 0, s) }"

definition super_write_groups :: "'w ext2 \<Rightarrow> (int \<times> 'w ext2) option" where
  "super_write_groups s = do {
     (err, s) \<leftarrow> bwrite s (groups s) (nat (groups_blocks s) * spb s) (EXT2_GET_SECTOR_NUM s (groups_start s));
     Some (if err \<noteq> int (spb s) * groups_blocks s then - errno_code EIO else 0, s) }"

section \<open>Bitmaps\<close>

text \<open>The readers and writers of the two kinds of bitmap differ in the field of the descriptor.\<close>

definition bitmap_read :: "nat \<Rightarrow> 'w ext2 \<Rightarrow> u8 list \<Rightarrow> int \<Rightarrow> (int \<times> u8 list \<times> 'w ext2) option" where
  "bitmap_read fld s buf grp =
     (if grp \<ge> groups_count s then Some (- errno_code EINVAL, buf, s)
      else do {
        b \<leftarrow> bg32 s fld grp;
        (err, buf, s) \<leftarrow> bread s buf (spb s) (EXT2_GET_SECTOR_NUM s b);
        Some (if err \<noteq> int (spb s) then - errno_code EIO else 0, buf, s) })"

definition bitmap_write :: "nat \<Rightarrow> 'w ext2 \<Rightarrow> u8 list \<Rightarrow> int \<Rightarrow> (int \<times> 'w ext2) option" where
  "bitmap_write fld s buf grp =
     (if grp \<ge> groups_count s then Some (- errno_code EINVAL, s)
      else do {
        b \<leftarrow> bg32 s fld grp;
        (err, s) \<leftarrow> bwrite s buf (spb s) (EXT2_GET_SECTOR_NUM s b);
        Some (if err \<noteq> int (spb s) then - errno_code EIO else 0, s) })"

definition block_bitmap_read :: "'w ext2 \<Rightarrow> u8 list \<Rightarrow> int \<Rightarrow> (int \<times> u8 list \<times> 'w ext2) option" where
  "block_bitmap_read = bitmap_read bg_block_bitmap"

definition block_bitmap_write :: "'w ext2 \<Rightarrow> u8 list \<Rightarrow> int \<Rightarrow> (int \<times> 'w ext2) option" where
  "block_bitmap_write = bitmap_write bg_block_bitmap"

definition inode_bitmap_read :: "'w ext2 \<Rightarrow> u8 list \<Rightarrow> int \<Rightarrow> (int \<times> u8 list \<times> 'w ext2) option" where
  "inode_bitmap_read = bitmap_read bg_inode_bitmap"

definition inode_bitmap_write :: "'w ext2 \<Rightarrow> u8 list \<Rightarrow> int \<Rightarrow> (int \<times> 'w ext2) option" where
  "inode_bitmap_write = bitmap_write bg_inode_bitmap"

text \<open>The loop over all groups for the one with most free blocks or i-nodes: the best count so far starts at 0, the group
  at the one given.\<close>

fun most_free :: "'w ext2 \<Rightarrow> nat \<Rightarrow> int list \<Rightarrow> u16 \<Rightarrow> int \<Rightarrow> int option" where
  "most_free s fld [] best grp = Some grp"
| "most_free s fld (i # is) best grp = do {
     c \<leftarrow> bg16 s fld i;
     if c > best then most_free s fld is c i else most_free s fld is best grp }"

text \<open>The loop over the words of a bitmap up to the first with a zero bit, which it sets: the index of the word, of the
  bit, and the new bitmap.\<close>

definition take_zero :: "'w ext2 \<Rightarrow> u8 list \<Rightarrow> (nat \<times> nat \<times> u8 list) option" where
  "take_zero s buf =
     map_option (\<lambda>i. let w = get32 buf (4 * i); j = ffz_bit w in (i, j, put32 buf (4 * i) (bts w j)))
       (find (\<lambda>i. get32 buf (4 * i) \<noteq> - 1) [0..<blk_size s div 4])"

text \<open>
  What \<^verbatim>\<open>block_alloc\<close> and \<^verbatim>\<open>inode_alloc\<close> do once the group is chosen and locked, and \<^verbatim>\<open>block_free\<close> and \<^verbatim>\<open>inode_free\<close> once it
  is locked, with the functions and fields in which the two pairs differ: the bitmap functions, the count in the
  descriptor, the count in the super block, and the numbers per group. An allocation returns the C result and
  what \<^verbatim>\<open>*block\<close> or \<^verbatim>\<open>*ino\<close> was set to, if it was.
\<close>

type_synonym 'w rd_bitmap = "'w ext2 \<Rightarrow> u8 list \<Rightarrow> int \<Rightarrow> (int \<times> u8 list \<times> 'w ext2) option"
type_synonym 'w wr_bitmap = "'w ext2 \<Rightarrow> u8 list \<Rightarrow> int \<Rightarrow> (int \<times> 'w ext2) option"

definition alloc_in :: "'w rd_bitmap \<Rightarrow> 'w wr_bitmap \<Rightarrow> nat \<Rightarrow> nat \<Rightarrow> u32 \<Rightarrow> 'w ext2 \<Rightarrow> int \<Rightarrow>
    (int \<times> u32 option \<times> 'w ext2) option" where
  "alloc_in rd wr count sb_count per_group s grp = do {
     (err, buf, s) \<leftarrow> rd s (kalloc s (blk_size s)) grp;
     if err \<noteq> 0 then Some (err, None, s)
     else case take_zero s buf of
       None \<Rightarrow> Some (- errno_code ENOSPC, None, s)
     | Some (i, j, buf) \<Rightarrow>
         let k = of_int grp * per_group + of_nat i * 4 * 8 + of_nat j + 1;
             s = sb_add32 sb_count (- 1) (bg_add16 count grp (- 1) s)
         in do { (err, s) \<leftarrow> wr s buf grp; Some (err, Some k, s) } }"

text \<open>The word and bit of a number in a bitmap; \<open>None\<close> when the bit index is -1 or the word lies behind the buffer.\<close>

definition locate :: "'w ext2 \<Rightarrow> u32 \<Rightarrow> int \<Rightarrow> u32 \<Rightarrow> (nat \<times> nat) option" where
  "locate s k grp per_group =
     (let i = unat ((k - of_int grp * per_group - 1) div 32); j = int (unat (k mod 32)) - 1
      in if j < 0 \<or> blk_size s div 4 \<le> i then None else Some (i, nat j))"

definition free_in :: "'w rd_bitmap \<Rightarrow> 'w wr_bitmap \<Rightarrow> nat \<Rightarrow> nat \<Rightarrow> u32 \<Rightarrow> 'w ext2 \<Rightarrow> int \<Rightarrow> u32 \<Rightarrow> (int \<times> 'w ext2) option" where
  "free_in rd wr count sb_count per_group s grp k = do {
     (err, buf, s) \<leftarrow> rd s (kalloc s (blk_size s)) grp;
     if err \<noteq> 0 then Some (err, s)
     else do {
       (i, j) \<leftarrow> locate s k grp per_group;
       if test_bit (get32 buf (4 * i)) j = 0 then Some (0, s)
       else wr (sb_add32 sb_count 1 (bg_add16 count grp 1 s)) (put32 buf (4 * i) (btr (get32 buf (4 * i)) j)) grp } }"

section \<open>Allocation of blocks\<close>

definition block_alloc :: "'w ext2 \<Rightarrow> int \<Rightarrow> (int \<times> u32 option \<times> 'w ext2) option" where
  "block_alloc s grp = do {
     free \<leftarrow> bg16 s bg_free_blocks_count grp;
     grp \<leftarrow> (if free = 0 then most_free s bg_free_blocks_count [0..groups_count s - 1] 0 grp else Some grp);
     free \<leftarrow> bg16 s bg_free_blocks_count grp;
     _ \<leftarrow> group_mutex s grp;
     if free = 0 then Some (- errno_code ENOSPC, None, s)
     else alloc_in block_bitmap_read block_bitmap_write bg_free_blocks_count 12 (s_blocks_per_group (sb s)) s grp }"

definition block_free :: "'w ext2 \<Rightarrow> u32 \<Rightarrow> (int \<times> 'w ext2) option" where
  "block_free s block = do {
     grp \<leftarrow> EXT2_GET_BLOCK_GROUP s block;
     _ \<leftarrow> group_mutex s grp;
     free_in block_bitmap_read block_bitmap_write bg_free_blocks_count 12 (s_blocks_per_group (sb s)) s grp block }"

section \<open>Allocation of i-nodes\<close>

definition inode_alloc :: "'w ext2 \<Rightarrow> int \<Rightarrow> (int \<times> u32 option \<times> 'w ext2) option" where
  "inode_alloc s grp = do {
     grp \<leftarrow> (if grp < 0 then most_free s bg_free_inodes_count [0..groups_count s - 1] 0 grp else Some grp);
     _ \<leftarrow> group_mutex s grp;
     free \<leftarrow> bg16 s bg_free_inodes_count grp;
     if free = 0 then Some (- errno_code ENOSPC, None, s)
     else alloc_in inode_bitmap_read inode_bitmap_write bg_free_inodes_count 16 (s_inodes_per_group (sb s)) s grp }"

definition inode_free :: "'w ext2 \<Rightarrow> u32 \<Rightarrow> (int \<times> 'w ext2) option" where
  "inode_free s k = do {
     grp \<leftarrow> EXT2_GET_INODE_GROUP s k;
     _ \<leftarrow> group_mutex s grp;
     free_in inode_bitmap_read inode_bitmap_write bg_free_inodes_count 16 (s_inodes_per_group (sb s)) s grp k }"

section \<open>The device\<close>

text \<open>
  What the file system relies on of the device behind the block switch: a read inside the first \<open>cap\<close> sectors returns
  the sectors, all of them, and changes none; a write replaces exactly the sectors written. \<open>view\<close> reads
  the sectors off the state of the driver.
\<close>

definition block_device :: "dev_t \<Rightarrow> 'w bdev_table \<Rightarrow> nat \<Rightarrow> ('w \<Rightarrow> int \<Rightarrow> u8 list) \<Rightarrow> bool" where
  "block_device dev tab cap view \<longleftrightarrow>
     (\<forall>w k. length (view w k) = SECTOR) \<and>
     (\<forall>w n s. s + n \<le> cap \<longrightarrow>
        (\<exists>w'. bdev_read dev n (int s) tab w = Some ((int n, sectors (view w) (int s) n), w') \<and> view w' = view w)) \<and>
     (\<forall>w n s bs. s + n \<le> cap \<and> length bs = n * SECTOR \<longrightarrow>
        (\<exists>w'. bdev_write dev bs (int s) tab w = Some (int n, w') \<and>
          view w' = (\<lambda>k. if int s \<le> k \<and> k < int (s + n) then take SECTOR (drop (nat (k - int s) * SECTOR) bs) else view w k)))"

text \<open>Block \<open>b\<close> of the device.\<close>

definition blocks :: "('w \<Rightarrow> int \<Rightarrow> u8 list) \<Rightarrow> 'w ext2 \<Rightarrow> nat \<Rightarrow> u8 list" where
  "blocks view s b = sectors (view (disk s)) (int (b * spb s)) (spb s)"

text \<open>A mounted file system of \<open>nb\<close> blocks whose bitmaps lie on the device.\<close>

definition mounted :: "nat \<Rightarrow> ('w \<Rightarrow> int \<Rightarrow> u8 list) \<Rightarrow> 'w ext2 \<Rightarrow> bool" where
  "mounted nb view s \<longleftrightarrow>
     block_device (mp_device s) (bdev_tab s) (nb * spb s) view \<and> 0 < spb s \<and> nb * spb s \<le> 2 ^ 32 \<and>
     blk_size s = spb s * SECTOR \<and> length (sb s) = SB_SIZE \<and> nat (groups_count s) * GD_SIZE \<le> length (groups s) \<and>
     (\<forall>g. 0 \<le> g \<and> g < groups_count s \<longrightarrow>
        unat (get32 (groups s) (nat g * GD_SIZE + bg_block_bitmap)) < nb \<and>
        unat (get32 (groups s) (nat g * GD_SIZE + bg_inode_bitmap)) < nb)"

lemma length_blocks: "mounted nb view s \<Longrightarrow> length (blocks view s b) = blk_size s"
  by (simp add: blocks_def mounted_def block_device_def length_sectors)

lemma sector_num: "mounted nb view s \<Longrightarrow> unat b < nb \<Longrightarrow> EXT2_GET_SECTOR_NUM s b = int (unat b * spb s)"
proof -
  assume m: "mounted nb view s" and b: "unat b < nb"
  have "unat b * spb s < nb * spb s" "nb * spb s \<le> 2 ^ 32" using m b by (simp_all add: mounted_def)
  then have l: "unat b * spb s < 2 ^ 32" by (rule less_le_trans)
  have "b * of_nat (spb s) = of_nat (unat b * spb s)" by simp
  then have "unat (b * of_nat (spb s)) = unat b * spb s" using l by (simp add: unsigned_of_nat take_bit_nat_eq_self del: of_nat_mult)
  then show ?thesis unfolding EXT2_GET_SECTOR_NUM_def uint_nat by (rule arg_cong)
qed

lemma mounted_simps:
  assumes "mounted nb view s"
  shows "block_device (mp_device s) (bdev_tab s) (nb * spb s) view" "0 < spb s" "blk_size s = spb s * SECTOR"
    "length (sb s) = SB_SIZE" "0 \<le> g \<Longrightarrow> g < groups_count s \<Longrightarrow> in_groups s g"
proof -
  show "block_device (mp_device s) (bdev_tab s) (nb * spb s) view" "0 < spb s" "blk_size s = spb s * SECTOR" "length (sb s) = SB_SIZE"
    using assms by (simp_all add: mounted_def)
  assume g: "0 \<le> g" "g < groups_count s"
  then have "(nat g + 1) * GD_SIZE \<le> nat (groups_count s) * GD_SIZE" by (intro mult_le_mono1) linarith
  with g assms show "in_groups s g" unfolding in_groups_def mounted_def by linarith
qed

lemma mounted_disk: "mounted nb view (s\<lparr>disk := w\<rparr>) = mounted nb view s"
  by (simp add: mounted_def)

lemma block_in_device: "unat b < nb \<Longrightarrow> unat b * spb s + spb s \<le> nb * spb s"
  by (metis Suc_leI add.commute mult_Suc mult_le_mono1)

text \<open>Reading a block fills the start of the buffer and changes no block; writing one changes that block only.\<close>

lemma read_block:
  assumes "mounted nb view s" and "unat b < nb" and "blk_size s \<le> length buf"
  shows "\<exists>w. bread s buf (spb s) (EXT2_GET_SECTOR_NUM s b) =
      Some (int (spb s), blocks view s (unat b) @ drop (blk_size s) buf, s\<lparr>disk := w\<rparr>) \<and> view w = view (disk s)"
proof -
  obtain w where "bdev_read (mp_device s) (spb s) (int (unat b * spb s)) (bdev_tab s) (disk s) =
      Some ((int (spb s), blocks view s (unat b)), w)" "view w = view (disk s)"
    using mounted_simps(1)[OF assms(1)] block_in_device[OF assms(2), of s] unfolding block_device_def blocks_def by blast
  then show ?thesis using assms(3) mounted_simps(3)[OF assms(1)]
    unfolding bread_def sector_num[OF assms(1,2)] by (intro exI[of _ w]) (simp add: length_blocks[OF assms(1)])
qed

lemma sectors_written:
  assumes "length bs = n * SECTOR" and "\<forall>k. length (sec k) = SECTOR"
  shows "sectors (\<lambda>k. if int s \<le> k \<and> k < int (s + n) then take SECTOR (drop (nat (k - int s) * SECTOR) bs) else sec k) (int s) n = bs"
proof -
  have "sectors (\<lambda>k. if int s \<le> k \<and> k < int (s + n) then take SECTOR (drop (nat (k - int s) * SECTOR) bs) else sec k) (int s) m =
      take (m * SECTOR) bs" if "m \<le> n" for m
    using that by (induction m) (simp_all add: take_add[symmetric], simp add: add.commute)
  from this[of n] show ?thesis using assms(1) by simp
qed

lemma sectors_cong: "(\<And>i. i < n \<Longrightarrow> f (k + int i) = g (k + int i)) \<Longrightarrow> sectors f k n = sectors g k n"
  by (induction n) simp_all

lemma write_block:
  assumes "mounted nb view s" and "unat b < nb" and "blk_size s \<le> length buf"
  shows "\<exists>w. bwrite s buf (spb s) (EXT2_GET_SECTOR_NUM s b) = Some (int (spb s), s\<lparr>disk := w\<rparr>) \<and>
      blocks view (s\<lparr>disk := w\<rparr>) = (blocks view s)(unat b := take (blk_size s) buf)"
proof -
  let ?b = "unat b" and ?n = "spb s" and ?bs = "take (blk_size s) buf"
  have len: "length ?bs = ?n * SECTOR" using assms(3) mounted_simps(3)[OF assms(1)] by simp
  obtain w where w: "bdev_write (mp_device s) ?bs (int (?b * ?n)) (bdev_tab s) (disk s) = Some (int ?n, w)"
    "view w = (\<lambda>k. if int (?b * ?n) \<le> k \<and> k < int (?b * ?n + ?n) then take SECTOR (drop (nat (k - int (?b * ?n)) * SECTOR) ?bs)
       else view (disk s) k)"
    using mounted_simps(1)[OF assms(1)] block_in_device[OF assms(2), of s] len unfolding block_device_def by blast
  have "blocks view (s\<lparr>disk := w\<rparr>) c = ((blocks view s)(?b := ?bs)) c" for c
  proof (cases "c = ?b")
    case True
    have "\<forall>k. length (view (disk s) k) = SECTOR" using mounted_simps(1)[OF assms(1)] by (simp add: block_device_def)
    from sectors_written[OF len this, of "?b * ?n"] show ?thesis using True by (simp add: blocks_def w(2) del: of_nat_mult)
  next
    case False
    then have "c * ?n + ?n \<le> ?b * ?n \<or> ?b * ?n + ?n \<le> c * ?n"
      by (metis Suc_leI add.commute mult_Suc mult_le_mono1 nat_neq_iff)
    then have "sectors (view w) (int (c * ?n)) ?n = sectors (view (disk s)) (int (c * ?n)) ?n"
      by (intro sectors_cong) (auto simp: w(2) simp del: of_nat_mult)
    then show ?thesis using False by (simp add: blocks_def)
  qed
  then show ?thesis using w(1) assms(3) mounted_simps(3)[OF assms(1)]
    unfolding bwrite_def sector_num[OF assms(1,2)] by (auto simp: fun_eq_iff)
qed

section \<open>Bits of a bitmap\<close>

definition bit_at :: "u8 list \<Rightarrow> nat \<Rightarrow> bool" where
  "bit_at bs n = bit (get32 bs (4 * (n div 32))) (n mod 32)"

definition put_bit :: "u8 list \<Rightarrow> nat \<Rightarrow> bool \<Rightarrow> u8 list" where
  "put_bit bs n b = put32 bs (4 * (n div 32)) ((if b then bts else btr) (get32 bs (4 * (n div 32))) (n mod 32))"

lemma length_put_bit: "length (put_bit bs n b) = length bs"
  by (simp add: put_bit_def bytes_simps)

lemma bit_at_put_bit:
  assumes "n < 8 * length bs" and "4 dvd length bs"
  shows "bit_at (put_bit bs n b) m = (if m = n then b else bit_at bs m)"
proof -
  obtain k where k: "length bs = 4 * k" using assms(2) by (rule dvdE)
  have "n div 32 < k" using assms(1) k by (intro less_mult_imp_div_less) simp
  then have "4 * (n div 32) + 3 < length bs" using k by simp
  moreover have "m = n" if "m div 32 = n div 32" "m mod 32 = n mod 32" using that by (metis div_mod_decomp)
  moreover have "get32 (put32 bs (4 * (n div 32)) w) (4 * (m div 32)) = get32 bs (4 * (m div 32))" if "m div 32 \<noteq> n div 32" for w
    using that by (intro get32_put32_other) linarith
  ultimately show ?thesis
    by (cases "m div 32 = n div 32")
      (auto simp: bit_at_def put_bit_def bytes_simps bts_def btr_def bit_simps)
qed

lemma take_zero_Some:
  assumes "take_zero s buf = Some (i, j, buf')"
  shows "j < 32" "i < blk_size s div 4" "\<not> bit_at buf (i * 32 + j)" "buf' = put_bit buf (i * 32 + j) True"
proof -
  from assms obtain i' where f: "find (\<lambda>i. get32 buf (4 * i) \<noteq> - 1) [0..<blk_size s div 4] = Some i'"
    and r: "i = i'" "j = ffz_bit (get32 buf (4 * i'))" "buf' = put32 buf (4 * i') (bts (get32 buf (4 * i')) j)"
    by (auto simp: take_zero_def Let_def)
  have w: "get32 buf (4 * i) \<noteq> - 1" "i < blk_size s div 4" using f r(1) by (auto simp: find_Some_iff)
  then show "j < 32" "i < blk_size s div 4" using ffz_bit_less r by simp_all
  then have "(i * 32 + j) div 32 = i" "(i * 32 + j) mod 32 = j" by simp_all
  then show "\<not> bit_at buf (i * 32 + j)" "buf' = put_bit buf (i * 32 + j) True"
    using ffz_bit_clear[OF w(1)] r by (simp_all add: bit_at_def put_bit_def)
qed

lemma take_zero_None:
  assumes "take_zero s buf = None" and "n < 8 * blk_size s" and "4 dvd blk_size s"
  shows "bit_at buf n"
proof -
  have "n div 32 < blk_size s div 4" using assms(2,3) by (auto elim!: dvdE)
  then have "get32 buf (4 * (n div 32)) = - 1" using assms(1) by (auto simp: take_zero_def find_None_iff)
  then show ?thesis by (simp add: bit_at_def)
qed

section \<open>Counts of a group\<close>

definition count_of :: "nat \<Rightarrow> 'w ext2 \<Rightarrow> int \<Rightarrow> u16" where
  "count_of c s g = get16 (groups s) (nat g * GD_SIZE + c)"

definition bitmap_of :: "nat \<Rightarrow> 'w ext2 \<Rightarrow> int \<Rightarrow> nat" where
  "bitmap_of fld s g = unat (get32 (groups s) (nat g * GD_SIZE + fld))"

abbreviation count_fields :: "nat set" where "count_fields \<equiv> {bg_free_blocks_count, bg_free_inodes_count}"
abbreviation bitmap_fields :: "nat set" where "bitmap_fields \<equiv> {bg_block_bitmap, bg_inode_bitmap}"

lemmas bg_offsets = bg_block_bitmap_def bg_inode_bitmap_def bg_inode_table_def bg_free_blocks_count_def bg_free_inodes_count_def GD_SIZE_def

lemma bg_add16_other:
  assumes "c \<in> count_fields"
  shows "\<And>fld. fld \<in> bitmap_fields \<union> {bg_inode_table} \<Longrightarrow>
      get32 (groups (bg_add16 c g d s)) (nat h * GD_SIZE + fld) = get32 (groups s) (nat h * GD_SIZE + fld)"
    "in_groups s g \<Longrightarrow> 0 \<le> h \<Longrightarrow> c' \<in> count_fields \<Longrightarrow>
      count_of c' (bg_add16 c g d s) h = (if h = g \<and> c' = c then count_of c s g + d else count_of c' s h)"
proof -
  have "nat h = nat g \<or> nat h * 32 + 32 \<le> nat g * 32 \<or> nat g * 32 + 32 \<le> nat h * 32" by linarith
  then show "get32 (groups (bg_add16 c g d s)) (nat h * GD_SIZE + fld) = get32 (groups s) (nat h * GD_SIZE + fld)"
    if "fld \<in> bitmap_fields \<union> {bg_inode_table}" for fld
    using that assms by (auto simp: bg_add16_def bg_offsets get32_put16_other)
  assume g: "in_groups s g" "0 \<le> h" "c' \<in> count_fields"
  then have l: "nat g * 32 + 32 \<le> length (groups s)" "0 \<le> g" by (simp_all add: in_groups_def GD_SIZE_def)
  have "h = g \<or> nat h * 32 + 32 \<le> nat g * 32 \<or> nat g * 32 + 32 \<le> nat h * 32" using g(2) l(2) by linarith
  then show "count_of c' (bg_add16 c g d s) h = (if h = g \<and> c' = c then count_of c s g + d else count_of c' s h)"
    using g(3) assms l(1) by (auto simp: count_of_def bg_add16_def bg_offsets get16_put16_other get16_put16)
qed

lemma mounted_add:
  "c \<in> count_fields \<Longrightarrow> mounted nb view (bg_add16 c g d s) = mounted nb view s"
  "mounted nb view (sb_add32 fld d' s) = mounted nb view s"
proof -
  assume c: "c \<in> count_fields"
  show "mounted nb view (bg_add16 c g d s) = mounted nb view s"
    unfolding mounted_def bg_add16_other(1)[OF c UnI1, OF insertI1] bg_add16_other(1)[OF c UnI1, OF insertI2, OF insertI1]
    by (simp add: bg_add16_def bytes_simps)
qed (simp add: mounted_def sb_add32_def bytes_simps)

lemma add_simps [simp]:
  "blk_size (bg_add16 c g d s) = blk_size s" "blk_size (sb_add32 fld d' s) = blk_size s"
  "spb (bg_add16 c g d s) = spb s" "spb (sb_add32 fld d' s) = spb s"
  "disk (bg_add16 c g d s) = disk s" "disk (sb_add32 fld d' s) = disk s"
  "groups_count (bg_add16 c g d s) = groups_count s" "groups_count (sb_add32 fld d' s) = groups_count s"
  "groups (sb_add32 fld d' s) = groups s" "sb (bg_add16 c g d s) = sb s"
  "blocks view (bg_add16 c g d s) = blocks view s" "blocks view (sb_add32 fld d' s) = blocks view s"
  by (simp_all add: bg_add16_def sb_add32_def blocks_def fun_eq_iff)

lemma most_free_correct:
  assumes "\<And>i. i \<in> set ixs \<Longrightarrow> in_groups s i"
  shows "\<exists>h. most_free s c ixs best g = Some h \<and>
     ((h = g \<and> (\<forall>i \<in> set ixs. count_of c s i \<le> best)) \<or>
      (h \<in> set ixs \<and> best < count_of c s h \<and> (\<forall>i \<in> set ixs. count_of c s i \<le> count_of c s h)))"
  using assms
proof (induction ixs arbitrary: best g)
  case (Cons i ixs)
  have c: "bg16 s c i = Some (count_of c s i)" using Cons.prems by (simp add: bg16_def count_of_def)
  show ?case
  proof (cases "count_of c s i > best")
    case True
    then show ?thesis using Cons.IH[of "count_of c s i" i] Cons.prems c by force
  next
    case False
    then show ?thesis using Cons.IH[of best g] Cons.prems c by force
  qed
qed simp

lemma length_kalloc [simp]: "length (kalloc s n) = n"
  by (simp add: kalloc_def)

lemma bitmap_io:
  assumes "mounted nb view s" and "0 \<le> g" and "g < groups_count s" and "fld \<in> bitmap_fields" and "length buf = blk_size s"
  shows "\<exists>w. bitmap_read fld s buf g = Some (0, blocks view s (bitmap_of fld s g), s\<lparr>disk := w\<rparr>) \<and> view w = view (disk s)"
    "\<exists>w. bitmap_write fld s buf g = Some (0, s\<lparr>disk := w\<rparr>) \<and>
      blocks view (s\<lparr>disk := w\<rparr>) = (blocks view s)(bitmap_of fld s g := buf)"
proof -
  have b: "bg32 s fld g = Some (get32 (groups s) (nat g * GD_SIZE + fld))" "unat (get32 (groups s) (nat g * GD_SIZE + fld)) < nb"
    using assms mounted_simps(5)[OF assms(1-3)] by (auto simp: bg32_def mounted_def)
  show "\<exists>w. bitmap_read fld s buf g = Some (0, blocks view s (bitmap_of fld s g), s\<lparr>disk := w\<rparr>) \<and> view w = view (disk s)"
    using read_block[OF assms(1) b(2), of buf] assms(3,5) by (auto simp: bitmap_read_def b(1) bitmap_of_def)
  show "\<exists>w. bitmap_write fld s buf g = Some (0, s\<lparr>disk := w\<rparr>) \<and>
      blocks view (s\<lparr>disk := w\<rparr>) = (blocks view s)(bitmap_of fld s g := buf)"
    using write_block[OF assms(1) b(2), of buf] assms(3,5) by (auto simp: bitmap_write_def b(1) bitmap_of_def)
qed

text \<open>Bit \<open>n\<close> of the bitmap of group \<open>g\<close> was clear and has been set, or the other way round, no other block of the device has
  changed, and the counts follow: one in the descriptor of the group, one in the super block.\<close>

definition flipped :: "('w \<Rightarrow> int \<Rightarrow> u8 list) \<Rightarrow> nat \<Rightarrow> nat \<Rightarrow> nat \<Rightarrow> bool \<Rightarrow> int \<Rightarrow> nat \<Rightarrow> 'w ext2 \<Rightarrow> 'w ext2 \<Rightarrow> bool" where
  "flipped view fld c sbc b g n s s' \<longleftrightarrow>
     n < 8 * blk_size s \<and> bit_at (blocks view s (bitmap_of fld s g)) n = (\<not> b) \<and>
     blocks view s' = (blocks view s)(bitmap_of fld s g := put_bit (blocks view s (bitmap_of fld s g)) n b) \<and>
     (\<forall>h \<ge> 0. count_of c s' h = (if h = g then count_of c s g + (if b then - 1 else 1) else count_of c s h)) \<and>
     get32 (sb s') sbc = get32 (sb s) sbc + (if b then - 1 else 1)"

lemma blk_size_dvd: "mounted nb view s \<Longrightarrow> 4 dvd blk_size s"
  using mounted_simps(3)[of nb view s] by (simp add: SECTOR_def dvd_mult)

lemma update_bitmap:
  assumes m: "mounted nb view s" and g: "0 \<le> g" "g < groups_count s" and f: "fld \<in> bitmap_fields" "c \<in> count_fields" "sbc + 3 < SB_SIZE"
    and n: "n < 8 * blk_size s" "bit_at (blocks view s (bitmap_of fld s g)) n = (\<not> b)" and v: "view w = view (disk s)"
  defines "t \<equiv> sb_add32 sbc (if b then - 1 else 1) (bg_add16 c g (if b then - 1 else 1) (s\<lparr>disk := w\<rparr>))"
  shows "\<exists>s'. bitmap_write fld t (put_bit (blocks view s (bitmap_of fld s g)) n b) g = Some (0, s') \<and> flipped view fld c sbc b g n s s' \<and> mounted nb view s'"
proof -
  let ?bm = "put_bit (blocks view s (bitmap_of fld s g)) n b"
  have mt: "mounted nb view t" using m f(2) by (simp add: t_def mounted_add mounted_disk)
  have bl: "blocks view t = blocks view s" using v by (intro ext) (simp add: t_def blocks_def)
  have len: "length ?bm = blk_size t" using length_blocks[OF m] by (simp add: length_put_bit t_def)
  have bm: "bitmap_of fld t g = bitmap_of fld s g"
    using bg_add16_other(1)[OF f(2), of fld g _ "s\<lparr>disk := w\<rparr>" g] f(1) by (auto simp: bitmap_of_def t_def)
  have gt: "g < groups_count t" using g(2) by (simp add: t_def)
  obtain w' where w': "bitmap_write fld t ?bm g = Some (0, t\<lparr>disk := w'\<rparr>)" "blocks view (t\<lparr>disk := w'\<rparr>) = (blocks view s)(bitmap_of fld s g := ?bm)"
    using bitmap_io(2)[OF mt g(1) gt f(1) len] unfolding bl bm by blast
  have i: "in_groups (s\<lparr>disk := w\<rparr>) g" using mounted_simps(5)[OF m g] by (simp add: in_groups_def)
  have "count_of c (t\<lparr>disk := w'\<rparr>) h = (if h = g then count_of c s g + (if b then - 1 else 1) else count_of c s h)" if "0 \<le> h" for h
  proof -
    have "count_of c (t\<lparr>disk := w'\<rparr>) h = count_of c (bg_add16 c g (if b then - 1 else 1) (s\<lparr>disk := w\<rparr>)) h"
      unfolding count_of_def t_def by simp
    also have "\<dots> = (if h = g \<and> c = c then count_of c (s\<lparr>disk := w\<rparr>) g + (if b then - 1 else 1) else count_of c (s\<lparr>disk := w\<rparr>) h)"
      using bg_add16_other(2)[OF f(2) i that f(2)] .
    finally show ?thesis by (simp add: count_of_def)
  qed
  moreover have "get32 (sb (t\<lparr>disk := w'\<rparr>)) sbc = get32 (sb s) sbc + (if b then - 1 else 1)"
    using f(3) mounted_simps(4)[OF m] by (simp add: t_def sb_add32_def bg_add16_def get32_put32)
  ultimately show ?thesis using w' n mt by (auto simp: flipped_def mounted_disk)
qed

lemma alloc_in_correct:
  assumes m: "mounted nb view s" and g: "0 \<le> g" "g < groups_count s" and f: "fld \<in> bitmap_fields" "c \<in> count_fields" "sbc + 3 < SB_SIZE"
  shows "(\<exists>n s'. alloc_in (bitmap_read fld) (bitmap_write fld) c sbc per s g = Some (0, Some (of_int g * per + of_nat n + 1), s') \<and>
        flipped view fld c sbc True g n s s' \<and> mounted nb view s') \<or>
     (\<exists>w. alloc_in (bitmap_read fld) (bitmap_write fld) c sbc per s g = Some (- errno_code ENOSPC, None, s\<lparr>disk := w\<rparr>) \<and>
        view w = view (disk s) \<and> (\<forall>n < 8 * blk_size s. bit_at (blocks view s (bitmap_of fld s g)) n))"
proof -
  let ?bm = "blocks view s (bitmap_of fld s g)"
  obtain w where w: "bitmap_read fld s (kalloc s (blk_size s)) g = Some (0, ?bm, s\<lparr>disk := w\<rparr>)" "view w = view (disk s)"
    using bitmap_io(1)[OF m g f(1), of "kalloc s (blk_size s)"] by auto
  show ?thesis
  proof (cases "take_zero (s\<lparr>disk := w\<rparr>) ?bm")
    case None
    have "\<forall>n < 8 * blk_size s. bit_at ?bm n" using take_zero_None[OF None] blk_size_dvd[OF m] by simp
    then show ?thesis using w None by (auto simp: alloc_in_def)
  next
    case (Some x)
    obtain i j buf where x: "x = (i, j, buf)" by (cases x)
    note z = take_zero_Some[OF Some[unfolded x]]
    obtain q where q: "blk_size s = 4 * q" using blk_size_dvd[OF m] by (rule dvdE)
    have n: "i * 32 + j < 8 * blk_size s" using z(1,2) by (simp add: q)
    obtain s' where s': "bitmap_write fld (sb_add32 sbc (- 1) (bg_add16 c g (- 1) (s\<lparr>disk := w\<rparr>))) buf g = Some (0, s')"
        "flipped view fld c sbc True g (i * 32 + j) s s'" "mounted nb view s'"
      using update_bitmap[OF m g f n _ w(2), of True] z(3,4) by auto
    have "alloc_in (bitmap_read fld) (bitmap_write fld) c sbc per s g = Some (0, Some (of_int g * per + of_nat (i * 32 + j) + 1), s')"
      using w(1) s'(1) by (simp add: alloc_in_def Some x Let_def)
    then show ?thesis using s' by blast
  qed
qed

text \<open>The numbers of a group: bit \<open>n\<close> of group \<open>g\<close> stands for number \<open>g * per_group + n + 1\<close>.\<close>

definition number :: "u32 \<Rightarrow> int \<Rightarrow> nat \<Rightarrow> u32" where
  "number per g n = of_int g * per + of_nat n + 1"

lemma number_unat:
  assumes "0 \<le> g" and "nat g * unat per + n + 1 < 2 ^ 32"
  shows "unat (number per g n) = nat g * unat per + n + 1"
proof -
  have "number per g n = of_nat (nat g * unat per + n + 1)" using assms(1) by (simp add: number_def)
  then show ?thesis using assms(2) by (simp add: unsigned_of_nat take_bit_nat_eq_self del: of_nat_add of_nat_mult of_nat_Suc)
qed

text \<open>Freeing works on the bit that stands for the number, unless the number is a multiple of 32: then the bit index is -1.\<close>

lemma locate_number:
  assumes "0 \<le> g" and "nat g * unat per + n + 1 < 2 ^ 32" and "32 dvd unat per" and "n < 8 * blk_size s" and "4 dvd blk_size s"
  shows "locate s (number per g n) g per = (if n mod 32 = 31 then None else Some (n div 32, n mod 32))"
proof -
  obtain q where q: "blk_size s = 4 * q" using assms(5) by (rule dvdE)
  obtain p where p: "unat per = 32 * p" using assms(3) by (rule dvdE)
  have "number per g n - of_int g * per - 1 = of_nat n" by (simp add: number_def)
  moreover have "unat (of_nat n :: u32) = n" using assms(2) by (simp add: unsigned_of_nat take_bit_nat_eq_self)
  ultimately have i: "unat ((number per g n - of_int g * per - 1) div 32) = n div 32" by (simp add: unat_div)
  have "unat (number per g n) = 32 * (nat g * p) + n + 1" using number_unat[OF assms(1,2)] p by simp
  then have "unat (number per g n mod 32) = (n + 1) mod 32" by (simp add: unat_mod)
  also have "\<dots> = (if n mod 32 = 31 then 0 else n mod 32 + 1)" by (simp add: mod_Suc)
  finally have j: "unat (number per g n mod 32) = (if n mod 32 = 31 then 0 else n mod 32 + 1)" .
  have "n div 32 < q" using assms(4) q by (intro less_mult_imp_div_less) simp
  then show ?thesis by (auto simp: locate_def i j q)
qed

lemma group_of_number:
  assumes "0 \<le> g" and "g < 2 ^ 31" and "nat g * unat per + n + 1 < 2 ^ 32" and "n < unat per"
  shows "sint ((number per g n - 1) div per) = g"
proof -
  have "unat (number per g n - 1) = nat g * unat per + n"
  proof -
    have "number per g n - 1 = of_nat (nat g * unat per + n)" using assms(1) by (simp add: number_def)
    then show ?thesis using assms(3) by (simp add: unsigned_of_nat take_bit_nat_eq_self del: of_nat_add of_nat_mult)
  qed
  then have u: "unat ((number per g n - 1) div per) = nat g" using assms(4) by (simp add: unat_div)
  then have "(number per g n - 1) div per = of_int g"
  proof -
    have "(number per g n - 1) div per = of_nat (unat ((number per g n - 1) div per))" by simp
    then show ?thesis unfolding u using assms(1) by simp
  qed
  then show ?thesis using assms(1,2) by (simp add: signed_of_int signed_take_bit_int_eq_self)
qed

definition in_group :: "u32 \<Rightarrow> int \<Rightarrow> nat \<Rightarrow> bool" where
  "in_group per g n \<longleftrightarrow> 0 \<le> g \<and> g < 2 ^ 31 \<and> nat g * unat per + n + 1 < 2 ^ 32 \<and> n < unat per \<and> 32 dvd unat per"

lemma free_in_correct:
  assumes m: "mounted nb view s" and g: "g < groups_count s" and f: "fld \<in> bitmap_fields" "c \<in> count_fields" "sbc + 3 < SB_SIZE"
    and n: "in_group per g n" "n < 8 * blk_size s"
  defines "r \<equiv> free_in (bitmap_read fld) (bitmap_write fld) c sbc per s g (number per g n)"
  shows "if n mod 32 = 31 then r = None
    else if bit_at (blocks view s (bitmap_of fld s g)) n then \<exists>s'. r = Some (0, s') \<and> flipped view fld c sbc False g n s s' \<and> mounted nb view s'
    else \<exists>w. r = Some (0, s\<lparr>disk := w\<rparr>) \<and> view w = view (disk s)"
proof -
  let ?bm = "blocks view s (bitmap_of fld s g)"
  have g0: "0 \<le> g" and ng: "nat g * unat per + n + 1 < 2 ^ 32" "32 dvd unat per" using n(1) by (simp_all add: in_group_def)
  obtain w where w: "bitmap_read fld s (kalloc s (blk_size s)) g = Some (0, ?bm, s\<lparr>disk := w\<rparr>)" "view w = view (disk s)"
    using bitmap_io(1)[OF m g0 g f(1), of "kalloc s (blk_size s)"] by auto
  have l: "locate (s\<lparr>disk := w\<rparr>) (number per g n) g per = (if n mod 32 = 31 then None else Some (n div 32, n mod 32))"
    using locate_number[OF g0 ng, of "s\<lparr>disk := w\<rparr>"] n(2) blk_size_dvd[OF m] by simp
  have t: "test_bit (get32 ?bm (4 * (n div 32))) (n mod 32) = 0 \<longleftrightarrow> \<not> bit_at ?bm n" by (simp add: test_bit_def bit_at_def)
  have p: "put32 ?bm (4 * (n div 32)) (btr (get32 ?bm (4 * (n div 32))) (n mod 32)) = put_bit ?bm n False" by (simp add: put_bit_def)
  have r: "r = (if n mod 32 = 31 then None else if bit_at ?bm n
      then bitmap_write fld (sb_add32 sbc 1 (bg_add16 c g 1 (s\<lparr>disk := w\<rparr>))) (put_bit ?bm n False) g else Some (0, s\<lparr>disk := w\<rparr>))"
    unfolding r_def free_in_def w(1) by (simp add: l t p)
  show ?thesis
  proof (cases "n mod 32 \<noteq> 31 \<and> bit_at ?bm n")
    case True
    then obtain s' where "bitmap_write fld (sb_add32 sbc 1 (bg_add16 c g 1 (s\<lparr>disk := w\<rparr>))) (put_bit ?bm n False) g = Some (0, s')"
        "flipped view fld c sbc False g n s s'" "mounted nb view s'"
      using update_bitmap[OF m g0 g f n(2) _ w(2), of False] by auto
    then show ?thesis using True r by auto
  qed (use r w in auto)
qed

lemma SB_counts: "12 + 3 < SB_SIZE" "16 + 3 < SB_SIZE"
  by (simp_all add: SB_SIZE_def)

lemma group_ready:
  assumes "mounted nb view s" and "0 \<le> g" and "g < groups_count s"
  shows "bg16 s c g = Some (count_of c s g)" "group_mutex s g = Some ()"
  using mounted_simps(5)[OF assms] assms(2,3) by (simp_all add: bg16_def count_of_def group_mutex_def)

lemma choose_group:
  assumes "mounted nb view s"
  obtains h where "most_free s c [0..groups_count s - 1] 0 g = Some h"
    "(h = g \<and> (\<forall>i. 0 \<le> i \<and> i < groups_count s \<longrightarrow> count_of c s i = 0)) \<or>
     (0 \<le> h \<and> h < groups_count s \<and> count_of c s h \<noteq> 0 \<and> (\<forall>i. 0 \<le> i \<and> i < groups_count s \<longrightarrow> count_of c s i \<le> count_of c s h))"
proof -
  have "in_groups s i" if "i \<in> set [0..groups_count s - 1]" for i using that mounted_simps(5)[OF assms] by simp
  from most_free_correct[OF this, where ixs = "[0..groups_count s - 1]" and c = c and best = 0 and g = g] that show ?thesis by (auto simp: word_le_0_iff word_neq_0_conv)
qed

section \<open>Properties\<close>

abbreviation free_blocks :: "'w ext2 \<Rightarrow> int \<Rightarrow> u16" where "free_blocks \<equiv> count_of bg_free_blocks_count"
abbreviation free_inodes :: "'w ext2 \<Rightarrow> int \<Rightarrow> u16" where "free_inodes \<equiv> count_of bg_free_inodes_count"

text \<open>A small file system on a disk in memory, for concrete runs: 16 blocks of 1024 bytes, one group, bitmaps in blocks 3
  and 4.\<close>

definition ram_view :: "(int \<Rightarrow> u8 list) \<Rightarrow> int \<Rightarrow> u8 list" where
  "ram_view w k = take SECTOR (w k @ replicate SECTOR 0)"

definition ram_bdev_ops :: "(int \<Rightarrow> u8 list) bdev_ops" where
  "ram_bdev_ops = \<lparr>b_open = (\<lambda>_ _ w. (0, w)), b_read = Some (\<lambda>_ _ n s w. ((int n, sectors (ram_view w) s n), w)),
     b_write = Some (\<lambda>_ _ bs s w. (int (length bs div SECTOR), \<lambda>k. if s \<le> k \<and> k < s + int (length bs div SECTOR)
       then take SECTOR (drop (nat (k - s) * SECTOR) bs) else w k)), b_ioctl = None\<rparr>"

definition RAM_DEV :: dev_t where "RAM_DEV = MK_DEV 1 0"

definition ram_table :: "(int \<Rightarrow> u8 list) bdev_table" where
  "ram_table = (replicate DEV_BLOCK_MAX None)[0 := Some \<lparr>bops = ram_bdev_ops, brefs = 1, bdata = 0\<rparr>]"

definition small_fs :: "(int \<Rightarrow> u8 list) ext2" where
  "small_fs = \<lparr>sb = put32 (put32 (put32 (replicate SB_SIZE 0) 0 32) 32 8192) 40 32, spb = 2, bps = 512, blk_size = 1024, groups_count = 1,
     groups_blocks = 1, groups = put16 (put16 (put32 (put32 (put32 (replicate 1024 0) 0 3) 4 4) 8 5) 12 10) 14 20,
     mp_device = RAM_DEV, mp_flags = 0, bdev_tab = ram_table, disk = (\<lambda>_. replicate SECTOR 0), kheap = (\<lambda>_. 0),
     zero_page = None, incore = (\<lambda>_. replicate 128 0), next_incore = 0\<rparr>"

lemma ram_block_device: "block_device RAM_DEV ram_table cap ram_view"
proof -
  have i: "dev_index RAM_DEV = Some 0" using DEV_MAJOR_MK[of 1 0] by (simp add: dev_index_def RAM_DEV_def)
  have len: "length (ram_view w k) = SECTOR" for w k by (simp add: ram_view_def)
  have r: "bdev_read RAM_DEV n s ram_table w = Some ((int n, sectors (ram_view w) s n), w)" for n s w
    by (simp add: bdev_read_def i ram_table_def ram_bdev_ops_def DEV_BLOCK_MAX_def)
  have "\<exists>w'. bdev_write RAM_DEV bs (int s) ram_table w = Some (int n, w') \<and>
      ram_view w' = (\<lambda>k. if int s \<le> k \<and> k < int (s + n) then take SECTOR (drop (nat (k - int s) * SECTOR) bs) else ram_view w k)"
    if "length bs = n * SECTOR" for bs n s w
  proof (intro exI conjI)
    show "bdev_write RAM_DEV bs (int s) ram_table w = Some (int n, \<lambda>k. if int s \<le> k \<and> k < int s + int n
        then take SECTOR (drop (nat (k - int s) * SECTOR) bs) else w k)"
      using that by (simp add: bdev_write_def i ram_table_def ram_bdev_ops_def DEV_BLOCK_MAX_def SECTOR_def)
    have "length (take SECTOR (drop (nat (k - int s) * SECTOR) bs)) = SECTOR" if "int s \<le> k" "k < int s + int n" for k
    proof -
      have "(nat (k - int s) + 1) * SECTOR \<le> n * SECTOR" using that by (intro mult_le_mono1) linarith
      then show ?thesis using \<open>length bs = n * SECTOR\<close> by simp
    qed
    then show "ram_view (\<lambda>k. if int s \<le> k \<and> k < int s + int n then take SECTOR (drop (nat (k - int s) * SECTOR) bs) else w k) =
        (\<lambda>k. if int s \<le> k \<and> k < int (s + n) then take SECTOR (drop (nat (k - int s) * SECTOR) bs) else ram_view w k)"
      by (intro ext) (simp add: ram_view_def min_def)
  qed
  then show ?thesis using r len by (simp add: block_device_def)
qed

lemma small_fs_mounted: "mounted 16 ram_view small_fs"
proof -
  have "unat (get32 (groups small_fs) (nat g * GD_SIZE + bg_block_bitmap)) = 3" "unat (get32 (groups small_fs) (nat g * GD_SIZE + bg_inode_bitmap)) = 4"
    if "0 \<le> g" "g < groups_count small_fs" for g
    using that by (simp_all add: small_fs_def bg_offsets bytes_simps)
  then have "\<forall>g. 0 \<le> g \<and> g < groups_count small_fs \<longrightarrow> unat (get32 (groups small_fs) (nat g * GD_SIZE + bg_block_bitmap)) < 16 \<and>
      unat (get32 (groups small_fs) (nat g * GD_SIZE + bg_inode_bitmap)) < 16" by simp
  moreover have "nat (groups_count small_fs) * GD_SIZE \<le> length (groups small_fs)" "length (sb small_fs) = SB_SIZE"
    "blk_size small_fs = spb small_fs * SECTOR" "0 < spb small_fs" "16 * spb small_fs \<le> 2 ^ 32"
    "block_device (mp_device small_fs) (bdev_tab small_fs) (16 * spb small_fs) ram_view"
    by (simp_all add: small_fs_def SECTOR_def bytes_simps GD_SIZE_def ram_block_device)
  ultimately show ?thesis unfolding mounted_def by blast
qed

lemma small_fs_facts:
  "groups_count small_fs = 1" "free_blocks small_fs 0 = 10" "free_inodes small_fs 0 = 20" "blk_size small_fs = 1024"
  "s_blocks_per_group (sb small_fs) = 8192" "s_inodes_per_group (sb small_fs) = 32" "blocks ram_view small_fs b = replicate 1024 0"
  "s_inodes_count (sb small_fs) = 32"
proof -
  have z: "ram_view (\<lambda>_. replicate SECTOR 0) k = replicate SECTOR 0" for k by (simp add: ram_view_def)
  have "blocks ram_view small_fs b = replicate SECTOR 0 @ replicate SECTOR 0"
    by (simp add: blocks_def small_fs_def z numeral_2_eq_2)
  then show "blocks ram_view small_fs b = replicate 1024 0" by (simp add: SECTOR_def replicate_add[symmetric])
qed (simp_all add: small_fs_def count_of_def bg_offsets bytes_simps s_blocks_per_group_def s_inodes_per_group_def s_inodes_count_def SB_SIZE_def)





text \<open>C37. Allocating an i-node, in a given group or, with a negative one, in the group that has most. With free i-nodes in the
  group, a clear bit of its bitmap is set and the counts follow, or the bitmap is full and nothing changes; with none
  in the group asked for the call returns no space and the state as it was. Asked for any group when none has free
  i-nodes, the code goes on with group -1 and locks a mutex in front of the array.\<close>

theorem inode_alloc_correct:
  assumes "mounted nb view s" and "g < groups_count s"
  shows "if \<forall>i. 0 \<le> i \<and> i < groups_count s \<longrightarrow> free_inodes s i = 0
    then inode_alloc s g = (if g < 0 then None else Some (- errno_code ENOSPC, None, s))
    else \<exists>h. 0 \<le> h \<and> h < groups_count s \<and> (if g < 0 then \<forall>i. 0 \<le> i \<and> i < groups_count s \<longrightarrow> free_inodes s i \<le> free_inodes s h else h = g) \<and>
      (if free_inodes s h = 0 then inode_alloc s g = Some (- errno_code ENOSPC, None, s)
       else (\<exists>n s'. inode_alloc s g = Some (0, Some (number (s_inodes_per_group (sb s)) h n), s') \<and>
               flipped view bg_inode_bitmap bg_free_inodes_count 16 True h n s s' \<and> mounted nb view s') \<or>
            (\<exists>w. inode_alloc s g = Some (- errno_code ENOSPC, None, s\<lparr>disk := w\<rparr>) \<and> view w = view (disk s) \<and>
               (\<forall>n < 8 * blk_size s. bit_at (blocks view s (bitmap_of bg_inode_bitmap s h)) n)))"
proof -
  obtain h where h: "(if g < 0 then most_free s bg_free_inodes_count [0..groups_count s - 1] 0 g else Some g) = Some h"
    "(h = g \<and> (\<forall>i. 0 \<le> i \<and> i < groups_count s \<longrightarrow> free_inodes s i = 0)) \<or> (0 \<le> h \<and> h < groups_count s \<and>
      (if g < 0 then free_inodes s h \<noteq> 0 \<and> (\<forall>i. 0 \<le> i \<and> i < groups_count s \<longrightarrow> free_inodes s i \<le> free_inodes s h) else h = g))"
    using choose_group[OF assms(1), of bg_free_inodes_count g] assms(2) by (metis (full_types) linorder_not_less)
  have call: "inode_alloc s g = (if free_inodes s h = 0 then Some (- errno_code ENOSPC, None, s)
      else alloc_in (bitmap_read bg_inode_bitmap) (bitmap_write bg_inode_bitmap) bg_free_inodes_count 16 (s_inodes_per_group (sb s)) s h)"
    if "0 \<le> h" "h < groups_count s"
    using h(1) by (simp add: inode_alloc_def group_ready[OF assms(1) that] inode_bitmap_read_def inode_bitmap_write_def)
  show ?thesis
  proof (cases "\<forall>i. 0 \<le> i \<and> i < groups_count s \<longrightarrow> free_inodes s i = 0")
    case True
    then have "h = g" using h(2) by (metis (full_types))
    then show ?thesis using True h(1) call assms(2) by (auto simp: inode_alloc_def group_mutex_def)
  next
    case False
    then have r: "0 \<le> h" "h < groups_count s"
        "if g < 0 then \<forall>i. 0 \<le> i \<and> i < groups_count s \<longrightarrow> free_inodes s i \<le> free_inodes s h else h = g"
      using h(2) by (metis (full_types))+
    have "if free_inodes s h = 0 then inode_alloc s g = Some (- errno_code ENOSPC, None, s)
       else (\<exists>n s'. inode_alloc s g = Some (0, Some (number (s_inodes_per_group (sb s)) h n), s') \<and>
               flipped view bg_inode_bitmap bg_free_inodes_count 16 True h n s s' \<and> mounted nb view s') \<or>
            (\<exists>w. inode_alloc s g = Some (- errno_code ENOSPC, None, s\<lparr>disk := w\<rparr>) \<and> view w = view (disk s) \<and>
               (\<forall>n < 8 * blk_size s. bit_at (blocks view s (bitmap_of bg_inode_bitmap s h)) n))"
      using alloc_in_correct[OF assms(1) r(1,2), of bg_inode_bitmap bg_free_inodes_count 16 "s_inodes_per_group (sb s)"] SB_counts
      unfolding call[OF r(1,2)] number_def by simp
    then show ?thesis unfolding if_not_P[OF False] using r by blast
  qed
qed

theorem inode_alloc_correct_witness:
  "\<exists>n s'. inode_alloc small_fs (- 1) = Some (0, Some (of_nat n + 1), s') \<and> mounted 16 ram_view s'"
proof -
  note f = small_fs_facts
  have b: "\<not> bit_at (replicate 1024 0) 0" by (simp add: bit_at_def get32_def get16_def)
  have z: "\<not> (\<forall>i. 0 \<le> i \<and> i < groups_count small_fs \<longrightarrow> free_inodes small_fs i = 0)" using f(1,3) by auto
  have g: "- 1 < groups_count small_fs" by (simp add: f(1))
  from inode_alloc_correct[OF small_fs_mounted g, unfolded if_not_P[OF z]] obtain h where "0 \<le> h" "h < groups_count small_fs"
    "if free_inodes small_fs h = 0 then inode_alloc small_fs (- 1) = Some (- errno_code ENOSPC, None, small_fs)
       else (\<exists>n s'. inode_alloc small_fs (- 1) = Some (0, Some (number (s_inodes_per_group (sb small_fs)) h n), s') \<and>
               flipped ram_view bg_inode_bitmap bg_free_inodes_count 16 True h n small_fs s' \<and> mounted 16 ram_view s') \<or>
            (\<exists>w. inode_alloc small_fs (- 1) = Some (- errno_code ENOSPC, None, small_fs\<lparr>disk := w\<rparr>) \<and> ram_view w = ram_view (disk small_fs) \<and>
               (\<forall>n < 8 * blk_size small_fs. bit_at (blocks ram_view small_fs (bitmap_of bg_inode_bitmap small_fs h)) n))" by blast
  moreover from this have "h = 0" by (simp add: f(1))
  ultimately show ?thesis using b by (auto simp: f number_def)
qed

end
