(* ===== verification/Ext2Inode.thy ===== *)
theory Ext2Inode
  imports Ext2
begin

text \<open>
  The ext2 file system, second part: i-nodes, their contents and directories (\<^verbatim>\<open>modules/fs/ext2/inode.c\<close>). An i-node is its 128
  bytes; \<^verbatim>\<open>vnode->data\<close> is the index of a copy in \<open>incore\<close>. A function that moves data takes the buffer and returns it. The
  loops of \<^verbatim>\<open>inode_rw_content\<close> are functions of their own, one per loop of the source; \<open>Inl r\<close> stands for \<^verbatim>\<open>return r\<close>
  inside a loop, \<open>Inr\<close> for its regular end with the values of the loop variables.
\<close>

section \<open>I-nodes\<close>

definition INODE_SIZE :: nat where "INODE_SIZE = 128"

definition i_mode :: "u8 list \<Rightarrow> u16" where "i_mode i = get16 i 0"
definition i_uid :: "u8 list \<Rightarrow> u16" where "i_uid i = get16 i 2"
definition i_size :: "u8 list \<Rightarrow> u32" where "i_size i = get32 i 4"
definition i_gid :: "u8 list \<Rightarrow> u16" where "i_gid i = get16 i 24"
definition i_links_count :: "u8 list \<Rightarrow> u16" where "i_links_count i = get16 i 26"
definition i_blocks :: "u8 list \<Rightarrow> u32" where "i_blocks i = get32 i 28"
definition i_block :: "u8 list \<Rightarrow> nat \<Rightarrow> u32" where "i_block i k = get32 i (40 + 4 * k)"

text \<open>Where the i-node lies: the number of the block and the offset in it.\<close>

definition inode_place :: "'w ext2 \<Rightarrow> u32 \<Rightarrow> (u32 \<times> nat) option" where
  "inode_place s num =
     (if s_inodes_per_group (sb s) = 0 \<or> blk_size s = 0 then None
      else do {
        group_idx \<leftarrow> EXT2_GET_INODE_GROUP s num;
        let k = ((num - 1) mod s_inodes_per_group (sb s)) * of_nat INODE_SIZE;
        table \<leftarrow> bg32 s bg_inode_table group_idx;
        Some (table + k div of_nat (blk_size s), unat (k mod of_nat (blk_size s))) })"

definition bad_inode_num :: "'w ext2 \<Rightarrow> u32 \<Rightarrow> bool" where
  "bad_inode_num s num \<longleftrightarrow> num < 1 \<or> num > s_inodes_count (sb s)"

definition inode_do_read :: "'w ext2 \<Rightarrow> u8 list \<Rightarrow> u32 \<Rightarrow> (int \<times> u8 list \<times> 'w ext2) option" where
  "inode_do_read s inode num =
     (if bad_inode_num s num then Some (- errno_code EINVAL, inode, s)
      else do {
        (b, off) \<leftarrow> inode_place s num;
        (err, buf, s) \<leftarrow> bread s (kalloc s (blk_size s)) (spb s) (EXT2_GET_SECTOR_NUM s b);
        if err \<noteq> int (spb s) then Some (- errno_code EIO, inode, s)
        else if length buf < off + INODE_SIZE then None
        else Some (0, take INODE_SIZE (drop off buf), s) })"

definition inode_do_write :: "'w ext2 \<Rightarrow> u8 list \<Rightarrow> u32 \<Rightarrow> (int \<times> 'w ext2) option" where
  "inode_do_write s inode num =
     (if bad_inode_num s num then Some (- errno_code EINVAL, s)
      else do {
        (b, off) \<leftarrow> inode_place s num;
        (err, buf, s) \<leftarrow> bread s (kalloc s (blk_size s)) (spb s) (EXT2_GET_SECTOR_NUM s b);
        if err \<noteq> int (spb s) then Some (- errno_code EIO, s)
        else if length buf < off + INODE_SIZE then None
        else do {
          (err, s) \<leftarrow> bwrite s (overwrite buf off inode) (spb s) (EXT2_GET_SECTOR_NUM s b);
          Some (if err = int (spb s) then 0 else err, s) } })"

text \<open>Copying between v-node and i-node; \<^verbatim>\<open>uid_t\<close> and \<^verbatim>\<open>gid_t\<close> are signed 16-bit, \<^verbatim>\<open>blkcnt_t\<close> signed 32-bit numbers.\<close>

definition inode_read :: "'w ext2 \<Rightarrow> vnode \<Rightarrow> (int \<times> vnode \<times> 'w ext2) option" where
  "inode_read s v = do {
     (err, i, s) \<leftarrow> inode_do_read s (incore s (vdata v)) (of_nat (ino v));
     let s = s\<lparr>incore := (incore s)(vdata v := i)\<rparr>;
     if err \<noteq> 0 then Some (err, v, s)
     else Some (0, v\<lparr>vmode := i_mode i, vnlink := i_links_count i, vuid := sint (i_uid i), vgid := sint (i_gid i),
       vsize := uint (i_size i), vblocks := sint (i_blocks i), vblock_size := int (blk_size s)\<rparr>, s) }"

definition from_vnode :: "vnode \<Rightarrow> u8 list \<Rightarrow> u8 list" where
  "from_vnode v i = put32 (put16 (put16 (put16 (put16 i 0 (vmode v)) 26 (vnlink v)) 2 (of_int (vuid v))) 24 (of_int (vgid v)))
     4 (of_int (vsize v))"

definition inode_write :: "'w ext2 \<Rightarrow> vnode \<Rightarrow> (int \<times> 'w ext2) option" where
  "inode_write s v =
     (let i = from_vnode v (incore s (vdata v))
      in inode_do_write (s\<lparr>incore := (incore s)(vdata v := i)\<rparr>) i (of_nat (ino v)))"

section \<open>Contents\<close>

text \<open>\<^verbatim>\<open>inode_do_alloc_block\<close>: the return value and what \<^verbatim>\<open>*block\<close> was set to. The page of zeros is static: it is allocated with
  the block size of the first file system that needs it.\<close>

definition inode_do_alloc_block :: "'w ext2 \<Rightarrow> vnode \<Rightarrow> bool \<Rightarrow> (int \<times> u32 option \<times> 'w ext2) option" where
  "inode_do_alloc_block s v zeroblock = do {
     grp \<leftarrow> EXT2_GET_INODE_GROUP s (of_nat (ino v));
     (err, b, s) \<leftarrow> block_alloc s grp;
     if err \<noteq> 0 then Some (err, b, s)
     else do {
       let i = incore s (vdata v);
       let s = s\<lparr>incore := (incore s)(vdata v := put32 i 28 (i_blocks i + 1))\<rparr>;
       if \<not> zeroblock then Some (0, b, s)
       else do {
         let z = (case zero_page s of None \<Rightarrow> replicate (nat (vblock_size v)) 0 | Some z \<Rightarrow> z);
         (err, s) \<leftarrow> bwrite (s\<lparr>zero_page := Some z\<rparr>) z (spb s) (EXT2_GET_SECTOR_NUM s (the b));
         Some (if err < 0 then err else 0, b, s) } } }"

text \<open>\<^verbatim>\<open>inode_do_alloc_block(vnode, &inode->i_block[idx], ..)\<close> and the same with an entry of an index block.\<close>

definition alloc_direct :: "vnode \<Rightarrow> bool \<Rightarrow> nat \<Rightarrow> 'w ext2 \<Rightarrow> (int \<times> 'w ext2) option" where
  "alloc_direct v z idx s = do {
     (err, b, s) \<leftarrow> inode_do_alloc_block s v z;
     Some (err, case b of None \<Rightarrow> s
       | Some b \<Rightarrow> s\<lparr>incore := (incore s)(vdata v := put32 (incore s (vdata v)) (40 + 4 * idx) b)\<rparr>) }"

definition alloc_entry :: "vnode \<Rightarrow> bool \<Rightarrow> nat \<Rightarrow> u8 list \<Rightarrow> 'w ext2 \<Rightarrow> (int \<times> u8 list \<times> 'w ext2) option" where
  "alloc_entry v z k ind s = do {
     (err, b, s) \<leftarrow> inode_do_alloc_block s v z;
     Some (err, case b of None \<Rightarrow> ind | Some b \<Rightarrow> put32 ind (4 * k) b, s) }"

text \<open>One block from or to the buffer at \<^verbatim>\<open>ptr\<close>.\<close>

definition rw_block :: "rw \<Rightarrow> 'w ext2 \<Rightarrow> u8 list \<Rightarrow> nat \<Rightarrow> u32 \<Rightarrow> (int \<times> u8 list \<times> 'w ext2) option" where
  "rw_block rw s buf pos b =
     (case rw of
        RW_READ \<Rightarrow> do { (err, bs, s) \<leftarrow> bread s (drop pos buf) (spb s) (EXT2_GET_SECTOR_NUM s b); Some (err, take pos buf @ bs, s) }
      | RW_WRITE \<Rightarrow> do { (err, s) \<leftarrow> bwrite s (drop pos buf) (spb s) (EXT2_GET_SECTOR_NUM s b); Some (err, buf, s) })"

abbreviation iblk :: "'w ext2 \<Rightarrow> vnode \<Rightarrow> nat \<Rightarrow> u32" where
  "iblk s v k \<equiv> i_block (incore s (vdata v)) k"

text \<open>The blocks in front of the start of a write.\<close>

fun fill_direct :: "vnode \<Rightarrow> nat list \<Rightarrow> 'w ext2 \<Rightarrow> (int \<times> 'w ext2) option" where
  "fill_direct v [] s = Some (0, s)"
| "fill_direct v (idx # ixs) s =
     (if iblk s v idx < 2 then do {
        (err, s) \<leftarrow> alloc_direct v True idx s;
        if err \<noteq> 0 then Some (err, s) else fill_direct v ixs s }
      else fill_direct v ixs s)"

fun fill_index :: "vnode \<Rightarrow> nat list \<Rightarrow> u8 list \<Rightarrow> 'w ext2 \<Rightarrow> (int \<times> u8 list \<times> 'w ext2) option" where
  "fill_index v [] ind s = Some (0, ind, s)"
| "fill_index v (k # ks) ind s =
     (if get32 ind (4 * k) < 2 then do {
        (err, ind, s) \<leftarrow> alloc_entry v True k ind s;
        if err \<noteq> 0 then Some (err, ind, s) else fill_index v ks ind s }
      else fill_index v ks ind s)"

text \<open>The direct blocks: a read stops at a hole, a write allocates.\<close>

fun direct_loop :: "rw \<Rightarrow> vnode \<Rightarrow> nat \<Rightarrow> nat \<Rightarrow> nat \<Rightarrow> u8 list \<Rightarrow> 'w ext2 \<Rightarrow>
    ((int + nat \<times> nat \<times> nat) \<times> u8 list \<times> 'w ext2) option" where
  "direct_loop rw v 0 idx pos buf s = Some (Inr (0, idx, pos), buf, s)"
| "direct_loop rw v (Suc n) idx pos buf s =
     (if \<not> idx < 12 \<or> (iblk s v idx < 2 \<and> rw = RW_READ) then Some (Inr (Suc n, idx, pos), buf, s)
      else do {
        (err, s) \<leftarrow> (if iblk s v idx < 2 then alloc_direct v False idx s else Some (0, s));
        if err \<noteq> 0 then Some (Inl err, buf, s)
        else do {
          (err, buf, s) \<leftarrow> rw_block rw s buf pos (iblk s v idx);
          if err \<noteq> int (spb s) then Some (Inl (- errno_code EIO), buf, s)
          else direct_loop rw v n (idx + 1) (pos + blk_size s) buf s } })"

text \<open>The blocks of the first index; \<^verbatim>\<open>bpi\<close> is the number of entries of an index block. The loop variable is signed and may have started below zero; a write that finds a hole
  allocates into entry \<^verbatim>\<open>i\<close>, not into the one it is at.\<close>

fun level1_loop :: "rw \<Rightarrow> vnode \<Rightarrow> nat \<Rightarrow> nat \<Rightarrow> nat \<Rightarrow> int \<Rightarrow> nat \<Rightarrow> u8 list \<Rightarrow> u8 list \<Rightarrow> 'w ext2 \<Rightarrow>
    ((int + nat \<times> int \<times> nat) \<times> u8 list \<times> u8 list \<times> 'w ext2) option" where
  "level1_loop rw v bpi i 0 k pos ind buf s = Some (Inr (0, k, pos), ind, buf, s)"
| "level1_loop rw v bpi i (Suc n) k pos ind buf s =
     (if \<not> k < int bpi then Some (Inr (Suc n, k, pos), ind, buf, s)
      else if k < 0 then None
      else if get32 ind (4 * nat k) < 2 \<and> rw = RW_READ then Some (Inr (Suc n, k, pos), ind, buf, s)
      else do {
        (err, ind, s) \<leftarrow> (if get32 ind (4 * nat k) < 2 then alloc_entry v False i ind s else Some (0, ind, s));
        if err \<noteq> 0 then Some (Inl err, ind, buf, s)
        else do {
          (err, buf, s) \<leftarrow> rw_block rw s buf pos (get32 ind (4 * nat k));
          if err \<noteq> int (spb s) then Some (Inl (- errno_code EIO), ind, buf, s)
          else level1_loop rw v bpi i n (k + 1) (pos + blk_size s) ind buf s } })"

text \<open>\<^verbatim>\<open>(ptr - buf) / vnode->block_size\<close>.\<close>

definition blocks_done :: "vnode \<Rightarrow> nat \<Rightarrow> int option" where
  "blocks_done v pos = (if vblock_size v = 0 then None else Some (int pos div vblock_size v))"

text \<open>Loading the index block that \<^verbatim>\<open>i_block[slot]\<close> names, or allocating one: \<open>Inl\<close> is a return.\<close>

definition load_index :: "rw \<Rightarrow> vnode \<Rightarrow> nat \<Rightarrow> nat \<Rightarrow> u8 list \<Rightarrow> 'w ext2 \<Rightarrow> ((int + u8 list) \<times> 'w ext2) option" where
  "load_index rw v slot pos ind s =
     (if iblk s v slot < 2 then
        (case rw of
           RW_READ \<Rightarrow> map_option (\<lambda>r. (Inl r, s)) (blocks_done v pos)
         | RW_WRITE \<Rightarrow> do {
             (err, s) \<leftarrow> alloc_direct v False slot s;
             Some (if err \<noteq> 0 then Inl err else Inr (replicate (blk_size s) 0), s) })
      else do {
        (err, ind, s) \<leftarrow> bread s ind (spb s) (EXT2_GET_SECTOR_NUM s (iblk s v slot));
        Some (if err < 0 then Inl (- errno_code EIO) else Inr ind, s) })"

text \<open>Writing an index block back; only a negative result is an error.\<close>

definition store_index :: "rw \<Rightarrow> u8 list \<Rightarrow> u32 \<Rightarrow> 'w ext2 \<Rightarrow> (int \<times> 'w ext2) option" where
  "store_index rw ind b s =
     (case rw of RW_READ \<Rightarrow> Some (0, s)
      | RW_WRITE \<Rightarrow> do { (err, s) \<leftarrow> bwrite s ind (spb s) (EXT2_GET_SECTOR_NUM s b); Some (err, s) })"

definition level1 :: "rw \<Rightarrow> vnode \<Rightarrow> nat \<Rightarrow> nat \<Rightarrow> int \<Rightarrow> nat \<Rightarrow> u8 list \<Rightarrow> u8 list \<Rightarrow> 'w ext2 \<Rightarrow>
    ((int + nat \<times> int \<times> nat \<times> u8 list) \<times> u8 list \<times> 'w ext2) option" where
  "level1 rw v bpi n k pos ind buf s =
     (if \<not> (k < int bpi \<or> rw = RW_WRITE) then Some (Inr (n, k, pos, ind), buf, s)
      else do {
        (r, s) \<leftarrow> load_index rw v 12 pos ind s;
        case r of Inl r \<Rightarrow> Some (Inl r, buf, s)
        | Inr ind \<Rightarrow> do {
            let i = (if rw = RW_WRITE then min (nat k) bpi else 0);
            (err, ind, s) \<leftarrow> fill_index v [0..<i] ind s;
            if err \<noteq> 0 then Some (Inl err, buf, s)
            else do {
              (r, ind, buf, s) \<leftarrow> level1_loop rw v bpi i n k pos ind buf s;
              case r of Inl r \<Rightarrow> Some (Inl r, buf, s)
              | Inr (n, k, pos) \<Rightarrow> do {
                  (err, s) \<leftarrow> store_index rw ind (iblk s v 12) s;
                  if err < 0 then Some (Inl (- errno_code EIO), buf, s)
                  else Some (Inr (n, k, pos, ind), buf, s) } } } })"

text \<open>The blocks of one index of the second level.\<close>

fun level2_loop :: "rw \<Rightarrow> vnode \<Rightarrow> nat \<Rightarrow> nat \<Rightarrow> nat \<Rightarrow> nat \<Rightarrow> u8 list \<Rightarrow> u8 list \<Rightarrow> 'w ext2 \<Rightarrow>
    ((int + nat \<times> nat \<times> nat) \<times> u8 list \<times> u8 list \<times> 'w ext2) option" where
  "level2_loop rw v bpi 0 i pos ind2 buf s = Some (Inr (0, i, pos), ind2, buf, s)"
| "level2_loop rw v bpi (Suc n) i pos ind2 buf s =
     (if \<not> i < bpi then Some (Inr (Suc n, i, pos), ind2, buf, s)
      else if get32 ind2 (4 * i) < 2 \<and> rw = RW_READ then map_option (\<lambda>r. (Inl r, ind2, buf, s)) (blocks_done v pos)
      else do {
        (err, ind2, s) \<leftarrow> (if get32 ind2 (4 * i) < 2 then alloc_entry v False i ind2 s else Some (0, ind2, s));
        if err \<noteq> 0 then Some (Inl err, ind2, buf, s)
        else do {
          (err, buf, s) \<leftarrow> rw_block rw s buf pos (get32 ind2 (4 * i));
          if err < 0 then Some (Inl (- errno_code EIO), ind2, buf, s)
          else level2_loop rw v bpi n (i + 1) (pos + blk_size s) ind2 buf s } })"

lemma level2_loop_progress:
  "level2_loop rw v bpi n i pos ind2 buf s = Some (Inr (n', i', pos'), r) \<Longrightarrow> i \<le> i' \<and> (0 < n \<and> i < bpi \<longrightarrow> i < i')"
proof (induction rw v bpi n i pos ind2 buf s rule: level2_loop.induct)
  case (2 rw v bpi n i pos ind2 buf s)
  show ?case
  proof (cases "i < bpi")
    case True
    have "\<not> (get32 ind2 (4 * i) < 2 \<and> rw = RW_READ)"
      using "2.prems" True by (auto simp: blocks_done_def split: if_splits)
    with "2.prems" True obtain ind3 s1 buf1 s2 where
      "level2_loop rw v bpi n (i + 1) (pos + blk_size s2) ind3 buf1 s2 = Some (Inr (n', i', pos'), r)"
      "(if get32 ind2 (4 * i) < 2 then alloc_entry v False i ind2 s else Some (0, ind2, s)) = Some (0, ind3, s1)"
      "\<exists>err. rw_block rw s1 buf pos (get32 ind3 (4 * i)) = Some (err, buf1, s2) \<and> \<not> err < 0"
      by (auto simp: Option.bind_eq_Some_conv split: if_splits)
    then have "i + 1 \<le> i'" using "2.IH" True \<open>\<not> (get32 ind2 (4 * i) < 2 \<and> rw = RW_READ)\<close> by blast
    then show ?thesis by simp
  qed (use "2.prems" in simp)
qed simp

lemma level2_advance:
  assumes "idx < bpi * bpi" and "0 < n" and "i = idx mod bpi" and "m = min (bpi - i) (k - idx)"
    and "level2_loop rw v bpi n (i + m) pos ind2 buf s = Some (Inr (n', i', pos'), r)"
  shows "bpi * bpi - (idx + m + (i' - (i + m))) < bpi * bpi - idx"
proof -
  have "i < bpi" using assms(1,3) by (cases "bpi = 0") simp_all
  then have "0 < m + (i' - (i + m))" using level2_loop_progress[OF assms(5)] assms(2) by (cases "m = 0") auto
  then show ?thesis using assms(1) by linarith
qed

text \<open>The loop over the second-level indices, from \<^verbatim>\<open>idx\<close>; \<^verbatim>\<open>k\<close> is where the transfer starts, a write fills the entries in front of
  it.\<close>

function level2_outer :: "rw \<Rightarrow> vnode \<Rightarrow> nat \<Rightarrow> nat \<Rightarrow> nat \<Rightarrow> nat \<Rightarrow> nat \<Rightarrow> u8 list \<Rightarrow> u8 list \<Rightarrow> u8 list \<Rightarrow> 'w ext2 \<Rightarrow>
    ((int + nat \<times> nat) \<times> u8 list \<times> u8 list \<times> 'w ext2) option" where
  "level2_outer rw v bpi k idx n pos ind ind2 buf s =
     (if \<not> (idx < bpi * bpi \<and> 0 < n) then Some (Inr (n, pos), ind, buf, s)
      else do {
        let tmp = idx div bpi;
        (r, ind, s) \<leftarrow>
          (if get32 ind (4 * tmp) < 2 then
             (case rw of
                RW_READ \<Rightarrow> map_option (\<lambda>r. (Inl r, ind, s)) (blocks_done v pos)
              | RW_WRITE \<Rightarrow> do {
                  (err, ind, s) \<leftarrow> alloc_entry v False tmp ind s;
                  Some (if err \<noteq> 0 then Inl err else Inr (replicate (blk_size s) 0), ind, s) })
           else do {
             (err, ind2, s) \<leftarrow> bread s ind2 (spb s) (EXT2_GET_SECTOR_NUM s (get32 ind (4 * tmp)));
             Some (if err \<noteq> int (spb s) then Inl (- errno_code EIO) else Inr ind2, ind, s) });
        case r of Inl r \<Rightarrow> Some (Inl r, ind, buf, s)
        | Inr ind2 \<Rightarrow> do {
            let i = idx mod bpi;
            let m = min (bpi - i) (k - idx);
            (err, ind2, s) \<leftarrow> fill_index v [i..<i + m] ind2 s;
            if err \<noteq> 0 then Some (Inl err, ind, buf, s)
            else do {
              (r, ind2, buf, s) \<leftarrow> level2_loop rw v bpi n (i + m) pos ind2 buf s;
              case r of Inl r \<Rightarrow> Some (Inl r, ind, buf, s)
              | Inr (n', i', pos') \<Rightarrow> do {
                  (err, s) \<leftarrow> (case rw of RW_READ \<Rightarrow> Some (int (spb s), s)
                     | RW_WRITE \<Rightarrow> bwrite s ind2 (spb s) (EXT2_GET_SECTOR_NUM s (get32 ind (4 * tmp))));
                  if err \<noteq> int (spb s) then Some (Inl (- errno_code EIO), ind, buf, s)
                  else level2_outer rw v bpi k (idx + m + (i' - (i + m))) n' pos' ind ind2 buf s } } } })"
  by pat_completeness auto
termination
proof (relation "measure (\<lambda>(rw, v, bpi, k, idx, n, pos, ind, ind2, buf, s). bpi * bpi - idx)", goal_cases)
  case (2 rw v bpi k idx n pos ind ind2 buf s tmp a r y ind' s' ind2' i m aa err yb ind3 yc ab r' yd ind4 ye buf' yf ba n' yg i' pos')
  from 2(13-19) have "level2_loop rw v bpi n (i + m) pos ind3 buf yc = Some (Inr (n', i', pos'), yd)" by simp
  from level2_advance[OF _ _ 2(7,8) this] 2(1) show ?case by simp
qed simp

declare level2_outer.simps [simp del]

definition level2 :: "rw \<Rightarrow> vnode \<Rightarrow> nat \<Rightarrow> nat \<Rightarrow> nat \<Rightarrow> nat \<Rightarrow> u8 list \<Rightarrow> u8 list \<Rightarrow> 'w ext2 \<Rightarrow> (int \<times> u8 list \<times> 'w ext2) option" where
  "level2 rw v bpi n k pos ind buf s = do {
     let ind2 = kalloc s (blk_size s);
     (r, s) \<leftarrow> load_index rw v 13 pos ind s;
     case r of Inl r \<Rightarrow> Some (r, buf, s)
     | Inr ind \<Rightarrow> do {
         (r, ind, buf, s) \<leftarrow> level2_outer rw v bpi k (case rw of RW_READ \<Rightarrow> k | RW_WRITE \<Rightarrow> 0) n pos ind ind2 buf s;
         case r of Inl r \<Rightarrow> Some (r, buf, s)
         | Inr (n, pos) \<Rightarrow> do {
             (err, s) \<leftarrow> store_index rw ind (iblk s v 13) s;
             if err < 0 then Some (- errno_code EIO, buf, s)
             else if 0 < n then None
             else do { c \<leftarrow> blocks_done v pos; Some (c, buf, s) } } } }"

text \<open>The whole transfer of \<open>n\<close> blocks from block \<open>start\<close> of the file on. A start of 2^31 or more becomes a negative index. A file
  that needs triple indirection ends in an endless loop.\<close>

definition inode_rw_content :: "'w ext2 \<Rightarrow> vnode \<Rightarrow> u8 list \<Rightarrow> nat \<Rightarrow> nat \<Rightarrow> rw \<Rightarrow> (int \<times> u8 list \<times> 'w ext2) option" where
  "inode_rw_content s v buf n start rw = do {
     (err, s) \<leftarrow> (case rw of RW_WRITE \<Rightarrow> fill_direct v [0..<min start 12] s | RW_READ \<Rightarrow> Some (0, s));
     if err \<noteq> 0 then Some (err, buf, s)
     else if 0 < n \<and> 2 ^ 31 \<le> start then None
     else do {
       (r, buf, s) \<leftarrow> direct_loop rw v n start 0 buf s;
       case r of Inl r \<Rightarrow> Some (r, buf, s)
       | Inr (n, idx, pos) \<Rightarrow>
           let bpi = blk_size s div 4 in
           if n = 0 then do { c \<leftarrow> blocks_done v pos; Some (c, buf, s) }
           else do {
             (r, buf, s) \<leftarrow> level1 rw v bpi n (int idx - 12) pos (kalloc s (blk_size s)) buf s;
             case r of Inl r \<Rightarrow> Some (r, buf, s)
             | Inr (n, k, pos, ind) \<Rightarrow>
                 let k = k - int bpi in
                 if 0 \<le> k \<and> k < int (bpi * bpi) then level2 rw v bpi n (nat k) pos ind buf s
                 else do { c \<leftarrow> blocks_done v pos; Some (c, buf, s) } } } }"

section \<open>Directories\<close>

text \<open>An entry at \<open>p\<close> of the buffer: i-node number, record length, length of the name, type, and the name. A name given by
  the caller ends with a zero byte.\<close>

definition d_inode :: "u8 list \<Rightarrow> nat \<Rightarrow> u32" where "d_inode b p = get32 b p"
definition d_rec_len :: "u8 list \<Rightarrow> nat \<Rightarrow> nat" where "d_rec_len b p = unat (get16 b (p + 4))"
definition d_name_len :: "u8 list \<Rightarrow> nat \<Rightarrow> nat" where "d_name_len b p = unat (b ! (p + 6))"

definition name_bytes :: "string \<Rightarrow> u8 list" where
  "name_bytes name = map of_char name"

text \<open>\<^verbatim>\<open>!strncmp(name, entry->name, n)\<close> on the bytes from both pointers on; the count is a machine word.\<close>

fun strneq :: "u8 list \<Rightarrow> u8 list \<Rightarrow> u32 \<Rightarrow> bool option" where
  "strneq (a # as) (b # bs) n =
     (if a \<noteq> b then Some False
      else if n - 1 = 0 then Some True
      else case as of [] \<Rightarrow> None | a' # _ \<Rightarrow> if a' = 0 then Some True else strneq as bs (n - 1))"
| "strneq _ _ n = None"

definition entry_is :: "u8 list \<Rightarrow> nat \<Rightarrow> string \<Rightarrow> bool option" where
  "entry_is b p name =
     (if length b \<le> p + 6 then None
      else if length name \<noteq> d_name_len b p then Some False
      else strneq (name_bytes name @ [0]) (drop (p + 8) b) (of_nat (d_name_len b p)))"

text \<open>\<^verbatim>\<open>EXT2_INODE_BLOCKS\<close>; the product is a signed 32-bit number.\<close>

definition EXT2_INODE_BLOCKS :: "'w ext2 \<Rightarrow> int \<Rightarrow> nat option" where
  "EXT2_INODE_BLOCKS s b = (if blk_size s = 0 \<or> b < 0 \<or> 2 ^ 31 \<le> b * 512 then None else Some (nat (b * 512) div blk_size s))"

text \<open>The search loop of \<^verbatim>\<open>inode_unlink\<close>: the position of the entry and of the one before it.\<close>

function unlink_loop :: "u8 list \<Rightarrow> int \<Rightarrow> string \<Rightarrow> nat option \<Rightarrow> nat \<Rightarrow> (nat option \<times> nat) option option" where
  "unlink_loop b sz name prev p =
     (if \<not> int p < sz then Some None
      else if length b < p + 6 then None
      else if d_rec_len b p = 0 then Some None
      else do {
        eq \<leftarrow> entry_is b p name;
        if eq then Some (Some (prev, p)) else unlink_loop b sz name (Some p) (p + d_rec_len b p) })"
  by pat_completeness auto
termination
  by (relation "measure (\<lambda>(b, sz, name, prev, p). nat (sz - int p))") auto

declare unlink_loop.simps [simp del]

definition inode_unlink :: "'w ext2 \<Rightarrow> vnode \<Rightarrow> string \<Rightarrow> (int \<times> 'w ext2) option" where
  "inode_unlink s v name = do {
     n \<leftarrow> EXT2_INODE_BLOCKS s (vblocks v);
     (err, buf, s) \<leftarrow> inode_rw_content s v (kalloc s (nat (vblock_size v) * n)) n 0 RW_READ;
     if err < 0 then Some (err, s)
     else do {
       r \<leftarrow> unlink_loop buf (vsize v) name None 0;
       case r of None \<Rightarrow> Some (- errno_code ENOENT, s)
       | Some (prev, p) \<Rightarrow> do {
           let buf = (case prev of Some q \<Rightarrow> put16 buf (q + 4) (get16 buf (q + 4) + get16 buf (p + 4)) | None \<Rightarrow> put32 buf p 0);
           (err, _, s) \<leftarrow> inode_rw_content s v buf n 0 RW_WRITE;
           Some (if err > 0 then 0 else err, s) } } }"

text \<open>
  The loop of \<^verbatim>\<open>inode_link\<close> that looks for room: the buffer with the new entry, or \<open>Some None\<close> when there is no room. An entry
  of record length 0 keeps the loop where it is, for ever. \<^verbatim>\<open>strcpy\<close> writes the terminating zero byte too.
\<close>

definition ent_size :: "nat \<Rightarrow> nat" where "ent_size len = ROUND_UP (8 + len) 4"

definition put_entry :: "u8 list \<Rightarrow> nat \<Rightarrow> u32 \<Rightarrow> string \<Rightarrow> u8 \<Rightarrow> u8 list option" where
  "put_entry b p num name type =
     (if length b < p + 8 + length name + 1 then None
      else Some (overwrite ((put32 b p num)[p + 6 := of_nat (length name), p + 7 := type]) (p + 8) (name_bytes name @ [0])))"

function link_loop :: "u8 list \<Rightarrow> int \<Rightarrow> u32 \<Rightarrow> string \<Rightarrow> u8 \<Rightarrow> nat \<Rightarrow> u8 list option option" where
  "link_loop b sz num name type p =
     (if \<not> int p < sz then Some None
      else if length b < p + 6 then None
      else if d_rec_len b p = 0 then None
      else if d_rec_len b p < ent_size (length name) then link_loop b sz num name type (p + d_rec_len b p)
      else if d_inode b p \<noteq> 0 then
        if length b < p + 7 then None
        else let tmp = ent_size (d_name_len b p) in
        if d_rec_len b p < tmp + ent_size (length name) then link_loop b sz num name type (p + d_rec_len b p)
        else map_option Some (put_entry (put16 (put16 b (p + 4) (of_nat tmp)) (p + tmp + 4) (of_nat (d_rec_len b p - tmp)))
               (p + tmp) num name type)
      else map_option Some (put_entry b p num name type))"
  by pat_completeness auto
termination
  by (relation "measure (\<lambda>(b, sz, num, name, type, p). nat (sz - int p))") auto

declare link_loop.simps [simp del]

definition inode_link :: "'w ext2 \<Rightarrow> vnode \<Rightarrow> string \<Rightarrow> u32 \<Rightarrow> u8 list \<Rightarrow> u8 \<Rightarrow> (int \<times> 'w ext2) option" where
  "inode_link s v name num inode type =
     (if vblock_size v = 0 then None
      else if length name > 255 then Some (- errno_code ENOTSUP, s)
      else do {
        let n = nat (ROUND_UP (vsize v) (vblock_size v) div vblock_size v);
        (err, buf, s) \<leftarrow> inode_rw_content s v (kalloc s (n * blk_size s)) n 0 RW_READ;
        if err < 0 then Some (err, s)
        else do {
          r \<leftarrow> link_loop buf (vsize v) num name type 0;
          case r of None \<Rightarrow> Some (- errno_code ENOSYS, s)
          | Some buf \<Rightarrow> do {
              (err, _, s) \<leftarrow> inode_rw_content s v buf n 0 RW_WRITE;
              if err < 0 then Some (err, s)
              else do {
                (err, s) \<leftarrow> inode_do_write s (put16 inode 26 (i_links_count inode + 1)) num;
                if err < 0 then do { (_, s) \<leftarrow> inode_unlink s v name; Some (err, s) }
                else Some (err, s) } } } })"

end
