(* ===== verification/Ext2Fs.thy ===== *)
theory Ext2Fs
  imports Ext2Inode
begin

text \<open>
  The ext2 file system, third part: the operations the virtual file system calls (\<^verbatim>\<open>modules/fs/ext2/ext2.c\<close>) and
  mounting. Positions are not negative; the code would index in front of its arrays with a negative one.
\<close>

section \<open>Opening and closing\<close>

definition MS_RDONLY :: u32 where "MS_RDONLY = 1"

text \<open>\<^verbatim>\<open>vnode->data\<close> is a fresh block; 0 is \<^verbatim>\<open>NULL\<close>.\<close>

definition ext2_open :: "'w ext2 \<Rightarrow> vnode \<Rightarrow> (int \<times> vnode \<times> 'w ext2) option" where
  "ext2_open s v = do {
     let p = next_incore s + 1;
     let s = s\<lparr>incore := (incore s)(p := kalloc s INODE_SIZE), next_incore := p\<rparr>;
     (err, v, s) \<leftarrow> inode_read s (v\<lparr>vdata := p\<rparr>);
     Some (err, v\<lparr>vdev := mp_device s, vdata := (if err \<noteq> 0 then 0 else p)\<rparr>, s) }"

definition ext2_close :: "'w ext2 \<Rightarrow> vnode \<Rightarrow> (int \<times> 'w ext2) option" where
  "ext2_close s v =
     (if mp_flags s AND MS_RDONLY = MS_RDONLY then Some (0, s)
      else do { (_, s) \<leftarrow> inode_write s v; Some (0, s) })"

definition ext2_flush :: "'w ext2 \<Rightarrow> vnode \<Rightarrow> (int \<times> 'w ext2) option" where
  "ext2_flush s v = inode_write s v"

section \<open>Directories\<close>

function lookup_loop :: "u8 list \<Rightarrow> int \<Rightarrow> string \<Rightarrow> nat \<Rightarrow> u32 option" where
  "lookup_loop b sz name p =
     (if \<not> int p < sz then Some 0
      else if length b < p + 6 then None
      else if d_rec_len b p = 0 then Some 0
      else do {
        eq \<leftarrow> entry_is b p name;
        if eq then Some (d_inode b p) else lookup_loop b sz name (p + d_rec_len b p) })"
  by pat_completeness auto
termination
  by (relation "measure (\<lambda>(b, sz, name, p). nat (sz - int p))") auto

declare lookup_loop.simps [simp del]

definition ext2_lookup :: "'w ext2 \<Rightarrow> vnode \<Rightarrow> string \<Rightarrow> (u32 \<times> 'w ext2) option" where
  "ext2_lookup s v name = do {
     n \<leftarrow> EXT2_INODE_BLOCKS s (vblocks v);
     (err, buf, s) \<leftarrow> inode_rw_content s v (kalloc s (nat (vblock_size v) * n)) n 0 RW_READ;
     if err < 0 then Some (0, s)
     else do { r \<leftarrow> lookup_loop buf (vsize v) name 0; Some (r, s) } }"

text \<open>The records \<^verbatim>\<open>ext2_getdents\<close> puts into the caller's buffer, in order.\<close>

record ext2_dirent =
  de_ino :: u32
  de_off :: int
  de_reclen :: nat
  de_name :: "u8 list"

function getdents_loop :: "u8 list \<Rightarrow> int \<Rightarrow> nat \<Rightarrow> nat \<Rightarrow> nat \<Rightarrow> (nat \<times> ext2_dirent list \<times> nat) option" where
  "getdents_loop b sz len err p =
     (if \<not> int p < sz then Some (err, [], p)
      else if length b < p + 6 then None
      else if d_rec_len b p = 0 then Some (err, [], p)
      else if length b < p + 7 then None
      else let reclen = ROUND_UP (10 + d_name_len b p + 1) 4; p' = p + d_rec_len b p in
        if err + reclen \<ge> len then Some (err, [], p)
        else if length b < p + 8 + d_name_len b p then None
        else map_option (\<lambda>(err, ds, q). (err, \<lparr>de_ino = d_inode b p, de_off = int p', de_reclen = reclen,
               de_name = take (d_name_len b p) (drop (p + 8) b)\<rparr> # ds, q))
             (getdents_loop b sz len (err + reclen) p'))"
  by pat_completeness auto
termination
  by (relation "measure (\<lambda>(b, sz, len, err, p). nat (sz - int p))") (auto simp: Let_def)

declare getdents_loop.simps [simp del]

definition ext2_getdents :: "'w ext2 \<Rightarrow> vnode \<Rightarrow> nat \<Rightarrow> nat \<Rightarrow> (int \<times> ext2_dirent list \<times> nat \<times> 'w ext2) option" where
  "ext2_getdents s v len offset =
     (if vblock_size v = 0 then None
      else do {
        let n = nat (ROUND_UP (vsize v) (vblock_size v) div vblock_size v);
        (err, buf, s) \<leftarrow> inode_rw_content s v (kalloc s (n * blk_size s)) n 0 RW_READ;
        if err < 0 then Some (err, [], offset, s)
        else do { (c, ds, p) \<leftarrow> getdents_loop buf (vsize v) len 0 offset; Some (int c, ds, p, s) } })"

definition ext2_creat :: "'w ext2 \<Rightarrow> vnode \<Rightarrow> string \<Rightarrow> mode_t \<Rightarrow> int \<Rightarrow> int \<Rightarrow> (int \<times> 'w ext2) option" where
  "ext2_creat s v name m u g = do {
     grp \<leftarrow> EXT2_GET_INODE_GROUP s (of_nat (ino v));
     (err, num, s) \<leftarrow> inode_alloc s grp;
     (err, num, s) \<leftarrow> (if err = - errno_code ENOSPC then inode_alloc s (- 1) else Some (err, num, s));
     if err \<noteq> 0 then Some (err, s)
     else do {
       let i = put16 (put16 (put16 (put16 (replicate INODE_SIZE 0) 0 (S_IFREG OR (m AND 0x1FF))) 2 (of_int u)) 24 (of_int g)) 26 0;
       (err, s) \<leftarrow> inode_link s v name (the num) i 1;
       if err \<noteq> 0 then do { (_, s) \<leftarrow> inode_free s (the num); Some (err, s) } else Some (err, s) } }"

definition ext2_unlink :: "'w ext2 \<Rightarrow> vnode \<Rightarrow> string \<Rightarrow> int \<times> 'w ext2" where
  "ext2_unlink s v name = (- errno_code ENOSYS, s)"

section \<open>Reading and writing\<close>

text \<open>
  The parts of a transfer: up to the end of the first block when it starts inside one, whole blocks, and the rest. \<open>p\<close>
  is how many bytes of the caller's buffer are done, \<open>start\<close> the next block of the file. The temporary buffer is shared by
  the first and the last part.
\<close>

definition read_head :: "'w ext2 \<Rightarrow> vnode \<Rightarrow> u8 list \<Rightarrow> nat \<Rightarrow> nat \<Rightarrow> (int \<times> u8 list \<times> u8 list \<times> nat \<times> nat \<times> 'w ext2) option" where
  "read_head s v ubuf len offset =
     (let bs = nat (vblock_size v); start = offset div bs in
      if offset mod bs = 0 then Some (0, kalloc s bs, ubuf, 0, start, s)
      else do {
        (err, tmpbuf, s) \<leftarrow> inode_rw_content s v (kalloc s bs) 1 start RW_READ;
        if err < 0 then Some (err, tmpbuf, ubuf, 0, start, s)
        else let bytes = min (bs - offset mod bs) len
          in Some (0, tmpbuf, overwrite ubuf 0 (take bytes (drop (offset mod bs) tmpbuf)), bytes, start + 1, s) })"

definition read_whole :: "'w ext2 \<Rightarrow> vnode \<Rightarrow> u8 list \<Rightarrow> nat \<Rightarrow> nat \<Rightarrow> nat \<Rightarrow> (int \<times> u8 list \<times> nat \<times> nat \<times> 'w ext2) option" where
  "read_whole s v ubuf len p start =
     (let bs = nat (vblock_size v); n = (len - p) div bs in
      if n = 0 then Some (0, ubuf, p, start, s)
      else do {
        (err, b, s) \<leftarrow> inode_rw_content s v (drop p ubuf) n start RW_READ;
        let ubuf = take p ubuf @ b;
        if err < 0 then Some (err, ubuf, p, start, s) else Some (0, ubuf, p + n * bs, start + n, s) })"

text \<open>\<^verbatim>\<open>ext2_read\<close>: the result, the caller's buffer afterwards, and the state.\<close>

definition ext2_read :: "'w ext2 \<Rightarrow> vnode \<Rightarrow> u8 list \<Rightarrow> nat \<Rightarrow> nat \<Rightarrow> (int \<times> u8 list \<times> 'w ext2) option" where
  "ext2_read s v ubuf len offset =
     (if vblock_size v \<le> 0 then None
      else if int (offset + len) \<ge> vsize v \<and> vsize v < int offset then Some (0, ubuf, s)
      else do {
        let len = (if int (offset + len) \<ge> vsize v then nat (vsize v) - offset else len);
        if length ubuf < len then None
        else do {
          (err, tmpbuf, ubuf, p, start, s) \<leftarrow> read_head s v ubuf len offset;
          if err < 0 then Some (err, ubuf, s)
          else do {
            (err, ubuf, p, start, s) \<leftarrow> read_whole s v ubuf len p start;
            if err < 0 then Some (err, ubuf, s)
            else if len - p = 0 then Some (int len, ubuf, s)
            else do {
              (err, tmpbuf, s) \<leftarrow> inode_rw_content s v tmpbuf 1 start RW_READ;
              if err < 0 then Some (err, ubuf, s)
              else Some (int len, overwrite ubuf p (take (len - p) tmpbuf), s) } } } })"

text \<open>A block that is only partly written is read first, or taken to be zero when nothing could be read.\<close>

definition patch_block :: "'w ext2 \<Rightarrow> vnode \<Rightarrow> u8 list \<Rightarrow> nat \<Rightarrow> nat \<Rightarrow> u8 list \<Rightarrow> (int \<times> u8 list \<times> 'w ext2) option" where
  "patch_block s v tmpbuf start at bytes = do {
     (err, tmpbuf, s) \<leftarrow> inode_rw_content s v tmpbuf 1 start RW_READ;
     let tmpbuf = (if err \<le> 0 then replicate (nat (vblock_size v)) 0 else tmpbuf);
     inode_rw_content s v (overwrite tmpbuf at bytes) 1 start RW_WRITE }"

definition write_head :: "'w ext2 \<Rightarrow> vnode \<Rightarrow> u8 list \<Rightarrow> nat \<Rightarrow> (int \<times> u8 list \<times> nat \<times> nat \<times> 'w ext2) option" where
  "write_head s v ubuf offset =
     (let bs = nat (vblock_size v); start = offset div bs in
      if offset mod bs = 0 then Some (0, kalloc s bs, 0, start, s)
      else do {
        let bytes = min (bs - offset mod bs) (length ubuf);
        (err, tmpbuf, s) \<leftarrow> patch_block s v (kalloc s bs) start (offset mod bs) (take bytes ubuf);
        if err < 0 then Some (err, tmpbuf, 0, start, s) else Some (0, tmpbuf, bytes, start + 1, s) })"

text \<open>After the whole blocks the start advances by the number of whole blocks that are still left, which is none.\<close>

definition write_whole :: "'w ext2 \<Rightarrow> vnode \<Rightarrow> u8 list \<Rightarrow> nat \<Rightarrow> nat \<Rightarrow> (int \<times> nat \<times> nat \<times> 'w ext2) option" where
  "write_whole s v ubuf p start =
     (let bs = nat (vblock_size v); n = (length ubuf - p) div bs in
      if n = 0 then Some (0, p, start, s)
      else do {
        (err, _, s) \<leftarrow> inode_rw_content s v (drop p ubuf) n start RW_WRITE;
        if err < 0 then Some (err, p, start, s)
        else let p = p + n * bs in Some (0, p, start + (length ubuf - p) div bs, s) })"

text \<open>\<^verbatim>\<open>ext2_write\<close>: the result, the v-node and the state.\<close>

definition ext2_write :: "'w ext2 \<Rightarrow> vnode \<Rightarrow> u8 list \<Rightarrow> nat \<Rightarrow> (int \<times> vnode \<times> 'w ext2) option" where
  "ext2_write s v ubuf offset =
     (if vblock_size v \<le> 0 then None
      else do {
        let bs = nat (vblock_size v);
        let len = length ubuf;
        (err, tmpbuf, p, start, s) \<leftarrow> write_head s v ubuf offset;
        if err < 0 then Some (err, v, s)
        else do {
          (err, p, start, s) \<leftarrow> write_whole s v ubuf p start;
          if err < 0 then Some (err, v, s)
          else do {
            (err, left, s) \<leftarrow>
              (if len - p = 0 \<or> (offset + len) mod bs = 0 then Some (0, len - p, s)
               else do {
                 (err, _, s) \<leftarrow> patch_block s v tmpbuf start 0 (drop p ubuf);
                 Some (if err < 0 then err else 0, 0, s) });
            if err < 0 then Some (err, v, s)
            else do {
              let r = int (len - left);
              let v = v\<lparr>vsize := max (vsize v) (int offset + r)\<rparr>;
              (_, s) \<leftarrow> inode_write s v;
              Some (r, v, s) } } } })"

section \<open>Mounting\<close>

text \<open>Mounting device \<open>dev\<close>: the result and the state. After an error the structure is freed, and only the device, its table and
  the flags of the mount point remain of the state. \<^verbatim>\<open>None\<close> includes the panic a file system with errors may ask for, a
  shift of the block size beyond its width, and division by a size of zero.\<close>

definition EXT2_BLOCK_SIZE :: "u8 list \<Rightarrow> nat option" where
  "EXT2_BLOCK_SIZE b =
     (if unat (s_log_block_size b) < 21 then Some (1024 * 2 ^ unat (s_log_block_size b) mod 2 ^ 16) else None)"

definition ext2_mount :: "dev_t \<Rightarrow> u32 \<Rightarrow> 'w bdev_table \<Rightarrow> 'w \<Rightarrow> (nat \<Rightarrow> u8) \<Rightarrow> (int \<times> 'w ext2) option" where
  "ext2_mount dev flags tab w junk = do {
     (err, tab, w) \<leftarrow> bdev_open dev tab w;
     let s = \<lparr>sb = replicate SB_SIZE 0, spb = 0, bps = 512, blk_size = 0, groups_count = 0, groups_blocks = 0, groups = [],
       mp_device = dev, mp_flags = flags, bdev_tab = tab, disk = w, kheap = junk, zero_page = None,
       incore = (\<lambda>_. []), next_incore = 0\<rparr>;
     if err \<noteq> 0 then Some (err, s)
     else do {
       (err, s) \<leftarrow> super_read s;
       if err \<noteq> 0 then Some (err, s)
       else do {
         bs \<leftarrow> EXT2_BLOCK_SIZE (sb s);
         let s = s\<lparr>blk_size := bs, spb := bs div bps s\<rparr>;
         if s_inode_size (sb s) \<noteq> 128 then Some (- errno_code EINVAL, s)
         else if s_state (sb s) \<noteq> EXT2_VALID_FS \<and> s_errors (sb s) = EXT2_ERRORS_PANIC then None
         else if s_blocks_per_group (sb s) = 0 \<or> bs = 0 then None
         else do {
           let s = (if s_state (sb s) \<noteq> EXT2_VALID_FS \<and> s_errors (sb s) = EXT2_ERRORS_RO
                    then s\<lparr>mp_flags := mp_flags s OR MS_RDONLY\<rparr> else s);
           let gc = ROUND_UP (s_blocks_count (sb s)) (s_blocks_per_group (sb s)) div s_blocks_per_group (sb s);
           let gb = ROUND_UP (gc * of_nat GD_SIZE) (of_nat bs) div of_nat bs;
           let s = s\<lparr>groups_count := sint gc, groups_blocks := sint gb, groups := kalloc s (unat gb * bs)\<rparr>;
           (err, s) \<leftarrow> super_read_groups s;
           if err \<noteq> 0 then Some (err, s)
           else if mp_flags s AND MS_RDONLY = MS_RDONLY then Some (0, s)
           else do {
             let s = s\<lparr>sb := put16 (put16 (sb s) 58 EXT2_ERROR_FS) 52 (s_mnt_count (sb s) + 1)\<rparr>;
             super_write s } } } } }"

definition ext2_umount :: "'w ext2 \<Rightarrow> int" where
  "ext2_umount s = - errno_code ENOSYS"

definition ext2_root :: "'w ext2 \<Rightarrow> nat" where
  "ext2_root s = EXT2_ROOT_INO"

end
