(* ===== verification/Ext2Props.thy ===== *)
theory Ext2Props
  imports Ext2Fs
begin

text \<open>
  Properties of the ext2 file system: the i-node table as a store of records, the contents of files through direct and
  indirect blocks, and directories. Files and directories are described on the blocks of the device (\<open>blocks view s\<close>).
\<close>

section \<open>The i-node table\<close>

text \<open>A store of records: reading returns the record of a key, writing replaces that record and no other.\<close>

locale record_store =
  fixes inv :: "'s \<Rightarrow> bool" and valid :: "'s \<Rightarrow> 'k \<Rightarrow> bool" and fits :: "'v \<Rightarrow> bool" and slot :: "'s \<Rightarrow> 'k \<Rightarrow> 'v"
    and rd :: "'s \<Rightarrow> 'k \<Rightarrow> ('v \<times> 's) option" and wr :: "'s \<Rightarrow> 'k \<Rightarrow> 'v \<Rightarrow> 's option"
  assumes rd_law: "inv s \<Longrightarrow> valid s k \<Longrightarrow> \<exists>s'. rd s k = Some (slot s k, s') \<and> inv s' \<and> valid s' = valid s \<and> slot s' = slot s"
    and wr_law: "inv s \<Longrightarrow> valid s k \<Longrightarrow> fits x \<Longrightarrow>
      \<exists>s'. wr s k x = Some s' \<and> inv s' \<and> valid s' = valid s \<and> (\<forall>k'. valid s k' \<longrightarrow> slot s' k' = (if k' = k then x else slot s k'))"
begin

lemma writes_read:
  assumes "inv s" and "\<forall>(k, x) \<in> set kxs. valid s k \<and> fits x" and "valid s k"
  shows "\<exists>s' s''. fold (\<lambda>(k, x) r. Option.bind r (\<lambda>s. wr s k x)) kxs (Some s) = Some s' \<and> inv s' \<and> valid s' = valid s \<and>
    rd s' k = Some (case map_of (rev kxs) k of Some x \<Rightarrow> x | None \<Rightarrow> slot s k, s'')"
  using assms
proof (induction kxs arbitrary: s)
  case Nil
  then show ?case using rd_law[of s k] by auto
next
  case (Cons kx kxs)
  obtain k0 x0 where kx: "kx = (k0, x0)" by (cases kx)
  obtain s1 where s1: "wr s k0 x0 = Some s1" "inv s1" "valid s1 = valid s" "\<forall>k'. valid s k' \<longrightarrow> slot s1 k' = (if k' = k0 then x0 else slot s k')"
    using wr_law[of s k0 x0] Cons.prems kx by auto
  have "\<exists>s' s''. fold (\<lambda>(k, x) r. Option.bind r (\<lambda>s. wr s k x)) kxs (Some s1) = Some s' \<and> inv s' \<and> valid s' = valid s1 \<and>
    rd s' k = Some (case map_of (rev kxs) k of Some x \<Rightarrow> x | None \<Rightarrow> slot s1 k, s'')"
    using Cons.prems s1 by (intro Cons.IH) auto
  then show ?case using s1 Cons.prems(3) by (auto simp: kx map_add_def split: option.splits)
qed

end

text \<open>Where the i-nodes lie: tables inside the device and apart from each other, as many groups as the i-nodes need.\<close>

definition table_of :: "'w ext2 \<Rightarrow> nat \<Rightarrow> nat" where
  "table_of s g = unat (get32 (groups s) (g * GD_SIZE + bg_inode_table))"

definition table_blocks :: "'w ext2 \<Rightarrow> nat" where
  "table_blocks s = (unat (s_inodes_per_group (sb s)) * INODE_SIZE - 1) div blk_size s + 1"

definition inodes_ok :: "nat \<Rightarrow> 'w ext2 \<Rightarrow> bool" where
  "inodes_ok nb s \<longleftrightarrow>
     0 < s_inodes_per_group (sb s) \<and> unat (s_inodes_per_group (sb s)) * INODE_SIZE < 2 ^ 32 \<and> blk_size s < 2 ^ 16 \<and>
     groups_count s < 2 ^ 31 \<and> unat (s_inodes_count (sb s)) \<le> nat (groups_count s) * unat (s_inodes_per_group (sb s)) \<and>
     (\<forall>g < nat (groups_count s). table_of s g + table_blocks s \<le> nb) \<and>
     (\<forall>g < nat (groups_count s). \<forall>h < nat (groups_count s). g < h \<longrightarrow>
        table_of s g + table_blocks s \<le> table_of s h \<or> table_of s h + table_blocks s \<le> table_of s g)"

definition inode_blk :: "'w ext2 \<Rightarrow> u32 \<Rightarrow> nat" where
  "inode_blk s num = table_of s ((unat num - 1) div unat (s_inodes_per_group (sb s))) +
     (unat num - 1) mod unat (s_inodes_per_group (sb s)) * INODE_SIZE div blk_size s"

definition inode_off :: "'w ext2 \<Rightarrow> u32 \<Rightarrow> nat" where
  "inode_off s num = (unat num - 1) mod unat (s_inodes_per_group (sb s)) * INODE_SIZE mod blk_size s"

lemma mounted_nb: "mounted nb view s \<Longrightarrow> nb \<le> 2 ^ 32"
proof -
  assume m: "mounted nb view s"
  have "nb * 1 \<le> nb * spb s" using mounted_simps(2)[OF m] by (intro mult_le_mono2) simp
  moreover have "nb * spb s \<le> 2 ^ 32" using m unfolding mounted_def by blast
  ultimately show ?thesis by (metis le_trans mult_1_right)
qed

lemma inode_place_ok:
  assumes m: "mounted nb view s" and i: "inodes_ok nb s" and v: "\<not> bad_inode_num s num"
  obtains b where "inode_place s num = Some (b, inode_off s num)" "unat b = inode_blk s num" "inode_blk s num < nb"
    "inode_off s num + INODE_SIZE \<le> blk_size s"
proof -
  let ?p = "s_inodes_per_group (sb s)"
  define n where "n = unat num - 1"
  define g where "g = n div unat ?p"
  define k where "k = n mod unat ?p"
  have p: "0 < unat ?p" "unat ?p * 128 < 2 ^ 32" using i by (auto simp: inodes_ok_def unat_gt_0 INODE_SIZE_def)
  have nz: "num \<noteq> 0" using v by (auto simp: bad_inode_num_def word_less_1)
  have num: "0 < unat num" "unat num \<le> nat (groups_count s) * unat ?p"
  proof -
    have "num \<noteq> 0" "num \<le> s_inodes_count (sb s)" using v by (auto simp: bad_inode_num_def word_less_1)
    then show "0 < unat num" "unat num \<le> nat (groups_count s) * unat ?p"
      using i by (auto simp: unat_gt_0 word_le_nat_alt inodes_ok_def)
  qed
  then have n: "unat (num - 1) = n" "n < nat (groups_count s) * unat ?p"
    using unat_minus_one[OF nz] by (auto simp: n_def)
  have g: "g < nat (groups_count s)" using n(2) by (simp add: g_def less_mult_imp_div_less)
  have k: "k < unat ?p" using p by (simp add: k_def)
  have s31: "groups_count s < 2 ^ 31" using i by (simp add: inodes_ok_def)
  have "unat ((num - 1) div ?p) = g" by (simp add: unat_div n g_def)
  then have "(num - 1) div ?p = of_nat g" by (metis of_nat_unat ucast_id)
  then have grp: "EXT2_GET_INODE_GROUP s num = Some (int g)"
    using g s31 p by (auto simp: EXT2_GET_INODE_GROUP_def signed_of_nat signed_take_bit_int_eq_self)
  have bs: "0 < blk_size s" "blk_size s < 2 ^ 16" "128 dvd blk_size s"
    using m i by (auto simp: mounted_def inodes_ok_def SECTOR_def dvd_def) 
  have uk: "unat (((num - 1) mod ?p) * 128) = k * 128"
    using k p(2) by (simp add: unat_word_ariths unat_mod n k_def)
  have ub: "unat (of_nat (blk_size s) :: u32) = blk_size s" using bs(2) by (simp add: unsigned_of_nat take_bit_nat_eq_self)
  let ?t = "get32 (groups s) (g * GD_SIZE + bg_inode_table)" and ?d = "((num - 1) mod ?p) * 128 div of_nat (blk_size s)"
  have d: "unat ?d = k * 128 div blk_size s" by (simp only: unat_div uk ub)
  have "k * 128 \<le> unat ?p * 128 - 1" using k by linarith
  then have "unat ?d < table_blocks s" unfolding d table_blocks_def INODE_SIZE_def by (simp add: div_le_mono less_Suc_eq_le)
  moreover have "table_of s g + table_blocks s \<le> nb" using i g by (simp add: inodes_ok_def)
  moreover have "nb \<le> 2 ^ 32" by (rule mounted_nb[OF m])
  ultimately have lt: "table_of s g + unat ?d < nb" "table_of s g + unat ?d < 2 ^ 32" by linarith+
  then have b: "unat (?t + ?d) = inode_blk s num"
    using unat_add_no_wrap[of ?t ?d] unfolding d by (simp add: table_of_def inode_blk_def g_def k_def n_def INODE_SIZE_def)
  have o: "unat (((num - 1) mod ?p) * 128 mod of_nat (blk_size s)) = inode_off s num"
    by (simp only: unat_mod uk ub) (simp add: inode_off_def k_def n_def INODE_SIZE_def)
  obtain q where q: "blk_size s = 128 * q" using bs(3) by (rule dvdE)
  have "k * 128 mod blk_size s = (k mod q) * 128" unfolding q by (simp add: mult.commute mult_mod_right)
  moreover have "k mod q < q" using bs(1) q by simp
  moreover have "inode_off s num = k * 128 mod blk_size s" by (simp add: inode_off_def k_def n_def INODE_SIZE_def)
  ultimately have "inode_off s num + INODE_SIZE \<le> blk_size s" unfolding INODE_SIZE_def by (simp only: q)
  moreover have "bg32 s bg_inode_table (int g) = Some ?t" "?p \<noteq> 0"
    using g mounted_simps(5)[OF m, of "int g"] p(1) by (auto simp: bg32_def)
  moreover from this have "inode_place s num = Some (?t + ?d, inode_off s num)" using bs(1) o by (simp add: inode_place_def grp INODE_SIZE_def)
  moreover have "inode_blk s num < nb" using lt(1) unfolding d by (simp add: inode_blk_def g_def k_def n_def INODE_SIZE_def)
  ultimately show ?thesis using that[of "?t + ?d"] b by blast
qed

definition inode_at :: "('w \<Rightarrow> int \<Rightarrow> u8 list) \<Rightarrow> 'w ext2 \<Rightarrow> u32 \<Rightarrow> u8 list" where
  "inode_at view s num = take INODE_SIZE (drop (inode_off s num) (blocks view s (inode_blk s num)))"

lemma inode_disk_simps [simp]:
  "inode_blk (s\<lparr>disk := w\<rparr>) = inode_blk s" "inode_off (s\<lparr>disk := w\<rparr>) = inode_off s" "inodes_ok nb (s\<lparr>disk := w\<rparr>) = inodes_ok nb s"
  "bad_inode_num (s\<lparr>disk := w\<rparr>) = bad_inode_num s" "EXT2_GET_SECTOR_NUM (s\<lparr>disk := w\<rparr>) = EXT2_GET_SECTOR_NUM s"
  "kalloc (s\<lparr>disk := w\<rparr>) = kalloc s"
  by (simp_all add: fun_eq_iff inode_blk_def inode_off_def inodes_ok_def table_of_def table_blocks_def bad_inode_num_def
      EXT2_GET_SECTOR_NUM_def kalloc_def)

lemma blocks_same_view: "view w = view (disk s) \<Longrightarrow> blocks view (s\<lparr>disk := w\<rparr>) = blocks view s"
  by (intro ext) (simp add: blocks_def)

lemma inode_do_read_correct:
  assumes m: "mounted nb view s" and i: "inodes_ok nb s" and v: "\<not> bad_inode_num s num"
  shows "\<exists>w. inode_do_read s old num = Some (0, inode_at view s num, s\<lparr>disk := w\<rparr>) \<and> view w = view (disk s)"
proof -
  obtain b where b: "inode_place s num = Some (b, inode_off s num)" "unat b = inode_blk s num" "inode_blk s num < nb"
    "inode_off s num + INODE_SIZE \<le> blk_size s" using inode_place_ok[OF m i v] .
  obtain w where "bread s (kalloc s (blk_size s)) (spb s) (EXT2_GET_SECTOR_NUM s b) = Some (int (spb s), blocks view s (inode_blk s num), s\<lparr>disk := w\<rparr>)"
    "view w = view (disk s)" using read_block[OF m, of b "kalloc s (blk_size s)"] b by auto
  then show ?thesis using b v length_blocks[OF m] by (auto simp: inode_do_read_def inode_at_def)
qed

lemma inode_do_write_blocks:
  assumes m: "mounted nb view s" and i: "inodes_ok nb s" and v: "\<not> bad_inode_num s num" and l: "length x = INODE_SIZE"
  shows "\<exists>w. inode_do_write s x num = Some (0, s\<lparr>disk := w\<rparr>) \<and> blocks view (s\<lparr>disk := w\<rparr>) =
    (blocks view s)(inode_blk s num := overwrite (blocks view s (inode_blk s num)) (inode_off s num) x)"
proof -
  let ?B = "overwrite (blocks view s (inode_blk s num)) (inode_off s num) x"
  obtain b where b: "inode_place s num = Some (b, inode_off s num)" "unat b = inode_blk s num" "inode_blk s num < nb"
    "inode_off s num + INODE_SIZE \<le> blk_size s" using inode_place_ok[OF m i v] .
  obtain w where w: "bread s (kalloc s (blk_size s)) (spb s) (EXT2_GET_SECTOR_NUM s b) = Some (int (spb s), blocks view s (inode_blk s num), s\<lparr>disk := w\<rparr>)"
    "view w = view (disk s)" using read_block[OF m, of b "kalloc s (blk_size s)"] b by auto
  have len: "length ?B = blk_size s" using b(4) l length_blocks[OF m] by (simp add: overwrite_simps)
  have m1: "mounted nb view (s\<lparr>disk := w\<rparr>)" using m by (simp add: mounted_disk)
  obtain w' where "bwrite (s\<lparr>disk := w\<rparr>) ?B (spb s) (EXT2_GET_SECTOR_NUM s b) = Some (int (spb s), s\<lparr>disk := w'\<rparr>)"
    "blocks view (s\<lparr>disk := w'\<rparr>) = (blocks view s)(inode_blk s num := ?B)"
    using write_block[OF m1, of b ?B] b len blocks_same_view[OF w(2)] by auto
  then show ?thesis using b v w length_blocks[OF m] by (auto simp: inode_do_write_def)
qed

text \<open>Different i-nodes lie in different blocks or at different offsets.\<close>

lemma inode_apart:
  assumes m: "mounted nb view s" and i: "inodes_ok nb s" and v: "\<not> bad_inode_num s num" "\<not> bad_inode_num s num'" and ne: "num \<noteq> num'"
  shows "inode_blk s num \<noteq> inode_blk s num' \<or> inode_off s num + INODE_SIZE \<le> inode_off s num' \<or> inode_off s num' + INODE_SIZE \<le> inode_off s num"
proof -
  let ?p = "unat (s_inodes_per_group (sb s))" and ?bs = "blk_size s"
  define n where "n x = unat x - 1" for x :: u32
  define g where "g x = n x div ?p" for x
  define k where "k x = n x mod ?p" for x
  have p: "0 < ?p" using i by (auto simp: inodes_ok_def unat_gt_0)
  have pos: "0 < unat x" "g x < nat (groups_count s)" if "\<not> bad_inode_num s x" for x
  proof -
    have "x \<noteq> 0" "x \<le> s_inodes_count (sb s)" using that by (auto simp: bad_inode_num_def word_less_1)
    then have x: "0 < unat x" "unat x \<le> nat (groups_count s) * ?p" using i by (auto simp: unat_gt_0 word_le_nat_alt inodes_ok_def)
    then have "n x < nat (groups_count s) * ?p" by (simp add: n_def)
    then show "0 < unat x" "g x < nat (groups_count s)" using x by (simp_all add: g_def less_mult_imp_div_less)
  qed
  have blk: "inode_blk s x = table_of s (g x) + k x * 128 div ?bs" "inode_off s x = k x * 128 mod ?bs" for x
    by (simp_all add: inode_blk_def inode_off_def g_def k_def n_def INODE_SIZE_def)
  have small: "k x * 128 div ?bs < table_blocks s" for x
  proof -
    have "k x < ?p" using p by (simp add: k_def)
    then have "k x * 128 \<le> ?p * 128 - 1" by linarith
    then show ?thesis unfolding table_blocks_def INODE_SIZE_def by (simp add: div_le_mono less_Suc_eq_le)
  qed
  show ?thesis
  proof (cases "g num = g num'")
    case False
    then have "table_of s (g num) + table_blocks s \<le> table_of s (g num') \<or> table_of s (g num') + table_blocks s \<le> table_of s (g num)"
      using i pos(2)[OF v(1)] pos(2)[OF v(2)] unfolding inodes_ok_def by (metis linorder_neqE_nat)
    then show ?thesis using small[of num] small[of num'] unfolding blk by linarith
  next
    case True
    have "n num \<noteq> n num'" using ne pos(1)[OF v(1)] pos(1)[OF v(2)] by (auto simp: n_def) (metis Suc_pred word_unat_eq_iff)
    then have kk: "k num \<noteq> k num'" using True by (metis g_def k_def div_mult_mod_eq)
    obtain q where q: "?bs = 128 * q" using mounted_simps(3)[OF m] by (auto simp: SECTOR_def)
    have "k x * 128 div ?bs = k x div q" "k x * 128 mod ?bs = (k x mod q) * 128" for x
      unfolding q by (simp_all add: mult.commute mult_mod_right)
    moreover have "k num mod q \<noteq> k num' mod q" if "k num div q = k num' div q" using kk that by (metis div_mult_mod_eq)
    ultimately show ?thesis unfolding blk True INODE_SIZE_def by (cases "k num mod q < k num' mod q") auto
  qed
qed

lemma take_drop_overwrite_other:
  assumes "k + length x \<le> length b" and "k' + n \<le> k \<or> k + length x \<le> k'"
  shows "take n (drop k' (overwrite b k x)) = take n (drop k' b)"
proof (cases "k' + n \<le> k")
  case True
  then show ?thesis using assms(1) by (simp add: overwrite_def take_drop min_def)
next
  case False
  then have "k + length x \<le> k'" using assms(2) by simp
  then show ?thesis using assms(1) by (simp add: overwrite_def)
qed

text \<open>Reading and writing an i-node by number, successful calls only, and the table as a store of records.\<close>

definition inode_rd :: "'w ext2 \<Rightarrow> u32 \<Rightarrow> (u8 list \<times> 'w ext2) option" where
  "inode_rd s num = do { (err, x, s) \<leftarrow> inode_do_read s [] num; if err = 0 then Some (x, s) else None }"

definition inode_wr :: "'w ext2 \<Rightarrow> u32 \<Rightarrow> u8 list \<Rightarrow> 'w ext2 option" where
  "inode_wr s num x = do { (err, s) \<leftarrow> inode_do_write s x num; if err = 0 then Some s else None }"

lemma inode_at_disk: "view w = view (disk s) \<Longrightarrow> inode_at view (s\<lparr>disk := w\<rparr>) = inode_at view s"
  by (intro ext) (simp add: inode_at_def blocks_same_view)

lemma inode_written:
  assumes "mounted nb view s" and "inodes_ok nb s" and "\<not> bad_inode_num s num" and "length x = INODE_SIZE" and "\<not> bad_inode_num s num'"
    and "blocks view (s\<lparr>disk := w\<rparr>) = (blocks view s)(inode_blk s num := overwrite (blocks view s (inode_blk s num)) (inode_off s num) x)"
  shows "inode_at view (s\<lparr>disk := w\<rparr>) num' = (if num' = num then x else inode_at view s num')"
proof -
  have l: "inode_off s num + length x \<le> length (blocks view s (inode_blk s num))"
    using inode_place_ok[OF assms(1-3)] length_blocks[OF assms(1)] assms(4) by metis
  show ?thesis
  proof (cases "num' = num")
    case True
    then show ?thesis using overwrite_simps(3)[OF l] assms(4) by (simp add: inode_at_def assms(6))
  next
    case False
    then show ?thesis using inode_apart[OF assms(1,2,3,5)] take_drop_overwrite_other[OF l, of "inode_off s num'" INODE_SIZE] assms(4)
      by (auto simp: inode_at_def assms(6))
  qed
qed

interpretation inode_table: record_store "\<lambda>s. mounted nb view s \<and> inodes_ok nb s" "\<lambda>s k. \<not> bad_inode_num s k" "\<lambda>x. length x = INODE_SIZE"
  "inode_at view" inode_rd inode_wr for nb view
proof unfold_locales
  fix s :: "'a ext2" and k
  assume a: "mounted nb view s \<and> inodes_ok nb s" "\<not> bad_inode_num s k"
  then obtain w where "inode_do_read s [] k = Some (0, inode_at view s k, s\<lparr>disk := w\<rparr>)" "view w = view (disk s)"
    using inode_do_read_correct by blast
  then show "\<exists>s'. inode_rd s k = Some (inode_at view s k, s') \<and> (mounted nb view s' \<and> inodes_ok nb s') \<and>
      (\<lambda>k. \<not> bad_inode_num s' k) = (\<lambda>k. \<not> bad_inode_num s k) \<and> inode_at view s' = inode_at view s"
    using a by (intro exI[of _ "s\<lparr>disk := w\<rparr>"]) (simp add: inode_rd_def mounted_disk inode_at_disk)
next
  fix s :: "'a ext2" and k x
  assume a: "mounted nb view s \<and> inodes_ok nb s" "\<not> bad_inode_num s k" "length (x :: u8 list) = INODE_SIZE"
  then obtain w where w: "inode_do_write s x k = Some (0, s\<lparr>disk := w\<rparr>)" "blocks view (s\<lparr>disk := w\<rparr>) =
      (blocks view s)(inode_blk s k := overwrite (blocks view s (inode_blk s k)) (inode_off s k) x)"
    using inode_do_write_blocks by blast
  then show "\<exists>s'. inode_wr s k x = Some s' \<and> (mounted nb view s' \<and> inodes_ok nb s') \<and> (\<lambda>k. \<not> bad_inode_num s' k) = (\<lambda>k. \<not> bad_inode_num s k) \<and>
      (\<forall>k'. \<not> bad_inode_num s k' \<longrightarrow> inode_at view s' k' = (if k' = k then x else inode_at view s k'))"
    using a inode_written[OF a(1)[THEN conjunct1] a(1)[THEN conjunct2] a(2,3) _ w(2)] by (intro exI[of _ "s\<lparr>disk := w\<rparr>"]) (simp add: inode_wr_def mounted_disk)
qed

text \<open>C12. The i-node table as a store: after any sequence of i-node writes with valid numbers, all of which succeed, reading
  an i-node returns the bytes last written under its number, or what the disk held when there was no such write;
  i-nodes that share a block do not disturb each other.\<close>

theorem inode_writes_read:
  assumes "mounted nb view s" and "inodes_ok nb s" and "\<forall>(k, x) \<in> set kxs. \<not> bad_inode_num s k \<and> length x = INODE_SIZE"
    and "\<not> bad_inode_num s num"
  shows "\<exists>s' s''. fold (\<lambda>(k, x) r. Option.bind r (\<lambda>s. inode_wr s k x)) kxs (Some s) = Some s' \<and>
    inode_rd s' num = Some (case map_of (rev kxs) num of Some x \<Rightarrow> x | None \<Rightarrow> inode_at view s num, s'')"
  using inode_table.writes_read[of nb view s kxs num] assms by blast

lemma small_fs_inodes: "inodes_ok 16 small_fs" "\<not> bad_inode_num small_fs 2"
proof -
  have "table_of small_fs 0 = 5" by (simp add: table_of_def small_fs_def bg_offsets bytes_simps)
  then show "inodes_ok 16 small_fs"
    by (simp add: inodes_ok_def small_fs_facts table_blocks_def INODE_SIZE_def)
  show "\<not> bad_inode_num small_fs 2" by (simp add: bad_inode_num_def small_fs_facts)
qed

theorem inode_writes_read_witness:
  "\<exists>s' s''. inode_wr small_fs 2 (replicate INODE_SIZE 7) = Some s' \<and> inode_rd s' 2 = Some (replicate INODE_SIZE 7, s'')"
  using inode_writes_read[OF small_fs_mounted small_fs_inodes(1), of "[(2, replicate INODE_SIZE 7)]" 2] small_fs_inodes(2) by simp

end
