(* ===== verification/Ext2Content.thy ===== *)
theory Ext2Content
  imports Ext2Props
begin

text \<open>
  Contents of ext2 files: what \<^verbatim>\<open>inode_rw_content\<close>, \<^verbatim>\<open>ext2_read\<close> and \<^verbatim>\<open>ext2_write\<close> do to the bytes of a file, where the
  blocks of a file are given by its direct, indirect and doubly indirect block numbers.
\<close>

section \<open>The blocks of a file\<close>

abbreviation bpi :: "'w ext2 \<Rightarrow> nat" where "bpi s \<equiv> blk_size s div 4"

text \<open>The number of the \<open>k\<close>-th block of a file; below 2 for a hole.\<close>

definition fblk :: "('w \<Rightarrow> int \<Rightarrow> u8 list) \<Rightarrow> 'w ext2 \<Rightarrow> vnode \<Rightarrow> nat \<Rightarrow> u32" where
  "fblk view s v k =
     (let at = (\<lambda>b i. if b < 2 then 0 else get32 (blocks view s (unat b)) (4 * i)) in
      if k < 12 then iblk s v k
      else if k < 12 + bpi s then at (iblk s v 12) (k - 12)
      else let j = k - 12 - bpi s in at (at (iblk s v 13) (j div bpi s)) (j mod bpi s))"

text \<open>The block is there, and the index blocks that lead to it lie on the device.\<close>

definition mapped :: "nat \<Rightarrow> ('w \<Rightarrow> int \<Rightarrow> u8 list) \<Rightarrow> 'w ext2 \<Rightarrow> vnode \<Rightarrow> nat \<Rightarrow> bool" where
  "mapped nb view s v k \<longleftrightarrow>
     2 \<le> fblk view s v k \<and> unat (fblk view s v k) < nb \<and>
     (12 \<le> k \<and> k < 12 + bpi s \<longrightarrow> unat (iblk s v 12) < nb) \<and>
     (12 + bpi s \<le> k \<longrightarrow> k < 12 + bpi s + bpi s * bpi s \<and> unat (iblk s v 13) < nb \<and>
        unat (get32 (blocks view s (unat (iblk s v 13))) (4 * ((k - 12 - bpi s) div bpi s))) < nb)"

definition content :: "('w \<Rightarrow> int \<Rightarrow> u8 list) \<Rightarrow> 'w ext2 \<Rightarrow> vnode \<Rightarrow> nat \<Rightarrow> nat \<Rightarrow> u8 list" where
  "content view s v k n = concat (map (\<lambda>j. blocks view s (unat (fblk view s v (k + j)))) [0..<n])"

lemma content_simps:
  "content view s v k 0 = []"
  "content view s v k (Suc n) = blocks view s (unat (fblk view s v k)) @ content view s v (Suc k) n"
  "content view s v k (m + n) = content view s v k m @ content view s v (k + m) n"
proof -
  show "content view s v k (Suc n) = blocks view s (unat (fblk view s v k)) @ content view s v (Suc k) n"
    unfolding content_def by (simp add: upt_conv_Cons map_Suc_upt[symmetric] o_def del: upt_Suc)
  show "content view s v k (m + n) = content view s v k m @ content view s v (k + m) n"
    unfolding content_def by (induction n) (simp_all add: add.assoc)
qed (simp add: content_def)

lemma length_content: "mounted nb view s \<Longrightarrow> length (content view s v k n) = n * blk_size s"
  by (induction n arbitrary: k) (simp_all add: content_simps length_blocks)

section \<open>States that differ in nothing the file system sees\<close>

definition same :: "('w \<Rightarrow> int \<Rightarrow> u8 list) \<Rightarrow> 'w ext2 \<Rightarrow> 'w ext2 \<Rightarrow> bool" where
  "same view s t \<longleftrightarrow> (\<exists>w. t = s\<lparr>disk := w\<rparr> \<and> view w = view (disk s))"

lemma same_refl [simp]: "same view s s"
  unfolding same_def by (rule exI[of _ "disk s"]) simp

lemma same_trans: "same view s t \<Longrightarrow> same view t u \<Longrightarrow> same view s u"
  unfolding same_def by auto

lemma same_simps:
  assumes "same view s t"
  shows "blocks view t = blocks view s" "mounted nb view t = mounted nb view s" "blk_size t = blk_size s" "spb t = spb s"
    "incore t = incore s" "fblk view t v = fblk view s v" "mapped nb view t v = mapped nb view s v" "kalloc t = kalloc s"
    "content view t v = content view s v"
proof -
  obtain w where t: "t = s\<lparr>disk := w\<rparr>" "view w = view (disk s)" using assms by (auto simp: same_def)
  show b: "blocks view t = blocks view s" "mounted nb view t = mounted nb view s" "blk_size t = blk_size s" "spb t = spb s"
    "incore t = incore s" "kalloc t = kalloc s"
    using t by (simp_all add: blocks_same_view mounted_disk)
  show f: "fblk view t v = fblk view s v" by (rule ext) (simp only: fblk_def b)
  show "mapped nb view t v = mapped nb view s v" "content view t v = content view s v"
    by (intro ext; simp only: mapped_def content_def b f)+
qed

lemma overwrite_append:
  "p + length x + length y \<le> length b \<Longrightarrow> overwrite (overwrite b p x) (p + length x) y = overwrite b p (x @ y)"
  by (simp add: overwrite_def min_absorb2 ac_simps)

lemma overwrite_Nil: "overwrite b p [] = b"
  by (simp add: overwrite_def)

lemma rw_block_read:
  assumes "mounted nb view s" and "unat b < nb" and "pos + blk_size s \<le> length buf"
  shows "\<exists>t. rw_block RW_READ s buf pos b = Some (int (spb s), overwrite buf pos (blocks view s (unat b)), t) \<and> same view s t"
proof -
  obtain w where "bread s (drop pos buf) (spb s) (EXT2_GET_SECTOR_NUM s b) =
      Some (int (spb s), blocks view s (unat b) @ drop (blk_size s) (drop pos buf), s\<lparr>disk := w\<rparr>)" "view w = view (disk s)"
    using read_block[OF assms(1,2), of "drop pos buf"] assms(3) by fastforce
  then show ?thesis using length_blocks[OF assms(1)]
    by (auto simp: rw_block_def overwrite_def same_def add.commute)
qed

section \<open>Reading\<close>

lemma overwrite_content:
  assumes "mounted nb view s" and "m < n" and "pos + n * blk_size s \<le> length buf"
  shows "overwrite (overwrite buf pos (blocks view s (unat (fblk view s v k)))) (pos + blk_size s) (content view s v (Suc k) m) =
    overwrite buf pos (content view s v k (Suc m))"
proof -
  have "pos + (m + 1) * blk_size s \<le> pos + n * blk_size s" using assms(2) by (intro add_left_mono mult_le_mono1) simp
  then have "pos + (m + 1) * blk_size s \<le> length buf" using assms(3) by (rule le_trans)
  then show ?thesis
    using overwrite_append[of pos "blocks view s (unat (fblk view s v k))" "content view s v (Suc k) m" buf]
    by (simp add: content_simps length_content[OF assms(1)] length_blocks[OF assms(1)])
qed

text \<open>The three loops that copy blocks into the buffer have the same shape: \<open>L\<close> is the loop, \<open>R\<close> how it returns, \<open>B\<close> the bound of its
  index, \<open>c\<close> the number of file blocks in front of its first.\<close>

lemma copy_loop:
  assumes zero: "\<And>k pos buf s. L 0 k pos buf s = R 0 k pos buf s"
    and stop: "\<And>n k pos buf s. \<not> k < B \<Longrightarrow> L n k pos buf s = R n k pos buf s"
    and step: "\<And>n k pos buf s buf' t. k < B \<Longrightarrow> same view s0 s \<Longrightarrow> same view s0 t \<Longrightarrow> P k \<Longrightarrow> 2 \<le> fblk view s0 v (c + k) \<Longrightarrow>
      rw_block RW_READ s buf pos (fblk view s0 v (c + k)) = Some (int (spb s0), buf', t) \<Longrightarrow>
      L (Suc n) k pos buf s = L n (Suc k) (pos + blk_size s0) buf' t"
    and m: "mounted nb view s0" and s: "same view s0 s"
    and p: "\<And>j. j < min n (B - k) \<Longrightarrow> P (k + j) \<and> mapped nb view s0 v (c + k + j)" and l: "pos + n * blk_size s0 \<le> length buf"
  shows "\<exists>t. L n k pos buf s = R (n - min n (B - k)) (k + min n (B - k)) (pos + min n (B - k) * blk_size s0)
      (overwrite buf pos (content view s0 v (c + k) (min n (B - k)))) t \<and> same view s0 t"
  using s p l
proof (induction n arbitrary: k pos buf s)
  case 0
  then show ?case by (auto simp: zero content_simps overwrite_Nil)
next
  case (Suc n)
  show ?case
  proof (cases "k < B")
    case False
    then show ?thesis using Suc.prems(1) by (auto simp: stop content_simps overwrite_Nil)
  next
    case True
    have b: "P k" "2 \<le> fblk view s0 v (c + k)" "unat (fblk view s0 v (c + k)) < nb"
      using Suc.prems(2)[of 0] True by (simp_all add: mapped_def)
    let ?B = "blocks view s0 (unat (fblk view s0 v (c + k)))" and ?m = "min n (B - Suc k)"
    note ss = same_simps[OF Suc.prems(1)]
    obtain t where t: "rw_block RW_READ s buf pos (fblk view s0 v (c + k)) = Some (int (spb s0), overwrite buf pos ?B, t)" "same view s t"
      using rw_block_read[of nb view s _ pos buf, OF _ b(3)] Suc.prems(3) m by (auto simp: ss)
    have t0: "same view s0 t" using same_trans[OF Suc.prems(1) t(2)] .
    have mm: "min (Suc n) (B - k) = Suc ?m" using True by simp
    have "\<exists>u. L n (Suc k) (pos + blk_size s0) (overwrite buf pos ?B) t = R (n - ?m) (Suc k + ?m) (pos + blk_size s0 + ?m * blk_size s0)
        (overwrite (overwrite buf pos ?B) (pos + blk_size s0) (content view s0 v (c + Suc k) ?m)) u \<and> same view s0 u"
    proof (rule Suc.IH[OF t0])
      show "P (Suc k + j) \<and> mapped nb view s0 v (c + Suc k + j)" if "j < ?m" for j
        using Suc.prems(2)[of "Suc j"] that mm by simp
    qed (use Suc.prems(3) length_blocks[OF m] in \<open>simp add: overwrite_simps\<close>)
    moreover have "overwrite (overwrite buf pos ?B) (pos + blk_size s0) (content view s0 v (Suc (c + k)) ?m) =
        overwrite buf pos (content view s0 v (c + k) (min (Suc n) (B - k)))"
      using overwrite_content[OF m _ Suc.prems(3), of ?m v "c + k"] unfolding mm by simp
    ultimately show ?thesis using step[OF True Suc.prems(1) t0 b(1,2) t(1)] by (auto simp: mm add.assoc)
  qed
qed

lemma direct_loop_read:
  assumes "mounted nb view s" and "\<And>j. j < min n (12 - k) \<Longrightarrow> mapped nb view s v (k + j)" and "n * blk_size s \<le> length buf"
  shows "\<exists>t. direct_loop RW_READ v n k 0 buf s = Some (Inr (n - min n (12 - k), k + min n (12 - k), min n (12 - k) * blk_size s),
        overwrite buf 0 (content view s v k (min n (12 - k))), t) \<and> same view s t"
proof -
  have stop: "direct_loop RW_READ v n k pos buf t = Some (Inr (n, k, pos), buf, t)" if "\<not> k < 12" for n k pos buf and t :: "'a ext2"
    using that by (cases n) simp_all
  have st: "direct_loop RW_READ v (Suc n) k pos buf t = direct_loop RW_READ v n (Suc k) (pos + blk_size s) buf' u"
    if "k < 12" "same view s t" "same view s u" True "2 \<le> fblk view s v (0 + k)" "rw_block RW_READ t buf pos (fblk view s v (0 + k)) = Some (int (spb s), buf', u)"
    for n k pos buf t buf' u
  proof -
    have "iblk t v k = fblk view s v k" using that(1) same_simps(5)[OF that(2)] by (simp add: fblk_def)
    then show ?thesis using that same_simps(3,4)[OF that(3)] by (simp add: not_le[symmetric])
  qed
  have "\<exists>t. direct_loop RW_READ v n k 0 buf s = Some (Inr (n - min n (12 - k), k + min n (12 - k), 0 + min n (12 - k) * blk_size s),
        overwrite buf 0 (content view s v (0 + k) (min n (12 - k))), t) \<and> same view s t"
    by (rule copy_loop[where L = "direct_loop RW_READ v" and R = "\<lambda>n k pos buf s. Some (Inr (n, k, pos), buf, s)" and B = 12 and c = 0
      and P = "\<lambda>_. True" and v = v, OF _ stop st assms(1) same_refl]) (use assms(2,3) in simp_all)
  then show ?thesis by simp
qed

lemma level1_loop_read:
  assumes m: "mounted nb view s0" "same view s0 s"
    and p: "\<And>j. j < min n (bpi s0 - k) \<Longrightarrow> get32 ind (4 * (k + j)) = fblk view s0 v (12 + (k + j)) \<and> mapped nb view s0 v (12 + k + j)"
    and l: "pos + n * blk_size s0 \<le> length buf"
  shows "\<exists>t. level1_loop RW_READ v (bpi s0) i n (int k) pos ind buf s =
      Some (Inr (n - min n (bpi s0 - k), int (k + min n (bpi s0 - k)), pos + min n (bpi s0 - k) * blk_size s0), ind,
        overwrite buf pos (content view s0 v (12 + k) (min n (bpi s0 - k))), t) \<and> same view s0 t"
proof -
  have stop: "level1_loop RW_READ v (bpi s0) i n (int k) pos ind buf s = Some (Inr (n, int k, pos), ind, buf, s)"
    if "\<not> k < bpi s0" for n k pos buf and s :: "'a ext2"
    using that by (cases n) simp_all
  have st: "level1_loop RW_READ v (bpi s0) i (Suc n) (int k) pos ind buf t = level1_loop RW_READ v (bpi s0) i n (int (Suc k)) (pos + blk_size s0) ind buf' u"
    if "k < bpi s0" "same view s0 t" "same view s0 u" "get32 ind (4 * k) = fblk view s0 v (12 + k)" "2 \<le> fblk view s0 v (12 + k)"
      "rw_block RW_READ t buf pos (fblk view s0 v (12 + k)) = Some (int (spb s0), buf', u)" for n k pos buf t buf' u
    using that same_simps(3,4)[OF that(3)] by (simp add: not_le[symmetric] add.commute)
  show ?thesis
    by (rule copy_loop[where L = "\<lambda>n k pos buf s. level1_loop RW_READ v (bpi s0) i n (int k) pos ind buf s"
      and R = "\<lambda>n k pos buf s. Some (Inr (n, int k, pos), ind, buf, s)" and P = "\<lambda>k. get32 ind (4 * k) = fblk view s0 v (12 + k)",
      OF _ stop st m p l]) simp_all
qed

lemma level2_loop_read:
  assumes m: "mounted nb view s0" "same view s0 s"
    and p: "\<And>j. j < min n (bpi s0 - k) \<Longrightarrow> get32 ind (4 * (k + j)) = fblk view s0 v (c + (k + j)) \<and> mapped nb view s0 v (c + k + j)"
    and l: "pos + n * blk_size s0 \<le> length buf"
  shows "\<exists>t. level2_loop RW_READ v (bpi s0) n k pos ind buf s =
      Some (Inr (n - min n (bpi s0 - k), k + min n (bpi s0 - k), pos + min n (bpi s0 - k) * blk_size s0), ind,
        overwrite buf pos (content view s0 v (c + k) (min n (bpi s0 - k))), t) \<and> same view s0 t"
proof -
  have stop: "level2_loop RW_READ v (bpi s0) n k pos ind buf s = Some (Inr (n, k, pos), ind, buf, s)"
    if "\<not> k < bpi s0" for n k pos buf and s :: "'a ext2"
    using that by (cases n) simp_all
  have st: "level2_loop RW_READ v (bpi s0) (Suc n) k pos ind buf t = level2_loop RW_READ v (bpi s0) n (Suc k) (pos + blk_size s0) ind buf' u"
    if "k < bpi s0" "same view s0 t" "same view s0 u" "get32 ind (4 * k) = fblk view s0 v (c + k)" "2 \<le> fblk view s0 v (c + k)"
      "rw_block RW_READ t buf pos (fblk view s0 v (c + k)) = Some (int (spb s0), buf', u)" for n k pos buf t buf' u
    using that same_simps(3)[OF that(3)] by (simp add: not_le[symmetric])
  show ?thesis
    by (rule copy_loop[where L = "\<lambda>n k pos buf s. level2_loop RW_READ v (bpi s0) n k pos ind buf s"
      and R = "\<lambda>n k pos buf s. Some (Inr (n, k, pos), ind, buf, s)" and P = "\<lambda>k. get32 ind (4 * k) = fblk view s0 v (c + k)",
      OF _ stop st m p l]) simp_all
qed

lemma bpi_pos: "mounted nb view s \<Longrightarrow> 0 < bpi s"
  using mounted_simps(2,3)[of nb view s] by (simp add: SECTOR_def)

lemma read_index:
  assumes "mounted nb view s" and "unat b < nb" and "length ind = blk_size s"
  shows "\<exists>t. bread s ind (spb s) (EXT2_GET_SECTOR_NUM s b) = Some (int (spb s), blocks view s (unat b), t) \<and> same view s t"
  using read_block[OF assms(1,2), of ind] assms(3) by (auto simp: same_def)

lemma load_index_read:
  assumes "mounted nb view s" and "unat (iblk s v q) < nb" and "length ind = blk_size s"
  shows "\<exists>t. load_index RW_READ v q pos ind s =
      (if iblk s v q < 2 then map_option (\<lambda>r. (Inl r, s)) (blocks_done v pos) else Some (Inr (blocks view s (unat (iblk s v q))), t)) \<and> same view s t"
  using read_index[OF assms] by (auto simp: load_index_def intro: exI[of _ s])

lemma mapped_index:
  assumes "mapped nb view s v k" and "12 \<le> k"
  shows "k < 12 + bpi s \<Longrightarrow> 2 \<le> iblk s v 12 \<and> unat (iblk s v 12) < nb \<and>
      get32 (blocks view s (unat (iblk s v 12))) (4 * (k - 12)) = fblk view s v k"
    "12 + bpi s \<le> k \<Longrightarrow> 2 \<le> iblk s v 13 \<and> unat (iblk s v 13) < nb \<and>
      (let b = get32 (blocks view s (unat (iblk s v 13))) (4 * ((k - 12 - bpi s) div bpi s))
       in 2 \<le> b \<and> unat b < nb \<and> get32 (blocks view s (unat b)) (4 * ((k - 12 - bpi s) mod bpi s)) = fblk view s v k)"
  using assms by (auto simp: mapped_def fblk_def Let_def not_less[symmetric] split: if_splits)

lemma level1_read:
  assumes m: "mounted nb view s" and n: "0 < n" and p: "\<And>j. j < n \<Longrightarrow> mapped nb view s v (12 + k + j)"
    and l: "pos + n * blk_size s \<le> length buf" "length ind = blk_size s"
  shows "\<exists>t ind'. level1 RW_READ v (bpi s) n (int k) pos ind buf s =
      Some (Inr (n - min n (bpi s - k), int (k + min n (bpi s - k)), pos + min n (bpi s - k) * blk_size s, ind'),
        overwrite buf pos (content view s v (12 + k) (min n (bpi s - k))), t) \<and> same view s t \<and> length ind' = blk_size s"
proof (cases "k < bpi s")
  case False
  then show ?thesis using l(2) by (auto simp: level1_def content_simps overwrite_Nil)
next
  case True
  have i: "2 \<le> iblk s v 12" "unat (iblk s v 12) < nb" using mapped_index(1)[OF p[OF n]] True by simp_all
  let ?I = "blocks view s (unat (iblk s v 12))"
  obtain t where t: "load_index RW_READ v 12 pos ind s = Some (Inr ?I, t)" "same view s t"
    using load_index_read[OF m i(2) l(2), of pos] i(1) by (auto simp: not_less[symmetric])
  obtain u where u: "level1_loop RW_READ v (bpi s) 0 n (int k) pos ?I buf t =
      Some (Inr (n - min n (bpi s - k), int (k + min n (bpi s - k)), pos + min n (bpi s - k) * blk_size s), ?I,
        overwrite buf pos (content view s v (12 + k) (min n (bpi s - k))), u)" "same view s u"
  proof -
    have "get32 ?I (4 * (k + j)) = fblk view s v (12 + (k + j)) \<and> mapped nb view s v (12 + k + j)" if "j < min n (bpi s - k)" for j
    proof -
      have "k + j < bpi s" "j < n" using that by (simp_all add: less_diff_conv add.commute)
      then show ?thesis using mapped_index(1)[OF p[of j]] p[of j] by (simp add: add.assoc)
    qed
    then show ?thesis using level1_loop_read[OF m t(2) _ l(1), of k ?I v 0] that by blast
  qed
  then show ?thesis using True t(1) length_blocks[OF m] by (simp add: level1_def store_index_def)
qed

lemma div_mod_step:
  fixes a :: nat
  assumes "a mod B + j < B"
  shows "(a + j) div B = a div B" "(a + j) mod B = a mod B + j"
proof -
  have e: "a + j = (a mod B + j) + a div B * B" using div_mult_mod_eq[of a B] by linarith
  have "B \<noteq> 0" using assms by (cases B) simp_all
  then show "(a + j) div B = a div B" using assms by (metis e div_mult_self1 div_less add_0_right)
  show "(a + j) mod B = a mod B + j" using assms by (simp only: e mod_mult_self1 mod_less)
qed

lemma content_split: "m \<le> n \<Longrightarrow> content view s v k n = content view s v k m @ content view s v (k + m) (n - m)"
  using content_simps(3)[of view s v k m "n - m"] by simp

lemma level2_outer_read:
  assumes m: "mounted nb view s0" and "same view s0 s" and p: "\<And>j. j < n \<Longrightarrow> mapped nb view s0 v (12 + bpi s0 + idx + j)"
    and "k \<le> idx" and "pos + n * blk_size s0 \<le> length buf" and "length ind2 = blk_size s0"
    and I: "I = blocks view s0 (unat (iblk s0 v 13))"
  shows "\<exists>t. level2_outer RW_READ v (bpi s0) k idx n pos I ind2 buf s =
      Some (Inr (0, pos + n * blk_size s0), I, overwrite buf pos (content view s0 v (12 + bpi s0 + idx) n), t) \<and> same view s0 t"
  using assms(2-6)
proof (induction n arbitrary: idx pos ind2 buf s rule: less_induct)
  case (less n)
  show ?case
  proof (cases "n = 0")
    case True
    then show ?thesis using less.prems(1) by (subst level2_outer.simps) (auto simp: content_simps overwrite_Nil)
  next
    case False
    let ?b = "get32 I (4 * (idx div bpi s0))" and ?i = "idx mod bpi s0"
    let ?m = "min n (bpi s0 - ?i)" and ?c = "12 + bpi s0 + idx div bpi s0 * bpi s0"
    have i: "?i < bpi s0" using bpi_pos[OF m] by simp
    have ci: "?c + ?i = 12 + bpi s0 + idx" using div_mult_mod_eq[of idx "bpi s0"] by (simp only: add.assoc)
    have q: "2 \<le> ?b" "unat ?b < nb" using mapped_index(2)[OF less.prems(2)[of 0]] False by (simp_all add: Let_def I)
    have lt: "idx < bpi s0 * bpi s0" using less.prems(2)[of 0] False by (simp add: mapped_def)
    note ss = same_simps[OF less.prems(1)]
    obtain t where t: "bread s ind2 (spb s0) (EXT2_GET_SECTOR_NUM s ?b) = Some (int (spb s0), blocks view s0 (unat ?b), t)" "same view s0 t"
      using read_index[of nb view s ?b ind2] m q(2) less.prems(5) same_trans[OF less.prems(1)] by (auto simp: ss)
    have entries: "get32 (blocks view s0 (unat ?b)) (4 * (?i + j)) = fblk view s0 v (?c + (?i + j)) \<and> mapped nb view s0 v (?c + ?i + j)"
      if "j < ?m" for j
    proof -
      have "(idx + j) div bpi s0 = idx div bpi s0" "(idx + j) mod bpi s0 = ?i + j"
        using that by (intro div_mod_step; simp add: less_diff_conv add.commute)+
      moreover have cj: "?c + ?i + j = 12 + bpi s0 + idx + j" "?c + (?i + j) = 12 + bpi s0 + idx + j" using ci by linarith+
      ultimately show ?thesis unfolding cj using mapped_index(2)[OF less.prems(2)[of j]] less.prems(2)[of j] that by (simp add: Let_def I)
    qed
    obtain u where u: "level2_loop RW_READ v (bpi s0) n ?i pos (blocks view s0 (unat ?b)) buf t =
        Some (Inr (n - ?m, ?i + ?m, pos + ?m * blk_size s0), blocks view s0 (unat ?b), overwrite buf pos (content view s0 v (?c + ?i) ?m), u)" "same view s0 u"
      using level2_loop_read[OF m t(2) entries less.prems(4)] by blast
    have nm: "n - ?m < n" "?m \<le> n" using i False by simp_all
    have fits: "pos + ?m * blk_size s0 + (n - ?m) * blk_size s0 = pos + n * blk_size s0"
      by (simp add: add_mult_distrib[symmetric] del: min_less_iff_conj)
    let ?buf = "overwrite buf pos (content view s0 v (12 + bpi s0 + idx) ?m)"
    have lc: "length (content view s0 v x y) = y * blk_size s0" for x y by (rule length_content[OF m])
    have "?m * blk_size s0 \<le> n * blk_size s0" using nm(2) by (rule mult_le_mono1)
    then have "pos + ?m * blk_size s0 \<le> length buf" using less.prems(4) by linarith
    then have lb: "length ?buf = length buf" by (intro overwrite_simps(1)) (simp only: lc)
    have "\<exists>w. level2_outer RW_READ v (bpi s0) k (idx + ?m) (n - ?m) (pos + ?m * blk_size s0) I (blocks view s0 (unat ?b)) ?buf u =
        Some (Inr (0, pos + ?m * blk_size s0 + (n - ?m) * blk_size s0), I,
          overwrite ?buf (pos + ?m * blk_size s0) (content view s0 v (12 + bpi s0 + (idx + ?m)) (n - ?m)), w) \<and> same view s0 w"
    proof (rule less.IH[OF nm(1) u(2)])
      show "mapped nb view s0 v (12 + bpi s0 + (idx + ?m) + j)" if "j < n - ?m" for j
        using less.prems(2)[of "?m + j"] that by (simp add: add.assoc)
      show "pos + ?m * blk_size s0 + (n - ?m) * blk_size s0 \<le> length ?buf" unfolding fits lb by (rule less.prems(4))
    qed (use less.prems(3) length_blocks[OF m] in simp_all)
    moreover have "overwrite ?buf (pos + ?m * blk_size s0) (content view s0 v (12 + bpi s0 + (idx + ?m)) (n - ?m)) =
        overwrite buf pos (content view s0 v (12 + bpi s0 + idx) n)"
      using overwrite_append[of pos "content view s0 v (12 + bpi s0 + idx) ?m" "content view s0 v (12 + bpi s0 + idx + ?m) (n - ?m)" buf]
        less.prems(4) unfolding lc fits by (simp add: content_split[OF nm(2)] add.assoc)
    moreover have "level2_outer RW_READ v (bpi s0) k idx n pos I ind2 buf s =
        level2_outer RW_READ v (bpi s0) k (idx + ?m) (n - ?m) (pos + ?m * blk_size s0) I (blocks view s0 (unat ?b)) ?buf u"
      using False lt q(1) t less.prems(3) u same_simps(4)[OF t(2)] same_simps(4)[OF u(2)]
      by (subst level2_outer.simps) (simp add: not_less[symmetric] ss Let_def ci)
    ultimately show ?thesis unfolding fits by simp
  qed
qed

text \<open>A file whose first \<open>N\<close> blocks are there.\<close>

definition file_ok :: "nat \<Rightarrow> ('w \<Rightarrow> int \<Rightarrow> u8 list) \<Rightarrow> 'w ext2 \<Rightarrow> vnode \<Rightarrow> nat \<Rightarrow> bool" where
  "file_ok nb view s v N \<longleftrightarrow> mounted nb view s \<and> vblock_size v = int (blk_size s) \<and> N < 2 ^ 31 \<and> unat (iblk s v 13) < nb \<and>
     (\<forall>k < N. mapped nb view s v k)"

lemma blk_pos: "mounted nb view s \<Longrightarrow> 0 < blk_size s"
  using mounted_simps(2,3)[of nb view s] by (simp add: SECTOR_def)

lemma blocks_done_mult: "mounted nb view s \<Longrightarrow> vblock_size v = int (blk_size s) \<Longrightarrow> blocks_done v (n * blk_size s) = Some (int n)"
  using blk_pos[of nb view s] by (simp add: blocks_done_def)

lemma level2_read:
  assumes m: "mounted nb view s0" and s: "same view s0 s" and p: "\<And>j. j < n \<Longrightarrow> mapped nb view s0 v (12 + bpi s0 + k + j)"
    and l: "pos + n * blk_size s0 \<le> length buf" "length ind = blk_size s0" and i: "unat (iblk s0 v 13) < nb"
    and d: "blocks_done v (pos + n * blk_size s0) = Some r"
  shows "\<exists>t. level2 RW_READ v (bpi s0) n k pos ind buf s = Some (r, overwrite buf pos (content view s0 v (12 + bpi s0 + k) n), t) \<and> same view s0 t"
proof (cases "iblk s0 v 13 < 2")
  case True
  have "n = 0"
  proof (rule ccontr)
    assume "n \<noteq> 0"
    then show False using mapped_index(2)[OF p[of 0]] True by (simp add: not_less[symmetric])
  qed
  then show ?thesis using True d s same_simps(5)[OF s]
    by (auto simp: level2_def load_index_def content_simps overwrite_Nil)
next
  case False
  let ?I = "blocks view s0 (unat (iblk s0 v 13))"
  note ss = same_simps[OF s]
  obtain t where t: "load_index RW_READ v 13 pos ind s = Some (Inr ?I, t)" "same view s0 t"
    using load_index_read[of nb view s v 13 ind pos] m i l(2) False same_trans[OF s] by (auto simp: ss)
  obtain u where u: "level2_outer RW_READ v (bpi s0) k k n pos ?I (kalloc s0 (blk_size s0)) buf t =
      Some (Inr (0, pos + n * blk_size s0), ?I, overwrite buf pos (content view s0 v (12 + bpi s0 + k) n), u)" "same view s0 u"
    using level2_outer_read[OF m t(2) p order_refl l(1), of "kalloc s0 (blk_size s0)"] by auto
  then show ?thesis using t(1) d by (simp add: level2_def store_index_def ss)
qed

lemma inode_rw_content_read:
  assumes f: "file_ok nb view s v (start + n)" and l: "n * blk_size s \<le> length buf"
  shows "\<exists>t. inode_rw_content s v buf n start RW_READ = Some (int n, overwrite buf 0 (content view s v start n), t) \<and> same view s t"
proof -
  have m: "mounted nb view s" and vb: "vblock_size v = int (blk_size s)" and i13: "unat (iblk s v 13) < nb"
    and p: "\<And>j. j < n \<Longrightarrow> mapped nb view s v (start + j)" and st: "start + n < 2 ^ 31"
    using f by (simp_all add: file_ok_def)
  define a where "a = min n (12 - start)"
  define n1 where "n1 = n - a"
  define k where "k = start + a - 12"
  define b where "b = min n1 (bpi s - k)"
  have an: "a \<le> n" "b \<le> n1" by (simp_all add: a_def b_def)
  let ?bs = "blk_size s"
  have lc: "length (content view s v x y) = y * ?bs" for x y by (rule length_content[OF m])
  have sum: "x * ?bs + (y - x) * ?bs = y * ?bs" if "x \<le> y" for x y using that by (simp add: add_mult_distrib[symmetric])
  have le: "x * ?bs \<le> length buf" if "x \<le> n" for x using that l by (meson le_trans mult_le_mono1)
  obtain t1 where t1: "direct_loop RW_READ v n start 0 buf s = Some (Inr (n1, start + a, a * ?bs), overwrite buf 0 (content view s v start a), t1)"
    "same view s t1" using direct_loop_read[OF m _ l, of start v] p unfolding a_def n1_def by auto
  note s1 = same_simps[OF t1(2)]
  let ?buf1 = "overwrite buf 0 (content view s v start a)"
  have lb1: "length ?buf1 = length buf" using le[OF an(1)] by (intro overwrite_simps(1)) (simp add: lc)
  show ?thesis
  proof (cases "n1 = 0")
    case True
    then have "a = n" using an(1) by (simp add: n1_def)
    then show ?thesis using t1 True st blocks_done_mult[OF m vb, of n] by (auto simp: inode_rw_content_def)
  next
    case False
    then have k: "start + a = 12 + k" by (simp add: k_def n1_def a_def)
    let ?x = "a + b" and ?n2 = "n1 - b"
    have xn: "?x \<le> n" "?n2 = n - ?x" using an by (simp_all add: n1_def)
    have fit1: "a * ?bs + n1 * ?bs \<le> length ?buf1" unfolding lb1 using sum[OF an(1)] l by (simp add: n1_def)
    have p1: "mapped nb view s v (12 + k + j)" if "j < n1" for j using p[of "a + j"] that unfolding k[symmetric] by (simp add: add.assoc n1_def)
    obtain t2 ind where t2: "level1 RW_READ v (bpi s) n1 (int k) (a * ?bs) (kalloc s ?bs) ?buf1 t1 =
        Some (Inr (?n2, int (k + b), a * ?bs + b * ?bs, ind), overwrite ?buf1 (a * ?bs) (content view s v (12 + k) b), t2)"
      "same view t1 t2" "length ind = ?bs"
      using level1_read[of nb view t1 n1 v k "a * ?bs" ?buf1 "kalloc s ?bs"] m False p1 fit1 unfolding s1 b_def by auto
    have s2: "same view s t2" using same_trans[OF t1(2) t2(2)] .
    let ?buf2 = "overwrite buf 0 (content view s v start ?x)"
    have "a * ?bs + b * ?bs = ?x * ?bs" by (simp add: add_mult_distrib)
    then have buf2: "overwrite ?buf1 (a * ?bs) (content view s v (12 + k) b) = ?buf2"
      using overwrite_append[of 0 "content view s v start a" "content view s v (start + a) b" buf] le[OF xn(1)]
      by (simp add: lc content_simps(3) k)
    have lb2: "length ?buf2 = length buf" using le[OF xn(1)] by (intro overwrite_simps(1)) (simp only: lc)
    let ?K = "int (k + b) - int (bpi s)"
    have call: "inode_rw_content s v buf n start RW_READ =
        (if 0 \<le> ?K \<and> ?K < int (bpi s * bpi s) then level2 RW_READ v (bpi s) ?n2 (nat ?K) (?x * ?bs) ind ?buf2 t2
         else do { c \<leftarrow> blocks_done v (?x * ?bs); Some (c, ?buf2, t2) })"
    proof -
      have "int (start + a) - 12 = int k" using k by linarith
      then show ?thesis using t1(1) t2(1) False st \<open>a * ?bs + b * ?bs = ?x * ?bs\<close>
        unfolding inode_rw_content_def buf2 Let_def by (simp add: s1 del: of_nat_add of_nat_diff of_nat_min)
    qed
    have rest: "?x * ?bs + ?n2 * ?bs = n * ?bs" using sum[OF xn(1)] xn(2) by simp
    show ?thesis
    proof (cases "0 \<le> ?K \<and> ?K < int (bpi s * bpi s)")
      case True
      have K: "start + ?x = 12 + bpi s + nat ?K" using True k by linarith
      have p2: "mapped nb view s v (12 + bpi s + nat ?K + j)" if "j < ?n2" for j
        using p[of "?x + j"] that xn unfolding K[symmetric] by (simp add: add.assoc)
      have f: "?x * ?bs + ?n2 * ?bs \<le> length ?buf2" "blocks_done v (?x * ?bs + ?n2 * ?bs) = Some (int n)"
        unfolding rest lb2 using l blocks_done_mult[OF m vb] by simp_all
      obtain t where "level2 RW_READ v (bpi s) ?n2 (nat ?K) (?x * ?bs) ind ?buf2 t2 =
          Some (int n, overwrite ?buf2 (?x * ?bs) (content view s v (12 + bpi s + nat ?K) ?n2), t)" "same view s t"
        using level2_read[OF m s2 p2 f(1) t2(3) i13 f(2)] by blast
      moreover have "overwrite ?buf2 (?x * ?bs) (content view s v (12 + bpi s + nat ?K) ?n2) = overwrite buf 0 (content view s v start n)"
        using overwrite_append[of 0 "content view s v start ?x" "content view s v (start + ?x) ?n2" buf] l rest
        unfolding lc K[symmetric] xn(2) by (simp add: content_split[OF xn(1)])
      ultimately show ?thesis using call True by auto
    next
      case False
      have "?n2 = 0"
      proof (rule ccontr)
        assume n2: "?n2 \<noteq> 0"
        then have "bpi s \<le> k + b" by (simp add: b_def)
        moreover have "mapped nb view s v (12 + (k + b))" using p[of ?x] n2 xn k by (simp add: add.assoc[symmetric])
        ultimately have "bpi s \<le> k + b" "k + b < bpi s + bpi s * bpi s" by (simp_all add: mapped_def)
        then have "0 \<le> ?K" "int (k + b) < int (bpi s) + int (bpi s * bpi s)" by (simp, metis of_nat_add of_nat_less_iff)
        then show False using False by linarith
      qed
      then have "?x = n" using xn by simp
      then show ?thesis using call[unfolded if_not_P[OF False]] s2 blocks_done_mult[OF m vb, of n] by auto
    qed
  qed
qed

end
