(* ===== verification/Ext2Read.thy ===== *)
theory Ext2Read
  imports Ext2Content
begin

text \<open>
  Reading ext2 files: the three parts of \<^verbatim>\<open>ext2_read\<close>, and that together they return the bytes of the file.
\<close>

lemma file_ok_mono: "file_ok nb view s v N \<Longrightarrow> M \<le> N \<Longrightarrow> file_ok nb view s v M"
  by (auto simp: file_ok_def)

lemma file_ok_same: "same view s t \<Longrightarrow> file_ok nb view t v N = file_ok nb view s v N"
  by (simp add: file_ok_def same_simps)

lemma content_slice:
  assumes "mounted nb view s" and "k + n \<le> N"
  shows "content view s v k n = take (n * blk_size s) (drop (k * blk_size s) (content view s v 0 N))"
proof -
  have "content view s v 0 N = content view s v 0 k @ content view s v k n @ content view s v (k + n) (N - k - n)"
    using content_split[of k N view s v 0] content_split[of n "N - k" view s v k] assms(2) by simp
  then show ?thesis by (simp add: length_content[OF assms(1)])
qed

text \<open>The number of blocks of a file of \<open>sz\<close> bytes.\<close>

definition nblocks :: "nat \<Rightarrow> nat \<Rightarrow> nat" where
  "nblocks bs sz = (sz + bs - 1) div bs"

lemma nblocks_less: "0 < bs \<Longrightarrow> k * bs < sz \<Longrightarrow> k < nblocks bs sz"
proof -
  assume b: "0 < bs" and k: "k * bs < sz"
  have "(k * bs + bs) div bs \<le> (sz + bs - 1) div bs" using k by (intro div_le_mono) linarith
  then show ?thesis using b by (simp add: nblocks_def)
qed

lemma nblocks_le: "0 < bs \<Longrightarrow> k * bs \<le> sz \<Longrightarrow> k \<le> nblocks bs sz"
  using nblocks_less[of bs "k - 1" sz] by (cases k) auto

lemma part_read:
  assumes f: "file_ok nb view s v N" and "same view s t" and "k + n \<le> N" and "n * blk_size s \<le> length buf"
  shows "\<exists>u. inode_rw_content t v buf n k RW_READ =
    Some (int n, overwrite buf 0 (take (n * blk_size s) (drop (k * blk_size s) (content view s v 0 N))), u) \<and> same view s u"
proof -
  have "file_ok nb view t v (k + n)" using file_ok_mono[OF f assms(3)] file_ok_same[OF assms(2)] by simp
  then obtain u where "inode_rw_content t v buf n k RW_READ = Some (int n, overwrite buf 0 (content view t v k n), u)" "same view t u"
    using inode_rw_content_read[of nb view t v k n buf] assms(4) same_simps(3)[OF assms(2)] by auto
  then show ?thesis using content_slice[of nb view s k n N v] f assms(3) same_simps(9)[OF assms(2)] same_trans[OF assms(2)]
    by (auto simp: file_ok_def)
qed

lemma read_head_correct:
  assumes f: "file_ok nb view s v N" and o: "offset mod blk_size s = 0 \<or> offset div blk_size s < N" and l: "n \<le> length ubuf"
  defines "h \<equiv> offset mod blk_size s" and "C \<equiv> content view s v 0 N"
  shows "\<exists>tmpbuf p k t. read_head s v ubuf n offset = Some (0, tmpbuf, overwrite ubuf 0 (take p (drop offset C)), p, k, t) \<and>
    same view s t \<and> length tmpbuf = blk_size s \<and> p \<le> n \<and> (p < n \<longrightarrow> offset + p = k * blk_size s)"
proof (cases "h = 0")
  case True
  have "read_head s v ubuf n offset = Some (0, kalloc s (blk_size s), overwrite ubuf 0 (take 0 (drop offset C)), 0, offset div blk_size s, s)"
    using True f by (simp add: read_head_def file_ok_def h_def overwrite_Nil Let_def)
  moreover have "offset + 0 = offset div blk_size s * blk_size s" using True div_mult_mod_eq[of offset "blk_size s"] by (simp add: h_def)
  ultimately show ?thesis by (metis length_kalloc le0 same_refl)
next
  case False
  let ?bs = "blk_size s" and ?k = "offset div blk_size s" and ?p = "min (blk_size s - h) n"
  have m: "mounted nb view s" and vb: "nat (vblock_size v) = ?bs" using f by (simp_all add: file_ok_def)
  have hb: "h < ?bs" using blk_pos[OF m] by (simp add: h_def)
  have e: "offset = ?k * ?bs + h" using div_mult_mod_eq[of offset ?bs] by (simp add: h_def)
  let ?B = "take ?bs (drop (?k * ?bs) C)"
  have lB: "length ?B = ?bs"
  proof -
    have "(?k + 1) * ?bs \<le> N * ?bs" using o False by (intro mult_le_mono1) (simp add: h_def)
    then show ?thesis by (simp add: C_def length_content[OF m])
  qed
  obtain t where t: "inode_rw_content s v (kalloc s ?bs) 1 ?k RW_READ = Some (1, ?B, t)" "same view s t"
    using part_read[OF f same_refl, of ?k 1 "kalloc s ?bs"] o False lB by (auto simp: C_def[symmetric] h_def overwrite_def)
  have "drop h ?B = take (?bs - h) (drop offset C)" by (subst (2) e) (simp add: drop_take add.commute)
  then have "take ?p (drop h ?B) = take ?p (drop offset C)" by simp
  then have "read_head s v ubuf n offset = Some (0, ?B, overwrite ubuf 0 (take ?p (drop offset C)), ?p, ?k + 1, t)"
    using False t(1) unfolding read_head_def vb by (simp add: Let_def h_def[symmetric])
  moreover have "offset + ?p = (?k + 1) * ?bs" if "?p < n" using that e hb by (simp add: min_def split: if_splits)
  ultimately show ?thesis using t(2) lB by auto
qed

lemma read_whole_correct:
  assumes f: "file_ok nb view s v N" and t: "same view s t" and p: "p \<le> n" "p < n \<longrightarrow> offset + p = k * blk_size s"
    and nz: "offset + n \<le> N * blk_size s" and l: "n \<le> length ubuf"
  defines "C \<equiv> content view s v 0 N"
  shows "\<exists>q k' u. read_whole t v (overwrite ubuf 0 (take p (drop offset C))) n p k =
      Some (0, overwrite ubuf 0 (take q (drop offset C)), q, k', u) \<and> same view s u \<and> q \<le> n \<and> n - q < blk_size s \<and>
      (q < n \<longrightarrow> offset + q = k' * blk_size s)"
proof -
  let ?bs = "blk_size s" and ?n = "(n - p) div blk_size s"
  have m: "mounted nb view s" and vb: "nat (vblock_size v) = ?bs" using f by (simp_all add: file_ok_def)
  have bs: "0 < ?bs" by (rule blk_pos[OF m])
  have lC: "length C = N * ?bs" by (simp add: C_def length_content[OF m])
  show ?thesis
  proof (cases "?n = 0")
    case True
    then have "n - p < ?bs" using bs by (simp add: div_eq_0_iff)
    then show ?thesis using True p t by (auto simp: read_whole_def vb)
  next
    case False
    then have pn: "p < n" by (cases "p < n") auto
    then have k: "offset + p = k * ?bs" using p(2) by simp
    have nn: "?n * ?bs \<le> n - p" by simp
    let ?u = "overwrite ubuf 0 (take p (drop offset C))" and ?q = "p + ?n * ?bs"
    have lt: "length (take p (drop offset C)) = p" using nz pn by (simp add: lC)
    have lu: "length ?u = length ubuf" "take p ?u = take p (drop offset C)" "drop p ?u = drop p ubuf"
      using l pn lt by (simp_all add: overwrite_def)
    have kN: "k + ?n \<le> N"
    proof -
      have "(k + ?n) * ?bs \<le> N * ?bs" using k nn nz pn by (simp only: add_mult_distrib)
      then show ?thesis using bs by simp
    qed
    have sl: "take (?n * ?bs) (drop (k * ?bs) C) = take (?n * ?bs) (drop p (drop offset C))" by (simp add: k[symmetric] add.commute)
    have ls: "length (take (?n * ?bs) (drop (k * ?bs) C)) = ?n * ?bs"
      using mult_le_mono1[OF kN, of ?bs] by (simp add: lC add_mult_distrib)
    obtain u where u: "inode_rw_content t v (drop p ?u) ?n k RW_READ =
        Some (int ?n, overwrite (drop p ubuf) 0 (take (?n * ?bs) (drop (k * ?bs) C)), u)" "same view s u"
    proof -
      have "?n * ?bs \<le> length (drop p ?u)" unfolding length_drop lu(1) using nn l by linarith
      then show ?thesis using part_read[OF f t kN, of "drop p ?u"] that by (auto simp: lu C_def[symmetric])
    qed
    have "take p ?u @ overwrite (drop p ubuf) 0 (take (?n * ?bs) (drop (k * ?bs) C)) = overwrite ubuf 0 (take ?q (drop offset C))"
      using lt ls by (simp add: lu overwrite_def sl take_add add.commute)
    then have "read_whole t v ?u n p k = Some (0, overwrite ubuf 0 (take ?q (drop offset C)), ?q, k + ?n, u)"
      using u(1) False by (simp add: read_whole_def vb Let_def)
    moreover have "n - ?q < ?bs" using mod_less_divisor[OF bs, of "n - p"] by (simp add: minus_div_mult_eq_mod[symmetric])
    moreover have "offset + ?q = (k + ?n) * ?bs" using k by (simp add: add_mult_distrib)
    moreover have "?q \<le> n" using nn pn by linarith
    ultimately show ?thesis using u(2) by blast
  qed
qed

lemma le_nblocks: "0 < bs \<Longrightarrow> sz \<le> nblocks bs sz * bs"
  using div_mult_mod_eq[of "sz + bs - 1" bs] mod_less_divisor[of bs "sz + bs - 1"] unfolding nblocks_def by linarith

lemma ext2_read_bytes:
  fixes s :: "'w ext2" and v :: vnode
  defines "bs \<equiv> blk_size s" and "z \<equiv> nat (vsize v)"
  assumes f: "file_ok nb view s v (nblocks bs z)" and sz: "0 \<le> vsize v" and u: "min len (z - offset) \<le> length ubuf"
  shows "\<exists>t. ext2_read s v ubuf len offset =
    Some (int (min len (z - offset)), overwrite ubuf 0 (take (min len (z - offset)) (drop offset (content view s v 0 (nblocks bs z)))), t) \<and>
    same view s t"
proof -
  define n where "n = min len (z - offset)"
  let ?C = "content view s v 0 (nblocks bs z)"
  have m: "mounted nb view s" and vb: "vblock_size v = int bs" using f by (simp_all add: file_ok_def bs_def)
  have bs: "0 < bs" using blk_pos[OF m] by (simp add: bs_def)
  show ?thesis
  proof (cases "z < offset")
    case True
    then have "vsize v < int offset" using sz by (simp add: z_def)
    then show ?thesis using True bs by (intro exI[of _ s]) (simp add: ext2_read_def vb overwrite_Nil)
  next
    case False
    have len: "(if int (offset + len) \<ge> vsize v then nat (vsize v) - offset else len) = n"
      using sz False by (auto simp: n_def z_def)
    have no: "\<not> (int (offset + len) \<ge> vsize v \<and> vsize v < int offset)" using False sz by (simp add: z_def nat_less_iff)
    have nz: "offset + n \<le> nblocks bs z * bs" using le_nblocks[OF bs, of z] False unfolding n_def by linarith
    have o: "offset mod bs = 0 \<or> offset div bs < nblocks bs z"
      using nblocks_less[OF bs, of "offset div bs" z] False div_mult_mod_eq[of offset bs] by linarith
    have un: "n \<le> length ubuf" using u by (simp add: n_def)
    from read_head_correct[OF f[unfolded bs_def] o[unfolded bs_def] un] obtain tmpbuf p k t where h: "read_head s v ubuf n offset = Some (0, tmpbuf, overwrite ubuf 0 (take p (drop offset ?C)), p, k, t)"
      "same view s t" "length tmpbuf = bs" "p \<le> n" "p < n \<longrightarrow> offset + p = k * bs"
      unfolding bs_def by blast
    from read_whole_correct[OF f[unfolded bs_def] h(2,4) h(5)[unfolded bs_def] nz[unfolded bs_def] un] obtain q k' t' where w: "read_whole t v (overwrite ubuf 0 (take p (drop offset ?C))) n p k =
        Some (0, overwrite ubuf 0 (take q (drop offset ?C)), q, k', t')" "same view s t'" "q \<le> n" "n - q < bs" "q < n \<longrightarrow> offset + q = k' * bs"
      unfolding bs_def by blast
    have call: "ext2_read s v ubuf len offset =
        (if n - q = 0 then Some (int n, overwrite ubuf 0 (take q (drop offset ?C)), t')
         else do { (err, tmpbuf, s) \<leftarrow> inode_rw_content t' v tmpbuf 1 k' RW_READ;
                   if err < 0 then Some (err, overwrite ubuf 0 (take q (drop offset ?C)), s)
                   else Some (int n, overwrite (overwrite ubuf 0 (take q (drop offset ?C))) q (take (n - q) tmpbuf), s) })"
      using bs un unfolding ext2_read_def if_not_P[OF no] len by (simp add: vb Let_def h(1) w(1))
    show ?thesis
    proof (cases "n - q = 0")
      case True
      then show ?thesis using call w(2,3) unfolding n_def[symmetric] by auto
    next
      case False
      then have q: "q < n" "offset + q = k' * bs" using w(5) by auto
      have "k' * bs < z" using q \<open>\<not> z < offset\<close> unfolding n_def by linarith
      then have kN: "k' + 1 \<le> nblocks bs z" using nblocks_less[OF bs] by (simp add: Suc_le_eq)
      let ?B = "take bs (drop (k' * bs) ?C)"
      have lB: "length ?B = bs" using mult_le_mono1[OF kN, of bs] by (simp add: length_content[OF m] bs_def)
      obtain t'' where "inode_rw_content t' v tmpbuf 1 k' RW_READ = Some (1, ?B, t'')" "same view s t''"
        using part_read[OF f w(2) kN, of tmpbuf] h(3) lB by (auto simp: bs_def overwrite_def)
      moreover have "overwrite (overwrite ubuf 0 (take q (drop offset ?C))) q (take (n - q) ?B) = overwrite ubuf 0 (take n (drop offset ?C))"
      proof -
        have l: "length (take q (drop offset ?C)) = q" using nz q(1) by (simp add: length_content[OF m] bs_def)
        have "take (n - q) ?B = take (n - q) (drop q (drop offset ?C))" using w(4) by (simp add: q(2)[symmetric] add.commute)
        moreover have "take n (drop offset ?C) = take q (drop offset ?C) @ take (n - q) (drop q (drop offset ?C))"
          using q(1) by (metis le_add_diff_inverse less_imp_le_nat take_add)
        moreover have "length (take (n - q) ?B) = n - q" using w(4) lB by simp
        ultimately show ?thesis using overwrite_append[of 0 "take q (drop offset ?C)" "take (n - q) ?B" ubuf] l q(1) u unfolding n_def[symmetric] by simp
      qed
      ultimately show ?thesis using call False unfolding n_def[symmetric] by auto
    qed
  qed
qed

text \<open>C13. Reading a file. For a file without holes, of any size up to the end of its doubly indirect blocks, and any position: the
  read returns the number of bytes asked for that lie in the file, and the caller's buffer holds exactly these bytes of
  the file, in order, through direct, indirect and doubly indirect blocks, with the rest of the buffer untouched and nothing
  on the device changed.\<close>

theorem ext2_read_correct:
  fixes s :: "'w ext2" and v :: vnode
  defines "bs \<equiv> blk_size s" and "z \<equiv> nat (vsize v)"
  assumes f: "file_ok nb view s v (nblocks bs z)" and sz: "0 \<le> vsize v" and u: "min len (z - offset) \<le> length ubuf"
  shows "\<exists>t. ext2_read s v ubuf len offset =
    Some (int (min len (z - offset)), overwrite ubuf 0 (take (min len (z - offset)) (drop offset (content view s v 0 (nblocks bs z)))), t) \<and>
    same view s t"
  using ext2_read_bytes[of nb view s v len offset ubuf] assms by simp

text \<open>A file of one block, block 9 of the small file system.\<close>

definition small_file_fs :: "(int \<Rightarrow> u8 list) ext2" where
  "small_file_fs = small_fs\<lparr>incore := (\<lambda>_. put32 (replicate 128 0) 40 9), disk := (\<lambda>k. if k = 18 then [1, 2, 3, 4, 5] else [])\<rparr>"

definition small_file :: vnode where
  "small_file = \<lparr>ino = 2, vmode = S_IFREG, vnlink = 1, vsize = 5, vuid = 0, vgid = 0, vdev = RAM_DEV, vblocks = 2, vblock_size = 1024,
     vrdev = 0, vmp = 0, vfsmountedhere = None, vdata = 0, refcount = 1\<rparr>"

lemma get32_replicate: "k + 3 < n \<Longrightarrow> get32 (replicate n 0) k = 0"
  by (simp add: get32_def get16_def)

lemma small_file_facts:
  "mounted 16 ram_view small_file_fs" "blk_size small_file_fs = 1024" "iblk small_file_fs small_file 0 = 9" "iblk small_file_fs small_file 13 = 0"
  "vsize small_file = 5" "vblock_size small_file = 1024" "take 5 (blocks ram_view small_file_fs 9) = [1, 2, 3, 4, 5]"
proof -
  show "mounted 16 ram_view small_file_fs" using small_fs_mounted by (simp add: small_file_fs_def mounted_def)
  show "take 5 (blocks ram_view small_file_fs 9) = [1, 2, 3, 4, 5]"
    by (simp add: blocks_def small_file_fs_def small_fs_def numeral_2_eq_2 ram_view_def SECTOR_def)
qed (simp_all add: small_file_fs_def small_fs_def small_file_def i_block_def bytes_simps get32_replicate)

lemma small_file_ok: "file_ok 16 ram_view small_file_fs small_file 1"
  using small_file_facts by (simp add: file_ok_def mapped_def fblk_def)

theorem ext2_read_correct_witness:
  "\<exists>t. ext2_read small_file_fs small_file [0, 0, 0, 0] 3 1 = Some (3, [2, 3, 4, 0], t)"
proof -
  note f = small_file_facts
  have N: "nblocks (blk_size small_file_fs) (nat (vsize small_file)) = 1" by (simp add: f nblocks_def)
  let ?B = "blocks ram_view small_file_fs 9"
  have "take 3 (drop 1 ?B) = drop 1 (take 4 (take 5 ?B))" by (simp add: drop_take)
  then have "take 3 (drop 1 ?B) = [2, 3, 4]" unfolding f(7) by simp
  moreover have "content ram_view small_file_fs small_file 0 1 = ?B" by (simp add: content_def fblk_def f)
  ultimately show ?thesis
    using ext2_read_correct[of 16 ram_view small_file_fs small_file 3 1 "[0, 0, 0, 0]"] small_file_ok
    unfolding N by (auto simp: f overwrite_def)
qed

end
