(* ===== verification/Ext2Write.thy ===== *)
theory Ext2Write
  imports Ext2Read
begin

text \<open>
  Writing ext2 files whose direct blocks are there already: what \<^verbatim>\<open>inode_rw_content\<close> and \<^verbatim>\<open>ext2_write\<close> do to the contents of
  the file and to the rest of the device.
\<close>

section \<open>Direct blocks\<close>

text \<open>A file whose first \<open>N\<close> blocks are direct blocks, all different.\<close>

definition direct_file :: "nat \<Rightarrow> ('w \<Rightarrow> int \<Rightarrow> u8 list) \<Rightarrow> 'w ext2 \<Rightarrow> vnode \<Rightarrow> nat \<Rightarrow> bool" where
  "direct_file nb view s v N \<longleftrightarrow> file_ok nb view s v N \<and> N \<le> 12 \<and> inj_on (\<lambda>k. unat (iblk s v k)) {..<N}"

abbreviation data_blocks :: "'w ext2 \<Rightarrow> vnode \<Rightarrow> nat \<Rightarrow> nat set" where
  "data_blocks s v N \<equiv> (\<lambda>k. unat (iblk s v k)) ` {..<N}"

text \<open>Only the disk has changed, and on it no block but the data blocks of the file.\<close>

definition data_changed :: "('w \<Rightarrow> int \<Rightarrow> u8 list) \<Rightarrow> vnode \<Rightarrow> nat \<Rightarrow> 'w ext2 \<Rightarrow> 'w ext2 \<Rightarrow> bool" where
  "data_changed view v N s t \<longleftrightarrow> (\<exists>w. t = s\<lparr>disk := w\<rparr>) \<and> (\<forall>b. b \<notin> data_blocks s v N \<longrightarrow> blocks view t b = blocks view s b)"

lemma data_changed_refl [simp]: "data_changed view v N s s"
  unfolding data_changed_def by (simp add: exI[of _ "disk s"])

lemma data_changed_trans: "data_changed view v N s t \<Longrightarrow> data_changed view v N t u \<Longrightarrow> data_changed view v N s u"
  unfolding data_changed_def by auto

lemma same_data_changed: "same view s t \<Longrightarrow> data_changed view v N s t"
  using same_simps(1)[of view s t] by (auto simp: same_def data_changed_def)

lemma direct_fblk: "k < 12 \<Longrightarrow> fblk view s v k = iblk s v k"
  by (simp add: fblk_def)

lemma data_changed_simps:
  assumes "data_changed view v N s t"
  shows "incore t = incore s" "blk_size t = blk_size s" "spb t = spb s" "mounted nb view t = mounted nb view s" "kalloc t = kalloc s"
    "direct_file nb view t v N = direct_file nb view s v N"
proof -
  obtain w where w: "t = s\<lparr>disk := w\<rparr>" using assms by (auto simp: data_changed_def)
  show "incore t = incore s" "blk_size t = blk_size s" "spb t = spb s" "mounted nb view t = mounted nb view s" "kalloc t = kalloc s"
    by (simp_all add: w mounted_disk)
  show "direct_file nb view t v N = direct_file nb view s v N"
    by (auto simp: direct_file_def file_ok_def mapped_def direct_fblk w mounted_disk)
qed

lemma content_cong:
  "(\<And>j. j < n \<Longrightarrow> blocks view t (unat (fblk view t v (k + j))) = blocks view s (unat (fblk view s v (k + j)))) \<Longrightarrow>
     content view t v k n = content view s v k n"
  unfolding content_def by (intro arg_cong[where f = concat] map_cong) simp_all

lemma content_update:
  assumes f: "direct_file nb view s v N" and k: "k < N" and t: "t = s\<lparr>disk := w\<rparr>"
    and b: "blocks view t = (blocks view s)(unat (iblk s v k) := x)" and l: "length x = blk_size s"
  shows "content view t v 0 N = overwrite (content view s v 0 N) (k * blk_size s) x" "data_changed view v N s t"
proof -
  have m: "mounted nb view s" and N: "N \<le> 12" and inj: "inj_on (\<lambda>k. unat (iblk s v k)) {..<N}" using f by (auto simp: direct_file_def file_ok_def)
  have i: "fblk view t v j = iblk s v j" "fblk view s v j = iblk s v j" if "j < N" for j using that N t by (simp_all add: direct_fblk)
  have other: "blocks view t (unat (fblk view t v j)) = blocks view s (unat (fblk view s v j))" if "j < N" "j \<noteq> k" for j
    using that k inj_onD[OF inj, of j k] by (auto simp: b i)
  have e: "content view u v 0 N = content view u v 0 k @ blocks view u (unat (fblk view u v k)) @ content view u v (Suc k) (N - Suc k)" for u :: "'a ext2"
    using content_split[of k N view u v 0] content_simps(2)[of view u v k "N - Suc k"] k by (simp add: Suc_diff_Suc)
  have "content view t v 0 k = content view s v 0 k" "content view t v (Suc k) (N - Suc k) = content view s v (Suc k) (N - Suc k)"
    using k other by (auto intro!: content_cong)
  then show "content view t v 0 N = overwrite (content view s v 0 N) (k * blk_size s) x"
    using k l length_blocks[OF m] by (simp add: e overwrite_def length_content[OF m] b i)
  show "data_changed view v N s t" using k b unfolding data_changed_def t by auto
qed

lemma rw_block_write:
  assumes "mounted nb view s" and "unat b < nb" and "pos + blk_size s \<le> length buf"
  shows "\<exists>w. rw_block RW_WRITE s buf pos b = Some (int (spb s), buf, s\<lparr>disk := w\<rparr>) \<and>
    blocks view (s\<lparr>disk := w\<rparr>) = (blocks view s)(unat b := take (blk_size s) (drop pos buf))"
proof -
  have "blk_size s \<le> length (drop pos buf)" using assms(3) by simp
  from write_block[OF assms(1,2) this] show ?thesis by (auto simp: rw_block_def)
qed

lemma direct_loop_write:
  assumes "direct_file nb view s v N" and "k + n \<le> N" and "pos + n * blk_size s \<le> length buf"
  shows "\<exists>t. direct_loop RW_WRITE v n k pos buf s = Some (Inr (0, k + n, pos + n * blk_size s), buf, t) \<and> data_changed view v N s t \<and>
    content view t v 0 N = overwrite (content view s v 0 N) (k * blk_size s) (take (n * blk_size s) (drop pos buf))"
  using assms
proof (induction n arbitrary: k pos s)
  case 0
  then show ?case by (auto simp: overwrite_Nil)
next
  case (Suc n)
  let ?bs = "blk_size s" and ?b = "iblk s v k"
  have m: "mounted nb view s" and k: "k < N" "N \<le> 12" using Suc.prems by (auto simp: direct_file_def file_ok_def)
  have b: "2 \<le> ?b" "unat ?b < nb" using Suc.prems(1) k by (auto simp: direct_file_def file_ok_def mapped_def direct_fblk)
  obtain w where w: "rw_block RW_WRITE s buf pos ?b = Some (int (spb s), buf, s\<lparr>disk := w\<rparr>)"
    "blocks view (s\<lparr>disk := w\<rparr>) = (blocks view s)(unat ?b := take ?bs (drop pos buf))"
    using rw_block_write[OF m b(2), of pos buf] Suc.prems(3) by auto
  let ?t = "s\<lparr>disk := w\<rparr>"
  have lx: "length (take ?bs (drop pos buf)) = ?bs" using Suc.prems(3) by simp
  note c = content_update[OF Suc.prems(1) k(1) refl w(2) lx]
  obtain u where u: "direct_loop RW_WRITE v n (Suc k) (pos + ?bs) buf ?t = Some (Inr (0, Suc k + n, pos + ?bs + n * ?bs), buf, u)"
    "data_changed view v N ?t u" "content view u v 0 N = overwrite (content view ?t v 0 N) (Suc k * ?bs) (take (n * ?bs) (drop (pos + ?bs) buf))"
    using Suc.IH[of ?t "Suc k" "pos + ?bs"] Suc.prems data_changed_simps(6)[OF c(2)] by auto
  have "overwrite (content view ?t v 0 N) (Suc k * ?bs) (take (n * ?bs) (drop (pos + ?bs) buf)) =
      overwrite (content view s v 0 N) (k * ?bs) (take (Suc n * ?bs) (drop pos buf))"
  proof -
    have "(k + Suc n) * ?bs \<le> N * ?bs" using Suc.prems(2) by (rule mult_le_mono1)
    then have "k * ?bs + ?bs + n * ?bs \<le> length (content view s v 0 N)" by (simp add: length_content[OF m] add_mult_distrib)
    then show ?thesis
      using overwrite_append[of "k * ?bs" "take ?bs (drop pos buf)" "take (n * ?bs) (drop (pos + ?bs) buf)" "content view s v 0 N"] lx Suc.prems(3)
      by (simp add: c(1) take_add add.commute)
  qed
  moreover have "direct_loop RW_WRITE v (Suc n) k pos buf s = direct_loop RW_WRITE v n (Suc k) (pos + ?bs) buf ?t"
    using b k w(1) by (simp add: not_le[symmetric])
  ultimately show ?case using u data_changed_trans[OF c(2) u(2)] by (auto simp: add.assoc)
qed

lemma fill_direct_nothing: "(\<And>k. k \<in> set ks \<Longrightarrow> 2 \<le> iblk s v k) \<Longrightarrow> fill_direct v ks s = Some (0, s)"
  by (induction ks) (auto simp: not_le[symmetric])

lemma inode_rw_content_write:
  assumes f: "direct_file nb view s v N" and "k + n \<le> N" and "n * blk_size s \<le> length buf"
  shows "\<exists>t. inode_rw_content s v buf n k RW_WRITE = Some (int n, buf, t) \<and> data_changed view v N s t \<and>
    content view t v 0 N = overwrite (content view s v 0 N) (k * blk_size s) (take (n * blk_size s) buf)"
proof -
  have fo: "mounted nb view s" "vblock_size v = int (blk_size s)" "N < 2 ^ 31" "N \<le> 12" using f by (auto simp: direct_file_def file_ok_def)
  have "2 \<le> iblk s v j" if "j < N" for j using f that by (auto simp: direct_file_def file_ok_def mapped_def direct_fblk)
  then have "fill_direct v [0..<min k 12] s = Some (0, s)" using assms(2) by (intro fill_direct_nothing) auto
  then show ?thesis
    using direct_loop_write[OF f assms(2), of 0 buf] assms(2,3) fo blocks_done_mult[OF fo(1,2), of n]
    by (auto simp: inode_rw_content_def Let_def)
qed

section \<open>Parts of a write\<close>

lemma overwrite_inside:
  assumes "p + n \<le> length C" and "at + length x \<le> n"
  shows "overwrite C p (overwrite (take n (drop p C)) at x) = overwrite C (p + at) x"
proof (rule nth_equalityI)
  let ?B = "take n (drop p C)"
  have lB: "length ?B = n" using assms(1) by simp
  have l: "length (overwrite ?B at x) = n" using assms(2) lB by (simp add: overwrite_simps)
  show len: "length (overwrite C p (overwrite ?B at x)) = length (overwrite C (p + at) x)"
    using assms l by (simp add: overwrite_simps)
  fix i assume "i < length (overwrite C p (overwrite ?B at x))"
  then have i: "i < length C" using assms(1) l by (simp add: overwrite_simps)
  show "overwrite C p (overwrite ?B at x) ! i = overwrite C (p + at) x ! i"
    using assms l i lB by (auto simp: overwrite_simps)
qed

lemma patch_block_correct:
  assumes f: "direct_file nb view s v N" and k: "k < N" and a: "at + length x \<le> blk_size s" and l: "length tmpbuf = blk_size s"
  shows "\<exists>b t. patch_block s v tmpbuf k at x = Some (1, b, t) \<and> length b = blk_size s \<and> data_changed view v N s t \<and>
    content view t v 0 N = overwrite (content view s v 0 N) (k * blk_size s + at) x"
proof -
  let ?bs = "blk_size s" and ?C = "content view s v 0 N"
  have fo: "file_ok nb view s v N" and m: "mounted nb view s" using f by (simp_all add: direct_file_def file_ok_def)
  have kN: "k + 1 \<le> N" "k * ?bs + ?bs \<le> length ?C"
    using k mult_le_mono1[of "k + 1" N ?bs] by (simp_all add: length_content[OF m])
  let ?B = "take ?bs (drop (k * ?bs) ?C)"
  have lB: "length ?B = ?bs" using kN(2) by simp
  obtain t where t: "inode_rw_content s v tmpbuf 1 k RW_READ = Some (1, ?B, t)" "same view s t"
    using part_read[OF fo same_refl kN(1), of tmpbuf] l lB by (auto simp: overwrite_def)
  have dt: "data_changed view v N s t" by (rule same_data_changed[OF t(2)])
  have lo: "length (overwrite ?B at x) = ?bs" using a lB by (simp add: overwrite_simps)
  obtain u where u: "inode_rw_content t v (overwrite ?B at x) 1 k RW_WRITE = Some (1, overwrite ?B at x, u)" "data_changed view v N t u"
    "content view u v 0 N = overwrite (content view t v 0 N) (k * ?bs) (overwrite ?B at x)"
    using inode_rw_content_write[of nb view t v N k 1 "overwrite ?B at x"] f kN(1) lo data_changed_simps[OF dt] by auto
  have "content view u v 0 N = overwrite ?C (k * ?bs + at) x"
    unfolding u(3) same_simps(9)[OF t(2)] by (rule overwrite_inside[OF kN(2) a])
  then show ?thesis using t(1) u(1) lo data_changed_trans[OF dt u(2)] by (auto simp: patch_block_def)
qed

lemma write_head_correct:
  assumes f: "direct_file nb view s v N" and z: "offset + length ubuf \<le> N * blk_size s" and ne: "0 < length ubuf"
  defines "p \<equiv> (if offset mod blk_size s = 0 then 0 else min (blk_size s - offset mod blk_size s) (length ubuf))"
  shows "\<exists>b k t. write_head s v ubuf offset = Some (0, b, p, k, t) \<and> length b = blk_size s \<and> data_changed view v N s t \<and>
    content view t v 0 N = overwrite (content view s v 0 N) offset (take p ubuf) \<and> (p < length ubuf \<longrightarrow> offset + p = k * blk_size s)"
proof -
  let ?bs = "blk_size s" and ?h = "offset mod blk_size s" and ?k = "offset div blk_size s"
  have m: "mounted nb view s" and vb: "nat (vblock_size v) = ?bs" using f by (simp_all add: direct_file_def file_ok_def)
  have bs: "0 < ?bs" by (rule blk_pos[OF m])
  have e: "offset = ?k * ?bs + ?h" "?h < ?bs" using div_mult_mod_eq[of offset ?bs] bs by simp_all
  show ?thesis
  proof (cases "?h = 0")
    case True
    then show ?thesis using e(1) by (auto simp: p_def write_head_def vb Let_def overwrite_Nil)
  next
    case False
    have k: "?k < N"
    proof -
      have "?k * ?bs < N * ?bs" using e z ne by linarith
      then show ?thesis by simp
    qed
    have a: "?h + length (take p ubuf) \<le> ?bs" using e(2) False by (simp add: p_def)
    obtain b t where t: "patch_block s v (kalloc s ?bs) ?k ?h (take p ubuf) = Some (1, b, t)" "length b = ?bs" "data_changed view v N s t"
      "content view t v 0 N = overwrite (content view s v 0 N) (?k * ?bs + ?h) (take p ubuf)"
      using patch_block_correct[OF f k a, of "kalloc s ?bs"] by auto
    have "write_head s v ubuf offset = Some (0, b, p, ?k + 1, t)" using False t(1) by (simp add: write_head_def vb Let_def p_def)
    moreover have "offset + p = (?k + 1) * ?bs" if "p < length ubuf"
    proof -
      have "p = ?bs - ?h" using that False by (simp add: p_def min_def split: if_splits)
      then show ?thesis using e by (simp only: add_mult_distrib)
    qed
    ultimately show ?thesis using t e(1) by auto
  qed
qed

lemma write_whole_correct:
  assumes f: "direct_file nb view s v N" and p: "p \<le> length ubuf" "p < length ubuf \<longrightarrow> offset + p = k * blk_size s"
    and z: "offset + length ubuf \<le> N * blk_size s"
  defines "n \<equiv> (length ubuf - p) div blk_size s"
  shows "\<exists>t. write_whole s v ubuf p k = Some (0, p + n * blk_size s, k, t) \<and> data_changed view v N s t \<and>
    content view t v 0 N = overwrite (content view s v 0 N) (offset + p) (take (n * blk_size s) (drop p ubuf))"
proof -
  let ?bs = "blk_size s"
  have m: "mounted nb view s" and vb: "nat (vblock_size v) = ?bs" using f by (simp_all add: direct_file_def file_ok_def)
  have bs: "0 < ?bs" by (rule blk_pos[OF m])
  show ?thesis
  proof (cases "n = 0")
    case True
    then show ?thesis by (auto simp: write_whole_def vb n_def overwrite_Nil Let_def intro!: exI[of _ s])
  next
    case False
    then have pn: "p < length ubuf" by (cases "p < length ubuf") (auto simp: n_def)
    then have k: "offset + p = k * ?bs" using p(2) by simp
    have nn: "n * ?bs \<le> length ubuf - p" by (simp add: n_def)
    have kN: "k + n \<le> N"
    proof -
      have "(k + n) * ?bs \<le> N * ?bs" using k nn z pn by (simp only: add_mult_distrib)
      then show ?thesis using bs by simp
    qed
    obtain t where t: "inode_rw_content s v (drop p ubuf) n k RW_WRITE = Some (int n, drop p ubuf, t)" "data_changed view v N s t"
      "content view t v 0 N = overwrite (content view s v 0 N) (k * ?bs) (take (n * ?bs) (drop p ubuf))"
      using inode_rw_content_write[OF f kN, of "drop p ubuf"] nn by auto
    have "length ubuf - (p + n * ?bs) < ?bs"
      using mod_less_divisor[OF bs, of "length ubuf - p"] unfolding n_def by (simp add: minus_div_mult_eq_mod[symmetric])
    then have "(length ubuf - (p + n * ?bs)) div ?bs = 0" by (simp add: div_eq_0_iff)
    then have "write_whole s v ubuf p k = Some (0, p + n * ?bs, k, t)"
      using t(1) False unfolding write_whole_def vb Let_def n_def[symmetric] by simp
    then show ?thesis using t(2,3) k by auto
  qed
qed

text \<open>Writing the i-node back leaves the contents of a file alone that does not share the block of the i-node.\<close>

lemma from_vnode_block: "length i = INODE_SIZE \<Longrightarrow> k < 15 \<Longrightarrow> i_block (from_vnode v i) k = i_block i k"
  by (simp add: i_block_def from_vnode_def bytes_simps)

lemma inode_write_content:
  assumes f: "direct_file nb view s v N" and i: "inodes_ok nb s" and v: "\<not> bad_inode_num s (of_nat (ino v))"
    and l: "length (incore s (vdata v)) = INODE_SIZE" and d: "inode_blk s (of_nat (ino v)) \<notin> data_blocks s v N"
    and v': "ino v' = ino v" "vdata v' = vdata v" "vblock_size v' = vblock_size v"
  shows "\<exists>t. inode_write s v' = Some (0, t) \<and> content view t v 0 N = content view s v 0 N \<and> direct_file nb view t v N \<and>
    inode_at view t (of_nat (ino v)) = from_vnode v' (incore s (vdata v))"
proof -
  let ?i = "from_vnode v' (incore s (vdata v))" and ?n = "of_nat (ino v) :: u32"
  let ?s = "s\<lparr>incore := (incore s)(vdata v := ?i)\<rparr>"
  have fo: "mounted nb view s" "N \<le> 12" using f by (auto simp: direct_file_def file_ok_def)
  have len: "length ?i = INODE_SIZE" using l by (simp add: from_vnode_def bytes_simps)
  have s': "mounted nb view ?s" "inodes_ok nb ?s" "\<not> bad_inode_num ?s ?n" "inode_blk ?s = inode_blk s" "inode_off ?s = inode_off s" "blocks view ?s = blocks view s"
    using fo i v by (simp_all add: mounted_def inodes_ok_def table_of_def table_blocks_def bad_inode_num_def fun_eq_iff inode_blk_def inode_off_def blocks_def)
  obtain w where w: "inode_do_write ?s ?i ?n = Some (0, ?s\<lparr>disk := w\<rparr>)" "blocks view (?s\<lparr>disk := w\<rparr>) =
      (blocks view ?s)(inode_blk ?s ?n := overwrite (blocks view ?s (inode_blk ?s ?n)) (inode_off ?s ?n) ?i)"
    using inode_do_write_blocks[OF s'(1-3) len] by blast
  let ?t = "?s\<lparr>disk := w\<rparr>"
  have ib: "iblk ?t v k = iblk s v k" if "k < 15" for k using that from_vnode_block[OF l, of k v'] by simp
  then have fb: "fblk view ?t v k = fblk view s v k" if "k < N" for k using that fo(2) by (simp add: direct_fblk)
  have bl: "blocks view ?t (unat (fblk view s v k)) = blocks view s (unat (fblk view s v k))" if "k < N" for k
  proof -
    have "unat (fblk view s v k) \<in> data_blocks s v N" using that fo(2) by (simp add: direct_fblk)
    then show ?thesis using d by (auto simp: w(2) s')
  qed
  have "content view ?t v 0 N = content view s v 0 N" by (intro content_cong) (simp add: fb bl)
  moreover have "direct_file nb view ?t v N"
  proof -
    have "mounted nb view ?t" using s'(1) by (simp add: mounted_disk)
    moreover have "mapped nb view ?t v k" if "k < N" for k
      using f that fo(2) by (auto simp: direct_file_def file_ok_def mapped_def fb)
    moreover have "iblk ?t v k = iblk s v k" if "k \<in> {..<N}" for k using that fo(2) by (intro ib) simp
    then have "inj_on (\<lambda>k. unat (iblk ?t v k)) {..<N} = inj_on (\<lambda>k. unat (iblk s v k)) {..<N}" by (intro inj_on_cong arg_cong[where f = unat])
    ultimately show ?thesis using f ib[of 13] by (auto simp: direct_file_def file_ok_def)
  qed
  moreover have "inode_at view ?t ?n = ?i" using inode_written[OF s'(1-3) len s'(3) w(2)] by simp
  ultimately show ?thesis using w(1) v' by (auto simp: inode_write_def)
qed

section \<open>Properties\<close>

text \<open>The bytes of a write that go into the first block when the write starts inside it, and the whole blocks after that.\<close>

definition head_bytes :: "nat \<Rightarrow> nat \<Rightarrow> nat \<Rightarrow> nat" where
  "head_bytes bs offset len = (if offset mod bs = 0 then 0 else min (bs - offset mod bs) len)"

definition whole_blocks :: "nat \<Rightarrow> nat \<Rightarrow> nat \<Rightarrow> nat" where
  "whole_blocks bs offset len = (len - head_bytes bs offset len) div bs"

definition writable_file :: "nat \<Rightarrow> ('w \<Rightarrow> int \<Rightarrow> u8 list) \<Rightarrow> 'w ext2 \<Rightarrow> vnode \<Rightarrow> nat \<Rightarrow> bool" where
  "writable_file nb view s v N \<longleftrightarrow> direct_file nb view s v N \<and> inodes_ok nb s \<and> \<not> bad_inode_num s (of_nat (ino v)) \<and>
     length (incore s (vdata v)) = INODE_SIZE \<and> inode_blk s (of_nat (ino v)) \<notin> data_blocks s v N"

lemma ext2_write_data:
  assumes f: "direct_file nb view s v N" and z: "offset + length ubuf \<le> N * blk_size s" and ne: "0 < length ubuf"
  defines "bs \<equiv> blk_size s" and "p \<equiv> head_bytes (blk_size s) offset (length ubuf)"
    and "q \<equiv> head_bytes (blk_size s) offset (length ubuf) + whole_blocks (blk_size s) offset (length ubuf) * blk_size s"
  shows "\<exists>t. ext2_write s v ubuf offset =
      (let v' = v\<lparr>vsize := max (vsize v) (int (offset + length ubuf))\<rparr> in map_option (\<lambda>(_, s). (int (length ubuf), v', s)) (inode_write t v')) \<and>
    data_changed view v N s t \<and>
    content view t v 0 N = overwrite (overwrite (content view s v 0 N) offset (take q ubuf)) (offset + p) (drop q ubuf)"
proof -
  let ?C = "content view s v 0 N" and ?n = "whole_blocks bs offset (length ubuf)"
  have m: "mounted nb view s" and vb: "vblock_size v = int bs" using f by (simp_all add: direct_file_def file_ok_def bs_def)
  have bs: "0 < bs" using blk_pos[OF m] by (simp add: bs_def)
  have pe: "p = (if offset mod blk_size s = 0 then 0 else min (blk_size s - offset mod blk_size s) (length ubuf))" by (simp add: p_def head_bytes_def)
  have pl: "p \<le> length ubuf" by (simp add: pe)
  have q: "q = p + (length ubuf - p) div bs * bs" "q \<le> length ubuf"
    using pl by (simp_all add: q_def p_def whole_blocks_def bs_def) (metis div_times_less_eq_dividend le_add_diff_inverse nat_add_left_cancel_le)
  obtain b k t1 where h: "write_head s v ubuf offset = Some (0, b, p, k, t1)" "length b = bs" "data_changed view v N s t1"
    "content view t1 v 0 N = overwrite ?C offset (take p ubuf)" "p < length ubuf \<longrightarrow> offset + p = k * bs"
    using write_head_correct[OF f z ne] unfolding pe[symmetric] bs_def by blast
  note d1 = data_changed_simps[OF h(3)]
  obtain t2 where w: "write_whole t1 v ubuf p k = Some (0, q, k, t2)" "data_changed view v N t1 t2"
    "content view t2 v 0 N = overwrite (content view t1 v 0 N) (offset + p) (take (q - p) (drop p ubuf))"
    using write_whole_correct[of nb view t1 v N p ubuf offset k] f pl h(5) z unfolding d1 bs_def[symmetric] q(1) by auto
  have d2: "data_changed view v N s t2" by (rule data_changed_trans[OF h(3) w(2)])
  have c2: "content view t2 v 0 N = overwrite ?C offset (take q ubuf)"
  proof -
    have "take q ubuf = take p ubuf @ take (q - p) (drop p ubuf)" using q(1) by (metis add_diff_cancel_left' take_add)
    moreover have "length (take p ubuf) = p" "length (take (q - p) (drop p ubuf)) = q - p" using pl q by simp_all
    ultimately show ?thesis using overwrite_append[of offset "take p ubuf" "take (q - p) (drop p ubuf)" ?C] z q pl
      by (simp add: w(3) h(4) length_content[OF m])
  qed
  have small: "length ubuf - q < bs" unfolding q(1) using mod_less_divisor[OF bs, of "length ubuf - p"] by (simp add: minus_div_mult_eq_mod[symmetric])
  show ?thesis
  proof (cases "length ubuf - q = 0")
    case True
    then have "q = length ubuf" using q(2) by simp
    then show ?thesis using h(1) w(1) bs c2 d2 by (auto simp: ext2_write_def vb Let_def overwrite_Nil Option.bind_eq_Some_conv map_option_case split: option.splits intro!: exI[of _ t2])
  next
    case False
    then have k: "offset + p = k * bs" using h(5) q by simp
    have "k * bs < N * bs" using k z False q(1) unfolding bs_def by linarith
    then have kN: "k < N" by simp
    have "(offset + length ubuf) mod bs = (length ubuf - q) mod bs"
    proof -
      have "offset + length ubuf = (length ubuf - q) + (k + (length ubuf - p) div bs) * bs" using k q by (simp add: add_mult_distrib)
      then show ?thesis by (simp only: mod_mult_self1)
    qed
    then have nz: "(offset + length ubuf) mod bs \<noteq> 0" using small False by simp
    note e2 = data_changed_simps[OF d2]
    obtain b' t3 where t: "patch_block t2 v b k 0 (drop q ubuf) = Some (1, b', t3)" "data_changed view v N t2 t3"
      "content view t3 v 0 N = overwrite (content view t2 v 0 N) (k * bs + 0) (drop q ubuf)"
      using patch_block_correct[of nb view t2 v N k 0 "drop q ubuf" b] f kN small h(2) unfolding e2 bs_def by auto
    then show ?thesis using h(1) w(1) bs c2 k False nz data_changed_trans[OF d2 t(2)]
      by (auto simp: ext2_write_def vb Let_def map_option_case split: option.splits intro!: exI[of _ t3])
  qed
qed

lemma ext2_write_effect:
  assumes f: "writable_file nb view s v N" and z: "offset + length ubuf \<le> N * blk_size s" and ne: "0 < length ubuf"
  defines "n \<equiv> whole_blocks (blk_size s) offset (length ubuf)" and "p \<equiv> head_bytes (blk_size s) offset (length ubuf)"
    and "v' \<equiv> v\<lparr>vsize := max (vsize v) (int (offset + length ubuf))\<rparr>" and "q \<equiv> head_bytes (blk_size s) offset (length ubuf) +
      whole_blocks (blk_size s) offset (length ubuf) * blk_size s"
  shows "\<exists>t. ext2_write s v ubuf offset = Some (int (length ubuf), v', t) \<and> direct_file nb view t v N \<and> blk_size t = blk_size s \<and>
    inode_at view t (of_nat (ino v)) = from_vnode v' (incore s (vdata v)) \<and>
    content view t v 0 N = (if n = 0 \<or> q = length ubuf then overwrite (content view s v 0 N) offset ubuf
      else overwrite (overwrite (content view s v 0 N) offset (take q ubuf)) (offset + p) (drop q ubuf))"
proof -
  let ?C = "content view s v 0 N" and ?num = "of_nat (ino v) :: u32"
  have d: "direct_file nb view s v N" "mounted nb view s" using f by (simp_all add: writable_file_def direct_file_def file_ok_def)
  obtain t where t: "ext2_write s v ubuf offset = map_option (\<lambda>(_, s). (int (length ubuf), v', s)) (inode_write t v')" "data_changed view v N s t"
    "content view t v 0 N = overwrite (overwrite ?C offset (take q ubuf)) (offset + p) (drop q ubuf)"
    using ext2_write_data[OF d(1) z ne] unfolding p_def q_def v'_def Let_def by blast
  note e = data_changed_simps[OF t(2)]
  obtain w where w: "t = s\<lparr>disk := w\<rparr>" using t(2) by (auto simp: data_changed_def)
  have "\<exists>u. inode_write t v' = Some (0, u) \<and> content view u v 0 N = content view t v 0 N \<and> direct_file nb view u v N \<and>
      inode_at view u ?num = from_vnode v' (incore t (vdata v))"
    using f e by (intro inode_write_content) (simp_all add: writable_file_def w v'_def)
  then obtain u where u: "inode_write t v' = Some (0, u)" "content view u v 0 N = content view t v 0 N" "direct_file nb view u v N"
    "inode_at view u ?num = from_vnode v' (incore t (vdata v))" by blast
  have bu: "blk_size u = blk_size s" using u(3) d(1) by (simp add: direct_file_def file_ok_def)
  have pl: "p \<le> length ubuf" by (simp add: p_def head_bytes_def)
  have "overwrite (overwrite ?C offset (take q ubuf)) (offset + p) (drop q ubuf) = overwrite ?C offset ubuf" if "n = 0 \<or> q = length ubuf"
  proof (cases "q = length ubuf")
    case False
    then have "q = p" using that by (simp add: q_def p_def n_def)
    then show ?thesis using overwrite_append[of offset "take p ubuf" "drop p ubuf" ?C] z pl by (simp add: length_content[OF d(2)])
  qed (simp add: overwrite_Nil)
  then show ?thesis using t u e bu by auto
qed


lemma small_file_writable: "writable_file 16 ram_view small_file_fs small_file 1"
proof -
  have "inodes_ok 16 small_file_fs" "\<not> bad_inode_num small_file_fs 2"
    using small_fs_inodes by (simp_all add: small_file_fs_def inodes_ok_def table_of_def table_blocks_def bad_inode_num_def)
  moreover have "inode_blk small_file_fs 2 = 5"
    by (simp add: inode_blk_def small_file_fs_def table_of_def small_fs_def bg_offsets bytes_simps INODE_SIZE_def s_inodes_per_group_def SB_SIZE_def)
  moreover have "length (incore small_file_fs (vdata small_file)) = INODE_SIZE" by (simp add: small_file_fs_def bytes_simps INODE_SIZE_def)
  ultimately show ?thesis
    using small_file_ok small_file_facts(3) by (simp add: writable_file_def direct_file_def small_file_def lessThan_Suc)
qed


lemma fblk_vsize: "fblk view s (v\<lparr>vsize := x\<rparr>) = fblk view s v" "content view s (v\<lparr>vsize := x\<rparr>) = content view s v"
proof -
  have d: "vdata (v\<lparr>vsize := x\<rparr>) = vdata v" by simp
  show f: "fblk view s (v\<lparr>vsize := x\<rparr>) = fblk view s v" by (rule ext) (simp only: fblk_def d)
  show "content view s (v\<lparr>vsize := x\<rparr>) = content view s v" by (intro ext) (simp only: content_def f)
qed

lemma nblocks_least: "0 < bs \<Longrightarrow> z \<le> N * bs \<Longrightarrow> nblocks bs z \<le> N"
proof -
  assume "0 < bs" "z \<le> N * bs"
  then have "z + bs - 1 < (N + 1) * bs" by simp
  then show ?thesis using less_mult_imp_div_less[of "z + bs - 1" "N + 1" bs] by (simp add: nblocks_def)
qed



end
