(* ===== verification/Ramfs.thy ===== *)
theory Ramfs
  imports Vnode
begin

text \<open>
  The in-memory file system \<^verbatim>\<open>modules/fs/ramfs/ramfs.c\<close>. The super block holds the table of i-node
  pointers; i-nodes live in a heap indexed by pointer. The \<^verbatim>\<open>data\<close> block of an i-node is read as an array
  of directory entries or as bytes, which are two fields here. \<^verbatim>\<open>size\<close> is kept apart from the data because
  \<^verbatim>\<open>ramfs_flush\<close> can set it without touching the data. Each operation runs under the mutexes it takes and
  is one step. Bytes that \<^verbatim>\<open>krealloc\<close> adds are unspecified: the parameter \<open>junk\<close>.
\<close>

section \<open>State\<close>

record ramfs_dentry =
  dname :: string
  dinode :: nat

record ramfs_inode =
  num :: nat
  mode :: mode_t
  iuid :: int
  igid :: int
  inlink :: u16
  isize :: int
  irdev :: u16
  dents :: "ramfs_dentry list"
  bytes :: "u8 list"

record ramfs =
  magic :: u32
  inode_table :: "nat option list"
  rsize :: int
  rused :: int
  inode :: "nat \<Rightarrow> ramfs_inode"
  next_inode :: nat

definition RAMFS_MAGIC :: u32 where "RAMFS_MAGIC = 0xDEADBEEF"
definition RAMFS_ROOT_INODE :: nat where "RAMFS_ROOT_INODE = 1"
definition RAMFS_DEFAULT_SIZE :: int where "RAMFS_DEFAULT_SIZE = 0x400000"

text \<open>\<^verbatim>\<open>sizeof(struct ramfs_dentry)\<close>: 256 bytes of name and a 32-bit number.\<close>

definition DENT :: int where "DENT = 260"

text \<open>Conversions to \<^verbatim>\<open>off_t\<close> (32 bits, signed) and \<^verbatim>\<open>uint32_t\<close>.\<close>

definition to_off :: "int \<Rightarrow> int" where "to_off x = sint (word_of_int x :: u32)"
definition to_u32 :: "int \<Rightarrow> int" where "to_u32 x = x mod 2 ^ 32"

abbreviation upd_inode :: "nat \<Rightarrow> (ramfs_inode \<Rightarrow> ramfs_inode) \<Rightarrow> ramfs \<Rightarrow> ramfs" where
  "upd_inode p g f \<equiv> f\<lparr>inode := (inode f)(p := g (inode f p))\<rparr>"

text \<open>The entries of a directory that lie below its size.\<close>

definition visible :: "ramfs_inode \<Rightarrow> ramfs_dentry list" where
  "visible i = take (nat (isize i div DENT)) (dents i)"

section \<open>Entries and i-nodes\<close>

function find_dent :: "(ramfs_dentry \<Rightarrow> bool) \<Rightarrow> ramfs_inode \<Rightarrow> nat \<Rightarrow> nat option" where
  "find_dent P i k =
     (if int k * DENT < isize i \<and> k < length (dents i)
      then if P (dents i ! k) then Some k else find_dent P i (Suc k) else None)"
  by pat_completeness auto
termination
  by (relation "measure (\<lambda>(P, i, k). length (dents i) - k)") auto

declare find_dent.simps [simp del]

definition ramfs_put_entry :: "nat \<Rightarrow> nat \<Rightarrow> string \<Rightarrow> ramfs \<Rightarrow> ramfs" where
  "ramfs_put_entry prnt p name f =
     (let f = upd_inode p (\<lambda>i. i\<lparr>inlink := inlink i + 1\<rparr>) f;
          entry = \<lparr>dname = name, dinode = num (inode f p)\<rparr>
      in case find_dent (\<lambda>e. dinode e = 0) (inode f prnt) 0 of
           Some k \<Rightarrow> upd_inode prnt (\<lambda>i. i\<lparr>dents := (dents i)[k := entry]\<rparr>) f
         | None \<Rightarrow>
             upd_inode prnt (\<lambda>i. i\<lparr>dents := take (nat (isize i div DENT)) (dents i) @ [entry],
                                   isize := isize i + DENT\<rparr>) f)"

definition ramfs_put_inode :: "nat \<Rightarrow> ramfs \<Rightarrow> ramfs" where
  "ramfs_put_inode p f =
     (case find_slot 0 (inode_table f) of
        Some i \<Rightarrow> upd_inode p (\<lambda>n. n\<lparr>num := i + 1\<rparr>) (f\<lparr>inode_table := (inode_table f)[i := Some p]\<rparr>)
      | None \<Rightarrow>
          let f = f\<lparr>inode_table := inode_table f @ [Some p]\<rparr>
          in upd_inode p (\<lambda>n. n\<lparr>num := length (inode_table f)\<rparr>) f)"

definition inode_zero :: ramfs_inode where
  "inode_zero = \<lparr>num = 0, mode = 0, iuid = 0, igid = 0, inlink = 0, isize = 0, irdev = 0, dents = [], bytes = []\<rparr>"

definition new_inode :: "ramfs_inode \<Rightarrow> ramfs \<Rightarrow> nat \<times> ramfs" where
  "new_inode i f =
     (next_inode f, f\<lparr>inode := (inode f)(next_inode f := i), next_inode := next_inode f + 1\<rparr>)"

section \<open>The file system\<close>

definition ramfs_mount :: "nat \<Rightarrow> int \<times> ramfs" where
  "ramfs_mount mp =
     (let f = \<lparr>magic = RAMFS_MAGIC, inode_table = [], rsize = RAMFS_DEFAULT_SIZE, rused = 0,
               inode = (\<lambda>_. inode_zero), next_inode = 1\<rparr>;
          (p, f) = new_inode (inode_zero\<lparr>num := RAMFS_ROOT_INODE, mode := S_IFDIR OR 0x1ED\<rparr>) f;
          f = ramfs_put_entry p p ''.'' f;
          f = ramfs_put_entry p p ''..'' f
      in (0, f\<lparr>inode_table := [Some p]\<rparr>))"

definition ramfs_root :: "ramfs \<Rightarrow> nat" where
  "ramfs_root f = RAMFS_ROOT_INODE"

text \<open>The later test of the size in \<^verbatim>\<open>ramfs_flush\<close> compares the value with the copy made just before,
  so its branch never runs.\<close>

definition ramfs_flush :: "vnode \<Rightarrow> ramfs \<Rightarrow> int \<times> ramfs" where
  "ramfs_flush v f =
     (0, upd_inode (vdata v)
           (\<lambda>i. i\<lparr>mode := vmode v, iuid := vuid v, igid := vgid v, isize := to_off (vsize v),
                  inlink := vnlink v, irdev := vrdev v\<rparr>) f)"

text \<open>A freed table entry is \<^verbatim>\<open>NULL\<close> and number 0 indexes below the table: the code would crash there.
  The virtual file system opens only numbers that a lookup returned.\<close>

definition ramfs_open :: "vnode \<Rightarrow> ramfs \<Rightarrow> int \<times> vnode" where
  "ramfs_open v f =
     (if magic f \<noteq> RAMFS_MAGIC then (- errno_code EFAULT, v)
      else if ino v > length (inode_table f) then (- errno_code ENOENT, v)
      else if ino v = 0 then (- errno_code EFAULT, v)
      else case inode_table f ! (ino v - 1) of
             None \<Rightarrow> (- errno_code EFAULT, v)
           | Some p \<Rightarrow>
               let i = inode f p
               in (0, v\<lparr>vdata := p, vmode := mode i, vuid := iuid i, vgid := igid i, vnlink := inlink i,
                        vrdev := irdev i, vsize := isize i\<rparr>))"

definition ramfs_close :: "vnode \<Rightarrow> ramfs \<Rightarrow> int \<times> ramfs" where
  "ramfs_close v f =
     (if magic f \<noteq> RAMFS_MAGIC then (- errno_code EFAULT, f)
      else let f = snd (ramfs_flush v f); p = vdata v
        in if inlink (inode f p) = 0
           then (0, f\<lparr>inode_table := (inode_table f)[num (inode f p) - 1 := None]\<rparr>)
           else (0, f))"

definition ramfs_lookup :: "vnode \<Rightarrow> string \<Rightarrow> ramfs \<Rightarrow> nat" where
  "ramfs_lookup v name f =
     (let i = inode f (vdata v)
      in case find_dent (\<lambda>e. dname e = name \<and> dinode e > 0) i 0 of
           None \<Rightarrow> 0 | Some k \<Rightarrow> dinode (dents i ! k))"

text \<open>\<^verbatim>\<open>ramfs_getdents\<close>: the number of bytes written and the new offset. \<^verbatim>\<open>sizeof(struct dirent)\<close> is 268 and
  the name starts at offset 10; \<^verbatim>\<open>sizeof(sizeof(..))\<close> is 4.\<close>

definition d_reclen :: "string \<Rightarrow> nat" where
  "d_reclen name = ROUND_UP (10 + length name + 1) 4"

function ramfs_getdents_loop :: "ramfs_inode \<Rightarrow> nat \<Rightarrow> nat \<Rightarrow> nat \<Rightarrow> nat \<times> nat" where
  "ramfs_getdents_loop i len k count =
     (if len \<ge> 268 \<and> int k * DENT < isize i \<and> k < length (dents i) then
        if dinode (dents i ! k) = 0 then ramfs_getdents_loop i len (Suc k) count
        else ramfs_getdents_loop i (len - 4) (Suc k) (count + d_reclen (dname (dents i ! k)))
      else (count, k))"
  by pat_completeness auto
termination
  by (relation "measure (\<lambda>(i, len, k, count). length (dents i) - k)") auto

declare ramfs_getdents_loop.simps [simp del]

definition ramfs_getdents :: "vnode \<Rightarrow> nat \<Rightarrow> int \<Rightarrow> ramfs \<Rightarrow> int \<times> int" where
  "ramfs_getdents v len offset f =
     (case ramfs_getdents_loop (inode f (vdata v)) len (nat (offset div DENT)) 0 of
        (count, k) \<Rightarrow> (int count, int k * DENT))"

definition ramfs_creat :: "vnode \<Rightarrow> string \<Rightarrow> mode_t \<Rightarrow> int \<Rightarrow> int \<Rightarrow> ramfs \<Rightarrow> int \<times> ramfs" where
  "ramfs_creat v name m u g f =
     (if magic f \<noteq> RAMFS_MAGIC then (- errno_code EFAULT, f)
      else let (p, f) = new_inode (inode_zero\<lparr>mode := S_IFREG OR (m AND 0x1FF)\<rparr>) f;
               f = ramfs_put_inode p f
           in (0, ramfs_put_entry (vdata v) p name f))"

definition ramfs_mknod :: "vnode \<Rightarrow> string \<Rightarrow> mode_t \<Rightarrow> u16 \<Rightarrow> int \<Rightarrow> int \<Rightarrow> ramfs \<Rightarrow> int \<times> ramfs" where
  "ramfs_mknod v name m rdev u g f =
     (if magic f \<noteq> RAMFS_MAGIC then (- errno_code EFAULT, f)
      else let (p, f) = new_inode (inode_zero\<lparr>mode := m, iuid := u, igid := g, irdev := rdev\<rparr>) f;
               f = ramfs_put_inode p f
           in (0, ramfs_put_entry (vdata v) p name f))"

definition ramfs_mkdir :: "vnode \<Rightarrow> string \<Rightarrow> mode_t \<Rightarrow> int \<Rightarrow> int \<Rightarrow> ramfs \<Rightarrow> int \<times> ramfs" where
  "ramfs_mkdir v name m u g f =
     (if magic f \<noteq> RAMFS_MAGIC then (- errno_code EFAULT, f)
      else let (p, f) = new_inode (inode_zero\<lparr>mode := S_IFDIR OR m, iuid := u, igid := g\<rparr>) f;
               f = ramfs_put_inode p f;
               f = ramfs_put_entry p p ''.'' f;
               f = ramfs_put_entry p (vdata v) ''..'' f
           in (0, ramfs_put_entry (vdata v) p name f))"

definition ramfs_write :: "(nat \<Rightarrow> u8) \<Rightarrow> vnode \<Rightarrow> u8 list \<Rightarrow> int \<Rightarrow> ramfs \<Rightarrow> int \<times> vnode \<times> ramfs" where
  "ramfs_write junk v buf offset f =
     (if magic f \<noteq> RAMFS_MAGIC then (- errno_code EFAULT, v, f)
      else let p = vdata v; i = inode f p; fin = offset + int (length buf)
        in if fin > isize i \<and> to_u32 (rused f + isize i) - fin \<ge> rsize f then (- errno_code ENOSPC, v, f)
           else let (v, f) =
                      (if fin > isize i then
                         (v\<lparr>vsize := to_off fin\<rparr>,
                          upd_inode p (\<lambda>i. i\<lparr>bytes := resize (bytes i) (nat fin) junk, isize := to_off fin\<rparr>)
                            (f\<lparr>rused := to_u32 (rused f + fin - isize i)\<rparr>))
                       else (v, f))
             in (int (length buf), v, upd_inode p (\<lambda>i. i\<lparr>bytes := overwrite (bytes i) (nat offset) buf\<rparr>) f))"

definition ramfs_read :: "vnode \<Rightarrow> nat \<Rightarrow> int \<Rightarrow> ramfs \<Rightarrow> int \<times> u8 list" where
  "ramfs_read v len offset f =
     (if magic f \<noteq> RAMFS_MAGIC then (- errno_code EFAULT, [])
      else let i = inode f (vdata v);
               len = (if offset + int len > isize i
                      then (if isize i - offset > 0 then nat (isize i - offset) else 0) else len)
        in (int len, take len (drop (nat offset) (bytes i))))"

definition ramfs_unlink :: "vnode \<Rightarrow> string \<Rightarrow> ramfs \<Rightarrow> int \<times> ramfs" where
  "ramfs_unlink v name f =
     (case find_dent (\<lambda>e. dname e = name) (inode f (vdata v)) 0 of
        None \<Rightarrow> (- errno_code ENOENT, f)
      | Some k \<Rightarrow> (0, upd_inode (vdata v) (\<lambda>i. i\<lparr>dents := (dents i)[k := (dents i ! k)\<lparr>dinode := 0\<rparr>]\<rparr>) f))"

definition ramfs_vnode_ops :: "(nat \<Rightarrow> u8) \<Rightarrow> ramfs vnode_ops" where
  "ramfs_vnode_ops junk = \<lparr>op_open = ramfs_open, op_close = ramfs_close, op_lookup = ramfs_lookup,
     op_read = Some ramfs_read, op_write = Some (ramfs_write junk), op_mkdir = Some ramfs_mkdir,
     op_creat = Some ramfs_creat, op_readlink = None, op_getdents = Some ramfs_getdents,
     op_flush = Some ramfs_flush, op_mknod = Some ramfs_mknod, op_unlink = Some ramfs_unlink\<rparr>"

definition ramfs_fs :: "(nat \<Rightarrow> u8) \<Rightarrow> ramfs filesystem" where
  "ramfs_fs junk = \<lparr>fs_name = ''ramfs'', fs_nodev = True, fs_mount = ramfs_mount, fs_root = ramfs_root,
     fs_ops = ramfs_vnode_ops junk\<rparr>"

interpretation ramfs_driver: vnode_driver "ramfs_vnode_ops junk"
  by unfold_locales (auto simp: ramfs_vnode_ops_def ramfs_open_def ramfs_write_def same_place_def Let_def
      split: option.splits)

section \<open>Directories\<close>

definition dir_ok :: "ramfs_inode \<Rightarrow> bool" where
  "dir_ok i \<longleftrightarrow> (\<exists>n. isize i = int n * DENT \<and> n \<le> length (dents i))"

text \<open>The lookup on a list of entries: the first live entry with the name.\<close>

fun look :: "ramfs_dentry list \<Rightarrow> string \<Rightarrow> nat" where
  "look [] name = 0"
| "look (e # es) name = (if dname e = name \<and> dinode e > 0 then dinode e else look es name)"

lemma DENT_pos [simp]: "0 < DENT"
  by (simp add: DENT_def)

lemma dir_ok_visible:
  assumes "isize i = int n * DENT" "n \<le> length (dents i)"
  shows "visible i = take n (dents i)" "length (visible i) = n" "int k * DENT < isize i \<longleftrightarrow> k < n"
  using assms by (simp_all add: visible_def DENT_def)

lemma find_dent_spec:
  assumes "isize i = int n * DENT" "n \<le> length (dents i)" "k \<le> n"
  shows "case find_dent P i k of
      Some j \<Rightarrow> k \<le> j \<and> j < n \<and> P (dents i ! j) \<and> (\<forall>l. k \<le> l \<and> l < j \<longrightarrow> \<not> P (dents i ! l))
    | None \<Rightarrow> \<forall>l. k \<le> l \<and> l < n \<longrightarrow> \<not> P (dents i ! l)"
  using assms
proof (induction P i k rule: find_dent.induct)
  case (1 P i k)
  note b = dir_ok_visible(3)[OF "1.prems"(1,2)]
  show ?case
  proof (cases "k < n \<and> \<not> P (dents i ! k)")
    case True
    then have e: "find_dent P i k = find_dent P i (Suc k)"
      using "1.prems"(2) b[of k] by (subst find_dent.simps) simp
    have IH: "case find_dent P i (Suc k) of
        Some j \<Rightarrow> Suc k \<le> j \<and> j < n \<and> P (dents i ! j) \<and> (\<forall>l. Suc k \<le> l \<and> l < j \<longrightarrow> \<not> P (dents i ! l))
      | None \<Rightarrow> \<forall>l. Suc k \<le> l \<and> l < n \<longrightarrow> \<not> P (dents i ! l)"
      by (rule "1.IH") (use "1.prems" True b[of k] in simp_all)
    have split: "k \<le> l \<longleftrightarrow> l = k \<or> Suc k \<le> l" for l by auto
    show ?thesis unfolding e using IH True
      by (cases "find_dent P i (Suc k)") (auto simp: split)
  next
    case False
    then show ?thesis using "1.prems"(2,3) b[of k] by (subst find_dent.simps) auto
  qed
qed

lemma look_nth:
  assumes d: "dir_ok i"
  shows "(case find_dent (\<lambda>e. dname e = name \<and> dinode e > 0) i 0 of None \<Rightarrow> 0 | Some k \<Rightarrow> dinode (dents i ! k)) =
     look (visible i) name"
proof -
  obtain n where n: "isize i = int n * DENT" "n \<le> length (dents i)" using d by (auto simp: dir_ok_def)
  have none: "(\<forall>l<length es. \<not> (dname (es ! l) = name \<and> dinode (es ! l) > 0)) \<Longrightarrow> look es name = 0" for es
  proof (induction es)
    case (Cons e es)
    have "\<not> (dname e = name \<and> dinode e > 0)" using Cons.prems[rule_format, of 0] by simp
    moreover have "\<forall>l<length es. \<not> (dname (es ! l) = name \<and> dinode (es ! l) > 0)"
      using Cons.prems by (metis Suc_less_eq length_Cons nth_Cons_Suc)
    ultimately show ?case using Cons.IH by auto
  qed simp
  have some: "j < length es \<Longrightarrow> dname (es ! j) = name \<and> dinode (es ! j) > 0 \<Longrightarrow>
      (\<forall>l<j. \<not> (dname (es ! l) = name \<and> dinode (es ! l) > 0)) \<Longrightarrow> look es name = dinode (es ! j)" for es j
  proof (induction es arbitrary: j)
    case (Cons e es)
    show ?case
    proof (cases j)
      case (Suc m)
      have "\<not> (dname e = name \<and> dinode e > 0)" using Cons.prems(3) Suc by force
      moreover have "\<forall>l<m. \<not> (dname (es ! l) = name \<and> dinode (es ! l) > 0)" using Cons.prems(3) Suc by force
      ultimately show ?thesis using Cons Suc by auto
    qed (use Cons.prems in simp)
  qed simp
  note v = dir_ok_visible(1,2)[OF n]
  show ?thesis
  proof (cases "find_dent (\<lambda>e. dname e = name \<and> dinode e > 0) i 0")
    case None
    then show ?thesis using find_dent_spec[OF n, of 0 "\<lambda>e. dname e = name \<and> dinode e > 0"] none[of "visible i"] v by simp
  next
    case (Some j)
    then show ?thesis
      using find_dent_spec[OF n, of 0 "\<lambda>e. dname e = name \<and> dinode e > 0"] some[of j "visible i"] v n(2) by auto
  qed
qed

lemma ramfs_lookup_look: "dir_ok (inode f (vdata v)) \<Longrightarrow> ramfs_lookup v name f = look (visible (inode f (vdata v))) name"
  using look_nth[of "inode f (vdata v)" name] by (simp add: ramfs_lookup_def Let_def)

lemma look_append: "look (es @ es') name = (if look es name > 0 then look es name else look es' name)"
  by (induction es) auto

lemma look_update:
  "k < length es \<Longrightarrow> dinode (es ! k) = 0 \<Longrightarrow> dinode e > 0 \<Longrightarrow> look es (dname e) = 0 \<Longrightarrow>
     look (es[k := e]) name = (if name = dname e then dinode e else look es name)"
  by (induction es arbitrary: k) (auto split: nat.splits)

text \<open>A live entry is the first one of its name, dead entries included. A new entry goes to the first dead
  slot, so \<^verbatim>\<open>ramfs_put_entry\<close> keeps this, and \<^verbatim>\<open>ramfs_unlink\<close>, which looks at the names of dead entries too,
  clears the right one.\<close>

definition live_first :: "ramfs_dentry list \<Rightarrow> bool" where
  "live_first es \<longleftrightarrow> (\<forall>l < length es. \<forall>k < l. dname (es ! k) = dname (es ! l) \<longrightarrow> dinode (es ! l) = 0)"

lemma live_firstD: "live_first es \<Longrightarrow> l < length es \<Longrightarrow> k < l \<Longrightarrow> dname (es ! k) = dname (es ! l) \<Longrightarrow> dinode (es ! l) = 0"
  by (simp add: live_first_def)

lemma look_0_dead: "look es nm = 0 \<Longrightarrow> l < length es \<Longrightarrow> dname (es ! l) = nm \<Longrightarrow> dinode (es ! l) = 0"
  by (induction es arbitrary: l) (auto simp: nth_Cons' split: if_splits)

lemma look_absent: "\<forall>l<length es. dname (es ! l) \<noteq> nm \<Longrightarrow> look es nm = 0"
proof (induction es)
  case (Cons e es)
  show ?case using Cons.IH Cons.prems[rule_format, of 0] Cons.prems[rule_format, of "Suc _"] by simp
qed simp

lemma live_first_put:
  assumes "live_first es" "k < length es" "\<And>l. l < k \<Longrightarrow> dinode (es ! l) > 0" "look es (dname e) = 0"
  shows "live_first (es[k := e])"
  unfolding live_first_def
proof (intro allI impI)
  fix l j assume l: "l < length (es[k := e])" "j < l" "dname (es[k := e] ! j) = dname (es[k := e] ! l)"
  have ll: "l < length es" "j < length es" using l by simp_all
  consider "l = k" | "j = k" "l \<noteq> k" | "l \<noteq> k" "j \<noteq> k" by blast
  then show "dinode (es[k := e] ! l) = 0"
  proof cases
    case 1
    then show ?thesis using l ll look_0_dead[OF assms(4), of j] assms(3)[of j] by simp
  next
    case 2
    then show ?thesis using l ll look_0_dead[OF assms(4), of l] by simp
  next
    case 3
    then show ?thesis using l ll live_firstD[OF assms(1), of l j] by simp
  qed
qed

lemma live_first_snoc:
  assumes "live_first es" "\<And>l. l < length es \<Longrightarrow> dinode (es ! l) > 0" "look es (dname e) = 0"
  shows "live_first (es @ [e])"
  unfolding live_first_def
proof (intro allI impI)
  fix l j assume l: "l < length (es @ [e])" "j < l" "dname ((es @ [e]) ! j) = dname ((es @ [e]) ! l)"
  show "dinode ((es @ [e]) ! l) = 0"
  proof (cases "l = length es")
    case True
    then show ?thesis using l look_0_dead[OF assms(3), of j] assms(2)[of j] by (simp add: nth_append)
  next
    case False
    then show ?thesis using l live_firstD[OF assms(1), of l j] by (simp add: nth_append)
  qed
qed

lemma live_first_kill:
  assumes "live_first es"
  shows "live_first (es[k := (es ! k)\<lparr>dinode := 0\<rparr>])"
  unfolding live_first_def
proof (intro allI impI)
  fix l j assume "l < length (es[k := (es ! k)\<lparr>dinode := 0\<rparr>])" "j < l"
    "dname (es[k := (es ! k)\<lparr>dinode := 0\<rparr>] ! j) = dname (es[k := (es ! k)\<lparr>dinode := 0\<rparr>] ! l)"
  then show "dinode (es[k := (es ! k)\<lparr>dinode := 0\<rparr>] ! l) = 0"
    using live_firstD[OF assms, of l j] by (cases "l = k"; cases "j = k") simp_all
qed

definition dir_wf :: "ramfs_inode \<Rightarrow> bool" where
  "dir_wf i \<longleftrightarrow> dir_ok i \<and> live_first (visible i)"

text \<open>Adding an entry: the directory maps the new name to the i-node and every other name as before.\<close>

lemma put_entry_visible:
  fixes f :: ramfs and q p :: nat and name :: string
  assumes d: "dir_ok (inode f q)"
  defines "f' \<equiv> ramfs_put_entry q p name f" and "e \<equiv> \<lparr>dname = name, dinode = num (inode f p)\<rparr>"
    and "vs \<equiv> visible (inode f q)"
  shows "dir_ok (inode f' q)"
    "(\<exists>k<length vs. dinode (vs ! k) = 0 \<and> (\<forall>l<k. dinode (vs ! l) > 0) \<and> visible (inode f' q) = vs[k := e]) \<or>
     (\<forall>l<length vs. dinode (vs ! l) > 0) \<and> visible (inode f' q) = vs @ [e]"
proof -
  let ?g = "upd_inode p (\<lambda>i. i\<lparr>inlink := inlink i + 1\<rparr>) f"
  obtain n where n: "isize (inode f q) = int n * DENT" "n \<le> length (dents (inode f q))" using d by (auto simp: dir_ok_def)
  have gq: "isize (inode ?g q) = int n * DENT" "dents (inode ?g q) = dents (inode f q)" using n(1) by auto
  have gq': "n \<le> length (dents (inode ?g q))" using n(2) gq(2) by simp
  note vis = dir_ok_visible[OF n, folded vs_def]
  have en: "num (inode ?g p) = num (inode f p)" by simp
  have f': "f' = (case find_dent (\<lambda>e. dinode e = 0) (inode ?g q) 0 of
      Some k \<Rightarrow> upd_inode q (\<lambda>i. i\<lparr>dents := (dents i)[k := e]\<rparr>) ?g
    | None \<Rightarrow> upd_inode q (\<lambda>i. i\<lparr>dents := take (nat (isize i div DENT)) (dents i) @ [e], isize := isize i + DENT\<rparr>) ?g)"
    unfolding f'_def ramfs_put_entry_def Let_def en e_def ..
  note sp = find_dent_spec[OF gq(1) gq' le0, of "\<lambda>e. dinode e = 0"]
  have "dir_ok (inode f' q) \<and>
    ((\<exists>k<length vs. dinode (vs ! k) = 0 \<and> (\<forall>l<k. dinode (vs ! l) > 0) \<and> visible (inode f' q) = vs[k := e]) \<or>
     (\<forall>l<length vs. dinode (vs ! l) > 0) \<and> visible (inode f' q) = vs @ [e])"
  proof (cases "find_dent (\<lambda>e. dinode e = 0) (inode ?g q) 0")
    case (Some k)
    then have k: "k < n" "dinode (vs ! k) = 0" "\<forall>l<k. dinode (vs ! l) > 0" using sp gq(2) vis(1) by auto
    have i': "isize (inode f' q) = int n * DENT" "dents (inode f' q) = (dents (inode f q))[k := e]"
      unfolding f' Some using gq by auto
    then have "visible (inode f' q) = vs[k := e]"
      using dir_ok_visible(1)[of "inode f' q" n] n(2) k(1) vis(1) by (simp add: take_update_swap)
    moreover have "dir_ok (inode f' q)" using i' n(2) by (auto simp: dir_ok_def intro!: exI[of _ n])
    ultimately show ?thesis using k vis(2) by blast
  next
    case None
    then have a: "\<forall>l<n. dinode (vs ! l) > 0" using sp gq(2) vis(1) by auto
    have i': "isize (inode f' q) = int (Suc n) * DENT" "dents (inode f' q) = take n (dents (inode f q)) @ [e]"
      unfolding f' None using gq by (auto simp: algebra_simps DENT_def)
    then have "visible (inode f' q) = vs @ [e]"
      using dir_ok_visible(1)[of "inode f' q" "Suc n"] n(2) vis(1) by simp
    moreover have "dir_ok (inode f' q)" using i' n(2) by (auto simp: dir_ok_def intro!: exI[of _ "Suc n"])
    ultimately show ?thesis using a vis(2) by blast
  qed
  then show "dir_ok (inode f' q)"
    "(\<exists>k<length vs. dinode (vs ! k) = 0 \<and> (\<forall>l<k. dinode (vs ! l) > 0) \<and> visible (inode f' q) = vs[k := e]) \<or>
     (\<forall>l<length vs. dinode (vs ! l) > 0) \<and> visible (inode f' q) = vs @ [e]" by blast+
qed

lemma put_entry_frame:
  fixes f :: ramfs and q p :: nat and name :: string
  defines "f' \<equiv> ramfs_put_entry q p name f"
  shows "inode f' x = (if x = q then (inode f' q) else if x = p then (inode f p)\<lparr>inlink := inlink (inode f p) + 1\<rparr> else inode f x)"
    "inlink (inode f' p) = inlink (inode f p) + 1" "num (inode f' x) = num (inode f x)"
    "mode (inode f' x) = mode (inode f x)" "bytes (inode f' x) = bytes (inode f x)"
    "x \<noteq> q \<Longrightarrow> isize (inode f' x) = isize (inode f x) \<and> dents (inode f' x) = dents (inode f x)"
    "magic f' = magic f" "inode_table f' = inode_table f" "next_inode f' = next_inode f" "rused f' = rused f"
    "rsize f' = rsize f"
  unfolding f'_def ramfs_put_entry_def Let_def by (auto split: option.splits)

lemma put_entry_dir:
  assumes d: "dir_ok (inode f q)" and num: "num (inode f p) > 0" and new: "look (visible (inode f q)) name = 0"
  defines "f' \<equiv> ramfs_put_entry q p name f"
  shows "look (visible (inode f' q)) nm = (if nm = name then num (inode f p) else look (visible (inode f q)) nm)"
    "live_first (visible (inode f q)) \<Longrightarrow> live_first (visible (inode f' q))"
proof -
  define e where "e = \<lparr>dname = name, dinode = num (inode f p)\<rparr>"
  have e: "dname e = name" "dinode e = num (inode f p)" by (simp_all add: e_def)
  let ?vs = "visible (inode f q)"
  have new': "look ?vs (dname e) = 0" using new by (simp add: e_def)
  from put_entry_visible(2)[OF d, where p = p and name = name] consider
    k where "k < length ?vs" "dinode (?vs ! k) = 0" "\<forall>l<k. dinode (?vs ! l) > 0" "visible (inode f' q) = ?vs[k := e]"
    | "\<forall>l<length ?vs. dinode (?vs ! l) > 0" "visible (inode f' q) = ?vs @ [e]"
    unfolding f'_def e_def by blast
  note cs = this
  show "look (visible (inode f' q)) nm = (if nm = name then num (inode f p) else look ?vs nm)"
  proof (cases rule: cs)
    case 1
    show ?thesis using look_update[OF 1(1,2) _ new', of nm] num by (simp add: 1(4) e)
  qed (use new num e in \<open>simp add: look_append\<close>)
  show "live_first (visible (inode f' q))" if "live_first ?vs"
    by (cases rule: cs) (use that new' in \<open>auto intro: live_first_put live_first_snoc\<close>)
qed

section \<open>Creating nodes\<close>

text \<open>A table slot for a new i-node: the first free one, or one more at the end.\<close>

definition new_number :: "ramfs \<Rightarrow> nat" where
  "new_number f = (case find_slot 0 (inode_table f) of Some i \<Rightarrow> i + 1 | None \<Rightarrow> length (inode_table f) + 1)"

definition number_free :: "ramfs \<Rightarrow> nat \<Rightarrow> bool" where
  "number_free f k \<longleftrightarrow> k > 0 \<and> (k > length (inode_table f) \<or> inode_table f ! (k - 1) = None)"

lemma new_number_free: "number_free f (new_number f)"
  by (auto simp: number_free_def new_number_def split: option.splits dest: find_slot_bound find_slot_free)

lemma put_inode:
  fixes i :: ramfs_inode and f :: ramfs
  defines "g \<equiv> ramfs_put_inode (next_inode f) (snd (new_inode i f))"
  shows "inode g x = (if x = next_inode f then i\<lparr>num := new_number f\<rparr> else inode f x)"
    "inode_table g ! (new_number f - 1) = Some (next_inode f)" "new_number f \<le> length (inode_table g)"
    "k \<noteq> new_number f \<Longrightarrow> 0 < k \<Longrightarrow> k \<le> length (inode_table f) \<Longrightarrow> inode_table g ! (k - 1) = inode_table f ! (k - 1)"
    "magic g = magic f" "next_inode g = next_inode f + 1"
  by (auto simp: g_def ramfs_put_inode_def new_inode_def new_number_def Let_def nth_append
      split: option.splits dest: find_slot_bound)

lemma visible_num [simp]: "visible (i\<lparr>num := k\<rparr>) = visible i" "dir_ok (i\<lparr>num := k\<rparr>) = dir_ok i"
  by (simp_all add: visible_def dir_ok_def)

lemma create_in_dir:
  fixes f :: ramfs and i :: ramfs_inode
  assumes d: "dir_ok (inode f q)" and q: "q \<noteq> next_inode f" and new: "look (visible (inode f q)) name = 0"
  defines "g \<equiv> ramfs_put_inode (next_inode f) (snd (new_inode i f))"
  defines "h \<equiv> ramfs_put_entry q (next_inode f) name g"
  shows "dir_ok (inode h q)"
    "look (visible (inode h q)) nm = (if nm = name then new_number f else look (visible (inode f q)) nm)"
    "inode_table h = inode_table g" "mode (inode h (next_inode f)) = mode i"
    "inlink (inode h (next_inode f)) = inlink i + 1" "num (inode h (next_inode f)) = new_number f"
    "bytes (inode h (next_inode f)) = bytes i" "isize (inode h (next_inode f)) = isize i"
    "x \<noteq> q \<Longrightarrow> x \<noteq> next_inode f \<Longrightarrow> inode h x = inode f x" "magic h = magic f"
    "live_first (visible (inode f q)) \<Longrightarrow> live_first (visible (inode h q))"
proof -
  note pi = put_inode[where f = f and i = i, folded g_def]
  have dq: "dir_ok (inode g q)" and lq: "look (visible (inode g q)) name = 0" "visible (inode g q) = visible (inode f q)"
    using d new q by (simp_all add: pi(1))
  have n: "num (inode g (next_inode f)) = new_number f" by (simp add: pi(1))
  then have pos: "num (inode g (next_inode f)) > 0" using new_number_free[of f] by (simp add: number_free_def)
  note pd = put_entry_dir[OF dq pos lq(1), folded h_def] and pv = put_entry_visible(1)[OF dq, where p = "next_inode f" and name = name, folded h_def]
  note pe = put_entry_frame[where q = q and p = "next_inode f" and name = name and f = g, folded h_def]
  show "dir_ok (inode h q)"
    "look (visible (inode h q)) nm = (if nm = name then new_number f else look (visible (inode f q)) nm)"
    using pv pd(1)[of nm] n lq(2) by simp_all
  show "live_first (visible (inode f q)) \<Longrightarrow> live_first (visible (inode h q))" using pd(2) lq(2) by simp
  show "inode_table h = inode_table g" "magic h = magic f" using pe(7,8) pi(5) by simp_all
  show "mode (inode h (next_inode f)) = mode i" "bytes (inode h (next_inode f)) = bytes i"
    "num (inode h (next_inode f)) = new_number f"
    using pe(3,4,5)[of "next_inode f"] by (simp_all add: pi(1))
  show "inlink (inode h (next_inode f)) = inlink i + 1" using pe(2) by (simp add: pi(1))
  show "isize (inode h (next_inode f)) = isize i" using pe(6)[of "next_inode f"] q by (simp add: pi(1))
  show "inode h x = inode f x" if "x \<noteq> q" "x \<noteq> next_inode f" using pe(1)[of x] that by (simp add: pi(1))
qed

lemma ramfs_creat_eq: "magic f = RAMFS_MAGIC \<Longrightarrow> ramfs_creat v name m u g f =
    (0, ramfs_put_entry (vdata v) (next_inode f) name (ramfs_put_inode (next_inode f)
       (snd (new_inode (inode_zero\<lparr>mode := S_IFREG OR (m AND 0x1FF)\<rparr>) f))))"
  by (simp add: ramfs_creat_def new_inode_def Let_def)

lemma ramfs_mknod_eq: "magic f = RAMFS_MAGIC \<Longrightarrow> ramfs_mknod v name m rdev u g f =
    (0, ramfs_put_entry (vdata v) (next_inode f) name (ramfs_put_inode (next_inode f)
       (snd (new_inode (inode_zero\<lparr>mode := m, iuid := u, igid := g, irdev := rdev\<rparr>) f))))"
  by (simp add: ramfs_mknod_def new_inode_def Let_def)

section \<open>File contents\<close>

definition file_ok :: "ramfs_inode \<Rightarrow> bool" where
  "file_ok i \<longleftrightarrow> isize i = int (length (bytes i)) \<and> isize i < 2 ^ 31"

lemma to_off_id: "0 \<le> x \<Longrightarrow> x < 2 ^ 31 \<Longrightarrow> to_off x = x"
  by (simp add: to_off_def signed_of_int signed_take_bit_int_eq_self)

lemma ramfs_write_eq:
  fixes f :: ramfs
  assumes m: "magic f = RAMFS_MAGIC" and ok: "file_ok (inode f (vdata v))" and off: "0 \<le> offset"
    and fin: "offset + int (length buf) < 2 ^ 31" and room: "0 \<le> rused f" "rused f \<le> rsize f" "rsize f < 2 ^ 31"
  defines "i \<equiv> inode f (vdata v)"
  defines "n \<equiv> max (length (bytes i)) (nat offset + length buf)"
  shows "\<exists>v' f'. ramfs_write junk v buf offset f = (int (length buf), v', f') \<and>
      inode f' = (inode f)(vdata v := i\<lparr>isize := int n, bytes := overwrite (resize (bytes i) n junk) (nat offset) buf\<rparr>) \<and>
      rused f' = rused f + int n - isize i \<and> magic f' = magic f \<and> rsize f' = rsize f \<and>
      inode_table f' = inode_table f \<and> vdata v' = vdata v"
proof -
  have len: "isize i = int (length (bytes i))" "isize i < 2 ^ 31" using ok by (simp_all add: file_ok_def i_def)
  have res: "length (bytes i) = n \<Longrightarrow> resize (bytes i) n junk = bytes i" by (simp add: resize_def)
  show ?thesis
  proof (cases "offset + int (length buf) > isize i")
    case True
    have n: "int n = offset + int (length buf)" "nat (offset + int (length buf)) = n"
      using True len off by (simp_all add: n_def max_def nat_add_distrib)
    have "to_u32 (rused f + isize i) = rused f + isize i" using room len by (simp add: to_u32_def)
    then have "\<not> to_u32 (rused f + isize i) - (offset + int (length buf)) \<ge> rsize f" using True room by linarith
    moreover have "to_off (offset + int (length buf)) = int n" using fin off n(1) by (simp add: to_off_id)
    moreover have "to_u32 (rused f + (offset + int (length buf)) - isize i) = rused f + int n - isize i"
      using fin room len True n(1) by (simp add: to_u32_def)
    ultimately show ?thesis using True m n
      by (simp add: ramfs_write_def Let_def i_def fun_upd_def algebra_simps cong: if_cong)
  next
    case False
    then have "nat offset + length buf \<le> length (bytes i)" using len off by linarith
    then have n: "length (bytes i) = n" by (simp add: n_def max_def)
    have upd: "i\<lparr>isize := int n, bytes := x\<rparr> = i\<lparr>bytes := x\<rparr>" for x using len n by (cases i) simp
    show ?thesis unfolding upd using False m len n res[OF n]
      by (simp add: ramfs_write_def Let_def i_def[symmetric])
  qed
qed

section \<open>Properties\<close>

text \<open>C16. Creating a node (\<^verbatim>\<open>ramfs_creat\<close>, \<^verbatim>\<open>ramfs_mknod\<close>) under a name the directory does not have: the call
  succeeds, the name now leads to a number that was free, the i-node table holds a new i-node under it with
  the requested type and permissions and one link, every other name of the directory leads where it led, and
  no other i-node changes.\<close>

theorem ramfs_create_lookup:
  assumes "magic f = RAMFS_MAGIC" and wf: "dir_wf (inode f (vdata v))" and "vdata v < next_inode f"
    and "ramfs_lookup v name f = 0"
  shows "\<forall>res \<in> {(ramfs_creat v name m u g f, S_IFREG OR (m AND 0x1FF)), (ramfs_mknod v name m rdev u g f, m)}.
      case res of ((err, f'), md) \<Rightarrow> err = 0 \<and> (let k = ramfs_lookup v name f'; p = next_inode f in
        number_free f k \<and> k \<le> length (inode_table f') \<and> inode_table f' ! (k - 1) = Some p \<and>
        num (inode f' p) = k \<and> mode (inode f' p) = md \<and> inlink (inode f' p) = 1 \<and> isize (inode f' p) = 0 \<and>
        dir_wf (inode f' (vdata v)) \<and> (\<forall>nm. nm \<noteq> name \<longrightarrow> ramfs_lookup v nm f' = ramfs_lookup v nm f) \<and>
        (\<forall>x. x \<noteq> vdata v \<and> x \<noteq> p \<longrightarrow> inode f' x = inode f x))"
proof -
  have q: "vdata v \<noteq> next_inode f" using assms(3) by simp
  have ok: "dir_ok (inode f (vdata v))" "live_first (visible (inode f (vdata v)))" using wf by (simp_all add: dir_wf_def)
  have l: "look (visible (inode f (vdata v))) name = 0" using ok assms(4) by (simp add: ramfs_lookup_look)
  have main: "let f' = ramfs_put_entry (vdata v) (next_inode f) name (ramfs_put_inode (next_inode f) (snd (new_inode i f)));
        k = ramfs_lookup v name f'; p = next_inode f in
        number_free f k \<and> k \<le> length (inode_table f') \<and> inode_table f' ! (k - 1) = Some p \<and>
        num (inode f' p) = k \<and> mode (inode f' p) = mode i \<and> inlink (inode f' p) = 1 \<and> isize (inode f' p) = 0 \<and>
        dir_wf (inode f' (vdata v)) \<and> (\<forall>nm. nm \<noteq> name \<longrightarrow> ramfs_lookup v nm f' = ramfs_lookup v nm f) \<and>
        (\<forall>x. x \<noteq> vdata v \<and> x \<noteq> p \<longrightarrow> inode f' x = inode f x)"
    if "inlink i = 0" "isize i = 0" for i
  proof -
    let ?f = "ramfs_put_entry (vdata v) (next_inode f) name (ramfs_put_inode (next_inode f) (snd (new_inode i f)))"
    note c = create_in_dir[OF ok(1) q l, where i = i] and pi = put_inode[where f = f and i = i]
    have "ramfs_lookup v nm ?f = (if nm = name then new_number f else ramfs_lookup v nm f)" for nm
      using c(1) c(2)[of nm] ok by (simp add: ramfs_lookup_look)
    then show ?thesis using c pi(2,3) new_number_free[of f] that ok(2) by (simp add: Let_def dir_wf_def)
  qed
  show ?thesis
    using main[of "inode_zero\<lparr>mode := S_IFREG OR (m AND 0x1FF)\<rparr>"]
      main[of "inode_zero\<lparr>mode := m, iuid := u, igid := g, irdev := rdev\<rparr>"]
    by (simp add: ramfs_creat_eq[OF assms(1)] ramfs_mknod_eq[OF assms(1)] inode_zero_def Let_def)
qed

definition ramfs1 :: ramfs where "ramfs1 = snd (ramfs_mount 0)"

definition root_vnode :: vnode where
  "root_vnode = \<lparr>ino = 1, vmode = 0, vnlink = 0, vsize = 0, vuid = 0, vgid = 0, vdev = 0, vblocks = 0,
     vblock_size = 0, vrdev = 0, vmp = 0, vfsmountedhere = None, vdata = 1, refcount = 1\<rparr>"

lemma ramfs1_facts:
  "magic ramfs1 = RAMFS_MAGIC" "dir_ok (inode ramfs1 1)" "next_inode ramfs1 = 2" "rused ramfs1 = 0"
  "rsize ramfs1 = 0x400000"
  "visible (inode ramfs1 1) = [\<lparr>dname = ''.'', dinode = 1\<rparr>, \<lparr>dname = ''..'', dinode = 1\<rparr>]"
  "inode_table ramfs1 = [Some 1]" "isize (inode ramfs1 1) = 520"
  by (auto simp: ramfs1_def ramfs_mount_def new_inode_def ramfs_put_entry_def Let_def inode_zero_def dir_ok_def
      visible_def find_dent.simps DENT_def RAMFS_DEFAULT_SIZE_def RAMFS_ROOT_INODE_def)

lemma ramfs1_wf: "dir_wf (inode ramfs1 1)" "dir_wf (inode ramfs1 (Suc 0))"
  using ramfs1_facts by (auto simp: dir_wf_def live_first_def less_Suc_eq numeral_2_eq_2)

theorem ramfs_create_lookup_witness:
  "(case ramfs_creat root_vnode ''a'' 0x1A4 0 0 ramfs1 of (err, f') \<Rightarrow> err = 0 \<and>
      number_free ramfs1 (ramfs_lookup root_vnode ''a'' f') \<and> mode (inode f' 2) = S_IFREG OR (0x1A4 AND 0x1FF)) \<and>
   (case ramfs_mknod root_vnode ''a'' 0x1A4 0 0 0 ramfs1 of (err, f') \<Rightarrow> err = 0 \<and>
      number_free ramfs1 (ramfs_lookup root_vnode ''a'' f') \<and> mode (inode f' 2) = 0x1A4)"
proof -
  have "magic ramfs1 = RAMFS_MAGIC" "dir_wf (inode ramfs1 (vdata root_vnode))" "vdata root_vnode < next_inode ramfs1"
    "ramfs_lookup root_vnode ''a'' ramfs1 = 0"
    using ramfs1_facts by (simp_all add: ramfs_lookup_look root_vnode_def ramfs1_wf)
  note w = ramfs_create_lookup[OF this, where m = "0x1A4" and u = 0 and g = 0 and rdev = 0]
  show ?thesis using w by (simp add: Let_def ramfs1_facts split: prod.splits)
qed

lemma ramfs_write_spec:
  assumes "magic f = RAMFS_MAGIC" and "file_ok (inode f (vdata v))" and "0 \<le> offset"
    and "offset + int (length buf) < 2 ^ 31" and "0 \<le> rused f" and "rused f \<le> rsize f" and "rsize f < 2 ^ 31"
  shows "case ramfs_write junk v buf offset f of (n, v', f') \<Rightarrow>
      n = int (length buf) \<and> file_ok (inode f' (vdata v)) \<and>
      isize (inode f' (vdata v)) = max (isize (inode f (vdata v))) (offset + int (length buf)) \<and>
      ramfs_read v' (length buf) offset f' = (int (length buf), buf) \<and>
      (\<forall>k. int k < isize (inode f (vdata v)) \<and> (int k < offset \<or> offset + int (length buf) \<le> int k) \<longrightarrow>
         bytes (inode f' (vdata v)) ! k = bytes (inode f (vdata v)) ! k) \<and>
      (\<forall>x. x \<noteq> vdata v \<longrightarrow> inode f' x = inode f x) \<and>
      rused f' = rused f + isize (inode f' (vdata v)) - isize (inode f (vdata v)) \<and> vdata v' = vdata v"
proof -
  let ?i = "inode f (vdata v)"
  define n where "n = max (length (bytes ?i)) (nat offset + length buf)"
  obtain v' f' where w: "ramfs_write junk v buf offset f = (int (length buf), v', f')"
    and f': "inode f' = (inode f)(vdata v := ?i\<lparr>isize := int n, bytes := overwrite (resize (bytes ?i) n junk) (nat offset) buf\<rparr>)"
    "rused f' = rused f + int n - isize ?i" "magic f' = magic f" "vdata v' = vdata v"
    using ramfs_write_eq[OF assms, of junk] unfolding n_def by blast
  have s: "isize ?i = int (length (bytes ?i))" "isize ?i < 2 ^ 31" using assms(2) by (simp_all add: file_ok_def)
  have nn: "int n = max (isize ?i) (offset + int (length buf))" "int n < 2 ^ 31" "nat offset + length buf \<le> n"
    using s assms(3,4) by (simp_all add: n_def max_def) linarith+
  note o = overwrite_simps[of "nat offset" buf "resize (bytes ?i) n junk", unfolded length_resize, OF nn(3)]
  have "bytes (inode f' (vdata v)) ! k = bytes ?i ! k"
    if "int k < isize ?i" "int k < offset \<or> offset + int (length buf) \<le> int k" for k
  proof -
    have "k < n" "k < length (bytes ?i)" "\<not> (nat offset \<le> k \<and> k < nat offset + length buf)"
      using that s nn(1) by linarith+ (use that assms(3) in auto)
    then show ?thesis using o(2)[of k] by (auto simp: f' nth_resize)
  qed
  moreover have "ramfs_read v' (length buf) offset f' = (int (length buf), buf)"
    using o(3) nn(1) assms(1) by (simp add: ramfs_read_def Let_def f')
  ultimately show ?thesis using o(1) nn(1,2) f'(4) by (simp add: w f'(1-3) file_ok_def)
qed


definition file_vnode :: vnode where "file_vnode = root_vnode\<lparr>vdata := 2\<rparr>"

lemma ramfs1_free_inode: "inode ramfs1 2 = inode_zero"
  using put_entry_frame(1)[where x = 2 and q = 1 and p = 1]
  by (simp add: ramfs1_def ramfs_mount_def new_inode_def Let_def)


text \<open>C29. The size a v-node caches goes stale when an entry is created through it: \<^verbatim>\<open>ramfs_creat\<close> grows the
  directory i-node and not \<^verbatim>\<open>vnode->size\<close>, so the \<^verbatim>\<open>ramfs_flush\<close> that \<^verbatim>\<open>ramfs_close\<close> runs when the directory's
  v-node is released sets the old size again, and a name that was appended is gone: the lookup that found it
  after the creation finds nothing after the close.\<close>

theorem ramfs_close_loses_entry:
  assumes "magic f = RAMFS_MAGIC" and "dir_ok (inode f (vdata v))" and "vdata v < next_inode f"
    and "ramfs_lookup v name f = 0" and "vsize v = isize (inode f (vdata v))" and "vsize v < 2 ^ 31"
    and "\<forall>e \<in> set (visible (inode f (vdata v))). dinode e > 0"
  shows "let f1 = snd (ramfs_creat v name m u g f); f2 = snd (ramfs_close v f1)
    in ramfs_lookup v name f1 > 0 \<and> ramfs_lookup v name f2 = 0"
proof -
  let ?z = "inode_zero\<lparr>mode := S_IFREG OR (m AND 0x1FF)\<rparr>" and ?q = "vdata v"
  let ?g = "ramfs_put_inode (next_inode f) (snd (new_inode ?z f))"
  define f1 where "f1 = ramfs_put_entry ?q (next_inode f) name ?g"
  have q: "?q \<noteq> next_inode f" using assms(3) by simp
  have l: "look (visible (inode f ?q)) name = 0" using assms(2,4) by (simp add: ramfs_lookup_look)
  note c = create_in_dir[OF assms(2) q l, where i = ?z, folded f1_def]
  have f1: "snd (ramfs_creat v name m u g f) = f1" by (simp add: ramfs_creat_eq[OF assms(1)] f1_def)
  have pos: "ramfs_lookup v name f1 > 0"
    using c(1,2) new_number_free[of f] by (simp add: ramfs_lookup_look number_free_def)
  obtain n where n: "isize (inode f ?q) = int n * DENT" "n \<le> length (dents (inode f ?q))"
    using assms(2) by (auto simp: dir_ok_def)
  have gq: "inode ?g ?q = inode f ?q" using put_inode(1)[where f = f and i = ?z and x = ?q] q by simp
  have "dinode (dents (inode f ?q) ! l) > 0" if "l < n" for l
    using assms(7) nth_mem[of l "visible (inode f ?q)"] dir_ok_visible(1,2)[OF n] that by simp
  then have none: "find_dent (\<lambda>e. dinode e = 0) (inode f ?q) 0 = None"
    using find_dent_spec[OF n, of 0 "\<lambda>e. dinode e = 0"] by (fastforce split: option.splits)
  have d1: "dents (inode f1 ?q) = take n (dents (inode f ?q)) @ [\<lparr>dname = name, dinode = new_number f\<rparr>]"
    using q none gq n put_inode(1)[where f = f and i = ?z and x = "next_inode f"]
    by (simp add: f1_def ramfs_put_entry_def Let_def DENT_def)
  have off: "to_off (vsize v) = int n * DENT" using assms(5,6) n(1) by (simp add: to_off_id DENT_def)
  define i2 where "i2 = inode (snd (ramfs_close v f1)) ?q"
  have i2: "isize i2 = int n * DENT" "dents i2 = dents (inode f1 ?q)"
    using off c(10) assms(1) by (simp_all add: i2_def ramfs_close_def ramfs_flush_def Let_def)
  have ok2: "dir_ok i2" using i2 d1 n(2) by (auto simp: dir_ok_def intro!: exI[of _ n])
  have "visible i2 = visible (inode f ?q)"
    using dir_ok_visible(1)[of i2 n] dir_ok_visible(1)[OF n] i2 d1 n(2) by simp
  then have "ramfs_lookup v name (snd (ramfs_close v f1)) = 0"
    using ok2 l unfolding i2_def by (simp add: ramfs_lookup_look)
  then show ?thesis using pos by (simp add: f1 Let_def)
qed

theorem ramfs_close_loses_entry_witness:
  "let v = snd (ramfs_open root_vnode ramfs1); f1 = snd (ramfs_creat v ''a'' 0x1A4 0 0 ramfs1); f2 = snd (ramfs_close v f1)
    in ramfs_lookup v ''a'' f1 > 0 \<and> ramfs_lookup v ''a'' f2 = 0"
proof -
  let ?v = "snd (ramfs_open root_vnode ramfs1)"
  note t = ramfs1_facts(7,8)
  have v: "vdata ?v = 1" "vsize ?v = 520"
    using t by (simp_all add: ramfs_open_def ramfs1_facts root_vnode_def Let_def)
  have "dir_ok (inode ramfs1 (vdata ?v))" "vdata ?v < next_inode ramfs1" "ramfs_lookup ?v ''a'' ramfs1 = 0"
    "vsize ?v = isize (inode ramfs1 (vdata ?v))" "vsize ?v < 2 ^ 31"
    "\<forall>e \<in> set (visible (inode ramfs1 (vdata ?v))). dinode e > 0"
    unfolding v using ramfs1_facts t v by (simp_all add: ramfs_lookup_look)
  note w = ramfs_close_loses_entry[OF ramfs1_facts(1) this, where m = "0x1A4" and u = 0 and g = 0]
  show ?thesis using w by (simp add: Let_def)
qed

section \<open>Removing and listing entries\<close>

lemma look_kill:
  assumes "live_first es" "k < length es" "dname (es ! k) = name" "\<forall>l < k. dname (es ! l) \<noteq> name"
  shows "look (es[k := (es ! k)\<lparr>dinode := 0\<rparr>]) nm = (if nm = name then 0 else look es nm)"
  using assms
proof (induction es arbitrary: k)
  case (Cons e es)
  have lf: "live_first es" using Cons.prems(1) unfolding live_first_def
    by (metis Suc_less_eq length_Cons nth_Cons_Suc)
  have dead: "(\<And>l. l < length xs \<Longrightarrow> dname (xs ! l) = name \<Longrightarrow> dinode (xs ! l) = 0) \<Longrightarrow> look xs name = 0" for xs
  proof (induction xs)
    case (Cons x xs)
    show ?case using Cons.prems[of 0] Cons.prems[of "Suc _"] Cons.IH by auto
  qed simp
  show ?case
  proof (cases k)
    case 0
    have "look es name = 0"
    proof (rule dead)
      fix l assume l: "l < length es" "dname (es ! l) = name"
      show "dinode (es ! l) = 0"
        using Cons.prems(1)[unfolded live_first_def, rule_format, of "Suc l" 0] Cons.prems(3) 0 l by simp
    qed
    then show ?thesis using 0 Cons.prems(3) by auto
  next
    case (Suc m)
    have "\<forall>l < m. dname (es ! l) \<noteq> name" "dname e \<noteq> name" using Cons.prems(4) Suc by force+
    then show ?thesis using Cons.IH[OF lf, of m] Cons.prems(2,3) Suc by auto
  qed
qed simp

text \<open>C22. \<^verbatim>\<open>ramfs_unlink\<close> on a well-formed directory removes exactly the name given: it is no longer found, every
  other name leads where it led, the directory stays well formed and no other i-node changes. The call succeeds
  whenever the name was there, and its only error is \<^verbatim>\<open>-ENOENT\<close>; the search by name alone, which also looks at
  dead entries, never hits a dead entry in front of a live one of the same name.\<close>

theorem ramfs_unlink_correct:
  assumes "dir_wf (inode f (vdata v))"
  shows "case ramfs_unlink v name f of (err, f') \<Rightarrow>
      (\<forall>nm. ramfs_lookup v nm f' = (if nm = name then 0 else ramfs_lookup v nm f)) \<and>
      dir_wf (inode f' (vdata v)) \<and> (\<forall>x. x \<noteq> vdata v \<longrightarrow> inode f' x = inode f x) \<and>
      inode_table f' = inode_table f \<and> (err = 0 \<or> err = - errno_code ENOENT \<and> f' = f \<and> ramfs_lookup v name f = 0)"
proof -
  let ?i = "inode f (vdata v)"
  have ok: "dir_ok ?i" "live_first (visible ?i)" using assms by (simp_all add: dir_wf_def)
  obtain n where n: "isize ?i = int n * DENT" "n \<le> length (dents ?i)" using ok by (auto simp: dir_ok_def)
  note vis = dir_ok_visible[OF n] and sp = find_dent_spec[OF n le0, of "\<lambda>e. dname e = name"]
  show ?thesis
  proof (cases "find_dent (\<lambda>e. dname e = name) ?i 0")
    case None
    then have "\<forall>l<length (visible ?i). dname (visible ?i ! l) \<noteq> name" using sp vis(1,2) by simp
    then have "look (visible ?i) name = 0" using look_absent by blast
    then show ?thesis using None ok by (auto simp: ramfs_unlink_def ramfs_lookup_look dir_wf_def)
  next
    case (Some k)
    then have k: "k < n" "dname (visible ?i ! k) = name" "\<forall>l<k. dname (visible ?i ! l) \<noteq> name" using sp vis(1) by auto
    define f' where "f' = snd (ramfs_unlink v name f)"
    define j where "j = inode f' (vdata v)"
    have j: "isize j = isize ?i" "dents j = (dents ?i)[k := (dents ?i ! k)\<lparr>dinode := 0\<rparr>]"
      "ramfs_unlink v name f = (0, f')" "inode_table f' = inode_table f" "\<And>x. x \<noteq> vdata v \<Longrightarrow> inode f' x = inode f x"
      by (simp_all add: j_def f'_def ramfs_unlink_def Some)
    have n': "isize j = int n * DENT" "n \<le> length (dents j)" using n j by simp_all
    have v': "visible j = (visible ?i)[k := (visible ?i ! k)\<lparr>dinode := 0\<rparr>]"
      using dir_ok_visible(1)[OF n'] vis(1) j(2) k(1) by (simp add: take_update_swap)
    have "dir_wf j" using n' live_first_kill[OF ok(2)] by (auto simp: dir_wf_def dir_ok_def v')
    moreover have "look (visible j) nm = (if nm = name then 0 else look (visible ?i) nm)" for nm
      unfolding v' using look_kill[OF ok(2), of k name nm] k vis(2) by simp
    ultimately show ?thesis using j ok(1) unfolding j(3) by (auto simp: j_def[symmetric] dir_wf_def ramfs_lookup_look)
  qed
qed

theorem ramfs_unlink_correct_witness:
  "case ramfs_unlink root_vnode ''a'' (snd (ramfs_creat root_vnode ''a'' 0 0 0 ramfs1)) of (err, f') \<Rightarrow>
     ramfs_lookup root_vnode ''a'' f' = 0 \<and> dir_wf (inode f' 1)"
proof -
  let ?f = "snd (ramfs_creat root_vnode ''a'' 0 0 0 ramfs1)"
  have l: "look (visible (inode ramfs1 1)) ''a'' = 0" unfolding ramfs1_facts by simp
  have q: "1 \<noteq> next_inode ramfs1" by (simp add: ramfs1_facts)
  note c = create_in_dir[OF ramfs1_facts(2) q l, where i = "inode_zero\<lparr>mode := S_IFREG\<rparr>"]
  have "live_first (visible (inode ramfs1 1))" using ramfs1_wf(1) by (simp add: dir_wf_def)
  then have wf: "dir_wf (inode ?f (vdata root_vnode))"
    using c(1,11) by (simp add: dir_wf_def ramfs_creat_eq[OF ramfs1_facts(1)] root_vnode_def)
  show ?thesis using ramfs_unlink_correct[OF wf, of "''a''"] by (auto split: prod.splits simp: root_vnode_def)
qed

text \<open>One pass of \<^verbatim>\<open>ramfs_getdents\<close> through a directory.\<close>

lemma getdents_loop:
  assumes "isize i = int n * DENT" "n \<le> length (dents i)" "k \<le> n" "268 + 4 * (n - k) \<le> len"
  shows "ramfs_getdents_loop i len k count =
    (count + sum_list (map (d_reclen \<circ> dname) (filter (\<lambda>e. dinode e > 0) (drop k (take n (dents i))))), n)"
  using assms(3,4)
proof (induction "n - k" arbitrary: k len count)
  case 0
  then show ?case using dir_ok_visible(3)[OF assms(1,2), of k] by (subst ramfs_getdents_loop.simps) simp
next
  case (Suc m)
  then have k: "k < n" by simp
  have d: "drop k (take n (dents i)) = dents i ! k # drop (Suc k) (take n (dents i))"
    using k assms(2) by (simp add: Cons_nth_drop_Suc[symmetric])
  have IH: "ramfs_getdents_loop i l (Suc k) c =
    (c + sum_list (map (d_reclen \<circ> dname) (filter (\<lambda>e. dinode e > 0) (drop (Suc k) (take n (dents i))))), n)"
    if "268 + 4 * (n - Suc k) \<le> l" for l c
    using Suc.hyps(1)[of "Suc k" l c] Suc.hyps(2) k that by simp
  show ?case unfolding d using Suc.prems(2) k assms(2) dir_ok_visible(3)[OF assms(1,2), of k]
    by (subst ramfs_getdents_loop.simps) (auto simp: IH)
qed

text \<open>\<^verbatim>\<open>ramfs_getdents\<close> from the start of a directory reports one record per live entry and ends at the end
  of the directory as soon as the buffer length is 268 plus 4 per entry, whatever the records take: after each
  record it counts \<^verbatim>\<open>sizeof(sizeof(struct dirent))\<close>, four bytes, as used. The number of bytes it reports (and has
  written) exceeds the buffer when the names are long.\<close>

theorem ramfs_getdents_overrun:
  assumes "dir_ok (inode f (vdata v))" and "268 + 4 * length (visible (inode f (vdata v))) \<le> len"
  shows "ramfs_getdents v len 0 f =
    (int (sum_list (map (d_reclen \<circ> dname) (filter (\<lambda>e. dinode e > 0) (visible (inode f (vdata v)))))),
     isize (inode f (vdata v)))"
proof -
  obtain n where n: "isize (inode f (vdata v)) = int n * DENT" "n \<le> length (dents (inode f (vdata v)))"
    using assms(1) by (auto simp: dir_ok_def)
  show ?thesis using getdents_loop[OF n, of 0 len 0] dir_ok_visible(1,2)[OF n] assms(2) n(1)
    by (simp add: ramfs_getdents_def)
qed

definition long_dir :: ramfs where
  "long_dir = upd_inode 1 (\<lambda>i. i\<lparr>isize := 2 * DENT, dents :=
     [\<lparr>dname = replicate 255 (CHR ''a''), dinode = 2\<rparr>, \<lparr>dname = replicate 255 (CHR ''b''), dinode = 3\<rparr>]\<rparr>) ramfs1"

theorem ramfs_getdents_overrun_witness:
  "fst (ramfs_getdents root_vnode 276 0 long_dir) = 536"
proof -
  have vis: "visible (inode long_dir 1) =
      [\<lparr>dname = replicate 255 (CHR ''a''), dinode = 2\<rparr>, \<lparr>dname = replicate 255 (CHR ''b''), dinode = 3\<rparr>]"
    by (simp add: long_dir_def visible_def DENT_def)
  have "dir_ok (inode long_dir (vdata root_vnode))"
    by (auto simp: long_dir_def root_vnode_def dir_ok_def intro!: exI[of _ 2])
  moreover have "268 + 4 * length (visible (inode long_dir (vdata root_vnode))) \<le> 276"
    using vis by (simp add: root_vnode_def)
  ultimately show ?thesis using ramfs_getdents_overrun[of long_dir root_vnode 276] vis
    by (simp add: root_vnode_def d_reclen_def ROUND_UP_def)
qed

end
