(* ===== verification/Vfs.thy ===== *)
theory Vfs
  imports Vnode Devices Pipe Strings
begin

text \<open>
  The virtual file system \<^verbatim>\<open>kernel/vfs.c\<close>, with \<^verbatim>\<open>sys_pipe\<close> and \<^verbatim>\<open>pipe_stat\<close> of \<^verbatim>\<open>kernel/pipe.c\<close>. V-nodes,
  mount points, open files and pipes live in heaps indexed by pointer; a v-node is allocated as long as it is
  on the list of its mount point, a file as long as the heap has it. The file systems are records of
  operations on a state \<open>'f\<close> kept in the mount point, the drivers work on \<open>'w\<close>. A system call gets the process
  that makes it and returns the C result, the process and the state; it runs under the mutexes it takes and is
  one step, up to a point where a pipe lets it sleep. \<open>None\<close> is an access outside the memory the code owns.
  Memory that \<^verbatim>\<open>kalloc\<close> returns is unspecified (\<open>kjunk\<close>); the socket layer that closes a socket is not part of
  the sources (\<open>shutdown\<close>).
\<close>

section \<open>State\<close>

definition OPEN_MAX :: nat where "OPEN_MAX = 64"
definition SYMLOOP_MAX :: nat where "SYMLOOP_MAX = 32"
definition PATH_MAX :: nat where "PATH_MAX = 1024"
definition NAME_MAX :: nat where "NAME_MAX = 255"

definition FREAD :: u32 where "FREAD = 1"
definition FWRITE :: u32 where "FWRITE = 2"
definition FAPPEND :: u32 where "FAPPEND = 8"
definition FCREAT :: u32 where "FCREAT = 0x200"
definition FTRUNC :: u32 where "FTRUNC = 0x400"
definition FEXCL :: u32 where "FEXCL = 0x800"
definition O_RDONLY :: u32 where "O_RDONLY = 0"
definition O_WRONLY :: u32 where "O_WRONLY = 1"
definition O_RDWR :: u32 where "O_RDWR = 2"
definition MS_RDONLY :: u32 where "MS_RDONLY = 1"
definition FD_CLOEXEC :: u32 where "FD_CLOEXEC = 1"

record vfile =
  frefs :: int
  fflags :: u32
  fmode :: u32
  fpos :: int
  ftype :: mode_t
  fvnode :: "nat option"
  fdataptr :: "nat option"

record filedes =
  fdflags :: u32
  fdfile :: nat

record 'f mountpoint =
  mdevice :: dev_t
  mdevname :: string
  mfs :: "'f filesystem"
  mflags :: u32
  mdata :: 'f
  root_vnode :: nat
  parent_vnode :: "nat option"
  vnode_list :: "nat list"

text \<open>The fields of \<^verbatim>\<open>struct proc\<close> the file system uses.\<close>

record vproc =
  p_uid :: int
  p_gid :: int
  p_euid :: int
  p_egid :: int
  p_umask :: mode_t
  p_root :: nat
  p_cwd :: nat
  p_fds :: "filedes option list"

record stat =
  st_dev :: dev_t
  st_ino :: nat
  st_mode :: mode_t
  st_nlink :: u16
  st_uid :: int
  st_gid :: int
  st_rdev :: u16
  st_size :: int
  st_blksize :: int
  st_blocks :: int

record ('f, 'w) vfs =
  fs_list :: "'f filesystem list"
  fs_refs :: "string \<Rightarrow> int"
  mount_list :: "nat list"
  mounts :: "nat \<Rightarrow> 'f mountpoint"
  next_mount :: nat
  vnodes :: "nat \<Rightarrow> vnode"
  next_vnode :: nat
  files :: "nat \<rightharpoonup> vfile"
  next_file :: nat
  pipes :: "nat \<Rightarrow> pipe"
  next_pipe :: nat
  cdevs :: "'w cdev_table"
  bdevs :: "'w bdev_table"
  world :: 'w
  shutdown :: "int \<Rightarrow> 'w \<Rightarrow> int \<times> 'w"
  kjunk :: "nat \<Rightarrow> u32"

abbreviation upd_vnode :: "nat \<Rightarrow> (vnode \<Rightarrow> vnode) \<Rightarrow> ('f, 'w) vfs \<Rightarrow> ('f, 'w) vfs" where
  "upd_vnode v g s \<equiv> s\<lparr>vnodes := (vnodes s)(v := g (vnodes s v))\<rparr>"

abbreviation upd_mount :: "nat \<Rightarrow> ('f mountpoint \<Rightarrow> 'f mountpoint) \<Rightarrow> ('f, 'w) vfs \<Rightarrow> ('f, 'w) vfs" where
  "upd_mount m g s \<equiv> s\<lparr>mounts := (mounts s)(m := g (mounts s m))\<rparr>"

abbreviation mp_of :: "('f, 'w) vfs \<Rightarrow> nat \<Rightarrow> 'f mountpoint" where
  "mp_of s v \<equiv> mounts s (vmp (vnodes s v))"

abbreviation ops_of :: "('f, 'w) vfs \<Rightarrow> nat \<Rightarrow> 'f vnode_ops" where
  "ops_of s v \<equiv> fs_ops (mfs (mp_of s v))"

abbreviation set_data :: "nat \<Rightarrow> 'f \<Rightarrow> ('f, 'w) vfs \<Rightarrow> ('f, 'w) vfs" where
  "set_data v f s \<equiv> upd_mount (vmp (vnodes s v)) (\<lambda>mp. mp\<lparr>mdata := f\<rparr>) s"

definition VNODE_HOLD :: "nat \<Rightarrow> ('f, 'w) vfs \<Rightarrow> ('f, 'w) vfs" where
  "VNODE_HOLD v s = upd_vnode v (\<lambda>x. x\<lparr>refcount := refcount x + 1\<rparr>) s"

definition VNODE_REL :: "nat \<Rightarrow> ('f, 'w) vfs \<Rightarrow> ('f, 'w) vfs" where
  "VNODE_REL v s = upd_vnode v (\<lambda>x. x\<lparr>refcount := refcount x - 1\<rparr>) s"

section \<open>Paths and permissions\<close>

fun split_scan :: "string \<Rightarrow> nat \<Rightarrow> nat" where
  "split_scan path 0 = 0"
| "split_scan path (Suc i) = (if path ! Suc i = CHR ''/'' then Suc i else split_scan path i)"

text \<open>The directory part and the name. \<^verbatim>\<open>path[len]\<close> lies before the string for an empty path and for a
  single slash; the result does not fit its buffers for long paths.\<close>

definition vfs_path_split :: "string \<Rightarrow> (string \<times> string) option" where
  "vfs_path_split path =
     (if path = [] then None
      else let len = int (length path) - 1;
               len = (if path ! nat len = CHR ''/'' then len - 1 else len)
        in if len < 0 then None
           else let len = nat len; i = split_scan path len;
                    name = (if path ! i = CHR ''/'' then take (len - i) (drop (i + 1) path)
                            else take (len - i + 1) (drop i path));
                    dir = (if i > 0 then take i path else [])
             in if length name > NAME_MAX \<or> length dir \<ge> PATH_MAX then None else Some (dir, name))"

definition do_sys_access :: "vnode \<Rightarrow> mode_t \<Rightarrow> vproc \<Rightarrow> int" where
  "do_sys_access vnode m p =
     (let m = m AND 7;
          res = vmode vnode AND 0x1FF;
          res = (if \<not> (p_euid p \<noteq> 0 \<and> p_uid p \<noteq> 0) then (if res AND 0x49 \<noteq> 0 then 0x1FF else 0x1B6) else res);
          res = (if p_euid p = vuid vnode then drop_bit 6 res
                 else if p_egid p = vgid vnode then drop_bit 6 res else res)
      in if res AND 7 AND m = m then 0 else - errno_code EACCES)"

definition do_sys_stat :: "vnode \<Rightarrow> stat" where
  "do_sys_stat v = \<lparr>st_dev = vdev v, st_ino = ino v, st_mode = vmode v, st_nlink = vnlink v, st_uid = vuid v,
     st_gid = vgid v, st_rdev = vrdev v, st_size = vsize v, st_blksize = vblock_size v, st_blocks = vblocks v\<rparr>"

section \<open>File systems and v-nodes\<close>

definition fs_lookup :: "string \<Rightarrow> ('f, 'w) vfs \<Rightarrow> 'f filesystem option \<times> ('f, 'w) vfs" where
  "fs_lookup name s =
     (case find (\<lambda>fs. fs_name fs = name) (fs_list s) of
        None \<Rightarrow> (None, s)
      | Some fs \<Rightarrow> (Some fs, s\<lparr>fs_refs := (fs_refs s)(name := fs_refs s name + 1)\<rparr>))"

definition fs_register :: "'f filesystem \<Rightarrow> ('f, 'w) vfs \<Rightarrow> int \<times> ('f, 'w) vfs" where
  "fs_register fs s =
     (0, s\<lparr>fs_refs := (fs_refs s)(fs_name fs := 0), fs_list := fs # fs_list s\<rparr>)"

definition vnode_zero :: vnode where
  "vnode_zero = \<lparr>ino = 0, vmode = 0, vnlink = 0, vsize = 0, vuid = 0, vgid = 0, vdev = 0, vblocks = 0,
     vblock_size = 0, vrdev = 0, vmp = 0, vfsmountedhere = None, vdata = 0, refcount = 0\<rparr>"

definition vnode_new :: "nat \<Rightarrow> nat \<Rightarrow> ('f, 'w) vfs \<Rightarrow> nat option \<times> ('f, 'w) vfs" where
  "vnode_new m n s =
     (let v = vnode_zero\<lparr>refcount := 1, ino := n, vmp := m, vdev := mdevice (mounts s m)\<rparr>;
          new = next_vnode s;
          (err, v) = op_open (fs_ops (mfs (mounts s m))) v (mdata (mounts s m))
      in if err \<noteq> 0 then (None, s)
         else (Some new, upd_mount m (\<lambda>mp. mp\<lparr>vnode_list := new # vnode_list mp\<rparr>)
                           (s\<lparr>vnodes := (vnodes s)(new := v), next_vnode := new + 1\<rparr>)))"

definition vnode_free :: "nat \<Rightarrow> ('f, 'w) vfs \<Rightarrow> int \<times> ('f, 'w) vfs" where
  "vnode_free v s =
     (if refcount (vnodes s v) > 0 then (- errno_code EBUSY, s)
      else let m = vmp (vnodes s v);
               s = upd_mount m (\<lambda>mp. mp\<lparr>vnode_list := removeAll v (vnode_list mp)\<rparr>) s;
               (err, f) = op_close (ops_of s v) (vnodes s v) (mdata (mounts s m));
               s = set_data v f s
        in if err \<noteq> 0 then (err, upd_mount m (\<lambda>mp. mp\<lparr>vnode_list := v # vnode_list mp\<rparr>) s) else (0, s))"

definition vnode_lookup :: "nat \<Rightarrow> nat \<Rightarrow> ('f, 'w) vfs \<Rightarrow> nat option \<times> ('f, 'w) vfs" where
  "vnode_lookup m n s =
     (case find (\<lambda>v. ino (vnodes s v) = n) (vnode_list (mounts s m)) of
        None \<Rightarrow> (None, s) | Some v \<Rightarrow> (Some v, VNODE_HOLD v s))"

text \<open>The inner loop of \<^verbatim>\<open>vnode_get\<close>: it finds the v-node, fails, or meets a symbolic link, whose target is
  then the whole path that is still to be resolved.\<close>

datatype walk = Found nat | Fails int | Link nat string

definition cross_up :: "string \<Rightarrow> nat \<Rightarrow> ('f, 'w) vfs \<Rightarrow> nat \<times> ('f, 'w) vfs" where
  "cross_up t v s =
     (case parent_vnode (mp_of s v) of
        Some u \<Rightarrow> if t = ''..'' \<and> v = root_vnode (mp_of s v) then (u, VNODE_HOLD u (VNODE_REL v s)) else (v, s)
      | None \<Rightarrow> (v, s))"

definition cross_down :: "nat \<Rightarrow> ('f, 'w) vfs \<Rightarrow> nat \<times> ('f, 'w) vfs" where
  "cross_down v s =
     (case vfsmountedhere (vnodes s v) of
        None \<Rightarrow> (v, s)
      | Some m \<Rightarrow>
          let r = root_vnode (mounts s m); s = VNODE_HOLD r s
          in (r, case parent_vnode (mp_of s r) of Some u \<Rightarrow> VNODE_REL u s | None \<Rightarrow> s))"

definition vnode_child :: "nat \<Rightarrow> nat \<Rightarrow> ('f, 'w) vfs \<Rightarrow> nat option \<times> ('f, 'w) vfs" where
  "vnode_child v n s =
     (case vnode_lookup (vmp (vnodes s v)) n s of
        (Some w, s) \<Rightarrow> (Some w, s)
      | (None, s) \<Rightarrow> vnode_new (vmp (vnodes s v)) n s)"

definition read_link :: "vproc \<Rightarrow> nat \<Rightarrow> nat \<Rightarrow> ('f, 'w) vfs \<Rightarrow> walk \<times> ('f, 'w) vfs" where
  "read_link p v w s =
     (case op_readlink (ops_of s w) of
        None \<Rightarrow> (Fails (- errno_code ENOTSUP), VNODE_REL w (VNODE_REL v s))
      | Some f \<Rightarrow>
          (case f (vnodes s w) (mdata (mp_of s w)) of (err, path) \<Rightarrow>
             if err \<noteq> 0 then (Fails err, VNODE_REL w (VNODE_REL v s))
             else let s = VNODE_REL w s
               in if path \<noteq> [] \<and> hd path = CHR ''/''
                  then (Link (p_root p) path, VNODE_HOLD (p_root p) (VNODE_REL v s))
                  else (Link v path, s)))"

fun walk_path :: "vproc \<Rightarrow> bool \<Rightarrow> string list \<Rightarrow> nat \<Rightarrow> ('f, 'w) vfs \<Rightarrow> walk \<times> ('f, 'w) vfs" where
  "walk_path p followlink [] v s = (Found v, s)"
| "walk_path p followlink (t # ts) v s =
     (case cross_up t v s of (v, s) \<Rightarrow>
        if t = ''..'' \<and> v = p_root p then walk_path p followlink ts v s
        else
          let n = op_lookup (ops_of s v) (vnodes s v) t (mdata (mp_of s v))
          in if n = 0 then (Fails (- errno_code ENOENT), VNODE_REL v s)
             else case vnode_child v n s of
               (None, s) \<Rightarrow> (Fails (- errno_code EIO), VNODE_REL v s)
             | (Some w, s) \<Rightarrow>
                 (case cross_down w s of (w, s) \<Rightarrow>
                    if S_ISLNK (vmode (vnodes s w)) \<and> followlink then read_link p v w s
                    else if ts = [] then (Found w, VNODE_REL v s)
                    else if \<not> S_ISDIR (vmode (vnodes s v))
                      then (Fails (- errno_code ENOTDIR), VNODE_REL w (VNODE_REL v s))
                    else if do_sys_access (vnodes s w) 1 p \<noteq> 0
                      then (Fails (- errno_code EACCES), VNODE_REL w (VNODE_REL v s))
                    else walk_path p followlink ts w (VNODE_REL v s)))"

primrec vnode_get_loop :: "nat \<Rightarrow> vproc \<Rightarrow> bool \<Rightarrow> string \<Rightarrow> nat \<Rightarrow> ('f, 'w) vfs \<Rightarrow> (int + nat) \<times> ('f, 'w) vfs" where
  "vnode_get_loop 0 p followlink path v s = (Inl (- errno_code ELOOP), VNODE_REL v s)"
| "vnode_get_loop (Suc i) p followlink path v s =
     (let table = str_explode path (CHR ''/'')
      in if table = [] then (Inr v, s)
         else case walk_path p followlink table v s of
           (Found w, s) \<Rightarrow> (Inr w, s)
         | (Fails err, s) \<Rightarrow> (Inl err, s)
         | (Link w path, s) \<Rightarrow> vnode_get_loop i p followlink path w s)"

definition vnode_get :: "string \<Rightarrow> vproc \<Rightarrow> bool \<Rightarrow> ('f, 'w) vfs \<Rightarrow> (int + nat) \<times> ('f, 'w) vfs" where
  "vnode_get path p followlink s =
     (let v = (if path \<noteq> [] \<and> hd path = CHR ''/'' then p_root p else p_cwd p)
      in vnode_get_loop SYMLOOP_MAX p followlink path v (VNODE_HOLD v s))"

section \<open>System calls on paths\<close>

definition sys_access :: "string \<Rightarrow> mode_t \<Rightarrow> vproc \<Rightarrow> ('f, 'w) vfs \<Rightarrow> int \<times> ('f, 'w) vfs" where
  "sys_access path m p s =
     (case vnode_get path p True s of
        (Inl err, s) \<Rightarrow> (err, s)
      | (Inr v, s) \<Rightarrow> (do_sys_access (vnodes s v) m p, VNODE_REL v s))"

definition sys_chdir :: "string \<Rightarrow> vproc \<Rightarrow> ('f, 'w) vfs \<Rightarrow> int \<times> vproc \<times> ('f, 'w) vfs" where
  "sys_chdir path p s =
     (case vnode_get path p True s of
        (Inl err, s) \<Rightarrow> (err, p, s)
      | (Inr v, s) \<Rightarrow>
          if \<not> S_ISDIR (vmode (vnodes s v)) then (- errno_code ENOTDIR, p, VNODE_REL v s)
          else let err = do_sys_access (vnodes s v) 1 p
            in if err \<noteq> 0 then (err, p, VNODE_REL v s)
               else (0, p\<lparr>p_cwd := v\<rparr>, VNODE_REL (p_cwd p) s))"

definition sys_chroot :: "string \<Rightarrow> vproc \<Rightarrow> ('f, 'w) vfs \<Rightarrow> int \<times> vproc \<times> ('f, 'w) vfs" where
  "sys_chroot path p s =
     (if p_euid p \<noteq> 0 then (- errno_code EPERM, p, s)
      else case vnode_get path p True s of
        (Inl err, s) \<Rightarrow> (err, p, s)
      | (Inr v, s) \<Rightarrow>
          if \<not> S_ISDIR (vmode (vnodes s v)) then (- errno_code ENOTDIR, p, VNODE_REL v s)
          else (0, p\<lparr>p_root := v\<rparr>, VNODE_REL (p_root p) s))"

definition sys_stat :: "string \<Rightarrow> vproc \<Rightarrow> ('f, 'w) vfs \<Rightarrow> int \<times> stat option \<times> ('f, 'w) vfs" where
  "sys_stat path p s =
     (case vnode_get path p True s of
        (Inl err, s) \<Rightarrow> (err, None, s)
      | (Inr v, s) \<Rightarrow> (0, Some (do_sys_stat (vnodes s v)), VNODE_REL v s))"

definition sys_lstat :: "string \<Rightarrow> vproc \<Rightarrow> ('f, 'w) vfs \<Rightarrow> int \<times> stat option \<times> ('f, 'w) vfs" where
  "sys_lstat path p s =
     (case vnode_get path p False s of
        (Inl err, s) \<Rightarrow> (err, None, s)
      | (Inr v, s) \<Rightarrow> (0, Some (do_sys_stat (vnodes s v)), VNODE_REL v s))"

text \<open>The part \<^verbatim>\<open>sys_open\<close>, \<^verbatim>\<open>sys_mknod\<close> and \<^verbatim>\<open>sys_mkdir\<close> share: resolve the directory, check the right to write
  and search it and that it is not read-only, call the operation if the file system has it.\<close>

definition make_node :: "string \<Rightarrow> ('f vnode_ops \<Rightarrow> (vnode \<Rightarrow> 'f \<Rightarrow> int \<times> 'f) option) \<Rightarrow> vproc \<Rightarrow> ('f, 'w) vfs \<Rightarrow>
    int \<times> ('f, 'w) vfs" where
  "make_node dir oper p s =
     (case vnode_get dir p True s of
        (Inl err, s) \<Rightarrow> (err, s)
      | (Inr v, s) \<Rightarrow>
          let err = do_sys_access (vnodes s v) 3 p
          in if err \<noteq> 0 then (err, VNODE_REL v s)
             else if mflags (mp_of s v) AND MS_RDONLY \<noteq> 0 then (- errno_code EROFS, VNODE_REL v s)
             else case oper (ops_of s v) of
               None \<Rightarrow> (- errno_code ENOTSUP, VNODE_REL v s)
             | Some f \<Rightarrow> (case f (vnodes s v) (mdata (mp_of s v)) of (err, d) \<Rightarrow> (err, VNODE_REL v (set_data v d s))))"

definition sys_mknod :: "string \<Rightarrow> mode_t \<Rightarrow> dev_t \<Rightarrow> vproc \<Rightarrow> ('f, 'w) vfs \<Rightarrow> (int \<times> ('f, 'w) vfs) option" where
  "sys_mknod path m dev p s =
     (if (S_ISBLK m \<or> S_ISCHR m) \<and> p_euid p \<noteq> 0 \<and> p_uid p \<noteq> 0 then Some (- errno_code EPERM, s)
      else case vnode_get path p True s of
        (Inr v, s) \<Rightarrow> Some (- errno_code EEXIST, VNODE_REL v s)
      | (Inl _, s) \<Rightarrow>
          (case vfs_path_split path of
             None \<Rightarrow> None
           | Some (dir, name) \<Rightarrow>
               let m = m AND NOT (p_umask p)
               in Some (make_node dir (\<lambda>ops. map_option (\<lambda>f v. f v name m dev (p_uid p) (p_gid p)) (op_mknod ops)) p s)))"

definition sys_mkdir :: "string \<Rightarrow> mode_t \<Rightarrow> vproc \<Rightarrow> ('f, 'w) vfs \<Rightarrow> (int \<times> ('f, 'w) vfs) option" where
  "sys_mkdir path m p s =
     (case vnode_get path p True s of
        (Inr v, s) \<Rightarrow> Some (- errno_code EEXIST, VNODE_REL v s)
      | (Inl _, s) \<Rightarrow>
          (case vfs_path_split path of
             None \<Rightarrow> None
           | Some (dir, name) \<Rightarrow>
               let m = m AND NOT (p_umask p)
               in Some (make_node dir (\<lambda>ops. map_option (\<lambda>f v. f v name m (p_uid p) (p_gid p)) (op_mkdir ops)) p s)))"

text \<open>Writing the attributes of a v-node back, if the file system can.\<close>

definition flushed :: "nat \<Rightarrow> ('f, 'w) vfs \<Rightarrow> ('f, 'w) vfs" where
  "flushed v s = (case op_flush (ops_of s v) of
     None \<Rightarrow> s | Some f \<Rightarrow> set_data v (snd (f (vnodes s v) (mdata (mp_of s v)))) s)"

definition sys_chmod :: "string \<Rightarrow> mode_t \<Rightarrow> vproc \<Rightarrow> ('f, 'w) vfs \<Rightarrow> int \<times> ('f, 'w) vfs" where
  "sys_chmod path m p s =
     (let m = m AND 0x1FF
      in case vnode_get path p True s of
        (Inl err, s) \<Rightarrow> (err, s)
      | (Inr v, s) \<Rightarrow>
          if mflags (mp_of s v) AND MS_RDONLY \<noteq> 0 then (- errno_code EROFS, VNODE_REL v s)
          else if vuid (vnodes s v) \<noteq> p_uid p \<and> vuid (vnodes s v) \<noteq> p_euid p \<and> p_uid p \<noteq> 0 \<and> p_euid p \<noteq> 0
            then (- errno_code EACCES, VNODE_REL v s)
          else (0, VNODE_REL v (flushed v (upd_vnode v (\<lambda>x. x\<lparr>vmode := vmode x AND S_IFMT OR m\<rparr>) s))))"

text \<open>The link count goes down; a v-node without links and references is freed, otherwise it is written back.\<close>

definition drop_link :: "nat \<Rightarrow> ('f, 'w) vfs \<Rightarrow> ('f, 'w) vfs" where
  "drop_link v s =
     (let s = VNODE_REL v (upd_vnode v (\<lambda>x. x\<lparr>vnlink := vnlink x - 1\<rparr>) s)
      in if vnlink (vnodes s v) = 0 \<and> refcount (vnodes s v) = 0 then snd (vnode_free v s) else flushed v s)"

definition unlink_entry :: "nat \<Rightarrow> string \<Rightarrow> ('f, 'w) vfs \<Rightarrow> int \<times> ('f, 'w) vfs" where
  "unlink_entry u name s =
     (case op_unlink (ops_of s u) of
        None \<Rightarrow> (- errno_code ENOTSUP, s)
      | Some f \<Rightarrow> (case f (vnodes s u) name (mdata (mp_of s u)) of (err, d) \<Rightarrow> (err, set_data u d s)))"

definition sys_unlink :: "string \<Rightarrow> vproc \<Rightarrow> ('f, 'w) vfs \<Rightarrow> (int \<times> ('f, 'w) vfs) option" where
  "sys_unlink path p s =
     (case vnode_get path p True s of
        (Inl err, s) \<Rightarrow> Some (err, s)
      | (Inr v, s) \<Rightarrow>
          if mflags (mp_of s v) AND MS_RDONLY \<noteq> 0 then Some (- errno_code EROFS, VNODE_REL v s)
          else if S_ISDIR (vmode (vnodes s v)) then Some (- errno_code EISDIR, VNODE_REL v s)
          else case vfs_path_split path of
            None \<Rightarrow> None
          | Some (dir, name) \<Rightarrow>
              (case vnode_get dir p True s of
                 (Inl err, s) \<Rightarrow> Some (err, VNODE_REL v s)
               | (Inr u, s) \<Rightarrow>
                   let err = do_sys_access (vnodes s u) 3 p
                   in if err \<noteq> 0 then Some (err, VNODE_REL u (VNODE_REL v s))
                      else case unlink_entry u name s of
                        (err, s) \<Rightarrow> Some (err, VNODE_REL u (if err = 0 then drop_link v s else VNODE_REL v s))))"

definition sys_link :: "string \<Rightarrow> string \<Rightarrow> int" where "sys_link oldpath newpath = - errno_code ENOSYS"
definition sys_truncate :: "string \<Rightarrow> int \<Rightarrow> int" where "sys_truncate path len = - errno_code ENOSYS"
definition sys_ftruncate :: "int \<Rightarrow> int \<Rightarrow> int" where "sys_ftruncate fd len = - errno_code ENOSYS"

definition sys_umount :: "string \<Rightarrow> vproc \<Rightarrow> int" where
  "sys_umount dest p = (if p_euid p \<noteq> 0 \<and> p_uid p \<noteq> 0 then - errno_code EPERM else - errno_code ENOSYS)"

section \<open>Mounting\<close>

text \<open>The mount point filled in and its root v-node opened: what \<^verbatim>\<open>sys_mount\<close> and \<^verbatim>\<open>vfs_mount_root\<close> share. The
  first component is the error of the file system's mount, the second the v-node of the root.\<close>

definition mount_fs :: "'f filesystem \<Rightarrow> dev_t \<Rightarrow> string \<Rightarrow> u32 \<Rightarrow> nat option \<Rightarrow> ('f, 'w) vfs \<Rightarrow>
    int \<times> nat option \<times> ('f, 'w) vfs" where
  "mount_fs fs dev name flags up s =
     (let m = next_mount s; (err, f) = fs_mount fs m;
          s = s\<lparr>mounts := (mounts s)(m := \<lparr>mdevice = dev, mdevname = name, mfs = fs, mflags = flags, mdata = f,
                   root_vnode = 0, parent_vnode = up, vnode_list = []\<rparr>), next_mount := m + 1\<rparr>
      in if err \<noteq> 0 then (err, None, s)
         else case vnode_new m (fs_root fs f) s of
           (None, s) \<Rightarrow> (0, None, s)
         | (Some r, s) \<Rightarrow> (0, Some r, upd_mount m (\<lambda>mp. mp\<lparr>root_vnode := r\<rparr>) s))"

definition sys_mount :: "string \<Rightarrow> string \<Rightarrow> string \<Rightarrow> u32 \<Rightarrow> vproc \<Rightarrow> ('f, 'w) vfs \<Rightarrow> int \<times> ('f, 'w) vfs" where
  "sys_mount src dest fstype flags p s =
     (if p_euid p \<noteq> 0 \<and> p_uid p \<noteq> 0 then (- errno_code EPERM, s)
      else case fs_lookup fstype s of
        (None, s) \<Rightarrow> (- errno_code ENOTSUP, s)
      | (Some fs, s) \<Rightarrow>
          (case (if fs_nodev fs then (0, 0, s)
                 else case sys_stat src p s of (err, st, s) \<Rightarrow> (err, case st of None \<Rightarrow> 0 | Some st \<Rightarrow> st_rdev st, s)) of
             (err, dev, s) \<Rightarrow>
               if err < 0 then (err, s)
               else case vnode_get dest p True s of
                 (Inl _, s) \<Rightarrow> (- errno_code ENOENT, s)
               | (Inr v, s) \<Rightarrow>
                   if \<not> S_ISDIR (vmode (vnodes s v)) then (- errno_code ENOTDIR, VNODE_REL v s)
                   else if v = root_vnode (mp_of s v) then (- errno_code EBUSY, VNODE_REL v s)
                   else let m = next_mount s
                     in case mount_fs fs dev src flags (Some v) s of
                          (err, None, s) \<Rightarrow> (err, VNODE_REL v s)
                        | (err, Some r, s) \<Rightarrow>
                            (0, (upd_vnode v (\<lambda>x. x\<lparr>vfsmountedhere := Some m\<rparr>) s)\<lparr>mount_list := m # mount_list s\<rparr>)))"

section \<open>System calls on descriptors\<close>

definition create_file :: "string \<Rightarrow> mode_t \<Rightarrow> vproc \<Rightarrow> ('f, 'w) vfs \<Rightarrow> ((int + nat) \<times> ('f, 'w) vfs) option" where
  "create_file path m p s =
     (case vfs_path_split path of
        None \<Rightarrow> None
      | Some (dir, name) \<Rightarrow>
          let m = m AND 0x1FF AND NOT (p_umask p)
          in case make_node dir (\<lambda>ops. map_option (\<lambda>f v. f v name m (p_uid p) (p_gid p)) (op_creat ops)) p s of
               (err, s) \<Rightarrow> Some (if err \<noteq> 0 then (Inl err, s) else vnode_get path p True s))"

text \<open>The first part of \<^verbatim>\<open>sys_open\<close>: the v-node of the path, created when it is missing and the flags say so.\<close>

definition open_vnode :: "string \<Rightarrow> u32 \<Rightarrow> mode_t \<Rightarrow> vproc \<Rightarrow> ('f, 'w) vfs \<Rightarrow> ((int + nat) \<times> ('f, 'w) vfs) option" where
  "open_vnode path flags m p s =
     (case vnode_get path p True s of
        (Inl err, s) \<Rightarrow>
          if err = - errno_code ENOENT \<and> flags AND FCREAT \<noteq> 0 then create_file path m p s
          else Some (Inl err, s)
      | (Inr v, s) \<Rightarrow>
          if flags AND FEXCL \<noteq> 0 then Some (Inl (- errno_code EEXIST), VNODE_REL v s) else Some (Inr v, s))"

text \<open>The driver of a device node is opened.\<close>

definition device_open :: "vnode \<Rightarrow> ('f, 'w) vfs \<Rightarrow> (int \<times> ('f, 'w) vfs) option" where
  "device_open v s =
     (if S_ISCHR (vmode v) then
        (case cdev_open (vrdev v) (cdevs s) (world s) of
           None \<Rightarrow> None | Some (err, table, w) \<Rightarrow> Some (err, s\<lparr>cdevs := table, world := w\<rparr>))
      else if S_ISBLK (vmode v) then
        (case bdev_open (vrdev v) (bdevs s) (world s) of
           None \<Rightarrow> None | Some (err, table, w) \<Rightarrow> Some (err, s\<lparr>bdevs := table, world := w\<rparr>))
      else Some (0, s))"

definition sys_open :: "string \<Rightarrow> u32 \<Rightarrow> mode_t \<Rightarrow> vproc \<Rightarrow> ('f, 'w) vfs \<Rightarrow> (int \<times> vproc \<times> ('f, 'w) vfs) option" where
  "sys_open path flags m p s =
     (case open_vnode path flags m p s of
        None \<Rightarrow> None
      | Some (Inl err, s) \<Rightarrow> Some (err, p, s)
      | Some (Inr v, s) \<Rightarrow>
          let acc = (if (flags + 1) AND FREAD \<noteq> 0 then 4 else 0) OR (if (flags + 1) AND FWRITE \<noteq> 0 then 2 else 0);
              err = do_sys_access (vnodes s v) acc p
          in if err \<noteq> 0 then Some (err, p, VNODE_REL v s)
             else let f = next_file s; s = s\<lparr>next_file := f + 1\<rparr>;
                      fl = \<lparr>frefs = 1, fflags = kjunk s f, fmode = flags, fpos = 0,
                            ftype = vmode (vnodes s v) AND S_IFMT, fvnode = Some v, fdataptr = None\<rparr>
               in case find_slot 0 (p_fds p) of
                    None \<Rightarrow> Some (- errno_code EMFILE, p, VNODE_REL v s)
                  | Some i \<Rightarrow>
                      (case device_open (vnodes s v) s of
                         None \<Rightarrow> None
                       | Some (err, s) \<Rightarrow>
                           if err < 0 then Some (err, p, VNODE_REL v s)
                           else Some (int i, p\<lparr>p_fds := (p_fds p)[i := Some \<lparr>fdflags = 0, fdfile = f\<rparr>]\<rparr>,
                                      s\<lparr>files := (files s)(f \<mapsto> fl)\<rparr>)))"

text \<open>The descriptor check every call starts with; \<open>None\<close> is a descriptor whose file is gone.\<close>

definition file_of :: "int \<Rightarrow> vproc \<Rightarrow> ('f, 'w) vfs \<Rightarrow> (int + nat \<times> vfile) option" where
  "file_of fd p s =
     (case slot_get (p_fds p) fd of
        None \<Rightarrow> Some (Inl (- errno_code EBADF))
      | Some d \<Rightarrow> (case files s (fdfile d) of None \<Rightarrow> None | Some fl \<Rightarrow> Some (Inr (fdfile d, fl))))"

text \<open>The close operations of the device switch only return an error that is ignored here.\<close>

definition sys_close :: "int \<Rightarrow> vproc \<Rightarrow> ('f, 'w) vfs \<Rightarrow> (int \<times> vproc \<times> ('f, 'w) vfs) option" where
  "sys_close fd p s =
     (case file_of fd p s of
        None \<Rightarrow> None
      | Some (Inl err) \<Rightarrow> Some (err, p, s)
      | Some (Inr (f, fl)) \<Rightarrow>
          let p = p\<lparr>p_fds := (p_fds p)[nat fd := None]\<rparr>;
              fl = fl\<lparr>frefs := frefs fl - 1\<rparr>;
              s = s\<lparr>files := (files s)(f \<mapsto> fl)\<rparr>
          in if frefs fl \<noteq> 0 then Some (0, p, s)
             else if S_ISSOCK (ftype fl) then
               (case shutdown s fd (world s) of (err, w) \<Rightarrow> Some (err, p, s\<lparr>world := w\<rparr>))
             else if S_ISFIFO (ftype fl) then
               (case fdataptr fl of
                  None \<Rightarrow> None
                | Some q \<Rightarrow> Some (0, p, s\<lparr>pipes := (pipes s)(q := pipe_free (pipes s q))\<rparr>))
             else case fvnode fl of
               None \<Rightarrow> Some (0, p, s)
             | Some v \<Rightarrow> Some (0, p, snd (vnode_free v (VNODE_REL v (s\<lparr>files := (files s)(f := None)\<rparr>)))))"

definition pipe_stat :: "stat \<Rightarrow> stat" where
  "pipe_stat st = st\<lparr>st_mode := S_IFIFO OR 0x180, st_size := int PIPE_SIZE, st_nlink := 1, st_blksize := 1,
     st_blocks := int PIPE_SIZE\<rparr>"

definition sys_fstat :: "int \<Rightarrow> stat \<Rightarrow> vproc \<Rightarrow> ('f, 'w) vfs \<Rightarrow> (int \<times> stat) option" where
  "sys_fstat fd st p s =
     (case file_of fd p s of
        None \<Rightarrow> None
      | Some (Inl err) \<Rightarrow> Some (err, st)
      | Some (Inr (f, fl)) \<Rightarrow>
          if S_ISFIFO (ftype fl) then Some (0, pipe_stat st)
          else case fvnode fl of
            Some v \<Rightarrow> Some (0, do_sys_stat (vnodes s v))
          | None \<Rightarrow> Some (- errno_code ENOTSUP, st))"

text \<open>The result of a call that moves data: done with a C result, the bytes read and the threads woken, or asleep
  on the pipe with the bytes still to be written. A sleeping read starts again, a sleeping write continues with
  \<open>pipe_put\<close>.\<close>

datatype io = Done int "u8 list" "nat list" | Asleep "u8 list" "nat list"

definition advance :: "nat \<Rightarrow> int \<Rightarrow> ('f, 'w) vfs \<Rightarrow> ('f, 'w) vfs" where
  "advance f err s =
     (if err > 0 then s\<lparr>files := (files s)(f := map_option (\<lambda>fl. fl\<lparr>fpos := fpos fl + err\<rparr>) (files s f))\<rparr> else s)"

definition pipe_get :: "nat \<Rightarrow> nat \<Rightarrow> nat \<Rightarrow> nat \<Rightarrow> ('f, 'w) vfs \<Rightarrow> io \<times> ('f, 'w) vfs" where
  "pipe_get t f q len s =
     (case pipe_read t (pipes s q) [] len of
        (Returned, data, ws, pp) \<Rightarrow>
          (Done (int (length data)) data ws, advance f (int (length data)) (s\<lparr>pipes := (pipes s)(q := pp)\<rparr>))
      | (Sleeps, data, ws, pp) \<Rightarrow> (Asleep [] ws, s\<lparr>pipes := (pipes s)(q := pp)\<rparr>))"

definition pipe_put :: "nat \<Rightarrow> nat \<Rightarrow> nat \<Rightarrow> nat \<Rightarrow> u8 list \<Rightarrow> ('f, 'w) vfs \<Rightarrow> io \<times> ('f, 'w) vfs" where
  "pipe_put t f q amount rest s =
     (case pipe_write t (pipes s q) rest of
        (Returned, rest, ws, pp) \<Rightarrow>
          let n = int amount - int (length rest)
          in (Done n [] ws, advance f n (s\<lparr>pipes := (pipes s)(q := pp)\<rparr>))
      | (Sleeps, rest, ws, pp) \<Rightarrow> (Asleep rest ws, s\<lparr>pipes := (pipes s)(q := pp)\<rparr>))"

definition sys_read :: "nat \<Rightarrow> int \<Rightarrow> nat \<Rightarrow> vproc \<Rightarrow> ('f, 'w) vfs \<Rightarrow> (io \<times> ('f, 'w) vfs) option" where
  "sys_read t fd len p s =
     (case file_of fd p s of
        None \<Rightarrow> None
      | Some (Inl err) \<Rightarrow> Some (Done err [] [], s)
      | Some (Inr (f, fl)) \<Rightarrow>
          if (fmode fl + 1) AND FREAD \<noteq> FREAD then Some (Done (- errno_code EACCES) [] [], s)
          else if S_ISFIFO (ftype fl) then
            (case fdataptr fl of None \<Rightarrow> None | Some q \<Rightarrow> Some (pipe_get t f q len s))
          else if S_ISCHR (ftype fl) then
            (case fvnode fl of
               None \<Rightarrow> None
             | Some v \<Rightarrow>
                 (case cdev_read (vrdev (vnodes s v)) len (cdevs s) (world s) of
                    None \<Rightarrow> None
                  | Some ((err, data), w) \<Rightarrow> Some (Done err data [], advance f err (s\<lparr>world := w\<rparr>))))
          else if S_ISBLK (ftype fl) then Some (Done (- errno_code ENOSYS) [] [], s)
          else if S_ISDIR (ftype fl) then Some (Done (- errno_code EISDIR) [] [], s)
          else case fvnode fl of
            None \<Rightarrow> Some (Done (- errno_code ENOTSUP) [] [], s)
          | Some v \<Rightarrow>
              (case op_read (ops_of s v) of
                 None \<Rightarrow> Some (Done (- errno_code ENOTSUP) [] [], s)
               | Some g \<Rightarrow>
                   (case g (vnodes s v) len (fpos fl) (mdata (mp_of s v)) of
                      (err, data) \<Rightarrow> Some (Done err data [], advance f err s))))"

definition sys_lseek :: "int \<Rightarrow> int \<Rightarrow> int \<Rightarrow> vproc \<Rightarrow> ('f, 'w) vfs \<Rightarrow> (int \<times> ('f, 'w) vfs) option" where
  "sys_lseek fd off whence p s =
     (case file_of fd p s of
        None \<Rightarrow> None
      | Some (Inl err) \<Rightarrow> Some (err, s)
      | Some (Inr (f, fl)) \<Rightarrow>
          (case fvnode fl of
             None \<Rightarrow> Some (- errno_code ENOTSUP, s)
           | Some v \<Rightarrow>
               let base = (if whence = 0 then Some 0 else if whence = 1 then Some (fpos fl)
                           else if whence = 2 then Some (vsize (vnodes s v)) else None)
               in case base of
                    None \<Rightarrow> Some (- errno_code EFAULT, s)
                  | Some b \<Rightarrow>
                      let pos = (if off + b \<ge> 0 then off + b else fpos fl)
                      in Some (pos, s\<lparr>files := (files s)(f \<mapsto> fl\<lparr>fpos := pos\<rparr>)\<rparr>)))"

definition sys_write :: "nat \<Rightarrow> int \<Rightarrow> u8 list \<Rightarrow> vproc \<Rightarrow> ('f, 'w) vfs \<Rightarrow> (io \<times> ('f, 'w) vfs) option" where
  "sys_write t fd data p s =
     (case file_of fd p s of
        None \<Rightarrow> None
      | Some (Inl err) \<Rightarrow> Some (Done err [] [], s)
      | Some (Inr (f, fl)) \<Rightarrow>
          if (fmode fl + 1) AND FWRITE \<noteq> FWRITE then Some (Done (- errno_code EACCES) [] [], s)
          else
            case (if fmode fl AND FAPPEND \<noteq> 0 then sys_lseek fd 0 2 p s else Some (0, s)) of
              None \<Rightarrow> None
            | Some (_, s) \<Rightarrow>
          if S_ISFIFO (ftype fl) then
            (case fdataptr fl of None \<Rightarrow> None | Some q \<Rightarrow> Some (pipe_put t f q (length data) data s))
          else if S_ISCHR (ftype fl) then
            (case fvnode fl of
               None \<Rightarrow> None
             | Some v \<Rightarrow>
                 (case cdev_write (vrdev (vnodes s v)) data (cdevs s) (world s) of
                    None \<Rightarrow> None
                  | Some (err, w) \<Rightarrow> Some (Done err [] [], advance f err (s\<lparr>world := w\<rparr>))))
          else if S_ISBLK (ftype fl) then Some (Done (- errno_code ENOSYS) [] [], s)
          else if S_ISDIR (ftype fl) then Some (Done (- errno_code EISDIR) [] [], s)
          else case fvnode fl of
            None \<Rightarrow> Some (Done (- errno_code ENOTSUP) [] [], s)
          | Some v \<Rightarrow>
              (case op_write (ops_of s v) of
                 None \<Rightarrow> Some (Done (- errno_code ENOTSUP) [] [], s)
               | Some g \<Rightarrow>
                   if mflags (mp_of s v) AND MS_RDONLY \<noteq> 0 then Some (Done (- errno_code EROFS) [] [], s)
                   else case g (vnodes s v) data (case files s f of Some fl \<Rightarrow> fpos fl | None \<Rightarrow> 0) (mdata (mp_of s v)) of
                      (err, x, d) \<Rightarrow> Some (Done err [] [], advance f err (upd_vnode v (\<lambda>_. x) (set_data v d s)))))"

text \<open>\<open>start\<close> is what the caller gives to \<^verbatim>\<open>fcntl\<close>: a negative one indexes below the table.\<close>

definition do_sys_dup :: "int \<Rightarrow> int \<Rightarrow> vproc \<Rightarrow> ('f, 'w) vfs \<Rightarrow> (int \<times> vproc \<times> ('f, 'w) vfs) option" where
  "do_sys_dup fd start p s =
     (case file_of fd p s of
        None \<Rightarrow> None
      | Some (Inl err) \<Rightarrow> Some (err, p, s)
      | Some (Inr (f, fl)) \<Rightarrow>
          if start < 0 then None
          else case find_slot (nat start) (p_fds p) of
            None \<Rightarrow> Some (- errno_code EMFILE, p, s)
          | Some i \<Rightarrow>
              Some (int i, p\<lparr>p_fds := (p_fds p)[i := Some \<lparr>fdflags = 0, fdfile = f\<rparr>]\<rparr>,
                    s\<lparr>files := (files s)(f \<mapsto> fl\<lparr>frefs := frefs fl + 1\<rparr>)\<rparr>))"

definition sys_dup :: "int \<Rightarrow> vproc \<Rightarrow> ('f, 'w) vfs \<Rightarrow> (int \<times> vproc \<times> ('f, 'w) vfs) option" where
  "sys_dup fd p s = do_sys_dup fd 0 p s"

text \<open>Closing \<^verbatim>\<open>newfd\<close> comes first; when it is \<^verbatim>\<open>oldfd\<close> the entry read next is \<^verbatim>\<open>NULL\<close>.\<close>

definition sys_dup2 :: "int \<Rightarrow> int \<Rightarrow> vproc \<Rightarrow> ('f, 'w) vfs \<Rightarrow> (int \<times> vproc \<times> ('f, 'w) vfs) option" where
  "sys_dup2 oldfd newfd p s =
     (if slot_get (p_fds p) oldfd = None then Some (- errno_code EBADF, p, s)
      else if newfd < 0 \<or> newfd \<ge> int OPEN_MAX then Some (- errno_code EBADF, p, s)
      else case (if slot_get (p_fds p) newfd \<noteq> None then sys_close newfd p s else Some (0, p, s)) of
        None \<Rightarrow> None
      | Some (_, p, s) \<Rightarrow>
          (case file_of oldfd p s of
             Some (Inr (f, fl)) \<Rightarrow>
               Some (newfd, p\<lparr>p_fds := (p_fds p)[nat newfd := Some \<lparr>fdflags = 0, fdfile = f\<rparr>]\<rparr>,
                     s\<lparr>files := (files s)(f \<mapsto> fl\<lparr>frefs := frefs fl + 1\<rparr>)\<rparr>)
           | _ \<Rightarrow> None))"

definition sys_getdents :: "int \<Rightarrow> nat \<Rightarrow> vproc \<Rightarrow> ('f, 'w) vfs \<Rightarrow> (int \<times> ('f, 'w) vfs) option" where
  "sys_getdents fd count p s =
     (case file_of fd p s of
        None \<Rightarrow> None
      | Some (Inl err) \<Rightarrow> Some (err, s)
      | Some (Inr (f, fl)) \<Rightarrow>
          if \<not> S_ISDIR (ftype fl) then Some (- errno_code ENOTDIR, s)
          else case fvnode fl of
            None \<Rightarrow> Some (- errno_code ENOTSUP, s)
          | Some v \<Rightarrow>
              (case op_getdents (ops_of s v) of
                 None \<Rightarrow> Some (- errno_code ENOTSUP, s)
               | Some g \<Rightarrow>
                   (case g (vnodes s v) count (fpos fl) (mdata (mp_of s v)) of
                      (err, pos) \<Rightarrow> Some (err, s\<lparr>files := (files s)(f \<mapsto> fl\<lparr>fpos := pos\<rparr>)\<rparr>))))"

definition sys_ioctl :: "int \<Rightarrow> int \<Rightarrow> u32 \<Rightarrow> vproc \<Rightarrow> ('f, 'w) vfs \<Rightarrow> (int \<times> ('f, 'w) vfs) option" where
  "sys_ioctl fd cmd arg p s =
     (case file_of fd p s of
        None \<Rightarrow> None
      | Some (Inl err) \<Rightarrow> Some (err, s)
      | Some (Inr (f, fl)) \<Rightarrow>
          (case fvnode fl of
             None \<Rightarrow> Some (- errno_code ENOTSUP, s)
           | Some v \<Rightarrow>
               if S_ISCHR (ftype fl) then
                 (case cdev_ioctl (vrdev (vnodes s v)) cmd arg (cdevs s) (world s) of
                    None \<Rightarrow> None | Some (err, w) \<Rightarrow> Some (err, s\<lparr>world := w\<rparr>))
               else Some (- errno_code ENOTSUP, s)))"

definition sys_fcntl :: "int \<Rightarrow> int \<Rightarrow> int \<Rightarrow> vproc \<Rightarrow> ('f, 'w) vfs \<Rightarrow> (int \<times> vproc \<times> ('f, 'w) vfs) option" where
  "sys_fcntl fd cmd arg p s =
     (case slot_get (p_fds p) fd of
        None \<Rightarrow> Some (- errno_code EBADF, p, s)
      | Some d \<Rightarrow>
          if cmd = 0 then do_sys_dup fd arg p s
          else if cmd = 1 then Some (uint (fdflags d), p, s)
          else if cmd = 2 then
            Some (0, p\<lparr>p_fds := (p_fds p)[nat fd := Some (d\<lparr>fdflags := fdflags d OR FD_CLOEXEC\<rparr>)]\<rparr>, s)
          else if cmd = 3 then
            (case files s (fdfile d) of None \<Rightarrow> None | Some fl \<Rightarrow> Some (sint (fflags fl), p, s))
          else Some (- errno_code ENOSYS, p, s))"

definition sys_pipe :: "vproc \<Rightarrow> ('f, 'w) vfs \<Rightarrow> int \<times> (nat \<times> nat) option \<times> vproc \<times> ('f, 'w) vfs" where
  "sys_pipe p s =
     (let q = next_pipe s; fr = next_file s; fw = next_file s + 1;
          s = s\<lparr>next_pipe := q + 1, next_file := fw + 1\<rparr>;
          fdr = \<lparr>fdflags = 0, fdfile = fr\<rparr>; fdw = \<lparr>fdflags = 0, fdfile = fw\<rparr>;
          fl = \<lparr>frefs = 1, fflags = 0, fmode = O_RDONLY, fpos = 0, ftype = S_IFIFO, fvnode = None, fdataptr = Some q\<rparr>
      in case find_slot 0 (p_fds p) of
           None \<Rightarrow> (- errno_code EMFILE, None, p, s)
         | Some i \<Rightarrow>
             let fds = (p_fds p)[i := Some fdr]
             in case find_slot i fds of
                  None \<Rightarrow> (- errno_code EMFILE, None, p\<lparr>p_fds := fds[i := None]\<rparr>, s)
                | Some j \<Rightarrow>
                    (0, Some (i, j), p\<lparr>p_fds := fds[j := Some fdw]\<rparr>,
                     s\<lparr>pipes := (pipes s)(q := pipe_new),
                       files := (files s)(fr \<mapsto> fl, fw \<mapsto> fl\<lparr>fmode := O_WRONLY\<rparr>)\<rparr>))"

section \<open>Processes\<close>

text \<open>\<^verbatim>\<open>vfs_free\<close> closes the descriptors from \<open>i\<close> on and gives the directories back.\<close>

fun close_from :: "nat \<Rightarrow> nat \<Rightarrow> vproc \<Rightarrow> ('f, 'w) vfs \<Rightarrow> (vproc \<times> ('f, 'w) vfs) option" where
  "close_from 0 i p s = Some (p, s)"
| "close_from (Suc n) i p s =
     (if slot_get (p_fds p) (int i) \<noteq> None then
        (case sys_close (int i) p s of None \<Rightarrow> None | Some (_, p, s) \<Rightarrow> close_from n (Suc i) p s)
      else close_from n (Suc i) p s)"

definition vfs_free :: "vproc \<Rightarrow> ('f, 'w) vfs \<Rightarrow> (vproc \<times> ('f, 'w) vfs) option" where
  "vfs_free p s =
     (case close_from OPEN_MAX 0 p s of
        None \<Rightarrow> None
      | Some (p, s) \<Rightarrow> Some (p, VNODE_REL (p_cwd p) (VNODE_REL (p_root p) s)))"

definition share_file :: "filedes option \<Rightarrow> ('f, 'w) vfs \<Rightarrow> ('f, 'w) vfs" where
  "share_file d s =
     (case d of
        None \<Rightarrow> s
      | Some d \<Rightarrow>
          s\<lparr>files := (files s)(fdfile d := map_option (\<lambda>fl. fl\<lparr>frefs := frefs fl + 1\<rparr>) (files s (fdfile d)))\<rparr>)"

definition vfs_clone :: "vproc \<Rightarrow> vproc \<Rightarrow> ('f, 'w) vfs \<Rightarrow> int \<times> vproc \<times> ('f, 'w) vfs" where
  "vfs_clone child prnt s =
     (let s = VNODE_HOLD (p_cwd prnt) (VNODE_HOLD (p_root prnt) s)
      in (0, child\<lparr>p_root := p_root prnt, p_cwd := p_cwd prnt, p_umask := p_umask prnt,
               p_fds := map2 (\<lambda>c d. if d = None then c else d) (p_fds child) (p_fds prnt)\<rparr>,
          fold share_file (p_fds prnt) s))"

section \<open>Start of the system\<close>

text \<open>\<open>kargv\<close> is \<^verbatim>\<open>kargv_lookup\<close>: the argument of the kernel command line that starts with a key. \<open>None\<close> is a
  panic.\<close>

definition vfs_setup_console :: "(string \<Rightarrow> string option) \<Rightarrow> registry \<Rightarrow> vproc \<Rightarrow> ('f, 'w) vfs \<Rightarrow>
    (vproc \<times> ('f, 'w) vfs) option" where
  "vfs_setup_console kargv r p s =
     (let tty = (case kargv ''console='' of Some a \<Rightarrow> drop 8 a | None \<Rightarrow> ''tty1'')
      in case device_lookup DEV_CHAR tty r of
        None \<Rightarrow> None
      | Some devid \<Rightarrow>
          if devid = 0 then None
          else case vnode_get ''/dev/console'' p True s of
            (Inl _, s) \<Rightarrow> None
          | (Inr v, s) \<Rightarrow>
              (case sys_open ''/dev/console'' O_RDWR 0 p (upd_vnode v (\<lambda>x. x\<lparr>vrdev := devid\<rparr>) s) of
                 None \<Rightarrow> None
               | Some (err, p, s) \<Rightarrow>
                   if err \<noteq> 0 then None
                   else case sys_dup 0 p (VNODE_REL v s) of
                     None \<Rightarrow> None
                   | Some (_, p, s) \<Rightarrow>
                       (case sys_dup 0 p s of None \<Rightarrow> None | Some (_, p, s) \<Rightarrow> Some (p, s))))"

definition vfs_mount_root :: "(string \<Rightarrow> string option) \<Rightarrow> registry \<Rightarrow> vproc \<Rightarrow> ('f, 'w) vfs \<Rightarrow>
    (vproc \<times> ('f, 'w) vfs) option" where
  "vfs_mount_root kargv r p s =
     (case kargv ''rootfs='' of
        None \<Rightarrow> None
      | Some rootfs \<Rightarrow>
          (case fs_lookup (drop 7 rootfs) s of
             (None, s) \<Rightarrow> None
           | (Some fs, s) \<Rightarrow>
               (case (if fs_nodev fs then Some 0
                      else case kargv ''root='' of None \<Rightarrow> None | Some root \<Rightarrow> device_lookup DEV_BLOCK (drop 5 root) r) of
                  None \<Rightarrow> None
                | Some rootdev \<Rightarrow>
                    if \<not> fs_nodev fs \<and> rootdev = 0 then None
                    else let m = next_mount s
                      in case mount_fs fs rootdev ''/dev/root'' (if kargv ''rw'' = None then MS_RDONLY else 0) None s of
                           (_, None, s) \<Rightarrow> None
                         | (_, Some rv, s) \<Rightarrow>
                             let s = VNODE_HOLD rv (VNODE_HOLD rv (s\<lparr>mount_list := m # mount_list s\<rparr>));
                                 p = p\<lparr>p_root := rv, p_cwd := rv\<rparr>
                             in case vnode_get ''/dev/root'' p True s of
                                  (Inl _, s) \<Rightarrow> Some (p, s)
                                | (Inr v, s) \<Rightarrow> Some (p, VNODE_REL v (upd_vnode v (\<lambda>x. x\<lparr>vrdev := rootdev\<rparr>) s)))))"

end
