(* ===== verification/VfsRefs.thy ===== *)
theory VfsRefs
  imports Vfs
begin

text \<open>
  Reference counts and the v-node cache of the virtual file system. \<open>vn_inv H s\<close> says that the cache is
  consistent and that every cached v-node has exactly the \<open>H v\<close> references somebody holds; whoever runs adds
  its own references to \<open>H\<close>. The lemmas follow the code: holding and releasing, cache look-up, opening and
  freeing v-nodes, and resolving a path.
\<close>

section \<open>The invariant of the cache\<close>

definition live :: "('f, 'w) vfs \<Rightarrow> nat \<Rightarrow> bool" where
  "live s v \<longleftrightarrow> (\<exists>m \<in> set (mount_list s). v \<in> set (vnode_list (mounts s m)))"

definition bump :: "nat \<Rightarrow> (nat \<Rightarrow> int) \<Rightarrow> nat \<Rightarrow> int" where
  "bump v H = H(v := H v + 1)"

definition mount_ok :: "('f, 'w) vfs \<Rightarrow> nat \<Rightarrow> bool" where
  "mount_ok s m \<longleftrightarrow>
     (let mp = mounts s m
      in m < next_mount s \<and> vnode_driver (fs_ops (mfs mp)) \<and> root_vnode mp \<in> set (vnode_list mp) \<and>
         inj_on (\<lambda>v. ino (vnodes s v)) (set (vnode_list mp)) \<and>
         (\<forall>v \<in> set (vnode_list mp). vmp (vnodes s v) = m \<and> v < next_vnode s))"

lemma mount_okI:
  "m < next_mount s \<Longrightarrow> vnode_driver (fs_ops (mfs (mounts s m))) \<Longrightarrow> root_vnode (mounts s m) \<in> set (vnode_list (mounts s m)) \<Longrightarrow>
   inj_on (\<lambda>v. ino (vnodes s v)) (set (vnode_list (mounts s m))) \<Longrightarrow>
   (\<And>v. v \<in> set (vnode_list (mounts s m)) \<Longrightarrow> vmp (vnodes s v) = m \<and> v < next_vnode s) \<Longrightarrow> mount_ok s m"
  by (simp add: mount_ok_def Let_def)

lemma mount_okD:
  assumes "mount_ok s m"
  shows "m < next_mount s" "vnode_driver (fs_ops (mfs (mounts s m)))" "root_vnode (mounts s m) \<in> set (vnode_list (mounts s m))"
    "inj_on (\<lambda>v. ino (vnodes s v)) (set (vnode_list (mounts s m)))"
    "v \<in> set (vnode_list (mounts s m)) \<Longrightarrow> vmp (vnodes s v) = m \<and> v < next_vnode s"
  using assms by (simp_all add: mount_ok_def Let_def)

definition cache_ok :: "('f, 'w) vfs \<Rightarrow> bool" where
  "cache_ok s \<longleftrightarrow>
     (\<forall>m \<in> set (mount_list s). mount_ok s m) \<and> (\<forall>fs \<in> set (fs_list s). vnode_driver (fs_ops fs)) \<and>
     (\<forall>v m. live s v \<longrightarrow> vfsmountedhere (vnodes s v) = Some m \<longrightarrow>
        m \<in> set (mount_list s) \<and> parent_vnode (mounts s m) = Some v)"

definition vn_inv :: "(nat \<Rightarrow> int) \<Rightarrow> ('f, 'w) vfs \<Rightarrow> bool" where
  "vn_inv H s \<longleftrightarrow>
     cache_ok s \<and> (\<forall>v. live s v \<longrightarrow> refcount (vnodes s v) = H v) \<and> (\<forall>v. 0 \<le> H v \<and> (0 < H v \<longrightarrow> live s v))"

text \<open>The references the mount points and the process hold.\<close>

definition base :: "(nat \<Rightarrow> int) \<Rightarrow> vproc \<Rightarrow> ('f, 'w) vfs \<Rightarrow> bool" where
  "base H p s \<longleftrightarrow> 0 < H (p_root p) \<and> 0 < H (p_cwd p) \<and>
     (\<forall>m \<in> set (mount_list s). 0 < H (root_vnode (mounts s m)) \<and>
        (\<forall>u. parent_vnode (mounts s m) = Some u \<longrightarrow> 0 < H u))"

text \<open>What resolving a path leaves as it is.\<close>

definition vframe :: "('f, 'w) vfs \<Rightarrow> ('f, 'w) vfs \<Rightarrow> bool" where
  "vframe s s' \<longleftrightarrow>
     (\<exists>vn nv ml. s' = s\<lparr>vnodes := vn, next_vnode := nv, mounts := \<lambda>m. (mounts s m)\<lparr>vnode_list := ml m\<rparr>\<rparr>)"

lemma vframeI: "s' = s\<lparr>vnodes := vn, next_vnode := nv, mounts := \<lambda>m. (mounts s m)\<lparr>vnode_list := ml m\<rparr>\<rparr> \<Longrightarrow> vframe s s'"
  unfolding vframe_def by blast

lemma vframe_refl [simp]: "vframe s s"
  unfolding vframe_def by (rule exI[of _ "vnodes s"], rule exI[of _ "next_vnode s"], rule exI[of _ "\<lambda>m. vnode_list (mounts s m)"]) simp

lemma vframe_trans [trans]: "vframe s s' \<Longrightarrow> vframe s' s'' \<Longrightarrow> vframe s s''"
proof -
  assume "vframe s s'" "vframe s' s''"
  then obtain vn nv ml vn' nv' ml' where
    "s' = s\<lparr>vnodes := vn, next_vnode := nv, mounts := \<lambda>m. (mounts s m)\<lparr>vnode_list := ml m\<rparr>\<rparr>"
    "s'' = s'\<lparr>vnodes := vn', next_vnode := nv', mounts := \<lambda>m. (mounts s' m)\<lparr>vnode_list := ml' m\<rparr>\<rparr>"
    by (auto simp: vframe_def)
  then have "s'' = s\<lparr>vnodes := vn', next_vnode := nv', mounts := \<lambda>m. (mounts s m)\<lparr>vnode_list := ml' m\<rparr>\<rparr>" by simp
  then show ?thesis by (auto simp: vframe_def)
qed

lemma vframe_simps:
  assumes "vframe s s'"
  shows "mount_list s' = mount_list s" "files s' = files s" "next_file s' = next_file s" "pipes s' = pipes s"
    "fs_list s' = fs_list s" "root_vnode (mounts s' m) = root_vnode (mounts s m)"
    "parent_vnode (mounts s' m) = parent_vnode (mounts s m)" "next_mount s' = next_mount s"
    "mfs (mounts s' m) = mfs (mounts s m)"
  using assms by (auto simp: vframe_def)

lemma vframe_base: "vframe s s' \<Longrightarrow> base H p s \<Longrightarrow> base H p s'"
  by (simp add: base_def vframe_simps)

lemma vn_invD:
  assumes "vn_inv H s"
  shows "cache_ok s" "live s v \<Longrightarrow> refcount (vnodes s v) = H v" "0 \<le> H v" "0 < H v \<Longrightarrow> live s v"
  using assms by (auto simp: vn_inv_def)

lemma bump_simps [simp]: "bump v H v = H v + 1" "u \<noteq> v \<Longrightarrow> bump v H u = H u"
  by (simp_all add: bump_def)

lemma live_vmp:
  assumes "cache_ok s" "live s v"
  shows "vmp (vnodes s v) \<in> set (mount_list s)" "v \<in> set (vnode_list (mp_of s v))" "v < next_vnode s"
    "vnode_driver (ops_of s v)"
  using assms by (auto simp: live_def cache_ok_def mount_ok_def Let_def)

section \<open>Updates that keep the invariant\<close>

lemma upd_refcount:
  assumes "vn_inv H s" "live s v" "H v + d \<ge> 0"
  shows "vn_inv (H(v := H v + d)) (upd_vnode v (\<lambda>x. x\<lparr>refcount := refcount x + d\<rparr>) s)"
proof -
  let ?s = "upd_vnode v (\<lambda>x. x\<lparr>refcount := refcount x + d\<rparr>) s"
  have l: "live ?s = live s" by (simp add: live_def fun_eq_iff)
  have i: "ino (vnodes ?s u) = ino (vnodes s u)" "vmp (vnodes ?s u) = vmp (vnodes s u)"
    "vfsmountedhere (vnodes ?s u) = vfsmountedhere (vnodes s u)" for u by simp_all
  have "mount_ok ?s m \<longleftrightarrow> mount_ok s m" for m unfolding mount_ok_def Let_def i by simp
  then have "cache_ok ?s" using vn_invD(1)[OF assms(1)] unfolding cache_ok_def l i by simp
  moreover have "\<forall>u. live s u \<longrightarrow> refcount (vnodes ?s u) = (H(v := H v + d)) u"
    using vn_invD(2)[OF assms(1)] assms(2) by simp
  ultimately show ?thesis unfolding vn_inv_def l using vn_invD(3,4)[OF assms(1)] assms by simp
qed

lemma hold_inv: "vn_inv H s \<Longrightarrow> live s v \<Longrightarrow> vn_inv (bump v H) (VNODE_HOLD v s)"
  using upd_refcount[of H s v 1] vn_invD(3)[of H s v] by (simp add: bump_def VNODE_HOLD_def)

lemma rel_inv:
  assumes "vn_inv (bump v H) s" "0 \<le> H v"
  shows "vn_inv H (VNODE_REL v s)"
proof -
  have "live s v" using vn_invD(4)[OF assms(1), of v] assms(2) by simp
  from upd_refcount[OF assms(1) this, of "- 1"] assms(2)
  have "vn_inv ((bump v H)(v := H v)) (VNODE_REL v s)" by (simp add: VNODE_REL_def)
  then show ?thesis by (simp add: bump_def)
qed

lemma hold_rel_frame [simp]: "vframe s (VNODE_HOLD v s)" "vframe s (VNODE_REL v s)"
proof -
  have "vframe s (upd_vnode v g s)" for g
    unfolding vframe_def by (rule exI[of _ "(vnodes s)(v := g (vnodes s v))"], rule exI[of _ "next_vnode s"],
        rule exI[of _ "\<lambda>m. vnode_list (mounts s m)"]) simp
  then show "vframe s (VNODE_HOLD v s)" "vframe s (VNODE_REL v s)" by (simp_all add: VNODE_HOLD_def VNODE_REL_def)
qed

lemma upd_vnode_inv:
  assumes "vn_inv H s" "same_place (vnodes s v) (g (vnodes s v))"
  shows "vn_inv H (upd_vnode v g s)"
proof -
  let ?s = "upd_vnode v g s"
  have l: "live ?s = live s" by (simp add: live_def fun_eq_iff)
  have i: "ino (vnodes ?s u) = ino (vnodes s u)" "vmp (vnodes ?s u) = vmp (vnodes s u)"
    "vfsmountedhere (vnodes ?s u) = vfsmountedhere (vnodes s u)" "refcount (vnodes ?s u) = refcount (vnodes s u)" for u
    using assms(2) by (simp_all add: same_place_def)
  have "mount_ok ?s m \<longleftrightarrow> mount_ok s m" for m unfolding mount_ok_def Let_def i by simp
  then show ?thesis using assms(1) unfolding vn_inv_def cache_ok_def l i by simp
qed

lemma set_data_inv: "vn_inv H s \<Longrightarrow> vn_inv H (upd_mount m (\<lambda>mp. mp\<lparr>mdata := d\<rparr>) s)"
proof -
  assume a: "vn_inv H s"
  let ?s = "upd_mount m (\<lambda>mp. mp\<lparr>mdata := d\<rparr>) s"
  have i: "vnode_list (mounts ?s k) = vnode_list (mounts s k)" "mfs (mounts ?s k) = mfs (mounts s k)"
    "root_vnode (mounts ?s k) = root_vnode (mounts s k)" "parent_vnode (mounts ?s k) = parent_vnode (mounts s k)" for k
    by simp_all
  have l: "live ?s = live s" unfolding live_def i by (simp add: fun_eq_iff)
  have "mount_ok ?s k \<longleftrightarrow> mount_ok s k" for k unfolding mount_ok_def Let_def i by simp
  then show ?thesis using a unfolding vn_inv_def cache_ok_def l i by simp
qed

section \<open>The cache\<close>

lemma vnode_lookup_inv:
  assumes "vn_inv H s" "m \<in> set (mount_list s)" "vnode_lookup m n s = (r, s')"
  shows "vframe s s'" "r = Some v \<Longrightarrow> vn_inv (bump v H) s' \<and> live s v \<and> ino (vnodes s v) = n \<and> vmp (vnodes s v) = m"
    "r = None \<Longrightarrow> s' = s \<and> (\<forall>v \<in> set (vnode_list (mounts s m)). ino (vnodes s v) \<noteq> n)"
proof -
  note e = assms(3)[unfolded vnode_lookup_def]
  show "vframe s s'" using e by (auto split: option.splits)
  show "s' = s \<and> (\<forall>v \<in> set (vnode_list (mounts s m)). ino (vnodes s v) \<noteq> n)" if "r = None"
    using e that by (auto split: option.splits simp: find_None_iff)
  show "vn_inv (bump v H) s' \<and> live s v \<and> ino (vnodes s v) = n \<and> vmp (vnodes s v) = m" if "r = Some v"
  proof -
    have f: "find (\<lambda>v. ino (vnodes s v) = n) (vnode_list (mounts s m)) = Some v" "s' = VNODE_HOLD v s"
      using e that by (auto split: option.splits)
    then have v: "v \<in> set (vnode_list (mounts s m))" "ino (vnodes s v) = n" by (auto simp: find_Some_iff)
    then have l: "live s v" using assms(2) by (auto simp: live_def)
    have "vmp (vnodes s v) = m" using vn_invD(1)[OF assms(1)] assms(2) v(1) by (auto simp: cache_ok_def mount_ok_def Let_def)
    then show ?thesis using hold_inv[OF assms(1) l] l v f(2) by simp
  qed
qed

text \<open>A v-node of its own for an i-node the mount point has not cached.\<close>

lemma vnode_new_state:
  assumes "vnode_new m n s = (Some v, s')" "vnode_driver (fs_ops (mfs (mounts s m)))"
  obtains x where "v = next_vnode s" "ino x = n" "vmp x = m" "vfsmountedhere x = None" "refcount x = 1"
    "s' = upd_mount m (\<lambda>mp. mp\<lparr>vnode_list := v # vnode_list mp\<rparr>) (s\<lparr>vnodes := (vnodes s)(v := x), next_vnode := v + 1\<rparr>)"
proof -
  let ?z = "vnode_zero\<lparr>refcount := 1, ino := n, vmp := m, vdev := mdevice (mounts s m)\<rparr>"
  obtain err x where o: "op_open (fs_ops (mfs (mounts s m))) ?z (mdata (mounts s m)) = (err, x)" by fastforce
  note f = vnode_driver.open_fields[OF assms(2) o]
  show ?thesis using assms(1) f o
    by (intro that[of x]) (auto simp: vnode_new_def Let_def vnode_zero_def split: if_splits)
qed

lemma vnode_new_None: "vnode_new m n s = (None, s') \<Longrightarrow> s' = s"
  by (auto simp: vnode_new_def Let_def split: prod.splits if_splits)

lemma vnode_new_frame: "vnode_new m n s = (r, s') \<Longrightarrow> vframe s s'"
proof -
  assume a: "vnode_new m n s = (r, s')"
  show "vframe s s'"
  proof (cases r)
    case None
    then show ?thesis using a vnode_new_None by (metis vframe_refl)
  next
    case (Some v)
    then obtain x where "s' = upd_mount m (\<lambda>mp. mp\<lparr>vnode_list := v # vnode_list mp\<rparr>) (s\<lparr>vnodes := (vnodes s)(v := x), next_vnode := v + 1\<rparr>)"
      using a by (auto simp: vnode_new_def Let_def split: prod.splits if_splits)
    then have "s' = s\<lparr>vnodes := (vnodes s)(v := x), next_vnode := v + 1,
        mounts := \<lambda>k. (mounts s k)\<lparr>vnode_list := (if k = m then v # vnode_list (mounts s m) else vnode_list (mounts s k))\<rparr>\<rparr>"
      by (simp add: fun_eq_iff)
    then show ?thesis by (rule vframeI)
  qed
qed

lemma vnode_new_inv:
  assumes inv: "vn_inv H s" and m: "m \<in> set (mount_list s)" and new: "vnode_new m n s = (Some v, s')"
    and fresh: "\<forall>u \<in> set (vnode_list (mounts s m)). ino (vnodes s u) \<noteq> n"
  shows "vn_inv (bump v H) s'" "live s' v"
proof -
  note c = vn_invD(1)[OF inv]
  have drv: "vnode_driver (fs_ops (mfs (mounts s m)))" using c m by (auto simp: cache_ok_def mount_ok_def Let_def)
  from vnode_new_state[OF new drv] obtain x where
    x: "v = next_vnode s" "ino x = n" "vmp x = m" "vfsmountedhere x = None" "refcount x = 1" and
    s': "s' = upd_mount m (\<lambda>mp. mp\<lparr>vnode_list := v # vnode_list mp\<rparr>) (s\<lparr>vnodes := (vnodes s)(v := x), next_vnode := v + 1\<rparr>)" .
  have nl: "\<not> live s v" using live_vmp(3)[OF c, of v] x(1) by auto
  then have H0: "H v = 0" using vn_invD(3,4)[OF inv, of v] by fastforce
  have fl: "live s' u \<longleftrightarrow> live s u \<or> u = v" for u using m unfolding live_def s' by auto
  have old: "vnodes s' u = vnodes s u" if "u \<noteq> v" for u using that by (simp add: s')
  have "mount_ok s' k" if k: "k \<in> set (mount_list s)" for k
  proof -
    have ok: "mount_ok s k" using c k by (simp add: cache_ok_def)
    have vk: "v \<notin> set (vnode_list (mounts s k))" using nl k by (auto simp: live_def)
    have inj: "inj_on (\<lambda>u. ino (vnodes s' u)) (set (vnode_list (mounts s k)))"
      using ok vk old unfolding mount_ok_def Let_def inj_on_def by metis
    show ?thesis
    proof (cases "k = m")
      case True
      have "ino (vnodes s' v) = n" using x(2) by (simp add: s')
      moreover have "ino (vnodes s' u) \<noteq> n" if "u \<in> set (vnode_list (mounts s m))" for u
        using fresh that vk True old[of u] by metis
      then have "n \<notin> (\<lambda>u. ino (vnodes s' u)) ` (set (vnode_list (mounts s m)) - {v})" by blast
      ultimately have "inj_on (\<lambda>u. ino (vnodes s' u)) (insert v (set (vnode_list (mounts s m))))"
        using inj True unfolding inj_on_insert by simp
      moreover have "vmp (vnodes s' u) = k \<and> u < next_vnode s'" if "u \<in> set (vnode_list (mounts s' k))" for u
      proof (cases "u = v")
        case False
        then have "u \<in> set (vnode_list (mounts s k))" using that True by (simp add: s')
        then show ?thesis using mount_okD(5)[OF ok, of u] False x(1) by (simp add: s')
      qed (use x True in \<open>simp add: s'\<close>)
      ultimately show ?thesis using mount_okD(1-3)[OF ok] True by (intro mount_okI) (simp_all add: s')
    next
      case False
      then have "vmp (vnodes s' u) = k \<and> u < next_vnode s'" if "u \<in> set (vnode_list (mounts s' k))" for u
        using that mount_okD(5)[OF ok, of u] vk x(1) by (auto simp: s')
      then show ?thesis using mount_okD(1-4)[OF ok] inj False by (intro mount_okI) (simp_all add: s')
    qed
  qed
  moreover have "live s' u \<Longrightarrow> vfsmountedhere (vnodes s' u) = Some k \<Longrightarrow>
      k \<in> set (mount_list s) \<and> parent_vnode (mounts s' k) = Some u" for u k
    using c fl[of u] x(4) by (cases "u = v") (auto simp: cache_ok_def s')
  ultimately have "cache_ok s'" using c unfolding cache_ok_def by (simp add: s')
  moreover have "refcount (vnodes s' u) = bump v H u" if "live s' u" for u
    using that fl[of u] vn_invD(2)[OF inv, of u] H0 x(5) by (cases "u = v") (simp_all add: s')
  moreover have "0 \<le> bump v H u \<and> (0 < bump v H u \<longrightarrow> live s' u)" for u
    using vn_invD(3,4)[OF inv, of u] fl[of u] H0 by (cases "u = v") auto
  ultimately show "vn_inv (bump v H) s'" by (simp add: vn_inv_def)
  show "live s' v" using fl by simp
qed

lemma vnode_child_inv:
  assumes "vn_inv H s" "live s v" "vnode_child v n s = (r, s')"
  shows "vframe s s'" "r = None \<Longrightarrow> vn_inv H s'" "r = Some w \<Longrightarrow> vn_inv (bump w H) s'"
proof -
  have m: "vmp (vnodes s v) \<in> set (mount_list s)" using live_vmp(1)[OF vn_invD(1)[OF assms(1)] assms(2)] .
  obtain r1 s1 where l: "vnode_lookup (vmp (vnodes s v)) n s = (r1, s1)" by fastforce
  note li = vnode_lookup_inv[OF assms(1) m l]
  have e: "vnode_child v n s = (case r1 of Some w \<Rightarrow> (Some w, s1) | None \<Rightarrow> vnode_new (vmp (vnodes s1 v)) n s1)"
    using l by (simp add: vnode_child_def split: option.split)
  show "vframe s s'" using e assms(3) li vnode_new_frame[of "vmp (vnodes s v)" n s r s'] by (auto split: option.splits)
  show "vn_inv H s'" if "r = None"
    using e assms(1,3) li(3) that vnode_new_None[of "vmp (vnodes s v)" n s s'] by (auto split: option.splits)
  show "vn_inv (bump w H) s'" if "r = Some w"
    using e assms(1,3) li(2,3) that vnode_new_inv(1)[OF assms(1) m] by (auto split: option.splits)
qed

section \<open>Resolving a path\<close>

lemma base_live: "vn_inv H s \<Longrightarrow> base H p s \<Longrightarrow> live s (p_root p) \<and> live s (p_cwd p)"
  using vn_invD(4) by (auto simp: base_def)

lemma bump_commute: "bump u (bump v H) = bump v (bump u H)"
  by (auto simp: bump_def)

lemma cross_up_inv:
  assumes "vn_inv (bump v H) s" "base H p s" "cross_up t v s = (w, s')" and nn: "\<And>u. 0 \<le> H u"
  shows "vframe s s' \<and> vn_inv (bump w H) s'"
proof -
  consider "(w, s') = (v, s)" | u where "parent_vnode (mp_of s v) = Some u" "w = u" "s' = VNODE_HOLD u (VNODE_REL v s)"
    using assms(3) by (auto simp: cross_up_def split: option.splits if_splits)
  then show ?thesis
  proof cases
    case 2
    have lv: "live s v" using vn_invD(4)[OF assms(1), of v] nn[of v] by simp
    have m: "vmp (vnodes s v) \<in> set (mount_list s)" by (rule live_vmp(1)[OF vn_invD(1)[OF assms(1)] lv])
    have i: "vn_inv H (VNODE_REL v s)" by (rule rel_inv[OF assms(1) nn])
    have "0 < H u" using assms(2) m 2(1) by (auto simp: base_def)
    then show ?thesis using hold_inv[OF i vn_invD(4)[OF i]] 2 vframe_trans[OF hold_rel_frame(2) hold_rel_frame(1), of s u v] by simp
  qed (use assms in simp)
qed

lemma cross_down_inv:
  assumes "vn_inv (bump v H) s" "base H p s" "0 \<le> H v" "cross_down v s = (w, s')"
  shows "vframe s s' \<and> vn_inv (bump w H) s'"
proof (cases "vfsmountedhere (vnodes s v)")
  case None
  then show ?thesis using assms by (simp add: cross_down_def)
next
  case (Some m)
  note c = vn_invD(1)[OF assms(1)]
  have lv: "live s v" using vn_invD(4)[OF assms(1), of v] assms(3) by simp
  have m: "m \<in> set (mount_list s)" "parent_vnode (mounts s m) = Some v"
    using c lv Some by (auto simp: cache_ok_def)
  define r where "r = root_vnode (mounts s m)"
  have mo: "vmp (vnodes s r) = m" using c m(1) by (auto simp: cache_ok_def mount_ok_def Let_def r_def)
  have "0 < H r" using assms(2) m(1) by (auto simp: base_def r_def)
  then have "live s r" using vn_invD(4)[OF assms(1), of r] by (cases "r = v") (auto simp: lv)
  then have i: "vn_inv (bump r (bump v H)) (VNODE_HOLD r s)" by (rule hold_inv[OF assms(1)])
  have "vmp (vnodes (VNODE_HOLD r s) r) = m" "parent_vnode (mounts (VNODE_HOLD r s) m) = Some v"
    using mo m(2) by (simp_all add: VNODE_HOLD_def)
  then have e: "w = r" "s' = VNODE_REL v (VNODE_HOLD r s)"
    using assms(4) Some by (auto simp: cross_down_def r_def[symmetric] Let_def)
  have "vn_inv (bump r H) s'" unfolding e(2)
    using rel_inv[of v "bump r H" "VNODE_HOLD r s"] i bump_commute[of r v H] assms(3) by (cases "v = r") (simp_all add: bump_def)
  then show ?thesis using e vframe_trans[OF hold_rel_frame(1) hold_rel_frame(2)] by metis
qed

lemma release_two:
  assumes "vn_inv (bump w (bump v H)) s" "\<And>u. 0 \<le> H u"
  shows "vn_inv H (VNODE_REL w (VNODE_REL v s))" "vn_inv (bump v H) (VNODE_REL w s)" "vn_inv (bump w H) (VNODE_REL v s)"
proof -
  have b: "0 \<le> bump u H x" for u x using assms(2)[of x] assms(2)[of u] by (simp add: bump_def)
  show 1: "vn_inv (bump w H) (VNODE_REL v s)"
    using rel_inv[of v "bump w H" s] assms(1) b[of w v] bump_commute[of v w H] by simp
  show "vn_inv H (VNODE_REL w (VNODE_REL v s))" by (rule rel_inv[OF 1 assms(2)])
  show "vn_inv (bump v H) (VNODE_REL w s)" using rel_inv[OF assms(1)] b[of v w] by simp
qed

fun after :: "walk \<Rightarrow> (nat \<Rightarrow> int) \<Rightarrow> nat \<Rightarrow> int" where
  "after (Found w) H = bump w H"
| "after (Fails err) H = H"
| "after (Link w path) H = bump w H"

lemma read_link_inv:
  assumes "vn_inv (bump w (bump v H)) s" "base H p s" "\<And>u. 0 \<le> H u" "read_link p v w s = (r, s')"
  shows "vframe s s' \<and> vn_inv (after r H) s'"
proof -
  note r2 = release_two[OF assms(1,3)]
  have f: "vframe s (VNODE_REL w (VNODE_REL v s))" "vframe s (VNODE_REL w s)"
    "vframe s (VNODE_HOLD (p_root p) (VNODE_REL v (VNODE_REL w s)))"
    by (meson hold_rel_frame vframe_trans)+
  have i: "vn_inv H (VNODE_REL v (VNODE_REL w s))" by (rule rel_inv[OF r2(2) assms(3)])
  have "vn_inv (bump (p_root p) H) (VNODE_HOLD (p_root p) (VNODE_REL v (VNODE_REL w s)))"
    by (rule hold_inv[OF i vn_invD(4)[OF i]]) (use assms(2) in \<open>simp add: base_def\<close>)
  then show ?thesis using assms(4) f r2(1,2)
    by (auto simp: read_link_def Let_def split: option.splits prod.splits if_splits)
qed

lemma walk_path_inv:
  "vn_inv (bump v H) s \<Longrightarrow> base H p s \<Longrightarrow> (\<And>u. 0 \<le> H u) \<Longrightarrow> walk_path p fl ts v s = (r, s') \<Longrightarrow>
     vframe s s' \<and> vn_inv (after r H) s'"
proof (induction ts arbitrary: v s)
  case (Cons t ts)
  obtain v1 s1 where cu: "cross_up t v s = (v1, s1)" by fastforce
  note 1 = cross_up_inv[OF Cons.prems(1,2) cu Cons.prems(3)]
  have b1: "base H p s1" using 1 Cons.prems(2) vframe_base by blast
  note tr = vframe_trans[OF conjunct1[OF 1]]
  define n where "n = op_lookup (ops_of s1 v1) (vnodes s1 v1) t (mdata (mp_of s1 v1))"
  obtain w2 s2 where vc: "vnode_child v1 n s1 = (w2, s2)" by fastforce
  have l1: "live s1 v1" using 1 vn_invD(4)[of "bump v1 H" s1 v1] Cons.prems(3)[of v1] by simp
  note 2 = vnode_child_inv[OF conjunct2[OF 1] l1 vc]
  have b2: "base H p s2" using 2(1) b1 vframe_base by blast
  note step = Cons.prems(4)[unfolded walk_path.simps(2) cu prod.case n_def[symmetric] vc Let_def]
  consider (root) "walk_path p fl ts v1 s1 = (r, s')" | (noent) "r = Fails (- errno_code ENOENT)" "s' = VNODE_REL v1 s1"
    | (io) "w2 = None" "r = Fails (- errno_code EIO)" "s' = VNODE_REL v1 s2" | (child) w where "w2 = Some w"
      "(case cross_down w s2 of (w, s) \<Rightarrow>
                    if S_ISLNK (vmode (vnodes s w)) \<and> fl then read_link p v1 w s
                    else if ts = [] then (Found w, VNODE_REL v1 s)
                    else if \<not> S_ISDIR (vmode (vnodes s v1))
                      then (Fails (- errno_code ENOTDIR), VNODE_REL w (VNODE_REL v1 s))
                    else if do_sys_access (vnodes s w) 1 p \<noteq> 0
                      then (Fails (- errno_code EACCES), VNODE_REL w (VNODE_REL v1 s))
                    else walk_path p fl ts w (VNODE_REL v1 s)) = (r, s')"
    using step by (auto split: if_splits option.splits)
  then show ?case
  proof cases
    case root
    then show ?thesis using Cons.IH[OF conjunct2[OF 1] b1 Cons.prems(3) root] tr by blast
  next
    case noent
    then show ?thesis using rel_inv[OF conjunct2[OF 1] Cons.prems(3)] tr[OF hold_rel_frame(2)] by simp
  next
    case io
    then show ?thesis using rel_inv[OF 2(2)[OF io(1)] Cons.prems(3)] tr[OF vframe_trans[OF 2(1) hold_rel_frame(2)]] by simp
  next
    case (child w0)
    obtain w s3 where cd: "cross_down w0 s2 = (w, s3)" by fastforce
    have bb: "base (bump v1 H) p s2" "0 \<le> bump v1 H w0"
      using b2 Cons.prems(3)[of w0] by (auto simp: base_def bump_def)
    note 3 = cross_down_inv[OF 2(3)[OF child(1)] bb cd]
    have b3: "base H p s3" using 3 b2 vframe_base by blast
    have t3: "vframe s3 s' \<Longrightarrow> vframe s s'" using tr vframe_trans[OF 2(1) vframe_trans[OF conjunct1[OF 3]]] by blast
    note r2 = release_two[OF conjunct2[OF 3] Cons.prems(3)]
    have fr: "vframe s3 (VNODE_REL v1 s3)" "vframe s3 (VNODE_REL w (VNODE_REL v1 s3))"
      using hold_rel_frame(2) vframe_trans by blast+
    note IH = Cons.IH[OF r2(3) vframe_base[OF fr(1) b3] Cons.prems(3)]
    show ?thesis
      using child(2)[unfolded cd prod.case] t3 r2(1,3) fr read_link_inv[OF conjunct2[OF 3] b3 Cons.prems(3), of r s']
        IH vframe_trans[OF fr(1)]
      by (auto split: if_splits)
  qed
qed auto

lemma vnode_get_loop_inv:
  "vn_inv (bump v H) s \<Longrightarrow> base H p s \<Longrightarrow> (\<And>u. 0 \<le> H u) \<Longrightarrow> vnode_get_loop i p fl path v s = (r, s') \<Longrightarrow>
     vframe s s' \<and> vn_inv (case r of Inl _ \<Rightarrow> H | Inr w \<Rightarrow> bump w H) s'"
proof (induction i arbitrary: path v s)
  case 0
  then show ?case using rel_inv[OF 0(1) 0(3)] hold_rel_frame(2)[of s v] by auto
next
  case (Suc i)
  obtain r1 s1 where w: "walk_path p fl (str_explode path (CHR ''/'')) v s = (r1, s1)" by fastforce
  note 1 = walk_path_inv[OF Suc.prems(1-3) w]
  note IH = Suc.IH[OF _ vframe_base[OF conjunct1[OF 1] Suc.prems(2)] Suc.prems(3)]
  show ?case using Suc.prems(4) 1 IH vframe_trans[OF conjunct1[OF 1]] Suc.prems(1)
    by (auto simp: Let_def w split: if_splits walk.splits)
qed

lemma vnode_get_inv:
  assumes "vn_inv H s" "base H p s" "vnode_get path p fl s = (r, s')"
  shows "vframe s s'" "base H p s'" "r = Inl e \<Longrightarrow> vn_inv H s'" "r = Inr w \<Longrightarrow> vn_inv (bump w H) s' \<and> live s' w"
proof -
  define v where "v = (if path \<noteq> [] \<and> hd path = CHR ''/'' then p_root p else p_cwd p)"
  have nn: "0 \<le> H u" for u using vn_invD(3)[OF assms(1)] .
  have lv: "live s v" using base_live[OF assms(1,2)] by (simp add: v_def)
  have 0: "vn_inv (bump v H) (VNODE_HOLD v s)" by (rule hold_inv[OF assms(1) lv])
  have e: "vnode_get_loop SYMLOOP_MAX p fl path v (VNODE_HOLD v s) = (r, s')"
    using assms(3) unfolding vnode_get_def v_def[symmetric] Let_def .
  note 1 = vnode_get_loop_inv[OF 0 vframe_base[OF hold_rel_frame(1) assms(2)] nn e]
  show fr: "vframe s s'" using 1 vframe_trans hold_rel_frame(1) by blast
  show "base H p s'" by (rule vframe_base[OF fr assms(2)])
  show "vn_inv H s'" if "r = Inl e" using 1 that by simp
  show "vn_inv (bump w H) s' \<and> live s' w" if "r = Inr w"
    using 1 that vn_invD(4)[of "bump w H" s' w] nn[of w] by simp
qed

section \<open>Freeing v-nodes\<close>

text \<open>The frame of the calls that also change the state of a file system.\<close>

definition wframe :: "('f, 'w) vfs \<Rightarrow> ('f, 'w) vfs \<Rightarrow> bool" where
  "wframe s s' \<longleftrightarrow> (\<exists>vn nv ml md. s' = s\<lparr>vnodes := vn, next_vnode := nv,
     mounts := \<lambda>m. (mounts s m)\<lparr>mdata := md m, vnode_list := ml m\<rparr>\<rparr>)"

lemma wframeI: "s' = s\<lparr>vnodes := vn, next_vnode := nv,
     mounts := \<lambda>m. (mounts s m)\<lparr>mdata := md m, vnode_list := ml m\<rparr>\<rparr> \<Longrightarrow> wframe s s'"
  unfolding wframe_def by blast

lemma vframe_wframe: "vframe s s' \<Longrightarrow> wframe s s'"
  unfolding vframe_def by (elim exE) (rule wframeI[where md = "\<lambda>m. mdata (mounts s m)"], simp)

lemma wframe_refl [simp]: "wframe s s"
  by (rule vframe_wframe) simp

lemma wframe_trans [trans]: "wframe s s' \<Longrightarrow> wframe s' s'' \<Longrightarrow> wframe s s''"
proof -
  assume "wframe s s'" "wframe s' s''"
  then obtain vn nv ml md vn' nv' ml' md' where
    "s' = s\<lparr>vnodes := vn, next_vnode := nv, mounts := \<lambda>m. (mounts s m)\<lparr>mdata := md m, vnode_list := ml m\<rparr>\<rparr>"
    "s'' = s'\<lparr>vnodes := vn', next_vnode := nv', mounts := \<lambda>m. (mounts s' m)\<lparr>mdata := md' m, vnode_list := ml' m\<rparr>\<rparr>"
    by (auto simp: wframe_def)
  then have "s'' = s\<lparr>vnodes := vn', next_vnode := nv', mounts := \<lambda>m. (mounts s m)\<lparr>mdata := md' m, vnode_list := ml' m\<rparr>\<rparr>" by simp
  then show ?thesis by (rule wframeI)
qed

lemma wframe_simps:
  assumes "wframe s s'"
  shows "mount_list s' = mount_list s" "files s' = files s" "next_file s' = next_file s"
    "root_vnode (mounts s' m) = root_vnode (mounts s m)" "parent_vnode (mounts s' m) = parent_vnode (mounts s m)"
    "next_mount s' = next_mount s"
  using assms by (auto simp: wframe_def)

lemma wframe_base: "wframe s s' \<Longrightarrow> base H p s \<Longrightarrow> base H p s'"
  by (simp add: base_def wframe_simps)

lemma upd_vnode_frame [simp]: "wframe s (upd_vnode v g s)"
  by (rule wframeI[where md = "\<lambda>m. mdata (mounts s m)" and ml = "\<lambda>m. vnode_list (mounts s m)" and nv = "next_vnode s"
        and vn = "(vnodes s)(v := g (vnodes s v))"]) simp

lemma set_data_frame [simp]: "wframe s (upd_mount m (\<lambda>mp. mp\<lparr>mdata := d\<rparr>) s)"
  by (rule wframeI[where md = "\<lambda>k. if k = m then d else mdata (mounts s k)" and ml = "\<lambda>m. vnode_list (mounts s m)"
        and nv = "next_vnode s" and vn = "vnodes s"]) (simp add: fun_eq_iff)

lemma rel_wframe [simp]: "wframe s (VNODE_REL v s)" "wframe s (VNODE_HOLD v s)"
  by (simp_all add: vframe_wframe)

text \<open>Only the list of the v-node's mount point changes: the v-node goes to its front, or leaves it.\<close>

lemma relist_inv:
  assumes inv: "vn_inv H s" and v: "live s v" and H: "H v = 0 \<or> b" and b: "base H p s"
  defines "s' \<equiv> upd_mount (vmp (vnodes s v))
      (\<lambda>mp. mp\<lparr>vnode_list := (if b then [v] else []) @ removeAll v (vnode_list mp)\<rparr>) s"
  shows "vn_inv H s'"
proof -
  note c = vn_invD(1)[OF inv]
  let ?m = "vmp (vnodes s v)"
  have vl: "k = ?m" if "k \<in> set (mount_list s)" "v \<in> set (vnode_list (mounts s k))" for k
    using mount_okD(5)[of s k v] c that by (simp add: cache_ok_def)
  have set': "set (vnode_list (mounts s' k)) = set (vnode_list (mounts s k)) - (if b then {} else {v})"
    if "k \<in> set (mount_list s)" for k
  proof (cases "k = ?m")
    case True
    then show ?thesis using live_vmp(2)[OF c v] by (simp add: s'_def insert_absorb)
  next
    case False
    then have "v \<notin> set (vnode_list (mounts s k))" using vl[OF that] by blast
    then show ?thesis using False by (simp add: s'_def)
  qed
  have l': "live s' u \<longleftrightarrow> live s u \<and> (b \<or> u \<noteq> v)" for u
  proof -
    have ml: "mount_list s' = mount_list s" by (simp add: s'_def)
    show ?thesis unfolding live_def ml by (cases b) (auto simp: set')
  qed
  have "mount_ok s' k" if k: "k \<in> set (mount_list s)" for k
  proof -
    have ok: "mount_ok s k" using c k by (simp add: cache_ok_def)
    have "b \<or> root_vnode (mounts s k) \<noteq> v" using b k H by (auto simp: base_def)
    then have "root_vnode (mounts s' k) \<in> set (vnode_list (mounts s' k))"
      using mount_okD(3)[OF ok] set'[OF k] by (auto simp: s'_def)
    moreover have "inj_on (\<lambda>v. ino (vnodes s' v)) (set (vnode_list (mounts s' k)))"
      unfolding set'[OF k] using mount_okD(4)[OF ok] by (auto simp: s'_def intro: inj_on_diff)
    moreover have "vmp (vnodes s' u) = k \<and> u < next_vnode s'" if "u \<in> set (vnode_list (mounts s' k))" for u
      using that mount_okD(5)[OF ok, of u] set'[OF k] by (simp add: s'_def)
    moreover have "next_mount s' = next_mount s" "mfs (mounts s' k) = mfs (mounts s k)" by (simp_all add: s'_def)
    ultimately show ?thesis using mount_okD(1,2)[OF ok] mount_okI[of k s'] by simp
  qed
  moreover have "parent_vnode (mounts s' k) = parent_vnode (mounts s k)" "vnodes s' = vnodes s"
    "mount_list s' = mount_list s" "fs_list s' = fs_list s" for k by (simp_all add: s'_def)
  ultimately have "cache_ok s'" using c l' unfolding cache_ok_def by auto
  then show ?thesis using inv H l' unfolding vn_inv_def by (auto simp: s'_def)
qed

lemma relist_frame: "wframe s (upd_mount m (\<lambda>mp. mp\<lparr>vnode_list := g (vnode_list mp)\<rparr>) s)"
  by (rule wframeI[where md = "\<lambda>m. mdata (mounts s m)" and ml = "\<lambda>k. if k = m then g (vnode_list (mounts s m)) else vnode_list (mounts s k)"
        and nv = "next_vnode s" and vn = "vnodes s"]) (simp add: fun_eq_iff)

lemma data_list_swap: "mp\<lparr>mdata := f, vnode_list := l\<rparr> = mp\<lparr>vnode_list := l, mdata := f\<rparr>"
  by (cases mp) simp

lemma vnode_free_inv:
  assumes inv: "vn_inv H s" and v: "live s v" and b: "base H p s"
  shows "vn_inv H (snd (vnode_free v s)) \<and> wframe s (snd (vnode_free v s))"
proof (cases "refcount (vnodes s v) > 0")
  case False
  then have H0: "H v = 0" using vn_invD(2,3)[OF inv, of v] v by simp
  let ?m = "vmp (vnodes s v)"
  define s1 where "s1 = upd_mount ?m (\<lambda>mp. mp\<lparr>vnode_list := removeAll v (vnode_list mp)\<rparr>) s"
  obtain err f where cl: "op_close (ops_of s v) (vnodes s v) (mdata (mounts s ?m)) = (err, f)" by fastforce
  define s2 where "s2 = upd_mount ?m (\<lambda>mp. mp\<lparr>mdata := f\<rparr>) s1"
  have e: "snd (vnode_free v s) = (if err \<noteq> 0 then upd_mount ?m (\<lambda>mp. mp\<lparr>vnode_list := v # vnode_list mp\<rparr>) s2 else s2)"
    using False cl by (simp add: vnode_free_def Let_def s2_def s1_def)
  have "vn_inv H s1" using relist_inv[OF inv v _ b, of False] H0 by (simp add: s1_def)
  then have i2: "vn_inv H s2" unfolding s2_def by (rule set_data_inv)
  have f2: "wframe s s2" unfolding s2_def s1_def by (rule wframe_trans[OF relist_frame set_data_frame])
  have e': "upd_mount ?m (\<lambda>mp. mp\<lparr>vnode_list := v # vnode_list mp\<rparr>) s2 =
      upd_mount ?m (\<lambda>mp. mp\<lparr>mdata := f\<rparr>) (upd_mount ?m (\<lambda>mp. mp\<lparr>vnode_list := [v] @ removeAll v (vnode_list mp)\<rparr>) s)"
    by (simp add: s2_def s1_def data_list_swap)
  have "vn_inv H (upd_mount ?m (\<lambda>mp. mp\<lparr>vnode_list := v # vnode_list mp\<rparr>) s2)"
    unfolding e' by (rule set_data_inv) (use relist_inv[OF inv v _ b, of True] in simp)
  moreover have "wframe s (upd_mount ?m (\<lambda>mp. mp\<lparr>vnode_list := v # vnode_list mp\<rparr>) s2)"
    by (rule wframe_trans[OF f2 relist_frame])
  ultimately show ?thesis using i2 f2 unfolding e by simp
qed (use assms in \<open>simp add: vnode_free_def\<close>)

section \<open>Calls that give back what they take\<close>

definition keeps :: "(nat \<Rightarrow> int) \<Rightarrow> ('f, 'w) vfs \<Rightarrow> ('f, 'w) vfs \<Rightarrow> bool" where
  "keeps H s s' \<longleftrightarrow> wframe s s' \<and> vn_inv H s'"

lemma keepsI: "wframe s s' \<Longrightarrow> vn_inv H s' \<Longrightarrow> keeps H s s'"
  by (simp add: keeps_def)

lemma keeps_after: "wframe s s1 \<Longrightarrow> keeps H s1 s' \<Longrightarrow> keeps H s s'"
  using wframe_trans by (auto simp: keeps_def)

lemma keeps_rel: "vn_inv (bump v H) s \<Longrightarrow> 0 \<le> H v \<Longrightarrow> keeps H s (VNODE_REL v s)"
  by (simp add: keeps_def rel_inv)

lemma keeps_then_rel: "keeps (bump v H) s s' \<Longrightarrow> 0 \<le> H v \<Longrightarrow> keeps H s (VNODE_REL v s')"
  using rel_inv wframe_trans[OF _ rel_wframe(1)] by (auto simp: keeps_def)

text \<open>The shape of a call on a path: an error is returned as it is, otherwise the rest of the call starts with
  one more reference.\<close>

lemma get_cases:
  assumes "vn_inv H s" "base H p s" "vnode_get path p fl s = (r, s1)"
  obtains (err) e where "r = Inl e" "wframe s s1" "vn_inv H s1" "base H p s1"
  | (ok) v where "r = Inr v" "wframe s s1" "vn_inv (bump v H) s1" "base H p s1" "live s1 v"
  using vnode_get_inv[OF assms] vframe_wframe by (cases r) blast+

lemma sys_access_keeps:
  assumes "vn_inv H s" "base H p s"
  shows "keeps H s (snd (sys_access path m p s))" "keeps H s (snd (snd (sys_stat path p s)))"
    "keeps H s (snd (snd (sys_lstat path p s)))"
proof -
  have nn: "0 \<le> H u" for u by (rule vn_invD(3)[OF assms(1)])
  have *: "keeps H s (case vnode_get path p fl s of (Inl _, s) \<Rightarrow> s | (Inr v, s) \<Rightarrow> VNODE_REL v s)" for fl
  proof -
    obtain r s1 where g: "vnode_get path p fl s = (r, s1)" by fastforce
    show ?thesis
      by (rule get_cases[OF assms g]) (simp_all add: g keepsI keeps_after[OF _ keeps_rel[OF _ nn]])
  qed
  show "keeps H s (snd (sys_access path m p s))"
    using *[of True] by (auto simp: sys_access_def split: prod.splits sum.splits)
  show "keeps H s (snd (snd (sys_stat path p s)))"
    using *[of True] by (auto simp: sys_stat_def split: prod.splits sum.splits)
  show "keeps H s (snd (snd (sys_lstat path p s)))"
    using *[of False] by (auto simp: sys_lstat_def split: prod.splits sum.splits)
qed

lemma make_node_keeps:
  assumes "vn_inv H s" "base H p s"
  shows "keeps H s (snd (make_node dir oper p s))"
proof -
  obtain r s1 where g: "vnode_get dir p True s = (r, s1)" by fastforce
  show ?thesis
  proof (rule get_cases[OF assms g])
    fix v assume r: "r = Inr v" and s1: "wframe s s1" "vn_inv (bump v H) s1"
    note nn = vn_invD(3)[OF assms(1), of v]
    have rel: "keeps H s1 (VNODE_REL v s1)" using keeps_rel[OF s1(2) nn] .
    have rel2: "keeps H s1 (VNODE_REL v (set_data v d s1))" for d
      using keeps_after[OF set_data_frame keeps_rel[OF set_data_inv[OF s1(2)] nn]] .
    have "keeps H s1 (snd (make_node dir oper p s))"
      using rel rel2 by (simp add: make_node_def g r Let_def split: option.split prod.split)
    then show ?thesis by (rule keeps_after[OF s1(1)])
  qed (simp add: g make_node_def keepsI)
qed

lemma sys_mknod_keeps:
  assumes "vn_inv H s" "base H p s"
  shows "sys_mknod path m dev p s = Some (err, s') \<Longrightarrow> keeps H s s'"
    "sys_mkdir path m p s = Some (err, s') \<Longrightarrow> keeps H s s'"
proof -
  obtain r s1 where g: "vnode_get path p True s = (r, s1)" by fastforce
  have *: "keeps H s s'"
    if "(case r of Inr v \<Rightarrow> Some (e, VNODE_REL v s1) | Inl _ \<Rightarrow>
         (case vfs_path_split path of None \<Rightarrow> None | Some (dir, name) \<Rightarrow> Some (make_node dir (oper name) p s1))) = Some (err, s')"
    for e oper
  proof (rule get_cases[OF assms g])
    fix e assume "r = Inl e" "wframe s s1" and s1: "vn_inv H s1" "base H p s1"
    then show ?thesis using that keeps_after[OF _ make_node_keeps[OF s1]] by (auto split: option.splits) (metis snd_conv)
  next
    fix v assume "r = Inr v" "wframe s s1" "vn_inv (bump v H) s1"
    then show ?thesis using that keeps_rel[of v H s1] vn_invD(3)[OF assms(1)] keeps_after by auto
  qed
  show "keeps H s s'" if "sys_mkdir path m p s = Some (err, s')"
    by (rule *[where oper = "\<lambda>name ops. map_option (\<lambda>f v. f v name (m AND NOT (p_umask p)) (p_uid p) (p_gid p)) (op_mkdir ops)"
          and e = "- errno_code EEXIST"])
      (use that[unfolded sys_mkdir_def g Let_def] in \<open>simp split: sum.splits\<close>)
  have "keeps H s s" using assms(1) by (simp add: keepsI)
  then show "keeps H s s'" if "sys_mknod path m dev p s = Some (err, s')"
    using that[unfolded sys_mknod_def g Let_def] *[where oper = "\<lambda>name ops. map_option (\<lambda>f v. f v name (m AND NOT (p_umask p)) dev (p_uid p) (p_gid p)) (op_mknod ops)"
          and e = "- errno_code EEXIST"]
    by (simp split: sum.splits if_splits)
qed

lemma flushed_keeps: "vn_inv H s \<Longrightarrow> keeps H s (flushed v s)"
  by (simp add: flushed_def keeps_def set_data_inv split: option.split)

lemma sys_chmod_keeps:
  assumes "vn_inv H s" "base H p s"
  shows "keeps H s (snd (sys_chmod path m p s))"
proof -
  obtain r s1 where g: "vnode_get path p True s = (r, s1)" by fastforce
  show ?thesis
  proof (rule get_cases[OF assms g])
    fix v assume r: "r = Inr v" and s1: "wframe s s1" "vn_inv (bump v H) s1"
    note nn = vn_invD(3)[OF assms(1), of v]
    have rel: "keeps H s1 (VNODE_REL v s1)" using keeps_rel[OF s1(2) nn] .
    define s2 where "s2 = upd_vnode v (\<lambda>x. x\<lparr>vmode := vmode x AND S_IFMT OR (m AND 0x1FF)\<rparr>) s1"
    have i2: "vn_inv (bump v H) s2" "wframe s1 s2"
      unfolding s2_def using upd_vnode_inv[OF s1(2)] by (simp_all add: same_place_def)
    have f: "wframe s2 (flushed v s2)" "vn_inv (bump v H) (flushed v s2)"
      using flushed_keeps[OF i2(1), of v] by (simp_all add: keeps_def)
    have "keeps H s1 (VNODE_REL v (flushed v s2))"
      using keepsI[OF wframe_trans[OF i2(2) wframe_trans[OF f(1) rel_wframe(1)]] rel_inv[OF f(2) nn]] .
    then have "keeps H s1 (snd (sys_chmod path m p s))"
      using rel by (simp add: sys_chmod_def g r Let_def s2_def)
    then show ?thesis by (rule keeps_after[OF s1(1)])
  qed (simp add: g sys_chmod_def keepsI)
qed

lemma base_bump: "base H p s \<Longrightarrow> base (bump v H) p s"
proof -
  have "0 < H u \<Longrightarrow> 0 < bump v H u" for u by (cases "u = v") simp_all
  then show "base H p s \<Longrightarrow> base (bump v H) p s" by (auto simp: base_def)
qed

lemma bump_nonneg: "(\<And>u. 0 \<le> H u) \<Longrightarrow> 0 \<le> bump v H u"
  by (simp add: bump_def add_nonneg_nonneg)

lemma drop_link_keeps:
  assumes "vn_inv (bump v H) s" "base H p s" "\<And>u. 0 \<le> H u"
  shows "keeps H s (drop_link v s)"
proof -
  define s1 where "s1 = VNODE_REL v (upd_vnode v (\<lambda>x. x\<lparr>vnlink := vnlink x - 1\<rparr>) s)"
  have lv: "live s v" using vn_invD(4)[OF assms(1), of v] assms(3)[of v] by simp
  have i: "vn_inv H s1" unfolding s1_def
    by (rule rel_inv[OF upd_vnode_inv[OF assms(1)]]) (use assms(3) in \<open>simp_all add: same_place_def\<close>)
  have f: "wframe s s1" unfolding s1_def by (rule wframe_trans[OF upd_vnode_frame rel_wframe(1)])
  have l1: "live s1 v" using lv by (simp add: live_def s1_def VNODE_REL_def)
  have "keeps H s1 (snd (vnode_free v s1))"
    using vnode_free_inv[OF i l1 wframe_base[OF f assms(2)]] by (simp add: keeps_def)
  then show ?thesis unfolding drop_link_def Let_def s1_def[symmetric]
    using keeps_after[OF f] flushed_keeps[OF i, of v] by simp
qed

lemma sys_unlink_keeps:
  assumes "vn_inv H s" "base H p s" "sys_unlink path p s = Some (err, s')"
  shows "keeps H s s'"
proof -
  have nn: "0 \<le> H u" for u by (rule vn_invD(3)[OF assms(1)])
  obtain r s1 where g: "vnode_get path p True s = (r, s1)" by fastforce
  show ?thesis
  proof (rule get_cases[OF assms(1,2) g])
    fix v assume r: "r = Inr v" and s1: "wframe s s1" "vn_inv (bump v H) s1" "base H p s1"
    note step = assms(3)[unfolded sys_unlink_def g r prod.case sum.case]
    have rel: "keeps H s1 (VNODE_REL v s1)" using keeps_rel[OF s1(2) nn] .
    show ?thesis
    proof (cases "s' = VNODE_REL v s1")
      case True
      then show ?thesis using keeps_after[OF s1(1) rel] by simp
    next
      case False
      then obtain dir name where sp: "vfs_path_split path = Some (dir, name)"
        using step by (auto split: if_splits option.splits)
      obtain r2 s2 where g2: "vnode_get dir p True s1 = (r2, s2)" by fastforce
      have rest: "(case r2 of Inl err \<Rightarrow> Some (err, VNODE_REL v s2) | Inr u \<Rightarrow>
          let err = do_sys_access (vnodes s2 u) 3 p
          in if err \<noteq> 0 then Some (err, VNODE_REL u (VNODE_REL v s2))
             else case unlink_entry u name s2 of
               (err, s3) \<Rightarrow> Some (err, VNODE_REL u (if err = 0 then drop_link v s3 else VNODE_REL v s3))) = Some (err, s')"
        using step False unfolding sp by (auto simp: g2 split: if_splits sum.splits)
      show ?thesis
      proof (rule get_cases[OF s1(2) base_bump[OF s1(3)] g2])
        fix e assume "r2 = Inl e" and s2: "wframe s1 s2" "vn_inv (bump v H) s2"
        then have "s' = VNODE_REL v s2" using rest by simp
        then show ?thesis using keeps_after[OF wframe_trans[OF s1(1) s2(1)] keeps_rel[OF s2(2) nn]] by simp
      next
        fix u assume r2: "r2 = Inr u" and s2: "wframe s1 s2" "vn_inv (bump u (bump v H)) s2"
        have b2: "base H p s2" by (rule wframe_base[OF s2(1) s1(3)])
        note fr = wframe_trans[OF s1(1) s2(1)]
        obtain err2 s3 where op: "unlink_entry u name s2 = (err2, s3)" by fastforce
        have s3: "wframe s2 s3" "vn_inv (bump v (bump u H)) s3"
          using op s2(2) set_data_inv[OF s2(2)] bump_commute[of u v H] by (auto simp: unlink_entry_def split: option.splits prod.splits)
        have s': "s' = VNODE_REL u (VNODE_REL v s2) \<or> s' = VNODE_REL u (if err2 = 0 then drop_link v s3 else VNODE_REL v s3)"
          using rest r2 op by (auto simp: Let_def split: if_splits)
        have two: "vn_inv H (VNODE_REL u (VNODE_REL v s2))" by (rule release_two(1)[OF s2(2) nn])
        have "keeps (bump u H) s3 (if err2 = 0 then drop_link v s3 else VNODE_REL v s3)"
          using drop_link_keeps[OF s3(2) base_bump[OF wframe_base[OF s3(1) b2]] bump_nonneg[OF nn]]
            keeps_rel[OF s3(2) bump_nonneg[OF nn]] by simp
        then have "keeps H s3 (VNODE_REL u (if err2 = 0 then drop_link v s3 else VNODE_REL v s3))"
          by (rule keeps_then_rel[OF _ nn])
        then have "keeps H s2 (VNODE_REL u (if err2 = 0 then drop_link v s3 else VNODE_REL v s3))"
          by (rule keeps_after[OF s3(1)])
        moreover have "keeps H s2 (VNODE_REL u (VNODE_REL v s2))"
          using keepsI[OF wframe_trans[OF rel_wframe(1) rel_wframe(1)] two] .
        ultimately show ?thesis using s' keeps_after[OF fr] by metis
      qed
    qed
  qed (use assms(3) in \<open>simp add: sys_unlink_def g keepsI\<close>)
qed

end
