(* ===== verification/VfsCalls.thy ===== *)
theory VfsCalls
  imports VfsRefs
begin

text \<open>
  The system calls of the virtual file system keep the references exact: \<open>vfs_inv\<close> says that every cached v-node
  is referenced by exactly the processes' directories, mount points and open files its count shows, and every
  open file by exactly its descriptors. One lemma per call, then the system of all processes.
\<close>

section \<open>Counting references\<close>

definition proc_refs :: "vproc \<Rightarrow> nat \<Rightarrow> int" where
  "proc_refs p v = of_bool (p_root p = v) + of_bool (p_cwd p = v)"

definition mount_refs :: "('f, 'w) vfs \<Rightarrow> nat \<Rightarrow> int" where
  "mount_refs s v = (\<Sum>m \<leftarrow> mount_list s. of_bool (root_vnode (mounts s m) = v) + of_bool (parent_vnode (mounts s m) = Some v))"

definition file_refs :: "('f, 'w) vfs \<Rightarrow> nat \<Rightarrow> int" where
  "file_refs s v = int (card {f. map_option fvnode (files s f) = Some (Some v)})"

definition points_to :: "nat \<Rightarrow> filedes option \<Rightarrow> bool" where
  "points_to f d \<longleftrightarrow> map_option fdfile d = Some f"

definition fd_refs :: "vproc \<Rightarrow> nat \<Rightarrow> int" where
  "fd_refs p f = int (length (filter (points_to f) (p_fds p)))"

text \<open>The whole: \<open>PR\<close> counts the directories of processes, \<open>FR\<close> the descriptors.\<close>

definition holds :: "(nat \<Rightarrow> int) \<Rightarrow> ('f, 'w) vfs \<Rightarrow> nat \<Rightarrow> int" where
  "holds PR s v = PR v + mount_refs s v + file_refs s v"

definition files_inv :: "(nat \<Rightarrow> int) \<Rightarrow> ('f, 'w) vfs \<Rightarrow> bool" where
  "files_inv FR s \<longleftrightarrow> (\<forall>f fl. files s f = Some fl \<longrightarrow> f < next_file s \<and> frefs fl = FR f) \<and>
     (\<forall>f. 0 \<le> FR f \<and> (0 < FR f \<longrightarrow> files s f \<noteq> None))"

lemma files_invD:
  assumes "files_inv FR s"
  shows "files s f = Some fl \<Longrightarrow> f < next_file s \<and> frefs fl = FR f" "files s f = None \<Longrightarrow> FR f = 0"
    "next_file s \<le> f \<Longrightarrow> files s f = None"
proof -
  show "files s f = Some fl \<Longrightarrow> f < next_file s \<and> frefs fl = FR f" using assms by (simp add: files_inv_def)
  have "0 \<le> FR f" "0 < FR f \<longrightarrow> files s f \<noteq> None" using assms by (simp_all add: files_inv_def)
  then show "files s f = None \<Longrightarrow> FR f = 0" by linarith
  show "next_file s \<le> f \<Longrightarrow> files s f = None" using assms unfolding files_inv_def by (cases "files s f") (simp, meson not_less)
qed

definition refs_inv :: "(nat \<Rightarrow> int) \<Rightarrow> (nat \<Rightarrow> int) \<Rightarrow> ('f, 'w) vfs \<Rightarrow> bool" where
  "refs_inv PR FR s \<longleftrightarrow> (\<forall>v. 0 \<le> PR v) \<and> files_inv FR s \<and> vn_inv (holds PR s) s"

text \<open>The view of one process: \<open>ext\<close> and \<open>fext\<close> are the references of all the others.\<close>

definition vfs_inv :: "(nat \<Rightarrow> int) \<Rightarrow> (nat \<Rightarrow> int) \<Rightarrow> vproc \<Rightarrow> ('f, 'w) vfs \<Rightarrow> bool" where
  "vfs_inv ext fext p s \<longleftrightarrow> (\<forall>v. 0 \<le> ext v) \<and> (\<forall>f. 0 \<le> fext f) \<and> length (p_fds p) = OPEN_MAX \<and>
     refs_inv (\<lambda>v. ext v + proc_refs p v) (\<lambda>f. fext f + fd_refs p f) s"

lemma mount_refs_ge: "m \<in> set (mount_list s) \<Longrightarrow>
    of_bool (root_vnode (mounts s m) = v) + of_bool (parent_vnode (mounts s m) = Some v) \<le> mount_refs s v"
proof -
  have "0 \<le> (\<Sum>m \<leftarrow> ms. of_bool (root_vnode (mounts s m) = v) + of_bool (parent_vnode (mounts s m) = Some v) :: int)" for ms
    by (rule sum_list_nonneg) auto
  then have "m \<in> set ms \<Longrightarrow> of_bool (root_vnode (mounts s m) = v) + of_bool (parent_vnode (mounts s m) = Some v) \<le>
      (\<Sum>m \<leftarrow> ms. of_bool (root_vnode (mounts s m) = v) + of_bool (parent_vnode (mounts s m) = Some v) :: int)" for ms
    by (induction ms) (auto simp: add_increasing add_increasing2)
  then show "m \<in> set (mount_list s) \<Longrightarrow> ?thesis" by (simp add: mount_refs_def)
qed

lemma mount_refs_nonneg: "0 \<le> mount_refs s v"
  unfolding mount_refs_def by (rule sum_list_nonneg) auto

lemma file_refs_nonneg: "0 \<le> file_refs s v"
  by (simp add: file_refs_def)

lemma proc_refs_nonneg: "0 \<le> proc_refs p v"
  by (simp add: proc_refs_def)

lemma vfs_invD:
  assumes "vfs_inv ext fext p s"
  defines "H \<equiv> holds (\<lambda>v. ext v + proc_refs p v) s"
  shows "vn_inv H s" "base H p s" "files_inv (\<lambda>f. fext f + fd_refs p f) s" "length (p_fds p) = OPEN_MAX"
    "0 \<le> ext v" "0 \<le> fext f"
proof -
  show a: "vn_inv H s" "files_inv (\<lambda>f. fext f + fd_refs p f) s" "length (p_fds p) = OPEN_MAX" "0 \<le> ext v" "0 \<le> fext f"
    for v f using assms by (simp_all add: vfs_inv_def refs_inv_def)
  have h: "proc_refs p u + mount_refs s u \<le> H u" for u
    using a(4)[of u] file_refs_nonneg[of s u] by (simp add: H_def holds_def)
  have 1: "0 < H u" if "u = p_root p \<or> u = p_cwd p" for u
    using h[of u] mount_refs_nonneg[of s u] that by (auto simp: proc_refs_def of_bool_def split: if_splits)
  have 2: "0 < H u" if "m \<in> set (mount_list s)" "root_vnode (mounts s m) = u \<or> parent_vnode (mounts s m) = Some u" for m u
  proof -
    have "1 \<le> mount_refs s u" using mount_refs_ge[OF that(1), of u] that(2) by (auto simp: of_bool_def split: if_splits)
    then show ?thesis using h[of u] proc_refs_nonneg[of p u] by linarith
  qed
  show "base H p s" unfolding base_def using 1 2 by blast
qed

lemma holds_wframe: "wframe s s' \<Longrightarrow> holds PR s' = holds PR s"
  by (simp add: holds_def mount_refs_def file_refs_def wframe_simps fun_eq_iff)

lemma keeps_vfs_inv:
  assumes "vfs_inv ext fext p s" "keeps (holds (\<lambda>v. ext v + proc_refs p v) s) s s'"
  shows "vfs_inv ext fext p s'"
  using assms holds_wframe[of s s'] wframe_simps[of s s']
  by (simp add: vfs_inv_def refs_inv_def keeps_def files_inv_def)

lemma vn_inv_other [simp]:
  "vn_inv H (s\<lparr>files := a\<rparr>) = vn_inv H s" "vn_inv H (s\<lparr>next_file := b\<rparr>) = vn_inv H s"
  "vn_inv H (s\<lparr>pipes := c\<rparr>) = vn_inv H s" "vn_inv H (s\<lparr>next_pipe := d\<rparr>) = vn_inv H s"
  "vn_inv H (s\<lparr>cdevs := e\<rparr>) = vn_inv H s" "vn_inv H (s\<lparr>bdevs := g\<rparr>) = vn_inv H s"
  "vn_inv H (s\<lparr>world := h\<rparr>) = vn_inv H s" "vn_inv H (s\<lparr>fs_refs := i\<rparr>) = vn_inv H s"
  by (simp_all add: vn_inv_def cache_ok_def live_def mount_ok_def Let_def)

lemma holds_other [simp]:
  "holds PR (s\<lparr>next_file := b\<rparr>) = holds PR s" "holds PR (s\<lparr>pipes := c\<rparr>) = holds PR s"
  "holds PR (s\<lparr>next_pipe := d\<rparr>) = holds PR s" "holds PR (s\<lparr>cdevs := e\<rparr>) = holds PR s"
  "holds PR (s\<lparr>bdevs := g\<rparr>) = holds PR s" "holds PR (s\<lparr>world := h\<rparr>) = holds PR s"
  "holds PR (s\<lparr>fs_refs := i\<rparr>) = holds PR s"
  by (simp_all add: holds_def mount_refs_def file_refs_def fun_eq_iff)

text \<open>One file more or less.\<close>

lemma finite_files: "files_inv FR s \<Longrightarrow> finite {f. map_option fvnode (files s f) = Some x}"
  by (rule finite_subset[of _ "{..<next_file s}"]) (auto simp: files_inv_def)

lemma file_refs_update:
  assumes "files_inv FR s"
  shows "file_refs (s\<lparr>files := (files s)(f := y)\<rparr>) v =
    file_refs s v - of_bool (map_option fvnode (files s f) = Some (Some v)) + of_bool (map_option fvnode y = Some (Some v))"
proof -
  let ?A = "{f. map_option fvnode (files s f) = Some (Some v)}"
  note fin = finite_files[OF assms, of "Some v"]
  have e: "{g. map_option fvnode (((files s)(f := y)) g) = Some (Some v)} =
      (if map_option fvnode y = Some (Some v) then insert f (?A - {f}) else ?A - {f})" by auto
  have c: "int (card (?A - {f})) = int (card ?A) - of_bool (f \<in> ?A)"
    using fin card_Suc_Diff1[of ?A f] by (cases "f \<in> ?A") auto
  have u: "files (s\<lparr>files := (files s)(f := y)\<rparr>) = (files s)(f := y)" by simp
  have i: "int (card (insert f (?A - {f}))) = int (card (?A - {f})) + 1" using fin by (subst card_insert_disjoint) auto
  have m: "f \<in> ?A \<longleftrightarrow> map_option fvnode (files s f) = Some (Some v)" by blast
  define P where "P \<longleftrightarrow> map_option fvnode y = Some (Some v)"
  show ?thesis unfolding file_refs_def u e P_def[symmetric] using c i unfolding m
    by (cases P) (simp_all only: if_True if_False of_bool_eq)
qed

lemma length_filter_update:
  "i < length xs \<Longrightarrow> int (length (filter P (xs[i := y]))) = int (length (filter P xs)) - of_bool (P (xs ! i)) + of_bool (P y)"
proof (induction xs arbitrary: i)
  case (Cons x xs)
  show ?case
  proof (cases i)
    case (Suc j)
    then show ?thesis using Cons.IH[of j] Cons.prems by simp
  qed (simp add: of_bool_def)
qed simp

lemma fd_refs_update:
  "i < length (p_fds p) \<Longrightarrow> fd_refs (p\<lparr>p_fds := (p_fds p)[i := d]\<rparr>) f =
     fd_refs p f - of_bool (points_to f (p_fds p ! i)) + of_bool (points_to f d)"
  by (simp add: fd_refs_def length_filter_update)

section \<open>The system calls\<close>

lemma vfs_invI:
  assumes "\<And>v. 0 \<le> ext v" "\<And>f. 0 \<le> fext f" "length (p_fds p) = OPEN_MAX"
    "files_inv (\<lambda>f. fext f + fd_refs p f) s" "vn_inv (holds (\<lambda>v. ext v + proc_refs p v) s) s"
  shows "vfs_inv ext fext p s"
  using assms proc_refs_nonneg by (auto simp: vfs_inv_def refs_inv_def add_nonneg_nonneg)

lemma files_inv_wframe: "wframe s s' \<Longrightarrow> files_inv FR s' = files_inv FR s"
  by (simp add: files_inv_def wframe_simps)

lemma keeps_refl: "vfs_inv ext fext p s \<Longrightarrow> keeps (holds (\<lambda>v. ext v + proc_refs p v) s) s s"
  using vfs_invD(1) keepsI wframe_refl by blast

lemma change_dir_inv:
  assumes inv: "vfs_inv ext fext p s" and g: "vnode_get path p fl s = (Inr v, s1)"
    and p': "p' = p\<lparr>p_cwd := v\<rparr> \<and> w = p_cwd p \<or> p' = p\<lparr>p_root := v\<rparr> \<and> w = p_root p"
  shows "vfs_inv ext fext p' (VNODE_REL w s1)"
proof -
  let ?H = "holds (\<lambda>v. ext v + proc_refs p v) s" and ?H' = "holds (\<lambda>v. ext v + proc_refs p' v) s"
  note d = vfs_invD[OF inv]
  note i = vnode_get_inv[OF d(1,2) g]
  have fr: "wframe s (VNODE_REL w s1)" by (rule wframe_trans[OF vframe_wframe[OF i(1)] rel_wframe(1)])
  have pr: "proc_refs p' u + of_bool (w = u) = proc_refs p u + of_bool (v = u)" for u
    using p' by (elim disjE conjE) (simp_all add: proc_refs_def)
  have "bump w ?H' u = bump v ?H u" for u
    using pr[of u] by (cases "u = w"; cases "u = v") (simp_all add: bump_def holds_def)
  then have "bump w ?H' = bump v ?H" by (simp add: fun_eq_iff)
  moreover have "0 \<le> ?H' w"
    using d(5)[of w] proc_refs_nonneg[of p' w] mount_refs_nonneg[of s w] file_refs_nonneg[of s w] by (simp add: holds_def)
  ultimately have "vn_inv ?H' (VNODE_REL w s1)" using rel_inv[of w ?H' s1] i(4) by auto
  then have "vn_inv (holds (\<lambda>v. ext v + proc_refs p' v) (VNODE_REL w s1)) (VNODE_REL w s1)"
    by (simp add: holds_wframe[OF fr])
  moreover have "fd_refs p' = fd_refs p" "length (p_fds p') = length (p_fds p)" using p' by (auto simp: fd_refs_def fun_eq_iff)
  ultimately show ?thesis using d by (intro vfs_invI) (simp_all add: files_inv_wframe[OF fr])
qed

lemma sys_chdir_inv:
  assumes inv: "vfs_inv ext fext p s"
  shows "sys_chdir path p s = (err, p', s') \<Longrightarrow> vfs_inv ext fext p' s'"
    "sys_chroot path p s = (err, p', s') \<Longrightarrow> vfs_inv ext fext p' s'"
proof -
  note d = vfs_invD[OF inv]
  obtain r s1 where g: "vnode_get path p True s = (r, s1)" by fastforce
  have fail: "vfs_inv ext fext p s1" if "r = Inl e" for e
    using vnode_get_inv[OF d(1,2) g] that by (intro keeps_vfs_inv[OF inv]) (simp add: keeps_def vframe_wframe)
  have rel: "vfs_inv ext fext p (VNODE_REL v s1)" if "r = Inr v" for v
  proof (rule keeps_vfs_inv[OF inv])
    note i = vnode_get_inv[OF d(1,2) g]
    show "keeps (holds (\<lambda>v. ext v + proc_refs p v) s) s (VNODE_REL v s1)"
      using keeps_after[OF vframe_wframe[OF i(1)] keeps_rel] i(4)[OF that] vn_invD(3)[OF d(1), of v] by blast
  qed
  show "vfs_inv ext fext p' s'" if "sys_chdir path p s = (err, p', s')"
    using that fail rel change_dir_inv[OF inv, of path True] g
    by (auto simp: sys_chdir_def Let_def split: sum.splits if_splits)
  show "vfs_inv ext fext p' s'" if "sys_chroot path p s = (err, p', s')"
    using that fail rel change_dir_inv[OF inv, of path True] g inv
    by (auto simp: sys_chroot_def split: sum.splits if_splits)
qed

text \<open>A file keeps its v-node and its count follows the descriptors.\<close>

lemma proc_refs_fds [simp]: "proc_refs (p\<lparr>p_fds := fds\<rparr>) = proc_refs p"
  by (simp add: proc_refs_def fun_eq_iff)

lemma fd_refs_nonneg: "0 \<le> fd_refs p f"
  by (simp add: fd_refs_def)

lemma file_update_inv:
  assumes inv: "vfs_inv ext fext p s" and f: "files s f = Some fl" and fl': "fvnode fl' = fvnode fl" "frefs fl' = frefs fl + \<delta>"
    and fds: "length fds = OPEN_MAX" "\<And>g. fd_refs (p\<lparr>p_fds := fds\<rparr>) g = fd_refs p g + (if g = f then \<delta> else 0)"
  shows "vfs_inv ext fext (p\<lparr>p_fds := fds\<rparr>) (s\<lparr>files := (files s)(f \<mapsto> fl')\<rparr>)"
proof (rule vfs_invI)
  note d = vfs_invD[OF inv]
  show "0 \<le> ext v" "0 \<le> fext g" for v g using d(5,6) by auto
  show "length (p_fds (p\<lparr>p_fds := fds\<rparr>)) = OPEN_MAX" using fds(1) by simp
  have "0 \<le> fext f + fd_refs (p\<lparr>p_fds := fds\<rparr>) f" by (simp add: d(6) fd_refs_nonneg add_nonneg_nonneg)
  then show "files_inv (\<lambda>g. fext g + fd_refs (p\<lparr>p_fds := fds\<rparr>) g) (s\<lparr>files := (files s)(f \<mapsto> fl')\<rparr>)"
    using d(3) f fl'(2) fds(2) unfolding files_inv_def by (auto split: if_splits)
  have "holds PR (s\<lparr>files := (files s)(f \<mapsto> fl')\<rparr>) = holds PR s" for PR
    using file_refs_update[OF d(3), of f "Some fl'"] f fl'(1) by (simp add: holds_def mount_refs_def fun_eq_iff)
  then show "vn_inv (holds (\<lambda>v. ext v + proc_refs (p\<lparr>p_fds := fds\<rparr>) v) (s\<lparr>files := (files s)(f \<mapsto> fl')\<rparr>)) (s\<lparr>files := (files s)(f \<mapsto> fl')\<rparr>)"
    using d(1) by simp
qed

lemma file_update_same:
  assumes "vfs_inv ext fext p s" "files s f = Some fl" "fvnode fl' = fvnode fl" "frefs fl' = frefs fl"
  shows "vfs_inv ext fext p (s\<lparr>files := (files s)(f \<mapsto> fl')\<rparr>)"
  using file_update_inv[OF assms(1,2,3), of 0 "p_fds p"] assms vfs_invD(4)[OF assms(1)] by simp

text \<open>Slots of the descriptor table.\<close>

lemma fill_slot:
  assumes "find_slot k (p_fds p) = Some i"
  shows "fd_refs (p\<lparr>p_fds := (p_fds p)[i := Some d]\<rparr>) g = fd_refs p g + (if g = fdfile d then 1 else 0)"
  using find_slot_bound[OF assms] find_slot_free[OF assms] fd_refs_update[of i p "Some d" g] by (simp add: points_to_def)

lemma clear_slot:
  assumes "slot_get (p_fds p) fd = Some d"
  shows "fd_refs (p\<lparr>p_fds := (p_fds p)[nat fd := None]\<rparr>) g = fd_refs p g + (if g = fdfile d then - 1 else 0)"
  using slot_get_Some_bounds[OF assms] fd_refs_update[of "nat fd" p None g] by (simp add: points_to_def)

lemma file_of_cases:
  assumes "vfs_inv ext fext p s"
  obtains (bad) "slot_get (p_fds p) fd = None" "file_of fd p s = Some (Inl (- errno_code EBADF))"
  | (ok) d fl where "slot_get (p_fds p) fd = Some d" "files s (fdfile d) = Some fl" "file_of fd p s = Some (Inr (fdfile d, fl))"
proof (cases "slot_get (p_fds p) fd")
  case (Some d)
  note b = slot_get_Some_bounds[OF Some]
  have "Some d \<in> set (p_fds p)" using b nth_mem by metis
  then have "filter (points_to (fdfile d)) (p_fds p) \<noteq> []" by (auto simp: filter_empty_conv points_to_def)
  then have "0 < fd_refs p (fdfile d)" by (simp add: fd_refs_def)
  then have "0 < fext (fdfile d) + fd_refs p (fdfile d)" using vfs_invD(6)[OF assms, of "fdfile d"] by simp
  then obtain fl where "files s (fdfile d) = Some fl" using vfs_invD(3)[OF assms] by (auto simp: files_inv_def)
  then show ?thesis using Some ok by (simp add: file_of_def)
qed (simp add: bad file_of_def)

lemma do_sys_dup_inv:
  assumes inv: "vfs_inv ext fext p s" and e: "do_sys_dup fd start p s = Some (err, p', s')"
  shows "vfs_inv ext fext p' s'"
proof (rule file_of_cases[OF inv, of fd])
  assume "file_of fd p s = Some (Inl (- errno_code EBADF))"
  then show ?thesis using e inv by (simp add: do_sys_dup_def)
next
  fix d fl assume f: "files s (fdfile d) = Some fl" "file_of fd p s = Some (Inr (fdfile d, fl))"
  show ?thesis
  proof (cases "find_slot (nat start) (p_fds p)")
    case None
    then show ?thesis using e f(2) inv by (auto simp: do_sys_dup_def split: if_splits)
  next
    case (Some i)
    have "vfs_inv ext fext (p\<lparr>p_fds := (p_fds p)[i := Some \<lparr>fdflags = 0, fdfile = fdfile d\<rparr>]\<rparr>)
        (s\<lparr>files := (files s)(fdfile d \<mapsto> fl\<lparr>frefs := frefs fl + 1\<rparr>)\<rparr>)"
      by (rule file_update_inv[OF inv f(1)]) (use vfs_invD(4)[OF inv] in \<open>simp_all add: fill_slot[OF Some]\<close>)
    then show ?thesis using e f(2) Some by (auto simp: do_sys_dup_def split: if_splits)
  qed
qed

text \<open>The last descriptor of a file goes: the file is freed and the v-node released.\<close>

lemma free_file_inv:
  assumes inv: "vfs_inv ext fext p s" and f: "files s f = Some fl" "fvnode fl = Some v" "frefs fl = 0"
  shows "vfs_inv ext fext p (snd (vnode_free v (VNODE_REL v (s\<lparr>files := (files s)(f := None)\<rparr>))))"
proof -
  note d = vfs_invD[OF inv]
  let ?s = "s\<lparr>files := (files s)(f := None)\<rparr>" and ?PR = "\<lambda>v. ext v + proc_refs p v"
  have FR0: "fext f + fd_refs p f = 0" using d(3) f by (auto simp: files_inv_def)
  have fi: "files_inv (\<lambda>g. fext g + fd_refs p g) ?s" using d(3) FR0 by (auto simp: files_inv_def split: if_splits)
  have "bump v (holds ?PR ?s) u = holds ?PR s u" for u
    using file_refs_update[OF d(3), of f None u] f(1,2) by (auto simp: bump_def holds_def mount_refs_def)
  then have "bump v (holds ?PR ?s) = holds ?PR s" by (simp add: fun_eq_iff)
  then have i: "vn_inv (bump v (holds ?PR ?s)) ?s" using d(1) by simp
  have "0 \<le> holds ?PR ?s v"
    using d(5)[of v] proc_refs_nonneg[of p v] mount_refs_nonneg[of ?s v] file_refs_nonneg[of ?s v]
    unfolding holds_def by linarith
  then have r: "vn_inv (holds ?PR ?s) (VNODE_REL v ?s)" and lv: "live ?s v"
    using rel_inv[OF i] vn_invD(4)[OF i, of v] by simp_all
  have fr: "wframe ?s (VNODE_REL v ?s)" by simp
  have "vfs_inv ext fext p (VNODE_REL v ?s)"
    by (rule vfs_invI) (use d fi r files_inv_wframe[OF fr] in \<open>simp_all add: holds_wframe[OF fr]\<close>)
  note inv' = this and d' = vfs_invD[OF this]
  have "live (VNODE_REL v ?s) v" using lv by (simp add: live_def VNODE_REL_def)
  from vnode_free_inv[OF d'(1) this d'(2)] show ?thesis
    by (intro keeps_vfs_inv[OF inv']) (simp add: keeps_def)
qed

lemma sys_close_inv:
  assumes inv: "vfs_inv ext fext p s" and e: "sys_close fd p s = Some (err, p', s')"
  shows "vfs_inv ext fext p' s'"
proof (rule file_of_cases[OF inv, of fd])
  assume "file_of fd p s = Some (Inl (- errno_code EBADF))"
  then show ?thesis using e inv by (simp add: sys_close_def)
next
  fix d fl assume f: "slot_get (p_fds p) fd = Some d" "files s (fdfile d) = Some fl" "file_of fd p s = Some (Inr (fdfile d, fl))"
  define fl1 where "fl1 = fl\<lparr>frefs := frefs fl - 1\<rparr>"
  define p1 where "p1 = p\<lparr>p_fds := (p_fds p)[nat fd := None]\<rparr>"
  define s1 where "s1 = s\<lparr>files := (files s)(fdfile d \<mapsto> fl1)\<rparr>"
  have i1: "vfs_inv ext fext p1 s1" unfolding p1_def s1_def
    by (rule file_update_inv[OF inv f(2), where \<delta> = "- 1"]) (use vfs_invD(4)[OF inv] clear_slot[OF f(1)] in \<open>simp_all add: fl1_def\<close>)
  have other: "vfs_inv ext fext p1 (s1\<lparr>world := w\<rparr>)" "vfs_inv ext fext p1 (s1\<lparr>pipes := q\<rparr>)" for w q
    using i1 by (simp_all add: vfs_inv_def refs_inv_def files_inv_def)
  have s1f: "files s1 (fdfile d) = Some fl1" "(s1\<lparr>files := (files s1)(fdfile d := None)\<rparr>) = s\<lparr>files := (files s)(fdfile d := None)\<rparr>"
    by (simp_all add: s1_def)
  note free = free_file_inv[OF i1 s1f(1), unfolded s1f(2)]
  note step = e[unfolded sys_close_def f(3) option.case sum.case prod.case Let_def, folded p1_def fl1_def, folded s1_def]
  show ?thesis using step i1 other free unfolding s1f(2)
    by (auto split: if_splits option.splits prod.splits)
qed

lemma sys_dup2_inv:
  assumes inv: "vfs_inv ext fext p s" and e: "sys_dup2 oldfd newfd p s = Some (err, p', s')"
  shows "vfs_inv ext fext p' s'"
proof (cases "slot_get (p_fds p) oldfd = None \<or> newfd < 0 \<or> newfd \<ge> int OPEN_MAX")
  case True
  then show ?thesis using e inv by (auto simp: sys_dup2_def split: if_splits)
next
  case False
  obtain x p1 s1 where c: "(if slot_get (p_fds p) newfd \<noteq> None then sys_close newfd p s else Some (0, p, s)) = Some (x, p1, s1)"
    using e False by (auto simp: sys_dup2_def split: option.splits)
  have i1: "vfs_inv ext fext p1 s1" using c inv sys_close_inv[OF inv] by (auto split: if_splits)
  note len = vfs_invD(4)[OF inv] vfs_invD(4)[OF i1]
  have fds: "p_fds p1 = (p_fds p)[nat newfd := None]" if "slot_get (p_fds p) newfd \<noteq> None"
    using c that by (auto simp: sys_close_def file_of_def Let_def split: option.splits if_splits prod.splits)
  have free: "p_fds p1 ! nat newfd = None" "nat newfd < length (p_fds p1)"
    using fds c False len by (auto simp: slot_get_def split: if_splits)
  obtain f fl where fo: "file_of oldfd p1 s1 = Some (Inr (f, fl))" and
    r: "p' = p1\<lparr>p_fds := (p_fds p1)[nat newfd := Some \<lparr>fdflags = 0, fdfile = f\<rparr>]\<rparr>"
       "s' = s1\<lparr>files := (files s1)(f \<mapsto> fl\<lparr>frefs := frefs fl + 1\<rparr>)\<rparr>"
    using e False c by (auto simp: sys_dup2_def split: option.splits sum.splits)
  have f: "files s1 f = Some fl" using fo by (auto simp: file_of_def split: option.splits)
  show ?thesis unfolding r
    by (rule file_update_inv[OF i1 f, where \<delta> = 1]) (use len free fd_refs_update[OF free(2)] in \<open>simp_all add: points_to_def\<close>)
qed

lemma sys_fcntl_inv:
  assumes inv: "vfs_inv ext fext p s" and e: "sys_fcntl fd cmd arg p s = Some (err, p', s')"
  shows "vfs_inv ext fext p' s'"
proof (cases "slot_get (p_fds p) fd")
  case (Some d)
  note b = slot_get_Some_bounds[OF Some]
  have "vfs_inv ext fext (p\<lparr>p_fds := (p_fds p)[nat fd := Some (d\<lparr>fdflags := x\<rparr>)]\<rparr>) s" for x
  proof -
    have "fd_refs (p\<lparr>p_fds := (p_fds p)[nat fd := Some (d\<lparr>fdflags := x\<rparr>)]\<rparr>) = fd_refs p"
      using b fd_refs_update[of "nat fd" p] by (simp add: points_to_def fun_eq_iff)
    then show ?thesis using inv by (simp add: vfs_inv_def)
  qed
  then show ?thesis using e inv Some do_sys_dup_inv[OF inv] by (auto simp: sys_fcntl_def split: if_splits option.splits)
qed (use e inv in \<open>simp add: sys_fcntl_def\<close>)

text \<open>Installing a new file: for a path the reference on the v-node moves into the file, a pipe has none.\<close>

lemma install_file_inv:
  assumes d: "\<And>v. 0 \<le> ext v" "\<And>f. 0 \<le> fext f" "length (p_fds p) = OPEN_MAX" "files_inv (\<lambda>f. fext f + fd_refs p f) s"
    and inv: "vn_inv (case fvnode fl of None \<Rightarrow> holds (\<lambda>v. ext v + proc_refs p v) s
                      | Some v \<Rightarrow> bump v (holds (\<lambda>v. ext v + proc_refs p v) s)) s"
    and i: "find_slot k (p_fds p) = Some i" and f: "files s f = None" "f < next_file s" and fl: "frefs fl = 1"
  shows "vfs_inv ext fext (p\<lparr>p_fds := (p_fds p)[i := Some \<lparr>fdflags = 0, fdfile = f\<rparr>]\<rparr>) (s\<lparr>files := (files s)(f \<mapsto> fl)\<rparr>)"
proof (rule vfs_invI)
  let ?p = "p\<lparr>p_fds := (p_fds p)[i := Some \<lparr>fdflags = 0, fdfile = f\<rparr>]\<rparr>" and ?s = "s\<lparr>files := (files s)(f \<mapsto> fl)\<rparr>"
  note up = fill_slot[OF i, of "\<lparr>fdflags = 0, fdfile = f\<rparr>"]
  have z: "fext f + fd_refs p f = 0" by (rule files_invD(2)[OF d(4) f(1)])
  show "files_inv (\<lambda>g. fext g + fd_refs ?p g) ?s"
    using d(4) z fl f(2) unfolding files_inv_def by (auto simp: up split: if_splits)
  have h: "holds PR ?s u = holds PR s u + of_bool (fvnode fl = Some u)" for PR u
    using file_refs_update[OF d(4), of f "Some fl" u] f(1) by (simp add: holds_def mount_refs_def)
  have "holds PR ?s = (case fvnode fl of None \<Rightarrow> holds PR s | Some v \<Rightarrow> bump v (holds PR s))" for PR
    by (cases "fvnode fl") (auto simp: h fun_eq_iff bump_def)
  then show "vn_inv (holds (\<lambda>v. ext v + proc_refs ?p v) ?s) ?s" using inv by simp
qed (use d in simp_all)

lemma sys_pipe_inv:
  assumes inv: "vfs_inv ext fext p s" and e: "sys_pipe p s = (err, r, p', s')"
  shows "vfs_inv ext fext p' s'"
proof -
  note d = vfs_invD[OF inv]
  define s0 where "s0 = s\<lparr>next_pipe := next_pipe s + 1, next_file := next_file s + 2, pipes := (pipes s)(next_pipe s := pipe_new)\<rparr>"
  have fi: "files_inv FR (s\<lparr>next_pipe := a, next_file := next_file s + 2\<rparr>)" if "files_inv FR s" for FR a
    using that by (force simp: files_inv_def)
  have fi0: "files_inv FR s0" if "files_inv FR s" for FR using that by (force simp: files_inv_def s0_def)
  have none: "files s g = None" if "g \<ge> next_file s" for g by (rule files_invD(3)[OF d(3) that])
  have fail: "vfs_inv ext fext p (s\<lparr>next_pipe := a, next_file := next_file s + 2\<rparr>)" for a
    using d fi[OF d(3)] by (intro vfs_invI) simp_all
  show ?thesis
  proof (cases "find_slot 0 (p_fds p)")
    case None
    then show ?thesis using e fail by (auto simp: sys_pipe_def Let_def)
  next
    case (Some i)
    let ?fr = "next_file s" and ?fw = "Suc (next_file s)"
    define fl where "fl = \<lparr>frefs = 1, fflags = 0, fmode = O_RDONLY, fpos = 0, ftype = S_IFIFO, fvnode = None, fdataptr = Some (next_pipe s)\<rparr>"
    have flv: "fvnode fl = None" "frefs fl = 1" by (simp_all add: fl_def)
    let ?fds = "(p_fds p)[i := Some \<lparr>fdflags = 0, fdfile = ?fr\<rparr>]"
    note ib = find_slot_bound[OF Some] find_slot_free[OF Some]
    have 1: "vfs_inv ext fext (p\<lparr>p_fds := ?fds\<rparr>) (s0\<lparr>files := (files s)(?fr \<mapsto> fl)\<rparr>)"
      using install_file_inv[OF d(5,6,4), where s = s0 and fl = fl and k = 0 and i = i and f = ?fr] fi0[OF d(3)] d(1) none flv Some by (simp add: s0_def)
    show ?thesis
    proof (cases "find_slot i ?fds")
      case None
      have "?fds[i := None] = p_fds p" using ib by (simp add: list_update_same_conv)
      then show ?thesis using e fail Some None by (auto simp: sys_pipe_def Let_def)
    next
      case (Some j)
      have "vfs_inv ext fext (p\<lparr>p_fds := ?fds[j := Some \<lparr>fdflags = 0, fdfile = ?fw\<rparr>]\<rparr>)
          (s0\<lparr>files := (files s)(?fr \<mapsto> fl, ?fw \<mapsto> fl\<lparr>fmode := O_WRONLY\<rparr>)\<rparr>)"
        using install_file_inv[OF vfs_invD(5,6,4,3)[OF 1], where fl = "fl\<lparr>fmode := O_WRONLY\<rparr>" and k = i and i = j and f = ?fw]
          vfs_invD(1)[OF 1] Some flv none[of ?fw] by (simp add: s0_def)
      then show ?thesis using e \<open>find_slot 0 (p_fds p) = Some i\<close> Some
        by (auto simp: sys_pipe_def Let_def s0_def fl_def O_RDONLY_def)
    qed
  qed
qed

lemma open_vnode_inv:
  assumes i: "vn_inv H s" "base H p s" and e: "open_vnode path flags m p s = Some (r, s')"
  shows "wframe s s' \<and> vn_inv (case r of Inl _ \<Rightarrow> H | Inr v \<Rightarrow> bump v H) s'"
proof -
  obtain r1 s1 where g: "vnode_get path p True s = (r1, s1)" by fastforce
  show ?thesis
  proof (rule get_cases[OF i g])
    fix v assume r1: "r1 = Inr v" and s1: "wframe s s1" "vn_inv (bump v H) s1"
    have "keeps H s1 (VNODE_REL v s1)" by (rule keeps_rel[OF s1(2) vn_invD(3)[OF i(1)]])
    then show ?thesis using e s1 wframe_trans[OF s1(1)]
      by (auto simp: open_vnode_def g r1 keeps_def split: if_splits)
  next
    fix x assume r1: "r1 = Inl x" and s1: "wframe s s1" "vn_inv H s1" "base H p s1"
    show ?thesis
    proof (cases "x = - errno_code ENOENT \<and> flags AND FCREAT \<noteq> 0")
      case True
      then have c: "create_file path m p s1 = Some (r, s')" using e by (simp add: open_vnode_def g r1)
      then obtain dir name where sp: "vfs_path_split path = Some (dir, name)"
        by (auto simp: create_file_def split: option.splits)
      define oper where "oper = (\<lambda>ops :: 'a vnode_ops. map_option (\<lambda>f v. f v name (m AND 0x1FF AND NOT (p_umask p)) (p_uid p) (p_gid p)) (op_creat ops))"
      obtain err s2 where mk: "make_node dir oper p s1 = (err, s2)" by fastforce
      have k: "wframe s1 s2" "vn_inv H s2" using make_node_keeps[OF s1(2,3), of dir oper] mk by (simp_all add: keeps_def)
      have rest: "(if err \<noteq> 0 then (Inl err, s2) else vnode_get path p True s2) = (r, s')"
        using c by (simp add: create_file_def sp Let_def oper_def[symmetric] mk)
      show ?thesis
      proof (cases "err = 0")
        case True
        then have "vnode_get path p True s2 = (r, s')" using rest by simp
        note gi = vnode_get_inv[OF k(2) wframe_base[OF k(1) s1(3)] this]
        show ?thesis using gi(3,4) wframe_trans[OF s1(1) wframe_trans[OF k(1) vframe_wframe[OF gi(1)]]] by (auto split: sum.split)
      next
        case False
        then show ?thesis using rest k wframe_trans[OF s1(1) k(1)] by auto
      qed
    qed (use e s1 in \<open>auto simp: open_vnode_def g r1\<close>)
  qed
qed

lemma device_open_other:
  assumes "device_open v s = Some (err, s')"
  shows "vn_inv H s' = vn_inv H s" "holds PR s' = holds PR s" "files s' = files s" "next_file s' = next_file s"
  using assms by (auto simp: device_open_def split: if_splits option.splits)

lemma sys_open_inv:
  assumes inv: "vfs_inv ext fext p s" and e: "sys_open path flags m p s = Some (err, p', s')"
  shows "vfs_inv ext fext p' s'"
proof -
  note d = vfs_invD[OF inv]
  let ?H = "holds (\<lambda>v. ext v + proc_refs p v) s"
  obtain r s1 where o: "open_vnode path flags m p s = Some (r, s1)"
    using e by (auto simp: sys_open_def split: option.splits)
  note i = open_vnode_inv[OF d(1,2) o]
  show ?thesis
  proof (cases r)
    case (Inl x)
    then show ?thesis using e o i keeps_vfs_inv[OF inv] by (auto simp: sys_open_def keeps_def)
  next
    case (Inr v)
    let ?f = "next_file s1" let ?s2 = "s1\<lparr>next_file := Suc ?f\<rparr>"
    define fl where "fl = \<lparr>frefs = 1, fflags = kjunk s1 ?f, fmode = flags, fpos = 0,
                            ftype = vmode (vnodes s1 v) AND S_IFMT, fvnode = Some v, fdataptr = None\<rparr>"
    have iv: "wframe s s1" "vn_inv (bump v ?H) s1" using i Inr by simp_all
    have h1: "holds PR s1 = holds PR s" for PR by (rule holds_wframe[OF iv(1)])
    have fi1: "files_inv (\<lambda>f. fext f + fd_refs p f) s1" using d(3) files_inv_wframe[OF iv(1)] by simp
    have fi2: "files_inv (\<lambda>f. fext f + fd_refs p f) s2" if "files s2 = files s1" "next_file s2 = Suc ?f" for s2 :: "('a, 'b) vfs"
      using fi1 that unfolding files_inv_def by (auto simp: less_Suc_eq)
    have rel: "vfs_inv ext fext p (VNODE_REL v s2)"
      if "files s2 = files s1" "next_file s2 = Suc ?f \<or> s2 = s1" "vn_inv (bump v ?H) s2" "holds (\<lambda>v. ext v + proc_refs p v) s2 = ?H" for s2
    proof (rule vfs_invI)
      have fr: "wframe s2 (VNODE_REL v s2)" by simp
      show "vn_inv (holds (\<lambda>v. ext v + proc_refs p v) (VNODE_REL v s2)) (VNODE_REL v s2)"
        using holds_wframe[OF fr] that(4) rel_inv[OF that(3) vn_invD(3)[OF d(1)]] by simp
      show "files_inv (\<lambda>f. fext f + fd_refs p f) (VNODE_REL v s2)" using files_inv_wframe[OF fr] fi1 fi2[of s2] that(1,2) by auto
    qed (use d in simp_all)
    have none: "files s1 ?f = None" by (rule files_invD(3)[OF fi1]) simp
    have inst: "vfs_inv ext fext (p\<lparr>p_fds := (p_fds p)[j := Some \<lparr>fdflags = 0, fdfile = ?f\<rparr>]\<rparr>) (s2\<lparr>files := (files s2)(?f \<mapsto> fl)\<rparr>)"
      if "find_slot 0 (p_fds p) = Some j" "device_open (vnodes s1 v) ?s2 = Some (err2, s2)" for j err2 s2
      using install_file_inv[OF d(5,6,4) fi2[of s2], where fl = fl and k = 0 and i = j and f = ?f] that(1) none
        device_open_other[OF that(2)] iv(2) h1 by (simp add: fl_def)
    have dev: "vfs_inv ext fext p (VNODE_REL v s2)" if "device_open (vnodes s1 v) ?s2 = Some (err2, s2)" for err2 s2
      by (rule rel) (use device_open_other[OF that] iv(2) h1 in simp_all)
    have e': "(let acc = (if (flags + 1) AND FREAD \<noteq> 0 then 4 else 0) OR (if (flags + 1) AND FWRITE \<noteq> 0 then 2 else 0);
              err = do_sys_access (vnodes s1 v) acc p
          in if err \<noteq> 0 then Some (err, p, VNODE_REL v s1)
             else case find_slot 0 (p_fds p) of
                    None \<Rightarrow> Some (- errno_code EMFILE, p, VNODE_REL v ?s2)
                  | Some i \<Rightarrow>
                      (case device_open (vnodes s1 v) ?s2 of
                         None \<Rightarrow> None
                       | Some (err, s) \<Rightarrow>
                           if err < 0 then Some (err, p, VNODE_REL v s)
                           else Some (int i, p\<lparr>p_fds := (p_fds p)[i := Some \<lparr>fdflags = 0, fdfile = ?f\<rparr>]\<rparr>,
                                      s\<lparr>files := (files s)(?f \<mapsto> fl)\<rparr>))) = Some (err, p', s')"
      using e unfolding sys_open_def o Inr fl_def by (simp add: Let_def cong: option.case_cong if_cong)
    show ?thesis using e' rel[of s1] rel[of ?s2] dev inst iv(2) h1
      by (auto simp: Let_def split: if_splits option.splits)
  qed
qed

text \<open>Calls that move data.\<close>

lemma vfs_inv_other:
  "vfs_inv ext fext p s \<Longrightarrow> vfs_inv ext fext p (s\<lparr>world := w\<rparr>)" "vfs_inv ext fext p s \<Longrightarrow> vfs_inv ext fext p (s\<lparr>pipes := q\<rparr>)"
  by (simp_all add: vfs_inv_def refs_inv_def files_inv_def)

lemma advance_inv: "vfs_inv ext fext p s \<Longrightarrow> vfs_inv ext fext p (advance f err s)"
proof -
  assume inv: "vfs_inv ext fext p s"
  show ?thesis
  proof (cases "files s f")
    case None
    then have "(files s)(f := None) = files s" by auto
    then show ?thesis using inv None by (simp add: advance_def)
  next
    case (Some fl)
    then show ?thesis using inv file_update_same[OF inv Some] by (simp add: advance_def)
  qed
qed

lemma sys_read_inv:
  assumes inv: "vfs_inv ext fext p s" and e: "sys_read t fd len p s = Some (r, s')"
  shows "vfs_inv ext fext p s'"
  using e inv unfolding sys_read_def pipe_get_def
  by (auto split: option.splits sum.splits if_splits outcome.splits prod.splits intro: advance_inv vfs_inv_other)

lemma sys_lseek_inv:
  assumes inv: "vfs_inv ext fext p s" and e: "sys_lseek fd off whence p s = Some (r, s')"
  shows "vfs_inv ext fext p s'"
proof (rule file_of_cases[OF inv, of fd])
  fix d fl assume f: "files s (fdfile d) = Some fl" "file_of fd p s = Some (Inr (fdfile d, fl))"
  show ?thesis using e f inv file_update_same[OF inv f(1)]
    by (auto simp: sys_lseek_def Let_def split: option.splits if_splits)
qed (use e inv in \<open>simp add: sys_lseek_def\<close>)

lemma sys_getdents_inv:
  assumes inv: "vfs_inv ext fext p s" and e: "sys_getdents fd n p s = Some (r, s')"
  shows "vfs_inv ext fext p s'"
proof (rule file_of_cases[OF inv, of fd])
  fix d fl assume f: "files s (fdfile d) = Some fl" "file_of fd p s = Some (Inr (fdfile d, fl))"
  show ?thesis using e f inv file_update_same[OF inv f(1)]
    by (auto simp: sys_getdents_def Let_def split: option.splits if_splits prod.splits)
qed (use e inv in \<open>simp add: sys_getdents_def\<close>)

lemma sys_ioctl_inv:
  assumes inv: "vfs_inv ext fext p s" and e: "sys_ioctl fd cmd arg p s = Some (r, s')"
  shows "vfs_inv ext fext p s'"
  using e inv unfolding sys_ioctl_def by (auto split: option.splits sum.splits if_splits intro: vfs_inv_other)

lemma file_vnode_live:
  assumes inv: "vfs_inv ext fext p s" and f: "files s f = Some fl" "fvnode fl = Some v"
  shows "live s v"
proof -
  note d = vfs_invD[OF inv]
  have "f \<in> {f. map_option fvnode (files s f) = Some (Some v)}" using f by simp
  then have "0 < file_refs s v" using finite_files[OF d(3), of "Some v"] by (auto simp: file_refs_def card_gt_0_iff)
  then have "0 < holds (\<lambda>v. ext v + proc_refs p v) s v"
    using d(5)[of v] proc_refs_nonneg[of p v] mount_refs_nonneg[of s v] unfolding holds_def by linarith
  then show ?thesis by (rule vn_invD(4)[OF d(1)])
qed

lemma write_vnode_inv:
  assumes inv: "vfs_inv ext fext p s" and l: "live s v" and op: "op_write (ops_of s v) = Some g"
    "g (vnodes s v) data off (mdata (mp_of s v)) = (err, x, d)"
  shows "vfs_inv ext fext p (upd_vnode v (\<lambda>_. x) (set_data v d s))"
proof (rule keeps_vfs_inv[OF inv keepsI])
  note i = vfs_invD(1)[OF inv]
  have sp: "same_place (vnodes s v) x"
    using vnode_driver.write_place[OF live_vmp(4)[OF vn_invD(1)[OF i] l] op(1), of "vnodes s v" data off "mdata (mp_of s v)"] op(2)
    by simp
  show "wframe s (upd_vnode v (\<lambda>_. x) (set_data v d s))" by (rule wframe_trans[OF set_data_frame upd_vnode_frame])
  show "vn_inv (holds (\<lambda>v. ext v + proc_refs p v) s) (upd_vnode v (\<lambda>_. x) (set_data v d s))"
    by (rule upd_vnode_inv[OF set_data_inv[OF i]]) (use sp in simp)
qed

lemma sys_lseek_fvnode:
  assumes "sys_lseek fd off w p s = Some (r, s1)" "files s f = Some fl"
  shows "\<exists>fl1. files s1 f = Some fl1 \<and> fvnode fl1 = fvnode fl"
  using assms by (auto simp: sys_lseek_def file_of_def Let_def split: option.splits sum.splits if_splits)

lemma sys_write_inv:
  assumes inv: "vfs_inv ext fext p s" and e: "sys_write t fd data p s = Some (r, s')"
  shows "vfs_inv ext fext p s'"
proof (rule file_of_cases[OF inv, of fd])
  fix d fl assume f: "files s (fdfile d) = Some fl" "file_of fd p s = Some (Inr (fdfile d, fl))"
  note step = e[unfolded sys_write_def f(2) option.case sum.case prod.case]
  show ?thesis
  proof (cases "(fmode fl + 1) AND FWRITE \<noteq> FWRITE")
    case True
    then show ?thesis using step inv by simp
  next
    case False
    then obtain x s1 where sk: "(if fmode fl AND FAPPEND \<noteq> 0 then sys_lseek fd 0 2 p s else Some (0, s)) = Some (x, s1)"
      using step by (auto split: option.splits)
    have i1: "vfs_inv ext fext p s1" using sk inv sys_lseek_inv[OF inv] by (auto split: if_splits)
    have "\<exists>fl1. files s1 (fdfile d) = Some fl1 \<and> fvnode fl1 = fvnode fl"
      using sk f(1) sys_lseek_fvnode by (auto split: if_splits)
    then have lv: "live s1 v" if "fvnode fl = Some v" for v using file_vnode_live[OF i1] that by metis
    note wr = write_vnode_inv[OF i1 lv]
    show ?thesis using step False i1 wr unfolding sk pipe_put_def Let_def option.case prod.case
      by (auto split: option.splits if_splits outcome.splits prod.splits intro: advance_inv vfs_inv_other)
  qed
qed (use e inv in \<open>simp add: sys_write_def\<close>)

section \<open>Mounting\<close>

text \<open>The mount point joins the list and, when it has a place, the place points to it.\<close>

definition enter_mount :: "nat \<Rightarrow> nat option \<Rightarrow> ('f, 'w) vfs \<Rightarrow> ('f, 'w) vfs" where
  "enter_mount m up s = (case up of None \<Rightarrow> s | Some v \<Rightarrow> upd_vnode v (\<lambda>x. x\<lparr>vfsmountedhere := Some m\<rparr>) s)\<lparr>mount_list := m # mount_list s\<rparr>"

lemma mount_fs_state:
  assumes "mount_fs fs dev name flags up s = (err, Some r, s')" "vnode_driver (fs_ops fs)"
  obtains x mp where "r = next_vnode s" "vmp x = next_mount s" "vfsmountedhere x = None" "refcount x = 1"
    "mfs mp = fs" "root_vnode mp = r" "parent_vnode mp = up" "vnode_list mp = [r]"
    "s' = s\<lparr>mounts := (mounts s)(next_mount s := mp), next_mount := Suc (next_mount s),
            vnodes := (vnodes s)(r := x), next_vnode := Suc r\<rparr>"
proof -
  let ?m = "next_mount s"
  obtain f where f: "fs_mount fs ?m = (0, f)" using assms(1) by (auto simp: mount_fs_def Let_def split: prod.splits if_splits)
  define mp0 where "mp0 = \<lparr>mdevice = dev, mdevname = name, mfs = fs, mflags = flags, mdata = f,
                   root_vnode = 0, parent_vnode = up, vnode_list = []\<rparr>"
  define s1 where "s1 = s\<lparr>mounts := (mounts s)(?m := mp0), next_mount := ?m + 1\<rparr>"
  obtain s2 where n: "vnode_new ?m (fs_root fs f) s1 = (Some r, s2)" and s': "s' = upd_mount ?m (\<lambda>mp. mp\<lparr>root_vnode := r\<rparr>) s2"
    using assms(1) f by (auto simp: mount_fs_def Let_def mp0_def s1_def split: prod.splits if_splits option.splits)
  have "vnode_driver (fs_ops (mfs (mounts s1 ?m)))" using assms(2) by (simp add: s1_def mp0_def)
  from vnode_new_state[OF n this] obtain x where
    x: "r = next_vnode s1" "vmp x = ?m" "vfsmountedhere x = None" "refcount x = 1" and
    s2: "s2 = upd_mount ?m (\<lambda>mp. mp\<lparr>vnode_list := r # vnode_list mp\<rparr>) (s1\<lparr>vnodes := (vnodes s1)(r := x), next_vnode := r + 1\<rparr>)" .
  show ?thesis
    by (rule that[of x "mp0\<lparr>vnode_list := [r], root_vnode := r\<rparr>"]) (use x in \<open>simp_all add: s' s2 s1_def mp0_def\<close>)
qed

lemma enter_mount_inv:
  assumes inv: "vn_inv H s" and drv: "vnode_driver (fs_ops fs)" and mt: "mount_fs fs dev name flags up s = (err, Some r, s')"
    and up: "\<And>v. up = Some v \<Longrightarrow> live s v"
  defines "t \<equiv> enter_mount (next_mount s) up s'"
  shows "vn_inv (bump r H) t" "files t = files s" "next_file t = next_file s"
    "mount_refs t u = mount_refs s u + of_bool (r = u) + of_bool (up = Some u)"
proof -
  note c = vn_invD(1)[OF inv]
  let ?m = "next_mount s"
  from mount_fs_state[OF mt drv] obtain x mp where
    x: "r = next_vnode s" "vmp x = ?m" "vfsmountedhere x = None" "refcount x = 1" and
    mp: "mfs mp = fs" "root_vnode mp = r" "parent_vnode mp = up" "vnode_list mp = [r]" and
    s': "s' = s\<lparr>mounts := (mounts s)(?m := mp), next_mount := Suc ?m, vnodes := (vnodes s)(r := x), next_vnode := Suc r\<rparr>" .
  have m_new: "k \<noteq> ?m" if "k \<in> set (mount_list s)" for k
    using mount_okD(1)[of s k] c that by (auto simp: cache_ok_def)
  have nl: "\<not> live s r" using live_vmp(3)[OF c, of r] x(1) by auto
  then have H0: "H r = 0" using vn_invD(3,4)[OF inv, of r] by fastforce
  have ur: "up \<noteq> Some r" using up nl by blast
  have ml: "mount_list t = ?m # mount_list s" and mt': "mounts t = (mounts s)(?m := mp)" and
    nx: "next_mount t = Suc ?m" "next_vnode t = Suc r" "fs_list t = fs_list s"
    and fl: "files t = files s" "next_file t = next_file s"
    by (simp_all add: t_def enter_mount_def s' split: option.split)
  show "files t = files s" "next_file t = next_file s" by (fact fl)+
  have vr: "vnodes t r = x" using ur by (simp add: t_def enter_mount_def s' split: option.split)
  have vo: "ino (vnodes t u) = ino (vnodes s u)" "vmp (vnodes t u) = vmp (vnodes s u)" "refcount (vnodes t u) = refcount (vnodes s u)"
    "vfsmountedhere (vnodes t u) = (if up = Some u then Some ?m else vfsmountedhere (vnodes s u))" if "u \<noteq> r" for u
    using that by (auto simp: t_def enter_mount_def s' split: option.split)
  have old: "mounts t k = mounts s k" if "k \<in> set (mount_list s)" for k using m_new[OF that] by (simp add: mt')
  have lv: "live t u \<longleftrightarrow> live s u \<or> u = r" for u
    unfolding live_def ml using old by (auto simp: mt' mp(4))
  have "mount_ok t k" if k: "k \<in> set (mount_list s)" for k
  proof -
    have ok: "mount_ok s k" using c k by (simp add: cache_ok_def)
    have nr: "u \<noteq> r" if "u \<in> set (vnode_list (mounts s k))" for u using nl k that by (auto simp: live_def)
    have "inj_on (\<lambda>v. ino (vnodes t v)) (set (vnode_list (mounts s k)))"
      using mount_okD(4)[OF ok] vo(1)[OF nr] by (simp add: inj_on_def)
    moreover have "vmp (vnodes t u) = k \<and> u < next_vnode t" if "u \<in> set (vnode_list (mounts s k))" for u
      using mount_okD(5)[OF ok that] vo(2)[OF nr[OF that]] nx(2) x(1) by simp
    ultimately show ?thesis using mount_okD(1-3)[OF ok] old[OF k] nx(1) mount_okI[of k t] by simp
  qed
  moreover have "mount_ok t ?m"
    by (rule mount_okI) (use mp x drv vr in \<open>simp_all add: mt' nx\<close>)
  moreover have "k \<in> set (mount_list t) \<and> parent_vnode (mounts t k) = Some u"
    if "live t u" "vfsmountedhere (vnodes t u) = Some k" for u k
  proof (cases "u = r")
    case True
    then show ?thesis using that vr x(3) by simp
  next
    case False
    show ?thesis
    proof (cases "up = Some u")
      case True
      then show ?thesis using that(2) vo(4)[OF False] mp(3) by (simp add: ml mt')
    next
      case np: False
      then have "k \<in> set (mount_list s) \<and> parent_vnode (mounts s k) = Some u"
        using c that lv[of u] False vo(4)[OF False] by (simp add: cache_ok_def)
      then show ?thesis using old[of k] by (simp add: ml)
    qed
  qed
  ultimately have "cache_ok t" using c unfolding cache_ok_def ml nx(3) by simp
  moreover have "refcount (vnodes t u) = bump r H u" if "live t u" for u
    using that lv[of u] vn_invD(2)[OF inv, of u] vo(3)[of u] vr x(4) H0 by (cases "u = r") simp_all
  moreover have "0 \<le> bump r H u \<and> (0 < bump r H u \<longrightarrow> live t u)" for u
    using vn_invD(3,4)[OF inv, of u] lv[of u] H0 by (cases "u = r") auto
  ultimately show "vn_inv (bump r H) t" by (simp add: vn_inv_def)
  have me: "map (\<lambda>m. of_bool (root_vnode (mounts t m) = u) + of_bool (parent_vnode (mounts t m) = Some u)) (mount_list s) =
      map (\<lambda>m. of_bool (root_vnode (mounts s m) = u) + of_bool (parent_vnode (mounts s m) = Some u) :: int) (mount_list s)"
    using old by simp
  have "mounts t ?m = mp" by (simp add: mt')
  then show "mount_refs t u = mount_refs s u + of_bool (r = u) + of_bool (up = Some u)"
    unfolding mount_refs_def ml list.map(2) sum_list.Cons me by (simp add: mp)
qed

lemma mount_fs_None:
  assumes inv: "vn_inv H s" and mt: "mount_fs fs dev name flags up s = (err, None, s')"
  shows "vn_inv H s'" "holds PR s' = holds PR s" "files s' = files s" "next_file s' = next_file s"
proof -
  let ?m = "next_mount s"
  obtain mp where s': "s' = s\<lparr>mounts := (mounts s)(?m := mp), next_mount := Suc ?m\<rparr>"
    using mt by (auto simp: mount_fs_def Let_def split: prod.splits if_splits option.splits dest!: vnode_new_None)
  note c = vn_invD(1)[OF inv]
  have old: "mounts s' k = mounts s k" if "k \<in> set (mount_list s)" for k
    using mount_okD(1)[of s k] c that by (auto simp: cache_ok_def s')
  have lv: "live s' = live s" using old by (auto simp: live_def fun_eq_iff s')
  have "mount_ok s' k" if "k \<in> set (mount_list s)" for k
  proof -
    have "mount_ok s k" using c that by (simp add: cache_ok_def)
    then show ?thesis using old[OF that] by (auto simp: mount_ok_def Let_def s')
  qed
  moreover have o: "mount_list s' = mount_list s" "vnodes s' = vnodes s" "fs_list s' = fs_list s" by (simp_all add: s')
  ultimately have "cache_ok s'" using c old unfolding cache_ok_def lv o by auto
  then show "vn_inv H s'" using inv unfolding vn_inv_def lv by (simp add: s')
  have "mount_refs s' = mount_refs s"
    unfolding mount_refs_def o(1) by (intro ext arg_cong[of _ _ sum_list] map_cong refl) (simp add: old)
  then show "holds PR s' = holds PR s" by (simp add: holds_def file_refs_def s' fun_eq_iff)
  show "files s' = files s" "next_file s' = next_file s" by (simp_all add: s')
qed

lemma vfs_inv_fs_refs: "vfs_inv ext fext p s \<Longrightarrow> vfs_inv ext fext p (s\<lparr>fs_refs := x\<rparr>)"
  by (simp add: vfs_inv_def refs_inv_def files_inv_def)

lemma fs_lookup_inv:
  assumes "vfs_inv ext fext p s" "fs_lookup name s = (r, s1)"
  shows "vfs_inv ext fext p s1" "r = Some fs \<Longrightarrow> vnode_driver (fs_ops fs)"
  using assms vn_invD(1)[OF vfs_invD(1)[OF assms(1)]] vfs_inv_fs_refs[OF assms(1)]
  by (auto simp: fs_lookup_def cache_ok_def find_Some_iff split: option.splits)

lemma sys_mount_inv:
  assumes inv: "vfs_inv ext fext p s" and e: "sys_mount src dest fstype flags p s = (err, s')"
  shows "vfs_inv ext fext p s'"
proof -
  obtain fo s1 where fs: "fs_lookup fstype s = (fo, s1)" by fastforce
  note i1 = fs_lookup_inv[OF inv fs]
  show ?thesis
  proof (cases "(p_euid p \<noteq> 0 \<and> p_uid p \<noteq> 0) \<or> fo = None")
    case True
    then show ?thesis using e fs inv i1 by (auto simp: sys_mount_def split: if_splits)
  next
    case False
    then obtain fsys where fo: "fo = Some fsys" by auto
    obtain err2 dev s2 where st: "(if fs_nodev fsys then (0, 0, s1)
        else case sys_stat src p s1 of (err, st, s) \<Rightarrow> (err, case st of None \<Rightarrow> 0 | Some st \<Rightarrow> st_rdev st, s)) = (err2, dev, s2)"
      by (metis prod.exhaust)
    have i2: "vfs_inv ext fext p s2"
      using st i1(1) keeps_vfs_inv[OF i1(1) sys_access_keeps(2)[OF vfs_invD(1,2)[OF i1(1)], of src]]
      by (auto split: if_splits prod.splits)
    note d = vfs_invD[OF i2]
    let ?PR = "\<lambda>v. ext v + proc_refs p v"
    obtain r s3 where g: "vnode_get dest p True s2 = (r, s3)" by fastforce
    have step: "(if err2 < 0 then (err2, s2) else case r of Inl _ \<Rightarrow> (- errno_code ENOENT, s3) | Inr v \<Rightarrow>
                   if \<not> S_ISDIR (vmode (vnodes s3 v)) then (- errno_code ENOTDIR, VNODE_REL v s3)
                   else if v = root_vnode (mp_of s3 v) then (- errno_code EBUSY, VNODE_REL v s3)
                   else case mount_fs fsys dev src flags (Some v) s3 of
                          (err, None, s4) \<Rightarrow> (err, VNODE_REL v s4)
                        | (err, Some r, s4) \<Rightarrow> (0, enter_mount (next_mount s3) (Some v) s4)) = (err, s')"
      using e False fs fo st g unfolding sys_mount_def enter_mount_def
      by (auto simp: Let_def split: if_splits sum.splits option.splits prod.splits)
    show ?thesis
    proof (rule get_cases[OF d(1,2) g])
      fix x assume "r = Inl x" "wframe s2 s3" "vn_inv (holds ?PR s2) s3"
      then show ?thesis using step i2 keeps_vfs_inv[OF i2 keepsI] by (auto split: if_splits)
    next
      fix v assume r: "r = Inr v" and s3: "wframe s2 s3" "vn_inv (bump v (holds ?PR s2)) s3" "live s3 v"
      have h3: "holds ?PR s3 = holds ?PR s2" by (rule holds_wframe[OF s3(1)])
      have fi3: "files_inv (\<lambda>f. fext f + fd_refs p f) s3" using d(3) files_inv_wframe[OF s3(1)] by simp
      have nn: "0 \<le> holds ?PR s2 v" by (rule vn_invD(3)[OF d(1)])
      have rel: "vfs_inv ext fext p (VNODE_REL v s3)"
        using keeps_vfs_inv[OF i2 keeps_after[OF s3(1) keeps_rel[OF s3(2) nn]]] .
      obtain merr mr s4 where mt: "mount_fs fsys dev src flags (Some v) s3 = (merr, mr, s4)" by (metis prod.exhaust)
      have fail: "vfs_inv ext fext p (VNODE_REL v s4)" if "mr = None"
      proof (rule vfs_invI)
        note n = mount_fs_None[OF s3(2) mt[unfolded that]]
        have fr: "wframe s4 (VNODE_REL v s4)" by simp
        show "vn_inv (holds ?PR (VNODE_REL v s4)) (VNODE_REL v s4)"
          using rel_inv[OF n(1) nn] holds_wframe[OF fr] n(2) h3 by simp
        show "files_inv (\<lambda>f. fext f + fd_refs p f) (VNODE_REL v s4)"
          unfolding files_inv_wframe[OF fr] using fi3 n(3,4) by (simp add: files_inv_def)
      qed (use d in simp_all)
      have ok: "vfs_inv ext fext p (enter_mount (next_mount s3) (Some v) s4)" if mr: "mr = Some rv" for rv
      proof (rule vfs_invI)
        note em = enter_mount_inv[OF s3(2) i1(2)[OF fo] mt[unfolded mr]]
        let ?t = "enter_mount (next_mount s3) (Some v) s4"
        have l: "\<And>w. Some v = Some w \<Longrightarrow> live s3 w" using s3(3) by simp
        have "holds ?PR ?t = bump rv (bump v (holds ?PR s2))"
          using em(4)[OF l] em(2)[OF l] h3 by (auto simp: holds_def file_refs_def bump_def fun_eq_iff)
        then show "vn_inv (holds ?PR ?t) ?t" using em(1)[OF l] by simp
        show "files_inv (\<lambda>f. fext f + fd_refs p f) ?t" using fi3 em(2,3)[OF l] by (simp add: files_inv_def)
      qed (use d in simp_all)
      show ?thesis using step i2 rel fail ok unfolding r sum.case mt
        by (auto split: if_splits option.splits)
    qed
  qed
qed

section \<open>Processes come and go\<close>

lemma share_files:
  assumes "files_inv FR s" "\<forall>d \<in> set fds. \<forall>x. d = Some x \<longrightarrow> files s (fdfile x) \<noteq> None"
  shows "files_inv (\<lambda>f. FR f + int (length (filter (points_to f) fds))) (fold share_file fds s)"
    "holds PR (fold share_file fds s) = holds PR s" "vn_inv H (fold share_file fds s) = vn_inv H s"
proof -
  have "files_inv (\<lambda>f. FR f + int (length (filter (points_to f) fds))) (fold share_file fds s) \<and>
    holds PR (fold share_file fds s) = holds PR s \<and> vn_inv H (fold share_file fds s) = vn_inv H s"
    using assms
  proof (induction fds arbitrary: s FR)
    case (Cons d fds)
    have "files_inv (\<lambda>f. FR f + of_bool (points_to f d)) (share_file d s) \<and> holds PR (share_file d s) = holds PR s \<and>
      vn_inv H (share_file d s) = vn_inv H s \<and> (\<forall>g. files (share_file d s) g = None \<longleftrightarrow> files s g = None)"
    proof (cases d)
      case (Some x)
      then obtain fl where fl: "files s (fdfile x) = Some fl" using Cons.prems(2) by auto
      then have s1: "share_file d s = s\<lparr>files := (files s)(fdfile x \<mapsto> fl\<lparr>frefs := frefs fl + 1\<rparr>)\<rparr>"
        by (simp add: share_file_def Some)
      have "files_inv (\<lambda>f. FR f + of_bool (points_to f d)) (share_file d s)"
        using Cons.prems(1) fl unfolding s1 files_inv_def by (auto simp: points_to_def Some)
      moreover have "holds PR (share_file d s) = holds PR s"
        unfolding s1 using file_refs_update[OF Cons.prems(1), of "fdfile x" "Some (fl\<lparr>frefs := frefs fl + 1\<rparr>)"] fl
        by (simp add: holds_def mount_refs_def fun_eq_iff)
      ultimately show ?thesis using fl by (simp add: s1)
    qed (use Cons.prems(1) in \<open>simp add: share_file_def points_to_def\<close>)
    note 1 = this
    have 2: "\<forall>e \<in> set fds. \<forall>x. e = Some x \<longrightarrow> files (share_file d s) (fdfile x) \<noteq> None" using Cons.prems(2) 1 by auto
    have "(\<lambda>f. (FR f + of_bool (points_to f d)) + int (length (filter (points_to f) fds))) =
        (\<lambda>f. FR f + int (length (filter (points_to f) (d # fds))))" by (auto simp: fun_eq_iff)
    then show ?case using Cons.IH[OF conjunct1[OF 1] 2] 1 by simp
  qed simp
  then show "files_inv (\<lambda>f. FR f + int (length (filter (points_to f) fds))) (fold share_file fds s)"
    "holds PR (fold share_file fds s) = holds PR s" "vn_inv H (fold share_file fds s) = vn_inv H s" by blast+
qed

lemma vfs_clone_inv:
  assumes inv: "vfs_inv ext fext p s" and c: "p_fds c = replicate OPEN_MAX None" and e: "vfs_clone c p s = (err, c', s')"
  shows "vfs_inv (\<lambda>v. ext v + proc_refs c' v) (\<lambda>f. fext f + fd_refs c' f) p s'" "length (p_fds c') = OPEN_MAX"
proof -
  note d = vfs_invD[OF inv]
  let ?H = "holds (\<lambda>v. ext v + proc_refs p v) s"
  have "map2 (\<lambda>c d. if d = None then c else d) (replicate (length xs) None) xs = xs" for xs :: "filedes option list"
    by (induction xs) auto
  from this[of "p_fds p"] have fds: "p_fds c' = p_fds p" using e c d(4) by (auto simp: vfs_clone_def Let_def)
  have cw: "p_root c' = p_root p" "p_cwd c' = p_cwd p" using e by (auto simp: vfs_clone_def Let_def)
  define s1 where "s1 = VNODE_HOLD (p_cwd p) (VNODE_HOLD (p_root p) s)"
  have s': "s' = fold share_file (p_fds p) s1" using e by (simp add: vfs_clone_def Let_def s1_def)
  have fr: "wframe s s1" unfolding s1_def by (rule wframe_trans[OF rel_wframe(2) rel_wframe(2)])
  have l: "live s (p_root p)" "live (VNODE_HOLD (p_root p) s) (p_cwd p)"
    using base_live[OF d(1,2)] by (simp_all add: live_def VNODE_HOLD_def)
  have i1: "vn_inv (bump (p_cwd p) (bump (p_root p) ?H)) s1" unfolding s1_def by (rule hold_inv[OF hold_inv[OF d(1) l(1)] l(2)])
  have fi: "files_inv (\<lambda>f. fext f + fd_refs p f) s1" using d(3) files_inv_wframe[OF fr] by simp
  have here: "\<forall>d \<in> set (p_fds p). \<forall>x. d = Some x \<longrightarrow> files s1 (fdfile x) \<noteq> None"
  proof (intro ballI allI impI)
    fix y x assume "y \<in> set (p_fds p)" "y = Some x"
    then have "filter (points_to (fdfile x)) (p_fds p) \<noteq> []" by (auto simp: filter_empty_conv points_to_def)
    then have "0 < fd_refs p (fdfile x)" by (simp add: fd_refs_def)
    then have "0 < fext (fdfile x) + fd_refs p (fdfile x)" using d(6)[of "fdfile x"] by linarith
    then show "files s1 (fdfile x) \<noteq> None" using fi by (auto simp: files_inv_def)
  qed
  note sh = share_files[OF fi here, folded s']
  have h: "holds (\<lambda>v. ext v + proc_refs c' v + proc_refs p v) s' = bump (p_cwd p) (bump (p_root p) ?H)"
    using sh(2)[of "\<lambda>v. ext v + proc_refs c' v + proc_refs p v"] holds_wframe[OF fr] cw
    by (auto simp: holds_def bump_def proc_refs_def fun_eq_iff)
  have "(\<lambda>f. fext f + fd_refs p f + int (length (filter (points_to f) (p_fds p)))) = (\<lambda>f. fext f + fd_refs c' f + fd_refs p f)"
    by (simp add: fd_refs_def fds fun_eq_iff)
  then show "vfs_inv (\<lambda>v. ext v + proc_refs c' v) (\<lambda>f. fext f + fd_refs c' f) p s'"
    using d(4-6) sh(1,3) i1 h proc_refs_nonneg[of c'] fd_refs_nonneg[of c']
    by (intro vfs_invI) (simp_all add: add_nonneg_nonneg)
  show "length (p_fds c') = OPEN_MAX" using fds d(4) by simp
qed

lemma sys_close_fds:
  assumes "slot_get (p_fds p) fd \<noteq> None" "sys_close fd p s = Some (err, p', s')"
  shows "p_fds p' = (p_fds p)[nat fd := None]"
  using assms by (auto simp: sys_close_def file_of_def Let_def split: option.splits if_splits prod.splits)

lemma close_from_inv:
  assumes "vfs_inv ext fext p s" "close_from n i p s = Some (p', s')" "\<forall>j<i. p_fds p ! j = None" "i + n \<le> OPEN_MAX"
  shows "vfs_inv ext fext p' s' \<and> (\<forall>j<i + n. p_fds p' ! j = None)"
  using assms
proof (induction n arbitrary: i p s)
  case (Suc n)
  have len: "i < length (p_fds p)" using vfs_invD(4)[OF Suc.prems(1)] Suc.prems(4) by simp
  show ?case
  proof (cases "slot_get (p_fds p) (int i) = None")
    case True
    then have "p_fds p ! i = None" using len by (simp add: slot_get_def)
    then have "\<forall>j<Suc i. p_fds p ! j = None" using Suc.prems(3) by (simp add: less_Suc_eq)
    then show ?thesis using Suc.IH[OF Suc.prems(1)] Suc.prems(2,4) True by simp
  next
    case False
    then obtain err p1 s1 where c: "sys_close (int i) p s = Some (err, p1, s1)" "close_from n (Suc i) p1 s1 = Some (p', s')"
      using Suc.prems(2) by (auto split: option.splits)
    have "\<forall>j<Suc i. p_fds p1 ! j = None"
      using sys_close_fds[OF False c(1)] Suc.prems(3) len by (auto simp: nth_list_update less_Suc_eq)
    then show ?thesis using Suc.IH[OF sys_close_inv[OF Suc.prems(1) c(1)] c(2)] Suc.prems(4) by simp
  qed
qed simp

lemma vfs_free_inv:
  assumes inv: "vfs_inv ext fext p s" and e: "vfs_free p s = Some (p', s')"
  shows "refs_inv ext fext s'"
proof -
  obtain s1 where c: "close_from OPEN_MAX 0 p s = Some (p', s1)" and s': "s' = VNODE_REL (p_cwd p') (VNODE_REL (p_root p') s1)"
    using e by (auto simp: vfs_free_def split: option.splits)
  have i1: "vfs_inv ext fext p' s1" and none: "\<forall>j<OPEN_MAX. p_fds p' ! j = None"
    using close_from_inv[OF inv c] by auto
  note d = vfs_invD[OF i1]
  have "x = None" if "x \<in> set (p_fds p')" for x using that none d(4) by (auto simp: in_set_conv_nth)
  then have "\<not> points_to f x" if "x \<in> set (p_fds p')" for f x using that by (auto simp: points_to_def)
  then have z: "fd_refs p' f = 0" for f by (simp add: fd_refs_def filter_empty_conv)
  have fr: "wframe s1 s'" unfolding s' by (rule wframe_trans[OF rel_wframe(1) rel_wframe(1)])
  have b: "bump (p_cwd p') (bump (p_root p') (holds ext s1)) = holds (\<lambda>v. ext v + proc_refs p' v) s1"
    by (auto simp: bump_def holds_def proc_refs_def fun_eq_iff)
  have nn: "0 \<le> holds ext s1 u" for u
    using d(5)[of u] mount_refs_nonneg[of s1 u] file_refs_nonneg[of s1 u] by (simp add: holds_def)
  have "vn_inv (bump (p_cwd p') (bump (p_root p') (holds ext s1))) s1" using d(1) by (simp add: b)
  from release_two(1)[OF this nn] have "vn_inv (holds ext s1) s'" unfolding s' .
  then show ?thesis using d(3,5) z files_inv_wframe[OF fr] holds_wframe[OF fr] by (simp add: refs_inv_def)
qed

section \<open>The system\<close>

text \<open>A call of one process.\<close>

inductive vcall :: "vproc \<times> ('f, 'w) vfs \<Rightarrow> vproc \<times> ('f, 'w) vfs \<Rightarrow> bool" where
  "sys_access path m p s = (err, s') \<Longrightarrow> vcall (p, s) (p, s')"
| "sys_stat path p s = (err, st, s') \<Longrightarrow> vcall (p, s) (p, s')"
| "sys_lstat path p s = (err, st, s') \<Longrightarrow> vcall (p, s) (p, s')"
| "sys_chdir path p s = (err, p', s') \<Longrightarrow> vcall (p, s) (p', s')"
| "sys_chroot path p s = (err, p', s') \<Longrightarrow> vcall (p, s) (p', s')"
| "sys_open path flags m p s = Some (err, p', s') \<Longrightarrow> vcall (p, s) (p', s')"
| "sys_close fd p s = Some (err, p', s') \<Longrightarrow> vcall (p, s) (p', s')"
| "sys_read t fd len p s = Some (r, s') \<Longrightarrow> vcall (p, s) (p, s')"
| "sys_write t fd data p s = Some (r, s') \<Longrightarrow> vcall (p, s) (p, s')"
| "sys_lseek fd off whence p s = Some (pos, s') \<Longrightarrow> vcall (p, s) (p, s')"
| "sys_dup fd p s = Some (err, p', s') \<Longrightarrow> vcall (p, s) (p', s')"
| "sys_dup2 oldfd newfd p s = Some (err, p', s') \<Longrightarrow> vcall (p, s) (p', s')"
| "sys_fcntl fd cmd arg p s = Some (err, p', s') \<Longrightarrow> vcall (p, s) (p', s')"
| "sys_getdents fd n p s = Some (err, s') \<Longrightarrow> vcall (p, s) (p, s')"
| "sys_ioctl fd cmd a p s = Some (err, s') \<Longrightarrow> vcall (p, s) (p, s')"
| "sys_mknod path m dev p s = Some (err, s') \<Longrightarrow> vcall (p, s) (p, s')"
| "sys_mkdir path m p s = Some (err, s') \<Longrightarrow> vcall (p, s) (p, s')"
| "sys_unlink path p s = Some (err, s') \<Longrightarrow> vcall (p, s) (p, s')"
| "sys_chmod path m p s = (err, s') \<Longrightarrow> vcall (p, s) (p, s')"
| "sys_mount src dest fstype flags p s = (err, s') \<Longrightarrow> vcall (p, s) (p, s')"
| "sys_pipe p s = (err, fds, p', s') \<Longrightarrow> vcall (p, s) (p', s')"

lemma path_calls_inv:
  assumes inv: "vfs_inv ext fext p s"
  shows "sys_access path m p s = (err, s') \<Longrightarrow> vfs_inv ext fext p s'"
    "sys_stat path p s = (err, st, s') \<Longrightarrow> vfs_inv ext fext p s'"
    "sys_lstat path p s = (err, st, s') \<Longrightarrow> vfs_inv ext fext p s'"
    "sys_chmod path m p s = (err, s') \<Longrightarrow> vfs_inv ext fext p s'"
    "sys_mknod path m dev p s = Some (err, s') \<Longrightarrow> vfs_inv ext fext p s'"
    "sys_mkdir path m p s = Some (err, s') \<Longrightarrow> vfs_inv ext fext p s'"
    "sys_unlink path p s = Some (err, s') \<Longrightarrow> vfs_inv ext fext p s'"
    "sys_dup fd p s = Some (err, p', s') \<Longrightarrow> vfs_inv ext fext p' s'"
proof -
  note k = keeps_vfs_inv[OF inv] and d = vfs_invD(1,2)[OF inv]
  show "sys_access path m p s = (err, s') \<Longrightarrow> vfs_inv ext fext p s'" using k[OF sys_access_keeps(1)[OF d], of path m] by simp
  show "sys_stat path p s = (err, st, s') \<Longrightarrow> vfs_inv ext fext p s'" using k[OF sys_access_keeps(2)[OF d], of path] by simp
  show "sys_lstat path p s = (err, st, s') \<Longrightarrow> vfs_inv ext fext p s'" using k[OF sys_access_keeps(3)[OF d], of path] by simp
  show "sys_chmod path m p s = (err, s') \<Longrightarrow> vfs_inv ext fext p s'" using k[OF sys_chmod_keeps[OF d], of path m] by simp
  show "sys_mknod path m dev p s = Some (err, s') \<Longrightarrow> vfs_inv ext fext p s'" by (rule k[OF sys_mknod_keeps(1)[OF d]])
  show "sys_mkdir path m p s = Some (err, s') \<Longrightarrow> vfs_inv ext fext p s'" by (rule k[OF sys_mknod_keeps(2)[OF d]])
  show "sys_unlink path p s = Some (err, s') \<Longrightarrow> vfs_inv ext fext p s'" by (rule k[OF sys_unlink_keeps[OF d]])
  show "sys_dup fd p s = Some (err, p', s') \<Longrightarrow> vfs_inv ext fext p' s'" unfolding sys_dup_def by (rule do_sys_dup_inv[OF inv])
qed

lemmas call_invs = path_calls_inv sys_chdir_inv sys_open_inv sys_close_inv sys_read_inv sys_write_inv sys_lseek_inv
  sys_dup2_inv sys_fcntl_inv sys_getdents_inv sys_ioctl_inv sys_mount_inv sys_pipe_inv

lemma vcall_inv:
  assumes "vcall (p, s) (p', s')" "vfs_inv ext fext p s"
  shows "vfs_inv ext fext p' s'"
  using assms(1) by cases (blast intro: call_invs[OF assms(2)])+

text \<open>All processes: the references are the sums over the list of processes.\<close>

definition sys_inv :: "vproc list \<times> ('f, 'w) vfs \<Rightarrow> bool" where
  "sys_inv x \<longleftrightarrow> (case x of (ps, s) \<Rightarrow> (\<forall>p \<in> set ps. length (p_fds p) = OPEN_MAX) \<and>
     refs_inv (\<lambda>v. \<Sum>p \<leftarrow> ps. proc_refs p v) (\<lambda>f. \<Sum>p \<leftarrow> ps. fd_refs p f) s)"

inductive vsys_step :: "vproc list \<times> ('f, 'w) vfs \<Rightarrow> vproc list \<times> ('f, 'w) vfs \<Rightarrow> bool" where
  call: "vcall (p, s) (p', s') \<Longrightarrow> vsys_step (xs @ p # ys, s) (xs @ p' # ys, s')"
| fork: "vfs_clone c p s = (err, c', s') \<Longrightarrow> p_fds c = replicate OPEN_MAX None \<Longrightarrow>
     vsys_step (xs @ p # ys, s) (c' # xs @ p # ys, s')"
| exit: "vfs_free p s = Some (p', s') \<Longrightarrow> vsys_step (xs @ p # ys, s) (xs @ ys, s')"

lemma sys_inv_view:
  "sys_inv (xs @ p # ys, s) \<longleftrightarrow> (\<forall>q \<in> set (xs @ ys). length (p_fds q) = OPEN_MAX) \<and>
     vfs_inv (\<lambda>v. \<Sum>q \<leftarrow> xs @ ys. proc_refs q v) (\<lambda>f. \<Sum>q \<leftarrow> xs @ ys. fd_refs q f) p s"
proof -
  have "0 \<le> (\<Sum>q \<leftarrow> zs. proc_refs q v)" "0 \<le> (\<Sum>q \<leftarrow> zs. fd_refs q f)" for zs v f
    by (rule sum_list_nonneg, auto simp: proc_refs_nonneg fd_refs_nonneg)+
  then show ?thesis by (auto simp: sys_inv_def vfs_inv_def ac_simps)
qed

lemma vsys_step_inv:
  assumes "vsys_step x y" "sys_inv x"
  shows "sys_inv y"
  using assms(1)
proof cases
  case (call p s p' s' xs ys)
  then show ?thesis using assms(2) vcall_inv unfolding call sys_inv_view by blast
next
  case (fork c p s err c' s' xs ys)
  have v: "\<forall>q \<in> set (xs @ ys). length (p_fds q) = OPEN_MAX"
    "vfs_inv (\<lambda>v. \<Sum>q \<leftarrow> xs @ ys. proc_refs q v) (\<lambda>f. \<Sum>q \<leftarrow> xs @ ys. fd_refs q f) p s"
    using assms(2) unfolding fork(1) sys_inv_view by blast+
  note c = vfs_clone_inv[OF v(2) fork(4,3)]
  have "sys_inv ((c' # xs) @ p # ys, s')" unfolding sys_inv_view using c v(1) by (simp add: ac_simps)
  then show ?thesis by (simp add: fork)
next
  case (exit p s p' s' xs ys)
  have v: "\<forall>q \<in> set (xs @ ys). length (p_fds q) = OPEN_MAX"
    "vfs_inv (\<lambda>v. \<Sum>q \<leftarrow> xs @ ys. proc_refs q v) (\<lambda>f. \<Sum>q \<leftarrow> xs @ ys. fd_refs q f) p s"
    using assms(2) unfolding exit(1) sys_inv_view by blast+
  then show ?thesis using vfs_free_inv[OF v(2) exit(3)] by (auto simp: exit(2) sys_inv_def)
qed

text \<open>The start: no file is open and nothing is mounted, the registered file systems keep the contract of a
  driver, and \<^verbatim>\<open>vfs_mount_root\<close> gives the first process its root.\<close>

definition vfs_empty :: "('f, 'w) vfs \<Rightarrow> bool" where
  "vfs_empty s \<longleftrightarrow> mount_list s = [] \<and> files s = Map.empty \<and> (\<forall>fs \<in> set (fs_list s). vnode_driver (fs_ops fs))"

definition vsys_init :: "vproc list \<times> ('f, 'w) vfs \<Rightarrow> bool" where
  "vsys_init x \<longleftrightarrow> (\<exists>kargv r p s p' s'. vfs_empty s \<and> p_fds p = replicate OPEN_MAX None \<and>
     vfs_mount_root kargv r p s = Some (p', s') \<and> x = ([p'], s'))"

lemma vfs_mount_root_inv:
  assumes s: "vfs_empty s" and p: "p_fds p = replicate OPEN_MAX None" and e: "vfs_mount_root kargv r p s = Some (p', s')"
  shows "vfs_inv (\<lambda>_. 0) (\<lambda>_. 0) p' s'"
proof -
  let ?Z = "\<lambda>_ :: nat. 0 :: int"
  obtain name fs s1 dev rw merr rv s2 where fsl: "fs_lookup name s = (Some fs, s1)"
    and mt: "mount_fs fs dev ''/dev/root'' rw None s1 = (merr, Some rv, s2)"
    and p': "p' = p\<lparr>p_root := rv, p_cwd := rv\<rparr>"
    and s': "(case vnode_get ''/dev/root'' p' True (VNODE_HOLD rv (VNODE_HOLD rv (s2\<lparr>mount_list := next_mount s1 # mount_list s2\<rparr>))) of
        (Inl _, s) \<Rightarrow> s | (Inr v, s) \<Rightarrow> VNODE_REL v (upd_vnode v (\<lambda>x. x\<lparr>vrdev := dev\<rparr>) s)) = s'"
    using e by (auto simp: vfs_mount_root_def Let_def split: option.splits prod.splits if_splits sum.splits)
  have v1: "vn_inv ?Z s1" "files s1 = Map.empty" "mount_list s1 = []" and drv: "vnode_driver (fs_ops fs)"
    using fsl s by (auto simp: fs_lookup_def vfs_empty_def vn_inv_def cache_ok_def live_def find_Some_iff split: option.splits)
  define t where "t = enter_mount (next_mount s1) None s2"
  have t: "t = s2\<lparr>mount_list := next_mount s1 # mount_list s2\<rparr>" by (simp add: t_def enter_mount_def)
  note em = enter_mount_inv[OF v1(1) drv mt, folded t_def]
  have i: "vn_inv (bump rv ?Z) t" and em2: "files t = files s1" "next_file t = next_file s1"
    "\<And>w. mount_refs t w = mount_refs s1 w + of_bool (rv = w)"
    using em by auto
  have lt: "live t rv" by (rule vn_invD(4)[OF i]) (simp add: bump_def)
  define u where "u = VNODE_HOLD rv (VNODE_HOLD rv t)"
  have fr: "wframe t u" unfolding u_def by (rule wframe_trans[OF rel_wframe(2) rel_wframe(2)])
  have "live (VNODE_HOLD rv t) rv" using lt by (simp add: live_def VNODE_HOLD_def)
  then have iu: "vn_inv (bump rv (bump rv (bump rv ?Z))) u" unfolding u_def by (rule hold_inv[OF hold_inv[OF i lt]])
  have mr: "mount_refs t w = of_bool (rv = w)" for w unfolding em2 using v1(3) by (simp add: mount_refs_def)
  have "file_refs t w = 0" for w using em2 v1(2) by (simp add: file_refs_def)
  then have h: "holds (\<lambda>v. 0 + proc_refs p' v) t = bump rv (bump rv (bump rv ?Z))"
    using mr by (auto simp: holds_def proc_refs_def p' bump_def fun_eq_iff)
  have "fd_refs p' f = 0" for f by (simp add: fd_refs_def p' p points_to_def)
  moreover have "files_inv ?Z u" unfolding files_inv_wframe[OF fr] using em2 v1(2) by (simp add: files_inv_def)
  ultimately have "vfs_inv ?Z ?Z p' u"
    using iu h holds_wframe[OF fr] by (intro vfs_invI) (simp_all add: p' p)
  note iv = this and d = vfs_invD[OF this]
  obtain g s3 where gt: "vnode_get ''/dev/root'' p' True u = (g, s3)" by fastforce
  have s3: "(case g of Inl _ \<Rightarrow> s3 | Inr v \<Rightarrow> VNODE_REL v (upd_vnode v (\<lambda>x. x\<lparr>vrdev := dev\<rparr>) s3)) = s'"
    using s' gt unfolding t[symmetric] u_def[symmetric] by (simp split: sum.split_asm sum.split)
  show ?thesis
  proof (rule get_cases[OF d(1,2) gt])
    fix x assume "g = Inl x" "wframe u s3" "vn_inv (holds (\<lambda>v. 0 + proc_refs p' v) u) s3"
    then show ?thesis using s3 keeps_vfs_inv[OF iv keepsI] by simp
  next
    fix v assume g: "g = Inr v" and w: "wframe u s3" "vn_inv (bump v (holds (\<lambda>v. 0 + proc_refs p' v) u)) s3"
    have "vn_inv (bump v (holds (\<lambda>v. 0 + proc_refs p' v) u)) (upd_vnode v (\<lambda>x. x\<lparr>vrdev := dev\<rparr>) s3)"
      by (rule upd_vnode_inv[OF w(2)]) (simp add: same_place_def)
    note rel = keeps_rel[OF this vn_invD(3)[OF d(1)]]
    have "wframe u (upd_vnode v (\<lambda>x. x\<lparr>vrdev := dev\<rparr>) s3)" by (rule wframe_trans[OF w(1) upd_vnode_frame])
    from keeps_vfs_inv[OF iv keeps_after[OF this rel]] show ?thesis using s3 g by simp
  qed
qed

interpretation vfs_system: invariant_system vsys_init vsys_step sys_inv
proof
  fix x :: "vproc list \<times> ('f, 'w) vfs" assume "vsys_init x"
  then obtain p' s' where "x = ([] @ p' # [], s')" "vfs_inv (\<lambda>_. 0) (\<lambda>_. 0) p' s'"
    by (auto simp: vsys_init_def dest: vfs_mount_root_inv)
  then show "sys_inv x" unfolding sys_inv_view[of "[]" _ "[]"] \<open>x = _\<close> by (simp add: sys_inv_view[of "[]" _ "[]", simplified])
qed (rule vsys_step_inv)

end
