(* ===== verification/VfsProps.thy ===== *)
theory VfsProps
  imports VfsCalls
begin

text \<open>
  What single operations of the virtual file system do: splitting a path, checking permissions, resolving a
  symbolic link, and the descriptor table.
\<close>

section \<open>Splitting a path\<close>

lemma split_scan_name:
  assumes "\<forall>c \<in> set name. c \<noteq> CHR ''/''" "k < length name" "length dir + 1 + k < length path"
    "\<And>j. j \<le> k \<Longrightarrow> path ! (length dir + 1 + j) = name ! j" "path ! length dir = CHR ''/''"
  shows "split_scan path (length dir + 1 + k) = length dir"
  using assms(2-)
proof (induction k)
  case 0
  have "path ! Suc (length dir) \<noteq> CHR ''/''" using 0(1) 0(3)[of 0] assms(1) by simp
  then show ?case using assms(5) by (cases "length dir") simp_all
next
  case (Suc k)
  have "path ! (length dir + 1 + Suc k) \<noteq> CHR ''/''" using Suc.prems(1) Suc.prems(3)[of "Suc k"] assms(1) by simp
  then show ?case using Suc by simp
qed

lemma vfs_path_split_join:
  assumes name: "name \<noteq> []" "\<forall>c \<in> set name. c \<noteq> CHR ''/''" "length name \<le> NAME_MAX" "length dir < PATH_MAX"
    and path: "path = dir @ CHR ''/'' # name @ tail" "tail = [] \<or> tail = ''/''"
  shows "vfs_path_split path = Some (dir, name)"
proof -
  let ?n = "length name - 1"
  have last: "path ! (length dir + 1 + j) = name ! j" if "j < length name" for j
    using that by (simp add: path nth_append)
  have slash: "path ! length dir = CHR ''/''" by (simp add: path)
  have "name ! ?n \<noteq> CHR ''/''" using name(1,2) by simp
  then have e: "(if path ! nat (int (length path) - 1) = CHR ''/'' then int (length path) - 1 - 1 else int (length path) - 1) =
      int (length dir + 1 + ?n)"
  proof (cases "tail = []")
    case True
    then have n: "nat (int (length path) - 1) = length dir + 1 + ?n" using name(1) by (cases name) (simp_all add: path)
    then have "path ! nat (int (length path) - 1) \<noteq> CHR ''/''" using last[of ?n] name(1) \<open>name ! ?n \<noteq> _\<close> by simp
    moreover have "int (length path) - 1 = int (length dir + 1 + ?n)" using True name(1) by (cases name) (simp_all add: path)
    ultimately show ?thesis by simp
  next
    case False
    then have t: "tail = ''/''" using path(2) by simp
    then have n: "nat (int (length path) - 1) = length dir + 1 + length name" by (simp add: path)
    have "path ! (length dir + 1 + length name) = CHR ''/''" using t by (simp add: path nth_append)
    moreover have "int (length path) - 1 - 1 = int (length dir + 1 + ?n)" using t name(1) by (cases name) (simp_all add: path)
    ultimately show ?thesis unfolding n by presburger
  qed
  have "length dir + 1 + ?n < length path" using name(1) by (cases name) (simp_all add: path)
  then have sc: "split_scan path (length dir + 1 + ?n) = length dir"
    using split_scan_name[OF name(2), of ?n dir path] last slash name(1) by (cases name) simp_all
  have nm: "take (length dir + 1 + ?n - length dir) (drop (length dir + 1) path) = name"
    using name(1) by (cases name) (simp_all add: path)
  have dirf: "(if 0 < length dir then take (length dir) path else []) = dir" by (simp add: path)
  show ?thesis unfolding vfs_path_split_def Let_def e nat_int sc if_P[OF slash] nm dirf using name(3,4) path(1) by simp
qed

text \<open>C25. \<^verbatim>\<open>vfs_path_split\<close> inverts joining: a path made of a directory part, a slash and a name (which may be followed
  by one more slash) is split into exactly these parts. In particular the directory part of a name directly
  below the root is the empty path, which the path resolution takes for the current directory: creating
  \<^verbatim>\<open>/name\<close> looks for its parent in the current directory and not in the root.\<close>

theorem vfs_path_split_parts:
  assumes "name \<noteq> []" and "\<forall>c \<in> set name. c \<noteq> CHR ''/''" and "length name \<le> NAME_MAX" and "length dir < PATH_MAX"
    and "tail = [] \<or> tail = ''/''"
  shows "vfs_path_split (dir @ CHR ''/'' # name @ tail) = Some (dir, name) \<and>
    vfs_path_split (CHR ''/'' # name) = Some ([], name) \<and>
    vnode_get [] p True s = (Inr (p_cwd p), VNODE_HOLD (p_cwd p) s)"
proof -
  have "SYMLOOP_MAX = Suc 31" by (simp add: SYMLOOP_MAX_def)
  note sm = this
  have "str_explode [] (CHR ''/'') = []" by code_simp
  then have "vnode_get [] p True s = (Inr (p_cwd p), VNODE_HOLD (p_cwd p) s)"
    unfolding vnode_get_def sm vnode_get_loop.simps Let_def by simp
  then show ?thesis
    using vfs_path_split_join[OF assms(1-4) refl assms(5)] vfs_path_split_join[of name "[]" "CHR ''/'' # name" "[]"] assms
    by (simp add: PATH_MAX_def)
qed

theorem vfs_path_split_parts_witness:
  "vfs_path_split ''/usr/bin/ls/'' = Some (''/usr/bin'', ''ls'') \<and> vfs_path_split ''/ls'' = Some ([], ''ls'')"
proof -
  have "length ''ls'' \<le> NAME_MAX" "length ''/usr/bin'' < PATH_MAX" by (simp_all add: NAME_MAX_def PATH_MAX_def)
  from vfs_path_split_parts[OF _ _ this, of "''/''"] show ?thesis by auto
qed

section \<open>Permissions\<close>

definition class_bits :: "vnode \<Rightarrow> vproc \<Rightarrow> mode_t" where
  "class_bits v p = (if p_euid p = vuid v \<or> p_egid p = vgid v then drop_bit 6 (vmode v) else vmode v) AND 7"

text \<open>C24. The permission check: a process whose effective and real user are both not root is granted exactly the
  requested bits contained in the bits of its class, where the group class is given the bits of the owner (the
  code shifts by six for both), so a group member is allowed what the owner is allowed. The super user may
  always read and write, and execute when some execute bit is set.\<close>

theorem do_sys_access_correct:
  "do_sys_access v m p =
    (if (if p_euid p = 0 \<or> p_uid p = 0 then m AND 1 = 0 \<or> vmode v AND 0x49 \<noteq> 0
         else m AND 7 AND NOT (class_bits v p) = 0)
     then 0 else - errno_code EACCES)"
proof -
  have mk: "(7 :: mode_t) = mask 3" "(0x1FF :: mode_t) = mask 9" by (simp_all add: mask_eq_exp_minus_1)
  have sub: "a AND b = b \<longleftrightarrow> b AND NOT a = 0" for a b :: mode_t
    by (auto simp: bit_eq_iff bit_simps)
  have bits: "drop_bit 6 (x AND 0x1FF) AND 7 = drop_bit 6 x AND 7" "(x AND 0x1FF) AND 7 = x AND 7" for x :: mode_t
    by (simp_all add: mk take_bit_eq_mask[symmetric] drop_bit_take_bit)
  have three: "m AND 7 = 0 \<or> m AND 7 = 1 \<or> m AND 7 = 2 \<or> m AND 7 = 3 \<or> m AND 7 = 4 \<or> m AND 7 = 5 \<or> m AND 7 = 6 \<or> m AND 7 = 7"
  proof -
    have "take_bit 3 m < 8" using take_bit_nat_less_exp[of 3 "unat m"] by (simp add: word_less_nat_alt unsigned_take_bit_eq)
    then have "m AND 7 < 8" by (simp add: mk take_bit_eq_mask)
    then show ?thesis by unat_arith
  qed
  have low: "m AND 1 = (m AND 7) AND 1" by (simp add: and.assoc)
  have x: "(vmode v AND 0x1FF) AND 0x49 = vmode v AND 0x49" by (simp add: and.assoc)
  show ?thesis
  proof (cases "p_euid p = 0 \<or> p_uid p = 0")
    case True
    have "(0x1FF AND 7 AND (m AND 7) = m AND 7)" "(drop_bit 6 0x1FF AND 7 AND (m AND 7) = m AND 7)"
      "(0x1B6 AND 7 AND (m AND 7) = m AND 7) \<longleftrightarrow> m AND 1 = 0" "(drop_bit 6 0x1B6 AND 7 AND (m AND 7) = m AND 7) \<longleftrightarrow> m AND 1 = 0"
      unfolding low using three by auto
    then show ?thesis using True unfolding do_sys_access_def Let_def x by auto
  next
    case False
    define res where "res = (if p_euid p = vuid v then drop_bit 6 (vmode v AND 0x1FF)
                 else if p_egid p = vgid v then drop_bit 6 (vmode v AND 0x1FF) else vmode v AND 0x1FF)"
    have cb: "res AND 7 = class_bits v p" using bits(1)[of "vmode v"] bits(2)[of "vmode v"]
      by (simp only: res_def class_bits_def split: if_split) blast
    have k: "(res AND 7 AND (m AND 7) = m AND 7) \<longleftrightarrow> m AND 7 AND NOT (res AND 7) = 0"
      using sub[of "res AND 7" "m AND 7"] by (simp only: and.assoc)
    have nf: "\<not> \<not> (p_euid p \<noteq> 0 \<and> p_uid p \<noteq> 0)" using False by blast
    have "do_sys_access v m p = (if res AND 7 AND (m AND 7) = m AND 7 then 0 else - errno_code EACCES)"
      unfolding do_sys_access_def Let_def if_not_P[OF nf] res_def[symmetric] ..
    then show ?thesis unfolding if_not_P[OF False] k cb .
  qed
qed

definition member_proc :: vproc where
  "member_proc = \<lparr>p_uid = 7, p_gid = 3, p_euid = 7, p_egid = 3, p_umask = 0, p_root = 0, p_cwd = 0, p_fds = []\<rparr>"

theorem do_sys_access_correct_witness:
  "do_sys_access (vnode_zero\<lparr>vmode := S_IFREG OR 0x180, vuid := 5, vgid := 3\<rparr>) 6 member_proc = 0 \<and>
   do_sys_access (vnode_zero\<lparr>vmode := S_IFREG OR 0x180, vuid := 5, vgid := 3\<rparr>) 1 member_proc = - errno_code EACCES"
proof -
  let ?v = "vnode_zero\<lparr>vmode := S_IFREG OR 0x180, vuid := 5, vgid := 3\<rparr>"
  have "class_bits ?v member_proc = 6"
    by (simp add: class_bits_def member_proc_def S_IFREG_def)
  then show ?thesis
    using do_sys_access_correct[of ?v 6 member_proc] do_sys_access_correct[of ?v 1 member_proc]
    by (simp add: member_proc_def)
qed

section \<open>The descriptor table\<close>

text \<open>C26. Duplicating a descriptor: the result is the lowest free descriptor from the start number on, it refers
  to the same file, whose count goes up by one, and every other descriptor is as before; when there is none the
  call fails with \<^verbatim>\<open>-EMFILE\<close> and nothing changes. \<^verbatim>\<open>sys_dup2\<close> of a descriptor onto itself closes it and then uses
  the empty table entry: no valid result.\<close>

theorem dup_lowest_free:
  assumes "file_of fd p s = Some (Inr (f, fl))" and "0 \<le> start" and "length (p_fds p) = OPEN_MAX"
  shows "(case do_sys_dup fd start p s of
      None \<Rightarrow> False
    | Some (r, p', s') \<Rightarrow>
        if \<exists>k. start \<le> k \<and> k < int OPEN_MAX \<and> slot_get (p_fds p) k = None then
          start \<le> r \<and> r < int OPEN_MAX \<and> slot_get (p_fds p) r = None \<and>
          (\<forall>k. start \<le> k \<and> k < r \<longrightarrow> slot_get (p_fds p) k \<noteq> None) \<and>
          slot_get (p_fds p') r = Some \<lparr>fdflags = 0, fdfile = f\<rparr> \<and>
          (\<forall>k. k \<noteq> r \<longrightarrow> slot_get (p_fds p') k = slot_get (p_fds p) k) \<and>
          files s' = (files s)(f \<mapsto> fl\<lparr>frefs := frefs fl + 1\<rparr>)
        else r = - errno_code EMFILE \<and> p' = p \<and> s' = s) \<and> sys_dup2 fd fd p s = None"
proof (rule conjI)
  note len = assms(3)
  have slot: "slot_get (p_fds p) k = p_fds p ! nat k" if "0 \<le> k" "k < int OPEN_MAX" for k
    using that len by (simp add: slot_get_def)
  show "case do_sys_dup fd start p s of
      None \<Rightarrow> False
    | Some (r, p', s') \<Rightarrow>
        if \<exists>k. start \<le> k \<and> k < int OPEN_MAX \<and> slot_get (p_fds p) k = None then
          start \<le> r \<and> r < int OPEN_MAX \<and> slot_get (p_fds p) r = None \<and>
          (\<forall>k. start \<le> k \<and> k < r \<longrightarrow> slot_get (p_fds p) k \<noteq> None) \<and>
          slot_get (p_fds p') r = Some \<lparr>fdflags = 0, fdfile = f\<rparr> \<and>
          (\<forall>k. k \<noteq> r \<longrightarrow> slot_get (p_fds p') k = slot_get (p_fds p) k) \<and>
          files s' = (files s)(f \<mapsto> fl\<lparr>frefs := frefs fl + 1\<rparr>)
        else r = - errno_code EMFILE \<and> p' = p \<and> s' = s"
  proof (cases "find_slot (nat start) (p_fds p)")
    case None
    then have "p_fds p ! j \<noteq> None" if "nat start \<le> j" "j < OPEN_MAX" for j using that len by (simp add: find_slot_None)
    then have "\<not> (\<exists>k. start \<le> k \<and> k < int OPEN_MAX \<and> slot_get (p_fds p) k = None)"
      using slot assms(2) by (metis nat_mono nat_less_iff order_trans)
    then show ?thesis using None assms(1,2) by (simp add: do_sys_dup_def)
  next
    case (Some i)
    note fs = find_slot_Some[OF Some]
    have i: "start \<le> int i" "i < OPEN_MAX" "slot_get (p_fds p) (int i) = None"
      using fs len slot[of "int i"] assms(2) by auto
    have "slot_get (p_fds p) k \<noteq> None" if "start \<le> k" "k < int i" for k
    proof -
      have "nat start \<le> nat k" "nat k < i" using that assms(2) by linarith+
      then have "p_fds p ! nat k \<noteq> None" using fs by blast
      then show ?thesis using slot[of k] that i(2) assms(2) by simp
    qed
    moreover have "\<exists>k. start \<le> k \<and> k < int OPEN_MAX \<and> slot_get (p_fds p) k = None"
      using i by (intro exI[of _ "int i"]) simp
    ultimately show ?thesis using Some assms(1,2) i len by (simp add: do_sys_dup_def slot_get_update)
  qed
  obtain d where d: "slot_get (p_fds p) fd = Some d" using assms(1) by (auto simp: file_of_def split: option.splits)
  have "file_of fd p1 s1 = Some (Inl (- errno_code EBADF))" if "sys_close fd p s = Some (e, p1, s1)" for e p1 s1
  proof -
    have "p_fds p1 = (p_fds p)[nat fd := None]" using sys_close_fds[OF _ that] d by simp
    then have "slot_get (p_fds p1) fd = None" using slot_get_Some_bounds[OF d] by (auto simp: slot_get_def)
    then show ?thesis by (simp add: file_of_def)
  qed
  then show "sys_dup2 fd fd p s = None"
    using d slot_get_Some_bounds[OF d] len by (auto simp: sys_dup2_def split: option.splits sum.splits)
qed

definition proc1 :: vproc where
  "proc1 = \<lparr>p_uid = 1, p_gid = 1, p_euid = 1, p_egid = 1, p_umask = 0, p_root = 0, p_cwd = 0,
     p_fds = (replicate OPEN_MAX None)[0 := Some \<lparr>fdflags = 0, fdfile = 0\<rparr>]\<rparr>"

definition vfs1 :: "'f mountpoint \<Rightarrow> (vfile \<times> nat) list \<Rightarrow> ('f, unit) vfs" where
  "vfs1 mp fls = \<lparr>fs_list = [mfs mp], fs_refs = (\<lambda>_. 0), mount_list = [0], mounts = (\<lambda>_. mp), next_mount = 1,
     vnodes = (\<lambda>v. vnode_zero\<lparr>ino := v + 1, vmode := S_IFDIR OR 0x1FF, refcount := 1\<rparr>), next_vnode = 1,
     files = map_of (map prod.swap fls), next_file = length fls, pipes = (\<lambda>_. pipe_new), next_pipe = 0,
     cdevs = replicate 255 None, bdevs = replicate 255 None, world = (), shutdown = (\<lambda>_ w. (0, w)), kjunk = (\<lambda>_. 0)\<rparr>"

definition file1 :: vfile where
  "file1 = \<lparr>frefs = 1, fflags = 0, fmode = O_RDWR, fpos = 0, ftype = S_IFREG, fvnode = Some 0, fdataptr = None\<rparr>"

theorem dup_lowest_free_witness:
  "case do_sys_dup 0 0 proc1 (vfs1 (undefined :: unit mountpoint) [(file1, 0)]) of
     None \<Rightarrow> False | Some (r, p', s') \<Rightarrow> 0 \<le> r \<and> slot_get (p_fds p') r = Some \<lparr>fdflags = 0, fdfile = 0\<rparr>"
proof -
  let ?s = "vfs1 (undefined :: unit mountpoint) [(file1, 0)]"
  have f: "file_of 0 proc1 ?s = Some (Inr (0, file1))" "(0::int) \<le> 0" "length (p_fds proc1) = OPEN_MAX"
    by (simp_all add: file_of_def proc1_def vfs1_def slot_get_def OPEN_MAX_def)
  have "slot_get (p_fds proc1) 1 = None" by (simp add: proc1_def slot_get_def OPEN_MAX_def)
  then have "\<exists>k. 0 \<le> k \<and> k < int OPEN_MAX \<and> slot_get (p_fds proc1) k = None"
    by (intro exI[of _ 1]) (simp add: OPEN_MAX_def)
  then show ?thesis using dup_lowest_free[OF f] by (auto split: option.splits prod.splits if_splits)
qed

section \<open>Symbolic links\<close>

lemma tokens_cons:
  assumes "t \<noteq> []" "c \<notin> set t"
  shows "tokens c t = [t]" "tokens c (t @ c # rest) = t # tokens c rest"
proof -
  have d: "dropWhile (\<lambda>x. x = c) (t @ xs) = t @ xs" for xs using assms by (cases t) auto
  have tw: "takeWhile (\<lambda>x. x \<noteq> c) (t @ c # xs) = t" "dropWhile (\<lambda>x. x \<noteq> c) (t @ c # xs) = c # xs"
    "takeWhile (\<lambda>x. x \<noteq> c) t = t" "dropWhile (\<lambda>x. x \<noteq> c) t = []" for xs
    using assms(2) by (induction t) auto
  have skip: "tokens c (c # xs) = tokens c xs" for xs by (simp add: tokens.simps[of c "c # xs"] tokens.simps[of c xs])
  show "tokens c t = [t]" using assms(1) d[of "[]"] by (subst tokens.simps) (simp add: tw(3,4) tokens.simps[of c "[]"] del: dropWhile_eq_Nil_conv)
  show "tokens c (t @ c # rest) = t # tokens c rest"
    using d[of "c # rest"] tw(1,2) by (subst tokens.simps) (simp add: skip)
qed

text \<open>A symbolic link in the middle of a path: the resolution replaces the whole path by the target of the
  link, so the components behind the link are dropped and the path resolves like the link alone.\<close>

theorem symlink_drops_rest:
  assumes "t \<noteq> []" and "CHR ''/'' \<notin> set t" and "t \<noteq> ''..''" and "NUL \<notin> set (t @ rest)"
    and "op_lookup (ops_of s (p_cwd p)) (vnodes (VNODE_HOLD (p_cwd p) s) (p_cwd p)) t (mdata (mp_of s (p_cwd p))) = n" and "n \<noteq> 0"
    and "vnode_child (p_cwd p) n (VNODE_HOLD (p_cwd p) s) = (Some w, s1)" and "cross_down w s1 = (w2, s2)"
    and "S_ISLNK (vmode (vnodes s2 w2))"
  shows "vnode_get (t @ CHR ''/'' # rest) p True s = vnode_get t p True s"
proof -
  let ?v = "p_cwd p" and ?s = "VNODE_HOLD (p_cwd p) s"
  have nn: "CHR ''/'' \<noteq> NUL" by (simp add: NUL_def)
  have ex: "str_explode (t @ CHR ''/'' # rest) (CHR ''/'') = t # tokens (CHR ''/'') rest" "str_explode t (CHR ''/'') = [t]"
    using str_explode_tokens[OF _ nn] tokens_cons[OF assms(1,2)] assms(4) nn by (auto simp: NUL_def)
  have wp: "walk_path p True (t # ts) ?v ?s = read_link p ?v w2 s2" for ts
  proof -
    have cu: "cross_up t ?v ?s = (?v, ?s)" using assms(3) by (simp add: cross_up_def split: option.split)
    have "op_lookup (ops_of ?s ?v) (vnodes ?s ?v) t (mdata (mp_of ?s ?v)) = n"
      using assms(5) by (simp add: VNODE_HOLD_def)
    then show ?thesis using assms(3,6-9) by (simp add: cu)
  qed
  have st: "(if t @ CHR ''/'' # rest \<noteq> [] \<and> hd (t @ CHR ''/'' # rest) = CHR ''/'' then p_root p else p_cwd p) = ?v"
    "(if t \<noteq> [] \<and> hd t = CHR ''/'' then p_root p else p_cwd p) = ?v" using assms(1,2) by (cases t; auto)+
  have sm: "SYMLOOP_MAX = Suc 31" by (simp add: SYMLOOP_MAX_def)
  show ?thesis unfolding vnode_get_def Let_def st sm vnode_get_loop.simps ex wp by simp
qed

text \<open>A file system with a link \<^verbatim>\<open>l\<close> to the directory \<^verbatim>\<open>d\<close>, which has an entry \<^verbatim>\<open>x\<close>.\<close>

definition link_fs :: "unit filesystem" where
  "link_fs = \<lparr>fs_name = ''links'', fs_nodev = True, fs_mount = (\<lambda>_. (0, ())), fs_root = (\<lambda>_. 1),
     fs_ops = \<lparr>op_open = (\<lambda>v f. (0, v\<lparr>vmode := (if ino v = 2 then S_IFLNK else S_IFDIR) OR 0x1FF\<rparr>)), op_close = (\<lambda>v f. (0, f)),
       op_lookup = (\<lambda>v n f. if ino v = 1 \<and> n = ''l'' then 2 else if ino v = 1 \<and> n = ''d'' then 3
                           else if ino v = 3 \<and> n = ''x'' then 4 else 0),
       op_read = None, op_write = None, op_mkdir = None, op_creat = None, op_readlink = Some (\<lambda>v f. (0, ''d'')),
       op_getdents = None, op_flush = None, op_mknod = None, op_unlink = None\<rparr>\<rparr>"

definition link_vfs :: "(unit, unit) vfs" where
  "link_vfs = vfs1 \<lparr>mdevice = 0, mdevname = [], mfs = link_fs, mflags = 0, mdata = (), root_vnode = 0,
     parent_vnode = None, vnode_list = [0]\<rparr> []"

theorem symlink_drops_rest_witness:
  "vnode_get ''l/x'' proc1 True link_vfs = vnode_get ''l'' proc1 True link_vfs \<and>
   (case vnode_get ''l/x'' proc1 True link_vfs of (Inl _, s) \<Rightarrow> False | (Inr v, s) \<Rightarrow> ino (vnodes s v) = 3)"
proof -
  let ?h = "VNODE_HOLD (p_cwd proc1) link_vfs"
  define r where "r = vnode_child (p_cwd proc1) 2 ?h"
  note defs = vnode_child_def vnode_lookup_def vnode_new_def proc1_def link_vfs_def vfs1_def link_fs_def
        VNODE_HOLD_def vnode_zero_def Let_def
  have r1: "fst r = Some 1" "vfsmountedhere (vnodes (snd r) 1) = None" "vmode (vnodes (snd r) 1) = S_IFLNK OR 0x1FF"
    unfolding r_def by (simp_all add: defs)
  have c: "vnode_child (p_cwd proc1) 2 ?h = (Some 1, snd r)" "cross_down 1 (snd r) = (1, snd r)" "S_ISLNK (vmode (vnodes (snd r) 1))"
  proof -
    show "vnode_child (p_cwd proc1) 2 ?h = (Some 1, snd r)" using r1(1) unfolding r_def by (metis prod.collapse)
    show "cross_down 1 (snd r) = (1, snd r)" using r1(2) by (simp add: cross_down_def)
    show "S_ISLNK (vmode (vnodes (snd r) 1))" unfolding r1(3) by code_simp
  qed
  have l: "op_lookup (ops_of link_vfs (p_cwd proc1)) (vnodes ?h (p_cwd proc1)) ''l'' (mdata (mp_of link_vfs (p_cwd proc1))) = 2"
    by (simp add: proc1_def link_vfs_def vfs1_def link_fs_def VNODE_HOLD_def)
  have "vnode_get (''l'' @ CHR ''/'' # ''x'') proc1 True link_vfs = vnode_get ''l'' proc1 True link_vfs"
    by (rule symlink_drops_rest[OF _ _ _ _ l _ c]) (simp_all add: NUL_def)
  moreover have "case vnode_get ''l/x'' proc1 True link_vfs of (Inl _, s) \<Rightarrow> False | (Inr v, s) \<Rightarrow> ino (vnodes s v) = 3" by code_simp
  ultimately show ?thesis by simp
qed

end
