(* ===== verification/Paging.thy ===== *)
theory Paging
  imports Phys
begin

text \<open>
  The page tables of \<^verbatim>\<open>arch/x86/page_32.c\<close> (two levels, without PAE) and the constants of \<^verbatim>\<open>arch/page.h\<close>.
  Directories and tables are frames of low memory, which the kernel reaches through the fixed mapping
  \<^verbatim>\<open>KERNEL_PHYS2VIRT\<close>; the model names them by their physical address, and \<open>ptables\<close> has the 1024 entries of
  each. The kernel's own directory is a static array (\<open>kernel_dir\<close>), meant by a \<^verbatim>\<open>NULL\<close> pointer. The frames come
  from the bitmap of \<open>Phys\<close>. The entries of the fixed mapping itself (4 MB pages, from \<^verbatim>\<open>LOWMEM_START\<close> to
  \<^verbatim>\<open>KHEAP_START\<close>) are made by the boot code and are not looked into. The translation caches are flushed by every
  change, so they do not appear.
\<close>

section \<open>Entries and addresses\<close>

definition USERMEM_START :: u32 where "USERMEM_START = 0x00400000"
definition LOWMEM_START :: u32 where "LOWMEM_START = 0xC0000000"
definition KHEAP_START :: u32 where "KHEAP_START = 0xE0000000"
definition USERMEM_SIZE :: u32 where "USERMEM_SIZE = LOWMEM_START - USERMEM_START"

definition PG_FLAG_PRESENT :: u32 where "PG_FLAG_PRESENT = 1"
definition PG_FLAG_RW :: u32 where "PG_FLAG_RW = 2"
definition PG_FLAG_USER :: u32 where "PG_FLAG_USER = 4"
definition PG_ADDR_MASK :: u32 where "PG_ADDR_MASK = 0xFFFFF000"

definition PGDIR_ENTRY :: "u32 \<Rightarrow> nat" where "PGDIR_ENTRY x = unat (drop_bit 22 x)"
definition PGTAB_ENTRY :: "u32 \<Rightarrow> nat" where "PGTAB_ENTRY x = unat (drop_bit 12 x AND 0x3FF)"

record paging =
  pframes :: phys
  ptables :: "nat \<Rightarrow> nat \<Rightarrow> u32"
  kernel_dir :: nat

abbreviation set_entry :: "nat \<Rightarrow> nat \<Rightarrow> u32 \<Rightarrow> paging \<Rightarrow> paging" where
  "set_entry t i e s \<equiv> s\<lparr>ptables := (ptables s)(t := (ptables s t)(i := e))\<rparr>"

abbreviation pg_present :: "u32 \<Rightarrow> bool" where
  "pg_present e \<equiv> e AND PG_FLAG_PRESENT = PG_FLAG_PRESENT"

definition table_of :: "u32 \<Rightarrow> nat" where
  "table_of e = unat (e AND PG_ADDR_MASK)"

definition dir_of :: "nat option \<Rightarrow> paging \<Rightarrow> nat" where
  "dir_of p s = (case p of None \<Rightarrow> kernel_dir s | Some d \<Rightarrow> d)"

section \<open>Operations\<close>

text \<open>A frame for a directory or a table, and the clearing of a table.\<close>

definition pt_alloc :: "paging \<Rightarrow> nat \<times> paging" where
  "pt_alloc s = (let (f, ph) = phys_alloc1 PHYS_KERNEL (pframes s) in (f, s\<lparr>pframes := ph\<rparr>))"

definition pt_clear :: "nat \<Rightarrow> paging \<Rightarrow> paging" where
  "pt_clear t s = s\<lparr>ptables := (ptables s)(t := (\<lambda>_. 0))\<rparr>"

definition paging_setup :: "paging \<Rightarrow> paging" where
  "paging_setup s =
     fold (\<lambda>i s. let (t, s) = pt_alloc s; s = pt_clear t s
                  in set_entry (kernel_dir s) i (of_nat t OR PG_FLAG_PRESENT OR PG_FLAG_RW) s)
       [PGDIR_ENTRY KHEAP_START..<1024] s"

definition paging_map_page :: "u32 \<Rightarrow> u32 \<Rightarrow> u32 \<Rightarrow> nat option \<Rightarrow> paging \<Rightarrow> int \<times> paging" where
  "paging_map_page virt phys_addr att dptr s =
     (let dir = dir_of dptr s;
          enter = (\<lambda>s. (0, set_entry (table_of (ptables s dir (PGDIR_ENTRY virt))) (PGTAB_ENTRY virt) (phys_addr OR att) s))
      in if \<not> pg_present (ptables s dir (PGDIR_ENTRY virt)) then
           let (t, s) = pt_alloc s
           in if t = 0 then (-1, s)
              else enter (set_entry dir (PGDIR_ENTRY virt) (of_nat t OR PG_FLAG_USER OR PG_FLAG_RW OR PG_FLAG_PRESENT)
                     (pt_clear t s))
         else enter s)"

definition paging_unmap_page :: "u32 \<Rightarrow> nat option \<Rightarrow> paging \<Rightarrow> int \<times> paging" where
  "paging_unmap_page virt dptr s =
     (let dir = dir_of dptr s
      in if \<not> pg_present (ptables s dir (PGDIR_ENTRY virt)) then (-1, s)
         else (0, set_entry (table_of (ptables s dir (PGDIR_ENTRY virt))) (PGTAB_ENTRY virt) 0 s))"

definition paging_create_aspace :: "paging \<Rightarrow> nat option \<times> paging" where
  "paging_create_aspace s =
     (let (d, s) = pt_alloc s
      in if d = 0 then (None, s) else (Some d, s\<lparr>ptables := (ptables s)(d := ptables s (kernel_dir s))\<rparr>))"

text \<open>The tables of the user half are given back; the frame of the directory itself is not.\<close>

definition paging_destroy_aspace :: "nat \<Rightarrow> paging \<Rightarrow> paging" where
  "paging_destroy_aspace dir s =
     s\<lparr>pframes := fold (\<lambda>i ph. if ptables s dir i AND PG_FLAG_PRESENT \<noteq> 0
                                  then phys_free ph (ptables s dir i AND PG_ADDR_MASK) 1 else ph)
                   [0..<PGDIR_ENTRY LOWMEM_START] (pframes s)\<rparr>"

section \<open>Translation\<close>

text \<open>
  The entry for an address, zero when there is no table, and what the processor makes of it: an access
  from user mode needs the user flag, a write the write flag (\<^verbatim>\<open>CR0.WP\<close> is set, so the kernel's writes too), on both
  levels.
\<close>

definition pte :: "paging \<Rightarrow> nat \<Rightarrow> u32 \<Rightarrow> u32" where
  "pte s d v = (let e = ptables s d (PGDIR_ENTRY v) in if pg_present e then ptables s (table_of e) (PGTAB_ENTRY v) else 0)"

definition mmu :: "paging \<Rightarrow> nat \<Rightarrow> u32 \<Rightarrow> bool \<Rightarrow> bool \<Rightarrow> nat option" where
  "mmu s d v user rw =
     (let e = ptables s d (PGDIR_ENTRY v); p = pte s d v
      in if pg_present e \<and> pg_present p \<and> (user \<longrightarrow> e AND PG_FLAG_USER \<noteq> 0 \<and> p AND PG_FLAG_USER \<noteq> 0) \<and>
            (rw \<longrightarrow> e AND PG_FLAG_RW \<noteq> 0 \<and> p AND PG_FLAG_RW \<noteq> 0)
         then Some (table_of p) else None)"

section \<open>Addresses\<close>

lemma PGDIR_ENTRY_alt: "PGDIR_ENTRY v = unat v div 2 ^ 22"
  by (simp add: PGDIR_ENTRY_def drop_bit_eq_div unat_div_distrib)

lemma PGTAB_ENTRY_alt: "PGTAB_ENTRY v = unat v div 2 ^ 12 mod 2 ^ 10"
proof -
  have "drop_bit 12 v AND 0x3FF = take_bit 10 (drop_bit 12 v)" by (simp add: take_bit_eq_mask mask_eq_exp_minus_1)
  then show ?thesis
    by (simp add: PGTAB_ENTRY_def take_bit_eq_mod drop_bit_eq_div unat_div_distrib unat_mod_distrib)
qed

lemma PGDIR_ENTRY_less [simp]: "PGDIR_ENTRY v < 1024" "PGTAB_ENTRY v < 1024"
proof -
  have "unat v < 2 ^ LENGTH(32)" by (rule unsigned_less)
  then have "unat v < 2 ^ 22 * 1024" by simp
  then show "PGDIR_ENTRY v < 1024" by (simp only: PGDIR_ENTRY_alt less_mult_imp_div_less mult.commute)
qed (simp add: PGTAB_ENTRY_alt)

definition user_addr :: "u32 \<Rightarrow> bool" where "user_addr v \<longleftrightarrow> v < LOWMEM_START"
definition kernel_addr :: "u32 \<Rightarrow> bool" where "kernel_addr v \<longleftrightarrow> v \<ge> KHEAP_START"
definition page_no :: "u32 \<Rightarrow> nat" where "page_no v = unat v div PAGE_SIZE"

lemma PGDIR_user: "PGDIR_ENTRY v < 768 \<longleftrightarrow> user_addr v" "PGDIR_ENTRY v \<ge> 896 \<longleftrightarrow> kernel_addr v"
  by (auto simp: user_addr_def kernel_addr_def LOWMEM_START_def KHEAP_START_def PGDIR_ENTRY_alt word_less_nat_alt
      word_le_nat_alt div_less_iff_less_mult less_eq_div_iff_mult_less_eq)

lemma PGDIR_LOWMEM [simp]: "PGDIR_ENTRY LOWMEM_START = 768" "PGDIR_ENTRY KHEAP_START = 896"
  by (simp_all add: PGDIR_ENTRY_alt LOWMEM_START_def KHEAP_START_def)

lemma page_no_iff: "page_no u = page_no v \<longleftrightarrow> PGDIR_ENTRY u = PGDIR_ENTRY v \<and> PGTAB_ENTRY u = PGTAB_ENTRY v"
proof -
  have "page_no x = PGDIR_ENTRY x * 2 ^ 10 + PGTAB_ENTRY x" for x
    by (simp add: page_no_def PGDIR_ENTRY_alt PGTAB_ENTRY_alt div_mult2_eq[of "unat x" "2 ^ 12" "2 ^ 10", simplified])
  moreover have "PGTAB_ENTRY x < 2 ^ 10" for x by (simp add: PGTAB_ENTRY_alt)
  then have "page_no x = page_no y \<Longrightarrow> PGDIR_ENTRY x = PGDIR_ENTRY y \<and> PGTAB_ENTRY x = PGTAB_ENTRY y"
    if "\<And>x. page_no x = PGDIR_ENTRY x * 2 ^ 10 + PGTAB_ENTRY x" for x y
    unfolding that by (metis div_mult_self3 mod_mult_self3 div_less mod_less add_0 add.commute power_not_zero zero_neq_numeral)
  ultimately show ?thesis by metis
qed

lemma table_of_entry:
  assumes "4096 dvd t" "t < 2 ^ 32" "fl AND NOT (mask 12) = 0"
  shows "table_of (of_nat t OR fl) = t"
proof -
  have m: "PG_ADDR_MASK = NOT (mask 12)" by (simp add: PG_ADDR_MASK_def mask_eq_exp_minus_1)
  have u: "unat (of_nat t :: u32) = t" using assms(2) by (simp add: take_bit_nat_eq_self unsigned_of_nat)
  have "take_bit 12 (of_nat t :: u32) = 0"
    using assms(1) by (auto simp: take_bit_eq_mod word_arith_nat_mod u elim!: dvdE)
  then have "(of_nat t :: u32) AND NOT (mask 12) = of_nat t"
    by (simp add: take_bit_eq_mask bit_eq_iff bit_simps) blast
  with assms(3) show ?thesis by (simp add: table_of_def m bit.conj_disj_distrib2 u)
qed

section \<open>Well-formed page tables\<close>

text \<open>
  \<open>ds\<close> are the directories of the address spaces. A slot is a directory entry that owns a table: the entries
  of the user half in each directory, and the kernel's from \<^verbatim>\<open>KHEAP_START\<close> on, which all directories share.
\<close>

definition pt_slots :: "nat set \<Rightarrow> paging \<Rightarrow> (nat \<times> nat) set" where
  "pt_slots ds s = {(d, i). d \<in> ds \<and> i < 768 \<and> pg_present (ptables s d i)} \<union> {kernel_dir s} \<times> {896..<1024}"

definition slot_table :: "paging \<Rightarrow> nat \<times> nat \<Rightarrow> nat" where
  "slot_table s x = table_of (ptables s (fst x) (snd x))"

definition pt_frames :: "nat set \<Rightarrow> paging \<Rightarrow> nat set" where
  "pt_frames ds s = insert (kernel_dir s) ds \<union> slot_table s ` pt_slots ds s"

definition pt_ok :: "nat set \<Rightarrow> paging \<Rightarrow> bool" where
  "pt_ok ds s \<longleftrightarrow> phys_wf (pframes s) \<and> kernel_dir s \<notin> ds \<and> 0 \<notin> pt_frames ds s \<and>
     (\<forall>f \<in> pt_frames ds s. frame_addr_used (pframes s) f) \<and>
     inj_on (slot_table s) (pt_slots ds s) \<and> slot_table s ` pt_slots ds s \<inter> insert (kernel_dir s) ds = {} \<and>
     (\<forall>i < 768. \<not> pg_present (ptables s (kernel_dir s) i)) \<and>
     (\<forall>i \<in> {896..<1024}. pg_present (ptables s (kernel_dir s) i) \<and> ptables s (kernel_dir s) i AND PG_FLAG_RW \<noteq> 0) \<and>
     (\<forall>d \<in> ds. \<forall>i \<in> {768..<1024}. ptables s d i = ptables s (kernel_dir s) i) \<and>
     (\<forall>d \<in> ds. \<forall>i < 768. pg_present (ptables s d i) \<longrightarrow>
        ptables s d i AND PG_FLAG_USER \<noteq> 0 \<and> ptables s d i AND PG_FLAG_RW \<noteq> 0)"

lemma pt_okD:
  assumes "pt_ok ds s"
  shows "phys_wf (pframes s)" "kernel_dir s \<notin> ds" "0 \<notin> pt_frames ds s" "f \<in> pt_frames ds s \<Longrightarrow> frame_addr_used (pframes s) f"
    "inj_on (slot_table s) (pt_slots ds s)" "slot_table s ` pt_slots ds s \<inter> insert (kernel_dir s) ds = {}"
    "i < 768 \<Longrightarrow> \<not> pg_present (ptables s (kernel_dir s) i)"
    "i \<in> {896..<1024} \<Longrightarrow> pg_present (ptables s (kernel_dir s) i)"
    "i \<in> {896..<1024} \<Longrightarrow> ptables s (kernel_dir s) i AND PG_FLAG_RW \<noteq> 0"
    "d \<in> ds \<Longrightarrow> i \<in> {768..<1024} \<Longrightarrow> ptables s d i = ptables s (kernel_dir s) i"
    "d \<in> ds \<Longrightarrow> i < 768 \<Longrightarrow> pg_present (ptables s d i) \<Longrightarrow> ptables s d i AND PG_FLAG_USER \<noteq> 0 \<and> ptables s d i AND PG_FLAG_RW \<noteq> 0"
  using assms unfolding pt_ok_def by blast+

lemma pt_okI:
  assumes "phys_wf (pframes s)" "kernel_dir s \<notin> ds" "0 \<notin> pt_frames ds s" "\<And>f. f \<in> pt_frames ds s \<Longrightarrow> frame_addr_used (pframes s) f"
    "inj_on (slot_table s) (pt_slots ds s)" "slot_table s ` pt_slots ds s \<inter> insert (kernel_dir s) ds = {}"
    "\<And>i. i < 768 \<Longrightarrow> \<not> pg_present (ptables s (kernel_dir s) i)"
    "\<And>i. i \<in> {896..<1024} \<Longrightarrow> pg_present (ptables s (kernel_dir s) i) \<and> ptables s (kernel_dir s) i AND PG_FLAG_RW \<noteq> 0"
    "\<And>d i. d \<in> ds \<Longrightarrow> i \<in> {768..<1024} \<Longrightarrow> ptables s d i = ptables s (kernel_dir s) i"
    "\<And>d i. d \<in> ds \<Longrightarrow> i < 768 \<Longrightarrow> pg_present (ptables s d i) \<Longrightarrow>
       ptables s d i AND PG_FLAG_USER \<noteq> 0 \<and> ptables s d i AND PG_FLAG_RW \<noteq> 0"
  shows "pt_ok ds s"
  unfolding pt_ok_def by (intro conjI ballI allI impI) (simp_all only: assms not_False_eq_True)

text \<open>The slot whose table has the entry of an address.\<close>

definition slot_of :: "paging \<Rightarrow> nat \<Rightarrow> u32 \<Rightarrow> nat \<times> nat" where
  "slot_of s d v = (if user_addr v then d else kernel_dir s, PGDIR_ENTRY v)"

lemma slot_of_entry:
  assumes "pt_ok ds s" "d \<in> insert (kernel_dir s) ds" "user_addr v \<or> kernel_addr v"
  shows "ptables s d (PGDIR_ENTRY v) = ptables s (fst (slot_of s d v)) (snd (slot_of s d v))"
    "pg_present (ptables s d (PGDIR_ENTRY v)) \<longleftrightarrow> slot_of s d v \<in> pt_slots ds s"
proof -
  show e: "ptables s d (PGDIR_ENTRY v) = ptables s (fst (slot_of s d v)) (snd (slot_of s d v))"
    using pt_okD(10)[OF assms(1), of d "PGDIR_ENTRY v"] assms(2,3) PGDIR_user[of v] by (auto simp: slot_of_def)
  show "pg_present (ptables s d (PGDIR_ENTRY v)) \<longleftrightarrow> slot_of s d v \<in> pt_slots ds s"
    unfolding e using pt_okD(2,7,8)[OF assms(1)] assms(2,3) PGDIR_user[of v] by (auto simp: slot_of_def pt_slots_def)
qed

lemma pte_slot:
  assumes "pt_ok ds s" "d \<in> insert (kernel_dir s) ds" "user_addr v \<or> kernel_addr v"
  shows "pte s d v = (if slot_of s d v \<in> pt_slots ds s then ptables s (slot_table s (slot_of s d v)) (PGTAB_ENTRY v) else 0)"
  unfolding pte_def Let_def slot_table_def slot_of_entry(1)[OF assms, symmetric] by (simp only: slot_of_entry(2)[OF assms])

text \<open>Changing one entry of a table that a slot owns.\<close>

lemma set_pte:
  fixes j :: nat and e :: u32
  assumes ok: "pt_ok ds s" and x: "x \<in> pt_slots ds s"
  defines "s' \<equiv> set_entry (slot_table s x) j e s"
  shows "pt_ok ds s'" "pt_frames ds s' = pt_frames ds s" "pt_slots ds s' = pt_slots ds s"
    "\<And>d v. d \<in> insert (kernel_dir s) ds \<Longrightarrow> user_addr v \<or> kernel_addr v \<Longrightarrow>
       pte s' d v = (if slot_of s d v = x \<and> PGTAB_ENTRY v = j then e else pte s d v)"
proof -
  have t: "slot_table s x \<notin> insert (kernel_dir s) ds" using pt_okD(6)[OF ok] x by blast
  have d: "ptables s' d = ptables s d" if "d \<in> insert (kernel_dir s) ds" for d using t that by (auto simp: s'_def)
  have sl: "pt_slots ds s' = pt_slots ds s" using d by (auto simp: pt_slots_def s'_def)
  have st: "slot_table s' y = slot_table s y" if "y \<in> pt_slots ds s" for y
  proof -
    have "fst y \<in> insert (kernel_dir s) ds" using that by (auto simp: pt_slots_def)
    then show ?thesis using d by (simp add: slot_table_def)
  qed
  have k: "kernel_dir s' = kernel_dir s" "pframes s' = pframes s" by (simp_all add: s'_def)
  have fr: "pt_frames ds s' = pt_frames ds s" unfolding pt_frames_def sl k using st by (simp cong: image_cong)
  show ok': "pt_ok ds s'"
    using ok d st unfolding pt_ok_def sl fr k by (simp add: inj_on_def cong: image_cong)
  show "pt_frames ds s' = pt_frames ds s" "pt_slots ds s' = pt_slots ds s" using fr sl by auto
  fix c v assume c: "c \<in> insert (kernel_dir s) ds" "user_addr v \<or> kernel_addr v"
  have so: "slot_of s' c v = slot_of s c v" by (simp add: slot_of_def k)
  show "pte s' c v = (if slot_of s c v = x \<and> PGTAB_ENTRY v = j then e else pte s c v)"
  proof (cases "slot_of s c v \<in> pt_slots ds s")
    case True
    then have "slot_table s (slot_of s c v) = slot_table s x \<longleftrightarrow> slot_of s c v = x"
      using pt_okD(5)[OF ok] x by (auto simp: inj_on_def)
    then show ?thesis using True c unfolding pte_slot[OF ok c] pte_slot[OF ok' c[folded k]] so sl st[OF True]
      by (simp add: s'_def)
  next
    case False
    then show ?thesis using x unfolding pte_slot[OF ok c] pte_slot[OF ok' c[folded k]] so sl by auto
  qed
qed

text \<open>A frame taken for page tables is none of the frames they have.\<close>

abbreviation pf_used :: "paging \<Rightarrow> nat \<Rightarrow> bool" where
  "pf_used s \<equiv> frame_addr_used (pframes s)"

lemma pt_alloc_fresh:
  assumes "pt_ok ds s" "pt_alloc s = (t, s')"
  shows "ptables s' = ptables s" "kernel_dir s' = kernel_dir s" "phys_wf (pframes s')" "t = 0 \<Longrightarrow> s' = s"
    "t \<noteq> 0 \<Longrightarrow> \<not> pf_used s t" "t \<noteq> 0 \<Longrightarrow> pf_used s' a \<longleftrightarrow> pf_used s a \<or> a = t" "t \<noteq> 0 \<Longrightarrow> t \<notin> pt_frames ds s"
    "4096 dvd t" "t < 2 ^ 32"
proof -
  note wf = pt_okD(1)[OF assms(1)]
  obtain ph where a: "phys_alloc1 PHYS_KERNEL (pframes s) = (t, ph)" "s' = s\<lparr>pframes := ph\<rparr>"
    using assms(2) by (auto simp: pt_alloc_def split: prod.splits)
  show "ptables s' = ptables s" "kernel_dir s' = kernel_dir s" by (simp_all add: a(2))
  show "phys_wf (pframes s')" using pf.take_ok[OF wf, of PHYS_KERNEL] a by simp
  show "t = 0 \<Longrightarrow> s' = s" using pf.take_none[OF wf, of PHYS_KERNEL] a by simp
  show f: "t \<noteq> 0 \<Longrightarrow> \<not> pf_used s t" "t \<noteq> 0 \<Longrightarrow> pf_used s' a \<longleftrightarrow> pf_used s a \<or> a = t" for a
    using pf.take_fresh[OF wf, of PHYS_KERNEL] a by simp_all
  then show "t \<noteq> 0 \<Longrightarrow> t \<notin> pt_frames ds s" using pt_okD(4)[OF assms(1)] by blast
  have "alloc_post (pframes s) 1 t ph" using phys_alloc1_post[OF wf, of PHYS_KERNEL] a(1) by (metis fst_conv snd_conv)
  then have "t = 0 \<or> (\<exists>f < bitmap_items (pframes s). t = f * 4096)" using alloc_post_one by blast
  moreover have "bitmap_items (pframes s) \<le> 2 ^ 20" using wf by (simp add: phys_wf_def)
  ultimately show "4096 dvd t" "t < 2 ^ 32" by auto
qed

lemma table_flags: "(PG_FLAG_USER OR PG_FLAG_RW OR PG_FLAG_PRESENT) AND NOT (mask 12) = 0"
  "(PG_FLAG_PRESENT OR PG_FLAG_RW) AND NOT (mask 12) = 0"
  by (simp_all add: PG_FLAG_USER_def PG_FLAG_RW_def PG_FLAG_PRESENT_def mask_eq_exp_minus_1)

lemma flags_in:
  "pg_present (x OR PG_FLAG_USER OR PG_FLAG_RW OR PG_FLAG_PRESENT)"
  "(x OR PG_FLAG_USER OR PG_FLAG_RW OR PG_FLAG_PRESENT) AND PG_FLAG_USER \<noteq> 0"
  "(x OR PG_FLAG_USER OR PG_FLAG_RW OR PG_FLAG_PRESENT) AND PG_FLAG_RW \<noteq> 0"
proof -
  have b: "bit (4 :: u32) 2" "bit (2 :: u32) (Suc 0)" by (simp_all add: bit_numeral_rec)
  show "pg_present (x OR PG_FLAG_USER OR PG_FLAG_RW OR PG_FLAG_PRESENT)"
    by (simp add: PG_FLAG_PRESENT_def PG_FLAG_RW_def PG_FLAG_USER_def bit.conj_disj_distrib2)
  have "bit ((x OR PG_FLAG_USER OR PG_FLAG_RW OR PG_FLAG_PRESENT) AND PG_FLAG_USER) 2"
    "bit ((x OR PG_FLAG_USER OR PG_FLAG_RW OR PG_FLAG_PRESENT) AND PG_FLAG_RW) (Suc 0)"
    using b by (simp_all add: bit_simps PG_FLAG_USER_def PG_FLAG_RW_def)
  then show "(x OR PG_FLAG_USER OR PG_FLAG_RW OR PG_FLAG_PRESENT) AND PG_FLAG_USER \<noteq> 0"
    "(x OR PG_FLAG_USER OR PG_FLAG_RW OR PG_FLAG_PRESENT) AND PG_FLAG_RW \<noteq> 0" by (metis bit_0_eq bot_apply bot_bool_def)+
qed

lemma add_table:
  assumes ok: "pt_ok ds s" and d: "d \<in> ds" and i: "i < 768" and new: "\<not> pg_present (ptables s d i)"
    and al: "pt_alloc s = (t, s1)" "t \<noteq> 0"
  defines "s' \<equiv> set_entry d i (of_nat t OR PG_FLAG_USER OR PG_FLAG_RW OR PG_FLAG_PRESENT) (pt_clear t s1)"
  shows "pt_ok ds s'" "(d, i) \<in> pt_slots ds s'" "slot_table s' (d, i) = t" "pt_frames ds s' = insert t (pt_frames ds s)"
    "\<And>c v. c \<in> insert (kernel_dir s) ds \<Longrightarrow> user_addr v \<or> kernel_addr v \<Longrightarrow> pte s' c v = pte s c v"
proof -
  note f = pt_alloc_fresh[OF ok al(1)]
  define e where "e = (of_nat t OR PG_FLAG_USER OR PG_FLAG_RW OR PG_FLAG_PRESENT :: u32)"
  have nf: "t \<notin> pt_frames ds s" using f(7) al(2) by simp
  then have td: "t \<noteq> d" "t \<noteq> kernel_dir s" "t \<notin> ds" using d by (auto simp: pt_frames_def)
  have k: "kernel_dir s' = kernel_dir s" "pframes s' = pframes s1" using f by (simp_all add: s'_def pt_clear_def)
  have tab: "ptables s' c = (if c = d then (ptables s d)(i := e) else if c = t then (\<lambda>_. 0) else ptables s c)" for c
    using f(1) td by (simp add: s'_def pt_clear_def e_def)
  have te: "table_of e = t" unfolding e_def by (rule table_of_entry[OF f(8,9) table_flags(1)])
  have dk: "d \<noteq> kernel_dir s" using pt_okD(2)[OF ok] d by blast
  have sl: "pt_slots ds s' = insert (d, i) (pt_slots ds s)"
    using d i td dk flags_in(1)[of "of_nat t"] by (auto simp: pt_slots_def tab k e_def[symmetric] split: if_splits)
  have st: "slot_table s' y = slot_table s y" if "y \<in> pt_slots ds s" for y
    using that new td dk by (auto simp: slot_table_def pt_slots_def tab)
  show std: "slot_table s' (d, i) = t" by (simp add: slot_table_def tab te)
  show "(d, i) \<in> pt_slots ds s'" by (simp add: sl)
  have im: "slot_table s' ` pt_slots ds s' = insert t (slot_table s ` pt_slots ds s)" unfolding sl image_insert std using st by (simp cong: image_cong)
  show fr: "pt_frames ds s' = insert t (pt_frames ds s)" unfolding pt_frames_def im k by blast
  have "inj_on (slot_table s') (pt_slots ds s')"
  proof -
    have "inj_on (slot_table s') (pt_slots ds s)" using pt_okD(5)[OF ok] st by (simp add: inj_on_def)
    moreover have "t \<notin> slot_table s' ` (pt_slots ds s - {(d, i)})" using nf st by (auto simp: pt_frames_def)
    ultimately show ?thesis unfolding sl by (simp add: std)
  qed
  moreover have "slot_table s' ` pt_slots ds s' \<inter> insert (kernel_dir s) ds = {}" unfolding im using pt_okD(6)[OF ok] td by blast
  moreover have "frame_addr_used (pframes s1) x" if "x \<in> pt_frames ds s'" for x
    using that pt_okD(4)[OF ok] f(6)[OF al(2)] by (auto simp: fr)
  moreover have "ptables s' c j AND PG_FLAG_USER \<noteq> 0 \<and> ptables s' c j AND PG_FLAG_RW \<noteq> 0"
    if "c \<in> ds" "j < 768" "pg_present (ptables s' c j)" for c j
    using that pt_okD(11)[OF ok, of c j] td flags_in(2,3)[of "of_nat t"] by (auto simp: tab e_def[symmetric] split: if_splits)
  moreover have "ptables s' (kernel_dir s) = ptables s (kernel_dir s)" using dk td by (simp add: tab)
  moreover have "ptables s' c j = ptables s c j" if "c \<in> ds" "j \<ge> 768" for c j using that i td by (auto simp: tab)
  ultimately show ok': "pt_ok ds s'"
    using pt_okD(2,3,7-10)[OF ok] f(3) al(2) by (intro pt_okI) (simp_all add: k fr)
  fix c v assume c: "c \<in> insert (kernel_dir s) ds" "user_addr v \<or> kernel_addr v"
  have so: "slot_of s' c v = slot_of s c v" by (simp add: slot_of_def k)
  show "pte s' c v = pte s c v"
  proof (cases "slot_of s c v = (d, i)")
    case True
    then show ?thesis using new td unfolding pte_slot[OF ok c] pte_slot[OF ok' c[folded k(1)]] so sl by (simp add: std tab pt_slots_def dk)
  next
    case False
    have "ptables s' (slot_table s x) = ptables s (slot_table s x)" if "x \<in> pt_slots ds s" for x
      using that nf pt_okD(6)[OF ok] d by (auto simp: tab pt_frames_def)
    then show ?thesis using False st unfolding pte_slot[OF ok c] pte_slot[OF ok' c[folded k(1)]] so sl by simp
  qed
qed

text \<open>The address belongs to the directory: user addresses in an address space, kernel addresses in the kernel's.\<close>

definition mappable :: "nat set \<Rightarrow> paging \<Rightarrow> nat option \<Rightarrow> u32 \<Rightarrow> bool" where
  "mappable ds s p v \<longleftrightarrow> (case p of Some d \<Rightarrow> d \<in> ds \<and> user_addr v | None \<Rightarrow> kernel_addr v)"

definition hits :: "paging \<Rightarrow> nat option \<Rightarrow> u32 \<Rightarrow> nat \<Rightarrow> u32 \<Rightarrow> bool" where
  "hits s p v c w \<longleftrightarrow> page_no w = page_no v \<and> (case p of Some d \<Rightarrow> c = d | None \<Rightarrow> True)"

lemma hits_slot:
  assumes "pt_ok ds s" "mappable ds s p v" "user_addr w \<or> kernel_addr w"
  shows "hits s p v c w \<longleftrightarrow> slot_of s c w = (dir_of p s, PGDIR_ENTRY v) \<and> PGTAB_ENTRY w = PGTAB_ENTRY v"
proof -
  have u: "user_addr w \<longleftrightarrow> user_addr v" if "PGDIR_ENTRY w = PGDIR_ENTRY v" using that PGDIR_user(1) by metis
  have k: "kernel_addr x \<Longrightarrow> \<not> user_addr x" for x using PGDIR_user[of x] by linarith
  have "d \<noteq> kernel_dir s" if "p = Some d" for d using that assms(2) pt_okD(2)[OF assms(1)] by (auto simp: mappable_def)
  then show ?thesis using u k assms(2,3)
    by (auto simp: hits_def slot_of_def mappable_def dir_of_def page_no_iff split: option.splits)
qed

lemma mappable_dir:
  assumes "pt_ok ds s" "mappable ds s p v"
  shows "dir_of p s \<in> insert (kernel_dir s) ds"
    "pg_present (ptables s (dir_of p s) (PGDIR_ENTRY v)) \<longleftrightarrow> (dir_of p s, PGDIR_ENTRY v) \<in> pt_slots ds s"
proof -
  show a: "dir_of p s \<in> insert (kernel_dir s) ds" using assms(2) by (auto simp: mappable_def dir_of_def split: option.splits)
  have "user_addr v \<or> kernel_addr v" "slot_of s (dir_of p s) v = (dir_of p s, PGDIR_ENTRY v)"
    using assms(2) PGDIR_user[of v] by (auto simp: mappable_def slot_of_def dir_of_def split: option.splits)
  then show "pg_present (ptables s (dir_of p s) (PGDIR_ENTRY v)) \<longleftrightarrow> (dir_of p s, PGDIR_ENTRY v) \<in> pt_slots ds s"
    using slot_of_entry(2)[OF assms(1) a, of v] by simp
qed

lemma paging_map_page_ok:
  assumes ok: "pt_ok ds s" and m: "mappable ds s p v" and r: "paging_map_page v f att p s = (r, s')"
  shows "pt_ok ds s' \<and> kernel_dir s' = kernel_dir s \<and>
    (\<forall>a. pf_used s' a \<longleftrightarrow> pf_used s a \<or> a \<in> pt_frames ds s') \<and> (\<forall>a \<in> pt_frames ds s' - pt_frames ds s. \<not> pf_used s a) \<and>
    pt_frames ds s \<subseteq> pt_frames ds s' \<and>
    (r = -1 \<and> s' = s \<and> (\<exists>s1. pt_alloc s = (0, s1)) \<or>
     r = 0 \<and> (\<forall>c w. c \<in> insert (kernel_dir s) ds \<longrightarrow> user_addr w \<or> kernel_addr w \<longrightarrow>
               pte s' c w = (if hits s p v c w then f OR att else pte s c w)))"
proof -
  note md = mappable_dir[OF ok m]
  let ?i = "PGDIR_ENTRY v" and ?j = "PGTAB_ENTRY v" and ?d = "dir_of p s"
  show ?thesis
  proof (cases "pg_present (ptables s ?d ?i)")
    case True
    then have x: "(?d, ?i) \<in> pt_slots ds s" using md(2) by simp
    have "s' = set_entry (slot_table s (?d, ?i)) ?j (f OR att) s" "r = 0"
      using r True by (simp_all add: paging_map_page_def Let_def slot_table_def)
    then show ?thesis using set_pte[OF ok x, where j = ?j and e = "f OR att"] hits_slot[OF ok m] pt_okD(4)[OF ok] by auto
  next
    case False
    then obtain d where d: "p = Some d" "d \<in> ds" "user_addr v" "?d = d"
      using m pt_okD(8)[OF ok, of ?i] PGDIR_user(2)[of v] by (auto simp: mappable_def dir_of_def split: option.splits)
    obtain t s1 where al: "pt_alloc s = (t, s1)" by force
    note fr = pt_alloc_fresh[OF ok al]
    show ?thesis
    proof (cases "t = 0")
      case True
      then show ?thesis using r False al fr(4) ok pt_okD(4)[OF ok] by (auto simp: paging_map_page_def Let_def)
    next
      case nz: False
      define s2 where "s2 = set_entry d ?i (of_nat t OR PG_FLAG_USER OR PG_FLAG_RW OR PG_FLAG_PRESENT) (pt_clear t s1)"
      have i: "?i < 768" using d(3) PGDIR_user(1)[of v] by simp
      note ad = add_table[OF ok d(2) i False[unfolded d(4)] al nz, folded s2_def]
      have k: "kernel_dir s2 = kernel_dir s" "pframes s2 = pframes s1" using fr by (simp_all add: s2_def pt_clear_def)
      have "s' = set_entry (slot_table s2 (d, ?i)) ?j (f OR att) s2" "r = 0"
        using r False al nz by (simp_all add: paging_map_page_def Let_def slot_table_def s2_def d(1) dir_of_def)
      then show ?thesis
        using set_pte[OF ad(1,2), where j = ?j and e = "f OR att"] hits_slot[OF ok m] ad(4,5) fr(5,6) nz k d(4) pt_okD(4)[OF ok]
        by (auto simp: slot_of_def)
    qed
  qed
qed

lemma paging_unmap_page_ok:
  assumes ok: "pt_ok ds s" and m: "mappable ds s p v" and r: "paging_unmap_page v p s = (r, s')"
  shows "pt_ok ds s' \<and> kernel_dir s' = kernel_dir s \<and> pframes s' = pframes s \<and> pt_frames ds s' = pt_frames ds s \<and>
    (\<forall>c w. c \<in> insert (kernel_dir s) ds \<longrightarrow> user_addr w \<or> kernel_addr w \<longrightarrow>
       pte s' c w = (if hits s p v c w then 0 else pte s c w))"
proof -
  note md = mappable_dir[OF ok m]
  let ?i = "PGDIR_ENTRY v" and ?j = "PGTAB_ENTRY v" and ?d = "dir_of p s"
  show ?thesis
  proof (cases "pg_present (ptables s ?d ?i)")
    case True
    then have x: "(?d, ?i) \<in> pt_slots ds s" using md(2) by simp
    have "s' = set_entry (slot_table s (?d, ?i)) ?j 0 s" using r True by (simp add: paging_unmap_page_def Let_def slot_table_def)
    then show ?thesis using set_pte[OF ok x, where j = ?j and e = 0] hits_slot[OF ok m] by auto
  next
    case False
    then have "(?d, ?i) \<notin> pt_slots ds s" using md(2) by simp
    then have "pte s c w = 0" if "hits s p v c w" "c \<in> insert (kernel_dir s) ds" "user_addr w \<or> kernel_addr w" for c w
      using that hits_slot[OF ok m that(3)] by (auto simp: pte_slot[OF ok that(2,3)])
    then show ?thesis using r False ok by (auto simp: paging_unmap_page_def Let_def)
  qed
qed

lemma paging_create_ok:
  assumes ok: "pt_ok ds s" and r: "paging_create_aspace s = (Some d, s')"
  shows "d \<notin> ds" "d \<noteq> kernel_dir s" "\<not> pf_used s d" "kernel_dir s' = kernel_dir s" "pt_ok (insert d ds) s'"
    "pt_frames (insert d ds) s' = insert d (pt_frames ds s)" "pf_used s' a \<longleftrightarrow> pf_used s a \<or> a = d"
    "\<And>c v. c \<in> insert (kernel_dir s) (insert d ds) \<Longrightarrow> user_addr v \<or> kernel_addr v \<Longrightarrow>
       pte s' c v = (if c = d then if user_addr v then 0 else pte s (kernel_dir s) v else pte s c v)"
proof -
  obtain s1 where al: "pt_alloc s = (d, s1)" and nz: "d \<noteq> 0" and s': "s' = s1\<lparr>ptables := (ptables s1)(d := ptables s1 (kernel_dir s1))\<rparr>"
    using r by (auto simp: paging_create_aspace_def split: prod.splits if_splits)
  note f = pt_alloc_fresh[OF ok al]
  have nf: "d \<notin> pt_frames ds s" using f(7) nz by simp
  then show nd: "d \<notin> ds" "d \<noteq> kernel_dir s" by (auto simp: pt_frames_def)
  show "\<not> pf_used s d" using f(5) nz by simp
  show k: "kernel_dir s' = kernel_dir s" by (simp add: s' f)
  have tab: "ptables s' c = (if c = d then ptables s (kernel_dir s) else ptables s c)" for c by (simp add: s' f)
  have np: "\<not> pg_present (ptables s (kernel_dir s) i)" if "i < 768" for i using pt_okD(7)[OF ok that] .
  have sl: "pt_slots (insert d ds) s' = pt_slots ds s"
    using nd np by (auto simp: pt_slots_def tab k split: if_splits)
  have st: "slot_table s' y = slot_table s y" if "y \<in> pt_slots ds s" for y
    using that nd by (auto simp: slot_table_def pt_slots_def tab)
  then have im: "slot_table s' ` pt_slots (insert d ds) s' = slot_table s ` pt_slots ds s" unfolding sl by (simp cong: image_cong)
  show fr: "pt_frames (insert d ds) s' = insert d (pt_frames ds s)" unfolding pt_frames_def im k by blast
  show us: "pf_used s' a \<longleftrightarrow> pf_used s a \<or> a = d" for a using f(6)[OF nz] by (simp add: s')
  have a: "ptables s' (kernel_dir s) = ptables s (kernel_dir s)" using nd by (simp add: tab)
  show ok': "pt_ok (insert d ds) s'"
  proof (rule pt_okI, unfold im k fr a, unfold sl)
    show "slot_table s ` pt_slots ds s \<inter> insert (kernel_dir s) (insert d ds) = {}" using pt_okD(6)[OF ok] nf by (auto simp: pt_frames_def)
    show "inj_on (slot_table s') (pt_slots ds s)" using pt_okD(5)[OF ok] st by (simp add: inj_on_def)
    show "phys_wf (pframes s')" using f(3) by (simp add: s')
    show "0 \<notin> insert d (pt_frames ds s)" using pt_okD(3)[OF ok] nz by simp
    show "pf_used s' x" if "x \<in> insert d (pt_frames ds s)" for x using that us pt_okD(4)[OF ok] by blast
    show "ptables s' c i = ptables s (kernel_dir s) i" if "c \<in> insert d ds" "i \<in> {768..<1024}" for c i
      using that pt_okD(10)[OF ok, of c i] by (cases "c = d") (simp_all add: tab)
    show "ptables s' c i AND PG_FLAG_USER \<noteq> 0 \<and> ptables s' c i AND PG_FLAG_RW \<noteq> 0"
      if "c \<in> insert d ds" "i < 768" "pg_present (ptables s' c i)" for c i
      using that pt_okD(11)[OF ok, of c i] np[of i] by (cases "c = d") (simp_all add: tab)
    show "kernel_dir s \<notin> insert d ds" using pt_okD(2)[OF ok] nd by blast
  qed (use pt_okD(7-9)[OF ok] in simp_all)
  fix c v assume c: "c \<in> insert (kernel_dir s) (insert d ds)" "user_addr v \<or> kernel_addr v"
  have so: "slot_of s' c v = slot_of s c v" by (simp add: slot_of_def k)
  have dt: "d \<notin> slot_table s ` pt_slots ds s" using nf by (auto simp: pt_frames_def)
  have tt: "ptables s' (slot_table s x) = ptables s (slot_table s x)" if "x \<in> pt_slots ds s" for x using that dt by (auto simp: tab)
  note p' = pte_slot[OF ok' c[folded k], unfolded so sl]
  show "pte s' c v = (if c = d then if user_addr v then 0 else pte s (kernel_dir s) v else pte s c v)"
  proof (cases "c = d")
    case True
    then show ?thesis using nd np st tt unfolding p' pte_slot[OF ok insertI1 c(2)]
      by (auto simp: slot_of_def pt_slots_def)
  next
    case False
    then have "c \<in> insert (kernel_dir s) ds" using c(1) by blast
    then show ?thesis using False st tt unfolding p' by (simp add: pte_slot[OF ok _ c(2)])
  qed
qed

lemma free_tables:
  assumes "phys_wf ph" "distinct is" "inj_on (\<lambda>i. table_of (e i)) {i \<in> set is. e i AND PG_FLAG_PRESENT \<noteq> 0}"
    "\<forall>i \<in> set is. e i AND PG_FLAG_PRESENT \<noteq> 0 \<longrightarrow> frame_addr_used ph (table_of (e i))"
  defines "ph' \<equiv> fold (\<lambda>i ph. if e i AND PG_FLAG_PRESENT \<noteq> 0 then phys_free ph (e i AND PG_ADDR_MASK) 1 else ph) is ph"
  shows "phys_wf ph' \<and>
    (\<forall>a. frame_addr_used ph' a \<longleftrightarrow> frame_addr_used ph a \<and> a \<notin> (\<lambda>i. table_of (e i)) ` {i \<in> set is. e i AND PG_FLAG_PRESENT \<noteq> 0})"
  using assms(1-4) unfolding ph'_def
proof (induction "is" arbitrary: ph)
  case (Cons i "is")
  show ?case
  proof (cases "e i AND PG_FLAG_PRESENT \<noteq> 0")
    case True
    define p1 where "p1 = phys_free1 ph (table_of (e i))"
    have f: "phys_free ph (e i AND PG_ADDR_MASK) 1 = p1" by (simp add: p1_def phys_free1_def table_of_def)
    have wf: "phys_wf p1" using pf.give_ok[OF Cons.prems(1)] by (simp add: p1_def)
    have u: "frame_addr_used p1 a \<longleftrightarrow> frame_addr_used ph a \<and> a \<noteq> table_of (e i)" for a
      using pf.give_frees[OF Cons.prems(1), of "table_of (e i)"] Cons.prems(4) True by (simp add: p1_def)
    have ne: "table_of (e j) \<noteq> table_of (e i)" if "j \<in> set is" "e j AND PG_FLAG_PRESENT \<noteq> 0" for j
      using Cons.prems(2,3) that True by (auto simp: inj_on_def)
    have inj: "inj_on (\<lambda>i. table_of (e i)) {i \<in> set is. e i AND PG_FLAG_PRESENT \<noteq> 0}"
      using Cons.prems(3) by (rule inj_on_subset) auto
    show ?thesis using Cons.IH[OF wf _ inj] Cons.prems(2,4) u ne True by (auto simp: f)
  next
    case False
    then show ?thesis using Cons.IH[OF Cons.prems(1)] Cons.prems by (auto simp: inj_on_def)
  qed
qed simp

lemma paging_destroy_ok:
  assumes ok: "pt_ok ds s" and d: "d \<in> ds"
  defines "s' \<equiv> paging_destroy_aspace d s"
  shows "pt_ok (ds - {d}) s'" "ptables s' = ptables s" "kernel_dir s' = kernel_dir s"
    "pt_frames (ds - {d}) s' \<subseteq> pt_frames ds s"
    "pf_used s' a \<longleftrightarrow> pf_used s a \<and> (a \<in> pt_frames ds s \<longrightarrow> a \<in> insert d (pt_frames (ds - {d}) s'))"
proof -
  have pr: "e AND PG_FLAG_PRESENT \<noteq> 0 \<longleftrightarrow> pg_present e" for e
    by (simp add: PG_FLAG_PRESENT_def and_one_eq odd_iff_mod_2_eq_one)
  show t: "ptables s' = ptables s" and k: "kernel_dir s' = kernel_dir s" by (simp_all add: s'_def paging_destroy_aspace_def)
  let ?is = "[0..<768]"
  define T where "T = (\<lambda>i. table_of (ptables s d i)) ` {i \<in> set ?is. ptables s d i AND PG_FLAG_PRESENT \<noteq> 0}"
  have T: "T = slot_table s ` ({d} \<times> {i. i < 768 \<and> pg_present (ptables s d i)})"
    unfolding T_def pr by (force simp: slot_table_def)
  have sub: "{d} \<times> {i. i < 768 \<and> pg_present (ptables s d i)} \<subseteq> pt_slots ds s" using d by (auto simp: pt_slots_def)
  have dk: "d \<noteq> kernel_dir s" using pt_okD(2)[OF ok] d by blast
  have sl: "pt_slots (ds - {d}) s' = pt_slots ds s - {d} \<times> {i. i < 768 \<and> pg_present (ptables s d i)}"
    using dk by (auto simp: pt_slots_def t k)
  have sb: "pt_slots (ds - {d}) s' \<subseteq> pt_slots ds s" unfolding sl by blast
  have st: "slot_table s' = slot_table s" by (rule ext) (simp add: slot_table_def t)
  have im: "slot_table s ` pt_slots (ds - {d}) s' = slot_table s ` pt_slots ds s - T"
    unfolding sl T using inj_on_image_set_diff[OF pt_okD(5)[OF ok] Diff_subset sub] by blast
  have Td: "T \<inter> insert (kernel_dir s) ds = {}" unfolding T using pt_okD(6)[OF ok] sub by blast
  have fr: "pt_frames (ds - {d}) s' = pt_frames ds s - T - {d}"
    unfolding pt_frames_def st im k using Td dk pt_okD(6)[OF ok] d by blast
  then show "pt_frames (ds - {d}) s' \<subseteq> pt_frames ds s" by blast
  have e: "pframes s' = fold (\<lambda>i ph. if ptables s d i AND PG_FLAG_PRESENT \<noteq> 0
      then phys_free ph (ptables s d i AND PG_ADDR_MASK) 1 else ph) ?is (pframes s)"
    by (simp add: s'_def paging_destroy_aspace_def)
  have "phys_wf (pframes s') \<and> (\<forall>a. pf_used s' a \<longleftrightarrow> pf_used s a \<and> a \<notin> T)"
    unfolding e T_def
  proof (rule free_tables)
    show "phys_wf (pframes s)" using pt_okD(1)[OF ok] .
    show "inj_on (\<lambda>i. table_of (ptables s d i)) {i \<in> set ?is. ptables s d i AND PG_FLAG_PRESENT \<noteq> 0}"
      unfolding pr using inj_on_subset[OF pt_okD(5)[OF ok] sub] by (auto simp: inj_on_def slot_table_def)
    show "\<forall>i \<in> set ?is. ptables s d i AND PG_FLAG_PRESENT \<noteq> 0 \<longrightarrow> pf_used s (table_of (ptables s d i))"
    proof (intro ballI impI)
      fix i assume "i \<in> set ?is" "ptables s d i AND PG_FLAG_PRESENT \<noteq> 0"
      then have "(d, i) \<in> pt_slots ds s" using d by (simp add: pt_slots_def pr)
      then have "slot_table s (d, i) \<in> pt_frames ds s" by (simp add: pt_frames_def)
      then show "pf_used s (table_of (ptables s d i))" using pt_okD(4)[OF ok] by (simp add: slot_table_def)
    qed
  qed simp
  then have wf: "phys_wf (pframes s')" and us: "\<And>a. pf_used s' a \<longleftrightarrow> pf_used s a \<and> a \<notin> T" by auto
  show "pf_used s' a \<longleftrightarrow> pf_used s a \<and> (a \<in> pt_frames ds s \<longrightarrow> a \<in> insert d (pt_frames (ds - {d}) s'))"
    unfolding us fr using Td d T sub by (auto simp: pt_frames_def)
  have "inj_on (slot_table s') (pt_slots (ds - {d}) s')" unfolding st by (rule inj_on_subset[OF pt_okD(5)[OF ok] sb])
  then show "pt_ok (ds - {d}) s'"
    using pt_okD[OF ok] wf us by (intro pt_okI) (auto simp: t k fr st im)
qed

end
