(* ===== verification/Vm.thy ===== *)
theory Vm
  imports Paging Sma Vfs "HOL-Library.Monad_Syntax"
begin

text \<open>
  Virtual memory: address spaces (\<^verbatim>\<open>mm/vm_space.c\<close>), mappings and regions (\<^verbatim>\<open>mm/vm_mmap.c\<close>), page faults with copy on
  write (\<^verbatim>\<open>mm/vm_pagefault.c\<close>, \<^verbatim>\<open>mm/vm_getpage.c\<close>), anonymous and file pages (\<^verbatim>\<open>mm/vm_mmap_anon.c\<close>, \<^verbatim>\<open>mm/vm_mmap_vfs.c\<close>)
  and the temporary kernel mappings of \<^verbatim>\<open>mm/kmem.c\<close>. The objects that \<^verbatim>\<open>kalloc\<close> returns live in heaps indexed by
  pointer; \<^verbatim>\<open>kfree\<close> removes them, and \<open>None\<close> as the result of an operation is an access to an object that is not
  there, a kernel access to an address that is not mapped, or a loop that does not end. \<open>pmem\<close> has the bytes of
  the frames, and \<open>cr3\<close> the directory the processor translates with. The mutex of an address space is held during
  each operation; a region's mutex protects nothing (its locking is commented out).
\<close>

section \<open>State\<close>

record vm_page =
  pg_refs :: int
  pg_offset :: int
  pg_address :: nat

datatype vm_ops = Anon_ops | Vfs_ops

record vm_region =
  rg_refs :: int
  rg_ops :: vm_ops
  rg_pages :: "nat option list"
  rg_size :: u32
  rg_vnode :: "nat option"
  rg_offset :: int

text \<open>\<open>mp_block\<close> is the block as it was when it was mapped; a used block keeps its start and size.\<close>

record vm_mapping =
  mp_block :: sma_block
  mp_space :: nat
  mp_flags :: u16
  mp_region :: nat
  mp_offset :: int

record vm_space =
  sp_dir :: nat
  sp_area :: sma_area
  sp_refs :: int

record ('f, 'w) vm =
  pgt :: paging
  pmem :: "nat \<Rightarrow> nat \<Rightarrow> u8"
  cr3 :: nat
  cpu_space :: "nat option"
  kmem_area :: sma_area
  vpages :: "nat \<rightharpoonup> vm_page"
  vregions :: "nat \<rightharpoonup> vm_region"
  vmaps :: "nat \<rightharpoonup> vm_mapping"
  vspaces :: "nat \<rightharpoonup> vm_space"
  next_obj :: nat
  pagecache :: "nat \<Rightarrow> nat list"
  vmfs :: "('f, 'w) vfs"

definition PROT_NONE :: u16 where "PROT_NONE = 0x001"
definition PROT_READ :: u16 where "PROT_READ = 0x002"
definition PROT_WRITE :: u16 where "PROT_WRITE = 0x004"
definition PROT_EXEC :: u16 where "PROT_EXEC = 0x008"
definition MAP_SHARED :: u16 where "MAP_SHARED = 0x010"
definition MAP_FIXED :: u16 where "MAP_FIXED = 0x040"
definition MAP_ANONYMOUS :: u16 where "MAP_ANONYMOUS = 0x080"

abbreviation PAGE :: u32 where "PAGE \<equiv> 0x1000"

definition fresh_obj :: "('f, 'w) vm \<Rightarrow> nat \<times> ('f, 'w) vm" where
  "fresh_obj s = (next_obj s, s\<lparr>next_obj := next_obj s + 1\<rparr>)"

section \<open>Frames and the kernel's window\<close>

definition frame_alloc :: "u32 \<Rightarrow> ('f, 'w) vm \<Rightarrow> nat \<times> ('f, 'w) vm" where
  "frame_alloc flags s =
     (let (f, ph) = phys_alloc1 flags (pframes (pgt s)) in (f, s\<lparr>pgt := (pgt s)\<lparr>pframes := ph\<rparr>\<rparr>))"

definition frame_free :: "nat \<Rightarrow> ('f, 'w) vm \<Rightarrow> ('f, 'w) vm" where
  "frame_free f s = s\<lparr>pgt := (pgt s)\<lparr>pframes := phys_free (pframes (pgt s)) (of_nat f) 1\<rparr>\<rparr>"

definition map_page :: "u32 \<Rightarrow> nat \<Rightarrow> u32 \<Rightarrow> nat option \<Rightarrow> ('f, 'w) vm \<Rightarrow> int \<times> ('f, 'w) vm" where
  "map_page v f att d s = (let (r, p) = paging_map_page v (of_nat f) att d (pgt s) in (r, s\<lparr>pgt := p\<rparr>))"

definition unmap_page :: "u32 \<Rightarrow> nat option \<Rightarrow> ('f, 'w) vm \<Rightarrow> ('f, 'w) vm" where
  "unmap_page v d s = s\<lparr>pgt := snd (paging_unmap_page v d (pgt s))\<rparr>"

text \<open>The frame the kernel reaches at a page-aligned address, for reading or writing.\<close>

definition kframe :: "u32 \<Rightarrow> bool \<Rightarrow> ('f, 'w) vm \<Rightarrow> nat option" where
  "kframe v rw s = mmu (pgt s) (cr3 s) v False rw"

definition fill_page :: "u32 \<Rightarrow> (nat \<Rightarrow> u8 \<Rightarrow> u8) \<Rightarrow> ('f, 'w) vm \<Rightarrow> ('f, 'w) vm option" where
  "fill_page v g s = do { f \<leftarrow> kframe v True s; Some (s\<lparr>pmem := (pmem s)(f := (\<lambda>i. g i (pmem s f i)))\<rparr>) }"

definition kmem_map_page :: "nat \<Rightarrow> ('f, 'w) vm \<Rightarrow> u32 option \<times> ('f, 'w) vm" where
  "kmem_map_page f s =
     (case kmem_alloc (kmem_area s) PAGE of
        (None, a) \<Rightarrow> (None, s\<lparr>kmem_area := a\<rparr>)
      | (Some p, a) \<Rightarrow> (Some p, snd (map_page p f (PG_FLAG_RW OR PG_FLAG_PRESENT) None (s\<lparr>kmem_area := a\<rparr>))))"

definition kmem_unmap_page :: "u32 \<Rightarrow> ('f, 'w) vm \<Rightarrow> ('f, 'w) vm option" where
  "kmem_unmap_page p s = do { let s = unmap_page p None s; a \<leftarrow> kmem_free (kmem_area s) p PAGE; Some (s\<lparr>kmem_area := a\<rparr>) }"

section \<open>Pages and regions\<close>

text \<open>Giving up one reference to a page; the last one frees the frame and the page.\<close>

definition put_page :: "nat \<Rightarrow> ('f, 'w) vm \<Rightarrow> ('f, 'w) vm option" where
  "put_page p s = do {
     x \<leftarrow> vpages s p;
     let x = x\<lparr>pg_refs := pg_refs x - 1\<rparr>;
     Some (if pg_refs x = 0 then (frame_free (pg_address x) s)\<lparr>vpages := (vpages s)(p := None)\<rparr>
           else s\<lparr>vpages := (vpages s)(p \<mapsto> x)\<rparr>) }"

fun put_pages :: "nat option list \<Rightarrow> ('f, 'w) vm \<Rightarrow> ('f, 'w) vm option" where
  "put_pages [] s = Some s"
| "put_pages (None # ps) s = put_pages ps s"
| "put_pages (Some p # ps) s = do { s \<leftarrow> put_page p s; put_pages ps s }"

definition vm_destroy_region :: "nat \<Rightarrow> ('f, 'w) vm \<Rightarrow> ('f, 'w) vm option" where
  "vm_destroy_region r s = do {
     rg \<leftarrow> vregions s r;
     s \<leftarrow> put_pages (take (unat (rg_size rg) div PAGE_SIZE) (rg_pages rg)) s;
     let s = (case rg_vnode rg of None \<Rightarrow> s | Some v \<Rightarrow> s\<lparr>vmfs := VNODE_REL v (vmfs s)\<rparr>);
     Some (s\<lparr>vregions := (vregions s)(r := None)\<rparr>) }"

definition put_region :: "nat \<Rightarrow> ('f, 'w) vm \<Rightarrow> ('f, 'w) vm option" where
  "put_region r s = do {
     rg \<leftarrow> vregions s r;
     let rg = rg\<lparr>rg_refs := rg_refs rg - 1\<rparr>;
     let s = s\<lparr>vregions := (vregions s)(r \<mapsto> rg)\<rparr>;
     if rg_refs rg = 0 then vm_destroy_region r s else Some s }"

text \<open>\<^verbatim>\<open>vm_destroy\<close>, the callback of the allocator of address ranges.\<close>

definition vm_destroy :: "sma_block \<Rightarrow> ('f, 'w) vm \<Rightarrow> ('f, 'w) vm option" where
  "vm_destroy block s = do {
     m \<leftarrow> dataptr block;
     mp \<leftarrow> vmaps s m;
     sp \<leftarrow> vspaces s (mp_space mp);
     let s = fold (\<lambda>i. unmap_page (bstart block + of_nat i * PAGE) (Some (sp_dir sp))) [0..<unat (bsize block) div PAGE_SIZE] s;
     s \<leftarrow> put_region (mp_region mp) s;
     Some (s\<lparr>vmaps := (vmaps s)(m := None)\<rparr>) }"

section \<open>Address spaces\<close>

definition vm_space_create :: "('f, 'w) vm \<Rightarrow> nat option \<times> ('f, 'w) vm" where
  "vm_space_create s =
     (let (sp, s) = fresh_obj s; area = sma_area_create USERMEM_START USERMEM_SIZE; (d, p) = paging_create_aspace (pgt s); s = s\<lparr>pgt := p\<rparr>
      in case d of
           None \<Rightarrow> (None, s)
         | Some d \<Rightarrow> (Some sp, s\<lparr>vspaces := (vspaces s)(sp \<mapsto> \<lparr>sp_dir = d, sp_area = area, sp_refs = 1\<rparr>)\<rparr>))"

definition vm_space_switch :: "nat option \<Rightarrow> ('f, 'w) vm \<Rightarrow> ('f, 'w) vm option" where
  "vm_space_switch new s =
     (case new of
        None \<Rightarrow> Some (s\<lparr>cpu_space := None, cr3 := dir_of None (pgt s)\<rparr>)
      | Some sp \<Rightarrow> do { x \<leftarrow> vspaces s sp; Some (s\<lparr>cpu_space := Some sp, cr3 := sp_dir x\<rparr>) })"

definition vm_space_destroy :: "nat \<Rightarrow> ('f, 'w) vm \<Rightarrow> ('f, 'w) vm option" where
  "vm_space_destroy sp s = do {
     s \<leftarrow> (if cpu_space s = Some sp then vm_space_switch None s else Some s);
     x \<leftarrow> vspaces s sp;
     let x = x\<lparr>sp_refs := sp_refs x - 1\<rparr>;
     let s = s\<lparr>vspaces := (vspaces s)(sp \<mapsto> x)\<rparr>;
     if sp_refs x > 0 then Some s
     else do {
       s \<leftarrow> sma_area_destroy (Some (\<lambda>b w. Option.bind w (vm_destroy b))) (sp_area x) (Some s);
       let s = s\<lparr>pgt := paging_destroy_aspace (sp_dir x) (pgt s)\<rparr>;
       Some (s\<lparr>vspaces := (vspaces s)(sp := None)\<rparr>) } }"

text \<open>The block of an area that a mapping was put on gets its pointer.\<close>

definition set_dataptr :: "sma_block \<Rightarrow> nat \<Rightarrow> sma_area \<Rightarrow> sma_area" where
  "set_dataptr b m a = a\<lparr>used_list := list_set (b\<lparr>dataptr := Some m\<rparr>) (used_list a)\<rparr>"

section \<open>Mapping\<close>

definition vm_mmap :: "u32 \<Rightarrow> u32 \<Rightarrow> u16 \<Rightarrow> int \<Rightarrow> int \<Rightarrow> vproc \<Rightarrow> nat \<Rightarrow> ('f, 'w) vm \<Rightarrow> (int \<times> u32 option \<times> ('f, 'w) vm) option" where
  "vm_mmap start len flags fd off p sp s =
     (if start mod PAGE \<noteq> 0 \<or> len = 0 \<or> len mod PAGE \<noteq> 0 then Some (- errno_code EINVAL, None, s)
      else if flags AND PROT_NONE \<noteq> 0 \<and> flags AND (PROT_READ OR PROT_WRITE OR PROT_EXEC) \<noteq> 0 then Some (- errno_code EINVAL, None, s)
      else if flags AND MAP_ANONYMOUS \<noteq> MAP_ANONYMOUS \<and> slot_get (p_fds p) fd = None then Some (- errno_code EBADF, None, s)
      else do {
        vnode \<leftarrow> (if flags AND MAP_ANONYMOUS \<noteq> MAP_ANONYMOUS
                 then do { d \<leftarrow> slot_get (p_fds p) fd; fl \<leftarrow> files (vmfs s) (fdfile d); Some (fvnode fl) } else Some None);
        x \<leftarrow> vspaces s sp;
        case sma_alloc (sp_area x) start len (if flags AND MAP_FIXED \<noteq> 0 then SMA_ALLOC_FIXED else 0) of
          (None, area) \<Rightarrow> Some (- errno_code ENOMEM, None, s\<lparr>vspaces := (vspaces s)(sp \<mapsto> x\<lparr>sp_area := area\<rparr>)\<rparr>)
        | (Some block, area) \<Rightarrow>
            let (r, s) = fresh_obj s;
                (m, s) = fresh_obj s;
                s = (case vnode of None \<Rightarrow> s | Some v \<Rightarrow> s\<lparr>vmfs := VNODE_HOLD v (vmfs s)\<rparr>);
                s = s\<lparr>vregions := (vregions s)(r \<mapsto> \<lparr>rg_refs = 1, rg_ops = (if flags AND MAP_ANONYMOUS \<noteq> 0 then Anon_ops else Vfs_ops),
                        rg_pages = replicate (unat (bsize block) div PAGE_SIZE) None, rg_size = bsize block, rg_vnode = vnode,
                        rg_offset = off\<rparr>)\<rparr>;
                s = s\<lparr>vmaps := (vmaps s)(m \<mapsto> \<lparr>mp_block = block, mp_space = sp, mp_flags = flags, mp_region = r, mp_offset = 0\<rparr>)\<rparr>
            in Some (0, Some (bstart block), s\<lparr>vspaces := (vspaces s)(sp \<mapsto> x\<lparr>sp_area := set_dataptr block m area\<rparr>)\<rparr>) })"

definition vm_unmap :: "u32 \<Rightarrow> u32 \<Rightarrow> nat \<Rightarrow> int" where
  "vm_unmap start len sp = (if start mod PAGE \<noteq> 0 \<and> len mod PAGE \<noteq> 0 then - errno_code EINVAL else - errno_code ENOSYS)"

text \<open>\<^verbatim>\<open>vm_clone\<close> takes two references to every page of a private writable region, for the two regions that replace
  it.\<close>

definition hold_page :: "nat \<Rightarrow> int \<Rightarrow> ('f, 'w) vm \<Rightarrow> ('f, 'w) vm option" where
  "hold_page p n s = do { x \<leftarrow> vpages s p; Some (s\<lparr>vpages := (vpages s)(p \<mapsto> x\<lparr>pg_refs := pg_refs x + n\<rparr>)\<rparr>) }"

fun hold_pages :: "nat option list \<Rightarrow> ('f, 'w) vm \<Rightarrow> ('f, 'w) vm option" where
  "hold_pages [] s = Some s"
| "hold_pages (None # ps) s = hold_pages ps s"
| "hold_pages (Some p # ps) s = do { s \<leftarrow> hold_page p 2 s; hold_pages ps s }"

text \<open>The pages of a mapping from address \<open>v\<close> on become read-only.\<close>

fun protect_pages :: "u32 \<Rightarrow> nat option list \<Rightarrow> nat \<Rightarrow> ('f, 'w) vm \<Rightarrow> ('f, 'w) vm option" where
  "protect_pages v [] d s = Some s"
| "protect_pages v (None # ps) d s = protect_pages (v + PAGE) ps d s"
| "protect_pages v (Some p # ps) d s = do {
     x \<leftarrow> vpages s p;
     protect_pages (v + PAGE) ps d (snd (map_page v (pg_address x) (PG_FLAG_USER OR PG_FLAG_PRESENT) (Some d) s)) }"

definition vm_clone :: "nat \<Rightarrow> nat \<Rightarrow> nat \<Rightarrow> ('f, 'w) vm \<Rightarrow> (int \<times> ('f, 'w) vm) option" where
  "vm_clone m src dest s = do {
     mp \<leftarrow> vmaps s m;
     y \<leftarrow> vspaces s dest;
     let b0 = mp_block mp;
     case sma_alloc (sp_area y) (bstart b0) (bsize b0) SMA_ALLOC_FIXED of
       (None, area) \<Rightarrow> Some (- errno_code ENOMEM, s\<lparr>vspaces := (vspaces s)(dest \<mapsto> y\<lparr>sp_area := area\<rparr>)\<rparr>)
     | (Some block, area) \<Rightarrow> do {
         let (n, s) = fresh_obj s;
         let s = s\<lparr>vspaces := (vspaces s)(dest \<mapsto> y\<lparr>sp_area := set_dataptr block n area\<rparr>)\<rparr>;
         let np = \<lparr>mp_block = block, mp_space = dest, mp_flags = mp_flags mp, mp_region = mp_region mp, mp_offset = mp_offset mp\<rparr>;
         rg \<leftarrow> vregions s (mp_region mp);
         if mp_flags mp AND PROT_WRITE \<noteq> PROT_WRITE \<or> rg_vnode rg \<noteq> None \<and> mp_flags mp AND MAP_SHARED \<noteq> 0
         then Some (0, s\<lparr>vregions := (vregions s)(mp_region mp \<mapsto> rg\<lparr>rg_refs := rg_refs rg + 1\<rparr>), vmaps := (vmaps s)(n \<mapsto> np)\<rparr>)
         else do {
           let (r1, s) = fresh_obj s;
           let (r2, s) = fresh_obj s;
           let s = (case rg_vnode rg of None \<Rightarrow> s | Some v \<Rightarrow> s\<lparr>vmfs := VNODE_HOLD v (VNODE_HOLD v (vmfs s))\<rparr>);
           let s = s\<lparr>vregions := (vregions s)(r1 \<mapsto> rg\<lparr>rg_refs := 1\<rparr>, r2 \<mapsto> rg\<lparr>rg_refs := 1\<rparr>),
                     vmaps := (vmaps s)(m \<mapsto> mp\<lparr>mp_region := r1\<rparr>, n \<mapsto> np\<lparr>mp_region := r2\<rparr>)\<rparr>;
           s \<leftarrow> hold_pages (take (unat (rg_size rg) div PAGE_SIZE) (rg_pages rg)) s;
           x \<leftarrow> vspaces s src;
           s \<leftarrow> protect_pages (bstart b0) (take (unat (bsize b0) div PAGE_SIZE) (rg_pages rg)) (sp_dir x) s;
           s \<leftarrow> put_region (mp_region mp) s;
           Some (0, s) } } }"

text \<open>\<^verbatim>\<open>vm_space_clone\<close> goes through the used blocks of the source with \<^verbatim>\<open>sma_get_next_used\<close>; cloning a mapping does
  not change them, so this is the list of used blocks from the first on.\<close>

fun clone_blocks :: "sma_block list \<Rightarrow> nat \<Rightarrow> nat \<Rightarrow> ('f, 'w) vm \<Rightarrow> (int \<times> ('f, 'w) vm) option" where
  "clone_blocks [] src dest s = Some (0, s)"
| "clone_blocks (b # bs) src dest s = do {
     m \<leftarrow> dataptr b;
     (err, s) \<leftarrow> vm_clone m src dest s;
     if err \<noteq> 0 then Some (err, s) else clone_blocks bs src dest s }"

definition vm_space_clone :: "nat \<Rightarrow> nat \<Rightarrow> ('f, 'w) vm \<Rightarrow> (int \<times> ('f, 'w) vm) option" where
  "vm_space_clone dest src s = do { x \<leftarrow> vspaces s src; clone_blocks (used_list (sp_area x)) src dest s }"

section \<open>Page faults\<close>

definition new_page :: "int \<Rightarrow> nat \<Rightarrow> ('f, 'w) vm \<Rightarrow> nat \<times> ('f, 'w) vm" where
  "new_page off f s = (let (p, s) = fresh_obj s in (p, s\<lparr>vpages := (vpages s)(p \<mapsto> \<lparr>pg_refs = 1, pg_offset = off, pg_address = f\<rparr>)\<rparr>))"

text \<open>The directory of the address space the processor is in.\<close>

definition cpu_dir :: "('f, 'w) vm \<Rightarrow> nat option" where
  "cpu_dir s = do { sp \<leftarrow> cpu_space s; x \<leftarrow> vspaces s sp; Some (sp_dir x) }"

definition vm_copy_page :: "vm_mapping \<Rightarrow> nat \<Rightarrow> int \<Rightarrow> ('f, 'w) vm \<Rightarrow> (nat option \<times> ('f, 'w) vm) option" where
  "vm_copy_page mp old off s = do {
     x \<leftarrow> vpages s old;
     let (f, s) = frame_alloc (PHYS_KERNEL OR PHYS_ZONE_HIGH) s;
     if f = 0 then Some (None, s)
     else do {
       let (p, s) = new_page (pg_offset x) f s;
       let (buf, s) = kmem_map_page f s;
       buf \<leftarrow> buf;
       d \<leftarrow> cpu_dir s;
       let v = bstart (mp_block mp) + of_int off;
       let s = snd (map_page v (pg_address x) PG_FLAG_PRESENT (Some d) s);
       g \<leftarrow> kframe v False s;
       s \<leftarrow> fill_page buf (\<lambda>i _. pmem s g i) s;
       s \<leftarrow> kmem_unmap_page buf s;
       s \<leftarrow> put_page old s;
       Some (Some p, s) } }"

definition vm_mmap_anon_getpage :: "vm_mapping \<Rightarrow> int \<Rightarrow> ('f, 'w) vm \<Rightarrow> (nat option \<times> ('f, 'w) vm) option" where
  "vm_mmap_anon_getpage mp off s = do {
     let v = bstart (mp_block mp) + of_int (ROUND_DOWN off (int PAGE_SIZE));
     let (f, s) = frame_alloc (PHYS_KERNEL OR PHYS_ZONE_HIGH) s;
     d \<leftarrow> cpu_dir s;
     let (err, s) = map_page v f (PG_FLAG_RW OR PG_FLAG_PRESENT) (Some d) s;
     if err \<noteq> 0 then Some (None, frame_free f s)
     else do { s \<leftarrow> fill_page v (\<lambda>_ _. 0) s; let (p, s) = new_page 0 f s; Some (Some p, s) } }"

definition vm_mmap_vfs_getpage :: "vm_mapping \<Rightarrow> int \<Rightarrow> ('f, 'w) vm \<Rightarrow> (nat option \<times> ('f, 'w) vm) option" where
  "vm_mmap_vfs_getpage mp off s = do {
     let off = ROUND_DOWN off (int PAGE_SIZE);
     let v = bstart (mp_block mp) + of_int off;
     rg \<leftarrow> vregions s (mp_region mp);
     let (f, s) = frame_alloc (PHYS_KERNEL OR PHYS_ZONE_HIGH) s;
     d \<leftarrow> cpu_dir s;
     let (err, s) = map_page v f (PG_FLAG_RW OR PG_FLAG_PRESENT) (Some d) s;
     if err \<noteq> 0 then Some (None, frame_free f s)
     else do {
       vn \<leftarrow> rg_vnode rg;
       rd \<leftarrow> op_read (ops_of (vmfs s) vn);
       let (n, data) = rd (vnodes (vmfs s) vn) PAGE_SIZE (rg_offset rg + off) (mdata (mp_of (vmfs s) vn));
       if n < 0 then Some (None, frame_free f (unmap_page v (Some d) s))
       else do {
         s \<leftarrow> fill_page v (\<lambda>i old. if i < length data then data ! i else old) s;
         s \<leftarrow> fill_page v (\<lambda>i old. if nat n \<le> i then 0 else old) s;
         let (p, s) = new_page (rg_offset rg + off) f s;
         let s = (if mp_flags mp AND MAP_SHARED \<noteq> 0 then s\<lparr>pagecache := (pagecache s)(vn := p # pagecache s vn)\<rparr> else s);
         Some (Some p, s) } } }"

definition set_page :: "nat \<Rightarrow> nat \<Rightarrow> nat option \<Rightarrow> ('f, 'w) vm \<Rightarrow> ('f, 'w) vm option" where
  "set_page r i p s = do { rg \<leftarrow> vregions s r; Some (s\<lparr>vregions := (vregions s)(r \<mapsto> rg\<lparr>rg_pages := (rg_pages rg)[i := p]\<rparr>)\<rparr>) }"

definition vm_getpage :: "nat \<Rightarrow> int \<Rightarrow> bool \<Rightarrow> ('f, 'w) vm \<Rightarrow> (int \<times> ('f, 'w) vm) option" where
  "vm_getpage m off rw s = do {
     mp \<leftarrow> vmaps s m;
     rg \<leftarrow> vregions s (mp_region mp);
     let i = nat (off div int PAGE_SIZE);
     if mp_flags mp AND PROT_WRITE \<noteq> PROT_WRITE \<and> rw then Some (-1, s)
     else if off < 0 \<or> length (rg_pages rg) \<le> i then None
     else do {
       (page, att, s) \<leftarrow>
         (case rg_pages rg ! i of
            Some p \<Rightarrow>
              if mp_flags mp AND MAP_SHARED \<noteq> MAP_SHARED then
                if rw then do { (page, s) \<leftarrow> vm_copy_page mp p off s; s \<leftarrow> set_page (mp_region mp) i page s;
                     Some (page, PG_FLAG_USER OR PG_FLAG_RW OR PG_FLAG_PRESENT, s) }
                else Some (Some p, PG_FLAG_USER OR PG_FLAG_PRESENT, s)
              else do {
                (page, s) \<leftarrow> (case rg_ops rg of Anon_ops \<Rightarrow> vm_mmap_anon_getpage mp off s | Vfs_ops \<Rightarrow> vm_mmap_vfs_getpage mp off s);
                s \<leftarrow> set_page (mp_region mp) i page s;
                Some (page, PG_FLAG_USER OR PG_FLAG_RW OR PG_FLAG_PRESENT, s) }
          | None \<Rightarrow> do {
              (page, s) \<leftarrow> (case rg_ops rg of Anon_ops \<Rightarrow> vm_mmap_anon_getpage mp off s | Vfs_ops \<Rightarrow> vm_mmap_vfs_getpage mp off s);
              s \<leftarrow> set_page (mp_region mp) i page s;
              Some (page, PG_FLAG_USER OR PG_FLAG_RW OR PG_FLAG_PRESENT, s) });
       case page of
         None \<Rightarrow> Some (-1, s)
       | Some p \<Rightarrow> do {
           x \<leftarrow> vpages s p;
           d \<leftarrow> cpu_dir s;
           Some (0, snd (map_page (bstart (mp_block mp) + of_int off) (pg_address x) att (Some d) s)) } } }"

definition vm_pagefault :: "u32 \<Rightarrow> bool \<Rightarrow> ('f, 'w) vm \<Rightarrow> (int \<times> ('f, 'w) vm) option" where
  "vm_pagefault addr rw s =
     (case cpu_space s of
        None \<Rightarrow> Some (-1, s)
      | Some sp \<Rightarrow> do {
          x \<leftarrow> vspaces s sp;
          case sma_getblock (sp_area x) addr of
            None \<Rightarrow> Some (-2, s)
          | Some block \<Rightarrow>
              if bflags block AND SMA_FLAGS_USED \<noteq> SMA_FLAGS_USED then Some (-2, s)
              else do { m \<leftarrow> dataptr block; vm_getpage m (sint (ROUND_DOWN (addr - bstart block) PAGE)) rw s } })"

section \<open>User accesses\<close>

text \<open>
  A load or store in user mode. When the processor refuses the translation, the handler of \<^verbatim>\<open>arch/x86/exception.c\<close>
  calls \<open>vm_pagefault\<close>; a result of 0 restarts the instruction, any other is a panic (\<open>None\<close>).
\<close>

definition user_frame :: "u32 \<Rightarrow> bool \<Rightarrow> ('f, 'w) vm \<Rightarrow> (nat \<times> ('f, 'w) vm) option" where
  "user_frame v rw s =
     (case mmu (pgt s) (cr3 s) v True rw of
        Some f \<Rightarrow> Some (f, s)
      | None \<Rightarrow> do {
          (err, s) \<leftarrow> vm_pagefault v rw s;
          if err \<noteq> 0 then None else do { f \<leftarrow> mmu (pgt s) (cr3 s) v True rw; Some (f, s) } })"

definition page_off :: "u32 \<Rightarrow> nat" where "page_off v = unat v mod PAGE_SIZE"

definition user_load :: "u32 \<Rightarrow> ('f, 'w) vm \<Rightarrow> (u8 \<times> ('f, 'w) vm) option" where
  "user_load v s = do { (f, s) \<leftarrow> user_frame v False s; Some (pmem s f (page_off v), s) }"

definition user_store :: "u32 \<Rightarrow> u8 \<Rightarrow> ('f, 'w) vm \<Rightarrow> ('f, 'w) vm option" where
  "user_store v b s = do { (f, s) \<leftarrow> user_frame v True s; Some (s\<lparr>pmem := (pmem s)(f := (pmem s f)(page_off v := b))\<rparr>) }"

end
