(* ===== verification/VmInv.thy ===== *)
theory VmInv
  imports Vm
begin

text \<open>
  The invariant of virtual memory: the references to pages and regions are counted exactly, a live page has a
  frame of its own, and an entry of a page table that is present leads to the page its address space has there;
  it is writable only when nothing else refers to the page.
\<close>

section \<open>Frames\<close>

lemma pt_ok_frames:
  assumes "pt_ok ds s" "phys_wf ph" "\<And>f. f \<in> pt_frames ds s \<Longrightarrow> frame_addr_used ph f"
  shows "pt_ok ds (s\<lparr>pframes := ph\<rparr>)" "pt_frames ds (s\<lparr>pframes := ph\<rparr>) = pt_frames ds s" "pte (s\<lparr>pframes := ph\<rparr>) = pte s"
proof -
  have sl: "pt_slots ds (s\<lparr>pframes := ph\<rparr>) = pt_slots ds s" by (simp add: pt_slots_def)
  have st: "slot_table (s\<lparr>pframes := ph\<rparr>) = slot_table s" by (rule ext) (simp add: slot_table_def)
  show fr: "pt_frames ds (s\<lparr>pframes := ph\<rparr>) = pt_frames ds s" by (simp add: pt_frames_def sl st)
  show "pt_ok ds (s\<lparr>pframes := ph\<rparr>)" using assms unfolding pt_ok_def fr sl st by simp
  show "pte (s\<lparr>pframes := ph\<rparr>) = pte s" by (intro ext) (simp add: pte_def Let_def)
qed

text \<open>A translation in an address space reads one entry: the directories of the user half carry all permissions.\<close>

lemma mmu_user:
  assumes ok: "pt_ok ds s" and d: "d \<in> ds" and v: "user_addr v"
  shows "mmu s d v user rw =
     (if pg_present (pte s d v) \<and> (user \<longrightarrow> pte s d v AND PG_FLAG_USER \<noteq> 0) \<and> (rw \<longrightarrow> pte s d v AND PG_FLAG_RW \<noteq> 0)
      then Some (table_of (pte s d v)) else None)"
proof (cases "pg_present (ptables s d (PGDIR_ENTRY v))")
  case True
  then show ?thesis using pt_okD(11)[OF ok d _ True] v PGDIR_user(1)[of v] by (auto simp: mmu_def Let_def)
next
  case False
  then have "pte s d v = 0" by (simp add: pte_def)
  with False show ?thesis by (simp add: mmu_def PG_FLAG_PRESENT_def)
qed

lemma mmu_kernel:
  assumes ok: "pt_ok ds s" and d: "d \<in> insert (kernel_dir s) ds" and v: "kernel_addr v"
  shows "mmu s d v False rw =
     (if pg_present (pte s d v) \<and> (rw \<longrightarrow> pte s d v AND PG_FLAG_RW \<noteq> 0) then Some (table_of (pte s d v)) else None)"
proof -
  have i: "PGDIR_ENTRY v \<in> {896..<1024}" using v PGDIR_user(2)[of v] by simp
  then have e: "ptables s d (PGDIR_ENTRY v) = ptables s (kernel_dir s) (PGDIR_ENTRY v)" using d pt_okD(10)[OF ok, of d "PGDIR_ENTRY v"] by auto
  show ?thesis using pt_okD(8,9)[OF ok i] by (auto simp: mmu_def Let_def e)
qed

section \<open>Pages\<close>

text \<open>
  \<open>U\<close> says how many references to each page there are. Every live page has at least one, its counter is exact
  and its frame is in use, belongs to no page table and to no other page.
\<close>

definition dirs :: "('f, 'w) vm \<Rightarrow> nat set" where
  "dirs s = {d. \<exists>sp x. vspaces s sp = Some x \<and> sp_dir x = d}"

definition pages_ok :: "(nat \<Rightarrow> nat) \<Rightarrow> ('f, 'w) vm \<Rightarrow> bool" where
  "pages_ok U s \<longleftrightarrow> pt_ok (dirs s) (pgt s) \<and> frame_addr_used (pframes (pgt s)) 0 \<and>
     (\<forall>p. vpages s p = None \<longrightarrow> U p = 0) \<and>
     (\<forall>p x. vpages s p = Some x \<longrightarrow> 0 < U p \<and> pg_refs x = int (U p) \<and> pg_address x \<noteq> 0 \<and> p < next_obj s \<and>
        pf_used (pgt s) (pg_address x) \<and> pg_address x \<notin> pt_frames (dirs s) (pgt s)) \<and>
     (\<forall>p x q y. vpages s p = Some x \<and> vpages s q = Some y \<and> pg_address x = pg_address y \<longrightarrow> p = q)"

lemma pages_okD:
  assumes "pages_ok U s"
  shows "pt_ok (dirs s) (pgt s)" "frame_addr_used (pframes (pgt s)) 0" "vpages s p = None \<Longrightarrow> U p = 0"
    "vpages s p = Some x \<Longrightarrow> 0 < U p" "vpages s p = Some x \<Longrightarrow> pg_refs x = int (U p)" "vpages s p = Some x \<Longrightarrow> pg_address x \<noteq> 0"
    "vpages s p = Some x \<Longrightarrow> pf_used (pgt s) (pg_address x)" "vpages s p = Some x \<Longrightarrow> pg_address x \<notin> pt_frames (dirs s) (pgt s)"
    "vpages s p = Some x \<Longrightarrow> vpages s q = Some y \<Longrightarrow> pg_address x = pg_address y \<Longrightarrow> p = q"
    "vpages s p = Some x \<Longrightarrow> p < next_obj s"
  using assms unfolding pages_ok_def by blast+

lemma pages_okI:
  assumes "pt_ok (dirs s) (pgt s)" "frame_addr_used (pframes (pgt s)) 0" "\<And>p. vpages s p = None \<Longrightarrow> U p = 0"
    "\<And>p x. vpages s p = Some x \<Longrightarrow> 0 < U p \<and> pg_refs x = int (U p) \<and> pg_address x \<noteq> 0 \<and> p < next_obj s"
    "\<And>p x. vpages s p = Some x \<Longrightarrow> pf_used (pgt s) (pg_address x) \<and> pg_address x \<notin> pt_frames (dirs s) (pgt s)"
    "\<And>p x q y. vpages s p = Some x \<Longrightarrow> vpages s q = Some y \<Longrightarrow> pg_address x = pg_address y \<Longrightarrow> p = q"
  shows "pages_ok U s"
  unfolding pages_ok_def using assms by blast

lemma pages_ok_live: "pages_ok U s \<Longrightarrow> 0 < U p \<Longrightarrow> \<exists>x. vpages s p = Some x"
  using pages_okD(3)[of U s p] by (cases "vpages s p") auto

lemma frame_free_facts [simp]:
  "vpages (frame_free f s) = vpages s" "vspaces (frame_free f s) = vspaces s" "vregions (frame_free f s) = vregions s"
  "vmaps (frame_free f s) = vmaps s" "pmem (frame_free f s) = pmem s" "next_obj (frame_free f s) = next_obj s"
  "cr3 (frame_free f s) = cr3 s" "cpu_space (frame_free f s) = cpu_space s" "kmem_area (frame_free f s) = kmem_area s"
  by (simp_all add: frame_free_def)

lemma frame_free_ok:
  assumes "pt_ok ds (pgt s)" "pf_used (pgt s) f" "f \<notin> pt_frames ds (pgt s)"
  shows "pt_ok ds (pgt (frame_free f s))" "pt_frames ds (pgt (frame_free f s)) = pt_frames ds (pgt s)"
    "pte (pgt (frame_free f s)) = pte (pgt s)" "pf_used (pgt (frame_free f s)) a \<longleftrightarrow> pf_used (pgt s) a \<and> a \<noteq> f"
    "kernel_dir (pgt (frame_free f s)) = kernel_dir (pgt s)"
proof -
  have p: "frame_free f s = s\<lparr>pgt := (pgt s)\<lparr>pframes := phys_free1 (pframes (pgt s)) f\<rparr>\<rparr>" by (simp add: frame_free_def phys_free1_def)
  note wf = pt_okD(1)[OF assms(1)]
  have u: "frame_addr_used (phys_free1 (pframes (pgt s)) f) a \<longleftrightarrow> pf_used (pgt s) a \<and> a \<noteq> f" for a
    using pf.give_frees[OF wf assms(2)] by simp
  note k = pt_ok_frames[OF assms(1) pf.give_ok[OF wf, of f]]
  have "frame_addr_used (phys_free1 (pframes (pgt s)) f) g" if "g \<in> pt_frames ds (pgt s)" for g
    unfolding u using pt_okD(4)[OF assms(1) that] assms(3) that by auto
  from k[OF this] show "pt_ok ds (pgt (frame_free f s))" "pt_frames ds (pgt (frame_free f s)) = pt_frames ds (pgt s)"
    "pte (pgt (frame_free f s)) = pte (pgt s)" by (simp_all add: p)
  show "pf_used (pgt (frame_free f s)) a \<longleftrightarrow> pf_used (pgt s) a \<and> a \<noteq> f" by (simp add: p u)
  show "kernel_dir (pgt (frame_free f s)) = kernel_dir (pgt s)" by (simp add: p)
qed

text \<open>What an operation on pages leaves alone.\<close>

definition same_objs :: "('f, 'w) vm \<Rightarrow> ('f, 'w) vm \<Rightarrow> bool" where
  "same_objs s s' \<longleftrightarrow> vregions s' = vregions s \<and> vmaps s' = vmaps s \<and> vspaces s' = vspaces s \<and> cr3 s' = cr3 s \<and>
     cpu_space s' = cpu_space s \<and> kmem_area s' = kmem_area s \<and> kernel_dir (pgt s') = kernel_dir (pgt s)"

lemma same_objs_trans: "same_objs s t \<Longrightarrow> same_objs t u \<Longrightarrow> same_objs s u"
  by (simp add: same_objs_def)

definition paddr :: "('f, 'w) vm \<Rightarrow> nat \<Rightarrow> nat option" where
  "paddr s p = map_option pg_address (vpages s p)"

lemma put_page_ok:
  assumes ok: "pages_ok U s" and p: "0 < U p"
  shows "\<exists>s'. put_page p s = Some s' \<and> pages_ok (U(p := U p - 1)) s' \<and> same_objs s s' \<and> pmem s' = pmem s \<and>
    next_obj s' = next_obj s \<and> pte (pgt s') = pte (pgt s) \<and>
    (\<forall>q. 0 < (U(p := U p - 1)) q \<longrightarrow> paddr s' q = paddr s q)"
proof -
  obtain x where x: "vpages s p = Some x" using pages_ok_live[OF ok p] by blast
  have r: "pg_refs x = int (U p)" using pages_okD(5)[OF ok x] .
  show ?thesis
  proof (cases "U p = 1")
    case True
    define s' where "s' = (frame_free (pg_address x) s)\<lparr>vpages := (vpages s)(p := None)\<rparr>"
    have res: "put_page p s = Some s'" using x r True by (simp add: put_page_def s'_def Let_def)
    note ff = frame_free_ok[OF pages_okD(1)[OF ok] pages_okD(7,8)[OF ok x]]
    have ds: "dirs s' = dirs s" and pg: "pgt s' = pgt (frame_free (pg_address x) s)" by (simp_all add: s'_def dirs_def)
    have vp: "vpages s' = (vpages s)(p := None)" by (simp add: s'_def)
    have "pages_ok (U(p := U p - 1)) s'"
    proof (rule pages_okI; unfold ds pg ff vp)
      show "pt_ok (dirs s) (pgt (frame_free (pg_address x) s))" by (rule ff)
      show "pf_used (pgt s) 0 \<and> 0 \<noteq> pg_address x" using pages_okD(2)[OF ok] pages_okD(6)[OF ok x] by simp
      fix q y assume q: "((vpages s)(p := None)) q = Some y"
      then have qy: "vpages s q = Some y" "q \<noteq> p" by (auto split: if_splits)
      show "0 < (U(p := U p - 1)) q \<and> pg_refs y = int ((U(p := U p - 1)) q) \<and> pg_address y \<noteq> 0 \<and> q < next_obj s'"
        using pages_okD(4-6,10)[OF ok qy(1)] qy(2) by (simp add: s'_def)
      show "(pf_used (pgt s) (pg_address y) \<and> pg_address y \<noteq> pg_address x) \<and> pg_address y \<notin> pt_frames (dirs s) (pgt s)"
        using pages_okD(7,8)[OF ok qy(1)] pages_okD(9)[OF ok qy(1) x] qy(2) by auto
    qed (use pages_okD(3,9)[OF ok] True in \<open>auto split: if_splits\<close>)
    then show ?thesis using res ff(3,5) True by (auto simp: same_objs_def s'_def paddr_def)
  next
    case False
    define s' where "s' = s\<lparr>vpages := (vpages s)(p \<mapsto> x\<lparr>pg_refs := int (U p) - 1\<rparr>)\<rparr>"
    have res: "put_page p s = Some s'" using x r False p by (simp add: put_page_def s'_def Let_def)
    have ds: "dirs s' = dirs s" "pgt s' = pgt s" by (simp_all add: s'_def dirs_def)
    have "pages_ok (U(p := U p - 1)) s'"
    proof (rule pages_okI; (unfold ds)?)
      fix q y assume "vpages s' q = Some y"
      then obtain z where z: "vpages s q = Some z" "pg_address y = pg_address z" "q \<noteq> p \<Longrightarrow> y = z"
        "q = p \<Longrightarrow> pg_refs y = int (U p) - 1" using x by (auto simp: s'_def split: if_splits)
      show "0 < (U(p := U p - 1)) q \<and> pg_refs y = int ((U(p := U p - 1)) q) \<and> pg_address y \<noteq> 0 \<and> q < next_obj s'"
        using pages_okD(4-6,10)[OF ok z(1)] z(2-) False p by (cases "q = p") (simp_all add: s'_def)
      show "pf_used (pgt s) (pg_address y) \<and> pg_address y \<notin> pt_frames (dirs s) (pgt s)" using pages_okD(7,8)[OF ok z(1)] z(2) by simp
      fix q' y' assume "vpages s' q' = Some y'" "pg_address y = pg_address y'"
      then obtain z' where "vpages s q' = Some z'" "pg_address y' = pg_address z'" using x by (auto simp: s'_def split: if_splits)
      then show "q = q'" using pages_okD(9)[OF ok z(1)] z(2) \<open>pg_address y = pg_address y'\<close> by simp
    qed (use pages_okD(1-3)[OF ok] in \<open>auto simp: s'_def split: if_splits\<close>)
    then show ?thesis using res x by (auto simp: same_objs_def s'_def paddr_def)
  qed
qed

lemma put_pages_ok:
  assumes "pages_ok U s" "\<And>p. count_list ps (Some p) \<le> U p"
  shows "\<exists>s'. put_pages ps s = Some s' \<and> pages_ok (\<lambda>p. U p - count_list ps (Some p)) s' \<and> same_objs s s' \<and> pmem s' = pmem s \<and>
    next_obj s' = next_obj s \<and> pte (pgt s') = pte (pgt s) \<and> (\<forall>q. count_list ps (Some q) < U q \<longrightarrow> paddr s' q = paddr s q)"
  using assms
proof (induction ps s arbitrary: U rule: put_pages.induct)
  case (3 p ps s)
  have p: "0 < U p" using 3(3)[of p] by simp
  obtain s1 where s1: "put_page p s = Some s1" "pages_ok (U(p := U p - 1)) s1" "same_objs s s1" "pmem s1 = pmem s"
    "next_obj s1 = next_obj s" "pte (pgt s1) = pte (pgt s)" "\<And>q. 0 < (U(p := U p - 1)) q \<Longrightarrow> paddr s1 q = paddr s q"
    using put_page_ok[OF 3(2) p] by blast
  have le: "count_list ps (Some q) \<le> (U(p := U p - 1)) q" for q using 3(3)[of q] by (simp split: if_splits)
  obtain s2 where s2: "put_pages ps s1 = Some s2" "pages_ok (\<lambda>q. (U(p := U p - 1)) q - count_list ps (Some q)) s2" "same_objs s1 s2"
    "pmem s2 = pmem s1" "next_obj s2 = next_obj s1" "pte (pgt s2) = pte (pgt s1)"
    "\<And>q. count_list ps (Some q) < (U(p := U p - 1)) q \<Longrightarrow> paddr s2 q = paddr s1 q"
    using 3(1)[OF s1(1,2) le] by blast
  have e: "(\<lambda>q. (U(p := U p - 1)) q - count_list ps (Some q)) = (\<lambda>q. U q - count_list (Some p # ps) (Some q))" by (rule ext) simp
  have "paddr s2 q = paddr s q" if "count_list (Some p # ps) (Some q) < U q" for q
    using s2(7)[of q] s1(7)[of q] that by (simp split: if_splits)
  then show ?case using s1 s2 e same_objs_trans[OF s1(3) s2(3)] by auto
qed (auto simp: same_objs_def)

lemma hold_page_ok:
  assumes ok: "pages_ok U s" and p: "vpages s p = Some x"
  shows "\<exists>s'. hold_page p (int n) s = Some s' \<and> pages_ok (U(p := U p + n)) s' \<and> same_objs s s' \<and> pmem s' = pmem s \<and>
    next_obj s' = next_obj s \<and> pgt s' = pgt s \<and> paddr s' = paddr s"
proof -
  define s' where "s' = s\<lparr>vpages := (vpages s)(p \<mapsto> x\<lparr>pg_refs := int (U p + n)\<rparr>)\<rparr>"
  have res: "hold_page p (int n) s = Some s'" using p pages_okD(5)[OF ok p] by (simp add: hold_page_def s'_def)
  have ds: "dirs s' = dirs s" "pgt s' = pgt s" "next_obj s' = next_obj s" by (simp_all add: s'_def dirs_def)
  have z: "\<exists>z. vpages s q = Some z \<and> pg_address y = pg_address z \<and> (q \<noteq> p \<longrightarrow> y = z) \<and> (q = p \<longrightarrow> pg_refs y = int (U p + n))"
    if "vpages s' q = Some y" for q y using that p by (auto simp: s'_def split: if_splits)
  have "pages_ok (U(p := U p + n)) s'"
  proof (rule pages_okI; (unfold ds)?)
    fix q y assume y: "vpages s' q = Some y"
    then obtain z where z: "vpages s q = Some z" "pg_address y = pg_address z" "q \<noteq> p \<Longrightarrow> y = z" "q = p \<Longrightarrow> pg_refs y = int (U p + n)"
      using z by blast
    show "0 < (U(p := U p + n)) q \<and> pg_refs y = int ((U(p := U p + n)) q) \<and> pg_address y \<noteq> 0 \<and> q < next_obj s"
      using pages_okD(4-6,10)[OF ok z(1)] z(2-) by (cases "q = p") simp_all
    show "pf_used (pgt s) (pg_address y) \<and> pg_address y \<notin> pt_frames (dirs s) (pgt s)" using pages_okD(7,8)[OF ok z(1)] z(2) by simp
  next
    fix q y q' y' assume "vpages s' q = Some y" "vpages s' q' = Some y'" "pg_address y = pg_address y'"
    then show "q = q'" using z pages_okD(9)[OF ok] by metis
  qed (use pages_okD(1-3)[OF ok] in \<open>auto simp: s'_def split: if_splits\<close>)
  moreover have "paddr s' = paddr s" using p by (auto simp: paddr_def s'_def)
  ultimately show ?thesis using res by (auto simp: same_objs_def s'_def)
qed

lemma hold_pages_ok:
  assumes "pages_ok U s" "\<And>p. Some p \<in> set ps \<Longrightarrow> 0 < U p"
  shows "\<exists>s'. hold_pages ps s = Some s' \<and> pages_ok (\<lambda>p. U p + 2 * count_list ps (Some p)) s' \<and> same_objs s s' \<and> pmem s' = pmem s \<and>
    next_obj s' = next_obj s \<and> pgt s' = pgt s \<and> paddr s' = paddr s"
  using assms
proof (induction ps s arbitrary: U rule: hold_pages.induct)
  case (3 p ps s)
  obtain x where x: "vpages s p = Some x" using pages_ok_live[OF 3(2), of p] 3(3)[of p] by auto
  obtain s1 where s1: "hold_page p (int 2) s = Some s1" "pages_ok (U(p := U p + 2)) s1" "same_objs s s1" "pmem s1 = pmem s"
    "next_obj s1 = next_obj s" "pgt s1 = pgt s" "paddr s1 = paddr s" using hold_page_ok[OF 3(2) x, of 2] by blast
  have le: "0 < (U(p := U p + 2)) q" if "Some q \<in> set ps" for q using 3(3)[of q] that by simp
  have h: "hold_page p 2 s = Some s1" using s1(1) by simp
  obtain s2 where s2: "hold_pages ps s1 = Some s2" "pages_ok (\<lambda>q. (U(p := U p + 2)) q + 2 * count_list ps (Some q)) s2" "same_objs s1 s2"
    "pmem s2 = pmem s1" "next_obj s2 = next_obj s1" "pgt s2 = pgt s1" "paddr s2 = paddr s1"
    using 3(1)[OF h s1(2) le] by blast
  have e: "(\<lambda>q. (U(p := U p + 2)) q + 2 * count_list ps (Some q)) = (\<lambda>q. U q + 2 * count_list (Some p # ps) (Some q))" by (rule ext) simp
  show ?case using h s1 s2 e same_objs_trans[OF s1(3) s2(3)] by auto
qed (auto simp: same_objs_def)

section \<open>Frames for new pages\<close>

text \<open>There are frames left: enough for one page and one page table.\<close>

definition free_frame :: "('f, 'w) vm \<Rightarrow> nat \<Rightarrow> bool" where
  "free_frame s f \<longleftrightarrow> f < bitmap_items (pframes (pgt s)) \<and> \<not> frame_used (pframes (pgt s)) f"

definition memory_left :: "('f, 'w) vm \<Rightarrow> bool" where
  "memory_left s \<longleftrightarrow> (\<exists>f g. f \<noteq> g \<and> free_frame s f \<and> free_frame s g)"

lemma phys_alloc1_zero:
  assumes "phys_wf ph" "frame_addr_used ph 0" "f < bitmap_items ph" "\<not> frame_used ph f"
  shows "fst (phys_alloc1 flags ph) \<noteq> 0"
proof
  assume "fst (phys_alloc1 flags ph) = 0"
  then have "phys_alloc ph 1 flags = Some (Inr (0, snd (phys_alloc1 flags ph)))" using phys_alloc1_eq[OF assms(1)] by (metis prod.collapse)
  then show False using phys_alloc_exhausted[OF assms(1)] assms(2-4) by (auto simp: frame_addr_used_def)
qed

lemma frame_alloc_facts [simp]:
  assumes "frame_alloc fl s = (f, s')"
  shows "vpages s' = vpages s" "vspaces s' = vspaces s" "vregions s' = vregions s" "vmaps s' = vmaps s" "pmem s' = pmem s"
    "next_obj s' = next_obj s" "cr3 s' = cr3 s" "cpu_space s' = cpu_space s" "kmem_area s' = kmem_area s"
    "kernel_dir (pgt s') = kernel_dir (pgt s)"
  using assms by (auto simp: frame_alloc_def split: prod.splits)

lemma frame_alloc_ok:
  assumes ok: "pages_ok U s" and al: "frame_alloc fl s = (f, s')"
  shows "pages_ok U s'" "pte (pgt s') = pte (pgt s)" "pt_frames (dirs s') (pgt s') = pt_frames (dirs s) (pgt s)" "dirs s' = dirs s"
    "f \<noteq> 0 \<Longrightarrow> \<not> pf_used (pgt s) f" "f \<noteq> 0 \<Longrightarrow> pf_used (pgt s') f" "f \<noteq> 0 \<Longrightarrow> f \<notin> pt_frames (dirs s') (pgt s')"
    "f \<noteq> 0 \<Longrightarrow> paddr s' p \<noteq> Some f" "free_frame s g \<Longrightarrow> f \<noteq> 0" "memory_left s \<Longrightarrow> \<exists>g. free_frame s' g"
    "4096 dvd f" "f < 2 ^ 32"
proof -
  note wf = pt_okD(1)[OF pages_okD(1)[OF ok]]
  obtain ph where a: "phys_alloc1 fl (pframes (pgt s)) = (f, ph)" "s' = s\<lparr>pgt := (pgt s)\<lparr>pframes := ph\<rparr>\<rparr>"
    using al by (auto simp: frame_alloc_def split: prod.splits)
  show ds: "dirs s' = dirs s" by (simp add: a(2) dirs_def)
  have z: "f = 0 \<Longrightarrow> ph = pframes (pgt s)" using pf.take_none[OF wf, of fl] a by simp
  have nz: "f \<noteq> 0 \<Longrightarrow> \<not> pf_used (pgt s) f" "f \<noteq> 0 \<Longrightarrow> frame_addr_used ph b \<longleftrightarrow> pf_used (pgt s) b \<or> b = f" for b
    using pf.take_fresh[OF wf, of fl] a by simp_all
  have u: "pf_used (pgt s) b \<Longrightarrow> frame_addr_used ph b" for b using z nz(2)[of b] by (cases "f = 0") auto
  have wf': "phys_wf ph" using pf.take_ok[OF wf, of fl] a by simp
  note k = pt_ok_frames[OF pages_okD(1)[OF ok] wf' u[OF pt_okD(4)[OF pages_okD(1)[OF ok]]]]
  have pg: "pgt s' = (pgt s)\<lparr>pframes := ph\<rparr>" by (simp add: a(2))
  show pte: "pte (pgt s') = pte (pgt s)" and fr: "pt_frames (dirs s') (pgt s') = pt_frames (dirs s) (pgt s)" by (simp_all add: ds pg k)
  show "f \<noteq> 0 \<Longrightarrow> \<not> pf_used (pgt s) f" "f \<noteq> 0 \<Longrightarrow> pf_used (pgt s') f" using nz by (simp_all add: pg)
  show "f \<noteq> 0 \<Longrightarrow> f \<notin> pt_frames (dirs s') (pgt s')" unfolding fr using nz(1) pt_okD(4)[OF pages_okD(1)[OF ok]] by blast
  show "f \<noteq> 0 \<Longrightarrow> paddr s' p \<noteq> Some f" using nz(1) pages_okD(7)[OF ok] by (auto simp: paddr_def a(2))
  show "pages_ok U s'"
    by (rule pages_okI; (unfold ds pg k)?) (use k(1) u pages_okD[OF ok] in \<open>auto simp: a(2) k(2)\<close>)
  show "free_frame s g \<Longrightarrow> f \<noteq> 0" using phys_alloc1_zero[OF wf pages_okD(2)[OF ok]] a(1) by (metis free_frame_def fst_conv)
  have post: "alloc_post (pframes (pgt s)) 1 f ph" using phys_alloc1_post[OF wf, of fl] a(1) by (metis fst_conv snd_conv)
  show "\<exists>g. free_frame s' g" if m: "memory_left s"
  proof (cases "f = 0")
    case False
    obtain n where n: "f = n * PAGE_SIZE" "bitmap_items ph = bitmap_items (pframes (pgt s))"
      "\<forall>k. frame_used ph k \<longleftrightarrow> frame_used (pframes (pgt s)) k \<or> k = n" using alloc_post_one[OF post False] by metis
    obtain g1 g2 where "g1 \<noteq> g2" "free_frame s g1" "free_frame s g2" using m by (auto simp: memory_left_def)
    then show ?thesis using n by (auto simp: free_frame_def pg)
  qed (use z m in \<open>auto simp: memory_left_def free_frame_def pg\<close>)
  have "f = 0 \<or> (\<exists>n < bitmap_items (pframes (pgt s)). f = n * 4096)" using alloc_post_one[OF post] by blast
  moreover have "bitmap_items (pframes (pgt s)) \<le> 2 ^ 20" using wf by (simp add: phys_wf_def)
  ultimately show "4096 dvd f" "f < 2 ^ 32" by auto
qed

section \<open>What an address space sees\<close>

text \<open>The region and page index of an address, the page there, and the byte a load returns; \<open>None\<close> is an address
  that is not mapped, or a page of a file that has not been read yet.\<close>

definition block_at :: "('f, 'w) vm \<Rightarrow> nat \<Rightarrow> u32 \<Rightarrow> sma_block option" where
  "block_at s sp v = do { x \<leftarrow> vspaces s sp; find (covers v) (used_list (sp_area x)) }"

definition map_at :: "('f, 'w) vm \<Rightarrow> nat \<Rightarrow> u32 \<Rightarrow> vm_mapping option" where
  "map_at s sp v = do { b \<leftarrow> block_at s sp v; m \<leftarrow> dataptr b; vmaps s m }"

definition page_idx :: "u32 \<Rightarrow> u32 \<Rightarrow> nat" where
  "page_idx start v = (unat v - unat start) div PAGE_SIZE"

definition region_page :: "('f, 'w) vm \<Rightarrow> nat \<Rightarrow> nat \<Rightarrow> nat option" where
  "region_page s r i = do { rg \<leftarrow> vregions s r; if i < length (rg_pages rg) then rg_pages rg ! i else None }"

definition page_at :: "('f, 'w) vm \<Rightarrow> nat \<Rightarrow> u32 \<Rightarrow> nat option" where
  "page_at s sp v = do { mp \<leftarrow> map_at s sp v; region_page s (mp_region mp) (page_idx (bstart (mp_block mp)) v) }"

definition view :: "('f, 'w) vm \<Rightarrow> nat \<Rightarrow> u32 \<Rightarrow> u8 option" where
  "view s sp v = do {
     mp \<leftarrow> map_at s sp v;
     rg \<leftarrow> vregions s (mp_region mp);
     case region_page s (mp_region mp) (page_idx (bstart (mp_block mp)) v) of
       None \<Rightarrow> if rg_ops rg = Anon_ops then Some 0 else None
     | Some p \<Rightarrow> do { f \<leftarrow> paddr s p; Some (pmem s f (page_off v)) } }"

section \<open>The invariant\<close>

definition area_ok :: "sma_area \<Rightarrow> bool" where
  "area_ok a \<longleftrightarrow> sma_wf a \<and> area_start a = USERMEM_START \<and> area_size a = USERMEM_SIZE \<and>
     (\<forall>b \<in> set (blocks a). PAGE dvd bstart b \<and> PAGE dvd bsize b) \<and> (\<forall>b \<in> set (used_list a). unat (bsize b) \<le> 2 ^ 31)"

definition sharers :: "('f, 'w) vm \<Rightarrow> nat \<Rightarrow> nat set" where
  "sharers s r = {m. \<exists>mp. vmaps s m = Some mp \<and> mp_region mp = r}"

definition pages_of :: "('f, 'w) vm \<Rightarrow> nat \<Rightarrow> nat option list" where
  "pages_of s r = (case vregions s r of None \<Rightarrow> [] | Some rg \<Rightarrow> rg_pages rg)"

definition uses :: "('f, 'w) vm \<Rightarrow> nat \<Rightarrow> nat" where
  "uses s p = (\<Sum>r \<in> dom (vregions s). count_list (pages_of s r) (Some p))"

text \<open>A used block and its mapping; only private mappings are considered.\<close>

definition maps_block :: "('f, 'w) vm \<Rightarrow> nat \<Rightarrow> sma_block \<Rightarrow> nat \<Rightarrow> vm_mapping \<Rightarrow> bool" where
  "maps_block s sp b m mp \<longleftrightarrow> dataptr b = Some m \<and> vmaps s m = Some mp \<and> mp_space mp = sp \<and>
     bstart (mp_block mp) = bstart b \<and> bsize (mp_block mp) = bsize b"

definition spaces_ok :: "('f, 'w) vm \<Rightarrow> bool" where
  "spaces_ok s \<longleftrightarrow>
     (\<forall>sp x. vspaces s sp = Some x \<longrightarrow> sp < next_obj s \<and> area_ok (sp_area x) \<and>
        (\<forall>b \<in> set (used_list (sp_area x)). \<exists>m mp. maps_block s sp b m mp)) \<and>
     (\<forall>sp x sp' x'. vspaces s sp = Some x \<and> vspaces s sp' = Some x' \<and> sp_dir x = sp_dir x' \<longrightarrow> sp = sp')"

definition maps_ok :: "('f, 'w) vm \<Rightarrow> bool" where
  "maps_ok s \<longleftrightarrow> finite (dom (vmaps s)) \<and>
     (\<forall>m mp. vmaps s m = Some mp \<longrightarrow> m < next_obj s \<and> mp_flags mp AND MAP_SHARED = 0 \<and>
        (\<exists>x. vspaces s (mp_space mp) = Some x \<and> (\<exists>b \<in> set (used_list (sp_area x)). maps_block s (mp_space mp) b m mp)) \<and>
        (\<exists>rg. vregions s (mp_region mp) = Some rg \<and> rg_size rg = bsize (mp_block mp))) \<and>
     (\<forall>m mp n np. vmaps s m = Some mp \<and> vmaps s n = Some np \<and> mp_region mp = mp_region np \<and>
        mp_flags mp AND PROT_WRITE = PROT_WRITE \<longrightarrow> m = n)"

definition regions_ok :: "('f, 'w) vm \<Rightarrow> bool" where
  "regions_ok s \<longleftrightarrow> finite (dom (vregions s)) \<and>
     (\<forall>r rg. vregions s r = Some rg \<longrightarrow> r < next_obj s \<and> rg_refs rg = int (card (sharers s r)) \<and> sharers s r \<noteq> {} \<and>
        length (rg_pages rg) = unat (rg_size rg) div PAGE_SIZE)"

text \<open>A present entry leads to the page, and is writable only when this is the only reference to the page.\<close>

definition ptes_ok :: "('f, 'w) vm \<Rightarrow> bool" where
  "ptes_ok s \<longleftrightarrow> (\<forall>sp x v. vspaces s sp = Some x \<and> user_addr v \<and> pg_present (pte (pgt s) (sp_dir x) v) \<longrightarrow>
     (\<exists>p. page_at s sp v = Some p \<and> paddr s p = Some (table_of (pte (pgt s) (sp_dir x) v)) \<and>
        (pte (pgt s) (sp_dir x) v AND PG_FLAG_RW \<noteq> 0 \<longrightarrow> uses s p = 1)))"

definition cpu_ok :: "('f, 'w) vm \<Rightarrow> bool" where
  "cpu_ok s \<longleftrightarrow> (case cpu_space s of None \<Rightarrow> cr3 s = kernel_dir (pgt s) | Some sp \<Rightarrow> \<exists>x. vspaces s sp = Some x \<and> cr3 s = sp_dir x)"

text \<open>The kernel's window: the next temporary mapping is granted, below the last page of the address space.\<close>

definition kmem_ok :: "sma_area \<Rightarrow> bool" where
  "kmem_ok a \<longleftrightarrow> sma_wf a \<and> sma_sorted a \<and> area_start a = KMEM_START \<and> area_size a = KMEM_SIZE \<and>
     (\<exists>f. find (\<lambda>b. bsize b \<ge> PAGE) (free_list a) = Some f \<and> unat (bstart f) + PAGE_SIZE < 2 ^ 32)"

definition vm_inv :: "('f, 'w) vm \<Rightarrow> bool" where
  "vm_inv s \<longleftrightarrow> pages_ok (uses s) s \<and> spaces_ok s \<and> maps_ok s \<and> regions_ok s \<and> ptes_ok s \<and> cpu_ok s \<and> kmem_ok (kmem_area s)"

lemma vm_invD:
  assumes "vm_inv s"
  shows "pages_ok (uses s) s" "spaces_ok s" "maps_ok s" "regions_ok s" "ptes_ok s" "cpu_ok s" "kmem_ok (kmem_area s)"
  using assms by (simp_all add: vm_inv_def)

lemma area_okD:
  assumes "area_ok a"
  shows "sma_wf a" "area_start a = USERMEM_START" "area_size a = USERMEM_SIZE"
    "b \<in> set (blocks a) \<Longrightarrow> PAGE dvd bstart b" "b \<in> set (blocks a) \<Longrightarrow> PAGE dvd bsize b"
    "b \<in> set (used_list a) \<Longrightarrow> unat (bsize b) \<le> 2 ^ 31"
  using assms by (auto simp: area_ok_def)

lemma area_ok_block:
  assumes "area_ok a" "b \<in> set (used_list a)"
  shows "fin b \<le> unat LOWMEM_START" "unat (bstart b) < fin b" "fin b < 2 ^ 32" "covers v b \<longleftrightarrow> unat v \<in> blk b"
    "unat v \<in> blk b \<Longrightarrow> user_addr v"
proof -
  have "unat USERMEM_START + unat USERMEM_SIZE = unat LOWMEM_START"
    by (simp add: USERMEM_START_def USERMEM_SIZE_def LOWMEM_START_def)
  then show f: "fin b \<le> unat LOWMEM_START" "unat (bstart b) < fin b"
    using sma_wf_block(2,4)[OF area_okD(1)[OF assms(1)], of b] assms by (simp_all add: area_okD)
  then show l: "fin b < 2 ^ 32" by (simp add: LOWMEM_START_def)
  then show "covers v b \<longleftrightarrow> unat v \<in> blk b" by (rule covers_iff)
  show "unat v \<in> blk b \<Longrightarrow> user_addr v" using f by (simp add: blk_def user_addr_def word_less_nat_alt)
qed

lemma blocks_disjoint:
  assumes "sma_wf a" "b \<in> set (blocks a)" "c \<in> set (blocks a)" "n \<in> blk b" "n \<in> blk c"
  shows "b = c"
  using assms unfolding sma_wf_def tiles_def by (metis disjoint_iff)

lemma block_at_iff:
  assumes "spaces_ok s"
  shows "block_at s sp v = Some b \<longleftrightarrow> (\<exists>x. vspaces s sp = Some x \<and> b \<in> set (used_list (sp_area x)) \<and> unat v \<in> blk b)"
proof (cases "vspaces s sp")
  case (Some x)
  then have a: "area_ok (sp_area x)" using assms by (auto simp: spaces_ok_def)
  have "find (covers v) (used_list (sp_area x)) = Some b" if "b \<in> set (used_list (sp_area x))" "unat v \<in> blk b"
    using that area_ok_block(3)[OF a] by (intro find_covers[OF area_okD(1)[OF a]]) auto
  then show ?thesis using Some find_in[of "covers v" "used_list (sp_area x)" b] area_ok_block(4)[OF a, of b]
    by (auto simp: block_at_def)
qed (simp add: block_at_def)

lemma map_at_iff:
  assumes "spaces_ok s"
  shows "map_at s sp v = Some mp \<longleftrightarrow>
    (\<exists>x b m. vspaces s sp = Some x \<and> b \<in> set (used_list (sp_area x)) \<and> unat v \<in> blk b \<and> maps_block s sp b m mp)"
proof
  assume "map_at s sp v = Some mp"
  then obtain b m where b: "block_at s sp v = Some b" "dataptr b = Some m" "vmaps s m = Some mp"
    by (auto simp: map_at_def split: bind_splits)
  then obtain x where x: "vspaces s sp = Some x" "b \<in> set (used_list (sp_area x))" "unat v \<in> blk b" using block_at_iff[OF assms] by blast
  then obtain m' mp' where "maps_block s sp b m' mp'" using assms unfolding spaces_ok_def by blast
  then show "\<exists>x b m. vspaces s sp = Some x \<and> b \<in> set (used_list (sp_area x)) \<and> unat v \<in> blk b \<and> maps_block s sp b m mp"
    using b x by (auto simp: maps_block_def)
next
  assume "\<exists>x b m. vspaces s sp = Some x \<and> b \<in> set (used_list (sp_area x)) \<and> unat v \<in> blk b \<and> maps_block s sp b m mp"
  then obtain x b m where "vspaces s sp = Some x" "b \<in> set (used_list (sp_area x))" "unat v \<in> blk b" "maps_block s sp b m mp" by blast
  moreover from this have "block_at s sp v = Some b" using block_at_iff[OF assms] by blast
  ultimately show "map_at s sp v = Some mp" by (simp add: map_at_def maps_block_def)
qed

lemma spaces_okD:
  assumes "spaces_ok s" "vspaces s sp = Some x"
  shows "sp < next_obj s" "area_ok (sp_area x)" "b \<in> set (used_list (sp_area x)) \<Longrightarrow> \<exists>m mp. maps_block s sp b m mp"
    "vspaces s sp' = Some x' \<Longrightarrow> sp_dir x = sp_dir x' \<Longrightarrow> sp = sp'" "sp_dir x \<in> dirs s"
  using assms unfolding spaces_ok_def dirs_def by blast+

lemma maps_okD:
  assumes "maps_ok s" "vmaps s m = Some mp"
  shows "m < next_obj s" "mp_flags mp AND MAP_SHARED = 0"
    "\<exists>x. vspaces s (mp_space mp) = Some x \<and> (\<exists>b \<in> set (used_list (sp_area x)). maps_block s (mp_space mp) b m mp)"
    "\<exists>rg. vregions s (mp_region mp) = Some rg \<and> rg_size rg = bsize (mp_block mp)"
    "vmaps s n = Some np \<Longrightarrow> mp_region mp = mp_region np \<Longrightarrow> mp_flags mp AND PROT_WRITE = PROT_WRITE \<Longrightarrow> m = n"
  using assms unfolding maps_ok_def by blast+

lemma regions_okD:
  assumes "regions_ok s" "vregions s r = Some rg"
  shows "r < next_obj s" "rg_refs rg = int (card (sharers s r))" "sharers s r \<noteq> {}" "length (rg_pages rg) = unat (rg_size rg) div PAGE_SIZE"
  using assms unfolding regions_ok_def by blast+

lemma kdir_facts [simp]: "kernel_dir (pgt s) \<in> insert (kernel_dir (pgt s)) (dirs s)"
  by simp

section \<open>Mapping a page\<close>

lemma low_flags:
  "(PG_FLAG_USER OR PG_FLAG_RW OR PG_FLAG_PRESENT) AND NOT (mask 12) = 0" "(PG_FLAG_USER OR PG_FLAG_PRESENT) AND NOT (mask 12) = 0"
  "(PG_FLAG_RW OR PG_FLAG_PRESENT) AND NOT (mask 12) = 0" "PG_FLAG_PRESENT AND NOT (mask 12) = 0"
  by (simp_all add: PG_FLAG_USER_def PG_FLAG_RW_def PG_FLAG_PRESENT_def mask_eq_exp_minus_1)

text \<open>The flags of an entry for a frame.\<close>

lemma entry_flags:
  assumes "4096 dvd f" "f < 2 ^ 32" "att AND NOT (mask 12) = 0" "fl AND NOT (mask 12) = 0"
  shows "table_of (of_nat f OR att) = f" "(of_nat f OR att) AND fl = att AND fl"
proof -
  show "table_of (of_nat f OR att) = f" by (rule table_of_entry[OF assms(1-3)])
  have "take_bit 12 (of_nat f :: u32) = 0"
    using assms(1,2) by (auto simp: take_bit_eq_mod word_arith_nat_mod take_bit_nat_eq_self unsigned_of_nat elim!: dvdE)
  then have z: "(of_nat f :: u32) AND mask 12 = 0" by (simp add: take_bit_eq_mask)
  have "fl = fl AND mask 12" using assms(4) by (simp add: bit_eq_iff bit_simps) blast
  moreover have "(of_nat f :: u32) AND (fl AND mask 12) = (of_nat f AND mask 12) AND fl" by (simp add: ac_simps)
  ultimately have "(of_nat f :: u32) AND fl = 0" using z by simp
  then show "(of_nat f OR att) AND fl = att AND fl" by (simp add: bit.conj_disj_distrib2)
qed

lemma dirs_cong: "vspaces s' = vspaces s \<Longrightarrow> dirs s' = dirs s"
  by (simp add: dirs_def)

lemma map_page_facts [simp]:
  assumes "map_page v f att d s = (r, s')"
  shows "vpages s' = vpages s" "vspaces s' = vspaces s" "vregions s' = vregions s" "vmaps s' = vmaps s" "pmem s' = pmem s"
    "next_obj s' = next_obj s" "cr3 s' = cr3 s" "cpu_space s' = cpu_space s" "kmem_area s' = kmem_area s" "dirs s' = dirs s"
  using assms by (auto simp: map_page_def intro!: dirs_cong split: prod.splits)

lemma pages_ok_grow:
  assumes ok: "pages_ok U s" and pt: "pt_ok (dirs s) p" and fr: "\<And>a. a \<in> pt_frames (dirs s) p - pt_frames (dirs s) (pgt s) \<Longrightarrow> \<not> pf_used (pgt s) a"
    and us: "\<And>a. pf_used (pgt s) a \<Longrightarrow> pf_used p a"
  shows "pages_ok U (s\<lparr>pgt := p\<rparr>)"
proof (rule pages_okI)
  have ds: "dirs (s\<lparr>pgt := p\<rparr>) = dirs s" by (simp add: dirs_def)
  fix q x assume q: "vpages (s\<lparr>pgt := p\<rparr>) q = Some x"
  then show "pf_used (pgt (s\<lparr>pgt := p\<rparr>)) (pg_address x) \<and> pg_address x \<notin> pt_frames (dirs (s\<lparr>pgt := p\<rparr>)) (pgt (s\<lparr>pgt := p\<rparr>))"
    using pages_okD(7,8)[OF ok, of q x] fr[of "pg_address x"] us by (auto simp: ds)
qed (use pages_okD[OF ok] pt us in \<open>auto simp: dirs_def\<close>)

lemma pt_alloc_zero:
  assumes "pages_ok U s" "pt_alloc (pgt s) = (0, p)"
  shows "\<not> free_frame s g"
  using phys_alloc1_zero[OF pt_okD(1)[OF pages_okD(1)[OF assms(1)]] pages_okD(2)[OF assms(1)], of g PHYS_KERNEL] assms(2)
  by (auto simp: pt_alloc_def free_frame_def split: prod.splits)

lemma map_page_ok:
  assumes ok: "pages_ok U s" and d: "d \<in> dirs s" and v: "user_addr v" and r: "map_page v f att (Some d) s = (r, s')"
  shows "pages_ok U s'" "kernel_dir (pgt s') = kernel_dir (pgt s)" "r = -1 \<and> s' = s \<or> r = 0" "free_frame s g \<Longrightarrow> r = 0"
    "r = 0 \<Longrightarrow> c \<in> insert (kernel_dir (pgt s)) (dirs s) \<Longrightarrow> user_addr w \<or> kernel_addr w \<Longrightarrow>
       pte (pgt s') c w = (if c = d \<and> page_no w = page_no v then of_nat f OR att else pte (pgt s) c w)"
proof -
  obtain p where p: "paging_map_page v (of_nat f) att (Some d) (pgt s) = (r, p)" "s' = s\<lparr>pgt := p\<rparr>"
    using r by (auto simp: map_page_def split: prod.splits)
  have m: "mappable (dirs s) (pgt s) (Some d) v" using d v by (simp add: mappable_def)
  note k = paging_map_page_ok[OF pages_okD(1)[OF ok] m p(1)]
  show "pages_ok U s'" unfolding p(2) by (rule pages_ok_grow[OF ok]) (use k in blast)+
  show "kernel_dir (pgt s') = kernel_dir (pgt s)" using k p(2) by simp
  show rr: "r = -1 \<and> s' = s \<or> r = 0" using k p(2) by auto
  show "free_frame s g \<Longrightarrow> r = 0" using k pt_alloc_zero[OF ok] by blast
  show "pte (pgt s') c w = (if c = d \<and> page_no w = page_no v then of_nat f OR att else pte (pgt s) c w)"
    if "r = 0" "c \<in> insert (kernel_dir (pgt s)) (dirs s)" "user_addr w \<or> kernel_addr w"
    using k that by (auto simp: p(2) hits_def)
qed

end
