(* ===== verification/VmFault.thy ===== *)
theory VmFault
  imports VmInv
begin

text \<open>
  Page faults keep the invariant and change nothing that any address space sees: a page is made present, or a
  shared page is replaced by a copy of its own.
\<close>

section \<open>The kernel's window\<close>

lemma find_sorted:
  "sorted (map bstart xs) \<Longrightarrow> find P xs = Some f \<Longrightarrow> x \<in> set xs \<Longrightarrow> bstart x < bstart f \<Longrightarrow> \<not> P x"
  by (induction xs) (auto split: if_splits)

lemma find_sma_list_add:
  "P b \<Longrightarrow> \<forall>x \<in> set xs. bstart x \<le> bstart b \<longrightarrow> \<not> P x \<Longrightarrow> find P (sma_list_add xs b) = Some b"
  by (induction xs) auto

lemma kmem_window:
  assumes ok: "kmem_ok a"
  shows "\<exists>p a' a''. kmem_alloc a PAGE = (Some p, a') \<and> kernel_addr p \<and> kmem_free a' p PAGE = Some a'' \<and> kmem_ok a''"
proof -
  let ?P = "\<lambda>b. bsize b \<ge> PAGE"
  obtain f where f: "find ?P (free_list a) = Some f" "unat (bstart f) + PAGE_SIZE < 2 ^ 32"
    and wf: "sma_wf a" and so: "sma_sorted a" and ar: "area_start a = KMEM_START" "area_size a = KMEM_SIZE"
    using ok by (auto simp: kmem_ok_def)
  have fin: "f \<in> set (free_list a)" and fP: "PAGE \<le> bsize f" using find_in[OF f(1)] by auto
  have ch: "sma_choose a 0 PAGE 0 = Some f" using f(1) by (simp add: sma_choose_def SMA_ALLOC_FIXED_def)
  obtain b a' where al: "sma_alloc a 0 PAGE 0 = (Some b, a')" using sma_alloc_None ch by (metis option.exhaust option.distinct(1) prod.exhaust)
  note al' = al[unfolded sma_alloc_def ch option.case Let_def sma_new_def, simplified]
  have reg: "regular a 0 PAGE 0" by simp
  note s = sma_alloc_Some[OF wf reg al]
  have bs: "bstart b = bstart f" using al' by (auto split: if_splits)
  have e: "fin b < 2 ^ 32" using f(2) s(6) by (simp add: fin_def bs)
  have low: "x = f" if "x \<in> set (free_list a)" "bstart x \<le> bstart f" "?P x" for x
  proof (cases "bstart x = bstart f")
    case True
    have "bsize x \<noteq> 0" "bsize f \<noteq> 0" using wf that(1) fin by (auto simp: sma_wf_def tiles_def)
    then show ?thesis using blocks_disjoint[OF wf, of x f "unat (bstart f)"] blk_nonempty[of x] blk_nonempty[of f] True that(1) fin by simp
  next
    case False
    then have "bstart x < bstart f" using that(2) by (rule order.not_eq_order_implies_strict)
    then show ?thesis using find_sorted[OF _ f(1) that(1)] so that(3) by (simp add: sma_sorted_def)
  qed
  have below: "\<forall>x \<in> set (free_list a'). bstart x \<le> bstart b \<longrightarrow> \<not> ?P x"
  proof (cases "bsize f = PAGE")
    case True
    show ?thesis
    proof (intro ballI impI notI)
      fix x assume x: "x \<in> set (free_list a')" "bstart x \<le> bstart b" "?P x"
      then have "x \<in> set (free_list a)" "bid x \<noteq> bid f" using al' True by (auto simp: list_del_def)
      then show False using low[of x] x(2,3) bs by auto
    qed
  next
    case False
    then have lt: "PAGE < bsize f" using fP by simp
    then have "unat (bstart f + PAGE) = unat (bstart f) + PAGE_SIZE" using f(2) by (simp add: unat_add_no_wrap)
    then have "\<not> bstart f + PAGE \<le> bstart f" by (simp add: word_le_nat_alt)
    show ?thesis
    proof (intro ballI impI notI)
      fix x assume x: "x \<in> set (free_list a')" "bstart x \<le> bstart b" "?P x"
      then have "x \<in> set (free_list a)" "bid x \<noteq> bid f"
        using al' False \<open>\<not> bstart f + PAGE \<le> bstart f\<close> by (auto simp: list_set_def split: if_splits)
      then show False using low[of x] x(2,3) bs by auto
    qed
  qed
  define a'' where "a'' = a'\<lparr>used_list := list_del b (used_list a'), free_list := sma_list_add (free_list a') (released b)\<rparr>"
  have fr: "kmem_free a' (bstart b) PAGE = Some a''"
    using sma_free_block[OF s(1,7) e, where do_free = None and w = "()"] s(6) by (simp add: kmem_free_def a''_def)
  have "sma_sorted a'" by (rule sma_alloc_sorted[OF wf reg so al])
  then have so'': "sma_sorted a''" by (simp add: a''_def sma_sorted_def list_del_sorted sma_list_add_sorted)
  have "find ?P (free_list a'') = Some (released b)"
    unfolding a''_def using below s(6) by (simp add: find_sma_list_add)
  moreover have "area_start a' = area_start a" "area_size a' = area_size a" using al' by (auto split: if_splits)
  ultimately have "kmem_ok a''"
    using release_wf(1)[OF s(1,7)] so'' ar f(2) by (simp add: kmem_ok_def a''_def bs)
  moreover have "kernel_addr (bstart b)"
    using sma_wf_block(5)[OF wf, of f] fin ar(1) by (simp add: kernel_addr_def bs KHEAP_START_def KMEM_START_def word_le_nat_alt)
  moreover have "kmem_alloc a PAGE = (Some (bstart b), a')" using al by (simp add: kmem_alloc_def)
  ultimately show ?thesis using fr by blast
qed

text \<open>A frame seen through the window: the temporary mapping is visible in every directory and gone afterwards.\<close>

lemma map_page_kernel:
  assumes ok: "pages_ok U s" and v: "kernel_addr v" and r: "map_page v f att None s = (r, s')"
  shows "pages_ok U s'" "kernel_dir (pgt s') = kernel_dir (pgt s)" "r = 0"
    "c \<in> insert (kernel_dir (pgt s)) (dirs s) \<Longrightarrow> user_addr w \<or> kernel_addr w \<Longrightarrow>
       pte (pgt s') c w = (if page_no w = page_no v then of_nat f OR att else pte (pgt s) c w)"
    "bitmap_items (pframes (pgt s')) = bitmap_items (pframes (pgt s))" "pframes (pgt s') = pframes (pgt s)"
proof -
  obtain p where p: "paging_map_page v (of_nat f) att None (pgt s) = (r, p)" "s' = s\<lparr>pgt := p\<rparr>"
    using r by (auto simp: map_page_def split: prod.splits)
  have m: "mappable (dirs s) (pgt s) None v" using v by (simp add: mappable_def)
  note k = paging_map_page_ok[OF pages_okD(1)[OF ok] m p(1)]
  show "pages_ok U s'" unfolding p(2) by (rule pages_ok_grow[OF ok]) (use k in blast)+
  show "kernel_dir (pgt s') = kernel_dir (pgt s)" using k p(2) by simp
  have pres: "pg_present (ptables (pgt s) (kernel_dir (pgt s)) (PGDIR_ENTRY v))"
    using pt_okD(8)[OF pages_okD(1)[OF ok]] v PGDIR_user(2)[of v] by simp
  then show r0: "r = 0" and pf: "pframes (pgt s') = pframes (pgt s)" "bitmap_items (pframes (pgt s')) = bitmap_items (pframes (pgt s))"
    using p by (auto simp: paging_map_page_def dir_of_def Let_def)
  show "pte (pgt s') c w = (if page_no w = page_no v then of_nat f OR att else pte (pgt s) c w)"
    if "c \<in> insert (kernel_dir (pgt s)) (dirs s)" "user_addr w \<or> kernel_addr w"
    using k that r0 by (auto simp: p(2) hits_def)
qed

lemma unmap_page_facts [simp]:
  "vpages (unmap_page v d s) = vpages s" "vspaces (unmap_page v d s) = vspaces s" "vregions (unmap_page v d s) = vregions s"
  "vmaps (unmap_page v d s) = vmaps s" "pmem (unmap_page v d s) = pmem s" "next_obj (unmap_page v d s) = next_obj s"
  "cr3 (unmap_page v d s) = cr3 s" "cpu_space (unmap_page v d s) = cpu_space s" "kmem_area (unmap_page v d s) = kmem_area s"
  "dirs (unmap_page v d s) = dirs s"
  by (simp_all add: unmap_page_def dirs_def)

lemma unmap_page_ok:
  assumes ok: "pages_ok U s" and m: "mappable (dirs s) (pgt s) d v"
  shows "pages_ok U (unmap_page v d s)" "kernel_dir (pgt (unmap_page v d s)) = kernel_dir (pgt s)"
    "pframes (pgt (unmap_page v d s)) = pframes (pgt s)"
    "c \<in> insert (kernel_dir (pgt s)) (dirs s) \<Longrightarrow> user_addr w \<or> kernel_addr w \<Longrightarrow>
       pte (pgt (unmap_page v d s)) c w = (if hits (pgt s) d v c w then 0 else pte (pgt s) c w)"
proof -
  obtain r p where p: "paging_unmap_page v d (pgt s) = (r, p)" by force
  note k = paging_unmap_page_ok[OF pages_okD(1)[OF ok] m p]
  have u: "unmap_page v d s = s\<lparr>pgt := p\<rparr>" by (simp add: unmap_page_def p)
  show "pages_ok U (unmap_page v d s)" unfolding u by (rule pages_ok_grow[OF ok]) (use k in simp_all)
  show "kernel_dir (pgt (unmap_page v d s)) = kernel_dir (pgt s)" "pframes (pgt (unmap_page v d s)) = pframes (pgt s)" using k by (simp_all add: u)
  show "pte (pgt (unmap_page v d s)) c w = (if hits (pgt s) d v c w then 0 else pte (pgt s) c w)"
    if "c \<in> insert (kernel_dir (pgt s)) (dirs s)" "user_addr w \<or> kernel_addr w"
  proof -
    have "pgt (unmap_page v d s) = p" by (simp add: u)
    then show ?thesis using k that by blast
  qed
qed

lemma page_no_kernel: "kernel_addr v \<Longrightarrow> page_no w = page_no v \<Longrightarrow> \<not> user_addr w"
  using PGDIR_user[of v] PGDIR_user[of w] by (auto simp: page_no_iff)

section \<open>Changing one page of a region\<close>

definition put_slot :: "nat \<Rightarrow> nat \<Rightarrow> nat option \<Rightarrow> ('f, 'w) vm \<Rightarrow> ('f, 'w) vm" where
  "put_slot r i q s = s\<lparr>vregions := (vregions s)(r := map_option (\<lambda>rg. rg\<lparr>rg_pages := (rg_pages rg)[i := q]\<rparr>) (vregions s r))\<rparr>"

lemma set_page_slot: "vregions s r = Some rg \<Longrightarrow> set_page r i q s = Some (put_slot r i q s)"
  by (simp add: set_page_def put_slot_def)

lemma put_slot_facts [simp]:
  "vpages (put_slot r i q s) = vpages s" "vspaces (put_slot r i q s) = vspaces s"
  "vmaps (put_slot r i q s) = vmaps s" "pmem (put_slot r i q s) = pmem s" "next_obj (put_slot r i q s) = next_obj s"
  "cr3 (put_slot r i q s) = cr3 s" "cpu_space (put_slot r i q s) = cpu_space s" "kmem_area (put_slot r i q s) = kmem_area s"
  "dirs (put_slot r i q s) = dirs s" "pgt (put_slot r i q s) = pgt s"
  by (simp_all add: put_slot_def dirs_def)

lemma paddr_cong: "vpages s' = vpages s \<Longrightarrow> paddr s' = paddr s"
  by (rule ext) (simp add: paddr_def)

lemma paddr_put_slot [simp]: "paddr (put_slot r i q s) = paddr s"
  by (rule paddr_cong) simp

lemma count_list_update:
  "i < length xs \<Longrightarrow> count_list (xs[i := a]) x + (if xs ! i = x then 1 else 0) = count_list xs x + (if a = x then 1 else 0)"
proof (induction xs arbitrary: i)
  case (Cons y ys)
  show ?case
  proof (cases i)
    case (Suc j)
    then show ?thesis using Cons.IH[of j] Cons.prems by (simp split: if_splits)
  qed simp
qed simp

lemma uses_put_slot:
  assumes "regions_ok s" "vregions s r = Some rg" "i < length (rg_pages rg)" "rg_pages rg ! i = old"
  shows "uses (put_slot r i q s) p + (if old = Some p then 1 else 0) = uses s p + (if q = Some p then 1 else 0)"
proof -
  have fin: "finite (dom (vregions s))" using assms(1) by (simp add: regions_ok_def)
  have r: "r \<in> dom (vregions s)" using assms(2) by blast
  have d: "dom (vregions (put_slot r i q s)) = dom (vregions s)" using assms(2) by (auto simp: put_slot_def)
  have o: "pages_of (put_slot r i q s) x = pages_of s x" if "x \<noteq> r" for x using that by (simp add: pages_of_def put_slot_def)
  have n: "pages_of (put_slot r i q s) r = (rg_pages rg)[i := q]" "pages_of s r = rg_pages rg" using assms(2) by (simp_all add: pages_of_def put_slot_def)
  show ?thesis
    unfolding uses_def d sum.remove[OF fin r] n using count_list_update[OF assms(3), of q "Some p"] assms(4) o by simp
qed

lemma region_page_count:
  assumes "region_page s r i = Some p"
  shows "count_list (pages_of s r) (Some p) > 0" "r \<in> dom (vregions s)"
  using assms by (auto simp: region_page_def pages_of_def split: bind_splits if_splits) (metis count_list_0_iff gr0I nth_mem)

lemma uses_pos:
  assumes "regions_ok s" "region_page s r i = Some p"
  shows "0 < uses s p"
proof -
  have fin: "finite (dom (vregions s))" using assms(1) by (simp add: regions_ok_def)
  show ?thesis unfolding uses_def using region_page_count[OF assms(2)] fin by (metis sum_eq_0_iff gr0I less_not_refl)
qed

lemma count_list_two: "i < j \<Longrightarrow> j < length xs \<Longrightarrow> xs ! i = x \<Longrightarrow> xs ! j = x \<Longrightarrow> 2 \<le> count_list xs x"
proof (induction xs arbitrary: i j)
  case (Cons y ys)
  then obtain k where k: "j = Suc k" by (cases j) auto
  have "1 \<le> count_list ys x" using Cons.prems k by (metis One_nat_def Suc_leI count_list_0_iff gr0I length_Cons not_less_eq nth_Cons_Suc nth_mem)
  then show ?case using Cons k by (cases i) auto
qed simp

text \<open>A page with a single reference is in a single place.\<close>

lemma uses_one:
  assumes "regions_ok s" "uses s p = 1" "region_page s r i = Some p" "region_page s r' i' = Some p"
  shows "r = r' \<and> i = i'"
proof -
  have fin: "finite (dom (vregions s))" using assms(1) by (simp add: regions_ok_def)
  note c = region_page_count[OF assms(3)] region_page_count[OF assms(4)]
  have "r = r'"
  proof (rule ccontr)
    assume ne: "r \<noteq> r'"
    have "(\<Sum>x \<in> {r, r'}. count_list (pages_of s x) (Some p)) \<le> uses s p" unfolding uses_def using c fin by (intro sum_mono2) auto
    then show False using ne c assms(2) by simp
  qed
  moreover have "i = i'"
  proof (rule ccontr)
    assume ne: "i \<noteq> i'"
    obtain rg where rg: "vregions s r = Some rg" "i < length (rg_pages rg)" "rg_pages rg ! i = Some p" "i' < length (rg_pages rg)" "rg_pages rg ! i' = Some p"
      using assms(3,4) \<open>r = r'\<close> by (auto simp: region_page_def split: bind_splits if_splits)
    have "2 \<le> count_list (rg_pages rg) (Some p)" using count_list_two[of i i'] count_list_two[of i' i] rg ne by (metis nat_neq_iff)
    moreover have "count_list (pages_of s r) (Some p) \<le> uses s p" unfolding uses_def using c fin by (intro member_le_sum) auto
    ultimately show False using assms(2) rg(1) by (simp add: pages_of_def)
  qed
  ultimately show ?thesis by simp
qed

section \<open>Addresses of a block\<close>

lemma word_dvd_unat: "(PAGE :: u32) dvd w \<longleftrightarrow> 4096 dvd unat w"
proof
  assume "PAGE dvd w"
  then obtain k where "w = PAGE * k" by blast
  then have "unat w = 4096 * unat k mod 2 ^ 32" by (simp add: unat_word_ariths)
  then show "4096 dvd unat w" by (simp add: dvd_mod_iff)
next
  assume "4096 dvd unat w"
  then obtain k where "unat w = 4096 * k" by blast
  then have "(of_nat (unat w) :: u32) = of_nat (4096 * k)" by simp
  then have "w = PAGE * of_nat k" by simp
  then show "PAGE dvd w" by simp
qed

lemma sint_small: "unat (w :: u32) < 2 ^ 31 \<Longrightarrow> sint w = int (unat w)"
proof -
  assume a: "unat w < 2 ^ 31"
  have "sint w = signed_take_bit 31 (int (unat w))" by (simp add: sint_uint)
  also have "int (unat w) < 2 ^ 31" using a by (metis of_nat_less_iff of_nat_numeral of_nat_power)
  then have "signed_take_bit 31 (int (unat w)) = int (unat w)" by (intro signed_take_bit_int_eq_self) linarith+
  finally show ?thesis .
qed

text \<open>A used block is a whole number of pages; addresses are on the same page exactly when they have the same
  page index.\<close>

lemma block_pages:
  assumes a: "area_ok a" and b: "b \<in> set (used_list a)" and v: "unat v \<in> blk b"
  shows "page_idx (bstart b) v < unat (bsize b) div PAGE_SIZE"
    "sint (ROUND_DOWN (v - bstart b) PAGE) = int (page_idx (bstart b) v * PAGE_SIZE)"
    "page_no (bstart b + of_int (sint (ROUND_DOWN (v - bstart b) PAGE))) = page_no v"
    "user_addr (bstart b + of_int (sint (ROUND_DOWN (v - bstart b) PAGE)))"
    "page_no w = page_no v \<longleftrightarrow> unat w \<in> blk b \<and> page_idx (bstart b) w = page_idx (bstart b) v"
proof -
  have al: "4096 dvd unat (bstart b)" "4096 dvd unat (bsize b)"
    using area_okD(4,5)[OF a, of b] b by (simp_all add: word_dvd_unat)
  then obtain c n where c: "unat (bstart b) = 4096 * c" "unat (bsize b) = 4096 * n" by (auto elim!: dvdE)
  have ge: "bstart b \<le> v" and lt: "unat v < 4096 * (c + n)" using v c by (simp_all add: blk_def fin_def word_le_nat_alt)
  then have d: "unat (v - bstart b) = unat v - 4096 * c" and ge': "4096 * c \<le> unat v" using c by (simp_all add: unat_sub word_le_nat_alt)
  have small: "unat v - 4096 * c < 2 ^ 31" using lt area_okD(6)[OF a b] c by simp
  let ?i = "(unat v - 4096 * c) div 4096"
  have i: "page_idx (bstart b) v = ?i" by (simp add: page_idx_def c)
  show "page_idx (bstart b) v < unat (bsize b) div PAGE_SIZE" using lt ge' by (simp add: i c less_mult_imp_div_less)
  have r: "unat (ROUND_DOWN (v - bstart b) PAGE) = 4096 * ?i"
  proof -
    have "(v - bstart b) mod PAGE \<le> v - bstart b" by (simp add: word_le_nat_alt unat_mod_distrib)
    then have "unat (ROUND_DOWN (v - bstart b) PAGE) = unat (v - bstart b) - unat (v - bstart b) mod 4096"
      by (simp add: ROUND_DOWN_def unat_sub unat_mod_distrib)
    then show ?thesis unfolding d by (simp add: minus_mod_eq_mult_div)
  qed
  then have "sint (ROUND_DOWN (v - bstart b) PAGE) = int (4096 * ?i)" using small by (subst sint_small) simp_all
  then show "sint (ROUND_DOWN (v - bstart b) PAGE) = int (page_idx (bstart b) v * PAGE_SIZE)" by (simp add: i mult.commute)
  have "unat (bstart b + ROUND_DOWN (v - bstart b) PAGE) = 4096 * (c + ?i)"
    using r c(1) area_ok_block(3)[OF a b] lt ge' by (subst unat_add_no_wrap) (simp_all add: fin_def c algebra_simps)
  then have u: "unat (bstart b + of_int (sint (ROUND_DOWN (v - bstart b) PAGE))) = 4096 * (c + ?i)" by simp
  have vi: "unat v div 4096 = c + ?i" using ge' by (metis div_mult_self2 le_add_diff_inverse zero_neq_numeral add.commute)
  show "page_no (bstart b + of_int (sint (ROUND_DOWN (v - bstart b) PAGE))) = page_no v" unfolding page_no_def u vi by simp
  have "4096 * (c + ?i) \<le> unat v" using vi by (metis div_times_less_eq_dividend mult.commute)
  then show "user_addr (bstart b + of_int (sint (ROUND_DOWN (v - bstart b) PAGE)))"
    using area_ok_block(5)[OF a b v] u by (simp add: user_addr_def word_less_nat_alt)
  show "page_no w = page_no v \<longleftrightarrow> unat w \<in> blk b \<and> page_idx (bstart b) w = page_idx (bstart b) v"
  proof
    assume p: "page_no w = page_no v"
    then have w: "unat w div 4096 = c + ?i" using vi by (simp add: page_no_def)
    have "?i < n" using lt ge' by (simp add: less_mult_imp_div_less)
    then have "4096 * c \<le> unat w" "unat w < 4096 * (c + n)" using w
      by (metis le_add1 less_eq_div_iff_mult_less_eq mult.commute zero_less_numeral)
        (metis w \<open>?i < n\<close> add_strict_left_mono div_less_iff_less_mult mult.commute zero_less_numeral)
    moreover from this have "(unat w - 4096 * c) div 4096 = ?i"
      using w by (metis add_left_imp_eq div_mult_self2 le_add_diff_inverse zero_neq_numeral add.commute)
    ultimately show "unat w \<in> blk b \<and> page_idx (bstart b) w = page_idx (bstart b) v" by (simp add: blk_def fin_def c page_idx_def)
  next
    assume w: "unat w \<in> blk b \<and> page_idx (bstart b) w = page_idx (bstart b) v"
    then have "4096 * c \<le> unat w" "(unat w - 4096 * c) div 4096 = ?i" by (simp_all add: blk_def fin_def c page_idx_def)
    then have "unat w div 4096 = c + ?i" by (metis div_mult_self2 le_add_diff_inverse zero_neq_numeral add.commute)
    then show "page_no w = page_no v" using vi by (simp add: page_no_def)
  qed
qed

section \<open>The effect of a fault\<close>

lemma region_page_put_slot:
  assumes "vregions s r = Some rg" "i < length (rg_pages rg)"
  shows "region_page (put_slot r i q s) r' j = (if r' = r \<and> j = i then q else region_page s r' j)"
  using assms by (auto simp: region_page_def put_slot_def)

lemma map_at_cong: "vspaces s' = vspaces s \<Longrightarrow> vmaps s' = vmaps s \<Longrightarrow> map_at s' = map_at s"
  by (intro ext) (simp add: map_at_def block_at_def)

lemma spaces_ok_cong:
  assumes "spaces_ok s" "vspaces s' = vspaces s" "vmaps s' = vmaps s" "next_obj s \<le> next_obj s'"
  shows "spaces_ok s'"
proof -
  have "maps_block s' sp b m mp = maps_block s sp b m mp" for sp b m mp by (simp add: maps_block_def assms(3))
  moreover have "sp < next_obj s'" if "vspaces s sp = Some x" for sp x using spaces_okD(1)[OF assms(1) that] assms(4) by simp
  ultimately show ?thesis using assms(1) unfolding spaces_ok_def assms(2) by blast
qed

lemma maps_ok_cong:
  assumes "maps_ok s" "vspaces s' = vspaces s" "vmaps s' = vmaps s" "next_obj s \<le> next_obj s'"
    "\<And>r y. vregions s r = Some y \<Longrightarrow> \<exists>y'. vregions s' r = Some y' \<and> rg_size y' = rg_size y"
  shows "maps_ok s'"
proof -
  have mb: "maps_block s' sp b m mp = maps_block s sp b m mp" for sp b m mp by (simp add: maps_block_def assms(3))
  have "m < next_obj s'" if "vmaps s m = Some mp" for m mp using maps_okD(1)[OF assms(1) that] assms(4) by simp
  moreover have "\<exists>rg. vregions s' (mp_region mp) = Some rg \<and> rg_size rg = bsize (mp_block mp)" if "vmaps s m = Some mp" for m mp
    using maps_okD(4)[OF assms(1) that] assms(5) by metis
  ultimately show ?thesis using assms(1) unfolding maps_ok_def assms(2,3) mb by blast
qed

text \<open>
  \<open>faulted s s' sp v mp q f att\<close>: the page at \<open>v\<close> became \<open>q\<close>, with frame \<open>f\<close> and an entry with the flags \<open>att\<close>,
  and the frame has the bytes the address space saw there before.
\<close>

definition faulted :: "('f, 'w) vm \<Rightarrow> ('f, 'w) vm \<Rightarrow> nat \<Rightarrow> u32 \<Rightarrow> vm_mapping \<Rightarrow> nat \<Rightarrow> nat \<Rightarrow> u32 \<Rightarrow> bool" where
  "faulted s s' sp v mp q f att \<longleftrightarrow>
     (let r = mp_region mp; i = page_idx (bstart (mp_block mp)) v; old = region_page s r i in
      vregions s' = vregions (put_slot r i (Some q) s) \<and> vspaces s' = vspaces s \<and> vmaps s' = vmaps s \<and> cr3 s' = cr3 s \<and>
      cpu_space s' = cpu_space s \<and> kernel_dir (pgt s') = kernel_dir (pgt s) \<and> kmem_ok (kmem_area s') \<and> next_obj s \<le> next_obj s' \<and>
      pages_ok (uses s') s' \<and> paddr s' q = Some f \<and>
      (old = Some q \<or> uses s q = 0 \<and> (old = None \<or> mp_flags mp AND PROT_WRITE = PROT_WRITE)) \<and>
      (\<forall>p. p \<noteq> q \<longrightarrow> 0 < uses s' p \<longrightarrow> paddr s' p = paddr s p \<and> (\<forall>g. paddr s p = Some g \<longrightarrow> pmem s' g = pmem s g)) \<and>
      (\<forall>p g. old = Some p \<longrightarrow> paddr s p = Some g \<longrightarrow> pmem s' f = pmem s g \<and> (p = q \<longrightarrow> g = f)) \<and>
      (old = None \<longrightarrow> pmem s' f = (\<lambda>_. 0) \<and> (\<exists>rg. vregions s r = Some rg \<and> rg_ops rg = Anon_ops)) \<and>
      att AND NOT (mask 12) = 0 \<and> (att AND PG_FLAG_RW \<noteq> 0 \<longrightarrow> uses s' q = 1) \<and>
      (\<forall>x. vspaces s sp = Some x \<longrightarrow> (\<forall>c w. c \<in> dirs s \<longrightarrow> user_addr w \<longrightarrow>
         pte (pgt s') c w = (if c = sp_dir x \<and> page_no w = page_no v then of_nat f OR att else pte (pgt s) c w))))"

lemma faulted_ok:
  assumes inv: "vm_inv s" and m: "map_at s sp v = Some mp" and f: "faulted s s' sp v mp q f att"
  shows "vm_inv s'" "view s' sp' w = view s sp' w" "map_at s' = map_at s"
    "vspaces s sp = Some x \<Longrightarrow> pte (pgt s') (sp_dir x) v = of_nat f OR att" "table_of (of_nat f OR att) = f" "(of_nat f OR att) AND PG_FLAG_RW = att AND PG_FLAG_RW"
proof -
  note sp = vm_invD(2)[OF inv] and mo = vm_invD(3)[OF inv] and ro = vm_invD(4)[OF inv]
  define r i where "r = mp_region mp" and "i = page_idx (bstart (mp_block mp)) v"
  note F = f[unfolded faulted_def Let_def, folded r_def i_def]
  obtain x b k where x: "vspaces s sp = Some x" "b \<in> set (used_list (sp_area x))" "unat v \<in> blk b" "maps_block s sp b k mp"
    using m map_at_iff[OF sp] by blast
  note a = spaces_okD(2)[OF sp x(1)]
  have bs: "bstart (mp_block mp) = bstart b" and km: "vmaps s k = Some mp" and bz: "bsize (mp_block mp) = bsize b"
    using x(4) by (simp_all add: maps_block_def)
  obtain rg where rg: "vregions s r = Some rg" "rg_size rg = bsize (mp_block mp)" using maps_okD(4)[OF mo km] r_def by blast
  have il: "i < length (rg_pages rg)"
    using block_pages(1)[OF a x(2,3)] regions_okD(4)[OF ro rg(1)] rg(2) bz bs by (simp add: i_def)
  define old where "old = region_page s r i"
  have oldn: "rg_pages rg ! i = old" using rg il by (simp add: old_def region_page_def)
  have vr: "vregions s' = vregions (put_slot r i (Some q) s)" using F by blast
  have rp: "region_page s' r' j = (if r' = r \<and> j = i then Some q else region_page s r' j)" for r' j
    using region_page_put_slot[OF rg(1) il, of "Some q" r' j] vr by (simp add: region_page_def)
  have us: "uses s' p + (if old = Some p then 1 else 0) = uses s p + (if q = p then 1 else 0)" for p
    using uses_put_slot[OF ro rg(1) il oldn, of "Some q" p] vr by (simp add: uses_def pages_of_def)
  show ma: "map_at s' = map_at s" using F by (intro map_at_cong) blast+
  have pa: "page_at s' sp' w = (case map_at s sp' w of None \<Rightarrow> None | Some np \<Rightarrow>
      if mp_region np = r \<and> page_idx (bstart (mp_block np)) w = i then Some q else page_at s sp' w)" for sp' w
    by (simp add: page_at_def ma rp split: option.split)
  have ro': "regions_ok s'"
  proof -
    have sh: "sharers s' = sharers s" using F by (intro ext) (simp add: sharers_def)
    have "\<exists>y. vregions s r' = Some y \<and> rg_refs y' = rg_refs y \<and> length (rg_pages y') = length (rg_pages y) \<and> rg_size y' = rg_size y"
      if "vregions s' r' = Some y'" for r' y' using that rg(1) by (auto simp: vr put_slot_def split: if_splits)
    moreover have "dom (vregions s') = dom (vregions s)" using rg(1) by (auto simp: vr put_slot_def)
    ultimately show ?thesis using ro F unfolding regions_ok_def sh by (metis order.strict_trans2)
  qed
  have al: "4096 dvd f" "f < 2 ^ 32"
  proof -
    obtain y where "vpages s' q = Some y" "pg_address y = f" using F by (auto simp: paddr_def)
    then have "frame_addr_used (pframes (pgt s')) f" using pages_okD(7)[of "uses s'" s' q y] F by blast
    moreover have "phys_wf (pframes (pgt s'))" using F pages_okD(1)[of "uses s'" s'] pt_okD(1) by blast
    ultimately show "4096 dvd f" "f < 2 ^ 32" by (auto simp: frame_addr_used_def phys_wf_def elim!: dvdE)
  qed
  have at: "att AND NOT (mask 12) = 0" using F by blast
  show to: "table_of (of_nat f OR att) = f" using entry_flags(1)[OF al at low_flags(4)] .
  show rw: "(of_nat f OR att) AND PG_FLAG_RW = att AND PG_FLAG_RW"
    using entry_flags(2)[OF al at, of PG_FLAG_RW] by (simp add: PG_FLAG_RW_def mask_eq_exp_minus_1)
  have hit: "\<exists>y. vspaces s sp' = Some y \<and> (sp' = sp \<and> page_no w = page_no v \<or> \<not> mp_flags mp AND PROT_WRITE = PROT_WRITE)"
    if h: "map_at s sp' w = Some np" "mp_region np = r" "page_idx (bstart (mp_block np)) w = i" for sp' w np
  proof -
    obtain y c n where y: "vspaces s sp' = Some y" "c \<in> set (used_list (sp_area y))" "unat w \<in> blk c" "maps_block s sp' c n np"
      using h(1) map_at_iff[OF sp] by blast
    have nn: "vmaps s n = Some np" "mp_space np = sp'" "bstart (mp_block np) = bstart c" "bsize (mp_block np) = bsize c" using y(4) by (simp_all add: maps_block_def)
    have "sp' = sp \<and> page_no w = page_no v" if "mp_flags mp AND PROT_WRITE = PROT_WRITE"
    proof -
      have "n = k" using maps_okD(5)[OF mo km nn(1) _ that] h(2) r_def by simp
      then have "np = mp" using nn(1) km by simp
      moreover from this have "sp' = sp" using nn(2) x(4) by (simp add: maps_block_def)
      ultimately show ?thesis using block_pages(5)[OF a x(2,3), of w] h(3) y(3) nn(3,4) bs bz by (simp add: i_def blk_def fin_def)
    qed
    then show ?thesis using y(1) by blast
  qed
  show "view s' sp' w = view s sp' w"
  proof (cases "map_at s sp' w")
    case None
    then show ?thesis by (simp add: view_def ma)
  next
    case (Some np)
    obtain y c n where y: "vspaces s sp' = Some y" "c \<in> set (used_list (sp_area y))" "maps_block s sp' c n np"
      using Some map_at_iff[OF sp] by blast
    obtain ng where ng: "vregions s (mp_region np) = Some ng" using maps_okD(4)[OF mo, of n np] y(3) by (auto simp: maps_block_def)
    then have "\<exists>ng'. vregions s' (mp_region np) = Some ng' \<and> rg_ops ng' = rg_ops ng"
      using rg(1) by (cases "mp_region np = r") (auto simp: vr put_slot_def)
    then obtain ng' where ng': "vregions s' (mp_region np) = Some ng'" "rg_ops ng' = rg_ops ng" by blast
    let ?j = "page_idx (bstart (mp_block np)) w"
    show ?thesis
    proof (cases "mp_region np = r \<and> ?j = i")
      case True
      then have r': "region_page s' (mp_region np) ?j = Some q" "region_page s (mp_region np) ?j = old" by (simp_all add: rp old_def)
      have "paddr s' q = Some f" using F by blast
      moreover have "\<exists>g. paddr s p = Some g" if "old = Some p" for p
        using pages_ok_live[OF vm_invD(1)[OF inv], of p] uses_pos[OF ro] that by (fastforce simp: old_def paddr_def)
      ultimately show ?thesis using Some ng ng' F True rg(1) unfolding view_def ma
        by (cases old) (auto simp: r' old_def[symmetric])
    next
      case False
      then have r': "region_page s' (mp_region np) ?j = region_page s (mp_region np) ?j" by (auto simp: rp)
      show ?thesis
      proof (cases "region_page s (mp_region np) ?j")
        case None
        then show ?thesis using Some ng ng' by (simp add: view_def ma r')
      next
        case (Some p)
        have pos': "0 < uses s' p" using uses_pos[OF ro', of "mp_region np" ?j p] r' Some by simp
        have "paddr s' p = paddr s p \<and> (\<forall>g. paddr s p = Some g \<longrightarrow> pmem s' g = pmem s g)"
        proof (cases "p = q")
          case True
          then have "old = Some q" using F uses_pos[OF ro Some] old_def by auto
          moreover obtain g where "paddr s q = Some g"
            using pages_ok_live[OF vm_invD(1)[OF inv] uses_pos[OF ro Some]] True by (auto simp: paddr_def)
          ultimately show ?thesis using F True by (simp add: old_def)
        qed (use F pos' in blast)
        then show ?thesis using \<open>map_at s sp' w = Some np\<close> ng ng' Some by (auto simp: view_def ma r' split: bind_splits)
      qed
    qed
  qed
  have pt: "pte (pgt s') (sp_dir y) w = (if sp' = sp \<and> page_no w = page_no v then of_nat f OR att else pte (pgt s) (sp_dir y) w)"
    if "vspaces s sp' = Some y" "user_addr w" for sp' y w
  proof -
    have "sp_dir y = sp_dir x \<longleftrightarrow> sp' = sp" using spaces_okD(4)[OF sp that(1) x(1)] that(1) x(1) by auto
    moreover have "pte (pgt s') (sp_dir y) w = (if sp_dir y = sp_dir x \<and> page_no w = page_no v then of_nat f OR att else pte (pgt s) (sp_dir y) w)"
      using F x(1) spaces_okD(5)[OF sp that(1)] that(2) by blast
    ultimately show ?thesis by simp
  qed
  show "pte (pgt s') (sp_dir z) v = of_nat f OR att" if "vspaces s sp = Some z" for z
    using pt[OF that area_ok_block(5)[OF a x(2,3)]] by simp
  have "ptes_ok s'" unfolding ptes_ok_def
  proof (intro allI impI)
    fix sp' y w assume w: "vspaces s' sp' = Some y \<and> user_addr w \<and> pg_present (pte (pgt s') (sp_dir y) w)"
    then have y: "vspaces s sp' = Some y" using F by simp
    let ?e = "pte (pgt s') (sp_dir y) w"
    show "\<exists>p. page_at s' sp' w = Some p \<and> paddr s' p = Some (table_of ?e) \<and> (?e AND PG_FLAG_RW \<noteq> 0 \<longrightarrow> uses s' p = 1)"
    proof (cases "sp' = sp \<and> page_no w = page_no v")
      case True
      then have wb: "unat w \<in> blk b" "page_idx (bstart b) w = page_idx (bstart b) v" using block_pages(5)[OF a x(2,3)] by blast+
      then have "map_at s sp w = Some mp" using x map_at_iff[OF sp] by blast
      then have "page_at s' sp' w = Some q" using True wb(2) by (simp add: pa r_def i_def bs)
      then show ?thesis using F pt[OF y] w True to rw by simp
    next
      case False
      then have e: "?e = pte (pgt s) (sp_dir y) w" using pt[OF y] w by auto
      then obtain p where p: "page_at s sp' w = Some p" "paddr s p = Some (table_of ?e)" "?e AND PG_FLAG_RW \<noteq> 0 \<longrightarrow> uses s p = 1"
        using vm_invD(5)[OF inv] y w unfolding ptes_ok_def by metis
      then obtain np where np: "map_at s sp' w = Some np" "region_page s (mp_region np) (page_idx (bstart (mp_block np)) w) = Some p"
        by (auto simp: page_at_def split: bind_splits)
      show ?thesis
      proof (cases "mp_region np = r \<and> page_idx (bstart (mp_block np)) w = i")
        case True
        then have "old = Some p" using np(2) by (simp add: old_def)
        moreover have "\<not> mp_flags mp AND PROT_WRITE = PROT_WRITE" using hit[OF np(1)] True False by blast
        ultimately have "p = q" using F old_def by auto
        then show ?thesis using p F True np(1) us[of q] \<open>old = Some p\<close> by (simp add: pa old_def)
      next
        case hitn: False
        then have q': "page_at s' sp' w = Some p" using hitn np p(1) by (auto simp: pa)
        have pos': "0 < uses s' p" using uses_pos[OF ro', of "mp_region np" "page_idx (bstart (mp_block np)) w" p] np(2) hitn by (simp add: rp)
        have pos: "0 < uses s p" using uses_pos[OF ro np(2)] .
        have "paddr s' p = paddr s p" and ule: "uses s' p \<le> uses s p"
        proof -
          have "old = Some q" if "p = q" using F pos that old_def by auto
          then show "paddr s' p = paddr s p" using F pos' p(2) old_def by (cases "p = q") auto
          show "uses s' p \<le> uses s p" using us[of p] \<open>p = q \<Longrightarrow> old = Some q\<close> by (cases "p = q") auto
        qed
        then show ?thesis using q' p pos' by auto
      qed
    qed
  qed
  moreover have "spaces_ok s'" using F by (intro spaces_ok_cong[OF sp]) blast+
  moreover have "maps_ok s'"
  proof -
    have "\<exists>y'. vregions s' r' = Some y' \<and> rg_size y' = rg_size y" if "vregions s r' = Some y" for r' y
      using that rg(1) by (auto simp: vr put_slot_def)
    then show ?thesis using F by (intro maps_ok_cong[OF mo]) blast+
  qed
  moreover have "cpu_ok s'" using vm_invD(6)[OF inv] F by (simp add: cpu_ok_def split: option.splits)
  ultimately show "vm_inv s'" using F ro' by (simp add: vm_inv_def)
qed

lemma new_page_facts [simp]:
  assumes "new_page off f s = (q, s')"
  shows "vspaces s' = vspaces s" "vregions s' = vregions s" "vmaps s' = vmaps s" "pmem s' = pmem s" "cr3 s' = cr3 s"
    "cpu_space s' = cpu_space s" "kmem_area s' = kmem_area s" "dirs s' = dirs s" "pgt s' = pgt s" "next_obj s' = Suc (next_obj s)"
    "q = next_obj s" "vpages s' = (vpages s)(q \<mapsto> \<lparr>pg_refs = 1, pg_offset = off, pg_address = f\<rparr>)"
  using assms by (auto simp: new_page_def fresh_obj_def intro!: dirs_cong)

lemma new_page_ok:
  assumes ok: "pages_ok U s" and np: "new_page off f s = (q, s')"
    and f: "f \<noteq> 0" "pf_used (pgt s) f" "f \<notin> pt_frames (dirs s) (pgt s)" "\<And>p. paddr s p \<noteq> Some f"
  shows "U q = 0" "pages_ok (U(q := 1)) s'" "paddr s' = (paddr s)(q \<mapsto> f)"
proof -
  have q: "q = next_obj s" using np by (rule new_page_facts)
  have n: "vpages s q = None" using pages_okD(10)[OF ok, of q] q by (cases "vpages s q") auto
  then show u: "U q = 0" using pages_okD(3)[OF ok] by simp
  have vp: "vpages s' = (vpages s)(q \<mapsto> \<lparr>pg_refs = 1, pg_offset = off, pg_address = f\<rparr>)" using np by simp
  then show "paddr s' = (paddr s)(q \<mapsto> f)" by (intro ext) (simp add: paddr_def)
  have nf: "pg_address y \<noteq> f" if "vpages s p = Some y" for p y using f(4)[of p] that by (simp add: paddr_def)
  show "pages_ok (U(q := 1)) s'"
  proof (rule pages_okI)
    fix p y p' y' assume "vpages s' p = Some y" "vpages s' p' = Some y'" "pg_address y = pg_address y'"
    then show "p = p'" using pages_okD(9)[OF ok, of p y p' y'] nf[of p y] nf[of p' y'] by (auto simp: vp split: if_splits)
  next
    fix p y assume y: "vpages s' p = Some y"
    show "0 < (U(q := 1)) p \<and> pg_refs y = int ((U(q := 1)) p) \<and> pg_address y \<noteq> 0 \<and> p < next_obj s'"
      using y pages_okD(4-6,10)[OF ok, of p y] np f(1) q by (auto simp: vp split: if_splits)
    show "pf_used (pgt s') (pg_address y) \<and> pg_address y \<notin> pt_frames (dirs s') (pgt s')"
      using y pages_okD(7,8)[OF ok, of p y] np f(2,3) by (auto simp: vp split: if_splits)
  qed (use pages_okD(1-3)[OF ok] np in \<open>auto simp: vp split: if_splits\<close>)
qed

lemma pages_ok_cong:
  "pages_ok U s \<Longrightarrow> vpages s' = vpages s \<Longrightarrow> vspaces s' = vspaces s \<Longrightarrow> pgt s' = pgt s \<Longrightarrow> next_obj s \<le> next_obj s' \<Longrightarrow> pages_ok U s'"
  using dirs_cong[of s' s] by (auto intro!: pages_okI dest: pages_okD)

lemma map_page_present:
  assumes "pg_present (pte (pgt s) d v)" "map_page v f att (Some d) s = (r, s')"
  shows "r = 0"
proof -
  have "pg_present (ptables (pgt s) d (PGDIR_ENTRY v))"
    using assms(1) by (auto simp: pte_def Let_def PG_FLAG_PRESENT_def split: if_splits)
  then show ?thesis using assms(2) by (auto simp: map_page_def paging_map_page_def dir_of_def Let_def)
qed

lemma present_flags:
  "pg_present (PG_FLAG_USER OR PG_FLAG_RW OR PG_FLAG_PRESENT)" "pg_present (PG_FLAG_USER OR PG_FLAG_PRESENT)"
  "pg_present (PG_FLAG_RW OR PG_FLAG_PRESENT)" "pg_present PG_FLAG_PRESENT" "(PG_FLAG_RW OR PG_FLAG_PRESENT) AND PG_FLAG_RW \<noteq> 0"
  "(PG_FLAG_USER OR PG_FLAG_RW OR PG_FLAG_PRESENT) AND PG_FLAG_RW \<noteq> 0" "(PG_FLAG_USER OR PG_FLAG_PRESENT) AND PG_FLAG_RW = 0"
  "(PG_FLAG_USER OR PG_FLAG_RW OR PG_FLAG_PRESENT) AND PG_FLAG_USER \<noteq> 0" "(PG_FLAG_USER OR PG_FLAG_PRESENT) AND PG_FLAG_USER \<noteq> 0"
  by (simp_all add: PG_FLAG_USER_def PG_FLAG_RW_def PG_FLAG_PRESENT_def)

lemma entry_present:
  assumes "4096 dvd f" "f < 2 ^ 32" "att AND NOT (mask 12) = 0" "pg_present att"
  shows "pg_present (of_nat f OR att)"
  using entry_flags(2)[OF assms(1-3) low_flags(4)] assms(4) by simp

text \<open>The kernel's access to a page it has just mapped for itself in the current address space.\<close>

lemma kframe_user:
  assumes ok: "pages_ok U s" and d: "d \<in> dirs s" "cr3 s = d" and v: "user_addr v"
    and e: "pte (pgt s) d v = of_nat f OR att" "4096 dvd f" "f < 2 ^ 32" "att AND NOT (mask 12) = 0" "pg_present att"
      "rw \<longrightarrow> att AND PG_FLAG_RW \<noteq> 0"
  shows "kframe v rw s = Some f"
  using mmu_user[OF pages_okD(1)[OF ok] d(1) v, of False rw] entry_present[OF e(2-5)] e(1,6) entry_flags[OF e(2-4), of PG_FLAG_RW] d(2)
  by (simp add: kframe_def PG_FLAG_RW_def mask_eq_exp_minus_1)

section \<open>The three kinds of fault\<close>

text \<open>What the handler has found out when it calls \<open>vm_getpage\<close>.\<close>

definition fault_at :: "('f, 'w) vm \<Rightarrow> nat \<Rightarrow> u32 \<Rightarrow> vm_space \<Rightarrow> sma_block \<Rightarrow> nat \<Rightarrow> vm_mapping \<Rightarrow> vm_region \<Rightarrow> int \<Rightarrow> bool" where
  "fault_at s sp v x b m mp rg off \<longleftrightarrow> vm_inv s \<and> cpu_space s = Some sp \<and> vspaces s sp = Some x \<and> b \<in> set (used_list (sp_area x)) \<and>
     unat v \<in> blk b \<and> maps_block s sp b m mp \<and> vregions s (mp_region mp) = Some rg \<and> off = int (page_idx (bstart b) v * PAGE_SIZE)"

lemma fault_atD:
  assumes "fault_at s sp v x b m mp rg off"
  shows "vm_inv s" "cpu_space s = Some sp" "vspaces s sp = Some x" "cr3 s = sp_dir x" "sp_dir x \<in> dirs s" "vmaps s m = Some mp"
    "map_at s sp v = Some mp" "page_idx (bstart b) v < length (rg_pages rg)" "bstart (mp_block mp) = bstart b"
    "user_addr (bstart b + of_int off)" "page_no (bstart b + of_int off) = page_no v" "vregions s (mp_region mp) = Some rg" "0 \<le> off"
    "nat (off div int PAGE_SIZE) = page_idx (bstart b) v" "cpu_dir s = Some (sp_dir x)" "ROUND_DOWN off (int PAGE_SIZE) = off"
    "mp_flags mp AND MAP_SHARED = 0" "user_addr v"
proof -
  note f = assms[unfolded fault_at_def]
  have inv: "vm_inv s" and x: "vspaces s sp = Some x" and b: "b \<in> set (used_list (sp_area x))" "unat v \<in> blk b" and mb: "maps_block s sp b m mp"
    and rg: "vregions s (mp_region mp) = Some rg" and c: "cpu_space s = Some sp" and off: "off = int (page_idx (bstart b) v * PAGE_SIZE)"
    using f by blast+
  note i = vm_invD[OF inv]
  note a = spaces_okD(2)[OF i(2) x]
  show "vm_inv s" "cpu_space s = Some sp" "vspaces s sp = Some x" "vregions s (mp_region mp) = Some rg" using inv c x rg by blast+
  show cr: "cr3 s = sp_dir x" using i(6) c x by (simp add: cpu_ok_def)
  show "sp_dir x \<in> dirs s" using spaces_okD(5)[OF i(2) x] .
  show vm: "vmaps s m = Some mp" and bs: "bstart (mp_block mp) = bstart b" using mb by (simp_all add: maps_block_def)
  show "map_at s sp v = Some mp" using map_at_iff[OF i(2)] x b mb by blast
  note p = block_pages[OF a b]
  have "rg_size rg = bsize b" using maps_okD(4)[OF i(3) vm] rg mb by (auto simp: maps_block_def)
  then show "page_idx (bstart b) v < length (rg_pages rg)" using p(1) regions_okD(4)[OF i(4) rg] by simp
  have o: "off = sint (ROUND_DOWN (v - bstart b) PAGE)" using p(2) off by simp
  show "user_addr (bstart b + of_int off)" "page_no (bstart b + of_int off) = page_no v" using p(3,4) o by simp_all
  show "0 \<le> off" using off by simp
  show "nat (off div int PAGE_SIZE) = page_idx (bstart b) v" unfolding off of_nat_mult by simp
  show "cpu_dir s = Some (sp_dir x)" using c x by (simp add: cpu_dir_def)
  show "ROUND_DOWN off (int PAGE_SIZE) = off" unfolding off of_nat_mult by (simp add: ROUND_DOWN_def)
  show "mp_flags mp AND MAP_SHARED = 0" using maps_okD(2)[OF i(3) vm] .
  show "user_addr v" using area_ok_block(5)[OF a b] .
qed

lemma page_frame:
  assumes "pages_ok U s" "paddr s p = Some f"
  shows "4096 dvd f" "f < 2 ^ 32" "f \<noteq> 0" "pf_used (pgt s) f" "f \<notin> pt_frames (dirs s) (pgt s)"
proof -
  obtain y where y: "vpages s p = Some y" "pg_address y = f" using assms(2) by (auto simp: paddr_def)
  show u: "pf_used (pgt s) f" "f \<noteq> 0" "f \<notin> pt_frames (dirs s) (pgt s)" using pages_okD(6-8)[OF assms(1) y(1)] y(2) by auto
  moreover have "phys_wf (pframes (pgt s))" using pt_okD(1)[OF pages_okD(1)[OF assms(1)]] .
  ultimately show "4096 dvd f" "f < 2 ^ 32" by (auto simp: frame_addr_used_def phys_wf_def elim!: dvdE)
qed

lemma page_other_frame:
  assumes "pages_ok U s" "paddr s p = Some f" "paddr s q = Some f"
  shows "p = q"
  using assms by (auto simp: paddr_def dest: pages_okD(9))

text \<open>A page that is there is made visible, without the permission to write.\<close>

lemma fault_read:
  assumes fa: "fault_at s sp v x b m mp rg off" and mem: "memory_left s" and p: "rg_pages rg ! page_idx (bstart b) v = Some p"
  shows "\<exists>s' f. vm_getpage m off False s = Some (0, s') \<and> faulted s s' sp v mp p f (PG_FLAG_USER OR PG_FLAG_PRESENT)"
proof -
  note f = fault_atD[OF fa]
  note i = vm_invD[OF f(1)]
  let ?i = "page_idx (bstart b) v" and ?v = "bstart b + of_int off" and ?att = "PG_FLAG_USER OR PG_FLAG_PRESENT"
  have rp: "region_page s (mp_region mp) ?i = Some p" using f(8,12) p by (simp add: region_page_def)
  obtain y where y: "vpages s p = Some y" using pages_ok_live[OF i(1) uses_pos[OF i(4) rp]] by blast
  have pa: "paddr s p = Some (pg_address y)" using y by (simp add: paddr_def)
  obtain r s' where r: "map_page ?v (pg_address y) ?att (Some (sp_dir x)) s = (r, s')" by force
  note k = map_page_ok[OF i(1) f(5,10) r]
  obtain g where "free_frame s g" using mem by (auto simp: memory_left_def)
  then have r0: "r = 0" by (rule k(4))
  have ms: "mp_flags mp AND MAP_SHARED \<noteq> MAP_SHARED" using f(17) by (simp add: MAP_SHARED_def)
  have res: "vm_getpage m off False s = Some (0, s')"
    using f(6,8,9,12-15) p y r ms by (simp add: vm_getpage_def)
  have vr: "vregions s' = vregions (put_slot (mp_region mp) ?i (Some p) s)"
    using r f(8,12) p by (simp add: put_slot_def fun_eq_iff) (metis (no_types) list_update_id vm_region.surjective vm_region.update_convs(3))
  have us: "uses s' = uses s" using r by (intro ext) (simp add: uses_def pages_of_def)
  have sp: "paddr s' = paddr s" using r by (intro paddr_cong) simp
  have "faulted s s' sp v mp p (pg_address y) ?att"
    unfolding faulted_def Let_def f(9) rp us sp
    using r k r0 vr i(1,7) pa f(3,11) present_flags(7) low_flags(2) by simp
  with res show ?thesis by blast
qed

text \<open>A new anonymous page: a zeroed frame.\<close>

lemma anon_getpage:
  assumes fa: "fault_at s sp v x b m mp rg off" and mem: "memory_left s"
  defines "w \<equiv> bstart b + of_int off"
  shows "\<exists>s' q f. vm_mmap_anon_getpage mp off s = Some (Some q, s') \<and> q = next_obj s \<and> uses s q = 0 \<and> pages_ok ((uses s)(q := 1)) s' \<and>
    paddr s' = (paddr s)(q \<mapsto> f) \<and> (\<forall>p. paddr s p \<noteq> Some f) \<and> pmem s' = (pmem s)(f := (\<lambda>_. 0)) \<and> next_obj s' = Suc (next_obj s) \<and>
    vregions s' = vregions s \<and> vmaps s' = vmaps s \<and> vspaces s' = vspaces s \<and> cr3 s' = cr3 s \<and> cpu_space s' = cpu_space s \<and>
    kmem_area s' = kmem_area s \<and> kernel_dir (pgt s') = kernel_dir (pgt s) \<and> 4096 dvd f \<and> f < 2 ^ 32 \<and>
    (\<forall>c u. c \<in> dirs s \<longrightarrow> user_addr u \<longrightarrow> pte (pgt s') c u =
       (if c = sp_dir x \<and> page_no u = page_no v then of_nat f OR PG_FLAG_RW OR PG_FLAG_PRESENT else pte (pgt s) c u))"
proof -
  note f = fault_atD[OF fa]
  note i = vm_invD[OF f(1)]
  obtain fr s1 where al: "frame_alloc (PHYS_KERNEL OR PHYS_ZONE_HIGH) s = (fr, s1)" by force
  note k1 = frame_alloc_ok[OF i(1) al]
  obtain g0 where "free_frame s g0" using mem by (auto simp: memory_left_def)
  then have nz: "fr \<noteq> 0" by (rule k1(9))
  obtain g where g: "free_frame s1 g" using k1(10)[OF mem] by blast
  have cd: "cpu_dir s1 = Some (sp_dir x)" using f(2,3) al by (simp add: cpu_dir_def)
  obtain r s2 where mp2: "map_page w fr (PG_FLAG_RW OR PG_FLAG_PRESENT) (Some (sp_dir x)) s1 = (r, s2)" by force
  have ds1: "sp_dir x \<in> dirs s1" using f(5) k1(4) by simp
  have w: "user_addr w" "page_no w = page_no v" using f(10,11) by (simp_all add: w_def)
  note k2 = map_page_ok[OF k1(1) ds1 w(1) mp2]
  have r0: "r = 0" using k2(4)[OF g] .
  have pt: "pte (pgt s2) c u = (if c = sp_dir x \<and> page_no u = page_no v then of_nat fr OR PG_FLAG_RW OR PG_FLAG_PRESENT else pte (pgt s) c u)"
    if "c \<in> dirs s" "user_addr u" for c u using k2(5)[OF r0, of c u] that w(2) k1(2,4) by simp
  have kf: "kframe w True s2 = Some fr"
    using pt[OF f(5) w(1)] f(4) al mp2 w ds1 present_flags(3,5) low_flags(3) k1(11,12)
    by (intro kframe_user[OF k2(1), where d = "sp_dir x" and att = "PG_FLAG_RW OR PG_FLAG_PRESENT"]) simp_all
  define s3 where "s3 = s2\<lparr>pmem := (pmem s2)(fr := (\<lambda>_. 0))\<rparr>"
  have fp: "fill_page w (\<lambda>_ _. 0) s2 = Some s3" by (simp add: fill_page_def kf s3_def)
  have ok3: "pages_ok (uses s) s3" by (rule pages_ok_cong[OF k2(1)]) (simp_all add: s3_def)
  obtain q s4 where np: "new_page 0 fr s3 = (q, s4)" by force
  have nf: "paddr s p \<noteq> Some fr" for p using k1(8)[OF nz, of p] al by (simp add: paddr_def)
  have p3: "paddr s3 = paddr s" using al mp2 by (intro paddr_cong) (simp add: s3_def)
  have fr3: "pf_used (pgt s3) fr" "fr \<notin> pt_frames (dirs s3) (pgt s3)"
  proof -
    obtain p where p: "paging_map_page w (of_nat fr) (PG_FLAG_RW OR PG_FLAG_PRESENT) (Some (sp_dir x)) (pgt s1) = (r, p)" "s2 = s1\<lparr>pgt := p\<rparr>"
      using mp2 by (auto simp: map_page_def split: prod.splits)
    have mm: "mappable (dirs s1) (pgt s1) (Some (sp_dir x)) w" using ds1 w(1) by (simp add: mappable_def)
    note kk = paging_map_page_ok[OF pages_okD(1)[OF k1(1)] mm p(1)]
    have d3: "dirs s3 = dirs s1" "pgt s3 = p" using mp2 by (auto simp: s3_def p(2) intro!: dirs_cong)
    show "pf_used (pgt s3) fr" "fr \<notin> pt_frames (dirs s3) (pgt s3)" unfolding d3 using kk k1(6,7)[OF nz] by blast+
  qed
  note k4 = new_page_ok[OF ok3 np nz fr3 nf[folded p3]]
  have res: "vm_mmap_anon_getpage mp off s = Some (Some q, s4)"
    using f(9,16) al cd mp2 r0 fp np by (simp add: vm_mmap_anon_getpage_def w_def Let_def)
  have "q = next_obj s3" using np by (rule new_page_facts)
  then have q: "q = next_obj s" using al mp2 by (simp add: s3_def)
  show ?thesis
    by (intro exI[of _ s4] exI[of _ q] exI[of _ fr]) (use res q k4 np al mp2 p3 nf k1(11,12) k2(2) pt in \<open>simp add: s3_def\<close>)
qed

lemma put_slot_uses:
  assumes "regions_ok s" "vregions s r = Some rg" "i < length (rg_pages rg)" "vregions s' = vregions (put_slot r i (Some q) s)"
    "uses s q = 0"
  shows "rg_pages rg ! i = None \<Longrightarrow> uses s' = (uses s)(q := 1)"
    "rg_pages rg ! i = Some old \<Longrightarrow> uses s' = (uses s)(q := 1, old := uses s old - 1)"
proof -
  have us: "uses s' = uses (put_slot r i (Some q) s)" using assms(4) by (intro ext) (simp add: uses_def pages_of_def)
  show "uses s' = (uses s)(q := 1)" if "rg_pages rg ! i = None"
    using uses_put_slot[OF assms(1-3) that, of "Some q"] assms(5) by (intro ext) (simp add: us split: if_splits)
  show "uses s' = (uses s)(q := 1, old := uses s old - 1)" if "rg_pages rg ! i = Some old"
  proof
    fix p
    have "region_page s r i = Some old" using assms(2,3) that by (simp add: region_page_def)
    then have "0 < uses s old" by (rule uses_pos[OF assms(1)])
    then show "uses s' p = ((uses s)(q := 1, old := uses s old - 1)) p"
      using uses_put_slot[OF assms(1-3) that, of "Some q" p] assms(5) us by (auto split: if_splits)
  qed
qed

lemma fault_anon:
  assumes fa: "fault_at s sp v x b m mp rg off" and mem: "memory_left s" and p: "rg_pages rg ! page_idx (bstart b) v = None"
    and an: "rg_ops rg = Anon_ops" and rw: "rw \<longrightarrow> mp_flags mp AND PROT_WRITE = PROT_WRITE"
  shows "\<exists>s' q f. vm_getpage m off rw s = Some (0, s') \<and> faulted s s' sp v mp q f (PG_FLAG_USER OR PG_FLAG_RW OR PG_FLAG_PRESENT)"
proof -
  note f = fault_atD[OF fa]
  note i = vm_invD[OF f(1)]
  let ?i = "page_idx (bstart b) v" and ?v = "bstart b + of_int off" and ?att = "PG_FLAG_USER OR PG_FLAG_RW OR PG_FLAG_PRESENT"
  have rp: "region_page s (mp_region mp) ?i = None" using f(8,12) p by (simp add: region_page_def)
  obtain s1 q fr where g: "vm_mmap_anon_getpage mp off s = Some (Some q, s1)" "q = next_obj s" "uses s q = 0" "pages_ok ((uses s)(q := 1)) s1"
    "paddr s1 = (paddr s)(q \<mapsto> fr)" "\<forall>p. paddr s p \<noteq> Some fr" "pmem s1 = (pmem s)(fr := (\<lambda>_. 0))" "next_obj s1 = Suc (next_obj s)"
    "vregions s1 = vregions s" "vmaps s1 = vmaps s" "vspaces s1 = vspaces s" "cr3 s1 = cr3 s" "cpu_space s1 = cpu_space s"
    "kmem_area s1 = kmem_area s" "kernel_dir (pgt s1) = kernel_dir (pgt s)" "4096 dvd fr" "fr < 2 ^ 32"
    "\<forall>c u. c \<in> dirs s \<longrightarrow> user_addr u \<longrightarrow> pte (pgt s1) c u =
       (if c = sp_dir x \<and> page_no u = page_no v then of_nat fr OR PG_FLAG_RW OR PG_FLAG_PRESENT else pte (pgt s) c u)"
    using anon_getpage[OF fa mem] by blast
  define s2 where "s2 = put_slot (mp_region mp) ?i (Some q) s1"
  have ok2: "pages_ok ((uses s)(q := 1)) s2" by (rule pages_ok_cong[OF g(4)]) (simp_all add: s2_def)
  have ds: "dirs s2 = dirs s" by (rule dirs_cong) (simp add: s2_def g)
  obtain r s3 where mp3: "map_page ?v fr ?att (Some (sp_dir x)) s2 = (r, s3)" by force
  have dx: "sp_dir x \<in> dirs s2" using f(5) ds by simp
  note k = map_page_ok[OF ok2 dx f(10) mp3]
  have "pte (pgt s2) (sp_dir x) ?v = of_nat fr OR PG_FLAG_RW OR PG_FLAG_PRESENT" using g(18) f(5,10,11) by (simp add: s2_def)
  then have "pg_present (pte (pgt s2) (sp_dir x) ?v)" using entry_present[OF g(16,17) low_flags(3) present_flags(3)] by simp
  then have r0: "r = 0" using mp3 by (rule map_page_present)
  have vr: "vregions s3 = vregions (put_slot (mp_region mp) ?i (Some q) s)" using mp3 by (simp add: s2_def put_slot_def g)
  have us: "uses s3 = (uses s)(q := 1)" by (rule put_slot_uses(1)[OF i(4) f(12,8) vr g(3) p])
  have pa3: "paddr s3 = (paddr s)(q \<mapsto> fr)" using mp3 g(5) paddr_cong[of s3 s2] by (simp add: s2_def)
  then obtain y where y: "vpages s2 q = Some y" "pg_address y = fr" using mp3 by (auto simp: paddr_def fun_eq_iff split: if_splits)
  have cd: "cpu_dir s2 = Some (sp_dir x)" using f(2,3) by (simp add: cpu_dir_def s2_def g)
  have sl: "set_page (mp_region mp) ?i (Some q) s1 = Some s2" using f(12) g(9) by (simp add: set_page_slot s2_def)
  have res: "vm_getpage m off rw s = Some (0, s3)"
    using f(6,8,9,12-14) p an rw g(1) sl y cd mp3 by (auto simp: vm_getpage_def)
  have pt: "pte (pgt s3) c u = (if c = sp_dir x \<and> page_no u = page_no v then of_nat fr OR ?att else pte (pgt s) c u)"
    if "c \<in> dirs s" "user_addr u" for c u
    using k(5)[OF r0, of c u] that f(11) g(18) ds by (auto simp: s2_def)
  have ok3: "pages_ok (uses s3) s3" using k(1) us by simp
  have "\<forall>p. p \<noteq> q \<longrightarrow> 0 < uses s3 p \<longrightarrow> paddr s3 p = paddr s p \<and> (\<forall>g. paddr s p = Some g \<longrightarrow> pmem s3 g = pmem s g)"
    using pa3 mp3 g(6,7) by (auto simp: s2_def)
  moreover have "pmem s3 fr = (\<lambda>_. 0)" "kmem_area s3 = kmem_area s" "next_obj s \<le> next_obj s3" "cr3 s3 = cr3 s" "cpu_space s3 = cpu_space s"
    "vspaces s3 = vspaces s" "vmaps s3 = vmaps s" "kernel_dir (pgt s3) = kernel_dir (pgt s)"
    using mp3 g k(2) by (simp_all add: s2_def)
  ultimately have "faulted s s3 sp v mp q fr ?att"
    unfolding faulted_def Let_def f(9) rp
    using vr ok3 pa3 i(7) g(3) f(3,12) an low_flags(1) us pt by simp
  with res show ?thesis by blast
qed

text \<open>A copy of a page: the kernel maps the new frame in its window and the old one at the address of the fault.\<close>

lemma copy_page:
  assumes fa: "fault_at s sp v x b m mp rg off" and mem: "memory_left s" and old: "rg_pages rg ! page_idx (bstart b) v = Some old"
    and pf: "paddr s old = Some fo"
  defines "w \<equiv> bstart b + of_int off"
  shows "\<exists>s' q f. vm_copy_page mp old off s = Some (Some q, s') \<and> q = next_obj s \<and> uses s q = 0 \<and> q \<noteq> old \<and>
    pages_ok ((uses s)(q := 1, old := uses s old - 1)) s' \<and> paddr s' q = Some f \<and> (\<forall>p. paddr s p \<noteq> Some f) \<and>
    (\<forall>p. p \<noteq> q \<longrightarrow> (p = old \<longrightarrow> 1 < uses s old) \<longrightarrow> 0 < uses s p \<longrightarrow> paddr s' p = paddr s p) \<and>
    pmem s' = (pmem s)(f := pmem s fo) \<and> next_obj s' = Suc (next_obj s) \<and>
    vregions s' = vregions s \<and> vmaps s' = vmaps s \<and> vspaces s' = vspaces s \<and> cr3 s' = cr3 s \<and> cpu_space s' = cpu_space s \<and>
    kmem_ok (kmem_area s') \<and> kernel_dir (pgt s') = kernel_dir (pgt s) \<and> 4096 dvd f \<and> f < 2 ^ 32 \<and>
    (\<forall>c u. c \<in> dirs s \<longrightarrow> user_addr u \<longrightarrow> pte (pgt s') c u =
       (if c = sp_dir x \<and> page_no u = page_no v then of_nat fo OR PG_FLAG_PRESENT else pte (pgt s) c u))"
proof -
  note f = fault_atD[OF fa]
  note i = vm_invD[OF f(1)]
  have rp: "region_page s (mp_region mp) (page_idx (bstart b) v) = Some old" using f(8,12) old by (simp add: region_page_def)
  have up: "0 < uses s old" by (rule uses_pos[OF i(4) rp])
  obtain y where y: "vpages s old = Some y" "pg_address y = fo" using pf by (auto simp: paddr_def)
  note fof = page_frame[OF i(1) pf]
  obtain fr s1 where al: "frame_alloc (PHYS_KERNEL OR PHYS_ZONE_HIGH) s = (fr, s1)" by force
  note k1 = frame_alloc_ok[OF i(1) al]
  obtain g0 where "free_frame s g0" using mem by (auto simp: memory_left_def)
  then have nz: "fr \<noteq> 0" by (rule k1(9))
  obtain g where g: "free_frame s1 g" using k1(10)[OF mem] by blast
  obtain q s2 where np: "new_page (pg_offset y) fr s1 = (q, s2)" by force
  have p1: "paddr s1 = paddr s" using al by (intro paddr_cong) simp
  have nf: "\<forall>p. paddr s p \<noteq> Some fr" using k1(8)[OF nz] p1 by simp
  note k2 = new_page_ok[OF k1(1) np nz k1(6,7)[OF nz] k1(8)[OF nz]]
  have q: "q = next_obj s" using np al by (metis frame_alloc_facts(6) new_page_facts(11))
  obtain buf a' a'' where kw: "kmem_alloc (kmem_area s) PAGE = (Some buf, a')" "kernel_addr buf" "kmem_free a' buf PAGE = Some a''" "kmem_ok a''"
    using kmem_window[OF i(7)] by blast
  define s2' where "s2' = s2\<lparr>kmem_area := a'\<rparr>"
  have ok2: "pages_ok ((uses s)(q := 1)) s2'" by (rule pages_ok_cong[OF k2(2)]) (simp_all add: s2'_def)
  obtain r3 s3 where m3: "map_page buf fr (PG_FLAG_RW OR PG_FLAG_PRESENT) None s2' = (r3, s3)" by force
  note k3 = map_page_kernel[OF ok2 kw(2) m3]
  have km: "kmem_map_page fr s2 = (Some buf, s3)" using kw(1) al np m3 by (simp add: kmem_map_page_def s2'_def)
  have ds3: "dirs s3 = dirs s" "dirs s2' = dirs s" "dirs s1 = dirs s" using m3 np al by (auto intro!: dirs_cong simp: s2'_def)
  have cd: "cpu_dir s3 = Some (sp_dir x)" using f(2,3) m3 np al by (simp add: cpu_dir_def s2'_def)
  obtain r4 s4 where m4: "map_page w fo PG_FLAG_PRESENT (Some (sp_dir x)) s3 = (r4, s4)" by force
  have dx: "sp_dir x \<in> dirs s3" "sp_dir x \<in> dirs s" using f(5) ds3 by simp_all
  have w: "user_addr w" "page_no w = page_no v" using f(10,11) by (simp_all add: w_def)
  note k4 = map_page_ok[OF k3(1) dx(1) w(1) m4]
  have "free_frame s3 g" using g k3(5,6) np by (simp add: free_frame_def s2'_def)
  then have r0: "r4 = 0" by (rule k4(4))
  have kd: "kernel_dir (pgt s3) = kernel_dir (pgt s)" using k3(2) np al by (simp add: s2'_def)
  have pt3: "pte (pgt s3) c u = (if page_no u = page_no buf then of_nat fr OR PG_FLAG_RW OR PG_FLAG_PRESENT else pte (pgt s) c u)"
    if "c \<in> insert (kernel_dir (pgt s)) (dirs s)" "user_addr u \<or> kernel_addr u" for c u
    using k3(4)[of c u] that np al k1(2) kd k3(2) ds3 by (simp add: s2'_def)
  have pt4: "pte (pgt s4) c u = (if c = sp_dir x \<and> page_no u = page_no w then of_nat fo OR PG_FLAG_PRESENT else pte (pgt s3) c u)"
    if "c \<in> insert (kernel_dir (pgt s)) (dirs s)" "user_addr u \<or> kernel_addr u" for c u
    using k4(5)[OF r0, of c u] that kd ds3 by simp
  have cr4: "cr3 s4 = sp_dir x" using f(4) m4 m3 np al by (simp add: s2'_def)
  have ds4: "dirs s4 = dirs s" using m4 ds3 by simp
  have kf: "kframe w False s4 = Some fo"
    using pt4[of "sp_dir x" w] dx w cr4 ds4 present_flags(4) low_flags(4) fof
    by (intro kframe_user[OF k4(1), where d = "sp_dir x" and att = PG_FLAG_PRESENT]) simp_all
  have nu: "page_no u \<noteq> page_no buf" if "user_addr u" for u using page_no_kernel[OF kw(2)] that by blast
  have kb: "kframe buf True s4 = Some fr"
  proof -
    have e: "pte (pgt s4) (sp_dir x) buf = of_nat fr OR PG_FLAG_RW OR PG_FLAG_PRESENT"
      using pt4[of "sp_dir x" buf] pt3[of "sp_dir x" buf] dx kw(2) nu[OF w(1)] by auto
    have "sp_dir x \<in> insert (kernel_dir (pgt s4)) (dirs s4)" using dx ds4 by simp
    from mmu_kernel[OF pages_okD(1)[OF k4(1)] this kw(2), of True]
    show ?thesis using entry_present[OF k1(11,12) low_flags(3) present_flags(3)] entry_flags[OF k1(11,12) low_flags(3), of PG_FLAG_RW] present_flags(5)
      by (simp add: kframe_def cr4 e PG_FLAG_RW_def mask_eq_exp_minus_1)
  qed
  have pm4: "pmem s4 = pmem s" using m4 m3 np al by (simp add: s2'_def)
  define s5 where "s5 = s4\<lparr>pmem := (pmem s)(fr := pmem s fo)\<rparr>"
  have fp: "fill_page buf (\<lambda>i _. pmem s4 fo i) s4 = Some s5" by (simp add: fill_page_def kb s5_def pm4)
  have ok5: "pages_ok ((uses s)(q := 1)) s5" by (rule pages_ok_cong[OF k4(1)]) (simp_all add: s5_def)
  have mb: "mappable (dirs s5) (pgt s5) None buf" using kw(2) by (simp add: mappable_def)
  define s6 where "s6 = (unmap_page buf None s5)\<lparr>kmem_area := a''\<rparr>"
  note k6 = unmap_page_ok[OF ok5 mb]
  have um: "kmem_unmap_page buf s5 = Some s6"
    using kw(3) m4 m3 by (simp add: kmem_unmap_page_def s6_def s5_def s2'_def Let_def)
  have ok6: "pages_ok ((uses s)(q := 1)) s6" by (rule pages_ok_cong[OF k6(1)]) (simp_all add: s6_def)
  have qo: "q \<noteq> old" using k2(1) up by auto
  have u1: "0 < ((uses s)(q := 1)) old" "((uses s)(q := 1)) old = uses s old" using up qo by simp_all
  from put_page_ok[OF ok6 u1(1), unfolded u1(2)] obtain s7 where s7: "put_page old s6 = Some s7" "pages_ok ((uses s)(q := 1, old := uses s old - 1)) s7"
    "same_objs s6 s7" "pmem s7 = pmem s6" "next_obj s7 = next_obj s6" "pte (pgt s7) = pte (pgt s6)"
    "\<And>p. 0 < ((uses s)(q := 1, old := uses s old - 1)) p \<Longrightarrow> paddr s7 p = paddr s6 p" by blast
  have res: "vm_copy_page mp old off s = Some (Some q, s7)"
    using y al nz np km cd m4 kf fp um s7(1) f(9) by (simp add: vm_copy_page_def w_def Let_def)
  have p6: "paddr s6 = (paddr s)(q \<mapsto> fr)"
    using k2(3) p1 paddr_cong[of s6 s2] m4 m3 by (simp add: s6_def s5_def s2'_def)
  have pt: "pte (pgt s7) c u = (if c = sp_dir x \<and> page_no u = page_no v then of_nat fo OR PG_FLAG_PRESENT else pte (pgt s) c u)"
    if c: "c \<in> dirs s" "user_addr u" for c u
  proof -
    have "pte (pgt s7) c u = pte (pgt s4) c u"
    proof -
      have "dirs s5 = dirs s" using ds4 dirs_cong[of s5 s4] by (simp add: s5_def)
      then have "pte (pgt (unmap_page buf None s5)) c u = pte (pgt s5) c u" using k6(4)[of c u] that nu[OF that(2)] by (simp add: hits_def)
      then show ?thesis using s7(6) by (simp add: s6_def) (simp add: s5_def)
    qed
    then show ?thesis using pt4[of c u] pt3[of c u] that nu[OF that(2)] w(2) by simp
  qed
  have "kernel_dir (pgt s7) = kernel_dir (pgt s)" using s7(3) k6(2) k4(2) kd by (simp add: same_objs_def s6_def s5_def)
  moreover have "next_obj s7 = Suc (next_obj s)" "vregions s7 = vregions s" "vmaps s7 = vmaps s" "vspaces s7 = vspaces s" "cr3 s7 = cr3 s"
    "cpu_space s7 = cpu_space s" "kmem_area s7 = a''" "pmem s7 = (pmem s)(fr := pmem s fo)"
    using s7(3-5) m4 m3 np al by (simp_all add: same_objs_def s6_def s5_def s2'_def)
  moreover have "paddr s7 q = Some fr" using s7(7)[of q] qo p6 by simp
  moreover have "\<forall>p. p \<noteq> q \<longrightarrow> (p = old \<longrightarrow> 1 < uses s old) \<longrightarrow> 0 < uses s p \<longrightarrow> paddr s7 p = paddr s p" using s7(7) p6 by auto
  ultimately show ?thesis
    by (intro exI[of _ s7] exI[of _ q] exI[of _ fr]) (use res q k2(1) qo s7(2) nf kw(4) k1(11,12) pt in simp)
qed

lemma fault_copy:
  assumes fa: "fault_at s sp v x b m mp rg off" and mem: "memory_left s" and p: "rg_pages rg ! page_idx (bstart b) v = Some old"
    and rw: "mp_flags mp AND PROT_WRITE = PROT_WRITE"
  shows "\<exists>s' q f. vm_getpage m off True s = Some (0, s') \<and> faulted s s' sp v mp q f (PG_FLAG_USER OR PG_FLAG_RW OR PG_FLAG_PRESENT)"
proof -
  note f = fault_atD[OF fa]
  note i = vm_invD[OF f(1)]
  let ?i = "page_idx (bstart b) v" and ?v = "bstart b + of_int off" and ?att = "PG_FLAG_USER OR PG_FLAG_RW OR PG_FLAG_PRESENT"
  have rp: "region_page s (mp_region mp) ?i = Some old" using f(8,12) p by (simp add: region_page_def)
  have up: "0 < uses s old" by (rule uses_pos[OF i(4) rp])
  obtain fo where fo: "paddr s old = Some fo" using pages_ok_live[OF i(1) up] by (auto simp: paddr_def)
  note fof = page_frame[OF i(1) fo]
  obtain s1 q fr where g: "vm_copy_page mp old off s = Some (Some q, s1)" "q = next_obj s" "uses s q = 0" "q \<noteq> old"
    "pages_ok ((uses s)(q := 1, old := uses s old - 1)) s1" "paddr s1 q = Some fr" "\<forall>p. paddr s p \<noteq> Some fr"
    "\<forall>p. p \<noteq> q \<longrightarrow> (p = old \<longrightarrow> 1 < uses s old) \<longrightarrow> 0 < uses s p \<longrightarrow> paddr s1 p = paddr s p"
    "pmem s1 = (pmem s)(fr := pmem s fo)" "next_obj s1 = Suc (next_obj s)"
    "vregions s1 = vregions s" "vmaps s1 = vmaps s" "vspaces s1 = vspaces s" "cr3 s1 = cr3 s" "cpu_space s1 = cpu_space s"
    "kmem_ok (kmem_area s1)" "kernel_dir (pgt s1) = kernel_dir (pgt s)" "4096 dvd fr" "fr < 2 ^ 32"
    "\<forall>c u. c \<in> dirs s \<longrightarrow> user_addr u \<longrightarrow> pte (pgt s1) c u =
       (if c = sp_dir x \<and> page_no u = page_no v then of_nat fo OR PG_FLAG_PRESENT else pte (pgt s) c u)"
    using copy_page[OF fa mem p fo] by blast
  define U where "U = (uses s)(q := 1, old := uses s old - 1)"
  define s2 where "s2 = put_slot (mp_region mp) ?i (Some q) s1"
  have ok2: "pages_ok U s2" unfolding U_def by (rule pages_ok_cong[OF g(5)]) (simp_all add: s2_def)
  have ds: "dirs s2 = dirs s" by (rule dirs_cong) (simp add: s2_def g)
  obtain r s3 where mp3: "map_page ?v fr ?att (Some (sp_dir x)) s2 = (r, s3)" by force
  have dx: "sp_dir x \<in> dirs s2" using f(5) ds by simp
  note k = map_page_ok[OF ok2 dx f(10) mp3]
  have "pte (pgt s2) (sp_dir x) ?v = of_nat fo OR PG_FLAG_PRESENT" using g(20) f(5,10,11) by (simp add: s2_def)
  then have "pg_present (pte (pgt s2) (sp_dir x) ?v)" using entry_present[OF fof(1,2) low_flags(4) present_flags(4)] by simp
  then have r0: "r = 0" using mp3 by (rule map_page_present)
  have vr: "vregions s3 = vregions (put_slot (mp_region mp) ?i (Some q) s)" using mp3 by (simp add: s2_def put_slot_def g)
  have us: "uses s3 = U" unfolding U_def by (rule put_slot_uses(2)[OF i(4) f(12,8) vr g(3) p])
  have pa3: "paddr s3 = paddr s1" using mp3 paddr_cong[of s3 s2] by (simp add: s2_def)
  obtain y where y: "vpages s2 q = Some y" "pg_address y = fr" using g(6) by (auto simp: paddr_def s2_def)
  have cd: "cpu_dir s2 = Some (sp_dir x)" using f(2,3) by (simp add: cpu_dir_def s2_def g)
  have sl: "set_page (mp_region mp) ?i (Some q) s1 = Some s2" using f(12) g(11) by (simp add: set_page_slot s2_def)
  have ms: "mp_flags mp AND MAP_SHARED \<noteq> MAP_SHARED" using f(17) by (simp add: MAP_SHARED_def)
  have res: "vm_getpage m off True s = Some (0, s3)"
    using f(6,8,9,12-14) p rw ms g(1) sl y cd mp3 by (simp add: vm_getpage_def)
  have pt: "pte (pgt s3) c u = (if c = sp_dir x \<and> page_no u = page_no v then of_nat fr OR ?att else pte (pgt s) c u)"
    if "c \<in> dirs s" "user_addr u" for c u
    using k(5)[OF r0, of c u] that f(11) g(20) ds by (auto simp: s2_def)
  have ok3: "pages_ok (uses s3) s3" using k(1) us by simp
  have "paddr s3 p = paddr s p \<and> (\<forall>g. paddr s p = Some g \<longrightarrow> pmem s3 g = pmem s g)" if "p \<noteq> q" "0 < uses s3 p" for p
  proof -
    have "p = old \<longrightarrow> 1 < uses s old" "0 < uses s p" using that up by (auto simp: us U_def split: if_splits)
    then show ?thesis using that g(7,8,9) mp3 pa3 by (auto simp: s2_def)
  qed
  moreover have "pmem s3 fr = pmem s fo" "kmem_ok (kmem_area s3)" "next_obj s \<le> next_obj s3" "cr3 s3 = cr3 s" "cpu_space s3 = cpu_space s"
    "vspaces s3 = vspaces s" "vmaps s3 = vmaps s" "kernel_dir (pgt s3) = kernel_dir (pgt s)"
    using mp3 g k(2) by (simp_all add: s2_def)
  moreover have "uses s3 q = 1" using us g(4) by (simp add: U_def)
  ultimately have "faulted s s3 sp v mp q fr ?att"
    unfolding faulted_def Let_def f(9) rp
    using vr ok3 pa3 g(3,4,6) f(3,12) low_flags(1) pt rw fo by simp
  with res show ?thesis by blast
qed

end
