(* ===== verification/VmSpace.thy ===== *)
theory VmSpace
  imports VmFault
begin

text \<open>
  Loads and stores of a process, and the operations on whole address spaces: creation, mapping, cloning and
  destruction, each with what the address spaces see before and after.
\<close>

section \<open>Loads and stores\<close>

definition accessible :: "('f, 'w) vm \<Rightarrow> nat \<Rightarrow> u32 \<Rightarrow> bool \<Rightarrow> bool" where
  "accessible s sp v rw \<longleftrightarrow> (\<exists>mp rg. map_at s sp v = Some mp \<and> vregions s (mp_region mp) = Some rg \<and>
     (rw \<longrightarrow> mp_flags mp AND PROT_WRITE = PROT_WRITE) \<and>
     (rg_ops rg = Anon_ops \<or> region_page s (mp_region mp) (page_idx (bstart (mp_block mp)) v) \<noteq> None))"

lemma pagefault_ok:
  assumes inv: "vm_inv s" and mem: "memory_left s" and c: "cpu_space s = Some sp" and ac: "accessible s sp v rw"
  shows "\<exists>s' mp q f att. vm_pagefault v rw s = Some (0, s') \<and> map_at s sp v = Some mp \<and> faulted s s' sp v mp q f att \<and>
    pg_present att \<and> att AND PG_FLAG_USER \<noteq> 0 \<and> (rw \<longrightarrow> att AND PG_FLAG_RW \<noteq> 0)"
proof -
  note i = vm_invD[OF inv]
  obtain mp rg where mp: "map_at s sp v = Some mp" "vregions s (mp_region mp) = Some rg" "rw \<longrightarrow> mp_flags mp AND PROT_WRITE = PROT_WRITE"
    "rg_ops rg = Anon_ops \<or> region_page s (mp_region mp) (page_idx (bstart (mp_block mp)) v) \<noteq> None"
    using ac by (auto simp: accessible_def)
  obtain x b m where x: "vspaces s sp = Some x" "b \<in> set (used_list (sp_area x))" "unat v \<in> blk b" "maps_block s sp b m mp"
    using mp(1) map_at_iff[OF i(2)] by blast
  note a = spaces_okD(2)[OF i(2) x(1)]
  let ?off = "sint (ROUND_DOWN (v - bstart b) PAGE)"
  have fa: "fault_at s sp v x b m mp rg ?off"
    unfolding fault_at_def using inv c x mp(2) block_pages(2)[OF a x(2,3)] by simp
  note f = fault_atD[OF fa]
  have fb: "find (covers v) (used_list (sp_area x)) = Some b"
    using find_covers[OF area_okD(1)[OF a] _ x(2) area_ok_block(3)[OF a x(2)] x(3)] by simp
  have "bit (bflags b) 0" using area_okD(1)[OF a] x(2) by (simp add: sma_wf_def)
  then have fl: "bflags b AND SMA_FLAGS_USED = SMA_FLAGS_USED"
    by (simp add: SMA_FLAGS_USED_def and_one_eq bit_0 odd_iff_mod_2_eq_one)
  have dp: "dataptr b = Some m" using x(4) by (simp add: maps_block_def)
  have pf: "vm_pagefault v rw s = vm_getpage m ?off rw s"
    using c x(1) fb fl dp by (simp add: vm_pagefault_def sma_getblock_def)
  let ?i = "page_idx (bstart b) v"
  have rp: "region_page s (mp_region mp) ?i = rg_pages rg ! ?i" using f(8,12) by (simp add: region_page_def)
  have "\<exists>s' q fr att. vm_getpage m ?off rw s = Some (0, s') \<and> faulted s s' sp v mp q fr att \<and>
    pg_present att \<and> att AND PG_FLAG_USER \<noteq> 0 \<and> (rw \<longrightarrow> att AND PG_FLAG_RW \<noteq> 0)"
  proof (cases "rg_pages rg ! ?i")
    case None
    then have "rg_ops rg = Anon_ops" using mp(4) rp f(9) by simp
    from fault_anon[OF fa mem None this mp(3)] show ?thesis using present_flags(1,6,8) by blast
  next
    case (Some p)
    show ?thesis
    proof (cases rw)
      case True
      then have "mp_flags mp AND PROT_WRITE = PROT_WRITE" using mp(3) by simp
      from fault_copy[OF fa mem Some this] have *: "\<exists>s' q fr. vm_getpage m ?off True s = Some (0, s') \<and>
          faulted s s' sp v mp q fr (PG_FLAG_USER OR PG_FLAG_RW OR PG_FLAG_PRESENT)" .
      have e: "rw = True" using True by simp
      show ?thesis unfolding e using * present_flags(1,6,8) by blast
    next
      case False
      have e: "rw = False" using False by simp
      show ?thesis unfolding e using fault_read[OF fa mem Some] present_flags(2,9) by blast
    qed
  qed
  then show ?thesis using pf mp(1) by auto
qed

text \<open>The processor finds the frame of the page, possibly after a fault that nobody notices.\<close>

lemma user_frame_ok:
  assumes inv: "vm_inv s" and mem: "memory_left s" and c: "cpu_space s = Some sp" and ac: "accessible s sp v rw"
  shows "\<exists>f s' p. user_frame v rw s = Some (f, s') \<and> vm_inv s' \<and> (\<forall>sp' w. view s' sp' w = view s sp' w) \<and> map_at s' = map_at s \<and>
    vspaces s' = vspaces s \<and> cpu_space s' = cpu_space s \<and> page_at s' sp v = Some p \<and> paddr s' p = Some f \<and> (rw \<longrightarrow> uses s' p = 1)"
proof -
  note i = vm_invD[OF inv]
  obtain x where x: "vspaces s sp = Some x" "cr3 s = sp_dir x" using i(6) c by (auto simp: cpu_ok_def)
  obtain mp where "map_at s sp v = Some mp" using ac by (auto simp: accessible_def)
  then obtain b where b: "b \<in> set (used_list (sp_area x))" "unat v \<in> blk b" using map_at_iff[OF i(2), of sp v mp] x(1) by auto
  have ua: "user_addr v" using area_ok_block(5)[OF spaces_okD(2)[OF i(2) x(1)] b] .
  have hit: "\<exists>f p. mmu (pgt t) (cr3 t) v True rw = Some f \<and> page_at t sp v = Some p \<and> paddr t p = Some f \<and> (rw \<longrightarrow> uses t p = 1)"
    if t: "vm_inv t" "vspaces t = vspaces s" "cr3 t = cr3 s" "mmu (pgt t) (cr3 t) v True rw \<noteq> None" for t
  proof -
    note j = vm_invD[OF t(1)]
    have d: "cr3 t = sp_dir x" "vspaces t sp = Some x" using t(2,3) x by simp_all
    have dd: "sp_dir x \<in> dirs t" using spaces_okD(5)[OF j(2) d(2)] .
    note m = mmu_user[OF pages_okD(1)[OF j(1)] dd ua, of True rw]
    let ?e = "pte (pgt t) (sp_dir x) v"
    have e: "pg_present ?e" "rw \<longrightarrow> ?e AND PG_FLAG_RW \<noteq> 0" "mmu (pgt t) (cr3 t) v True rw = Some (table_of ?e)"
      using m t(4) unfolding d(1) by (auto split: if_splits)
    then show ?thesis using j(5) d(2) ua unfolding ptes_ok_def by blast
  qed
  show ?thesis
  proof (cases "mmu (pgt s) (cr3 s) v True rw")
    case (Some f)
    then show ?thesis using hit[OF inv refl refl] inv by (auto simp: user_frame_def)
  next
    case None
    obtain s' mp q f att where s': "vm_pagefault v rw s = Some (0, s')" "map_at s sp v = Some mp" "faulted s s' sp v mp q f att"
      "pg_present att" "att AND PG_FLAG_USER \<noteq> 0" "rw \<longrightarrow> att AND PG_FLAG_RW \<noteq> 0" using pagefault_ok[OF inv mem c ac] by blast
    note k = faulted_ok[OF inv s'(2,3)]
    have same: "vspaces s' = vspaces s" "cr3 s' = cr3 s" "cpu_space s' = cpu_space s" and at: "att AND NOT (mask 12) = 0"
      and pa: "paddr s' q = Some f"
      using s'(3) by (simp_all add: faulted_def Let_def)
    note fr = page_frame[OF vm_invD(1)[OF k(1)] pa]
    have "(of_nat f OR att) AND PG_FLAG_USER = att AND PG_FLAG_USER"
      using entry_flags(2)[OF fr(1,2) at, of PG_FLAG_USER] by (simp add: PG_FLAG_USER_def mask_eq_exp_minus_1)
    then have "mmu (pgt s') (cr3 s') v True rw \<noteq> None"
      using mmu_user[OF pages_okD(1)[OF vm_invD(1)[OF k(1)]] _ ua, of "sp_dir x" True rw] same x k(4)[OF x(1)] k(6) s'(4-6)
        entry_present[OF fr(1,2) at s'(4)] spaces_okD(5)[OF vm_invD(2)[OF k(1)], of sp x] by simp
    from hit[OF k(1) same(1,2) this] show ?thesis using None s'(1) k(1-3) same by (auto simp: user_frame_def)
  qed
qed

lemma user_load_ok:
  assumes "vm_inv s" "memory_left s" "cpu_space s = Some sp" "accessible s sp v False"
  shows "\<exists>a s'. user_load v s = Some (a, s') \<and> view s sp v = Some a \<and> vm_inv s' \<and> (\<forall>sp' w. view s' sp' w = view s sp' w) \<and>
    map_at s' = map_at s \<and> vspaces s' = vspaces s \<and> cpu_space s' = cpu_space s"
proof -
  obtain f s' p where k: "user_frame v False s = Some (f, s')" "vm_inv s'" "\<forall>sp' w. view s' sp' w = view s sp' w" "map_at s' = map_at s"
    "vspaces s' = vspaces s" "cpu_space s' = cpu_space s" "page_at s' sp v = Some p" "paddr s' p = Some f" using user_frame_ok[OF assms] by blast
  have "view s' sp v = Some (pmem s' f (page_off v))"
    using k(7,8) by (auto simp: view_def page_at_def region_page_def split: bind_splits)
  then show ?thesis using k by (auto simp: user_load_def)
qed

lemma vm_inv_pmem: "vm_inv (s\<lparr>pmem := p\<rparr>) = vm_inv s" "map_at (s\<lparr>pmem := p\<rparr>) = map_at s" "region_page (s\<lparr>pmem := p\<rparr>) = region_page s"
  "paddr (s\<lparr>pmem := p\<rparr>) = paddr s"
proof -
  show m: "map_at (s\<lparr>pmem := p\<rparr>) = map_at s" by (rule map_at_cong) simp_all
  show r: "region_page (s\<lparr>pmem := p\<rparr>) = region_page s" by (intro ext) (simp add: region_page_def)
  show a: "paddr (s\<lparr>pmem := p\<rparr>) = paddr s" by (rule paddr_cong) simp
  have pa: "page_at (s\<lparr>pmem := p\<rparr>) = page_at s" by (intro ext) (simp add: page_at_def m r)
  have u: "uses (s\<lparr>pmem := p\<rparr>) = uses s" by (intro ext) (simp add: uses_def pages_of_def)
  have "pages_ok U (s\<lparr>pmem := p\<rparr>) = pages_ok U s" for U by (simp add: pages_ok_def dirs_def)
  moreover have "sharers (s\<lparr>pmem := p\<rparr>) = sharers s" by (intro ext) (simp add: sharers_def)
  moreover have "spaces_ok (s\<lparr>pmem := p\<rparr>) = spaces_ok s" "maps_ok (s\<lparr>pmem := p\<rparr>) = maps_ok s"
    by (simp_all add: spaces_ok_def maps_ok_def maps_block_def)
  moreover have "cpu_ok (s\<lparr>pmem := p\<rparr>) = cpu_ok s" by (simp add: cpu_ok_def split: option.split)
  ultimately show "vm_inv (s\<lparr>pmem := p\<rparr>) = vm_inv s" by (simp add: vm_inv_def regions_ok_def ptes_ok_def pa u a)
qed

lemma page_parts: "page_no w = page_no v \<Longrightarrow> page_off w = page_off v \<Longrightarrow> w = v"
  unfolding page_no_def page_off_def by (metis div_mult_mod_eq word_unat_eq_iff)

lemma user_store_ok:
  assumes inv: "vm_inv s" and mem: "memory_left s" and c: "cpu_space s = Some sp" and ac: "accessible s sp v True"
  shows "\<exists>s'. user_store v a s = Some s' \<and> vm_inv s' \<and>
    (\<forall>sp' w. view s' sp' w = (if sp' = sp \<and> w = v then Some a else view s sp' w)) \<and>
    map_at s' = map_at s \<and> vspaces s' = vspaces s \<and> cpu_space s' = cpu_space s"
proof -
  obtain f t p where k: "user_frame v True s = Some (f, t)" "vm_inv t" "\<forall>sp' w. view t sp' w = view s sp' w" "map_at t = map_at s"
    "vspaces t = vspaces s" "cpu_space t = cpu_space s" "page_at t sp v = Some p" "paddr t p = Some f" "uses t p = 1"
    using user_frame_ok[OF assms] by blast
  note j = vm_invD[OF k(2)]
  define s' where "s' = t\<lparr>pmem := (pmem t)(f := (pmem t f)(page_off v := a))\<rparr>"
  obtain mp where mp: "map_at t sp v = Some mp" "mp_flags mp AND PROT_WRITE = PROT_WRITE" using ac k(4) by (auto simp: accessible_def)
  have rp: "region_page t (mp_region mp) (page_idx (bstart (mp_block mp)) v) = Some p" using k(7) mp(1) by (simp add: page_at_def)
  obtain x b m where x: "vspaces t sp = Some x" "b \<in> set (used_list (sp_area x))" "unat v \<in> blk b" "maps_block t sp b m mp"
    using mp(1) map_at_iff[OF j(2)] by blast
  have vw: "view s' sp' w = (if sp' = sp \<and> w = v then Some a else view t sp' w)" for sp' w
  proof (cases "page_at t sp' w")
    case None
    then have "\<not> (sp' = sp \<and> w = v)" using k(7) by auto
    then show ?thesis using None
      by (auto simp: view_def s'_def vm_inv_pmem page_at_def split: bind_splits)
  next
    case (Some q)
    then obtain np where np: "map_at t sp' w = Some np" "region_page t (mp_region np) (page_idx (bstart (mp_block np)) w) = Some q"
      by (auto simp: page_at_def split: bind_splits)
    obtain rg where rg: "vregions t (mp_region np) = Some rg" using np(2) by (auto simp: region_page_def split: bind_splits)
    obtain g where g: "paddr t q = Some g" using pages_ok_live[OF j(1) uses_pos[OF j(4) np(2)]] by (auto simp: paddr_def)
    have v1: "view s' sp' w = Some (pmem s' g (page_off w))" "view t sp' w = Some (pmem t g (page_off w))"
      using np rg g by (simp_all add: view_def s'_def vm_inv_pmem)
    show ?thesis
    proof (cases "g = f \<and> page_off w = page_off v")
      case True
      then have "q = p" using page_other_frame[OF j(1)] g k(8) by blast
      then have ri: "mp_region np = mp_region mp" "page_idx (bstart (mp_block np)) w = page_idx (bstart (mp_block mp)) v"
        using uses_one[OF j(4) k(9), of "mp_region np" "page_idx (bstart (mp_block np)) w"] np(2) rp by blast+
      obtain y d n where y: "vspaces t sp' = Some y" "d \<in> set (used_list (sp_area y))" "unat w \<in> blk d" "maps_block t sp' d n np"
        using np(1) map_at_iff[OF j(2)] by blast
      have "vmaps t m = Some mp" "vmaps t n = Some np" using x(4) y(4) by (simp_all add: maps_block_def)
      from maps_okD(5)[OF j(3) this ri(1)[symmetric] mp(2)] have "n = m" by simp
      then have "np = mp" using \<open>vmaps t m = Some mp\<close> \<open>vmaps t n = Some np\<close> by simp
      then have "sp' = sp" "bstart d = bstart b" "bsize d = bsize b" using x(4) y(4) by (simp_all add: maps_block_def)
      moreover from this have "page_no w = page_no v"
        using block_pages(5)[OF spaces_okD(2)[OF j(2) x(1)] x(2,3), of w] y(3,4) ri(2) \<open>np = mp\<close> by (simp add: blk_def fin_def maps_block_def)
      ultimately have "sp' = sp \<and> w = v" using page_parts True by blast
      then show ?thesis using v1(1) True by (simp add: s'_def)
    next
      case False
      have "\<not> (sp' = sp \<and> w = v)"
      proof
        assume "sp' = sp \<and> w = v"
        then have "q = p" using Some k(7) by simp
        then show False using g k(8) False \<open>sp' = sp \<and> w = v\<close> by simp
      qed
      then show ?thesis using v1 False by (auto simp: s'_def)
    qed
  qed
  have "user_store v a s = Some s'" using k(1) by (simp add: user_store_def s'_def)
  moreover have "vm_inv s'" "map_at s' = map_at s" using k(2,4) by (simp_all add: s'_def vm_inv_pmem)
  moreover have "vspaces s' = vspaces s" "cpu_space s' = cpu_space s" using k(5,6) by (simp_all add: s'_def)
  ultimately show ?thesis using vw k(3) by auto
qed

section \<open>Blocks of an area\<close>

lemma word_mod_dvd: "w mod PAGE = 0 \<Longrightarrow> PAGE dvd w" for w :: u32
proof -
  assume "w mod PAGE = 0"
  then have "unat (w mod PAGE) = 0" by simp
  then show ?thesis by (simp add: word_dvd_unat unat_mod_distrib dvd_eq_mod_eq_0)
qed

lemma set_dataptr_ok:
  assumes wf: "sma_wf a" and b: "b \<in> set (used_list a)"
  shows "sma_wf (set_dataptr b n a)" "set (used_list (set_dataptr b n a)) = insert (b\<lparr>dataptr := Some n\<rparr>) (set (used_list a) - {b})"
    "free_list (set_dataptr b n a) = free_list a" "area_start (set_dataptr b n a) = area_start a" "area_size (set_dataptr b n a) = area_size a"
proof -
  let ?b = "b\<lparr>dataptr := Some n\<rparr>" and ?a = "set_dataptr b n a"
  show f: "free_list ?a = free_list a" "area_start ?a = area_start a" "area_size ?a = area_size a" by (simp_all add: set_dataptr_def)
  show u: "set (used_list ?a) = insert ?b (set (used_list a) - {b})"
    using list_set_set[OF sma_wf_disjoint(1)[OF wf] b, of ?b] by (simp add: set_dataptr_def)
  have bl: "blk ?b = blk b" by (simp add: blk_def fin_def)
  have t: "tiles (set (blocks a)) (unat (area_start a)) (unat (area_start a) + unat (area_size a))" using wf by (simp add: sma_wf_def)
  have "b \<notin> set (free_list a)" using sma_wf_disjoint(3)[OF wf b] by blast
  then have eq: "set (blocks ?a) = (set (blocks a) - {b}) \<union> {?b}" using u f by auto
  have "bsize b \<noteq> 0" using t b by (auto simp: tiles_def)
  then have "tiles (set (blocks ?a)) (unat (area_start a)) (unat (area_start a) + unat (area_size a))"
    unfolding eq by (intro tiles_split[OF t]) (use b bl in auto)
  moreover have "map bid (blocks ?a) = map bid (blocks a)" by (simp add: set_dataptr_def list_set_bid)
  then have "distinct (map bid (blocks ?a))" using wf by (simp only: sma_wf_def)
  moreover have "\<forall>c\<in>set (blocks ?a). bid c < next_bid ?a" unfolding eq using sma_wf_block(3)[OF wf] b by (auto simp: set_dataptr_def)
  ultimately show "sma_wf ?a" using wf b unfolding sma_wf_def u f by auto
qed

lemma sma_alloc_aligned:
  assumes al: "sma_alloc a start len fl = (Some b, a')" and f: "\<forall>b \<in> set (blocks a). PAGE dvd bstart b \<and> PAGE dvd bsize b"
    and "PAGE dvd start" "PAGE dvd len"
  shows "\<forall>b \<in> set (blocks a'). PAGE dvd bstart b \<and> PAGE dvd bsize b"
proof -
  obtain c where ch: "sma_choose a start len fl = Some c" using al by (auto simp: sma_alloc_def split: option.splits)
  have c: "PAGE dvd bstart c" "PAGE dvd bsize c" using sma_choose_in[OF ch] f by auto
  have d: "PAGE dvd x \<Longrightarrow> PAGE dvd y \<Longrightarrow> PAGE dvd x + y \<and> PAGE dvd x - y" for x y :: u32 by (simp add: dvd_add dvd_diff)
  show ?thesis
    using al[unfolded sma_alloc_def ch option.case Let_def sma_new_def, simplified] c d f assms(3,4)
    by (auto simp: list_del_def list_set_def split: if_splits)
qed

lemma area_alloc:
  fixes n :: nat
  assumes a: "area_ok a" and al: "sma_alloc a start len fl = (Some b, a')" and reg: "regular a start len fl"
    and d: "PAGE dvd start" "PAGE dvd len" and le: "unat len \<le> 2 ^ 31"
  defines "b' \<equiv> b\<lparr>dataptr := Some n\<rparr>" and "A \<equiv> set_dataptr b n a'"
  shows "area_ok A" "set (used_list A) = insert b' (set (used_list a))" "\<forall>c \<in> set (used_list a). blk c \<inter> blk b' = {}" "bsize b = len"
    "start \<noteq> 0 \<and> fl AND SMA_ALLOC_FIXED \<noteq> 0 \<Longrightarrow> bstart b = start" "blk b' = blk b"
proof -
  note wf = area_okD(1)[OF a]
  note s = sma_alloc_Some[OF wf reg al]
  show "bsize b = len" using s(6) .
  show "start \<noteq> 0 \<and> fl AND SMA_ALLOC_FIXED \<noteq> 0 \<Longrightarrow> bstart b = start" using s(8) by blast
  show bl: "blk b' = blk b" by (simp add: b'_def blk_def fin_def)
  obtain f R where "alloc_step a a' f b R" using sma_alloc_step[OF wf reg al] by metis
  then have c: "carved a a' f b R" by (simp add: alloc_step_def)
  have dis: "\<forall>c \<in> set (used_list a). blk c \<inter> blk b = {}" using s(5) by (auto simp: owned_def)
  then show "\<forall>c \<in> set (used_list a). blk c \<inter> blk b' = {}" by (simp add: bl)
  have "bsize b \<noteq> 0" using c by (simp add: carved_def)
  then have "b \<notin> set (used_list a)" using dis blk_nonempty by fastforce
  then have u: "set (used_list a') - {b} = set (used_list a)" using c by (auto simp: carved_def)
  note k = set_dataptr_ok[OF s(1,7), of n]
  show us: "set (used_list A) = insert b' (set (used_list a))" using k(2) u by (simp add: A_def b'_def)
  have "area_start a' = USERMEM_START" "area_size a' = USERMEM_SIZE" using c area_okD(2,3)[OF a] by (simp_all add: carved_def)
  moreover have "\<forall>b \<in> set (blocks a'). PAGE dvd bstart b \<and> PAGE dvd bsize b"
    by (rule sma_alloc_aligned[OF al _ d]) (use a in \<open>simp add: area_ok_def\<close>)
  then have "\<forall>c \<in> set (blocks A). PAGE dvd bstart c \<and> PAGE dvd bsize c" using k(2,3) s(7) by (auto simp: A_def)
  moreover have "\<forall>c \<in> set (used_list A). unat (bsize c) \<le> 2 ^ 31" unfolding us using area_okD(6)[OF a] s(6) le by (auto simp: b'_def)
  ultimately show "area_ok A" using k(1,4,5) unfolding area_ok_def A_def by simp
qed

section \<open>A new block with its mapping\<close>

lemma pages_ok_dirs:
  assumes "pages_ok U s" "vpages s' = vpages s" "dirs s' = dirs s" "pgt s' = pgt s" "next_obj s \<le> next_obj s'"
  shows "pages_ok U s'"
proof -
  have "p < next_obj s'" if "vpages s p = Some x" for p x using pages_okD(10)[OF assms(1) that] assms(5) by simp
  then show ?thesis using pages_okD(1-9)[OF assms(1)] by (intro pages_okI) (simp_all add: assms(2-4))
qed

lemma dirs_area: "vspaces s sp = Some x \<Longrightarrow> vspaces s' = (vspaces s)(sp \<mapsto> x\<lparr>sp_area := A\<rparr>) \<Longrightarrow> dirs s' = dirs s"
proof -
  assume a: "vspaces s sp = Some x" "vspaces s' = (vspaces s)(sp \<mapsto> x\<lparr>sp_area := A\<rparr>)"
  have "(\<exists>y. vspaces s' c = Some y \<and> sp_dir y = d) \<longleftrightarrow> (\<exists>y. vspaces s c = Some y \<and> sp_dir y = d)" for c d
    using a by (cases "c = sp") auto
  then show ?thesis by (simp add: dirs_def)
qed

text \<open>The other mappings may get another region, as \<open>re\<close> says.\<close>

lemma add_block_ok:
  assumes ok: "spaces_ok s" and mo: "maps_ok s" and x: "vspaces s sp = Some x"
    and A: "area_ok A" "set (used_list A) = insert b (set (used_list (sp_area x)))" "\<forall>c \<in> set (used_list (sp_area x)). blk c \<inter> blk b = {}"
    and b: "maps_block s' sp b n np" and n: "next_obj s \<le> n" "n < next_obj s'"
    and vs: "vspaces s' = (vspaces s)(sp \<mapsto> x\<lparr>sp_area := A\<rparr>)" and vm: "\<And>k. k \<noteq> n \<Longrightarrow> vmaps s' k = map_option re (vmaps s k)"
    and re: "\<And>mp. mp_block (re mp) = mp_block mp \<and> mp_space (re mp) = mp_space mp \<and> mp_flags (re mp) = mp_flags mp"
  shows "spaces_ok s'" "map_at s' sp' v = (if sp' = sp \<and> unat v \<in> blk b then Some np else map_option re (map_at s sp' v))"
    "vmaps s m = Some mp \<Longrightarrow> \<exists>y. vspaces s' (mp_space mp) = Some y \<and> (\<exists>c \<in> set (used_list (sp_area y)). maps_block s' (mp_space mp) c m (re mp))"
    "\<exists>y. vspaces s' sp = Some y \<and> (\<exists>c \<in> set (used_list (sp_area y)). maps_block s' sp c n np)"
proof -
  have old: "m \<noteq> n" if "vmaps s m = Some mp" for m mp using maps_okD(1)[OF mo that] n(1) by simp
  have mb: "maps_block s sp' c m mp \<Longrightarrow> maps_block s' sp' c m (re mp)" for sp' c m mp
    using vm[of m] old re by (auto simp: maps_block_def)
  have within: "\<exists>z. vspaces s c = Some z \<and> d \<in> set (used_list (sp_area z))"
    if y: "vspaces s' c = Some y" and d: "d \<in> set (used_list (sp_area y))" and ne: "\<not> (c = sp \<and> d = b)" for c y d
  proof (cases "c = sp")
    case True
    then have "y = x\<lparr>sp_area := A\<rparr>" using y vs by simp
    then show ?thesis using True d ne A(2) x by simp
  next
    case False
    then show ?thesis using y d vs by simp
  qed
  have outer: "\<exists>y'. vspaces s' c = Some y' \<and> d \<in> set (used_list (sp_area y'))"
    if "vspaces s c = Some y" "d \<in> set (used_list (sp_area y))" for c y d
    using that vs A(2) x by (cases "c = sp") simp_all
  show "\<exists>y. vspaces s' (mp_space mp) = Some y \<and> (\<exists>c \<in> set (used_list (sp_area y)). maps_block s' (mp_space mp) c m (re mp))"
    if "vmaps s m = Some mp" using maps_okD(3)[OF mo that] outer mb by metis
  show "\<exists>y. vspaces s' sp = Some y \<and> (\<exists>c \<in> set (used_list (sp_area y)). maps_block s' sp c n np)" using vs A(2) b by auto
  show ok': "spaces_ok s'"
    unfolding spaces_ok_def
  proof (intro conjI allI impI ballI)
    fix c y assume y: "vspaces s' c = Some y"
    show "c < next_obj s'" using y vs spaces_okD(1)[OF ok x] spaces_okD(1)[OF ok, of c y] n by (cases "c = sp") auto
    show "area_ok (sp_area y)" using y vs spaces_okD(2)[OF ok, of c] A(1) by (auto split: if_splits)
    fix d assume d: "d \<in> set (used_list (sp_area y))"
    show "\<exists>m mp. maps_block s' c d m mp"
    proof (cases "c = sp \<and> d = b")
      case True
      then show ?thesis using b by blast
    next
      case False
      obtain z where z: "vspaces s c = Some z" "d \<in> set (used_list (sp_area z))" using within[OF y d False] by blast
      obtain m mp where "maps_block s c d m mp" using spaces_okD(3)[OF ok z] by blast
      from mb[OF this] show ?thesis by blast
    qed
  next
    fix c y c' y' assume h: "vspaces s' c = Some y \<and> vspaces s' c' = Some y' \<and> sp_dir y = sp_dir y'"
    have "\<exists>z. vspaces s e = Some z \<and> sp_dir z = sp_dir w" if "vspaces s' e = Some w" for e w
      using that vs x by (cases "e = sp") auto
    then obtain z z' where "vspaces s c = Some z" "sp_dir z = sp_dir y" "vspaces s c' = Some z'" "sp_dir z' = sp_dir y'"
      using h by meson
    then show "c = c'" using spaces_okD(4)[OF ok] h by metis
  qed
  show "map_at s' sp' v = (if sp' = sp \<and> unat v \<in> blk b then Some np else map_option re (map_at s sp' v))"
  proof (cases "sp' = sp \<and> unat v \<in> blk b")
    case True
    then have "map_at s' sp v = Some np" using map_at_iff[OF ok'] vs A(2) b by auto
    then show ?thesis using True by simp
  next
    case False
    have "map_at s' sp' v = map_option re (map_at s sp' v)"
    proof (cases "map_at s sp' v")
      case (Some mp)
      then obtain y c m where y: "vspaces s sp' = Some y" "c \<in> set (used_list (sp_area y))" "unat v \<in> blk c" "maps_block s sp' c m mp"
        using map_at_iff[OF ok] by blast
      then have "\<exists>y'. vspaces s' sp' = Some y' \<and> c \<in> set (used_list (sp_area y'))" using outer by blast
      then have "map_at s' sp' v = Some (re mp)" using map_at_iff[OF ok'] y(3) mb[OF y(4)] by blast
      then show ?thesis using Some by simp
    next
      case None
      have "map_at s' sp' v = None"
      proof (rule ccontr)
        assume "map_at s' sp' v \<noteq> None"
        then obtain y c where y: "vspaces s' sp' = Some y" "c \<in> set (used_list (sp_area y))" "unat v \<in> blk c"
          using map_at_iff[OF ok'] by (metis not_None_eq)
        then have "\<not> (sp' = sp \<and> c = b)" using False by blast
        from within[OF y(1,2) this] obtain z where z: "vspaces s sp' = Some z" "c \<in> set (used_list (sp_area z))" by blast
        obtain m mp where "maps_block s sp' c m mp" using spaces_okD(3)[OF ok z] by blast
        then have "map_at s sp' v = Some mp" using map_at_iff[OF ok] z y(3) by blast
        then show False using None by simp
      qed
      then show ?thesis using None by simp
    qed
    then show ?thesis using False by auto
  qed
qed

lemma uses_new:
  assumes "regions_ok s" "r \<notin> dom (vregions s)" "vregions s' = (vregions s)(r \<mapsto> rg)"
  shows "uses s' p = uses s p + count_list (rg_pages rg) (Some p)"
proof -
  have fin: "finite (dom (vregions s))" using assms(1) by (simp add: regions_ok_def)
  have d: "dom (vregions s') = insert r (dom (vregions s))" using assms(3) by auto
  have o: "pages_of s' x = pages_of s x" if "x \<in> dom (vregions s)" for x using that assms(2,3) by (auto simp: pages_of_def)
  have n: "pages_of s' r = rg_pages rg" using assms(3) by (simp add: pages_of_def)
  have "(\<Sum>x \<in> dom (vregions s). count_list (pages_of s' x) (Some p)) = uses s p" unfolding uses_def using o by (intro sum.cong) auto
  then show ?thesis unfolding uses_def[of s'] d using fin assms(2) n by simp
qed

text \<open>The parts of the invariant that follow once the new block is there.\<close>

lemma view_re:
  assumes "\<And>r y. vregions s r = Some y \<Longrightarrow> \<exists>y'. vregions s' (g r) = Some y' \<and> rg_pages y' = rg_pages y \<and> rg_ops y' = rg_ops y"
    and "\<And>mp. mp_block (re mp) = mp_block mp" and "\<And>mp. mp_region (re mp) = g (mp_region mp)"
    and "map_at s' sp v = map_option re (map_at s sp0 v)" and "\<And>mp. map_at s sp0 v = Some mp \<Longrightarrow> mp_region mp \<in> dom (vregions s)"
    and "\<And>p. page_at s sp0 v = Some p \<Longrightarrow> paddr s' p = paddr s p" and "pmem s' = pmem s"
  shows "view s' sp v = view s sp0 v" "page_at s' sp v = page_at s sp0 v"
proof -
  have rp: "region_page s' (g r) i = region_page s r i" if "r \<in> dom (vregions s)" for r i
    using assms(1) that by (fastforce simp: region_page_def)
  have "view s' sp v = view s sp0 v \<and> page_at s' sp v = page_at s sp0 v"
  proof (cases "map_at s sp0 v")
    case None
    then show ?thesis by (simp add: view_def page_at_def assms(4))
  next
    case (Some mp)
    then obtain y where y: "vregions s (mp_region mp) = Some y" using assms(5) by blast
    obtain y' where "vregions s' (g (mp_region mp)) = Some y'" "rg_pages y' = rg_pages y" "rg_ops y' = rg_ops y" using assms(1)[OF y] by blast
    moreover have "mp_region mp \<in> dom (vregions s)" using y by blast
    ultimately show ?thesis using Some y assms(6) unfolding view_def page_at_def assms(4)
      by (simp add: assms(2,3,7) rp[of "mp_region mp"] split: option.splits)
  qed
  then show "view s' sp v = view s sp0 v" "page_at s' sp v = page_at s sp0 v" by auto
qed

lemma map_region: "maps_ok s \<Longrightarrow> spaces_ok s \<Longrightarrow> map_at s sp v = Some mp \<Longrightarrow> mp_region mp \<in> dom (vregions s)"
  using map_at_iff[of s sp v mp] maps_okD(4) by (fastforce simp: maps_block_def)

lemma page_at_pos: "regions_ok s \<Longrightarrow> page_at s sp v = Some p \<Longrightarrow> 0 < uses s p"
  by (auto simp: page_at_def split: bind_splits intro: uses_pos)

lemma mapped_block:
  assumes "spaces_ok s" "vspaces s sp = Some x" "\<forall>c \<in> set (used_list (sp_area x)). blk c \<inter> blk b = {}" "unat v \<in> blk b"
  shows "map_at s sp v = None"
proof (rule ccontr)
  assume "map_at s sp v \<noteq> None"
  then obtain c where "c \<in> set (used_list (sp_area x))" "unat v \<in> blk c" using map_at_iff[OF assms(1)] assms(2) by fastforce
  then show False using assms(3,4) by blast
qed

lemma cpu_ok_area:
  assumes "cpu_ok s" "vspaces s sp = Some x" "vspaces s' = (vspaces s)(sp \<mapsto> x\<lparr>sp_area := A\<rparr>)" "cpu_space s' = cpu_space s"
    "cr3 s' = cr3 s" "kernel_dir (pgt s') = kernel_dir (pgt s)"
  shows "cpu_ok s'"
proof (cases "cpu_space s")
  case (Some c)
  then show ?thesis using assms by (cases "c = sp") (auto simp: cpu_ok_def)
qed (use assms in \<open>simp add: cpu_ok_def\<close>)

lemma same_area: "vspaces s sp = Some x \<Longrightarrow> s\<lparr>vspaces := (vspaces s)(sp \<mapsto> x\<lparr>sp_area := sp_area x\<rparr>)\<rparr> = s"
  by (simp add: fun_upd_idem)

definition prot :: "('f, 'w) vm \<Rightarrow> nat \<Rightarrow> u32 \<Rightarrow> u16 option" where
  "prot s sp v = map_option mp_flags (map_at s sp v)"

lemma fresh_None:
  "regions_ok s \<Longrightarrow> next_obj s \<le> r \<Longrightarrow> vregions s r = None" "maps_ok s \<Longrightarrow> next_obj s \<le> m \<Longrightarrow> vmaps s m = None"
  "spaces_ok s \<Longrightarrow> next_obj s \<le> sp \<Longrightarrow> vspaces s sp = None"
  using regions_okD(1)[of s r] maps_okD(1)[of s m] spaces_okD(1)[of s sp] by fastforce+

section \<open>Adding a mapping\<close>

lemma add_mapping_ok:
  assumes inv: "vm_inv s" and x: "vspaces s sp = Some x"
    and A: "area_ok A" "set (used_list A) = insert b (set (used_list (sp_area x)))" "\<forall>c \<in> set (used_list (sp_area x)). blk c \<inter> blk b = {}"
    and b: "maps_block s' sp b n np" and n: "next_obj s \<le> n" "n < next_obj s'"
    and vs: "vspaces s' = (vspaces s)(sp \<mapsto> x\<lparr>sp_area := A\<rparr>)"
    and vm: "\<And>k. k \<noteq> n \<Longrightarrow> vmaps s' k = map_option (\<lambda>mp. mp\<lparr>mp_region := g (mp_region mp)\<rparr>) (vmaps s k)"
    and fl: "mp_flags np AND MAP_SHARED = 0" and fin: "finite (dom (vmaps s'))"
    and R: "\<And>r y. vregions s r = Some y \<Longrightarrow> \<exists>y'. vregions s' (g r) = Some y' \<and> rg_pages y' = rg_pages y \<and> rg_ops y' = rg_ops y \<and> rg_size y' = rg_size y"
    and gi: "inj_on g (dom (vregions s))" and Rn: "\<exists>y. vregions s' (mp_region np) = Some y \<and> rg_size y = bsize (mp_block np)"
    and W: "\<And>m mp. vmaps s m = Some mp \<Longrightarrow> g (mp_region mp) = mp_region np \<Longrightarrow>
        mp_flags mp AND PROT_WRITE \<noteq> PROT_WRITE \<and> mp_flags np AND PROT_WRITE \<noteq> PROT_WRITE"
    and ro: "regions_ok s'" and po: "pages_ok (uses s') s'" and pd: "\<And>p. 0 < uses s p \<Longrightarrow> paddr s' p = paddr s p" and pm: "pmem s' = pmem s"
    and pt: "\<And>sp' y v. vspaces s sp' = Some y \<Longrightarrow> user_addr v \<Longrightarrow> pg_present (pte (pgt s') (sp_dir y) v) \<Longrightarrow>
        \<exists>p. page_at s sp' v = Some p \<and> paddr s p = Some (table_of (pte (pgt s') (sp_dir y) v)) \<and>
          (pte (pgt s') (sp_dir y) v AND PG_FLAG_RW \<noteq> 0 \<longrightarrow> uses s' p = 1)"
    and c: "cpu_space s' = cpu_space s" "cr3 s' = cr3 s" "kernel_dir (pgt s') = kernel_dir (pgt s)" "kmem_area s' = kmem_area s"
  shows "vm_inv s'" "map_at s' sp' v = (if sp' = sp \<and> unat v \<in> blk b then Some np else map_option (\<lambda>mp. mp\<lparr>mp_region := g (mp_region mp)\<rparr>) (map_at s sp' v))"
    "\<not> (sp' = sp \<and> unat v \<in> blk b) \<Longrightarrow> view s' sp' v = view s sp' v"
proof -
  note i = vm_invD[OF inv]
  define re where "re = (\<lambda>mp :: vm_mapping. mp\<lparr>mp_region := g (mp_region mp)\<rparr>)"
  have re: "mp_block (re mp) = mp_block mp \<and> mp_space (re mp) = mp_space mp \<and> mp_flags (re mp) = mp_flags mp"
    "mp_region (re mp) = g (mp_region mp)" for mp by (simp_all add: re_def)
  have vm': "vmaps s' k = map_option re (vmaps s k)" if "k \<noteq> n" for k unfolding re_def using vm[OF that] .
  have ab: "spaces_ok s'" "map_at s' sp' v = (if sp' = sp \<and> unat v \<in> blk b then Some np else map_option re (map_at s sp' v))"
    "vmaps s m = Some mp \<Longrightarrow> \<exists>y. vspaces s' (mp_space mp) = Some y \<and> (\<exists>c \<in> set (used_list (sp_area y)). maps_block s' (mp_space mp) c m (re mp))"
    "\<exists>y. vspaces s' sp = Some y \<and> (\<exists>c \<in> set (used_list (sp_area y)). maps_block s' sp c n np)" for sp' v m mp
    by (rule add_block_ok[OF i(2,3) x A b n vs, where re = re]; use vm' re in simp)+
  show ma: "map_at s' sp' v = (if sp' = sp \<and> unat v \<in> blk b then Some np else map_option (\<lambda>mp. mp\<lparr>mp_region := g (mp_region mp)\<rparr>) (map_at s sp' v))" for sp' v
    using ab(2) by (simp add: re_def)
  have old: "view s' sp' v = view s sp' v \<and> page_at s' sp' v = page_at s sp' v" if "\<not> (sp' = sp \<and> unat v \<in> blk b)" for sp' v
  proof -
    have m: "map_at s' sp' v = map_option re (map_at s sp' v)" using ab(2)[of sp' v] unfolding if_not_P[OF that] .
    have "view s' sp' v = view s sp' v" "page_at s' sp' v = page_at s sp' v"
      by (rule view_re[where g = g and re = re and s = s]; use R re m map_region[OF i(3,2)] pd page_at_pos[OF i(4)] pm in blast)+
    then show ?thesis ..
  qed
  show "view s' sp' v = view s sp' v" if "\<not> (sp' = sp \<and> unat v \<in> blk b)" for sp' v using old[OF that] by simp
  have inv_mp: "(m = n \<and> mp = np) \<or> (m \<noteq> n \<and> (\<exists>mo. vmaps s m = Some mo \<and> mp = re mo))" if "vmaps s' m = Some mp" for m mp
    using that b vm'[of m] by (cases "m = n") (auto simp: maps_block_def)
  have "maps_ok s'" unfolding maps_ok_def
  proof (intro conjI allI impI)
    fix m mp assume m: "vmaps s' m = Some mp"
    consider (new) "m = n" "mp = np" | (old) mo where "vmaps s m = Some mo" "mp = re mo" using inv_mp[OF m] by blast
    then have "m < next_obj s' \<and> mp_flags mp AND MAP_SHARED = 0 \<and> (\<exists>rg. vregions s' (mp_region mp) = Some rg \<and> rg_size rg = bsize (mp_block mp)) \<and>
      (\<exists>x. vspaces s' (mp_space mp) = Some x \<and> (\<exists>b\<in>set (used_list (sp_area x)). maps_block s' (mp_space mp) b m mp))"
    proof cases
      case new
      have "mp_space np = sp" using b by (simp add: maps_block_def)
      then show ?thesis using new n fl Rn ab(4) by simp
    next
      case old
      obtain y where y: "vregions s (mp_region mo) = Some y" "rg_size y = bsize (mp_block mo)" using maps_okD(4)[OF i(3) old(1)] by blast
      show ?thesis using maps_okD(1,2)[OF i(3) old(1)] n ab(3)[OF old(1)] R[OF y(1)] y(2) re old(2) by auto
    qed
    then show "m < next_obj s'" "mp_flags mp AND MAP_SHARED = 0" "\<exists>rg. vregions s' (mp_region mp) = Some rg \<and> rg_size rg = bsize (mp_block mp)"
      "\<exists>x. vspaces s' (mp_space mp) = Some x \<and> (\<exists>b\<in>set (used_list (sp_area x)). maps_block s' (mp_space mp) b m mp)" by blast+
  next
    fix m mp k kp assume h: "vmaps s' m = Some mp \<and> vmaps s' k = Some kp \<and> mp_region mp = mp_region kp \<and> mp_flags mp AND PROT_WRITE = PROT_WRITE"
    have d: "mp_region mo \<in> dom (vregions s)" if "vmaps s l = Some mo" for l mo using maps_okD(4)[OF i(3) that] by blast
    from inv_mp[of m mp] inv_mp[of k kp] h
    consider "m = k" | mo where "vmaps s m = Some mo" "mp = re mo" "kp = np" | ko where "vmaps s k = Some ko" "kp = re ko" "mp = np"
      | mo ko where "vmaps s m = Some mo" "mp = re mo" "vmaps s k = Some ko" "kp = re ko" by blast
    then show "m = k"
    proof cases
      case 2
      then show ?thesis using W[OF 2(1)] h re by auto
    next
      case 3
      then show ?thesis using W[OF 3(1)] h re by auto
    next
      case 4
      then have "g (mp_region mo) = g (mp_region ko)" using h re by simp
      then have "mp_region mo = mp_region ko" using gi d 4 by (simp add: inj_on_def)
      then show ?thesis using maps_okD(5)[OF i(3) 4(1,3)] h 4(2) re by simp
    qed simp
  qed (rule fin)
  moreover have "ptes_ok s'" unfolding ptes_ok_def
  proof (intro allI impI)
    fix sp' y v assume h: "vspaces s' sp' = Some y \<and> user_addr v \<and> pg_present (pte (pgt s') (sp_dir y) v)"
    obtain z where z: "vspaces s sp' = Some z" "sp_dir z = sp_dir y" using h x by (cases "sp' = sp") (auto simp: vs)
    obtain p where p: "page_at s sp' v = Some p" "paddr s p = Some (table_of (pte (pgt s') (sp_dir y) v))"
      "pte (pgt s') (sp_dir y) v AND PG_FLAG_RW \<noteq> 0 \<longrightarrow> uses s' p = 1" using pt[OF z(1), of v] h z(2) by auto
    have "\<not> (sp' = sp \<and> unat v \<in> blk b)" using p(1) mapped_block[OF i(2) x A(3)] by (auto simp: page_at_def)
    then show "\<exists>p. page_at s' sp' v = Some p \<and> paddr s' p = Some (table_of (pte (pgt s') (sp_dir y) v)) \<and>
      (pte (pgt s') (sp_dir y) v AND PG_FLAG_RW \<noteq> 0 \<longrightarrow> uses s' p = 1)" using p old pd[OF page_at_pos[OF i(4) p(1)]] by simp
  qed
  moreover have "cpu_ok s'" by (rule cpu_ok_area[OF i(6) x vs c(1-3)])
  ultimately show "vm_inv s'" using ab(1) ro po i(7) c(4) by (simp add: vm_inv_def)
qed

section \<open>Mapping\<close>

lemma vm_mmap_ok:
  assumes inv: "vm_inv s" and x: "vspaces s sp = Some x" and fl: "flags AND MAP_SHARED = 0"
    and reg: "regular (sp_area x) start len (if flags AND MAP_FIXED \<noteq> 0 then SMA_ALLOC_FIXED else 0)" and le: "unat len \<le> 2 ^ 31"
    and r: "vm_mmap start len flags fd off p sp s = Some (err, addr, s')"
  shows "err \<noteq> 0 \<and> s' = s \<and> addr = None \<or>
    (err = 0 \<and> vm_inv s' \<and> (\<exists>a. addr = Some a \<and> (start \<noteq> 0 \<and> flags AND MAP_FIXED \<noteq> 0 \<longrightarrow> a = start) \<and>
       (\<forall>v. unat v \<in> {unat a ..< unat a + unat len} \<longrightarrow> map_at s sp v = None) \<and>
       (\<forall>c v. view s' c v = (if c = sp \<and> unat v \<in> {unat a ..< unat a + unat len}
          then if flags AND MAP_ANONYMOUS \<noteq> 0 then Some 0 else None else view s c v)) \<and>
       (\<forall>c v. prot s' c v = (if c = sp \<and> unat v \<in> {unat a ..< unat a + unat len} then Some flags else prot s c v))) \<and>
     dom (vspaces s') = dom (vspaces s) \<and> cpu_space s' = cpu_space s)"
proof -
  note i = vm_invD[OF inv]
  let ?fl = "if flags AND MAP_FIXED \<noteq> 0 then SMA_ALLOC_FIXED else 0 :: u32"
  show ?thesis
  proof (cases "start mod PAGE \<noteq> 0 \<or> len = 0 \<or> len mod PAGE \<noteq> 0 \<or>
      flags AND PROT_NONE \<noteq> 0 \<and> flags AND (PROT_READ OR PROT_WRITE OR PROT_EXEC) \<noteq> 0 \<or>
      flags AND MAP_ANONYMOUS \<noteq> MAP_ANONYMOUS \<and> slot_get (p_fds p) fd = None")
    case True
    then show ?thesis using r errno_code_pos[of EINVAL] errno_code_pos[of EBADF] by (auto simp: vm_mmap_def split: if_splits)
  next
    case False
    then have n1: "\<not> (start mod PAGE \<noteq> 0 \<or> len = 0 \<or> len mod PAGE \<noteq> 0)"
      and n2: "\<not> (flags AND PROT_NONE \<noteq> 0 \<and> flags AND (PROT_READ OR PROT_WRITE OR PROT_EXEC) \<noteq> 0)"
      and n3: "\<not> (flags AND MAP_ANONYMOUS \<noteq> MAP_ANONYMOUS \<and> slot_get (p_fds p) fd = None)" by blast+
    obtain vn where vn: "(if flags AND MAP_ANONYMOUS \<noteq> MAP_ANONYMOUS
        then do { d \<leftarrow> slot_get (p_fds p) fd; fl \<leftarrow> files (vmfs s) (fdfile d); Some (fvnode fl) } else Some None) = Some vn"
      using r False by (auto simp: vm_mmap_def split: if_splits bind_splits)
    note r1 = r[unfolded vm_mmap_def if_not_P[OF n1] if_not_P[OF n2] if_not_P[OF n3] vn Option.bind.bind_lunit x]
    show ?thesis
    proof (cases "fst (sma_alloc (sp_area x) start len ?fl)")
      case None
      then have "sma_alloc (sp_area x) start len ?fl = (None, sp_area x)" by (metis prod.collapse sma_alloc_None)
      then have "err = - errno_code ENOMEM" "addr = None" "s' = s\<lparr>vspaces := (vspaces s)(sp \<mapsto> x\<lparr>sp_area := sp_area x\<rparr>)\<rparr>"
        using r1 by simp_all
      then show ?thesis using same_area[OF x] by simp
    next
      case (Some b)
      then obtain a' where al: "sma_alloc (sp_area x) start len ?fl = (Some b, a')" by (metis prod.collapse)
      have dv: "PAGE dvd start" "PAGE dvd len" using False word_mod_dvd by blast+
      let ?n = "Suc (next_obj s)" and ?r = "next_obj s"
      note aa = area_alloc(1-3)[OF spaces_okD(2)[OF i(2) x] al reg dv le, where n = ?n]
        and ab = area_alloc(4,5)[OF spaces_okD(2)[OF i(2) x] al reg dv le]
      define b' A where "b' = b\<lparr>dataptr := Some ?n\<rparr>" and "A = set_dataptr b ?n a'"
      define rg where "rg = \<lparr>rg_refs = 1, rg_ops = (if flags AND MAP_ANONYMOUS \<noteq> 0 then Anon_ops else Vfs_ops),
        rg_pages = replicate (unat (bsize b) div PAGE_SIZE) None, rg_size = bsize b, rg_vnode = vn, rg_offset = off\<rparr>"
      define np where "np = \<lparr>mp_block = b, mp_space = sp, mp_flags = flags, mp_region = ?r, mp_offset = 0\<rparr>"
      have res: "err = 0" "addr = Some (bstart b)" "vregions s' = (vregions s)(?r \<mapsto> rg)" "vmaps s' = (vmaps s)(?n \<mapsto> np)"
        "vspaces s' = (vspaces s)(sp \<mapsto> x\<lparr>sp_area := A\<rparr>)" "next_obj s' = Suc (Suc (next_obj s))" "vpages s' = vpages s" "pgt s' = pgt s"
        "pmem s' = pmem s" "cr3 s' = cr3 s" "cpu_space s' = cpu_space s" "kmem_area s' = kmem_area s"
        using r1 unfolding al by (auto simp: fresh_obj_def Let_def rg_def np_def A_def split: option.splits)
      have mb: "maps_block s' sp b' ?n np" by (simp add: maps_block_def b'_def res np_def)
      have rnew: "?r \<notin> dom (vregions s)" using regions_okD(1)[OF i(4)] by blast
      have nnew: "vmaps s ?n = None" "vmaps s ?r = None" using fresh_None(2)[OF i(3)] by simp_all
      have vm: "vmaps s' k = map_option (\<lambda>mp. mp\<lparr>mp_region := (\<lambda>r. r) (mp_region mp)\<rparr>) (vmaps s k)" if "k \<noteq> ?n" for k
        using that res(4) by (simp add: option.map_ident)
      have us: "uses s' = uses s" using uses_new[OF i(4) rnew res(3)] by (intro ext) (simp add: rg_def count_list_0_iff)
      have pd: "paddr s' p = paddr s p" for p by (rule fun_cong[OF paddr_cong]) (rule res)
      have po: "pages_ok (uses s') s'" unfolding us
        by (rule pages_ok_dirs[OF i(1)]) (simp_all add: dirs_area[OF x res(5)] res)
      have ne: "mp_region mp' \<noteq> ?r" if "vmaps s k = Some mp'" for k mp' using maps_okD(4)[OF i(3) that] rnew by auto
      have ro: "regions_ok s'" unfolding regions_ok_def
      proof (intro conjI allI impI)
        show "finite (dom (vregions s'))" using i(4) by (simp add: regions_ok_def res)
        fix r y assume y: "vregions s' r = Some y"
        have sh: "sharers s' r = (if r = ?r then {?n} else sharers s r)" using ne nnew by (auto simp: sharers_def res np_def)
        show "r < next_obj s'" using y regions_okD(1)[OF i(4), of r] by (fastforce simp: res split: if_splits)
        show "rg_refs y = int (card (sharers s' r))" "sharers s' r \<noteq> {}" "length (rg_pages y) = unat (rg_size y) div PAGE_SIZE"
          unfolding sh using y regions_okD(2-4)[OF i(4), of r] by (auto simp: res rg_def split: if_splits)
      qed
      have R: "\<exists>y'. vregions s' ((\<lambda>r. r) r) = Some y' \<and> rg_pages y' = rg_pages y \<and> rg_ops y' = rg_ops y \<and> rg_size y' = rg_size y"
        if "vregions s r = Some y" for r y using that rnew by (auto simp: res)
      have rn: "\<exists>y. vregions s' (mp_region np) = Some y \<and> rg_size y = bsize (mp_block np)" by (simp add: res(3) np_def rg_def)
      have W: "mp_flags mp AND PROT_WRITE \<noteq> PROT_WRITE \<and> mp_flags np AND PROT_WRITE \<noteq> PROT_WRITE"
        if "vmaps s k = Some mp" "(\<lambda>r. r) (mp_region mp) = mp_region np" for k mp using ne[OF that(1)] that(2) by (simp add: np_def)
      have pt: "\<exists>q. page_at s c v = Some q \<and> paddr s q = Some (table_of (pte (pgt s') (sp_dir y) v)) \<and>
          (pte (pgt s') (sp_dir y) v AND PG_FLAG_RW \<noteq> 0 \<longrightarrow> uses s' q = 1)"
        if "vspaces s c = Some y" "user_addr v" "pg_present (pte (pgt s') (sp_dir y) v)" for c y v
        using i(5) that unfolding ptes_ok_def us res(8) by blast
      have fm: "finite (dom (vmaps s'))" using i(3) by (simp add: res maps_ok_def)
      have fn: "mp_flags np AND MAP_SHARED = 0" using fl by (simp add: np_def)
      have nn: "next_obj s \<le> ?n" "?n < next_obj s'" and kd: "kernel_dir (pgt s') = kernel_dir (pgt s)" by (simp_all add: res)
      have k: "vm_inv s'" "\<And>c v. map_at s' c v = (if c = sp \<and> unat v \<in> blk b' then Some np
            else map_option (\<lambda>mp. mp\<lparr>mp_region := (\<lambda>r. r) (mp_region mp)\<rparr>) (map_at s c v))"
          "\<And>c v. \<not> (c = sp \<and> unat v \<in> blk b') \<Longrightarrow> view s' c v = view s c v"
        by (rule add_mapping_ok[where g = "\<lambda>r. r", OF inv x aa(1-3)[folded b'_def A_def] mb nn res(5) vm fn fm R inj_on_id2 rn W ro po pd res(9) pt
            res(11,10) kd res(12)]; assumption?)+
      have un: "map_at s sp v = None" if "unat v \<in> blk b'" for v using mapped_block[OF i(2) x aa(3)[folded b'_def] that] .
      have new: "view s' sp v = (if flags AND MAP_ANONYMOUS \<noteq> 0 then Some 0 else None)" if "unat v \<in> blk b'" for v
        using that k(2) res(3) by (simp add: view_def np_def rg_def region_page_def)
      have bl: "blk b' = {unat (bstart b) ..< unat (bstart b) + unat len}" using ab(1) by (simp add: b'_def blk_def fin_def)
      have st: "start \<noteq> 0 \<and> flags AND MAP_FIXED \<noteq> 0 \<longrightarrow> bstart b = start" using ab(2) by (auto simp: SMA_ALLOC_FIXED_def)
      have "view s' c v = (if c = sp \<and> unat v \<in> blk b' then if flags AND MAP_ANONYMOUS \<noteq> 0 then Some 0 else None else view s c v)" for c v
        using k(3)[of c v] new[of v] by auto
      moreover have "prot s' c v = (if c = sp \<and> unat v \<in> blk b' then Some flags else prot s c v)" for c v
        unfolding prot_def k(2) by (simp add: option.map_comp o_def np_def)
      moreover have "dom (vspaces s') = dom (vspaces s)" using x by (auto simp: res)
      ultimately show ?thesis using res(1,2,11) k(1) st un unfolding bl by blast
    qed
  qed
qed

end
