(* ===== verification/VmClone.thy ===== *)
theory VmClone
  imports VmSpace
begin

text \<open>
  Cloning and destroying address spaces. A clone sees what the original sees and shares its pages, read-only;
  destroying one gives up its references.
\<close>

section \<open>Write protection\<close>

lemma map_page_fails:
  assumes "map_page v f att (Some d) s = (r, s')" "r \<noteq> 0" "page_no w = page_no v"
  shows "pte (pgt s) d w = 0"
  using assms by (auto simp: map_page_def paging_map_page_def Let_def dir_of_def pte_def page_no_iff split: prod.splits if_splits)

lemma page_no_next: "unat v + PAGE_SIZE < 2 ^ 32 \<Longrightarrow> page_no (v + PAGE) = page_no v + 1 \<and> unat (v + PAGE) = unat v + PAGE_SIZE"
  by (subst (1 2) page_no_def) (simp add: unat_add_no_wrap)

text \<open>Afterwards an entry that is present on one of the pages of the list allows no writes.\<close>

lemma protect_pages_ok:
  assumes "pages_ok U s" "d \<in> dirs s" "\<And>p. Some p \<in> set ps \<Longrightarrow> 0 < U p" "unat v + length ps * PAGE_SIZE \<le> unat LOWMEM_START"
  shows "\<exists>p. protect_pages v ps d s = Some (s\<lparr>pgt := p\<rparr>) \<and> pages_ok U (s\<lparr>pgt := p\<rparr>) \<and> kernel_dir p = kernel_dir (pgt s) \<and>
    (\<forall>c w. c \<in> dirs s \<longrightarrow> user_addr w \<longrightarrow> pg_present (pte p c w) \<longrightarrow>
       (let i = page_no w - page_no v in
        if c = d \<and> page_no v \<le> page_no w \<and> i < length ps \<and> ps ! i \<noteq> None
        then \<exists>f. paddr s (the (ps ! i)) = Some f \<and> pte p c w = of_nat f OR (PG_FLAG_USER OR PG_FLAG_PRESENT)
        else pte p c w = pte (pgt s) c w))"
  using assms
proof (induction v ps d s rule: protect_pages.induct)
  case (1 v d s)
  then show ?case by (intro exI[of _ "pgt s"]) simp
next
  case (2 v ps d s)
  have lw: "unat LOWMEM_START < 2 ^ 32" by (simp add: LOWMEM_START_def)
  have n: "page_no (v + PAGE) = page_no v + 1" "unat (v + PAGE) = unat v + PAGE_SIZE"
    using page_no_next[of v] 2(5) lw by simp_all
  obtain p where p: "protect_pages (v + PAGE) ps d s = Some (s\<lparr>pgt := p\<rparr>)" "pages_ok U (s\<lparr>pgt := p\<rparr>)" "kernel_dir p = kernel_dir (pgt s)"
    "\<forall>c w. c \<in> dirs s \<longrightarrow> user_addr w \<longrightarrow> pg_present (pte p c w) \<longrightarrow>
       (let i = page_no w - page_no (v + PAGE) in
        if c = d \<and> page_no (v + PAGE) \<le> page_no w \<and> i < length ps \<and> ps ! i \<noteq> None
        then \<exists>f. paddr s (the (ps ! i)) = Some f \<and> pte p c w = of_nat f OR (PG_FLAG_USER OR PG_FLAG_PRESENT)
        else pte p c w = pte (pgt s) c w)"
    using 2(1)[OF 2(2,3)] 2(4,5) n by auto
  have "let i = page_no w - page_no v in
        if c = d \<and> page_no v \<le> page_no w \<and> i < length (None # ps) \<and> (None # ps) ! i \<noteq> None
        then \<exists>f. paddr s (the ((None # ps) ! i)) = Some f \<and> pte p c w = of_nat f OR (PG_FLAG_USER OR PG_FLAG_PRESENT)
        else pte p c w = pte (pgt s) c w" if h: "c \<in> dirs s" "user_addr w" "pg_present (pte p c w)" for c w
  proof (cases "page_no v + 1 \<le> page_no w")
    case True
    then have "page_no w - page_no v = Suc (page_no w - page_no (v + PAGE))" using n by simp
    then show ?thesis using p(4)[rule_format, OF h] True n by (auto simp: Let_def split: if_splits)
  next
    case False
    then show ?thesis using p(4)[rule_format, OF h] n by (auto simp: Let_def)
  qed
  then show ?case using p(1-3) by (intro exI[of _ p]) simp
next
  case (3 v p ps d s)
  have lw: "unat LOWMEM_START < 2 ^ 32" by (simp add: LOWMEM_START_def)
  have n: "page_no (v + PAGE) = page_no v + 1" "unat (v + PAGE) = unat v + PAGE_SIZE"
    using page_no_next[of v] 3(5) lw by simp_all
  have ua: "user_addr v" using 3(5) by (simp add: user_addr_def word_less_nat_alt)
  obtain x where x: "vpages s p = Some x" using pages_ok_live[OF 3(2)] 3(4)[of p] by auto
  obtain r s1 where m: "map_page v (pg_address x) (PG_FLAG_USER OR PG_FLAG_PRESENT) (Some d) s = (r, s1)" by force
  obtain p1 where s1: "s1 = s\<lparr>pgt := p1\<rparr>" using m by (auto simp: map_page_def split: prod.splits)
  note k = map_page_ok[OF 3(2,3) ua m]
  have d1: "dirs s1 = dirs s" and pd: "paddr s1 = paddr s" by (simp_all add: s1 dirs_def paddr_def fun_eq_iff)
  have ent: "if c = d \<and> page_no w = page_no v then pte p1 c w = of_nat (pg_address x) OR (PG_FLAG_USER OR PG_FLAG_PRESENT) \<or> pte p1 c w = 0
      else pte p1 c w = pte (pgt s) c w" if "c \<in> dirs s" "user_addr w" for c w
  proof (cases "r = 0")
    case True
    then show ?thesis using k(5)[of c w] that by (auto simp: s1)
  next
    case False
    then have "s1 = s" using k(3) by blast
    then have "p1 = pgt s" unfolding s1 by (metis vm.select_convs(1) vm.surjective vm.update_convs(1))
    then show ?thesis using map_page_fails[OF m False, of w] by auto
  qed
  obtain p2 where p2: "protect_pages (v + PAGE) ps d s1 = Some (s1\<lparr>pgt := p2\<rparr>)" "pages_ok U (s1\<lparr>pgt := p2\<rparr>)" "kernel_dir p2 = kernel_dir (pgt s1)"
    "\<forall>c w. c \<in> dirs s1 \<longrightarrow> user_addr w \<longrightarrow> pg_present (pte p2 c w) \<longrightarrow>
       (let i = page_no w - page_no (v + PAGE) in
        if c = d \<and> page_no (v + PAGE) \<le> page_no w \<and> i < length ps \<and> ps ! i \<noteq> None
        then \<exists>f. paddr s1 (the (ps ! i)) = Some f \<and> pte p2 c w = of_nat f OR (PG_FLAG_USER OR PG_FLAG_PRESENT)
        else pte p2 c w = pte (pgt s1) c w)"
  proof -
    have "snd (map_page v (pg_address x) (PG_FLAG_USER OR PG_FLAG_PRESENT) (Some d) s) = s1" by (simp add: m)
    note ih = 3(1)[OF x, unfolded this, OF k(1)]
    show ?thesis using ih 3(3,4,5) n d1 that by auto
  qed
  have "let i = page_no w - page_no v in
        if c = d \<and> page_no v \<le> page_no w \<and> i < length (Some p # ps) \<and> (Some p # ps) ! i \<noteq> None
        then \<exists>f. paddr s (the ((Some p # ps) ! i)) = Some f \<and> pte p2 c w = of_nat f OR (PG_FLAG_USER OR PG_FLAG_PRESENT)
        else pte p2 c w = pte (pgt s) c w" if h: "c \<in> dirs s" "user_addr w" "pg_present (pte p2 c w)" for c w
  proof -
    have h': "c \<in> dirs s1" using h(1) d1 by simp
    note q = p2(4)[rule_format, OF h' h(2,3)]
    note e = ent[OF h(1,2)]
    have pp: "paddr s p = Some (pg_address x)" using x by (simp add: paddr_def)
    consider (hi) "page_no v + 1 \<le> page_no w" | (eq) "page_no w = page_no v" | (lo) "page_no w < page_no v" by linarith
    then show ?thesis
    proof cases
      case hi
      then have "page_no w - page_no v = Suc (page_no w - page_no (v + PAGE))" using n by simp
      then show ?thesis using q e hi n pd by (auto simp: Let_def s1 split: if_splits)
    next
      case eq
      then have "pte p2 c w = pte p1 c w" using q n by (simp add: Let_def s1)
      then show ?thesis using e eq pp h(3) by (auto simp: Let_def PG_FLAG_PRESENT_def split: if_splits)
    next
      case lo
      then show ?thesis using q e n by (simp add: Let_def s1)
    qed
  qed
  moreover have "protect_pages v (Some p # ps) d s = Some (s\<lparr>pgt := p2\<rparr>)" using x m p2(1) by (simp add: s1)
  moreover have "pages_ok U (s\<lparr>pgt := p2\<rparr>)" "kernel_dir p2 = kernel_dir (pgt s)" using p2(2,3) k(2) by (simp_all add: s1)
  ultimately show ?case by blast
qed

section \<open>References to pages when regions come and go\<close>

lemma uses_add:
  assumes "finite (dom (vregions s))" "r \<notin> dom (vregions s)" "vregions s' = (vregions s)(r \<mapsto> rg)"
  shows "uses s' p = uses s p + count_list (rg_pages rg) (Some p)"
proof -
  have d: "dom (vregions s') = insert r (dom (vregions s))" using assms(3) by auto
  have "pages_of s' x = pages_of s x" if "x \<in> dom (vregions s)" for x using that assms(2,3) by (auto simp: pages_of_def)
  then have "(\<Sum>x \<in> dom (vregions s). count_list (pages_of s' x) (Some p)) = uses s p" unfolding uses_def by (intro sum.cong) auto
  then show ?thesis unfolding uses_def[of s'] d using assms by (simp add: pages_of_def)
qed

lemma uses_cong: "vregions s' = vregions s \<Longrightarrow> uses s' = uses s"
  by (intro ext) (simp add: uses_def pages_of_def)

text \<open>A region that is replaced by two copies leaves one more reference to each of its pages.\<close>

lemma uses_split:
  assumes "finite (dom (vregions s))" "vregions s r = Some rg" "r1 \<notin> dom (vregions s)" "r2 \<notin> dom (vregions s)" "r1 \<noteq> r2"
    and "vregions s' = (vregions s)(r1 \<mapsto> rg\<lparr>rg_refs := a\<rparr>, r2 \<mapsto> rg\<lparr>rg_refs := b\<rparr>, r := None)"
  shows "uses s' p = uses s p + count_list (rg_pages rg) (Some p)"
proof -
  define s0 where "s0 = s\<lparr>vregions := (vregions s)(r := None)\<rparr>"
  define s1 where "s1 = s0\<lparr>vregions := (vregions s0)(r1 \<mapsto> rg\<lparr>rg_refs := a\<rparr>)\<rparr>"
  have f: "finite (dom (vregions s0))" "finite (dom (vregions s1))" using assms(1) by (simp_all add: s0_def s1_def)
  have ne: "r \<noteq> r1" "r \<noteq> r2" using assms(2-4) by auto
  have "uses s p = uses s0 p + count_list (rg_pages rg) (Some p)"
    by (rule uses_add[OF f(1)]) (use assms(2) in \<open>auto simp: s0_def fun_upd_idem\<close>)
  moreover have "uses s1 p = uses s0 p + count_list (rg_pages rg) (Some p)"
    using uses_add[OF f(1), of r1 s1 "rg\<lparr>rg_refs := a\<rparr>"] assms(3) by (auto simp: s1_def s0_def)
  moreover have "uses s' p = uses s1 p + count_list (rg_pages rg) (Some p)"
    using uses_add[OF f(2), of r2 s' "rg\<lparr>rg_refs := b\<rparr>"] assms(4-6) ne by (auto simp: s1_def s0_def fun_upd_twist)
  ultimately show ?thesis by simp
qed

definition vnode_rel :: "nat option \<Rightarrow> ('f, 'w) vm \<Rightarrow> ('f, 'w) vm" where
  "vnode_rel vn s = (case vn of None \<Rightarrow> s | Some v \<Rightarrow> s\<lparr>vmfs := VNODE_REL v (vmfs s)\<rparr>)"

lemma vnode_rel_facts [simp]:
  "vpages (vnode_rel vn s) = vpages s" "vspaces (vnode_rel vn s) = vspaces s" "vregions (vnode_rel vn s) = vregions s"
  "vmaps (vnode_rel vn s) = vmaps s" "pmem (vnode_rel vn s) = pmem s" "next_obj (vnode_rel vn s) = next_obj s"
  "cr3 (vnode_rel vn s) = cr3 s" "cpu_space (vnode_rel vn s) = cpu_space s" "kmem_area (vnode_rel vn s) = kmem_area s"
  "pgt (vnode_rel vn s) = pgt s" "dirs (vnode_rel vn s) = dirs s" "paddr (vnode_rel vn s) = paddr s"
  by (auto simp: vnode_rel_def dirs_def paddr_def fun_eq_iff split: option.split)

lemma put_region_last:
  assumes ok: "pages_ok U s" and rg: "vregions s r = Some rg" "rg_refs rg = 1" "length (rg_pages rg) = unat (rg_size rg) div PAGE_SIZE"
    and le: "\<And>p. count_list (rg_pages rg) (Some p) \<le> U p"
  shows "\<exists>s'. put_region r s = Some s' \<and> pages_ok (\<lambda>p. U p - count_list (rg_pages rg) (Some p)) s' \<and>
    same_objs (s\<lparr>vregions := (vregions s)(r := None)\<rparr>) s' \<and> pmem s' = pmem s \<and> next_obj s' = next_obj s \<and> pte (pgt s') = pte (pgt s) \<and>
    (\<forall>q. count_list (rg_pages rg) (Some q) < U q \<longrightarrow> paddr s' q = paddr s q)"
proof -
  define s1 where "s1 = s\<lparr>vregions := (vregions s)(r \<mapsto> rg\<lparr>rg_refs := 0\<rparr>)\<rparr>"
  have d1: "dirs s1 = dirs s" "paddr s1 = paddr s" by (simp_all add: s1_def dirs_def paddr_def fun_eq_iff)
  have ok1: "pages_ok U s1" by (rule pages_ok_dirs[OF ok]) (simp_all add: d1, simp_all add: s1_def)
  obtain s2 where s2: "put_pages (rg_pages rg) s1 = Some s2" "pages_ok (\<lambda>p. U p - count_list (rg_pages rg) (Some p)) s2"
    "same_objs s1 s2" "pmem s2 = pmem s1" "next_obj s2 = next_obj s1" "pte (pgt s2) = pte (pgt s1)"
    "\<forall>q. count_list (rg_pages rg) (Some q) < U q \<longrightarrow> paddr s2 q = paddr s1 q" using put_pages_ok[OF ok1 le] by blast
  define s3 where "s3 = (vnode_rel (rg_vnode rg) s2)\<lparr>vregions := (vregions s2)(r := None)\<rparr>"
  have "put_region r s = vm_destroy_region r s1" using rg(1,2) by (simp add: put_region_def s1_def)
  also have "\<dots> = Some s3" using s2(1) rg(3) by (simp add: vm_destroy_region_def s1_def s3_def vnode_rel_def split: option.split)
  finally have res: "put_region r s = Some s3" .
  have d3: "dirs s3 = dirs s2" "paddr s3 = paddr s2" by (simp_all add: s3_def dirs_def paddr_def fun_eq_iff)
  have "pages_ok (\<lambda>p. U p - count_list (rg_pages rg) (Some p)) s3"
    by (rule pages_ok_dirs[OF s2(2)]) (simp_all add: d3, simp_all add: s3_def)
  moreover have "same_objs (s\<lparr>vregions := (vregions s)(r := None)\<rparr>) s3" using s2(3) by (auto simp: same_objs_def s3_def s1_def)
  moreover have "pmem s3 = pmem s" "next_obj s3 = next_obj s" "pte (pgt s3) = pte (pgt s)" using s2(4-6) by (simp_all add: s3_def s1_def)
  moreover have "\<forall>q. count_list (rg_pages rg) (Some q) < U q \<longrightarrow> paddr s3 q = paddr s q" using s2(7) d1 d3 by simp
  ultimately show ?thesis using res by blast
qed

section \<open>Cloning a mapping\<close>

text \<open>The addresses of \<open>B\<close> became in \<open>dest\<close> what they are in \<open>src\<close>.\<close>

definition cloned :: "('f, 'w) vm \<Rightarrow> ('f, 'w) vm \<Rightarrow> nat \<Rightarrow> nat \<Rightarrow> nat set \<Rightarrow> bool" where
  "cloned s s' src dest B \<longleftrightarrow> vm_inv s' \<and>
     (\<forall>c v. view s' c v = (if c = dest \<and> unat v \<in> B then view s src v else view s c v)) \<and>
     (\<forall>c v. prot s' c v = (if c = dest \<and> unat v \<in> B then prot s src v else prot s c v)) \<and>
     (\<forall>c. c \<noteq> dest \<longrightarrow> vspaces s' c = vspaces s c) \<and> (vspaces s' dest = None \<longleftrightarrow> vspaces s dest = None) \<and> cpu_space s' = cpu_space s"

text \<open>A mapping of \<open>src\<close> and the block that is free for its copy in \<open>dest\<close>.\<close>

definition copying :: "('f, 'w) vm \<Rightarrow> nat \<Rightarrow> nat \<Rightarrow> vm_space \<Rightarrow> vm_space \<Rightarrow> sma_block \<Rightarrow> nat \<Rightarrow> vm_mapping \<Rightarrow> sma_block \<Rightarrow> sma_area \<Rightarrow> bool" where
  "copying s src dest x y b m mp block area \<longleftrightarrow> vm_inv s \<and> src \<noteq> dest \<and> vspaces s src = Some x \<and> vspaces s dest = Some y \<and>
     b \<in> set (used_list (sp_area x)) \<and> maps_block s src b m mp \<and>
     sma_alloc (sp_area y) (bstart (mp_block mp)) (bsize (mp_block mp)) SMA_ALLOC_FIXED = (Some block, area)"

lemma copyingD:
  assumes "copying s src dest x y b m mp block area"
  shows "vm_inv s" "src \<noteq> dest" "vspaces s src = Some x" "vspaces s dest = Some y" "b \<in> set (used_list (sp_area x))"
    "maps_block s src b m mp" "sma_alloc (sp_area y) (bstart (mp_block mp)) (bsize (mp_block mp)) SMA_ALLOC_FIXED = (Some block, area)"
    "dataptr b = Some m" "vmaps s m = Some mp" "mp_space mp = src" "bstart (mp_block mp) = bstart b" "bsize (mp_block mp) = bsize b"
  using assms unfolding copying_def maps_block_def by blast+

lemma used_regular:
  assumes "area_ok a" "b \<in> set (used_list a)" "area_ok c"
  shows "regular c (bstart b) (bsize b) SMA_ALLOC_FIXED"
proof -
  have "bsize b \<noteq> 0" using area_ok_block(2)[OF assms(1,2)] by (auto simp: fin_def)
  moreover have "unat (area_start c) + unat (area_size c) < 2 ^ 32" using area_okD(2,3)[OF assms(3)]
    by (simp add: USERMEM_START_def USERMEM_SIZE_def LOWMEM_START_def)
  ultimately show ?thesis using area_ok_block(3)[OF assms(1,2)] by (simp add: regular_def fin_def SMA_ALLOC_FIXED_def)
qed

lemma copying_area:
  fixes n :: nat
  assumes c: "copying s src dest x y b m mp block area"
  shows "area_ok (set_dataptr block n area)" "set (used_list (set_dataptr block n area)) = insert (block\<lparr>dataptr := Some n\<rparr>) (set (used_list (sp_area y)))"
    "\<forall>c \<in> set (used_list (sp_area y)). blk c \<inter> blk (block\<lparr>dataptr := Some n\<rparr>) = {}" "bsize block = bsize b" "bstart block = bstart b"
    "blk (block\<lparr>dataptr := Some n\<rparr>) = blk b"
proof -
  note d = copyingD[OF c]
  note i = vm_invD[OF d(1)]
  note ax = spaces_okD(2)[OF i(2) d(3)] and ay = spaces_okD(2)[OF i(2) d(4)]
  note al = d(7)[unfolded d(11,12)]
  have dv: "PAGE dvd bstart b" "PAGE dvd bsize b" "unat (bsize b) \<le> 2 ^ 31" using area_okD(4-6)[OF ax] d(5) by simp_all
  note a = area_alloc(1-3)[OF ay al used_regular[OF ax d(5) ay] dv, where n = n] area_alloc(4,5)[OF ay al used_regular[OF ax d(5) ay] dv]
  show "area_ok (set_dataptr block n area)" "set (used_list (set_dataptr block n area)) = insert (block\<lparr>dataptr := Some n\<rparr>) (set (used_list (sp_area y)))"
    "\<forall>c \<in> set (used_list (sp_area y)). blk c \<inter> blk (block\<lparr>dataptr := Some n\<rparr>) = {}" "bsize block = bsize b" by (rule a)+
  have "unat (bstart b) \<ge> unat USERMEM_START" using sma_wf_block(5)[OF area_okD(1)[OF ax], of b] d(5) area_okD(2)[OF ax] by simp
  then have "bstart b \<noteq> 0" by (auto simp: USERMEM_START_def)
  then show "bstart block = bstart b" using a(5) by (simp add: SMA_ALLOC_FIXED_def)
  then show "blk (block\<lparr>dataptr := Some n\<rparr>) = blk b" using a(4) by (simp add: blk_def fin_def)
qed

lemma cloned_intro:
  assumes c: "copying s src dest x y b m mp block area" and inv: "vm_inv s'"
    and ma: "\<And>c v. map_at s' c v = (if c = dest \<and> unat v \<in> blk b then Some np else map_option (\<lambda>mp. mp\<lparr>mp_region := g (mp_region mp)\<rparr>) (map_at s c v))"
    and vw: "\<And>c v. \<not> (c = dest \<and> unat v \<in> blk b) \<Longrightarrow> view s' c v = view s c v"
    and np: "mp_flags np = mp_flags mp" "mp_block np = block"
    and rg: "vregions s (mp_region mp) = Some rg" "vregions s' (mp_region np) = Some rg'" "rg_pages rg' = rg_pages rg" "rg_ops rg' = rg_ops rg"
    and pd: "\<And>p. 0 < uses s p \<Longrightarrow> paddr s' p = paddr s p" and pm: "pmem s' = pmem s"
    and vs: "vspaces s' = (vspaces s)(dest \<mapsto> y\<lparr>sp_area := A\<rparr>)" and cp: "cpu_space s' = cpu_space s"
  shows "cloned s s' src dest (blk b)"
proof -
  note d = copyingD[OF c]
  note i = vm_invD[OF d(1)]
  have bs: "bstart block = bstart (mp_block mp)" using copying_area(5)[OF c] d(11) by simp
  have "view s' dest v = view s src v \<and> prot s' dest v = prot s src v" if v: "unat v \<in> blk b" for v
  proof -
    have m1: "map_at s src v = Some mp" using map_at_iff[OF i(2)] d(3,5,6) v by blast
    have m2: "map_at s' dest v = Some np" using ma v by simp
    have rp: "region_page s' (mp_region np) j = region_page s (mp_region mp) j" for j using rg by (simp add: region_page_def)
    have "view s' dest v = view s src v"
    proof (cases "region_page s (mp_region mp) (page_idx (bstart block) v)")
      case None
      then show ?thesis using m1 m2 rg rp by (simp add: view_def np bs)
    next
      case (Some p)
      then show ?thesis using m1 m2 rg rp pd[OF uses_pos[OF i(4) Some]] pm by (simp add: view_def np bs)
    qed
    then show ?thesis using m1 m2 np by (simp add: prot_def)
  qed
  moreover have "prot s' c v = prot s c v" if "\<not> (c = dest \<and> unat v \<in> blk b)" for c v
    using ma[of c v] unfolding if_not_P[OF that] by (simp add: prot_def option.map_comp o_def)
  ultimately show ?thesis using inv vw vs cp d(4) unfolding cloned_def by simp
qed

lemma sharers_finite: "maps_ok s \<Longrightarrow> finite (sharers s r)"
  by (rule finite_subset[of _ "dom (vmaps s)"]) (auto simp: sharers_def maps_ok_def)

lemma clone_shared:
  assumes c: "copying s src dest x y b m mp block area" and ro: "mp_flags mp AND PROT_WRITE \<noteq> PROT_WRITE"
  shows "\<exists>s'. vm_clone m src dest s = Some (0, s') \<and> cloned s s' src dest (blk b)"
proof -
  note d = copyingD[OF c]
  note i = vm_invD[OF d(1)]
  let ?n = "next_obj s" and ?r = "mp_region mp"
  note ar = copying_area(1-3)[OF c, where n = ?n] copying_area(4,5)[OF c] copying_area(6)[OF c, where n = ?n]
  obtain rg where rg: "vregions s ?r = Some rg" "rg_size rg = bsize (mp_block mp)" using maps_okD(4)[OF i(3) d(9)] by blast
  define np where "np = \<lparr>mp_block = block, mp_space = dest, mp_flags = mp_flags mp, mp_region = ?r, mp_offset = mp_offset mp\<rparr>"
  define A where "A = set_dataptr block ?n area"
  define s' where "s' = s\<lparr>next_obj := ?n + 1, vspaces := (vspaces s)(dest \<mapsto> y\<lparr>sp_area := A\<rparr>),
    vregions := (vregions s)(?r \<mapsto> rg\<lparr>rg_refs := rg_refs rg + 1\<rparr>), vmaps := (vmaps s)(?n \<mapsto> np)\<rparr>"
  have res: "vm_clone m src dest s = Some (0, s')"
    using d(4,7,9) rg ro by (simp add: vm_clone_def fresh_obj_def Let_def s'_def np_def A_def)
  have f: "next_obj s' = ?n + 1" "vspaces s' = (vspaces s)(dest \<mapsto> y\<lparr>sp_area := A\<rparr>)" "vmaps s' = (vmaps s)(?n \<mapsto> np)"
    "vregions s' = (vregions s)(?r \<mapsto> rg\<lparr>rg_refs := rg_refs rg + 1\<rparr>)" "vpages s' = vpages s" "pgt s' = pgt s" "pmem s' = pmem s"
    "cr3 s' = cr3 s" "cpu_space s' = cpu_space s" "kmem_area s' = kmem_area s" by (simp_all add: s'_def)
  have nn: "vmaps s ?n = None" using maps_okD(1)[OF i(3), of ?n] by (cases "vmaps s ?n") auto
  have R: "\<exists>y'. vregions s' ((\<lambda>r. r) r) = Some y' \<and> rg_pages y' = rg_pages z \<and> rg_ops y' = rg_ops z \<and> rg_size y' = rg_size z"
    if "vregions s r = Some z" for r z using that rg by (auto simp: f)
  have us: "uses s' = uses s"
  proof
    fix p
    have "pages_of s' r = pages_of s r" for r using rg by (simp add: pages_of_def f)
    moreover have "dom (vregions s') = dom (vregions s)" using rg by (auto simp: f)
    ultimately show "uses s' p = uses s p" by (simp add: uses_def)
  qed
  have sh: "sharers s' r = (if r = ?r then insert ?n (sharers s r) else sharers s r)" for r
    using nn by (auto simp: sharers_def f np_def)
  have ro': "regions_ok s'" unfolding regions_ok_def
  proof (intro conjI allI impI)
    show "finite (dom (vregions s'))" using i(4) by (simp add: regions_ok_def f)
    fix r z assume z: "vregions s' r = Some z"
    obtain z0 where z0: "vregions s r = Some z0" "z = (if r = ?r then rg\<lparr>rg_refs := rg_refs rg + 1\<rparr> else z0)" "r = ?r \<longrightarrow> z0 = rg"
      using z rg by (auto simp: f split: if_splits)
    note ok = regions_okD[OF i(4) z0(1)]
    have "?n \<notin> sharers s ?r" using nn by (simp add: sharers_def)
    then show "r < next_obj s'" "rg_refs z = int (card (sharers s' r))" "sharers s' r \<noteq> {}" "length (rg_pages z) = unat (rg_size z) div PAGE_SIZE"
      unfolding sh using ok z0 sharers_finite[OF i(3), of ?r] by (auto simp: f)
  qed
  have ds: "dirs s' = dirs s" by (rule dirs_area[OF d(4) f(2)])
  have pd: "paddr s' p = paddr s p" for p by (rule fun_cong[OF paddr_cong]) (rule f)
  have po: "pages_ok (uses s') s'" unfolding us by (rule pages_ok_dirs[OF i(1)]) (simp_all add: ds f)
  have W: "mp_flags mp' AND PROT_WRITE \<noteq> PROT_WRITE \<and> mp_flags np AND PROT_WRITE \<noteq> PROT_WRITE"
    if "vmaps s k = Some mp'" "(\<lambda>r. r) (mp_region mp') = mp_region np" for k mp'
    using maps_okD(5)[OF i(3) that(1) d(9)] that d(9) ro by (auto simp: np_def)
  have mb: "maps_block s' dest (block\<lparr>dataptr := Some ?n\<rparr>) ?n np" by (simp add: maps_block_def f np_def)
  have pt: "\<exists>p. page_at s sp' v = Some p \<and> paddr s p = Some (table_of (pte (pgt s') (sp_dir z) v)) \<and>
      (pte (pgt s') (sp_dir z) v AND PG_FLAG_RW \<noteq> 0 \<longrightarrow> uses s' p = 1)"
    if "vspaces s sp' = Some z" "user_addr v" "pg_present (pte (pgt s') (sp_dir z) v)" for sp' z v
    using i(5) that unfolding ptes_ok_def f us by blast
  have vm: "vmaps s' k = map_option (\<lambda>mp. mp\<lparr>mp_region := (\<lambda>r. r) (mp_region mp)\<rparr>) (vmaps s k)" if "k \<noteq> ?n" for k
    using that by (simp add: f option.map_ident)
  have fm: "finite (dom (vmaps s'))" using i(3) by (simp add: f maps_ok_def)
  have fl: "mp_flags np AND MAP_SHARED = 0" using maps_okD(2)[OF i(3) d(9)] by (simp add: np_def)
  have rn: "\<exists>z. vregions s' (mp_region np) = Some z \<and> rg_size z = bsize (mp_block np)" using rg ar(4) d(12) by (simp add: f np_def)
  have nn2: "next_obj s \<le> ?n" "?n < next_obj s'" and kd: "kernel_dir (pgt s') = kernel_dir (pgt s)" by (simp_all add: f)
  have k: "vm_inv s'" "\<And>c v. map_at s' c v = (if c = dest \<and> unat v \<in> blk (block\<lparr>dataptr := Some ?n\<rparr>) then Some np
        else map_option (\<lambda>mp. mp\<lparr>mp_region := (\<lambda>r. r) (mp_region mp)\<rparr>) (map_at s c v))"
      "\<And>c v. \<not> (c = dest \<and> unat v \<in> blk (block\<lparr>dataptr := Some ?n\<rparr>)) \<Longrightarrow> view s' c v = view s c v"
    by (rule add_mapping_ok[where g = "\<lambda>r. r", OF d(1,4) ar(1-3)[folded A_def] mb nn2 f(2) vm fl fm R inj_on_id2 rn W ro' po pd f(7) pt f(9,8) kd f(10)]; assumption?)+
  have "cloned s s' src dest (blk b)"
    by (rule cloned_intro[OF c, where np = np and g = "\<lambda>r. r" and rg = rg and rg' = "rg\<lparr>rg_refs := rg_refs rg + 1\<rparr>" and A = A])
      (use k in \<open>simp_all add: np_def rg f pd ar(6)\<close>)
  then show ?thesis using res by blast
qed

section \<open>Copy on write\<close>

definition vnode_hold2 :: "nat option \<Rightarrow> ('f, 'w) vm \<Rightarrow> ('f, 'w) vm" where
  "vnode_hold2 vn s = (case vn of None \<Rightarrow> s | Some v \<Rightarrow> s\<lparr>vmfs := VNODE_HOLD v (VNODE_HOLD v (vmfs s))\<rparr>)"

lemma vnode_hold2_facts [simp]:
  "vpages (vnode_hold2 vn s) = vpages s" "vspaces (vnode_hold2 vn s) = vspaces s" "vregions (vnode_hold2 vn s) = vregions s"
  "vmaps (vnode_hold2 vn s) = vmaps s" "pmem (vnode_hold2 vn s) = pmem s" "next_obj (vnode_hold2 vn s) = next_obj s"
  "cr3 (vnode_hold2 vn s) = cr3 s" "cpu_space (vnode_hold2 vn s) = cpu_space s" "kmem_area (vnode_hold2 vn s) = kmem_area s"
  "pgt (vnode_hold2 vn s) = pgt s"
  by (auto simp: vnode_hold2_def split: option.split)

text \<open>The state of \<open>vm_clone\<close> once the old region has been replaced and everything is protected, in terms of its parts.\<close>

lemma cow_parts:
  assumes c: "copying s src dest x y b m mp block area" and w: "mp_flags mp AND PROT_WRITE = PROT_WRITE" and rg: "vregions s (mp_region mp) = Some rg"
  defines "n \<equiv> next_obj s" and "np \<equiv> \<lparr>mp_block = block, mp_space = dest, mp_flags = mp_flags mp, mp_region = next_obj s + 2, mp_offset = mp_offset mp\<rparr>"
  shows "\<exists>s' p. vm_clone m src dest s = Some (0, s') \<and> pages_ok (\<lambda>p. uses s p + count_list (rg_pages rg) (Some p)) s' \<and>
    vspaces s' = (vspaces s)(dest \<mapsto> y\<lparr>sp_area := set_dataptr block n area\<rparr>) \<and> vmaps s' = (vmaps s)(m \<mapsto> mp\<lparr>mp_region := n + 1\<rparr>, n \<mapsto> np) \<and>
    vregions s' = (vregions s)(n + 1 \<mapsto> rg\<lparr>rg_refs := 1\<rparr>, n + 2 \<mapsto> rg\<lparr>rg_refs := 1\<rparr>, mp_region mp := None) \<and>
    pmem s' = pmem s \<and> next_obj s' = n + 3 \<and> cr3 s' = cr3 s \<and> cpu_space s' = cpu_space s \<and> kmem_area s' = kmem_area s \<and>
    kernel_dir (pgt s') = kernel_dir (pgt s) \<and> pte (pgt s') = pte p \<and> (\<forall>q. 0 < uses s q \<longrightarrow> paddr s' q = paddr s q) \<and>
    (\<forall>c w. c \<in> dirs s \<longrightarrow> user_addr w \<longrightarrow> pg_present (pte p c w) \<longrightarrow>
       (let i = page_no w - page_no (bstart b) in
        if c = sp_dir x \<and> page_no (bstart b) \<le> page_no w \<and> i < length (rg_pages rg) \<and> rg_pages rg ! i \<noteq> None
        then \<exists>f. paddr s (the (rg_pages rg ! i)) = Some f \<and> pte p c w = of_nat f OR (PG_FLAG_USER OR PG_FLAG_PRESENT)
        else pte p c w = pte (pgt s) c w))"
proof -
  note d = copyingD[OF c]
  note i = vm_invD[OF d(1)]
  let ?r = "mp_region mp" and ?C = "\<lambda>p. count_list (rg_pages rg) (Some p)"
  have sz: "rg_size rg = bsize b" using maps_okD(4)[OF i(3) d(9)] rg d(12) by simp
  have len: "length (rg_pages rg) = unat (rg_size rg) div PAGE_SIZE" using regions_okD(4)[OF i(4) rg] .
  have new: "?r \<noteq> n + 1" "?r \<noteq> n + 2" "m \<noteq> n" using regions_okD(1)[OF i(4) rg] maps_okD(1)[OF i(3) d(9)] by (auto simp: n_def)
  have "k = m" if "vmaps s k = Some kp" "mp_region kp = ?r" for k kp using maps_okD(5)[OF i(3) d(9) that(1) _ w] that(2) by simp
  then have "sharers s ?r = {m}" unfolding sharers_def using d(9) by blast
  then have one: "rg_refs rg = 1" using regions_okD(2)[OF i(4) rg] by simp
  have in_use: "?C p \<le> uses s p" for p
    using member_le_sum[of ?r "dom (vregions s)" "\<lambda>r. count_list (pages_of s r) (Some p)"] i(4) rg
    by (auto simp: uses_def pages_of_def regions_ok_def)
  define T where "T = (vnode_hold2 (rg_vnode rg) (s\<lparr>vspaces := (vspaces s)(dest \<mapsto> y\<lparr>sp_area := set_dataptr block n area\<rparr>), next_obj := n + 3\<rparr>))
    \<lparr>vregions := (vregions s)(n + 1 \<mapsto> rg\<lparr>rg_refs := 1\<rparr>, n + 2 \<mapsto> rg\<lparr>rg_refs := 1\<rparr>),
     vmaps := (vmaps s)(m \<mapsto> mp\<lparr>mp_region := n + 1\<rparr>, n \<mapsto> np)\<rparr>"
  have res: "vm_clone m src dest s = Option.bind (hold_pages (rg_pages rg) T) (\<lambda>s. do { x \<leftarrow> vspaces s src;
      s \<leftarrow> protect_pages (bstart b) (rg_pages rg) (sp_dir x) s; s \<leftarrow> put_region ?r s; Some (0, s) })"
    using d(4,7,8-12) rg w len sz maps_okD(2)[OF i(3) d(9)]
    by (cases "rg_vnode rg") (simp_all add: vm_clone_def fresh_obj_def Let_def T_def np_def vnode_hold2_def n_def numeral_2_eq_2 numeral_3_eq_3)
  have dT: "dirs T = dirs s" by (rule dirs_area[OF d(4)]) (simp add: T_def)
  have pT: "paddr T = paddr s" by (rule paddr_cong) (simp add: T_def)
  have okT: "pages_ok (uses s) T" by (rule pages_ok_dirs[OF i(1)]) (simp_all add: dT, simp_all add: T_def n_def)
  have live: "0 < uses s p" if "Some p \<in> set (rg_pages rg)" for p
    using in_use[of p] that by (metis count_list_0_iff le_zero_eq not_gr_zero)
  obtain T1 where T1: "hold_pages (rg_pages rg) T = Some T1" "pages_ok (\<lambda>p. uses s p + 2 * ?C p) T1" "same_objs T T1" "pmem T1 = pmem T"
    "next_obj T1 = next_obj T" "pgt T1 = pgt T" "paddr T1 = paddr T" using hold_pages_ok[OF okT live] by blast
  have vsT: "vspaces T1 = vspaces T" "vregions T1 = vregions T" using T1(3) by (simp_all add: same_objs_def)
  have x1: "vspaces T1 src = Some x" using vsT d(2,3) by (simp add: T_def)
  have d1: "dirs T1 = dirs s" using dirs_cong[OF vsT(1)] dT by simp
  have dx: "sp_dir x \<in> dirs T1" using spaces_okD(5)[OF i(2) d(3)] d1 by simp
  have bound: "unat (bstart b) + length (rg_pages rg) * PAGE_SIZE \<le> unat LOWMEM_START"
    using area_ok_block(1)[OF spaces_okD(2)[OF i(2) d(3)] d(5)] div_times_less_eq_dividend[of "unat (bsize b)" PAGE_SIZE]
    by (simp add: len sz fin_def)
  have live2: "0 < uses s p + 2 * ?C p" if "Some p \<in> set (rg_pages rg)" for p using live[OF that] by simp
  obtain p where p: "protect_pages (bstart b) (rg_pages rg) (sp_dir x) T1 = Some (T1\<lparr>pgt := p\<rparr>)" "pages_ok (\<lambda>p. uses s p + 2 * ?C p) (T1\<lparr>pgt := p\<rparr>)"
    "kernel_dir p = kernel_dir (pgt T1)"
    "\<forall>c w. c \<in> dirs T1 \<longrightarrow> user_addr w \<longrightarrow> pg_present (pte p c w) \<longrightarrow>
       (let i = page_no w - page_no (bstart b) in
        if c = sp_dir x \<and> page_no (bstart b) \<le> page_no w \<and> i < length (rg_pages rg) \<and> rg_pages rg ! i \<noteq> None
        then \<exists>f. paddr T1 (the (rg_pages rg ! i)) = Some f \<and> pte p c w = of_nat f OR (PG_FLAG_USER OR PG_FLAG_PRESENT)
        else pte p c w = pte (pgt T1) c w)"
    using protect_pages_ok[OF T1(2) dx live2 bound] by blast
  define T2 where "T2 = T1\<lparr>pgt := p\<rparr>"
  have r2: "vregions T2 ?r = Some rg" using vsT rg new by (simp add: T2_def T_def)
  have le: "?C p \<le> uses s p + 2 * ?C p" for p by simp
  have pt1: "pgt T1 = pgt s" using T1(6) by (simp add: T_def)
  obtain s' where s': "put_region ?r T2 = Some s'" "pages_ok (\<lambda>p. uses s p + 2 * ?C p - ?C p) s'"
    "same_objs (T2\<lparr>vregions := (vregions T2)(?r := None)\<rparr>) s'" "pmem s' = pmem T2" "next_obj s' = next_obj T2" "pte (pgt s') = pte (pgt T2)"
    "\<forall>q. ?C q < uses s q + 2 * ?C q \<longrightarrow> paddr s' q = paddr T2 q"
    using put_region_last[OF p(2)[folded T2_def] r2 one len le] by blast
  have e: "(\<lambda>p. uses s p + 2 * ?C p - ?C p) = (\<lambda>p. uses s p + ?C p)" by (rule ext) simp
  have pa: "paddr T2 = paddr s" using T1(7) pT by (simp add: T2_def paddr_def fun_eq_iff)
  have pl: "\<forall>q. 0 < uses s q \<longrightarrow> paddr s' q = paddr s q" using s'(7) pa by simp
  have ent: "\<forall>c w. c \<in> dirs s \<longrightarrow> user_addr w \<longrightarrow> pg_present (pte p c w) \<longrightarrow>
       (let i = page_no w - page_no (bstart b) in
        if c = sp_dir x \<and> page_no (bstart b) \<le> page_no w \<and> i < length (rg_pages rg) \<and> rg_pages rg ! i \<noteq> None
        then \<exists>f. paddr s (the (rg_pages rg ! i)) = Some f \<and> pte p c w = of_nat f OR (PG_FLAG_USER OR PG_FLAG_PRESENT)
        else pte p c w = pte (pgt s) c w)"
    using p(4) unfolding d1 T1(7) pT pt1 .
  have fin': "vm_clone m src dest s = Some (0, s')" using res T1(1) x1 p(1) s'(1) by (simp add: T2_def)
  have fs: "vspaces s' = vspaces T" "vmaps s' = vmaps T" "vregions s' = (vregions T)(?r := None)" "cr3 s' = cr3 T" "cpu_space s' = cpu_space T"
    "kmem_area s' = kmem_area T" "kernel_dir (pgt s') = kernel_dir p"
    using s'(3) T1(3) by (simp_all add: same_objs_def T2_def)
  show ?thesis
    by (rule exI[of _ s'], rule exI[of _ p], intro conjI fin' pl ent s'(2)[unfolded e])
      (use s'(4-6) T1(4,5) p(3) pt1 in \<open>simp_all add: fs e T2_def\<close>, simp_all add: T_def)
qed

text \<open>After the protection an entry that is still writable leads to a page that no copy refers to.\<close>

lemma cow_entry:
  assumes c: "copying s src dest x y b m mp block area" and w: "mp_flags mp AND PROT_WRITE = PROT_WRITE" and rg: "vregions s (mp_region mp) = Some rg"
    and ent: "\<forall>c w. c \<in> dirs s \<longrightarrow> user_addr w \<longrightarrow> pg_present (pte p c w) \<longrightarrow>
       (let i = page_no w - page_no (bstart b) in
        if c = sp_dir x \<and> page_no (bstart b) \<le> page_no w \<and> i < length (rg_pages rg) \<and> rg_pages rg ! i \<noteq> None
        then \<exists>f. paddr s (the (rg_pages rg ! i)) = Some f \<and> pte p c w = of_nat f OR (PG_FLAG_USER OR PG_FLAG_PRESENT)
        else pte p c w = pte (pgt s) c w)"
    and z: "vspaces s sp' = Some z" "user_addr v" "pg_present (pte p (sp_dir z) v)"
    and us: "\<And>q. U q = uses s q + count_list (rg_pages rg) (Some q)"
  shows "\<exists>q. page_at s sp' v = Some q \<and> paddr s q = Some (table_of (pte p (sp_dir z) v)) \<and> (pte p (sp_dir z) v AND PG_FLAG_RW \<noteq> 0 \<longrightarrow> U q = 1)"
proof -
  note d = copyingD[OF c]
  note i = vm_invD[OF d(1)]
  note ax = spaces_okD(2)[OF i(2) d(3)]
  let ?i = "page_no v - page_no (bstart b)"
  have sz: "rg_size rg = bsize b" using maps_okD(4)[OF i(3) d(9)] rg d(12) by simp
  have len: "length (rg_pages rg) = unat (bsize b) div PAGE_SIZE" using regions_okD(4)[OF i(4) rg] sz by simp
  have al: "4096 dvd unat (bstart b)" "4096 dvd unat (bsize b)" using area_okD(4,5)[OF ax, of b] d(5) by (simp_all add: word_dvd_unat)
  then obtain k n where kn: "unat (bstart b) = 4096 * k" "unat (bsize b) = 4096 * n" by (auto elim!: dvdE)
  have inside: "unat v \<in> blk b \<longleftrightarrow> page_no (bstart b) \<le> page_no v \<and> ?i < length (rg_pages rg)"
    unfolding len page_no_def blk_def fin_def kn by (auto simp: less_eq_div_iff_mult_less_eq div_less_iff_less_mult)
  have idx: "page_idx (bstart (mp_block mp)) v = ?i" if "unat v \<in> blk b"
    using that unfolding page_idx_def page_no_def blk_def fin_def d(11) kn by (auto simp: algebra_simps)
  have at: "map_at s src v = Some mp" if "unat v \<in> blk b" using map_at_iff[OF i(2)] d(3,5,6) that by blast
  have pa: "page_at s src v = rg_pages rg ! ?i" if "unat v \<in> blk b"
    using at[OF that] idx[OF that] rg inside that by (simp add: page_at_def region_page_def)
  have zd: "sp_dir z \<in> dirs s" using spaces_okD(5)[OF i(2) z(1)] .
  show ?thesis
  proof (cases "sp_dir z = sp_dir x \<and> page_no (bstart b) \<le> page_no v \<and> ?i < length (rg_pages rg) \<and> rg_pages rg ! ?i \<noteq> None")
    case True
    then obtain q where q: "rg_pages rg ! ?i = Some q" by blast
    obtain f where f: "paddr s q = Some f" "pte p (sp_dir z) v = of_nat f OR (PG_FLAG_USER OR PG_FLAG_PRESENT)"
      using ent[rule_format, OF zd z(2,3)] True q by (auto simp: Let_def)
    have "sp' = src" using spaces_okD(4)[OF i(2) z(1) d(3)] True by simp
    then have "page_at s sp' v = Some q" using pa inside True q by simp
    note fr = page_frame[OF i(1) f(1)]
    have "pte p (sp_dir z) v AND PG_FLAG_RW = 0"
      unfolding f(2) using entry_flags(2)[OF fr(1,2) low_flags(2), of PG_FLAG_RW]
      by (simp add: PG_FLAG_RW_def PG_FLAG_USER_def PG_FLAG_PRESENT_def mask_eq_exp_minus_1)
    moreover have "table_of (pte p (sp_dir z) v) = f" unfolding f(2) by (rule entry_flags(1)[OF fr(1,2) low_flags(2,2)])
    ultimately show ?thesis using \<open>page_at s sp' v = Some q\<close> f(1) by auto
  next
    case False
    then have e: "pte p (sp_dir z) v = pte (pgt s) (sp_dir z) v" using ent[rule_format, OF zd z(2,3)] unfolding Let_def by (simp only: if_False)
    obtain q where q: "page_at s sp' v = Some q" "paddr s q = Some (table_of (pte p (sp_dir z) v))" "pte p (sp_dir z) v AND PG_FLAG_RW \<noteq> 0 \<longrightarrow> uses s q = 1"
      using i(5) z(1,2,3) unfolding ptes_ok_def e by blast
    have "count_list (rg_pages rg) (Some q) = 0" if u: "uses s q = 1"
    proof (rule ccontr)
      assume "count_list (rg_pages rg) (Some q) \<noteq> 0"
      then obtain j where j: "j < length (rg_pages rg)" "rg_pages rg ! j = Some q" by (metis count_list_0_iff in_set_conv_nth)
      obtain kp where kp: "map_at s sp' v = Some kp" "region_page s (mp_region kp) (page_idx (bstart (mp_block kp)) v) = Some q"
        using q(1) by (auto simp: page_at_def split: bind_splits)
      have "region_page s (mp_region mp) j = Some q" using j rg by (simp add: region_page_def)
      from uses_one[OF i(4) u kp(2) this] have ri: "mp_region kp = mp_region mp" by blast
      obtain x' b' m' where b': "vspaces s sp' = Some x'" "b' \<in> set (used_list (sp_area x'))" "unat v \<in> blk b'" "maps_block s sp' b' m' kp"
        using kp(1) map_at_iff[OF i(2)] by blast
      have "m' = m" using maps_okD(5)[OF i(3) d(9) _ _ w, of m' kp] b'(4) ri by (simp add: maps_block_def)
      then have kk: "kp = mp" "sp' = src" using b'(4) d(9,10) by (simp_all add: maps_block_def)
      then have "unat v \<in> blk b" using b'(3,4) d(11,12) by (simp add: blk_def fin_def maps_block_def)
      then have "sp_dir z = sp_dir x" "page_no (bstart b) \<le> page_no v" "?i < length (rg_pages rg)" "rg_pages rg ! ?i = Some q"
        using inside kk z(1) d(3) pa q(1) by simp_all
      then show False using False by simp
    qed
    then show ?thesis using q us by auto
  qed
qed

lemma clone_cow:
  assumes c: "copying s src dest x y b m mp block area" and w: "mp_flags mp AND PROT_WRITE = PROT_WRITE"
  shows "\<exists>s'. vm_clone m src dest s = Some (0, s') \<and> cloned s s' src dest (blk b)"
proof -
  note d = copyingD[OF c]
  note i = vm_invD[OF d(1)]
  let ?n = "next_obj s" and ?r = "mp_region mp"
  note ar = copying_area(1-3)[OF c, where n = ?n] copying_area(4,5)[OF c] copying_area(6)[OF c, where n = ?n]
  obtain rg where rg: "vregions s ?r = Some rg" "rg_size rg = bsize (mp_block mp)" using maps_okD(4)[OF i(3) d(9)] by blast
  let ?C = "\<lambda>p. count_list (rg_pages rg) (Some p)"
  define np where "np = \<lparr>mp_block = block, mp_space = dest, mp_flags = mp_flags mp, mp_region = ?n + 2, mp_offset = mp_offset mp\<rparr>"
  define A where "A = set_dataptr block ?n area"
  define g where "g = (\<lambda>r. if r = ?r then ?n + 1 else r)"
  obtain s' p where res: "vm_clone m src dest s = Some (0, s')" and po0: "pages_ok (\<lambda>p. uses s p + ?C p) s'"
    and f: "vspaces s' = (vspaces s)(dest \<mapsto> y\<lparr>sp_area := A\<rparr>)" "vmaps s' = (vmaps s)(m \<mapsto> mp\<lparr>mp_region := ?n + 1\<rparr>, ?n \<mapsto> np)"
    "vregions s' = (vregions s)(?n + 1 \<mapsto> rg\<lparr>rg_refs := 1\<rparr>, ?n + 2 \<mapsto> rg\<lparr>rg_refs := 1\<rparr>, ?r := None)"
    "pmem s' = pmem s" "next_obj s' = ?n + 3" "cr3 s' = cr3 s" "cpu_space s' = cpu_space s" "kmem_area s' = kmem_area s"
    "kernel_dir (pgt s') = kernel_dir (pgt s)" "pte (pgt s') = pte p"
    and pd: "\<forall>q. 0 < uses s q \<longrightarrow> paddr s' q = paddr s q"
    and ent: "\<forall>c w. c \<in> dirs s \<longrightarrow> user_addr w \<longrightarrow> pg_present (pte p c w) \<longrightarrow>
       (let i = page_no w - page_no (bstart b) in
        if c = sp_dir x \<and> page_no (bstart b) \<le> page_no w \<and> i < length (rg_pages rg) \<and> rg_pages rg ! i \<noteq> None
        then \<exists>f. paddr s (the (rg_pages rg ! i)) = Some f \<and> pte p c w = of_nat f OR (PG_FLAG_USER OR PG_FLAG_PRESENT)
        else pte p c w = pte (pgt s) c w)"
    using cow_parts[OF c w rg(1)] unfolding np_def A_def by blast
  have new: "vregions s (?n + 1) = None" "vregions s (?n + 2) = None" "vmaps s ?n = None" "?r \<noteq> ?n + 1" "?r \<noteq> ?n + 2" "m \<noteq> ?n"
    using fresh_None(1)[OF i(4), of "?n + 1"] fresh_None(1)[OF i(4), of "?n + 2"] fresh_None(2)[OF i(3), of ?n]
      regions_okD(1)[OF i(4) rg(1)] maps_okD(1)[OF i(3) d(9)] by auto
  have dom: "mp_region kp < ?n" if "vmaps s k = Some kp" for k kp using maps_okD(4)[OF i(3) that] regions_okD(1)[OF i(4)] by blast
  have only: "k = m \<and> kp = mp" if "vmaps s k = Some kp" "mp_region kp = ?r" for k kp
    using maps_okD(5)[OF i(3) d(9) that(1) _ w] that d(9) by simp
  have us: "uses s' q = uses s q + ?C q" for q
  proof (rule uses_split[where r = ?r and ?r1.0 = "?n + 1" and ?r2.0 = "?n + 2" and a = 1 and b = 1])
    show "finite (dom (vregions s))" using i(4) by (simp add: regions_ok_def)
  qed (use new rg f(3) in auto)
  have "uses s' = (\<lambda>p. uses s p + ?C p)" using us by (rule ext)
  then have po: "pages_ok (uses s') s'" using po0 by (simp only:)
  have vm: "vmaps s' k = map_option (\<lambda>mp. mp\<lparr>mp_region := g (mp_region mp)\<rparr>) (vmaps s k)" if "k \<noteq> ?n" for k
  proof (cases "vmaps s k")
    case (Some kp)
    then show ?thesis using only[OF Some] d(9) that by (cases "k = m") (auto simp: f(2) g_def)
  qed (use that d(9) in \<open>auto simp: f\<close>)
  have R: "\<exists>y'. vregions s' (g r) = Some y' \<and> rg_pages y' = rg_pages z \<and> rg_ops y' = rg_ops z \<and> rg_size y' = rg_size z"
    if "vregions s r = Some z" for r z
    using that rg(1) new(1,2,4,5) by (cases "r = ?r") (auto simp: f g_def)
  have gi: "inj_on g (dom (vregions s))" using new(1) by (auto simp: g_def inj_on_def)
  have rn: "\<exists>z. vregions s' (mp_region np) = Some z \<and> rg_size z = bsize (mp_block np)" using rg(2) ar(4) d(12) new(5) by (simp add: f np_def)
  have W: "mp_flags mp' AND PROT_WRITE \<noteq> PROT_WRITE \<and> mp_flags np AND PROT_WRITE \<noteq> PROT_WRITE"
    if "vmaps s k = Some mp'" "g (mp_region mp') = mp_region np" for k mp'
  proof -
    have "g (mp_region mp') < ?n + 2" using dom[OF that(1)] by (simp add: g_def)
    then show ?thesis using that(2) by (simp add: np_def)
  qed
  have sh: "sharers s' r = (if r = ?n + 1 then {m} else if r = ?n + 2 then {?n} else if r = ?r then {} else sharers s r)" for r
  proof -
    have new_k: "k \<in> sharers s' r \<longleftrightarrow> (k = m \<and> r = ?n + 1) \<or> (k = ?n \<and> r = ?n + 2) \<or> (k \<noteq> m \<and> k \<noteq> ?n \<and> k \<in> sharers s r)" for k
      using new(6) by (auto simp: sharers_def f(2) np_def)
    have old_k: "r < ?n \<and> k \<noteq> ?n \<and> (k = m \<longleftrightarrow> r = ?r)" if "k \<in> sharers s r" for k
    proof -
      obtain kp where kp: "vmaps s k = Some kp" "mp_region kp = r" using \<open>k \<in> sharers s r\<close> by (auto simp: sharers_def)
      have "k = m" if "r = ?r" using only[OF kp(1)] kp(2) that by simp
      moreover have "r = ?r" if "k = m" using that kp d(9) by simp
      ultimately show ?thesis using dom[OF kp(1)] kp new(3) by auto
    qed
    have rn: "?r < ?n" using dom[OF d(9)] .
    consider "r = ?n + 1" | "r = ?n + 2" | "r = ?r" | "r \<noteq> ?n + 1 \<and> r \<noteq> ?n + 2 \<and> r \<noteq> ?r" by blast
    then show ?thesis
    proof cases
      case 4
      have "sharers s' r = sharers s r" unfolding set_eq_iff new_k using 4 old_k by blast
      then show ?thesis using 4 by simp
    next
      case 3
      have "r \<noteq> ?n + 1" "r \<noteq> ?n + 2" using 3 rn by simp_all
      then have "sharers s' r = {}" unfolding set_eq_iff new_k using 3 old_k by blast
      then show ?thesis using 3 rn by simp
    next
      case 1
      have "r \<noteq> ?n + 2" "\<not> r < ?n" using 1 by simp_all
      then have "sharers s' r = {m}" unfolding set_eq_iff new_k using 1 old_k by blast
      then show ?thesis using 1 by simp
    next
      case 2
      have "r \<noteq> ?n + 1" "\<not> r < ?n" using 2 by simp_all
      then have "sharers s' r = {?n}" unfolding set_eq_iff new_k using 2 old_k by blast
      then show ?thesis using 2 by simp
    qed
  qed
  have ro: "regions_ok s'" unfolding regions_ok_def
  proof (intro conjI allI impI)
    show "finite (dom (vregions s'))" using i(4) by (simp add: regions_ok_def f)
    fix r z assume z: "vregions s' r = Some z"
    have rr: "r \<noteq> ?r" using z unfolding f(3) by auto
    have z': "(if r = ?n + 2 then Some (rg\<lparr>rg_refs := 1\<rparr>) else if r = ?n + 1 then Some (rg\<lparr>rg_refs := 1\<rparr>) else vregions s r) = Some z"
      using z rr unfolding f(3) by (simp only: fun_upd_apply if_False)
    have "r = ?n + 1 \<and> z = rg\<lparr>rg_refs := 1\<rparr> \<or> r = ?n + 2 \<and> z = rg\<lparr>rg_refs := 1\<rparr> \<or> r \<noteq> ?n + 1 \<and> r \<noteq> ?n + 2 \<and> vregions s r = Some z"
    proof (cases "r = ?n + 1 \<or> r = ?n + 2")
      case True
      then have "Some (rg\<lparr>rg_refs := 1\<rparr>) = Some z" using z' by (cases "r = ?n + 2") simp_all
      then show ?thesis using True by blast
    next
      case False
      then show ?thesis using z' by simp
    qed
    then consider "r = ?n + 1" "z = rg\<lparr>rg_refs := 1\<rparr>" | "r = ?n + 2" "z = rg\<lparr>rg_refs := 1\<rparr>" | "r \<noteq> ?n + 1" "r \<noteq> ?n + 2" "vregions s r = Some z"
      by blast
    then have "r < next_obj s' \<and> rg_refs z = int (card (sharers s' r)) \<and> sharers s' r \<noteq> {} \<and> length (rg_pages z) = unat (rg_size z) div PAGE_SIZE"
    proof cases
      case 3
      then show ?thesis using rr regions_okD[OF i(4) 3(3)] by (simp add: sh f(5))
    qed (use regions_okD(4)[OF i(4) rg(1)] in \<open>simp_all add: sh f(5)\<close>)
    then show "r < next_obj s'" "rg_refs z = int (card (sharers s' r))" "sharers s' r \<noteq> {}" "length (rg_pages z) = unat (rg_size z) div PAGE_SIZE"
      by blast+
  qed
  have pt: "\<exists>p. page_at s sp' v = Some p \<and> paddr s p = Some (table_of (pte (pgt s') (sp_dir z) v)) \<and>
      (pte (pgt s') (sp_dir z) v AND PG_FLAG_RW \<noteq> 0 \<longrightarrow> uses s' p = 1)"
    if z: "vspaces s sp' = Some z" "user_addr v" "pg_present (pte (pgt s') (sp_dir z) v)" for sp' z v
    unfolding f(10) using us by (rule cow_entry[OF c w rg(1) ent z(1,2) z(3)[unfolded f(10)]])
  have fm: "finite (dom (vmaps s'))" using i(3) by (simp add: f maps_ok_def)
  have fl: "mp_flags np AND MAP_SHARED = 0" using maps_okD(2)[OF i(3) d(9)] by (simp add: np_def)
  have mb: "maps_block s' dest (block\<lparr>dataptr := Some ?n\<rparr>) ?n np" using new(6) by (simp add: maps_block_def f np_def)
  have nn2: "?n \<le> ?n" "?n < next_obj s'" by (simp_all add: f)
  have pd': "paddr s' q = paddr s q" if "0 < uses s q" for q using pd that by blast
  have k: "vm_inv s'" "\<And>c v. map_at s' c v = (if c = dest \<and> unat v \<in> blk (block\<lparr>dataptr := Some ?n\<rparr>) then Some np
        else map_option (\<lambda>mp. mp\<lparr>mp_region := g (mp_region mp)\<rparr>) (map_at s c v))"
      "\<And>c v. \<not> (c = dest \<and> unat v \<in> blk (block\<lparr>dataptr := Some ?n\<rparr>)) \<Longrightarrow> view s' c v = view s c v"
    by (rule add_mapping_ok[OF d(1,4) ar(1-3)[folded A_def] mb nn2 f(1) vm fl fm R gi rn W ro po pd' f(4) pt f(7,6,9,8)]; assumption?)+
  have "cloned s s' src dest (blk b)"
    by (rule cloned_intro[OF c, where np = np and g = g and rg = rg and rg' = "rg\<lparr>rg_refs := 1\<rparr>" and A = A])
      (use k new(5) in \<open>simp_all add: np_def rg f pd ar(6)\<close>)
  then show ?thesis using res by blast
qed

lemma vm_clone_ok:
  assumes inv: "vm_inv s" and ne: "src \<noteq> dest" and x: "vspaces s src = Some x" and y: "vspaces s dest = Some y"
    and b: "b \<in> set (used_list (sp_area x))" "maps_block s src b m mp"
  shows "vm_clone m src dest s = Some (- errno_code ENOMEM, s) \<or> (\<exists>s'. vm_clone m src dest s = Some (0, s') \<and> cloned s s' src dest (blk b))"
proof (cases "fst (sma_alloc (sp_area y) (bstart (mp_block mp)) (bsize (mp_block mp)) SMA_ALLOC_FIXED)")
  case None
  then have "sma_alloc (sp_area y) (bstart (mp_block mp)) (bsize (mp_block mp)) SMA_ALLOC_FIXED = (None, sp_area y)"
    by (metis prod.collapse sma_alloc_None)
  moreover have "vmaps s m = Some mp" using b(2) by (simp add: maps_block_def)
  ultimately show ?thesis using y same_area[OF y] by (simp add: vm_clone_def Let_def)
next
  case (Some block)
  then obtain area where "sma_alloc (sp_area y) (bstart (mp_block mp)) (bsize (mp_block mp)) SMA_ALLOC_FIXED = (Some block, area)"
    by (metis prod.collapse)
  then have c: "copying s src dest x y b m mp block area" using assms unfolding copying_def by blast
  show ?thesis
  proof (cases "mp_flags mp AND PROT_WRITE = PROT_WRITE")
    case True
    show ?thesis by (rule disjI2) (rule clone_cow[OF c True])
  next
    case False
    show ?thesis by (rule disjI2) (rule clone_shared[OF c False])
  qed
qed

section \<open>Cloning an address space\<close>

lemma cloned_self: "vm_inv s \<Longrightarrow> cloned s s src dest {}"
  by (simp add: cloned_def)

lemma cloned_trans:
  assumes ne: "src \<noteq> dest" and st: "cloned s t src dest B" and tu: "cloned t u src dest C"
  shows "cloned s u src dest (B \<union> C)"
proof -
  have v: "view u c v = (if c = dest \<and> unat v \<in> B \<union> C then view s src v else view s c v)" for c v
    using st tu ne by (auto simp: cloned_def)
  have p: "prot u c v = (if c = dest \<and> unat v \<in> B \<union> C then prot s src v else prot s c v)" for c v
    using st tu ne by (auto simp: cloned_def)
  show ?thesis unfolding cloned_def using v p st tu by (simp add: cloned_def)
qed

lemma clone_blocks_ok:
  assumes "vm_inv s" "src \<noteq> dest" "vspaces s src = Some x" "vspaces s dest \<noteq> None" "set bs \<subseteq> set (used_list (sp_area x))"
  shows "\<exists>err s' B. clone_blocks bs src dest s = Some (err, s') \<and> cloned s s' src dest B \<and>
    (err = 0 \<and> B = (\<Union>b \<in> set bs. blk b) \<or> err = - errno_code ENOMEM)"
  using assms
proof (induction bs arbitrary: s)
  case Nil
  then show ?case using cloned_self by auto
next
  case (Cons b bs)
  note i = vm_invD[OF Cons.prems(1)]
  obtain y where y: "vspaces s dest = Some y" using Cons.prems(4) by blast
  obtain m mp where m: "maps_block s src b m mp" using spaces_okD(3)[OF i(2) Cons.prems(3), of b] Cons.prems(5) by auto
  then have dp: "dataptr b = Some m" by (simp add: maps_block_def)
  have b: "b \<in> set (used_list (sp_area x))" using Cons.prems(5) by simp
  from vm_clone_ok[OF Cons.prems(1-3) y b m] show ?case
  proof (elim disjE exE conjE)
    assume "vm_clone m src dest s = Some (- errno_code ENOMEM, s)"
    then show ?thesis using dp cloned_self[OF Cons.prems(1)] errno_code_pos[of ENOMEM] by (intro exI[of _ "- errno_code ENOMEM"]) auto
  next
    fix t assume t: "vm_clone m src dest s = Some (0, t)" "cloned s t src dest (blk b)"
    have "vm_inv t" "vspaces t src = Some x" "vspaces t dest \<noteq> None" using t(2) Cons.prems(2,3,4) by (simp_all add: cloned_def)
    then obtain err s' B where k: "clone_blocks bs src dest t = Some (err, s')" "cloned t s' src dest B"
      "err = 0 \<and> B = (\<Union>b \<in> set bs. blk b) \<or> err = - errno_code ENOMEM"
      using Cons.IH[of t] Cons.prems(2,5) by auto
    then show ?thesis using dp t(1) cloned_trans[OF Cons.prems(2) t(2) k(2)] by auto
  qed
qed

text \<open>A space with no mappings becomes a copy of the source.\<close>

lemma vm_space_clone_ok:
  assumes inv: "vm_inv s" and ne: "src \<noteq> dest" and x: "vspaces s src = Some x" and y: "vspaces s dest \<noteq> None"
    and e: "\<And>v. map_at s dest v = None"
  shows "\<exists>err s'. vm_space_clone dest src s = Some (err, s') \<and> vm_inv s' \<and> (err = 0 \<or> err = - errno_code ENOMEM) \<and>
    (\<forall>c v. c \<noteq> dest \<longrightarrow> view s' c v = view s c v \<and> prot s' c v = prot s c v) \<and>
    (err = 0 \<longrightarrow> (\<forall>v. view s' dest v = view s src v \<and> prot s' dest v = prot s src v)) \<and> dom (vspaces s') = dom (vspaces s) \<and> cpu_space s' = cpu_space s"
proof -
  note i = vm_invD[OF inv]
  obtain err s' B where k: "clone_blocks (used_list (sp_area x)) src dest s = Some (err, s')" "cloned s s' src dest B"
    "err = 0 \<and> B = (\<Union>b \<in> set (used_list (sp_area x)). blk b) \<or> err = - errno_code ENOMEM"
    using clone_blocks_ok[OF inv ne x y] by blast
  have no: "map_at s src v = None" if "unat v \<notin> (\<Union>b \<in> set (used_list (sp_area x)). blk b)" for v
    using that map_at_iff[OF i(2), of src v] x by (cases "map_at s src v") auto
  have em: "view s dest v = None \<and> prot s dest v = None" for v by (simp add: view_def prot_def e)
  have "view s' dest v = view s src v \<and> prot s' dest v = prot s src v" if "err = 0" for v
  proof (cases "unat v \<in> B")
    case True
    then show ?thesis using k(2) by (simp add: cloned_def)
  next
    case False
    have "B = (\<Union>b \<in> set (used_list (sp_area x)). blk b)" using k(3) that errno_code_pos[of ENOMEM] by auto
    then have "map_at s src v = None" using no False by simp
    then show ?thesis using k(2) False em by (simp add: cloned_def view_def prot_def)
  qed
  moreover have "dom (vspaces s') = dom (vspaces s)"
  proof -
    have "(vspaces s' c = None) = (vspaces s c = None)" for c using k(2) by (cases "c = dest") (simp_all add: cloned_def)
    then show ?thesis by (auto simp: dom_def)
  qed
  moreover have "vm_space_clone dest src s = Some (err, s')" using k(1) x by (simp add: vm_space_clone_def)
  ultimately show ?thesis using k(2,3) by (auto simp: cloned_def)
qed

end
