(* ===== verification/VmProps.thy ===== *)
theory VmProps
  imports VmClone
begin

text \<open>
  Virtual memory as its users see it: each address space is a map of its own from addresses to protections and
  bytes, a clone is a copy of the map, and a store changes one byte of the current map. The operations of the
  kernel, with shared pages, copy on write and page faults, are a refinement of that.
\<close>

section \<open>New address spaces\<close>

lemma vm_inv_next:
  assumes inv: "vm_inv s"
  shows "vm_inv (s\<lparr>next_obj := Suc (next_obj s)\<rparr>)"
proof -
  note i = vm_invD[OF inv]
  let ?t = "s\<lparr>next_obj := Suc (next_obj s)\<rparr>"
  have d: "dirs ?t = dirs s" by (rule dirs_cong) simp
  have u: "uses ?t = uses s" by (rule uses_cong) simp
  have "pages_ok (uses ?t) ?t" unfolding u by (rule pages_ok_dirs[OF i(1)]) (simp_all add: d)
  moreover have "spaces_ok ?t" by (rule spaces_ok_cong[OF i(2)]) simp_all
  moreover have "maps_ok ?t" by (rule maps_ok_cong[OF i(3)]) simp_all
  moreover have "regions_ok ?t" using i(4) unfolding regions_ok_def sharers_def by (simp add: less_SucI)
  moreover have "ptes_ok ?t"
  proof -
    have "map_at ?t = map_at s" by (rule map_at_cong) simp_all
    moreover have "region_page ?t = region_page s" by (intro ext) (simp add: region_page_def)
    ultimately have "page_at ?t = page_at s" by (intro ext) (simp add: page_at_def)
    moreover have "paddr ?t = paddr s" by (rule paddr_cong) simp
    ultimately show ?thesis using i(5) by (simp add: ptes_ok_def u)
  qed
  moreover have "cpu_ok ?t" using i(6) by (simp add: cpu_ok_def split: option.splits)
  ultimately show ?thesis using i(7) by (simp add: vm_inv_def)
qed

lemma view_cong:
  assumes "map_at s' = map_at s" "vregions s' = vregions s" "vpages s' = vpages s" "pmem s' = pmem s"
  shows "view s' = view s" "prot s' = prot s" "page_at s' = page_at s"
proof -
  have rp: "region_page s' = region_page s" by (intro ext) (simp add: region_page_def assms(2))
  have pd: "paddr s' = paddr s" by (rule paddr_cong) (rule assms)
  show "view s' = view s" "prot s' = prot s" "page_at s' = page_at s"
    by (intro ext; unfold view_def prot_def page_at_def assms rp pd; rule refl)+
qed

lemma user_area: "area_ok (sma_area_create USERMEM_START USERMEM_SIZE)" "used_list (sma_area_create USERMEM_START USERMEM_SIZE) = []"
proof -
  have w: "sma_wf (sma_area_create USERMEM_START USERMEM_SIZE)"
    by (rule sma_area_create_wf) (simp_all add: USERMEM_START_def USERMEM_SIZE_def LOWMEM_START_def)
  have d: "PAGE dvd 0x400000" "PAGE dvd 0xBFC00000"
    by (rule dvdI[of _ _ "0x400"], simp) (rule dvdI[of _ _ "0xBFC00"], simp)
  have "ROUND_DOWN USERMEM_START 0x1000 = 0x400000" "ROUND_UP USERMEM_SIZE 0x1000 = 0xBFC00000"
    by (simp_all add: USERMEM_START_def USERMEM_SIZE_def LOWMEM_START_def ROUND_DOWN_def ROUND_UP_def)
  then show "area_ok (sma_area_create USERMEM_START USERMEM_SIZE)" using w d
    by (simp add: area_ok_def sma_area_create_def Let_def) (simp add: USERMEM_START_def USERMEM_SIZE_def LOWMEM_START_def)
qed (simp add: sma_area_create_def Let_def)

lemma map_at_new_space:
  assumes "vspaces s' = (vspaces s)(sp \<mapsto> x)" "vmaps s' = vmaps s" "used_list (sp_area x) = []"
  shows "map_at s' c v = (if c = sp then None else map_at s c v)"
  using assms by (simp add: map_at_def block_at_def)

text \<open>Creating a space either finds no frame for its directory and changes nothing, or adds a space that sees nothing.\<close>

lemma vm_space_create_ok:
  assumes inv: "vm_inv s" and r: "vm_space_create s = (res, s')"
  shows "vm_inv s' \<and> cpu_space s' = cpu_space s \<and> (res = None \<longrightarrow> vspaces s' = vspaces s \<and> (\<forall>c v. view s' c v = view s c v \<and> prot s' c v = prot s c v)) \<and>
    (\<forall>sp. res = Some sp \<longrightarrow> vspaces s sp = None \<and> dom (vspaces s') = insert sp (dom (vspaces s)) \<and>
      (\<forall>c v. view s' c v = (if c = sp then None else view s c v) \<and> prot s' c v = (if c = sp then None else prot s c v)))"
proof -
  note i = vm_invD[OF inv]
  note po = pages_okD(1)[OF i(1)]
  let ?a = "sma_area_create USERMEM_START USERMEM_SIZE" and ?sp = "next_obj s"
  obtain d p where c: "paging_create_aspace (pgt s) = (d, p)" by force
  show ?thesis
  proof (cases d)
    case None
    then have "fst (pt_alloc (pgt s)) = 0 \<and> p = snd (pt_alloc (pgt s))"
      using c by (auto simp: paging_create_aspace_def split: prod.splits if_splits)
    then have "p = pgt s" using pt_alloc_fresh(4)[OF po, of 0 p] by (metis prod.collapse)
    then have e: "s' = s\<lparr>next_obj := Suc (next_obj s)\<rparr>" "res = None"
      using r None c by (simp_all add: vm_space_create_def fresh_obj_def Let_def)
    have "map_at s' = map_at s" by (rule map_at_cong) (simp_all add: e)
    then have "view s' = view s" "prot s' = prot s" by (rule view_cong; simp add: e)+
    then show ?thesis using vm_inv_next[OF inv] by (simp add: e)
  next
    case (Some dd)
    note k = paging_create_ok[OF po c[unfolded Some]]
    define x where "x = \<lparr>sp_dir = dd, sp_area = ?a, sp_refs = 1\<rparr>"
    have f: "res = Some ?sp" "vspaces s' = (vspaces s)(?sp \<mapsto> x)" "pgt s' = p" "next_obj s' = Suc ?sp" "vpages s' = vpages s"
      "vregions s' = vregions s" "vmaps s' = vmaps s" "pmem s' = pmem s" "cr3 s' = cr3 s" "cpu_space s' = cpu_space s" "kmem_area s' = kmem_area s"
      using r Some c by (auto simp: vm_space_create_def fresh_obj_def Let_def x_def)
    have new: "vspaces s ?sp = None" by (rule fresh_None(3)[OF i(2)]) simp
    have ma: "map_at s' c v = (if c = ?sp then None else map_at s c v)" for c v
      by (rule map_at_new_space[OF f(2,7)]) (simp add: x_def user_area)
    have no: "map_at s ?sp v = None" for v using new by (simp add: map_at_def block_at_def)
    have ma': "map_at s' = map_at s" by (intro ext) (simp add: ma no)
    note same = view_cong[OF ma' f(6,5,8)]
    note pa = same(3)
    have pd: "paddr s' = paddr s" by (rule paddr_cong) (rule f)
    have us: "uses s' = uses s" by (rule uses_cong) (rule f)
    have vw: "view s' c v = (if c = ?sp then None else view s c v)" "prot s' c v = (if c = ?sp then None else prot s c v)" for c v
      unfolding same(1,2) by (simp_all add: view_def prot_def no)
    have ds: "dirs s' = insert dd (dirs s)"
    proof -
      have "(\<exists>sp y. vspaces s' sp = Some y \<and> sp_dir y = e) \<longleftrightarrow> e = dd \<or> (\<exists>sp y. vspaces s sp = Some y \<and> sp_dir y = e)" for e
        using new unfolding f(2) by (auto simp: x_def) (metis option.distinct(1))
      then show ?thesis by (auto simp: dirs_def)
    qed
    have "pages_ok (uses s') s'" unfolding us
    proof (rule pages_okI; (unfold ds f)?)
      show "pt_ok (insert dd (dirs s)) p" by (rule k)
      show "frame_addr_used (pframes p) 0" using k(7) pages_okD(2)[OF i(1)] by blast
      fix q y assume q: "vpages s q = Some y"
      note o = pages_okD(4-8,10)[OF i(1) q]
      show "0 < uses s q \<and> pg_refs y = int (uses s q) \<and> pg_address y \<noteq> 0 \<and> q < Suc ?sp" using o by simp
      have "pg_address y \<noteq> dd" using k(3) o(4) by blast
      then show "pf_used p (pg_address y) \<and> pg_address y \<notin> pt_frames (insert dd (dirs s)) p" using k(6,7) o(4,5) by simp
    qed (use pages_okD(3,9)[OF i(1)] in auto)
    moreover have "spaces_ok s'" unfolding spaces_ok_def
    proof (intro conjI allI impI ballI)
      fix c y assume y: "vspaces s' c = Some y"
      have "c = ?sp \<and> y = x \<or> vspaces s c = Some y" using y by (simp add: f split: if_splits)
      then show "c < next_obj s'" "area_ok (sp_area y)" using spaces_okD(1,2)[OF i(2)] user_area(1) by (auto simp: f x_def less_SucI)
      fix b assume b: "b \<in> set (used_list (sp_area y))"
      then have "vspaces s c = Some y" using \<open>c = ?sp \<and> y = x \<or> vspaces s c = Some y\<close> user_area(2) by (auto simp: x_def)
      then show "\<exists>m mp. maps_block s' c b m mp" using spaces_okD(3)[OF i(2) _ b] by (simp add: maps_block_def f)
    next
      fix c y c' y' assume h: "vspaces s' c = Some y \<and> vspaces s' c' = Some y' \<and> sp_dir y = sp_dir y'"
      have o: "sp_dir z \<noteq> dd" if "vspaces s e = Some z" for e z using k(1) that by (auto simp: dirs_def)
      show "c = c'"
      proof (cases "c = ?sp \<or> c' = ?sp")
        case True
        then show ?thesis using h o[of c y] o[of c' y'] by (auto simp: f x_def split: if_splits)
      next
        case False
        then show ?thesis using h spaces_okD(4)[OF i(2), of c y c' y'] by (simp add: f)
      qed
    qed
    moreover have "maps_ok s'" unfolding maps_ok_def
    proof (intro conjI allI impI)
      show "finite (dom (vmaps s'))" using i(3) by (simp add: maps_ok_def f)
      fix m mp assume m: "vmaps s' m = Some mp"
      then have m: "vmaps s m = Some mp" by (simp add: f)
      show "m < next_obj s'" "mp_flags mp AND MAP_SHARED = 0" "\<exists>rg. vregions s' (mp_region mp) = Some rg \<and> rg_size rg = bsize (mp_block mp)"
        using maps_okD(1,2,4)[OF i(3) m] by (auto simp: f)
      obtain y b where y: "vspaces s (mp_space mp) = Some y" "b \<in> set (used_list (sp_area y))" "maps_block s (mp_space mp) b m mp"
        using maps_okD(3)[OF i(3) m] by blast
      then have "vspaces s' (mp_space mp) = Some y" using new by (auto simp: f)
      then show "\<exists>x. vspaces s' (mp_space mp) = Some x \<and> (\<exists>b\<in>set (used_list (sp_area x)). maps_block s' (mp_space mp) b m mp)"
        using y by (auto simp: maps_block_def f)
    next
      fix m mp n np assume "vmaps s' m = Some mp \<and> vmaps s' n = Some np \<and> mp_region mp = mp_region np \<and> mp_flags mp AND PROT_WRITE = PROT_WRITE"
      then show "m = n" using maps_okD(5)[OF i(3), of m mp n np] by (simp add: f)
    qed
    moreover have "regions_ok s'" using i(4) unfolding regions_ok_def sharers_def f by (simp add: less_SucI)
    moreover have "ptes_ok s'" unfolding ptes_ok_def
    proof (intro allI impI)
      fix c y v assume h: "vspaces s' c = Some y \<and> user_addr v \<and> pg_present (pte (pgt s') (sp_dir y) v)"
      have yd: "sp_dir y \<in> dirs s'" using h unfolding dirs_def by blast
      then have e: "pte (pgt s') (sp_dir y) v = (if sp_dir y = dd then 0 else pte (pgt s) (sp_dir y) v)"
        using k(8)[of "sp_dir y" v] h by (simp add: ds f)
      then have nd: "sp_dir y \<noteq> dd" using h by (auto simp: PG_FLAG_PRESENT_def)
      then have "vspaces s c = Some y" using h by (auto simp: f x_def split: if_splits)
      then show "\<exists>p. page_at s' c v = Some p \<and> paddr s' p = Some (table_of (pte (pgt s') (sp_dir y) v)) \<and>
          (pte (pgt s') (sp_dir y) v AND PG_FLAG_RW \<noteq> 0 \<longrightarrow> uses s' p = 1)"
        using i(5) h nd unfolding ptes_ok_def pa pd us e if_not_P[OF nd] by blast
    qed
    moreover have "cpu_ok s'"
    proof (cases "cpu_space s")
      case (Some c)
      then obtain y where "vspaces s c = Some y" "cr3 s = sp_dir y" using i(6) by (auto simp: cpu_ok_def)
      then show ?thesis using Some new by (auto simp: cpu_ok_def f)
    qed (use i(6) k(4) in \<open>simp add: cpu_ok_def f\<close>)
    ultimately have "vm_inv s'" using i(7) by (simp add: vm_inv_def f)
    moreover have "dom (vspaces s') = insert ?sp (dom (vspaces s))" by (auto simp: f)
    ultimately show ?thesis using vw new by (simp add: f)
  qed
qed

lemma vm_space_switch_ok:
  assumes inv: "vm_inv s" and x: "vspaces s sp = Some x"
  shows "\<exists>s'. vm_space_switch (Some sp) s = Some s' \<and> vm_inv s' \<and> cpu_space s' = Some sp \<and> vspaces s' = vspaces s \<and>
    view s' = view s \<and> prot s' = prot s"
proof -
  note i = vm_invD[OF inv]
  define s' where "s' = s\<lparr>cpu_space := Some sp, cr3 := sp_dir x\<rparr>"
  have ma: "map_at s' = map_at s" by (rule map_at_cong) (simp_all add: s'_def)
  have vw: "view s' = view s" "prot s' = prot s" "page_at s' = page_at s" by (rule view_cong[OF ma]; simp add: s'_def)+
  have us: "uses s' = uses s" by (rule uses_cong) (simp add: s'_def)
  have pd: "paddr s' = paddr s" by (rule paddr_cong) (simp add: s'_def)
  have ds: "dirs s' = dirs s" by (rule dirs_cong) (simp add: s'_def)
  have "pages_ok (uses s') s'" unfolding us by (rule pages_ok_dirs[OF i(1)]) (simp_all add: ds, simp_all add: s'_def)
  moreover have "spaces_ok s'" by (rule spaces_ok_cong[OF i(2)]) (simp_all add: s'_def)
  moreover have "maps_ok s'" by (rule maps_ok_cong[OF i(3)]) (simp_all add: s'_def)
  moreover have "regions_ok s'" using i(4) unfolding regions_ok_def sharers_def by (simp add: s'_def)
  moreover have "ptes_ok s'" using i(5) unfolding ptes_ok_def vw us pd by (simp add: s'_def)
  moreover have "cpu_ok s'" using x by (simp add: cpu_ok_def s'_def)
  ultimately have "vm_inv s'" using i(7) by (simp add: vm_inv_def s'_def)
  then show ?thesis using x vw by (simp add: vm_space_switch_def s'_def)
qed

section \<open>The abstract machine\<close>

text \<open>What an address holds: its protection and its byte, if it can be loaded (a page of a file that has not been
  read has none yet).\<close>

type_synonym image = "u32 \<Rightarrow> (u16 \<times> u8 option) option"
type_synonym amachine = "(nat \<Rightarrow> image option) \<times> nat option"

datatype vm_call = V_create | V_switch nat | V_mmap u32 u32 u16 int int vproc nat | V_clone nat nat | V_load u32 | V_store u32 u8
datatype vm_answer = New_space "nat option" | Finished | Mapped int "u32 option" | Status int | Loaded u8

definition writable :: "u16 \<Rightarrow> bool" where
  "writable flags \<longleftrightarrow> flags AND PROT_WRITE = PROT_WRITE"

text \<open>The range of a mapping gets its protection and zeros, or bytes that are still to be read.\<close>

definition map_range :: "u32 \<Rightarrow> u32 \<Rightarrow> u16 \<Rightarrow> image \<Rightarrow> image" where
  "map_range a len flags m v =
     (if unat v \<in> {unat a ..< unat a + unat len} then Some (flags, if flags AND MAP_ANONYMOUS \<noteq> 0 then Some 0 else None) else m v)"

inductive as_step :: "vm_call \<Rightarrow> amachine \<Rightarrow> vm_answer \<Rightarrow> amachine \<Rightarrow> bool" where
  create: "S sp = None \<Longrightarrow> as_step V_create (S, c) (New_space (Some sp)) (S(sp \<mapsto> (\<lambda>_. None)), c)"
| create_fails: "as_step V_create (S, c) (New_space None) (S, c)"
| switch: "S sp \<noteq> None \<Longrightarrow> as_step (V_switch sp) (S, c) Finished (S, Some sp)"
| mmap: "S sp = Some m \<Longrightarrow> start \<noteq> 0 \<and> flags AND MAP_FIXED \<noteq> 0 \<longrightarrow> a = start \<Longrightarrow>
    (\<And>v. unat v \<in> {unat a ..< unat a + unat len} \<Longrightarrow> m v = None) \<Longrightarrow>
    as_step (V_mmap start len flags fd off p sp) (S, c) (Mapped 0 (Some a)) (S(sp \<mapsto> map_range a len flags m), c)"
| mmap_fails: "err \<noteq> 0 \<Longrightarrow> as_step (V_mmap start len flags fd off p sp) (S, c) (Mapped err None) (S, c)"
| clone: "S src = Some m \<Longrightarrow> S dest = Some (\<lambda>_. None) \<Longrightarrow> as_step (V_clone dest src) (S, c) (Status 0) (S(dest \<mapsto> m), c)"
| clone_fails: "as_step (V_clone dest src) (S, c) (Status (- errno_code ENOMEM)) (S(dest \<mapsto> m), c)"
| load: "S sp = Some m \<Longrightarrow> m v = Some (fl, Some b) \<Longrightarrow> as_step (V_load v) (S, Some sp) (Loaded b) (S, Some sp)"
| store: "S sp = Some m \<Longrightarrow> m v = Some (fl, Some b') \<Longrightarrow> writable fl \<Longrightarrow>
    as_step (V_store v b) (S, Some sp) Finished (S(sp \<mapsto> m(v \<mapsto> (fl, Some b))), Some sp)"

inductive_simps as_step_simps: "as_step V_create a r a'" "as_step (V_switch sp) a r a'" "as_step (V_clone d s) a r a'"
  "as_step (V_load v) a r a'" "as_step (V_store v b) a r a'"

section \<open>The machine of the kernel\<close>

fun vm_run :: "vm_call \<Rightarrow> ('f, 'w) vm \<Rightarrow> (vm_answer \<times> ('f, 'w) vm) option" where
  "vm_run V_create s = (let (r, s) = vm_space_create s in Some (New_space r, s))"
| "vm_run (V_switch sp) s = do { s \<leftarrow> vm_space_switch (Some sp) s; Some (Finished, s) }"
| "vm_run (V_mmap start len flags fd off p sp) s = do { (err, a, s) \<leftarrow> vm_mmap start len flags fd off p sp s; Some (Mapped err a, s) }"
| "vm_run (V_clone dest src) s = do { (err, s) \<leftarrow> vm_space_clone dest src s; Some (Status err, s) }"
| "vm_run (V_load v) s = do { (b, s) \<leftarrow> user_load v s; Some (Loaded b, s) }"
| "vm_run (V_store v b) s = do { s \<leftarrow> user_store v b s; Some (Finished, s) }"

text \<open>
  When a call is in order: the spaces exist, a clone goes to a space without mappings (as \<^verbatim>\<open>do_fork\<close> does), a mapping is
  private, at most 2 GB and not next to the end of a free range (the allocator's own limits), its descriptor, if it is
  open, has a file, and a load or store goes to a mapped address whose bytes are there while two frames are left.
\<close>

fun vm_pre :: "vm_call \<Rightarrow> ('f, 'w) vm \<Rightarrow> bool" where
  "vm_pre V_create s = True"
| "vm_pre (V_switch sp) s = (vspaces s sp \<noteq> None)"
| "vm_pre (V_mmap start len flags fd off p sp) s =
     (\<exists>x. vspaces s sp = Some x \<and> flags AND MAP_SHARED = 0 \<and> unat len \<le> 2 ^ 31 \<and>
       regular (sp_area x) start len (if flags AND MAP_FIXED \<noteq> 0 then SMA_ALLOC_FIXED else 0) \<and>
       (\<forall>d. slot_get (p_fds p) fd = Some d \<longrightarrow> files (vmfs s) (fdfile d) \<noteq> None))"
| "vm_pre (V_clone dest src) s = (vspaces s dest \<noteq> None \<and> vspaces s src \<noteq> None \<and> dest \<noteq> src \<and> (\<forall>v. map_at s dest v = None))"
| "vm_pre (V_load v) s = (memory_left s \<and> (\<exists>sp. cpu_space s = Some sp \<and> accessible s sp v False))"
| "vm_pre (V_store v b) s = (memory_left s \<and> (\<exists>sp. cpu_space s = Some sp \<and> accessible s sp v True))"

definition image_of :: "('f, 'w) vm \<Rightarrow> nat \<Rightarrow> image" where
  "image_of s sp v = map_option (\<lambda>fl. (fl, view s sp v)) (prot s sp v)"

definition vm_abs :: "('f, 'w) vm \<Rightarrow> amachine" where
  "vm_abs s = ((\<lambda>sp. map_option (\<lambda>_. image_of s sp) (vspaces s sp)), cpu_space s)"

lemma vm_abs_eq:
  assumes "\<And>sp. (vspaces s' sp = None) = (S sp = None)" "\<And>sp m v. S sp = Some m \<Longrightarrow> image_of s' sp v = m v" "cpu_space s' = c"
  shows "vm_abs s' = (S, c)"
proof -
  have "map_option (\<lambda>_. image_of s' sp) (vspaces s' sp) = S sp" for sp
  proof (cases "S sp")
    case None
    then show ?thesis using assms(1) by simp
  next
    case (Some m)
    then have "vspaces s' sp \<noteq> None" using assms(1) by simp
    moreover have "image_of s' sp = m" by (rule ext) (rule assms(2)[OF Some])
    ultimately show ?thesis using Some by auto
  qed
  then show ?thesis using assms(3) by (simp add: vm_abs_def)
qed

lemma accessible_image:
  assumes inv: "vm_inv s" and ac: "accessible s sp v rw"
  shows "\<exists>fl b. image_of s sp v = Some (fl, Some b) \<and> (rw \<longrightarrow> writable fl)"
proof -
  note i = vm_invD[OF inv]
  obtain mp rg where mp: "map_at s sp v = Some mp" "vregions s (mp_region mp) = Some rg" "rw \<longrightarrow> mp_flags mp AND PROT_WRITE = PROT_WRITE"
    "rg_ops rg = Anon_ops \<or> region_page s (mp_region mp) (page_idx (bstart (mp_block mp)) v) \<noteq> None"
    using ac by (auto simp: accessible_def)
  have "\<exists>b. view s sp v = Some b"
  proof (cases "region_page s (mp_region mp) (page_idx (bstart (mp_block mp)) v)")
    case None
    then show ?thesis using mp by (simp add: view_def)
  next
    case (Some p)
    obtain x where "vpages s p = Some x" using pages_ok_live[OF i(1) uses_pos[OF i(4) Some]] by blast
    then show ?thesis using mp Some by (simp add: view_def paddr_def)
  qed
  then show ?thesis using mp by (auto simp: image_of_def prot_def writable_def)
qed

lemma space_of_mapped: "map_at s sp v \<noteq> None \<Longrightarrow> vspaces s sp \<noteq> None"
  by (auto simp: map_at_def block_at_def split: bind_splits)

section \<open>The simulation\<close>

definition simulates :: "vm_call \<Rightarrow> ('f, 'w) vm \<Rightarrow> bool" where
  "simulates c s \<longleftrightarrow> (\<exists>a s'. vm_run c s = Some (a, s') \<and> vm_inv s' \<and> as_step c (vm_abs s) a (vm_abs s'))"

lemma dom_None: "dom f = dom g \<Longrightarrow> (f x = None) = (g x = None)"
  by (metis domIff)

lemma simulatesI:
  assumes "vm_run c s = Some (a, s')" "vm_inv s'" "as_step c (vm_abs s) a (S, k)"
    and "\<And>sp. (vspaces s' sp = None) = (S sp = None)" "\<And>sp m v. S sp = Some m \<Longrightarrow> image_of s' sp v = m v" "cpu_space s' = k"
  shows "simulates c s"
  unfolding simulates_def using assms(1-3) vm_abs_eq[of s' S k] assms(4-6) by metis

lemma abs_space [simp]: "fst (vm_abs s) sp = map_option (\<lambda>_. image_of s sp) (vspaces s sp)" "snd (vm_abs s) = cpu_space s"
  by (simp_all add: vm_abs_def)

lemma image_cong: "view s' sp v = view s sp0 v \<Longrightarrow> prot s' sp v = prot s sp0 v \<Longrightarrow> image_of s' sp v = image_of s sp0 v"
  by (simp add: image_of_def)

abbreviation spaces_of :: "('f, 'w) vm \<Rightarrow> nat \<Rightarrow> image option" where
  "spaces_of s \<equiv> \<lambda>sp. map_option (\<lambda>_. image_of s sp) (vspaces s sp)"

lemma sim_create:
  assumes inv: "vm_inv s"
  shows "simulates V_create s"
proof -
  obtain r s' where c: "vm_space_create s = (r, s')" by force
  note k = vm_space_create_ok[OF inv c]
  show ?thesis
  proof (cases r)
    case None
    then have v: "vspaces s' = vspaces s" "image_of s' sp v = image_of s sp v" for sp v using k by (auto intro: image_cong)
    show ?thesis
      by (rule simulatesI[where S = "spaces_of s" and k = "cpu_space s" and a = "New_space None" and s' = s'])
        (use c k None v in \<open>auto simp: vm_abs_def intro: as_step.intros\<close>)
  next
    case (Some n)
    have n: "vspaces s n = None" "dom (vspaces s') = insert n (dom (vspaces s))"
      "\<And>c v. view s' c v = (if c = n then None else view s c v)" "\<And>c v. prot s' c v = (if c = n then None else prot s c v)"
      using k Some by blast+
    have im: "image_of s' sp v = (if sp = n then None else image_of s sp v)" for sp v by (simp add: image_of_def n(3,4))
    have ds: "(vspaces s' sp = None) = (((spaces_of s)(n \<mapsto> (\<lambda>_. None))) sp = None)" for sp
      using dom_None[of "vspaces s'" "(vspaces s)(n \<mapsto> undefined)" sp] n(2) by simp
    show ?thesis
    proof (rule simulatesI[where S = "(spaces_of s)(n \<mapsto> (\<lambda>_. None))" and k = "cpu_space s" and a = "New_space (Some n)" and s' = s'])
      show "vm_run V_create s = Some (New_space (Some n), s')" using c Some by simp
      show "as_step V_create (vm_abs s) (New_space (Some n)) ((spaces_of s)(n \<mapsto> (\<lambda>_. None)), cpu_space s)"
        unfolding vm_abs_def by (rule as_step.create) (simp add: n)
      show "image_of s' sp v = m v" if "((spaces_of s)(n \<mapsto> (\<lambda>_. None))) sp = Some m" for sp m v
        using that im by (auto split: if_splits)
    qed (use k ds in auto)
  qed
qed

lemma sim_switch:
  assumes inv: "vm_inv s" and x: "vspaces s sp \<noteq> None"
  shows "simulates (V_switch sp) s"
proof -
  obtain y where "vspaces s sp = Some y" using x by blast
  then obtain s' where k: "vm_space_switch (Some sp) s = Some s'" "vm_inv s'" "cpu_space s' = Some sp" "vspaces s' = vspaces s"
    "view s' = view s" "prot s' = prot s" using vm_space_switch_ok[OF inv] by blast
  have "image_of s' c v = image_of s c v" for c v using k(5,6) by (auto intro: image_cong)
  then show ?thesis
    by (intro simulatesI[where S = "spaces_of s" and k = "Some sp" and a = Finished and s' = s'])
      (use k x in \<open>auto simp: vm_abs_def intro: as_step.intros\<close>)
qed

lemma sim_clone:
  assumes inv: "vm_inv s" and pre: "vm_pre (V_clone dest src) s"
  shows "simulates (V_clone dest src) s"
proof -
  obtain x where x: "vspaces s src = Some x" "src \<noteq> dest" "vspaces s dest \<noteq> None" "\<And>v. map_at s dest v = None" using pre by auto
  obtain err s' where k: "vm_space_clone dest src s = Some (err, s')" "vm_inv s'" "err = 0 \<or> err = - errno_code ENOMEM"
    "\<And>c v. c \<noteq> dest \<Longrightarrow> view s' c v = view s c v \<and> prot s' c v = prot s c v"
    "err = 0 \<Longrightarrow> view s' dest v = view s src v \<and> prot s' dest v = prot s src v" "dom (vspaces s') = dom (vspaces s)" "cpu_space s' = cpu_space s" for v
    using vm_space_clone_ok[OF inv x(2,1,3,4)] by blast
  let ?m = "if err = 0 then image_of s src else image_of s' dest"
  have em: "image_of s dest = (\<lambda>_. None)" by (rule ext) (simp add: image_of_def prot_def x(4))
  have ds: "(vspaces s' sp = None) = (((spaces_of s)(dest \<mapsto> ?m)) sp = None)" for sp
    using dom_None[OF k(6), of sp] x(3) by simp
  show ?thesis
  proof (rule simulatesI[where S = "(spaces_of s)(dest \<mapsto> ?m)" and k = "cpu_space s" and a = "Status err" and s' = s'])
    show "vm_run (V_clone dest src) s = Some (Status err, s')" using k(1) by simp
    show "as_step (V_clone dest src) (vm_abs s) (Status err) ((spaces_of s)(dest \<mapsto> ?m), cpu_space s)"
    proof (cases "err = 0")
      case True
      then show ?thesis unfolding vm_abs_def using x(1,3) em by (auto intro: as_step.clone)
    next
      case False
      then have e: "err = - errno_code ENOMEM" using k(3) by blast
      show ?thesis unfolding vm_abs_def if_not_P[OF False] unfolding e by (rule as_step.clone_fails)
    qed
    show "image_of s' sp v = m v" if "((spaces_of s)(dest \<mapsto> ?m)) sp = Some m" for sp m v
    proof (cases "sp = dest")
      case True
      then show ?thesis using that k(5)[of v] by (auto intro: image_cong split: if_splits)
    next
      case False
      then show ?thesis using that k(4)[OF False] by (auto intro: image_cong)
    qed
  qed (use k ds in auto)
qed

lemma vm_mmap_returns:
  assumes "vspaces s sp = Some x" "\<And>d. slot_get (p_fds p) fd = Some d \<Longrightarrow> files (vmfs s) (fdfile d) \<noteq> None"
  shows "vm_mmap start len flags fd off p sp s \<noteq> None"
proof (cases "slot_get (p_fds p) fd")
  case None
  then show ?thesis using assms(1) by (auto simp: vm_mmap_def Let_def split: prod.splits option.splits)
next
  case (Some d)
  then obtain fl where "files (vmfs s) (fdfile d) = Some fl" using assms(2) by blast
  then show ?thesis using assms(1) Some by (auto simp: vm_mmap_def Let_def split: prod.splits option.splits)
qed

lemma sim_mmap:
  assumes inv: "vm_inv s" and pre: "vm_pre (V_mmap start len flags fd off p sp) s"
  shows "simulates (V_mmap start len flags fd off p sp) s"
proof -
  obtain x where x: "vspaces s sp = Some x" "flags AND MAP_SHARED = 0" "unat len \<le> 2 ^ 31"
    "regular (sp_area x) start len (if flags AND MAP_FIXED \<noteq> 0 then SMA_ALLOC_FIXED else 0)" using pre by auto
  obtain err addr s' where r: "vm_mmap start len flags fd off p sp s = Some (err, addr, s')"
    using vm_mmap_returns[OF x(1), of p fd] pre by (metis not_None_eq prod_cases3 vm_pre.simps(3))
  have run: "vm_run (V_mmap start len flags fd off p sp) s = Some (Mapped err addr, s')" using r by simp
  from vm_mmap_ok[OF inv x(1,2,4,3) r] show ?thesis
  proof (elim disjE conjE exE)
    assume e: "err \<noteq> 0" "s' = s" "addr = None"
    show ?thesis
      by (rule simulatesI[where S = "spaces_of s" and k = "cpu_space s", OF run]) (use inv e in \<open>auto simp: vm_abs_def intro: as_step.mmap_fails\<close>)
  next
    fix a :: u32
    let ?R = "{unat a ..< unat a + unat len}"
    assume e: "err = 0" "vm_inv s'" "addr = Some a" "start \<noteq> 0 \<and> flags AND MAP_FIXED \<noteq> 0 \<longrightarrow> a = start"
      "\<forall>v. unat v \<in> ?R \<longrightarrow> map_at s sp v = None"
      "\<forall>c v. view s' c v = (if c = sp \<and> unat v \<in> ?R then if flags AND MAP_ANONYMOUS \<noteq> 0 then Some 0 else None else view s c v)"
      "\<forall>c v. prot s' c v = (if c = sp \<and> unat v \<in> ?R then Some flags else prot s c v)"
      "dom (vspaces s') = dom (vspaces s)" "cpu_space s' = cpu_space s"
    let ?S = "(spaces_of s)(sp \<mapsto> map_range a len flags (image_of s sp))"
    have im: "image_of s' c v = (if c = sp then map_range a len flags (image_of s sp) v else image_of s c v)" for c v
      using e(6)[rule_format, of c v] e(7)[rule_format, of c v] by (simp add: image_of_def map_range_def)
    have ds: "(vspaces s' c = None) = (?S c = None)" for c
      using dom_None[OF e(8), of c] x(1) by simp
    show ?thesis
    proof (rule simulatesI[where S = ?S and k = "cpu_space s", OF run])
      show "as_step (V_mmap start len flags fd off p sp) (vm_abs s) (Mapped err addr) (?S, cpu_space s)"
        unfolding vm_abs_def e(1,3) by (rule as_step.mmap) (use x(1) e(4,5) in \<open>auto simp: image_of_def prot_def\<close>)
      show "image_of s' c v = m v" if "?S c = Some m" for c m v using that im[of c v] by (auto split: if_splits)
    qed (use e ds in auto)
  qed
qed

lemma sim_load:
  assumes inv: "vm_inv s" and pre: "vm_pre (V_load v) s"
  shows "simulates (V_load v) s"
proof -
  obtain sp where c: "memory_left s" "cpu_space s = Some sp" "accessible s sp v False" using pre by auto
  obtain b s' where k: "user_load v s = Some (b, s')" "view s sp v = Some b" "vm_inv s'" "\<forall>c w. view s' c w = view s c w" "map_at s' = map_at s"
    "vspaces s' = vspaces s" "cpu_space s' = cpu_space s" using user_load_ok[OF inv c] by blast
  obtain fl b' where im: "image_of s sp v = Some (fl, Some b')" using accessible_image[OF inv c(3)] by blast
  then have b: "b' = b" using k(2) by (auto simp: image_of_def)
  have "map_at s sp v \<noteq> None" using c(3) by (auto simp: accessible_def)
  then have sp: "vspaces s sp \<noteq> None" by (rule space_of_mapped)
  have same: "image_of s' c w = image_of s c w" for c w using k(4,5) by (auto simp: prot_def intro: image_cong)
  show ?thesis
  proof (rule simulatesI[where S = "spaces_of s" and k = "cpu_space s" and a = "Loaded b" and s' = s'])
    show "as_step (V_load v) (vm_abs s) (Loaded b) (spaces_of s, cpu_space s)"
      unfolding vm_abs_def c(2) by (rule as_step.load[where m = "image_of s sp" and fl = fl]) (use sp im b in auto)
  qed (use k same in auto)
qed

lemma sim_store:
  assumes inv: "vm_inv s" and pre: "vm_pre (V_store v a) s"
  shows "simulates (V_store v a) s"
proof -
  obtain sp where c: "memory_left s" "cpu_space s = Some sp" "accessible s sp v True" using pre by auto
  obtain s' where k: "user_store v a s = Some s'" "vm_inv s'" "\<forall>c w. view s' c w = (if c = sp \<and> w = v then Some a else view s c w)"
    "map_at s' = map_at s" "vspaces s' = vspaces s" "cpu_space s' = cpu_space s" using user_store_ok[OF inv c] by blast
  obtain fl b' where im: "image_of s sp v = Some (fl, Some b')" "writable fl" using accessible_image[OF inv c(3)] by blast
  have "map_at s sp v \<noteq> None" using c(3) by (auto simp: accessible_def)
  then have sp: "vspaces s sp \<noteq> None" by (rule space_of_mapped)
  have pr: "prot s' = prot s" by (intro ext) (simp add: prot_def k(4))
  have same: "image_of s' c w = (if c = sp \<and> w = v then Some (fl, Some a) else image_of s c w)" for c w
    using k(3)[rule_format, of c w] im by (auto simp: image_of_def pr)
  let ?S = "(spaces_of s)(sp \<mapsto> (image_of s sp)(v \<mapsto> (fl, Some a)))"
  show ?thesis
  proof (rule simulatesI[where S = ?S and k = "cpu_space s" and a = Finished and s' = s'])
    show "as_step (V_store v a) (vm_abs s) Finished (?S, cpu_space s)"
      unfolding vm_abs_def c(2) by (rule as_step.store[where b' = b']) (use sp im in auto)
    show "(vspaces s' d = None) = (?S d = None)" for d using k(5) sp by auto
    show "image_of s' d w = m w" if "?S d = Some m" for d m w using that same[of d w] by (auto split: if_splits)
  qed (use k in auto)
qed

lemma simulates_all:
  assumes "vm_inv s" "vm_pre c s"
  shows "simulates c s"
  using assms sim_create sim_switch sim_mmap sim_clone sim_load sim_store by (cases c) (simp_all del: vm_run.simps)

section \<open>Sequences of calls\<close>

fun vm_runs :: "vm_call list \<Rightarrow> ('f, 'w) vm \<Rightarrow> (vm_answer list \<times> ('f, 'w) vm) option" where
  "vm_runs [] s = Some ([], s)"
| "vm_runs (c # cs) s = do { (a, s) \<leftarrow> vm_run c s; (as, s) \<leftarrow> vm_runs cs s; Some (a # as, s) }"

text \<open>Each call is in order in the state it meets.\<close>

fun vm_pres :: "vm_call list \<Rightarrow> ('f, 'w) vm \<Rightarrow> bool" where
  "vm_pres [] s = True"
| "vm_pres (c # cs) s = (vm_pre c s \<and> (\<forall>a s'. vm_run c s = Some (a, s') \<longrightarrow> vm_pres cs s'))"

inductive as_steps :: "vm_call list \<Rightarrow> amachine \<Rightarrow> vm_answer list \<Rightarrow> amachine \<Rightarrow> bool" where
  none: "as_steps [] m [] m"
| more: "as_step c m a m' \<Longrightarrow> as_steps cs m' as m'' \<Longrightarrow> as_steps (c # cs) m (a # as) m''"

lemma vm_runs_refine: "vm_inv s \<Longrightarrow> vm_pres cs s \<Longrightarrow> \<exists>as s'. vm_runs cs s = Some (as, s') \<and> vm_inv s' \<and> as_steps cs (vm_abs s) as (vm_abs s')"
proof (induction cs arbitrary: s)
  case Nil
  then show ?case by (auto intro: as_steps.none)
next
  case (Cons c cs)
  obtain a t where t: "vm_run c s = Some (a, t)" "vm_inv t" "as_step c (vm_abs s) a (vm_abs t)"
    using simulates_all[of s c] Cons.prems unfolding simulates_def by auto
  then obtain as u where "vm_runs cs t = Some (as, u)" "vm_inv u" "as_steps cs (vm_abs t) as (vm_abs u)"
    using Cons.IH[of t] Cons.prems(2) by auto
  then show ?case using t by (auto intro: as_steps.more)
qed

section \<open>A first state\<close>

text \<open>The first frames hold the kernel's directory and its tables; the processor is in no address space.\<close>

definition frames0 :: phys where
  "frames0 = \<lparr>bitmap = [-1, -1, -1, -1, 3, 0], bitmap_size = 6, bitmap_items = 192\<rparr>"

definition paging0 :: paging where
  "paging0 = \<lparr>pframes = frames0, ptables = (\<lambda>f i. if f = 4096 \<and> 896 \<le> i \<and> i < 1024 then of_nat ((i - 894) * 4096) OR (PG_FLAG_PRESENT OR PG_FLAG_RW) else 0),
     kernel_dir = 4096\<rparr>"

definition vfs0 :: "(unit, unit) vfs" where
  "vfs0 = \<lparr>fs_list = [], fs_refs = (\<lambda>_. 0), mount_list = [], mounts = (\<lambda>_. undefined), next_mount = 0,
     vnodes = (\<lambda>_. vnode_zero), next_vnode = 0, files = Map.empty, next_file = 0, pipes = (\<lambda>_. pipe_new), next_pipe = 0,
     cdevs = replicate 255 None, bdevs = replicate 255 None, world = (), shutdown = (\<lambda>_ w. (0, w)), kjunk = (\<lambda>_. 0)\<rparr>"

definition vm0 :: "(unit, unit) vm" where
  "vm0 = \<lparr>pgt = paging0, pmem = (\<lambda>_ _. 0), cr3 = 4096, cpu_space = None, kmem_area = kmem_init, vpages = Map.empty, vregions = Map.empty,
     vmaps = Map.empty, vspaces = Map.empty, next_obj = 0, pagecache = (\<lambda>_. []), vmfs = vfs0\<rparr>"

lemma frames0_used: "frame_used frames0 k" if "k < 130" for k
proof (cases "k < 128")
  case True
  then have "k div 32 \<in> {0, 1, 2, 3}" by auto
  then show ?thesis by (auto simp: frame_used_def frames0_def)
next
  case False
  then have "k = 128 \<or> k = 129" using that by auto
  then show ?thesis by (auto simp: frame_used_def frames0_def bit_1_iff)
qed

lemma table0: "i \<in> {896..<1024} \<Longrightarrow> table_of (ptables paging0 4096 i) = (i - 894) * 4096"
proof -
  assume i: "i \<in> {896..<1024}"
  then have d: "4096 dvd (i - 894) * 4096" "(i - 894) * 4096 < 2 ^ 32" by auto
  have e: "ptables paging0 4096 i = of_nat ((i - 894) * 4096) OR (PG_FLAG_PRESENT OR PG_FLAG_RW)" using i by (simp add: paging0_def)
  show ?thesis unfolding e by (rule table_of_entry[OF d table_flags(2)])
qed

lemma paging0_ok: "pt_ok {} paging0"
proof -
  have k: "kernel_dir paging0 = 4096" "pframes paging0 = frames0" by (simp_all add: paging0_def)
  have sl: "pt_slots {} paging0 = {4096} \<times> {896..<1024}" by (simp add: pt_slots_def k)
  have st: "slot_table paging0 (4096, i) = (i - 894) * 4096" if "i \<in> {896..<1024}" for i using table0[OF that] by (simp add: slot_table_def)
  have fr: "\<exists>n. f = n * 4096 \<and> 0 < n \<and> n < 130" if f: "f \<in> pt_frames {} paging0" for f
  proof -
    consider "f = 4096" | i where "i \<in> {896..<1024}" "f = slot_table paging0 (4096, i)" using f unfolding pt_frames_def k sl by blast
    then show ?thesis
    proof cases
      case 1
      then show ?thesis by (intro exI[of _ 1]) simp
    next
      case 2
      then show ?thesis using st[OF 2(1)] by (intro exI[of _ "i - 894"]) auto
    qed
  qed
  have pr: "pg_present (ptables paging0 4096 i) \<and> ptables paging0 4096 i AND PG_FLAG_RW \<noteq> 0" if "i \<in> {896..<1024}" for i
  proof -
    have d: "4096 dvd (i - 894) * 4096" "(i - 894) * 4096 < 2 ^ 32" using that by auto
    have e: "ptables paging0 4096 i = of_nat ((i - 894) * 4096) OR (PG_FLAG_PRESENT OR PG_FLAG_RW)" using that by (simp add: paging0_def)
    show ?thesis unfolding e using entry_flags(2)[OF d table_flags(2), of PG_FLAG_PRESENT] entry_flags(2)[OF d table_flags(2), of PG_FLAG_RW]
      by (simp add: PG_FLAG_PRESENT_def PG_FLAG_RW_def mask_eq_exp_minus_1)
  qed
  show ?thesis
  proof (rule pt_okI)
    show "phys_wf (pframes paging0)" by (simp add: k phys_wf_def frames0_def)
    show "0 \<notin> pt_frames {} paging0" using fr[of 0] by auto
    show "frame_addr_used (pframes paging0) f" if f: "f \<in> pt_frames {} paging0" for f
    proof -
      obtain n where "f = n * 4096" "n < 130" using fr[OF f] by blast
      then show ?thesis using frames0_used[of n] by (simp add: frame_addr_used_def k) (simp add: frames0_def)
    qed
    show "inj_on (slot_table paging0) (pt_slots {} paging0)" unfolding sl by (auto simp: inj_on_def st)
    show "slot_table paging0 ` pt_slots {} paging0 \<inter> insert (kernel_dir paging0) {} = {}" unfolding sl k using st by auto
    show "\<not> pg_present (ptables paging0 (kernel_dir paging0) i)" if "i < 768" for i using that by (simp add: paging0_def PG_FLAG_PRESENT_def)
    show "pg_present (ptables paging0 (kernel_dir paging0) i) \<and> ptables paging0 (kernel_dir paging0) i AND PG_FLAG_RW \<noteq> 0"
      if "i \<in> {896..<1024}" for i using pr[OF that] by (simp add: k)
  qed simp_all
qed

lemma vm0_ok: "vm_inv vm0"
proof -
  have e: "pgt vm0 = paging0" "dirs vm0 = {}" "vpages vm0 = Map.empty" "vspaces vm0 = Map.empty" "vmaps vm0 = Map.empty" "vregions vm0 = Map.empty"
    "cpu_space vm0 = None" "cr3 vm0 = kernel_dir paging0" "kmem_area vm0 = kmem_init" by (simp_all add: vm0_def dirs_def paging0_def)
  have "frame_addr_used (pframes paging0) 0" using frames0_used[of 0] by (simp add: frame_addr_used_def paging0_def) (simp add: frames0_def)
  then have "pages_ok (uses vm0) vm0" using paging0_ok by (simp add: pages_ok_def e uses_def)
  moreover have "kmem_ok kmem_init" using kmem_init_wf
    by (simp add: kmem_ok_def) (simp add: kmem_init_def sma_area_create_def Let_def sma_sorted_def KMEM_START_def KMEM_SIZE_def ROUND_DOWN_def ROUND_UP_def)
  ultimately show ?thesis
    by (simp add: vm_inv_def e spaces_ok_def maps_ok_def regions_ok_def ptes_ok_def cpu_ok_def)
qed

definition frames1 :: phys where "frames1 = frames0\<lparr>bitmap := [-1, -1, -1, -1, 7, 0]\<rparr>"

lemma frames0_alloc: "phys_alloc1 PHYS_KERNEL frames0 = (130 * PAGE_SIZE, frames1)"
proof -
  have z: "find_first_zero frames0 4096 = 0" "find_first_zero frames0 0 = 130"
    by (simp add: find_first_zero_def find_zero_word.simps frames0_def)
      (simp add: find_first_zero_def find_zero_word.simps frames0_def ffz_bit_def, code_simp)
  have sc: "TEST_FRAME 130 (bitmap frames0) = 0"
    by code_simp
  have l: "alloc_loop frames0 (Suc 0) 4096 = Some (Inr (0, frames0))" by (subst alloc_loop.simps) (simp add: z Let_def)
  have "[0..<Suc 0] = [0]" by simp
  then have l': "alloc_loop frames0 (Suc 0) 0 = Some (Inr (130 * PAGE_SIZE, frames1))"
    by (subst alloc_loop.simps) (simp add: z sc Let_def SET_FRAME_def bts_def frames1_def, use sc in \<open>simp add: frames0_def\<close>)
  show ?thesis
    by (simp add: phys_alloc1_def phys_alloc_def Let_def try_zone_def alloc_frames_def l l'
        PHYS_KERNEL_def PHYS_ZONE_NORMAL_def PHYS_ALLOW_WAIT_def PHYS_ALLOW_IO_def PHYS_ZONE_HIGH_def DMA_AREA_SIZE_def)
qed

definition paging1 :: paging where "paging1 = paging0\<lparr>pframes := frames1, ptables := (ptables paging0)(130 * 4096 := ptables paging0 4096)\<rparr>"

lemma create1: "paging_create_aspace paging0 = (Some (130*4096), paging1)"
  using frames0_alloc by (simp add: paging_create_aspace_def pt_alloc_def paging1_def paging0_def)

text \<open>The states after creating a space, entering it and mapping a page of zeros.\<close>

definition block1 :: sma_block where
  "block1 = \<lparr>bid = 1, bflags = SMA_FLAGS_USED, bstart = 0x400000, bsize = 0x1000, dataptr = None\<rparr>"

definition area1 :: sma_area where
  "area1 = \<lparr>used_list = [block1\<lparr>dataptr := Some 2\<rparr>], free_list = [\<lparr>bid = 0, bflags = 0, bstart = 0x401000, bsize = 0xBFBFF000, dataptr = None\<rparr>],
     area_start = 0x400000, area_size = 0xBFC00000, next_bid = 2\<rparr>"

definition prot1 :: u16 where "prot1 = PROT_READ OR PROT_WRITE OR MAP_FIXED OR MAP_ANONYMOUS"

definition vm1 :: "(unit, unit) vm" where
  "vm1 = vm0\<lparr>next_obj := 1, pgt := paging1, vspaces := [0 \<mapsto> \<lparr>sp_dir = 130 * 4096, sp_area = sma_area_create USERMEM_START USERMEM_SIZE, sp_refs = 1\<rparr>]\<rparr>"

definition vm2 :: "(unit, unit) vm" where
  "vm2 = vm1\<lparr>cpu_space := Some 0, cr3 := 130 * 4096\<rparr>"

definition vm_mapped :: "u16 \<Rightarrow> (unit, unit) vm" where
  "vm_mapped fl = vm2\<lparr>next_obj := 3,
     vregions := [1 \<mapsto> \<lparr>rg_refs = 1, rg_ops = Anon_ops, rg_pages = [None], rg_size = 0x1000, rg_vnode = None, rg_offset = 0\<rparr>],
     vmaps := [2 \<mapsto> \<lparr>mp_block = block1, mp_space = 0, mp_flags = fl, mp_region = 1, mp_offset = 0\<rparr>],
     vspaces := [0 \<mapsto> \<lparr>sp_dir = 130 * 4096, sp_area = area1, sp_refs = 1\<rparr>]\<rparr>"

definition proc0 :: vproc where
  "proc0 = \<lparr>p_uid = 0, p_gid = 0, p_euid = 0, p_egid = 0, p_umask = 0, p_root = 0, p_cwd = 0, p_fds = replicate OPEN_MAX None\<rparr>"

lemma run1: "vm_run V_create vm0 = Some (New_space (Some 0), vm1)"
  using create1 by (simp add: vm_space_create_def fresh_obj_def Let_def vm1_def vm0_def)

lemma run2: "vm_run (V_switch 0) vm1 = Some (Finished, vm2)"
  by (simp add: vm_space_switch_def vm1_def vm2_def)

lemma area0: "sma_area_create USERMEM_START USERMEM_SIZE = \<lparr>used_list = [], free_list = [\<lparr>bid = 0, bflags = 0, bstart = 0x400000, bsize = 0xBFC00000, dataptr = None\<rparr>],
    area_start = 0x400000, area_size = 0xBFC00000, next_bid = 1\<rparr>"
  by (simp add: sma_area_create_def Let_def USERMEM_START_def USERMEM_SIZE_def LOWMEM_START_def ROUND_DOWN_def ROUND_UP_def)

lemma fixed1: "prot1 AND MAP_FIXED \<noteq> 0" "prot1 AND PROT_NONE = 0" "prot1 AND MAP_ANONYMOUS = MAP_ANONYMOUS" "prot1 AND MAP_SHARED = 0"
  "prot1 AND PROT_WRITE = PROT_WRITE" "MAP_ANONYMOUS \<noteq> 0"
  by (simp_all add: prot1_def PROT_READ_def PROT_WRITE_def MAP_FIXED_def MAP_ANONYMOUS_def PROT_NONE_def MAP_SHARED_def)

lemma alloc1: "sma_alloc (sma_area_create USERMEM_START USERMEM_SIZE) 0x400000 0x1000 SMA_ALLOC_FIXED = (Some block1, area1\<lparr>used_list := [block1]\<rparr>)"
  unfolding area0
  by (simp add: sma_alloc_def sma_choose_def covers_def Let_def sma_new_def list_set_def block1_def area1_def SMA_FLAGS_USED_def)

lemma run_map:
  assumes "fl AND MAP_FIXED \<noteq> 0" "fl AND PROT_NONE = 0" "fl AND MAP_ANONYMOUS = MAP_ANONYMOUS"
  shows "vm_run (V_mmap 0x400000 0x1000 fl 0 0 proc0 0) vm2 = Some (Mapped 0 (Some 0x400000), vm_mapped fl)"
proof -
  have an: "MAP_ANONYMOUS \<noteq> 0" by (simp add: MAP_ANONYMOUS_def)
  have sp: "vspaces vm2 0 = Some \<lparr>sp_dir = 130 * 4096, sp_area = sma_area_create USERMEM_START USERMEM_SIZE, sp_refs = 1\<rparr>" "next_obj vm2 = 1"
    by (simp_all add: vm2_def vm1_def)
  have sd: "set_dataptr block1 (Suc (Suc 0)) (area1\<lparr>used_list := [block1]\<rparr>) = area1"
    by (simp add: set_dataptr_def list_set_def area1_def block1_def numeral_2_eq_2)
  have b: "bstart block1 = 0x400000" "bsize block1 = 0x1000" by (simp_all add: block1_def)
  show ?thesis
    by (simp add: vm_mmap_def assms an sp alloc1 fresh_obj_def Let_def sd b) (simp add: vm_mapped_def vm2_def vm1_def vm0_def numeral_2_eq_2 numeral_3_eq_3)
qed



definition vm3 :: "(unit, unit) vm" where
  "vm3 = vm_mapped prot1"

lemma run3: "vm_run (V_mmap 0x400000 0x1000 prot1 0 0 proc0 0) vm2 = Some (Mapped 0 (Some 0x400000), vm3)"
  unfolding vm3_def by (rule run_map) (rule fixed1)+

definition frames2 :: phys where "frames2 = frames0\<lparr>bitmap := [-1, -1, -1, -1, 15, 0]\<rparr>"

lemma frames1_alloc: "phys_alloc1 PHYS_KERNEL frames1 = (131 * PAGE_SIZE, frames2)"
proof -
  have z: "find_first_zero frames1 4096 = 0" "find_first_zero frames1 0 = 131"
    by (simp add: find_first_zero_def find_zero_word.simps frames0_def frames1_def)
      (simp add: find_first_zero_def find_zero_word.simps frames0_def frames1_def ffz_bit_def, code_simp)
  have sc: "TEST_FRAME 131 (bitmap frames1) = 0"
    by code_simp
  have l: "alloc_loop frames1 (Suc 0) 4096 = Some (Inr (0, frames1))" by (subst alloc_loop.simps) (simp add: z Let_def)
  have l': "alloc_loop frames1 (Suc 0) 0 = Some (Inr (131 * PAGE_SIZE, frames2))"
    by (subst alloc_loop.simps) (simp add: z sc Let_def SET_FRAME_def bts_def frames2_def, use sc in \<open>simp add: frames0_def frames1_def\<close>)
  show ?thesis
    by (simp add: phys_alloc1_def phys_alloc_def Let_def try_zone_def alloc_frames_def l l'
        PHYS_KERNEL_def PHYS_ZONE_NORMAL_def PHYS_ALLOW_WAIT_def PHYS_ALLOW_IO_def PHYS_ZONE_HIGH_def DMA_AREA_SIZE_def)
qed

definition paging2 :: paging where
  "paging2 = paging1\<lparr>pframes := frames2, ptables := (ptables paging1)(131 * 4096 := ptables paging1 4096)\<rparr>"

lemma create2: "paging_create_aspace paging1 = (Some (131 * 4096), paging2)"
  using frames1_alloc by (simp add: paging_create_aspace_def pt_alloc_def paging2_def) (simp add: paging1_def paging0_def)

definition vm4 :: "(unit, unit) vm" where
  "vm4 = vm3\<lparr>next_obj := 4, pgt := paging2, vspaces := (vspaces vm3)(3 \<mapsto> \<lparr>sp_dir = 131 * 4096, sp_area = sma_area_create USERMEM_START USERMEM_SIZE, sp_refs = 1\<rparr>)\<rparr>"

lemma run4: "vm_run V_create vm3 = Some (New_space (Some 3), vm4)"
proof -
  have "pgt vm3 = paging1" "next_obj vm3 = 3" by (simp_all add: vm3_def vm_mapped_def vm2_def vm1_def)
  then show ?thesis using create2 by (simp add: vm_space_create_def fresh_obj_def Let_def vm4_def)
qed

definition region5 :: vm_region where
  "region5 = \<lparr>rg_refs = 1, rg_ops = Anon_ops, rg_pages = [None], rg_size = 0x1000, rg_vnode = None, rg_offset = 0\<rparr>"

definition vm5 :: "(unit, unit) vm" where
  "vm5 = vm4\<lparr>next_obj := 7, vspaces := (vspaces vm4)(3 \<mapsto> \<lparr>sp_dir = 131 * 4096, sp_area = set_dataptr block1 4 (area1\<lparr>used_list := [block1]\<rparr>), sp_refs = 1\<rparr>),
     vregions := [5 \<mapsto> region5, 6 \<mapsto> region5],
     vmaps := [2 \<mapsto> \<lparr>mp_block = block1, mp_space = 0, mp_flags = prot1, mp_region = 5, mp_offset = 0\<rparr>,
               4 \<mapsto> \<lparr>mp_block = block1, mp_space = 3, mp_flags = prot1, mp_region = 6, mp_offset = 0\<rparr>]\<rparr>"

lemma run5: "vm_run (V_clone 3 0) vm4 = Some (Status 0, vm5)"
proof -
  have s: "vspaces vm4 0 = Some \<lparr>sp_dir = 130 * 4096, sp_area = area1, sp_refs = 1\<rparr>"
    "vspaces vm4 3 = Some \<lparr>sp_dir = 131 * 4096, sp_area = sma_area_create USERMEM_START USERMEM_SIZE, sp_refs = 1\<rparr>"
    "vmaps vm4 = [2 \<mapsto> \<lparr>mp_block = block1, mp_space = 0, mp_flags = prot1, mp_region = 1, mp_offset = 0\<rparr>]"
    "vregions vm4 = [1 \<mapsto> region5]" "next_obj vm4 = 4" by (simp_all add: vm4_def vm3_def vm_mapped_def region5_def)
  have b: "bstart block1 = 0x400000" "bsize block1 = 0x1000" by (simp_all add: block1_def)
  have r: "rg_vnode region5 = None" "rg_pages region5 = [None]" "rg_refs region5 = 1" "rg_size region5 = 0x1000" "region5\<lparr>rg_refs := 1\<rparr> = region5"
    by (simp_all add: region5_def)
  have u: "used_list area1 = [block1\<lparr>dataptr := Some 2\<rparr>]" by (simp add: area1_def)
  have "vm_clone 2 0 3 vm4 = Some (0, vm5)"
    by (simp add: vm_clone_def s b r alloc1 fresh_obj_def Let_def fixed1 put_region_def vm_destroy_region_def) (simp add: vm5_def fun_upd_twist)
  then show ?thesis by (simp add: vm_space_clone_def s u)
qed


definition calls0 :: "vm_call list" where
  "calls0 = [V_create, V_switch 0, V_mmap 0x400000 0x1000 prot1 0 0 proc0 0, V_create, V_clone 3 0, V_store 0x400000 7]"

lemma calls0_pre: "vm_pres calls0 vm0"
proof -
  have p2: "vm_pre (V_switch 0) vm1" by (simp add: vm1_def)
  have sp: "vspaces vm2 0 = Some \<lparr>sp_dir = 130 * 4096, sp_area = sma_area_create USERMEM_START USERMEM_SIZE, sp_refs = 1\<rparr>"
    by (simp add: vm2_def vm1_def)
  have "slot_get (p_fds proc0) 0 = None" by (simp add: slot_get_def proc0_def OPEN_MAX_def)
  then have p3: "vm_pre (V_mmap 0x400000 0x1000 prot1 0 0 proc0 0) vm2" by (simp add: sp fixed1 area0 regular_def SMA_ALLOC_FIXED_def)
  have "map_at vm4 3 v = None" for v by (simp add: map_at_def block_at_def vm4_def area0)
  moreover have "vspaces vm4 0 \<noteq> None" "vspaces vm4 3 \<noteq> None" by (simp_all add: vm4_def vm3_def vm_mapped_def)
  ultimately have p5: "vm_pre (V_clone 3 0) vm4" by simp
  have pf: "pframes (pgt vm5) = frames2" by (simp add: vm5_def vm4_def paging2_def)
  have "free_frame vm5 150" "free_frame vm5 151" by (simp_all add: free_frame_def pf frames2_def frames0_def frame_used_def)
  then have m: "memory_left vm5" unfolding memory_left_def by (intro exI[of _ 150] exI[of _ 151]) simp
  have s5: "vspaces vm5 0 = Some \<lparr>sp_dir = 130 * 4096, sp_area = area1, sp_refs = 1\<rparr>" by (simp add: vm5_def vm4_def vm3_def vm_mapped_def)
  have "map_at vm5 0 0x400000 = Some \<lparr>mp_block = block1, mp_space = 0, mp_flags = prot1, mp_region = 5, mp_offset = 0\<rparr>"
    by (simp add: map_at_def block_at_def s5 area1_def covers_def block1_def) (simp add: vm5_def block1_def)
  then have "accessible vm5 0 0x400000 True" by (simp add: accessible_def fixed1) (simp add: vm5_def region5_def)
  moreover have "cpu_space vm5 = Some 0" by (simp add: vm5_def vm4_def vm3_def vm_mapped_def vm2_def)
  ultimately have p6: "vm_pre (V_store 0x400000 7) vm5" using m by simp
  show ?thesis unfolding calls0_def
    using run1 run2 run3 run4 run5 p2 p3 p5 p6 by (simp del: vm_run.simps vm_pre.simps) (simp del: vm_run.simps)
qed

text \<open>C3. Virtual memory refines a machine in which every address space is a map of its own from addresses to bytes
  and cloning a space copies the map. From a state that satisfies the invariant, every sequence of calls that are in
  order (new spaces, switching, private mappings, clones, loads and stores of the current space) runs to its end, without an
  access to an object that is gone and without an endless fault, keeps the invariant, and gives the results of the
  abstract machine: a store changes one byte of one space, although after a clone the spaces share all their pages until a
  fault copies one.\<close>

theorem vm_refines:
  assumes "vm_inv s" and "vm_pres cs s"
  shows "\<exists>as s'. vm_runs cs s = Some (as, s') \<and> vm_inv s' \<and> as_steps cs (vm_abs s) as (vm_abs s')"
  using assms by (rule vm_runs_refine)

theorem vm_refines_witness:
  "\<exists>as s'. vm_runs calls0 vm0 = Some (as, s') \<and> vm_inv s' \<and> as_steps calls0 (vm_abs vm0) as (vm_abs s')"
  by (rule vm_refines[OF vm0_ok calls0_pre])

text \<open>C14. The two-level page tables are a map from pages to entries for each directory. Mapping a page either fails, without
  any change and only when there is no frame for a table, or changes exactly the entry of that page: in the directory given,
  and for an address of the kernel in all directories; entries of other pages and directories and the kernel's
  directory stay, and the tables remain well formed.\<close>

theorem page_tables_correct:
  assumes "pt_ok ds s" and "mappable ds s p v"
  shows "case paging_map_page v f att p s of (r, s') \<Rightarrow> pt_ok ds s' \<and> kernel_dir s' = kernel_dir s \<and>
    (r = -1 \<and> s' = s \<and> fst (pt_alloc s) = 0 \<or>
     r = 0 \<and> (\<forall>c w. c \<in> insert (kernel_dir s) ds \<and> (user_addr w \<or> kernel_addr w) \<longrightarrow>
       pte s' c w = (if hits s p v c w then f OR att else pte s c w)))"
proof -
  obtain r s' where r: "paging_map_page v f att p s = (r, s')" by force
  show ?thesis using paging_map_page_ok[OF assms r] unfolding r by auto
qed

theorem page_tables_correct_witness:
  "case paging_map_page 0xF0000000 0x82000 3 None paging0 of (r, s') \<Rightarrow> pt_ok {} s' \<and> kernel_dir s' = kernel_dir paging0 \<and>
    (r = -1 \<and> s' = paging0 \<and> fst (pt_alloc paging0) = 0 \<or>
     r = 0 \<and> (\<forall>c w. c \<in> insert (kernel_dir paging0) {} \<and> (user_addr w \<or> kernel_addr w) \<longrightarrow>
       pte s' c w = (if hits paging0 None 0xF0000000 c w then 0x82000 OR 3 else pte paging0 c w)))"
  by (rule page_tables_correct[OF paging0_ok]) (simp add: mappable_def kernel_addr_def KHEAP_START_def)

section \<open>Faults that are refused\<close>

lemma no_used_block:
  assumes inv: "vm_inv s" and x: "vspaces s sp = Some x" and m: "map_at s sp v = None"
  shows "find (covers v) (used_list (sp_area x)) = None"
proof (rule ccontr)
  note i = vm_invD[OF inv]
  assume "find (covers v) (used_list (sp_area x)) \<noteq> None"
  then obtain b where b: "find (covers v) (used_list (sp_area x)) = Some b" by blast
  then have at: "block_at s sp v = Some b" using x by (simp add: block_at_def)
  obtain k mp where "maps_block s sp b k mp" using spaces_okD(3)[OF i(2) x] find_in[OF b] by blast
  then show False using at m by (simp add: map_at_def maps_block_def)
qed

text \<open>C15. The page fault handler refuses, with nothing changed, every fault outside the mappings of the current address
  space, a write to a mapping that allows none, and any fault while the processor is in no address space.\<close>

theorem pagefault_refused:
  assumes "vm_inv s"
  shows "(cpu_space s = None \<longrightarrow> vm_pagefault v rw s = Some (-1, s)) \<and>
    (\<forall>sp. cpu_space s = Some sp \<longrightarrow> (map_at s sp v = None \<longrightarrow> vm_pagefault v rw s = Some (-2, s)) \<and>
       (\<forall>mp. map_at s sp v = Some mp \<and> \<not> writable (mp_flags mp) \<longrightarrow> vm_pagefault v True s = Some (-1, s)))"
proof (intro conjI allI impI)
  note i = vm_invD[OF assms]
  show "cpu_space s = None \<Longrightarrow> vm_pagefault v rw s = Some (-1, s)" by (simp add: vm_pagefault_def)
  fix sp assume c: "cpu_space s = Some sp"
  then obtain x where x: "vspaces s sp = Some x" using i(6) by (auto simp: cpu_ok_def)
  note a = spaces_okD(2)[OF i(2) x]
  show "vm_pagefault v rw s = Some (-2, s)" if "map_at s sp v = None"
  proof (cases "find (covers v) (free_list (sp_area x))")
    case None
    then show ?thesis using no_used_block[OF assms x that] c x by (simp add: vm_pagefault_def sma_getblock_def)
  next
    case (Some b)
    then have "\<not> bit (bflags b) 0" using area_okD(1)[OF a] find_in[OF Some] by (simp add: sma_wf_def)
    then have "bflags b AND SMA_FLAGS_USED \<noteq> SMA_FLAGS_USED"
      by (simp add: SMA_FLAGS_USED_def and_one_eq bit_0 odd_iff_mod_2_eq_one)
    then show ?thesis using no_used_block[OF assms x that] c x Some by (simp add: vm_pagefault_def sma_getblock_def)
  qed
  fix mp assume mp: "map_at s sp v = Some mp \<and> \<not> writable (mp_flags mp)"
  then obtain y b m where y: "vspaces s sp = Some y" "b \<in> set (used_list (sp_area y))" "unat v \<in> blk b" "maps_block s sp b m mp"
    using map_at_iff[OF i(2)] by blast
  have b: "b \<in> set (used_list (sp_area x))" using y x by simp
  have fb: "find (covers v) (used_list (sp_area x)) = Some b"
    using find_covers[OF area_okD(1)[OF a] _ b area_ok_block(3)[OF a b] y(3)] by simp
  have "bit (bflags b) 0" using area_okD(1)[OF a] b by (simp add: sma_wf_def)
  then have fl: "bflags b AND SMA_FLAGS_USED = SMA_FLAGS_USED"
    by (simp add: SMA_FLAGS_USED_def and_one_eq bit_0 odd_iff_mod_2_eq_one)
  have m: "dataptr b = Some m" "vmaps s m = Some mp" using y(4) by (simp_all add: maps_block_def)
  obtain rg where "vregions s (mp_region mp) = Some rg" using maps_okD(4)[OF i(3) m(2)] by blast
  then show "vm_pagefault v True s = Some (-1, s)"
    using c x fb fl m mp by (simp add: vm_pagefault_def sma_getblock_def vm_getpage_def Let_def writable_def)
qed

lemma step_ok:
  assumes "vm_inv s" "vm_pre c s" "vm_run c s = Some (a, s')"
  shows "vm_inv s'"
  using simulates_all[OF assms(1,2)] assms(3) unfolding simulates_def by auto

lemma vm2_ok: "vm_inv vm2"
proof -
  have "vm_inv vm1" by (rule step_ok[OF vm0_ok _ run1]) simp
  then show ?thesis by (rule step_ok[OF _ _ run2]) (simp add: vm1_def)
qed

theorem pagefault_refused_witness:
  "vm_pagefault 0x400000 True vm0 = Some (-1, vm0) \<and> vm_pagefault 0x400000 False vm2 = Some (-2, vm2)"
proof -
  have "map_at vm2 0 0x400000 = None" by (simp add: map_at_def block_at_def vm2_def vm1_def area0)
  moreover have "cpu_space vm2 = Some 0" by (simp add: vm2_def)
  ultimately show ?thesis using pagefault_refused[OF vm0_ok, of "0x400000" True] pagefault_refused[OF vm2_ok, of "0x400000" False]
    by (simp add: vm0_def)
qed

section \<open>A page that is read first can be written\<close>

text \<open>The first fault on a page of anonymous memory.\<close>

lemma fault_first:
  assumes inv: "vm_inv s" and mem: "memory_left s" and c: "cpu_space s = Some sp" and m: "map_at s sp v = Some mp"
    and rg: "vregions s (mp_region mp) = Some rg" "rg_ops rg = Anon_ops" and new: "page_at s sp v = None"
  shows "\<exists>s' q f. vm_pagefault v False s = Some (0, s') \<and> faulted s s' sp v mp q f (PG_FLAG_USER OR PG_FLAG_RW OR PG_FLAG_PRESENT)"
proof -
  note i = vm_invD[OF inv]
  obtain x b k where x: "vspaces s sp = Some x" "b \<in> set (used_list (sp_area x))" "unat v \<in> blk b" "maps_block s sp b k mp"
    using m map_at_iff[OF i(2)] by blast
  note a = spaces_okD(2)[OF i(2) x(1)]
  let ?off = "sint (ROUND_DOWN (v - bstart b) PAGE)"
  have fa: "fault_at s sp v x b k mp rg ?off"
    unfolding fault_at_def using inv c x rg(1) block_pages(2)[OF a x(2,3)] by simp
  have fb: "find (covers v) (used_list (sp_area x)) = Some b"
    using find_covers[OF area_okD(1)[OF a] _ x(2) area_ok_block(3)[OF a x(2)] x(3)] by simp
  have "bit (bflags b) 0" using area_okD(1)[OF a] x(2) by (simp add: sma_wf_def)
  then have fl: "bflags b AND SMA_FLAGS_USED = SMA_FLAGS_USED" by (simp add: SMA_FLAGS_USED_def and_one_eq bit_0 odd_iff_mod_2_eq_one)
  have dp: "dataptr b = Some k" and bs: "bstart (mp_block mp) = bstart b" using x(4) by (simp_all add: maps_block_def)
  have pf: "vm_pagefault v False s = vm_getpage k ?off False s" using c x(1) fb fl dp by (simp add: vm_pagefault_def sma_getblock_def)
  have none: "rg_pages rg ! page_idx (bstart b) v = None"
    using new m rg(1) fault_atD(8,12)[OF fa] by (simp add: page_at_def region_page_def bs split: if_splits)
  show ?thesis unfolding pf by (rule fault_anon[OF fa mem none rg(2)]) simp
qed

text \<open>C40. Write protection does not hold for the pages of anonymous memory that are first touched by a load: the handler enters a
  new page with write access whatever the protection of the mapping is, so a store to the same address then
  succeeds without a fault, also where a store before the load would have been refused.\<close>

theorem load_makes_writable:
  assumes inv: "vm_inv s" and mem: "memory_left s" and c: "cpu_space s = Some sp" and m: "map_at s sp v = Some mp"
    and rg: "vregions s (mp_region mp) = Some rg" "rg_ops rg = Anon_ops" and new: "page_at s sp v = None"
  shows "\<exists>s' s''. user_load v s = Some (0, s') \<and> user_store v a s' = Some s'' \<and> view s'' sp v = Some a"
proof -
  note i = vm_invD[OF inv]
  obtain x b k where x: "vspaces s sp = Some x" "b \<in> set (used_list (sp_area x))" "unat v \<in> blk b" "maps_block s sp b k mp"
    using m map_at_iff[OF i(2)] by blast
  note ax = spaces_okD(2)[OF i(2) x(1)]
  have ua: "user_addr v" by (rule area_ok_block(5)[OF ax x(2,3)])
  have d: "cr3 s = sp_dir x" "sp_dir x \<in> dirs s" using i(6) c x(1) spaces_okD(5)[OF i(2) x(1)] by (auto simp: cpu_ok_def)
  have ac: "accessible s sp v False" using m rg by (simp add: accessible_def)
  obtain s' mp' q f att where s': "vm_pagefault v False s = Some (0, s')" "map_at s sp v = Some mp'" "faulted s s' sp v mp' q f att"
    "pg_present att" "att AND PG_FLAG_USER \<noteq> 0" using pagefault_ok[OF inv mem c ac] by blast
  have "\<not> pg_present (pte (pgt s) (sp_dir x) v)" using i(5) x(1) ua new unfolding ptes_ok_def by fastforce
  then have miss: "mmu (pgt s) (cr3 s) v True False = None" using mmu_user[OF pages_okD(1)[OF i(1)] d(2) ua] d(1) by simp
  obtain t att' q' f' where t: "vm_pagefault v False s = Some (0, t)" "faulted s t sp v mp q' f' (PG_FLAG_USER OR PG_FLAG_RW OR PG_FLAG_PRESENT)"
    using fault_first[OF inv mem c m rg new] by blast
  note k = faulted_ok[OF inv m t(2)]
  have same: "vspaces t = vspaces s" "cr3 t = cr3 s" "cpu_space t = cpu_space s" and pa: "paddr t q' = Some f'" and z: "pmem t f' = (\<lambda>_. 0)"
    using t(2) new m by (simp_all add: faulted_def Let_def page_at_def)
  note j = vm_invD[OF k(1)]
  note fr = page_frame[OF j(1) pa]
  have dt: "sp_dir x \<in> dirs t" using spaces_okD(5)[OF j(2), of sp x] x(1) same by simp
  have e: "(of_nat f' OR (PG_FLAG_USER OR PG_FLAG_RW OR PG_FLAG_PRESENT)) AND fl = (PG_FLAG_USER OR PG_FLAG_RW OR PG_FLAG_PRESENT) AND fl"
    if "fl AND NOT (mask 12) = 0" for fl by (rule entry_flags(2)[OF fr(1,2) low_flags(1) that])
  have "PG_FLAG_USER AND NOT (mask 12) = 0" "PG_FLAG_RW AND NOT (mask 12) = 0" by (simp_all add: PG_FLAG_USER_def PG_FLAG_RW_def mask_eq_exp_minus_1)
  then have hit: "mmu (pgt t) (cr3 t) v True rw = Some f'" for rw
    using mmu_user[OF pages_okD(1)[OF j(1)] dt ua, of True rw] k(4)[OF x(1)] k(5) same(2) d(1) e entry_present[OF fr(1,2) low_flags(1) present_flags(1)]
      present_flags(6,8) by simp
  have load: "user_load v s = Some (0, t)" using miss t(1) hit z by (simp add: user_load_def user_frame_def)
  define u where "u = t\<lparr>pmem := (pmem t)(f' := (pmem t f')(page_off v := a))\<rparr>"
  have store: "user_store v a t = Some u" using hit by (simp add: user_store_def user_frame_def u_def)
  have "vregions t = vregions (put_slot (mp_region mp) (page_idx (bstart (mp_block mp)) v) (Some q') s)"
    using t(2) by (simp add: faulted_def Let_def)
  moreover have "page_idx (bstart (mp_block mp)) v < length (rg_pages rg)"
  proof -
    have "rg_size rg = bsize b" "bstart (mp_block mp) = bstart b" using maps_okD(4)[OF i(3), of k mp] x(4) rg(1) by (auto simp: maps_block_def)
    then show ?thesis using regions_okD(4)[OF i(4) rg(1)] block_pages(1)[OF ax x(2,3)] by simp
  qed
  ultimately have "region_page t (mp_region mp) (page_idx (bstart (mp_block mp)) v) = Some q'"
    using region_page_put_slot[OF rg(1)] by (simp add: region_page_def)
  then have "view u sp v = Some a" using m k(3) pa by (auto simp: view_def u_def vm_inv_pmem region_page_def split: bind_splits)
  then show ?thesis using load store by blast
qed

definition prot_ro :: u16 where "prot_ro = PROT_READ OR MAP_FIXED OR MAP_ANONYMOUS"

lemma vm_mapped_ro:
  "vm_inv (vm_mapped prot_ro)" "memory_left (vm_mapped prot_ro)" "cpu_space (vm_mapped prot_ro) = Some 0"
  "map_at (vm_mapped prot_ro) 0 0x400000 = Some \<lparr>mp_block = block1, mp_space = 0, mp_flags = prot_ro, mp_region = 1, mp_offset = 0\<rparr>"
  "vregions (vm_mapped prot_ro) 1 = Some region5" "page_at (vm_mapped prot_ro) 0 0x400000 = None"
proof -
  have fl: "prot_ro AND MAP_FIXED \<noteq> 0" "prot_ro AND PROT_NONE = 0" "prot_ro AND MAP_ANONYMOUS = MAP_ANONYMOUS" "prot_ro AND MAP_SHARED = 0"
    by (simp_all add: prot_ro_def PROT_READ_def MAP_FIXED_def MAP_ANONYMOUS_def PROT_NONE_def MAP_SHARED_def)
  have sp: "vspaces vm2 0 = Some \<lparr>sp_dir = 130 * 4096, sp_area = sma_area_create USERMEM_START USERMEM_SIZE, sp_refs = 1\<rparr>"
    by (simp add: vm2_def vm1_def)
  have "slot_get (p_fds proc0) 0 = None" by (simp add: slot_get_def proc0_def OPEN_MAX_def)
  then have "vm_pre (V_mmap 0x400000 0x1000 prot_ro 0 0 proc0 0) vm2" by (simp add: sp fl area0 regular_def SMA_ALLOC_FIXED_def)
  then show "vm_inv (vm_mapped prot_ro)" by (rule step_ok[OF vm2_ok _ run_map[OF fl(1-3)]])
  have pf: "pframes (pgt (vm_mapped prot_ro)) = frames1" by (simp add: vm_mapped_def vm2_def vm1_def paging1_def)
  have "free_frame (vm_mapped prot_ro) 150" "free_frame (vm_mapped prot_ro) 151" by (simp_all add: free_frame_def pf frames1_def frames0_def frame_used_def)
  then show "memory_left (vm_mapped prot_ro)" unfolding memory_left_def by (intro exI[of _ 150] exI[of _ 151]) simp
  show "cpu_space (vm_mapped prot_ro) = Some 0" by (simp add: vm_mapped_def vm2_def)
  show m: "map_at (vm_mapped prot_ro) 0 0x400000 = Some \<lparr>mp_block = block1, mp_space = 0, mp_flags = prot_ro, mp_region = 1, mp_offset = 0\<rparr>"
    by (simp add: map_at_def block_at_def vm_mapped_def area1_def covers_def block1_def)
  show r: "vregions (vm_mapped prot_ro) 1 = Some region5" by (simp add: vm_mapped_def region5_def)
  show "page_at (vm_mapped prot_ro) 0 0x400000 = None" using r by (simp add: page_at_def m region_page_def page_idx_def block1_def) (simp add: region5_def)
qed

theorem load_makes_writable_witness:
  "\<not> writable prot_ro \<and> (\<exists>s' s''. user_load 0x400000 (vm_mapped prot_ro) = Some (0, s') \<and> user_store 0x400000 7 s' = Some s'' \<and> view s'' 0 0x400000 = Some 7)"
proof -
  have "\<not> writable prot_ro" by (simp add: writable_def prot_ro_def PROT_READ_def PROT_WRITE_def MAP_FIXED_def MAP_ANONYMOUS_def)
  moreover have "rg_ops region5 = Anon_ops" by (simp add: region5_def)
  ultimately show ?thesis using load_makes_writable[OF vm_mapped_ro(1-4) _ _ vm_mapped_ro(6), of region5 7] vm_mapped_ro(5) by simp
qed

end
