(* ===== verification/Spec2Isabelle.thy ===== *)
theory Spec2Isabelle
  imports KList Phys Sma Strings Sched Locks Pipe Devices Storage Ext2Write Ramfs VfsProps VmProps
begin

text \<open>
  A verification development of the kernel of the Idylla operating system (\<^verbatim>\<open>src/src/sys\<close>), in its i686
  configuration. Paths below are relative to that directory.

  \<^bold>\<open>The program.\<close> A monolithic kernel: \<^verbatim>\<open>mm/\<close> hands out physical frames and ranges of addresses, \<^verbatim>\<open>lib/\<close>
  has the list, memory and string routines everything uses, \<^verbatim>\<open>kernel/\<close> has threads, wait queues, sleeping locks,
  pipes, the device switch and the virtual file system with the system calls on files, and \<^verbatim>\<open>modules/\<close> has
  the drivers and file systems that register with these. Data structures are chained with intrusive lists,
  protected by spin locks and sleeping mutexes, and released by reference counts.

  \<^bold>\<open>The theories\<close>, in the order of the imports.
  \<^item> \<open>Prelude\<close>: machine types, error numbers (\<^verbatim>\<open>lib/errno.h\<close>), descriptor tables (\<open>find_slot\<close>, \<open>slot_get\<close>), the
    named collections and the locale \<open>invariant_system\<close> (initial states, a step relation and an inductive
    invariant), which the concurrent components interpret.
  \<^item> \<open>KList\<close>: \<^verbatim>\<open>include/lib/list.h\<close> on a heap of next and previous pointers. \<open>ring\<close> relates the heap to a HOL
    list; locale \<open>intrusive_list\<close> is the interface, interpreted on the pointer code.
  \<^item> \<open>Phys\<close>: \<^verbatim>\<open>mm/phys.c\<close>, the frame bitmap at word level with its zones. The scan that may not return is a
    \<open>partial_function\<close>; locale \<open>frame_source\<close> is what users of single frames rely on.
  \<^item> \<open>Sma\<close>: \<^verbatim>\<open>mm/sma.c\<close> and \<^verbatim>\<open>mm/kmem.c\<close>, the used and free block lists with 32-bit addresses, the invariant that
    the blocks tile the area, locale \<open>range_allocator\<close>.
  \<^item> \<open>Strings\<close>: \<^verbatim>\<open>lib/string.c\<close> on a byte memory, with the word-wise loops and their alignment tests.
  \<^item> \<open>Sched\<close>: \<^verbatim>\<open>kernel/sched.c\<close>, \<^verbatim>\<open>kernel/thread.c\<close>, \<^verbatim>\<open>kernel/wait.c\<close>, \<^verbatim>\<open>kernel/signal.c\<close>; \<open>kstep\<close> is one event of
    the kernel (clock tick, sleep, wake-up, thread creation).
  \<^item> \<open>Locks\<close>: \<^verbatim>\<open>kernel/mutex.c\<close>, \<^verbatim>\<open>kernel/sem.c\<close>, \<^verbatim>\<open>kernel/rwlock.c\<close> as steps of any interleaving of any number
    of threads; a call is cut where it sleeps.
  \<^item> \<open>Pipe\<close>: the ring buffer of \<^verbatim>\<open>kernel/pipe.c\<close> with its two wait queues.
  \<^item> \<open>Devices\<close>: \<^verbatim>\<open>kernel/cdev.c\<close>, \<^verbatim>\<open>kernel/bdev.c\<close>, \<^verbatim>\<open>kernel/device.c\<close>; locale \<open>device_switch\<close> for both tables.
  \<^item> \<open>Storage\<close>: \<^verbatim>\<open>kernel/buffer.c\<close>, \<^verbatim>\<open>modules/drivers/storage/storage.c\<close> and \<^verbatim>\<open>msdos-part.c\<close>: the sector cache, the
    reads and writes that go through it, and the discovery of partitions; names are formatted with \<open>Printf\<close>,
    \<^verbatim>\<open>lib/printf.c\<close>.
  \<^item> \<open>Ext2\<close>, \<open>Ext2Inode\<close>, \<open>Ext2Fs\<close>: \<^verbatim>\<open>modules/fs/ext2/\<close> on any block device that obeys the law \<open>block_device\<close>: the
    on-disk structures with the super block, block and i-node allocation (\<^verbatim>\<open>super.c\<close>, \<^verbatim>\<open>balloc.c\<close>, \<^verbatim>\<open>ialloc.c\<close>),
    i-nodes and their block maps (\<^verbatim>\<open>inode.c\<close>), and the v-node operations and the mount (\<^verbatim>\<open>ext2.c\<close>).
  \<^item> \<open>Ext2Props\<close>, \<open>Ext2Content\<close>, \<open>Ext2Read\<close>, \<open>Ext2Write\<close>: the i-node table as a record store (locale \<open>record_store\<close>), the
    content of a file through its direct, indirect and doubly indirect blocks, and reads and writes against it.
  \<^item> \<open>Vnode\<close>: \<^verbatim>\<open>include/kernel/vfs.h\<close>, the data the virtual file system and the file systems share, and locale
    \<open>vnode_driver\<close>, what the former relies on of the latter.
  \<^item> \<open>Ramfs\<close>: \<^verbatim>\<open>modules/fs/ramfs/ramfs.c\<close>, all operations; \<open>vnode_driver\<close> is interpreted on them.
  \<^item> \<open>Vfs\<close>: \<^verbatim>\<open>kernel/vfs.c\<close>, every compiled function, and \<^verbatim>\<open>sys_pipe\<close>; v-nodes, mount points, files and pipes
    are heaps, and each system call takes the calling process and the state and returns both.
  \<^item> \<open>VfsRefs\<close>, \<open>VfsCalls\<close>, \<open>VfsProps\<close>: the reference-count invariant of the v-node cache, that every system
    call, fork and exit keeps it, and what single operations do.
  \<^item> \<open>Paging\<close>: \<^verbatim>\<open>arch/x86/page_32.c\<close>, the two-level page tables in frames of the allocator, and the translation the
    processor makes of them (\<open>mmu\<close>).
  \<^item> \<open>Vm\<close>: \<^verbatim>\<open>mm/vm_space.c\<close>, \<^verbatim>\<open>vm_mmap.c\<close>, \<^verbatim>\<open>vm_getpage.c\<close>, \<^verbatim>\<open>vm_mmap_anon.c\<close>, \<^verbatim>\<open>vm_mmap_vfs.c\<close> and \<^verbatim>\<open>vm_pagefault.c\<close>:
    address spaces, mappings, regions and pages as heaps of objects, the bytes of the frames, and the loads and stores
    of a process with the page fault they may raise.
  \<^item> \<open>VmInv\<close>, \<open>VmFault\<close>, \<open>VmSpace\<close>, \<open>VmClone\<close>, \<open>VmProps\<close>: the invariant of virtual memory (exact counts of
    references to pages and regions, page tables that lead to the right pages), that faults are invisible, what mapping
    and cloning do, and the refinement of a machine in which address spaces share nothing.
  \<^item> This theory: the properties that span components (the virtual file system over the RAM file system, the
    reference counts from the mount of the root on).

  \<^bold>\<open>What the lemmas show.\<close> For the allocators: what is granted was free, belongs to the zone or place asked for,
  and is exactly what becomes used; freeing undoes allocating; and the inputs on which the code does not do so
  (the endless scan of a fragmented word, the overlapping hint, the wrap at the end of the address space).
  For the scheduler: one running thread, the ready queue is the set of ready threads, and a bound on the
  waiting time. For locks and pipes: mutual exclusion, exact counts, no lost wake-up, first in first out, in
  every interleaving. For the string routines: agreement with byte-wise references at every alignment. For the
  file systems: creation, removal and lookup agree, what is written is read back, reference counts are exact
  in every reachable state; on ext2, allocation takes a free bit of the bitmaps and keeps the counters with them,
  records of the i-node table are independent, reads return the content of the file through all levels of
  indirection, and writes in place change exactly the bytes they cover, with the offset at which the last,
  partial block of a write is misplaced. For virtual memory: page tables are maps, copy on write implements copying,
  a store changes one byte of one address space, and the faults that are refused; also the write protection that a
  first load removes.

  \<^bold>\<open>Conventions.\<close> Pointers are natural numbers that index a heap; \<open>kalloc\<close> always returns a fresh one, with
  unspecified contents where the code does not set them. C results are integers, negative for an error, or
  \<open>errno + 'a\<close>; \<open>None\<close> marks an access outside the memory the code owns, or a loop that does not end. A section
  under a spin lock or mutex is one step. Registers are opaque. Machine words are
  kept at their width where they may wrap (addresses, bitmap words, modes); counts that stay far below
  their bound are integers.

  \<^bold>\<open>Bounds and fuel.\<close> \<open>vnode_get_loop\<close> follows the counter of the source (\<^verbatim>\<open>SYMLOOP_MAX\<close> = 32 links), not fuel.
  \<open>list_foreach\<close> has fuel for the traversal; the lemmas give the amount that is enough, the length of the ring.
  The bitmap scan has no fuel: not returning is the value \<open>None\<close>. All other loops are structural or have a
  termination proof.

  \<^bold>\<open>Not modelled.\<close> \<^verbatim>\<open>mm/malloc.c\<close> is Doug Lea's allocator, third-party code, and \<^verbatim>\<open>mm/heap.c\<close> its glue:
  allocation is a fresh pointer here. The rest of \<^verbatim>\<open>arch/x86/\<close> (interrupt tables, context switch, 64-bit page tables, boot) is
  processor state and assembly. The hardware drivers (ATA, PCI, keyboard, VBE) are port I/O. \<^verbatim>\<open>kernel/syscall.c\<close> only
  unpacks registers. User programs and the packages under \<^verbatim>\<open>src/pkgsrc\<close> are outside the kernel.
  Page tables are typed: a frame of a table holds its entries, not bytes, and all frames are reached through the kernel's
  window on physical memory, as on machines with at most 512 MB. The instruction that faulted is retried once, after a
  fault that was handled. Shared mappings are in the model but not in the refinement, nor is the release of an address
  space. Process creation and exit (\<^verbatim>\<open>kernel/fork.c\<close>, \<^verbatim>\<open>exit.c\<close>, \<^verbatim>\<open>proc.c\<close>) are modelled only in their parts for files and
  memory; program loading and the consoles are not.
\<close>

section \<open>The virtual file system on top of the RAM file system\<close>

definition boot_args :: "string \<Rightarrow> string option" where
  "boot_args k = (if k = ''rootfs='' then Some ''rootfs=ramfs'' else if k = ''rw'' then Some ''rw'' else None)"

definition boot_vfs :: "(ramfs, unit) vfs" where
  "boot_vfs = \<lparr>fs_list = [ramfs_fs (\<lambda>_. 0)], fs_refs = (\<lambda>_. 0), mount_list = [], mounts = (\<lambda>_. undefined), next_mount = 0,
     vnodes = (\<lambda>_. vnode_zero), next_vnode = 0, files = Map.empty, next_file = 0, pipes = (\<lambda>_. pipe_new), next_pipe = 0,
     cdevs = replicate 255 None, bdevs = replicate 255 None, world = (), shutdown = (\<lambda>_ w. (0, w)), kjunk = (\<lambda>_. 0)\<rparr>"

definition boot_proc :: vproc where
  "boot_proc = \<lparr>p_uid = 0, p_gid = 0, p_euid = 0, p_egid = 0, p_umask = 0, p_root = 0, p_cwd = 0, p_fds = replicate OPEN_MAX None\<rparr>"

definition boot_registry :: registry where
  "boot_registry = \<lparr>bdev_list = [], cdev_list = [], event_list = [], event_wait = []\<rparr>"


lemma boot_mounts: "\<exists>r s'. mount_fs (ramfs_fs (\<lambda>_. 0)) 0 ''/dev/root'' 0 None (boot_vfs\<lparr>fs_refs := x\<rparr>) = (0, Some r, s')"
proof -
  have "fst (ramfs_mount m) = 0" "snd (ramfs_mount m) = ramfs1" for m by (simp_all add: ramfs1_def ramfs_mount_def Let_def split: prod.splits)
  then have m: "ramfs_mount m = (0, ramfs1)" for m by (metis prod.collapse)
  show ?thesis using ramfs1_facts(1,7)
    by (simp add: mount_fs_def Let_def ramfs_fs_def ramfs_vnode_ops_def m vnode_new_def ramfs_open_def ramfs_root_def
        RAMFS_ROOT_INODE_def boot_vfs_def split: prod.split)
qed

lemma boot_runs: "\<exists>p s. vfs_mount_root boot_args boot_registry boot_proc boot_vfs = Some (p, s)"
proof -
  obtain r s' where m: "mount_fs (ramfs_fs (\<lambda>_. 0)) 0 ''/dev/root'' 0 None
      (boot_vfs\<lparr>fs_refs := (fs_refs boot_vfs)(''ramfs'' := fs_refs boot_vfs ''ramfs'' + 1)\<rparr>) = (0, Some r, s')"
    using boot_mounts by blast
  have l: "fs_lookup ''ramfs'' boot_vfs = (Some (ramfs_fs (\<lambda>_. 0)), boot_vfs\<lparr>fs_refs := (fs_refs boot_vfs)(''ramfs'' := fs_refs boot_vfs ''ramfs'' + 1)\<rparr>)"
    by (simp add: fs_lookup_def boot_vfs_def ramfs_fs_def)
  have "fs_nodev (ramfs_fs (\<lambda>_. 0))" by (simp add: ramfs_fs_def)
  then show ?thesis using m unfolding vfs_mount_root_def
    by (simp add: boot_args_def l Let_def split: prod.split sum.split)
qed



text \<open>C2. Writing and reading back through descriptors on the RAM file system: a write on a regular file opened for
  reading and writing returns the full length, moving the position back and reading the same number of bytes
  returns the bytes written, and the position is then behind them.\<close>

theorem file_write_read:
  fixes s :: "(ramfs, 'w) vfs"
  assumes "file_of fd p s = Some (Inr (f, fl))" and "fvnode fl = Some v" and "S_ISREG (ftype fl)" and "fmode fl = O_RDWR"
    and "ops_of s v = ramfs_vnode_ops junk" and "mflags (mp_of s v) AND MS_RDONLY = 0" and "data \<noteq> []"
    and "magic (mdata (mp_of s v)) = RAMFS_MAGIC" and "file_ok (inode (mdata (mp_of s v)) (vdata (vnodes s v)))"
    and "0 \<le> fpos fl" and "fpos fl + int (length data) < 2 ^ 31" and "0 \<le> rused (mdata (mp_of s v))"
    and "rused (mdata (mp_of s v)) \<le> rsize (mdata (mp_of s v))" and "rsize (mdata (mp_of s v)) < 2 ^ 31"
  shows "\<exists>s1 s2 s3. sys_write t fd data p s = Some (Done (int (length data)) [] [], s1) \<and>
    sys_lseek fd (fpos fl) 0 p s1 = Some (fpos fl, s2) \<and>
    sys_read t fd (length data) p s2 = Some (Done (int (length data)) data [], s3) \<and>
    map_option fpos (files s3 f) = Some (fpos fl + int (length data))"
proof -
  have ty: "\<not> S_ISFIFO (ftype fl)" "\<not> S_ISCHR (ftype fl)" "\<not> S_ISBLK (ftype fl)" "\<not> S_ISDIR (ftype fl)"
    using assms(3) by (simp_all add: S_ISREG_def S_ISFIFO_def S_ISCHR_def S_ISBLK_def S_ISDIR_def S_IFREG_def S_IFIFO_def
        S_IFCHR_def S_IFBLK_def S_IFDIR_def)
  have md: "(fmode fl + 1) AND FWRITE = FWRITE" "(fmode fl + 1) AND FREAD = FREAD" "fmode fl AND FAPPEND = 0"
    by (simp_all add: assms(4) O_RDWR_def FWRITE_def FREAD_def FAPPEND_def)
  obtain n x d where w: "ramfs_write junk (vnodes s v) data (fpos fl) (mdata (mp_of s v)) = (n, x, d)" by (metis prod.exhaust)
  note ws = ramfs_write_spec[OF assms(8-14), of junk, unfolded w prod.case]
  have sp: "same_place (vnodes s v) x"
    using ramfs_driver.write_place[of junk "ramfs_write junk" "vnodes s v" data "fpos fl" "mdata (mp_of s v)"] w
    by (simp add: ramfs_vnode_ops_def)
  obtain dd where d0: "slot_get (p_fds p) fd = Some dd" "fdfile dd = f" "files s f = Some fl"
    using assms(1) by (auto simp: file_of_def split: option.splits)
  define s1 where "s1 = advance f n (upd_vnode v (\<lambda>_. x) (set_data v d s))"
  have wr: "sys_write t fd data p s = Some (Done (int (length data)) [] [], s1)"
    unfolding sys_write_def using assms(1,2,5,6) ty md w ws d0 by (simp add: ramfs_vnode_ops_def s1_def)
  have s1: "files s1 f = Some (fl\<lparr>fpos := fpos fl + n\<rparr>)" "vnodes s1 v = x" "mdata (mp_of s1 v) = d" "ops_of s1 v = ramfs_vnode_ops junk"
    using d0 ws assms(5,7) sp by (simp_all add: s1_def advance_def same_place_def)
  have fo1: "file_of fd p s1 = Some (Inr (f, fl\<lparr>fpos := fpos fl + n\<rparr>))" using d0 s1(1) by (simp add: file_of_def)
  define s2 where "s2 = s1\<lparr>files := (files s1)(f \<mapsto> fl\<lparr>fpos := fpos fl\<rparr>)\<rparr>"
  have seek: "sys_lseek fd (fpos fl) 0 p s1 = Some (fpos fl, s2)"
    using fo1 assms(2,10) by (simp add: sys_lseek_def s2_def)
  have fo2: "file_of fd p s2 = Some (Inr (f, fl))" using d0 by (simp add: file_of_def s2_def)
  have "vnodes s2 v = x" "mdata (mp_of s2 v) = d" "ops_of s2 v = ramfs_vnode_ops junk" using s1 by (simp_all add: s2_def)
  then have "sys_read t fd (length data) p s2 = Some (Done (int (length data)) data [], advance f (int (length data)) s2)"
    unfolding sys_read_def using fo2 assms(2) ty md ws by (simp add: ramfs_vnode_ops_def)
  moreover have "map_option fpos (files (advance f (int (length data)) s2) f) = Some (fpos fl + int (length data))"
    using assms(7) by (simp add: advance_def s2_def)
  ultimately show ?thesis using wr seek by blast
qed

definition open_mount :: "ramfs mountpoint" where
  "open_mount = \<lparr>mdevice = 0, mdevname = ''none'', mfs = ramfs_fs (\<lambda>_. 0), mflags = 0, mdata = ramfs1, root_vnode = 1,
     parent_vnode = None, vnode_list = [0]\<rparr>"

definition open_vfs :: "(ramfs, unit) vfs" where
  "open_vfs = (vfs1 open_mount [(file1, 0)])\<lparr>vnodes := (\<lambda>_. file_vnode)\<rparr>"

theorem file_write_read_witness:
  "\<exists>s1 s2 s3. sys_write 0 0 [7, 8, 9] proc1 open_vfs = Some (Done 3 [] [], s1) \<and> sys_lseek 0 0 0 proc1 s1 = Some (0, s2) \<and>
     sys_read 0 0 3 proc1 s2 = Some (Done 3 [7, 8, 9] [], s3) \<and> map_option fpos (files s3 0) = Some 3"
proof -
  have mp: "mp_of open_vfs 0 = open_mount" by (simp add: open_vfs_def vfs1_def)
  have v: "vnodes open_vfs 0 = file_vnode" by (simp add: open_vfs_def)
  have f: "file_of 0 proc1 open_vfs = Some (Inr (0, file1))"
    by (simp add: file_of_def proc1_def open_vfs_def vfs1_def slot_get_def OPEN_MAX_def)
  have a: "ops_of open_vfs 0 = ramfs_vnode_ops (\<lambda>_. 0)" "mflags (mp_of open_vfs 0) AND MS_RDONLY = 0"
    "magic (mdata (mp_of open_vfs 0)) = RAMFS_MAGIC" "0 \<le> rused (mdata (mp_of open_vfs 0))"
    "rused (mdata (mp_of open_vfs 0)) \<le> rsize (mdata (mp_of open_vfs 0))" "rsize (mdata (mp_of open_vfs 0)) < 2 ^ 31"
    unfolding mp by (simp_all add: open_mount_def ramfs_fs_def ramfs1_facts)
  have b: "file_ok (inode (mdata (mp_of open_vfs 0)) (vdata (vnodes open_vfs 0)))"
    unfolding mp unfolding v by (simp add: open_mount_def file_vnode_def ramfs1_free_inode file_ok_def inode_zero_def)
  have c: "fvnode file1 = Some 0" "S_ISREG (ftype file1)" "fmode file1 = O_RDWR" "[7, 8, 9 :: u8] \<noteq> []" "0 \<le> fpos file1"
    "fpos file1 + int (length [7, 8, 9 :: u8]) < 2 ^ 31"
    by (simp_all add: file1_def S_ISREG_def S_IFREG_def S_IFMT_def)
  note w = file_write_read[OF f c(1-3) a(1,2) c(4) a(3) b c(5,6) a(4-6), of 0]
  show ?thesis using w by (simp add: file1_def numeral_3_eq_3)
qed

end
